(* ===== verification/Prelude.thy ===== *)
theory Prelude
  imports Main "HOL-Library.Word"
begin

text \<open>
  Shared vocabulary of the development: machine integers, the constants of
  \<^verbatim>\<open>include/sys/memory_helpers.h\<close>, the faults a C statement can run into, the
  error monad they travel in, and the interface of a first-in first-out queue, which three
  components of the kernel implement (the free and used page lists, the process queue and the
  keyboard input buffer).
\<close>

unbundle bit_operations_syntax

section \<open>Machine integers\<close>

type_synonym u8 = "8 word"
type_synonym u16 = "16 word"
type_synonym u32 = "32 word"
type_synonym u64 = "64 word"

abbreviation (input) PAGESIZE :: u64 where "PAGESIZE \<equiv> 0x1000"

abbreviation (input) PRESENT :: u64 where "PRESENT \<equiv> 1"
abbreviation (input) READ_WRITE :: u64 where "READ_WRITE \<equiv> 2"
abbreviation (input) USER_ACCESSIBLE :: u64 where "USER_ACCESSIBLE \<equiv> 4"
abbreviation (input) COW :: u64 where "COW \<equiv> 0x200"

lemma of_nat_64_eq_iff: "a < 2 ^ 64 \<Longrightarrow> b < 2 ^ 64 \<Longrightarrow> (of_nat a :: u64) = of_nat b \<longleftrightarrow> a = b"
  by (simp add: word_of_nat_eq_iff take_bit_nat_eq_self)

lemma unat64_lt: "unat (w :: u64) < 2 ^ 64"
  using unsigned_less[of w] by simp

lemma unat_of_nat64: "n < 2 ^ 64 \<Longrightarrow> unat (of_nat n :: u64) = n"
  by (simp add: unsigned_of_nat take_bit_nat_eq_self)

lemma unat_add_of_nat64:
  assumes "unat (a :: u64) + n < 2 ^ 64"
  shows "unat (a + of_nat n) = unat a + n"
proof -
  have "n < 2 ^ 64" using assms by simp
  then have "unat (of_nat n :: u64) = n" by (rule unat_of_nat64)
  with assms show ?thesis by (simp add: unat_word_ariths)
qed

section \<open>Faults and the error monad\<close>

text \<open>
  C has no exceptions; what can go wrong is undefined behaviour or a deliberate stop. An access
  outside the object it is made to is \<open>Out_Of_Bounds\<close>, a dereferenced \<^verbatim>\<open>NULL\<close> is
  \<open>Null_Deref\<close>, an access to an unmapped virtual address is \<open>Page_Fault\<close>, and a message
  followed by \<^verbatim>\<open>while(1);\<close> is \<open>Panic\<close>.
\<close>

datatype fault = Out_Of_Bounds | Null_Deref | Page_Fault u64 | Panic

type_synonym 'a result = "fault + 'a"

definition bindr :: "'e + 'a \<Rightarrow> ('a \<Rightarrow> 'e + 'b) \<Rightarrow> 'e + 'b" where
  "bindr m f = (case m of Inl e \<Rightarrow> Inl e | Inr x \<Rightarrow> f x)"

lemma bindr_Inl [simp]: "bindr (Inl e) f = Inl e"
  by (simp add: bindr_def)

lemma bindr_Inr [simp]: "bindr (Inr x) f = f x"
  by (simp add: bindr_def)

lemma bindr_eq_InrE [elim!]:
  assumes "bindr m f = Inr y"
  obtains x where "m = Inr x" and "f x = Inr y"
  using assms by (auto simp: bindr_def split: sum.splits)

lemma bindr_cong [fundef_cong]:
  "m = m' \<Longrightarrow> (\<And>x. m' = Inr x \<Longrightarrow> f x = g x) \<Longrightarrow> bindr m f = bindr m' g"
  by (cases m') (auto simp: bindr_def)

section \<open>Counting loops\<close>

text \<open>\<^verbatim>\<open>for (int i = a; i < n; ++i)\<close> around a body that can fail and leaves \<^verbatim>\<open>i\<close> alone.\<close>

function for_up :: "nat \<Rightarrow> nat \<Rightarrow> (nat \<Rightarrow> 's \<Rightarrow> 's result) \<Rightarrow> 's \<Rightarrow> 's result" where
  "for_up i n body s = (if i < n then bindr (body i s) (for_up (Suc i) n body) else Inr s)"
  by pat_completeness auto
termination by (relation "measure (\<lambda>(i, n, body, s). n - i)") auto

declare for_up.simps [simp del]

lemma for_up_done [simp]: "n \<le> i \<Longrightarrow> for_up i n body s = Inr s"
  by (simp add: for_up.simps)

lemma for_up_step: "i < n \<Longrightarrow> for_up i n body s = bindr (body i s) (for_up (Suc i) n body)"
  by (simp add: for_up.simps)

lemma for_up_inv:
  assumes "a \<le> n" and "P a s"
    and "\<And>i t. a \<le> i \<Longrightarrow> i < n \<Longrightarrow> P i t \<Longrightarrow> \<exists>t'. body i t = Inr t' \<and> P (Suc i) t'"
  shows "\<exists>s'. for_up a n body s = Inr s' \<and> P n s'"
  using assms
proof (induction "n - a" arbitrary: a s)
  case 0
  then show ?case by simp
next
  case (Suc d)
  then have "a < n" by simp
  with Suc.prems obtain t where t: "body a s = Inr t" "P (Suc a) t" by blast
  have "\<exists>s'. for_up (Suc a) n body t = Inr s' \<and> P n s'"
    using Suc.hyps(2) \<open>a < n\<close> t(2) Suc.prems(3) by (intro Suc.hyps(1)) simp_all
  with t(1) \<open>a < n\<close> show ?case by (simp add: for_up_step)
qed

lemma for_up_same:
  "(\<And>i t. i < n \<Longrightarrow> body i t = body' i t) \<Longrightarrow> for_up a n body s = for_up a n body' s"
proof (induction "n - a" arbitrary: a s)
  case 0
  then show ?case by simp
next
  case (Suc d)
  then have "a < n" by simp
  moreover have "for_up (Suc a) n body t = for_up (Suc a) n body' t" for t
    by (rule Suc.hyps(1)) (use Suc.hyps(2) Suc.prems in simp_all)
  ultimately show ?case using Suc.prems by (simp add: for_up_step bindr_def split: sum.split)
qed

lemma for_up_cong [fundef_cong]:
  "a = a' \<Longrightarrow> n = n' \<Longrightarrow> s = s' \<Longrightarrow> (\<And>i t. i < n' \<Longrightarrow> body i t = body' i t) \<Longrightarrow>
     for_up a n body s = for_up a' n' body' s'"
  by (simp add: for_up_same[of n' body body'])

section \<open>First-in first-out queues\<close>

text \<open>
  \<open>repr s xs\<close>: the state \<open>s\<close> holds the elements \<open>xs\<close>, oldest first. \<open>room xs x\<close> is what a
  caller has to ensure before it appends \<open>x\<close>; none of the kernel's queues checks it.
\<close>

fun dequeue_n :: "('s \<Rightarrow> 'a \<times> 's) \<Rightarrow> nat \<Rightarrow> 's \<Rightarrow> 'a list \<times> 's" where
  "dequeue_n deq 0 s = ([], s)"
| "dequeue_n deq (Suc n) s =
     (let (x, s1) = deq s; (xs, s2) = dequeue_n deq n s1 in (x # xs, s2))"

fun admits :: "('a list \<Rightarrow> 'a \<Rightarrow> bool) \<Rightarrow> 'a list \<Rightarrow> 'a list \<Rightarrow> bool" where
  "admits room xs [] = True"
| "admits room xs (y # ys) = (room xs y \<and> admits room (xs @ [y]) ys)"

locale fifo =
  fixes repr :: "'s \<Rightarrow> 'a list \<Rightarrow> bool"
    and room :: "'a list \<Rightarrow> 'a \<Rightarrow> bool"
    and enq :: "'a \<Rightarrow> 's \<Rightarrow> 's"
    and deq :: "'s \<Rightarrow> 'a \<times> 's"
  assumes enq_repr: "repr s xs \<Longrightarrow> room xs x \<Longrightarrow> repr (enq x s) (xs @ [x])"
    and deq_repr: "repr s (x # xs) \<Longrightarrow> \<exists>s'. deq s = (x, s') \<and> repr s' xs"
begin

lemma deq_fst: "repr s (x # xs) \<Longrightarrow> fst (deq s) = x"
  using deq_repr by fastforce

lemma deq_snd: "repr s (x # xs) \<Longrightarrow> repr (snd (deq s)) xs"
  using deq_repr by fastforce

lemma enq_all_repr: "repr s xs \<Longrightarrow> admits room xs ys \<Longrightarrow> repr (fold enq ys s) (xs @ ys)"
proof (induction ys arbitrary: s xs)
  case Nil
  then show ?case by simp
next
  case (Cons y ys)
  then have "repr (enq y s) (xs @ [y])" by (simp add: enq_repr)
  with Cons.IH[of "enq y s" "xs @ [y]"] Cons.prems(2) show ?case by simp
qed

lemma dequeue_n_repr:
  "repr s xs \<Longrightarrow> n \<le> length xs \<Longrightarrow>
     \<exists>s'. dequeue_n deq n s = (take n xs, s') \<and> repr s' (drop n xs)"
proof (induction n arbitrary: s xs)
  case 0
  then show ?case by simp
next
  case (Suc n)
  then obtain x xs' where xs: "xs = x # xs'" by (cases xs) auto
  with Suc.prems obtain s1 where "deq s = (x, s1)" and "repr s1 xs'"
    using deq_repr by blast
  with Suc.IH[of s1 xs'] Suc.prems(2) xs show ?case by auto
qed

lemma first_in_first_out:
  assumes "repr s []" and "admits room [] ys"
  shows "fst (dequeue_n deq (length ys) (fold enq ys s)) = ys"
proof -
  from enq_all_repr[OF assms] have "repr (fold enq ys s) ys" by simp
  from dequeue_n_repr[OF this, of "length ys"] show ?thesis by auto
qed

lemma rotate_repr:
  assumes "repr s (x # xs)" and "room xs x"
  shows "repr (enq x (snd (deq s))) (xs @ [x])"
  using assms by (auto intro: enq_repr deq_snd)

end

end
