(* ===== verification/Machine.thy ===== *)
theory Machine
  imports Prelude
begin

text \<open>
  The memory of the machine under the kernel: bytes at 64-bit physical addresses, little-endian
  quadwords in them, and the translation of virtual addresses through four levels of page tables as
  the processor does it (4 KB pages, 52-bit frames, no translation cache). The kernel's own code
  starts in \<open>Paging\<close>.
\<close>

type_synonym ram = "u64 \<Rightarrow> u8"

section \<open>Quadwords\<close>

definition rd64 :: "ram \<Rightarrow> u64 \<Rightarrow> u64" where
  "rd64 m a = horner_sum of_bool 2 (map (\<lambda>n. bit (m (a + of_nat (n div 8))) (n mod 8)) [0..<64])"

definition wr64 :: "ram \<Rightarrow> u64 \<Rightarrow> u64 \<Rightarrow> ram" where
  "wr64 m a v = (\<lambda>x. if unat (x - a) < 8 then ucast (drop_bit (8 * unat (x - a)) v) else m x)"

definition qaligned :: "u64 \<Rightarrow> bool" where
  "qaligned a = (8 dvd unat a)"

lemma bit_rd64: "bit (rd64 m a) n \<longleftrightarrow> n < 64 \<and> bit (m (a + of_nat (n div 8))) (n mod 8)"
  by (auto simp: rd64_def bit_horner_sum_bit_word_iff)

lemma rd64_cong: "(\<And>i. i < 8 \<Longrightarrow> m (a + of_nat i) = m' (a + of_nat i)) \<Longrightarrow> rd64 m a = rd64 m' a"
  by (intro bit_eqI) (auto simp: bit_rd64)

lemma rd64_wr64_same [simp]: "rd64 (wr64 m a v) a = v"
proof (rule bit_eqI)
  fix n
  assume "possible_bit TYPE(u64) n"
  then have n: "n < 64" by simp
  then have "n div 8 < 8" by simp
  then have u: "unat (of_nat (n div 8) :: u64) = n div 8" by (intro unat_of_nat64) simp
  show "bit (rd64 (wr64 m a v) a) n = bit v n"
    using n \<open>n div 8 < 8\<close> by (simp add: bit_rd64 wr64_def u bit_ucast_iff bit_drop_bit_eq)
qed

lemma qaligned_gap:
  assumes "qaligned a" and "qaligned b" and "a \<noteq> b" and "i < 8"
  shows "8 \<le> unat (b + of_nat i - a)"
proof -
  have i: "unat (of_nat i :: u64) = i" using assms(4) by (intro unat_of_nat64) simp
  from assms(1,2) obtain p q where p: "unat a = 8 * p" "unat b = 8 * q" by (auto simp: qaligned_def dvd_def)
  have ne: "p \<noteq> q" using assms(3) p by (metis word_unat_eq_iff)
  have l: "8 * p < 2 ^ 64" "8 * q < 2 ^ 64" using p unat64_lt by metis+
  have s: "unat (b + of_nat i) = 8 * q + i"
    using p(2) l(2) assms(4) by (subst unat_add_of_nat64) simp_all
  show ?thesis unfolding unat_sub_if' s p(1) using ne l assms(4) by auto
qed

lemma rd64_wr64_other:
  assumes "qaligned a" and "qaligned b" and "a \<noteq> b"
  shows "rd64 (wr64 m a v) b = rd64 m b"
proof (rule rd64_cong)
  fix i :: nat
  assume "i < 8"
  from qaligned_gap[OF assms this] show "wr64 m a v (b + of_nat i) = m (b + of_nat i)"
    by (simp add: wr64_def)
qed

section \<open>Pages\<close>

text \<open>The mask of the frame number in an entry, \<^verbatim>\<open>0xffffffffff000\<close>, and that of the offset.\<close>

definition frame :: "u64 \<Rightarrow> u64" where
  "frame e = e AND 0xffffffffff000"

definition is_frame :: "u64 \<Rightarrow> bool" where
  "is_frame f = (frame f = f)"

lemma masks:
  "(0x1ff :: u64) = mask 9" "(0xfff :: u64) = mask 12" "(0xffffffffff000 :: u64) = push_bit 12 (mask 40)"
  "(0xfffffffffffff000 :: u64) = push_bit 12 (mask 52)" "(0xffffff8000000000 :: u64) = push_bit 39 (mask 25)"
  by (simp_all add: mask_eq_exp_minus_1)

lemma bit_frame: "bit (frame e) n \<longleftrightarrow> 12 \<le> n \<and> n < 52 \<and> bit e n"
  by (auto simp: frame_def masks bit_simps dest: bit_imp_le_length)

lemma frame_frame [simp]: "frame (frame e) = frame e" "is_frame (frame e)"
  by (auto simp: is_frame_def intro!: bit_eqI simp: bit_frame)

text \<open>Offsets in a page and the index of an entry in a table.\<close>

lemma frame_offset:
  assumes "\<And>n. n < 12 \<Longrightarrow> \<not> bit f n" and "o' < 4096"
  shows "f + of_nat o' = f OR of_nat o'"
    and "bit (f + of_nat o' :: u64) n \<longleftrightarrow> (if n < 12 then bit o' n else bit f n)"
proof -
  have "take_bit 12 o' = o'" using assms(2) by (simp add: take_bit_nat_eq_self)
  then have lo: "bit o' n \<Longrightarrow> n < 12" for n by (metis bit_take_bit_iff)
  then have o: "bit (of_nat o' :: u64) n \<longleftrightarrow> n < 12 \<and> bit o' n" for n
    by (fastforce simp: bit_simps)
  show or: "f + of_nat o' = f OR of_nat o'"
    using assms(1) by (intro disjunctive_add) (auto simp: o)
  show "bit (f + of_nat o') n \<longleftrightarrow> (if n < 12 then bit o' n else bit f n)"
    unfolding or using assms(1) by (auto simp: bit_or_iff o)
qed

lemma is_frame_low: "is_frame f \<Longrightarrow> n < 12 \<Longrightarrow> \<not> bit f n"
  unfolding is_frame_def by (metis bit_frame not_le)

lemma frame_plus:
  assumes "is_frame f" and "o' < 4096"
  shows "frame (f + of_nat o') = f"
proof (rule bit_eqI)
  fix n
  have "bit f n \<Longrightarrow> 12 \<le> n \<and> n < 52" using assms(1) unfolding is_frame_def by (metis bit_frame)
  then show "bit (frame (f + of_nat o')) n = bit f n"
    using frame_offset(2)[OF is_frame_low[OF assms(1)] assms(2), of n] by (auto simp: bit_frame)
qed

lemma frame_plus_eq:
  assumes "is_frame f" "is_frame g" "i < 4096" "j < 4096"
  shows "f + of_nat i = g + of_nat j \<longleftrightarrow> f = g \<and> i = j"
proof
  assume e: "f + of_nat i = g + of_nat j"
  then have "f = g" using frame_plus[OF assms(1,3)] frame_plus[OF assms(2,4)] by simp
  then have "(of_nat i :: u64) = of_nat j" using e by simp
  then have "i = j" using assms(3,4) by (subst (asm) of_nat_64_eq_iff) simp_all
  with \<open>f = g\<close> show "f = g \<and> i = j" ..
qed simp

text \<open>The entry with index \<open>i\<close> of the table in the frame \<open>t\<close>.\<close>

definition slot :: "u64 \<Rightarrow> u64 \<Rightarrow> u64" where
  "slot t i = t + 8 * i"

lemma slot_nat:
  assumes "i < 512"
  shows "slot t i = t + of_nat (8 * unat i)" and "8 * unat i < 4096"
proof -
  show "slot t i = t + of_nat (8 * unat i)" by (simp add: slot_def)
  show "8 * unat i < 4096" using assms by (simp add: word_less_nat_alt)
qed

lemma slot_eq:
  assumes "is_frame t" "is_frame t'" "i < 512" "i' < 512"
  shows "slot t i = slot t' i' \<longleftrightarrow> t = t' \<and> i = i'"
  unfolding slot_nat(1)[OF assms(3)] slot_nat(1)[OF assms(4)]
    frame_plus_eq[OF assms(1,2) slot_nat(2)[OF assms(3)] slot_nat(2)[OF assms(4)]]
  by (simp add: word_unat_eq_iff)

lemma slot_qaligned:
  assumes "is_frame t" "i < 512"
  shows "qaligned (slot t i)"
proof -
  have "8 * unat i = push_bit 3 (unat i)" by (simp add: push_bit_eq_mult)
  then have "\<not> bit (8 * unat i) n" if "n < 3" for n using that by (simp add: bit_simps)
  then have "\<not> bit (slot t i) n" if "n < 3" for n
    using frame_offset(2)[OF is_frame_low[OF assms(1)] slot_nat(2)[OF assms(2)], of n] that
    unfolding slot_nat(1)[OF assms(2)] by simp
  then have "take_bit 3 (slot t i) = 0" by (auto intro!: bit_eqI simp: bit_take_bit_iff)
  then have "unat (take_bit 3 (slot t i)) = 0" by simp
  then have "take_bit 3 (unat (slot t i)) = 0" by (simp add: unsigned_take_bit_eq)
  then show ?thesis by (simp add: qaligned_def take_bit_eq_0_iff)
qed

section \<open>Address translation\<close>

definition idx :: "nat \<Rightarrow> u64 \<Rightarrow> u64" where
  "idx lvl virt = 0x01ff AND drop_bit (12 + (lvl - 1) * 9) virt"

text \<open>The table (or, after four steps, the page) that the processor reaches from the table \<open>p\<close>.\<close>

fun pwalk :: "ram \<Rightarrow> u64 \<Rightarrow> u64 \<Rightarrow> nat \<Rightarrow> u64 option" where
  "pwalk m p v 0 = Some p"
| "pwalk m p v (Suc k) =
     (case pwalk m p v k of
        None \<Rightarrow> None
      | Some t \<Rightarrow>
          (let e = rd64 m (slot t (idx (4 - k) v))
           in if e AND PRESENT = 0 then None else Some (frame e)))"

definition canonical :: "u64 \<Rightarrow> bool" where
  "canonical v = (drop_bit 47 v = 0 \<or> drop_bit 47 v = 0x1ffff)"

definition translate :: "ram \<Rightarrow> u64 \<Rightarrow> u64 \<Rightarrow> u64 option" where
  "translate m cr3 v =
     (if canonical v then map_option (\<lambda>f. f + (v AND 0xfff)) (pwalk m (frame cr3) v 4) else None)"

text \<open>
  Loads and stores of the kernel, which may also write to read-only pages. Before it has its own tables
  the boot loader's map every address to itself (\<open>Identity\<close>).
\<close>

datatype space = Identity | Paged u64

definition phys_of :: "ram \<Rightarrow> space \<Rightarrow> u64 \<Rightarrow> u64 result" where
  "phys_of m sp v =
     (case sp of
        Identity \<Rightarrow> Inr v
      | Paged cr3 \<Rightarrow> (case translate m cr3 v of None \<Rightarrow> Inl (Page_Fault v) | Some a \<Rightarrow> Inr a))"

definition vrd8 :: "space \<Rightarrow> u64 \<Rightarrow> ram \<Rightarrow> u8 result" where
  "vrd8 sp v m = bindr (phys_of m sp v) (\<lambda>a. Inr (m a))"

definition vwr8 :: "space \<Rightarrow> u64 \<Rightarrow> u8 \<Rightarrow> ram \<Rightarrow> ram result" where
  "vwr8 sp v b m = bindr (phys_of m sp v) (\<lambda>a. Inr (m(a := b)))"

definition vrd64 :: "space \<Rightarrow> u64 \<Rightarrow> ram \<Rightarrow> u64 result" where
  "vrd64 sp v m = bindr (phys_of m sp v) (\<lambda>a. Inr (rd64 m a))"

definition vwr64 :: "space \<Rightarrow> u64 \<Rightarrow> u64 \<Rightarrow> ram \<Rightarrow> ram result" where
  "vwr64 sp v w m = bindr (phys_of m sp v) (\<lambda>a. Inr (wr64 m a w))"

lemma bit_idx: "bit (idx lvl v) n \<longleftrightarrow> n < 9 \<and> bit v (12 + (lvl - 1) * 9 + n)"
  by (auto simp: idx_def masks bit_simps)

lemma idx_less [simp]: "idx lvl v < 512"
proof -
  have "idx lvl v = take_bit 9 (drop_bit (12 + (lvl - 1) * 9) v)"
    by (simp add: idx_def masks take_bit_eq_mask and.commute)
  then show ?thesis by (simp add: word_less_nat_alt take_bit_eq_mod unat_mod_distrib)
qed

lemma idx_page:
  assumes "\<And>n. n < 12 \<Longrightarrow> \<not> bit v n" and "i < 4096"
  shows "idx lvl (v + of_nat i) = idx lvl v" and "(v + of_nat i) AND 0xfff = of_nat i"
    and "canonical (v + of_nat i) = canonical v"
proof -
  note b = frame_offset(2)[OF assms]
  show "idx lvl (v + of_nat i) = idx lvl v" by (intro bit_eqI) (simp add: bit_idx b)
  have "take_bit 12 i = i" using assms(2) by (simp add: take_bit_nat_eq_self)
  then have lo: "bit i n \<Longrightarrow> n < 12" for n by (metis bit_take_bit_iff)
  show "(v + of_nat i) AND 0xfff = of_nat i"
    by (rule bit_eqI) (use lo in \<open>auto simp: masks bit_and_iff bit_mask_iff b frame_offset(2)[of 0, simplified, OF assms(2)]\<close>)
  have "drop_bit 47 (v + of_nat i) = drop_bit 47 v"
    by (intro bit_eqI) (simp add: bit_drop_bit_eq b)
  then show "canonical (v + of_nat i) = canonical v" by (simp add: canonical_def)
qed

lemma pwalk_cong:
  assumes "\<And>j t. j < k \<Longrightarrow> pwalk m p v j = Some t \<Longrightarrow>
    rd64 m' (slot t (idx (4 - j) v)) = rd64 m (slot t (idx (4 - j) v))"
    and "\<And>j. j < k \<Longrightarrow> idx (4 - j) v' = idx (4 - j) v"
  shows "pwalk m' p v' k = pwalk m p v k"
  using assms by (induction k) (auto simp: Let_def split: option.split)

lemma pwalk_frame: "is_frame p \<Longrightarrow> pwalk m p v k = Some t \<Longrightarrow> is_frame t"
  by (cases k) (auto simp: Let_def split: option.splits if_splits)

lemma pwalk_less: "pwalk m p v k = Some t \<Longrightarrow> j \<le> k \<Longrightarrow> \<exists>s. pwalk m p v j = Some s"
  by (induction k arbitrary: t) (auto simp: le_Suc_eq split: option.splits)

lemma pwalk_step:
  "pwalk m p v k = Some t \<Longrightarrow>
    pwalk m p v (Suc k) = (if rd64 m (slot t (idx (4 - k) v)) AND 1 = 0 then None
      else Some (frame (rd64 m (slot t (idx (4 - k) v)))))"
  by (simp add: Let_def)

lemma translate_page:
  assumes "\<And>n. n < 12 \<Longrightarrow> \<not> bit v n" and "i < 4096" and "canonical v" and "pwalk m (frame cr3) v 4 = Some f"
  shows "translate m cr3 (v + of_nat i) = Some (f + of_nat i)"
proof -
  have "pwalk m (frame cr3) (v + of_nat i) 4 = Some f"
    using pwalk_cong[of 4 m "frame cr3" v m "v + of_nat i"] idx_page(1)[OF assms(1,2)] assms(4) by simp
  then show ?thesis using idx_page(2,3)[OF assms(1,2)] assms(3) by (simp add: translate_def)
qed

end
