(* ===== verification/Page_Table.thy ===== *)
theory Page_Table
  imports Machine
begin

text \<open>
  What the paging code is to do, over physical memory: a page table whose entry 510 points to itself,
  installing a mapping in it with pages from a list of fresh frames, and the well-formedness that this
  keeps. \<open>Paging\<close> shows that the kernel's two functions for it, one through the recursive entry and one
  on physical addresses, do exactly this.
\<close>

definition present :: "u64 \<Rightarrow> bool" where
  "present e = (e AND PRESENT \<noteq> 0)"

definition zero_page :: "u64 \<Rightarrow> ram \<Rightarrow> ram" where
  "zero_page f m = (\<lambda>x. if unat (x - f) < 4096 then 0 else m x)"

text \<open>Addresses that do not go through the recursive entry 510 or the entry 509 to another table.\<close>

definition own :: "u64 \<Rightarrow> bool" where
  "own v = (idx 4 v \<noteq> 509 \<and> idx 4 v \<noteq> 510)"

definition agree :: "nat \<Rightarrow> u64 \<Rightarrow> u64 \<Rightarrow> bool" where
  "agree k v w = (\<forall>i<k. idx (4 - i) v = idx (4 - i) w)"

definition tables_ok :: "ram \<Rightarrow> u64 \<Rightarrow> u64 list \<Rightarrow> bool" where
  "tables_ok m p fs =
     (is_frame p \<and> (\<forall>f\<in>set fs. is_frame f) \<and> distinct fs \<and>
      present (rd64 m (slot p 510)) \<and> frame (rd64 m (slot p 510)) = p \<and>
      (\<forall>v k. own v \<and> k \<le> 3 \<longrightarrow> (\<forall>f\<in>set fs. pwalk m p v k \<noteq> Some f)) \<and>
      (\<forall>v w j k t. own v \<and> own w \<and> j \<le> 3 \<and> k \<le> 3 \<and> pwalk m p v j = Some t \<and> pwalk m p w k = Some t \<longrightarrow>
         j = k \<and> agree j v w) \<and>
      (\<forall>v k t. own v \<and> k \<le> 2 \<and> pwalk m p v k = Some t \<longrightarrow>
         rd64 m (slot t (idx (4 - k) v)) = 0 \<or> present (rd64 m (slot t (idx (4 - k) v)))))"

lemma tables_okD:
  assumes "tables_ok m p fs"
  shows "is_frame p" "f \<in> set fs \<Longrightarrow> is_frame f" "distinct fs"
    "present (rd64 m (slot p 510))" "frame (rd64 m (slot p 510)) = p"
    "own v \<Longrightarrow> k \<le> 3 \<Longrightarrow> f \<in> set fs \<Longrightarrow> pwalk m p v k \<noteq> Some f"
    "own v \<Longrightarrow> own w \<Longrightarrow> j \<le> 3 \<Longrightarrow> k \<le> 3 \<Longrightarrow> pwalk m p v j = Some t \<Longrightarrow> pwalk m p w k = Some t \<Longrightarrow>
       j = k \<and> agree j v w"
    "own v \<Longrightarrow> k \<le> 2 \<Longrightarrow> pwalk m p v k = Some t \<Longrightarrow>
       rd64 m (slot t (idx (4 - k) v)) = 0 \<or> present (rd64 m (slot t (idx (4 - k) v)))"
  using assms unfolding tables_ok_def by blast+

lemma agree_Suc: "agree (Suc k) v w \<longleftrightarrow> agree k v w \<and> idx (4 - k) v = idx (4 - k) w"
  by (auto simp: agree_def less_Suc_eq)

lemma agree_walk: "agree k v w \<Longrightarrow> pwalk m p v k = pwalk m p w k"
  by (intro pwalk_cong refl) (simp add: agree_def)

lemma tables_okI:
  assumes "is_frame p" "\<And>f. f \<in> set fs \<Longrightarrow> is_frame f" "distinct fs"
    "present (rd64 m (slot p 510))" "frame (rd64 m (slot p 510)) = p"
    "\<And>v k f. own v \<Longrightarrow> k \<le> 3 \<Longrightarrow> f \<in> set fs \<Longrightarrow> pwalk m p v k \<noteq> Some f"
    "\<And>v w j k t. own v \<Longrightarrow> own w \<Longrightarrow> j \<le> 3 \<Longrightarrow> k \<le> 3 \<Longrightarrow> pwalk m p v j = Some t \<Longrightarrow>
       pwalk m p w k = Some t \<Longrightarrow> j = k \<and> agree j v w"
    "\<And>v k t. own v \<Longrightarrow> k \<le> 2 \<Longrightarrow> pwalk m p v k = Some t \<Longrightarrow>
       rd64 m (slot t (idx (4 - k) v)) = 0 \<or> present (rd64 m (slot t (idx (4 - k) v)))"
  shows "tables_ok m p fs"
  unfolding tables_ok_def by (intro conjI ballI allI impI; (elim conjE)?; (rule assms; assumption)?) (use assms(7) in blast)+

section \<open>Writing to frames\<close>

lemma unat_page_diff:
  assumes "is_frame f" "is_frame g" "i < 4096"
  shows "unat (g + of_nat i - f) < 4096 \<longleftrightarrow> g = f"
proof
  assume "unat (g + of_nat i - f) < 4096"
  moreover define j where "j = unat (g + of_nat i - f)"
  ultimately have "j < 4096" "g + of_nat i = f + of_nat j" by simp_all
  with frame_plus_eq[OF assms(2,1,3), of j] show "g = f" by simp
next
  assume "g = f"
  moreover have "unat (of_nat i :: u64) = i" using assms(3) by (intro unat_of_nat64) simp
  ultimately show "unat (g + of_nat i - f) < 4096" using assms(3) by simp
qed

lemma slot_bytes:
  assumes "i < 512" "j < 8"
  shows "slot t i + of_nat j = t + of_nat (8 * unat i + j)" "8 * unat i + j < 4096"
  using assms slot_nat(1)[OF assms(1), of t] by (simp_all add: word_less_nat_alt)

lemma rd64_zero_page:
  assumes "is_frame f" "is_frame t" "i < 512"
  shows "rd64 (zero_page f m) (slot t i) = (if t = f then 0 else rd64 m (slot t i))"
proof -
  have "zero_page f m (slot t i + of_nat j) = (if t = f then 0 else m (slot t i + of_nat j))" if "j < 8" for j
    using unat_page_diff[OF assms(1,2) slot_bytes(2)[OF assms(3) that]]
    unfolding slot_bytes(1)[OF assms(3) that] by (simp add: zero_page_def)
  note z = this
  show ?thesis
  proof (cases "t = f")
    case True
    then have "\<not> bit (rd64 (zero_page f m) (slot t i)) n" for n
      using z[of "n div 8"] by (auto simp: bit_rd64)
    then have "rd64 (zero_page f m) (slot t i) = 0" by (intro bit_eqI) simp
    then show ?thesis using True by simp
  next
    case False
    then show ?thesis using z by (auto intro: rd64_cong)
  qed
qed

lemma rd64_wr_slot:
  assumes "is_frame t" "is_frame u" "i < 512" "j < 512"
  shows "rd64 (wr64 m (slot t i) e) (slot u j) = (if u = t \<and> j = i then e else rd64 m (slot u j))"
  using rd64_wr64_other[OF slot_qaligned[OF assms(1,3)] slot_qaligned[OF assms(2,4)]]
    slot_eq[OF assms] by auto

section \<open>One level\<close>

text \<open>
  One step down for the address \<open>virt\<close>: a missing table is taken from the list, zeroed if \<open>z\<close>, and
  entered.
\<close>

definition spec_step :: "bool \<Rightarrow> u64 \<Rightarrow> u64 \<times> ram \<times> u64 list \<Rightarrow> u64 \<times> ram \<times> u64 list" where
  "spec_step z i st =
     (case st of (t, m, fs) \<Rightarrow>
        let e = rd64 m (slot t i)
        in if e = 0
           then let f = hd fs in
             (f, wr64 (if z then zero_page f m else m) (slot t i) (f OR PRESENT OR READ_WRITE OR USER_ACCESSIBLE), tl fs)
           else (frame e, m, fs))"

lemma present_odd: "present e = odd e"
  by (simp add: present_def and_one_eq even_iff_mod_2_eq_zero)

lemma new_entry:
  assumes "is_frame f"
  shows "present (f OR 1 OR 2 OR 4)" "frame (f OR 1 OR 2 OR 4) = f"
proof -
  have "bit (f OR 1 OR 2 OR 4) 0" by (simp add: bit_simps)
  then show "present (f OR 1 OR 2 OR 4)" by (simp add: present_odd bit_0)
  have seven: "(7 :: u64) = mask 3" by (simp add: mask_eq_exp_minus_1)
  show "frame (f OR 1 OR 2 OR 4) = f"
  proof (rule bit_eqI)
    fix n
    have "bit f n \<Longrightarrow> 12 \<le> n \<and> n < 52" using assms unfolding is_frame_def by (metis bit_frame)
    then show "bit (frame (f OR 1 OR 2 OR 4)) n = bit f n"
      by (auto simp: bit_frame bit_or_iff seven bit_mask_iff)
  qed
qed

text \<open>The memory \<open>m'\<close> after entering the fresh frame \<open>f\<close> at the empty slot that \<open>virt\<close> reaches after \<open>j\<close> steps.\<close>

definition new_table ::
  "ram \<Rightarrow> u64 \<Rightarrow> u64 \<Rightarrow> u64 list \<Rightarrow> u64 \<Rightarrow> nat \<Rightarrow> u64 \<Rightarrow> bool \<Rightarrow> u64 \<Rightarrow> ram \<Rightarrow> bool" where
  "new_table m p f fs virt j t z e m' =
     (tables_ok m p (f # fs) \<and> own virt \<and> j \<le> 2 \<and> pwalk m p virt j = Some t \<and>
      rd64 m (slot t (idx (4 - j) virt)) = 0 \<and> (z \<or> j = 2) \<and> present e \<and> frame e = f \<and>
      m' = wr64 (if z then zero_page f m else m) (slot t (idx (4 - j) virt)) e)"

lemma new_tableD:
  assumes "new_table m p f fs virt j t z e m'"
  shows "tables_ok m p (f # fs)" "own virt" "j \<le> 2" "pwalk m p virt j = Some t"
    "rd64 m (slot t (idx (4 - j) virt)) = 0" "z \<or> j = 2" "present e" "frame e = f"
    "m' = wr64 (if z then zero_page f m else m) (slot t (idx (4 - j) virt)) e"
  using assms unfolding new_table_def by blast+

lemma new_table_frames:
  assumes "new_table m p f fs virt j t z e m'"
  shows "is_frame p" "is_frame f" "is_frame t" "f \<noteq> t" "f \<noteq> p"
proof -
  note N = new_tableD[OF assms]
  note D = tables_okD[OF N(1)]
  show p: "is_frame p" and "is_frame f" using D(1,2) by simp_all
  show "is_frame t" using pwalk_frame[OF p N(4)] .
  show "f \<noteq> t" using D(6)[of virt j f] N by auto
  show "f \<noteq> p" using D(6)[of virt 0 f] N(2) by auto
qed

lemma new_table_rd:
  assumes "new_table m p f fs virt j t z e m'" and "is_frame u" and "i < 512"
  shows "rd64 m' (slot u i) =
    (if u = t \<and> i = idx (4 - j) virt then e else if z \<and> u = f then 0 else rd64 m (slot u i))"
  unfolding new_tableD(9)[OF assms(1)]
    rd64_wr_slot[OF new_table_frames(3)[OF assms(1)] assms(2) idx_less assms(3)]
  by (cases z) (simp_all only: if_True if_False rd64_zero_page[OF new_table_frames(2)[OF assms(1)] assms(2,3)] simp_thms)

text \<open>A path keeps its tables if none of them is the new one, since it does not use the empty slot.\<close>

lemma new_table_keep:
  assumes "new_table m p f fs virt j t z e m'"
    and "pwalk m p v k = Some x" and "\<And>l. l < k \<Longrightarrow> pwalk m p v l \<noteq> Some f"
  shows "pwalk m' p v k = Some x"
  using assms(2,3)
proof (induction k arbitrary: x)
  case 0
  then show ?case by simp
next
  case (Suc k)
  from pwalk_less[OF Suc.prems(1), of k] obtain u where u: "pwalk m p v k = Some u" by auto
  then have u': "pwalk m' p v k = Some u" using Suc.IH Suc.prems(2) by simp
  have "u \<noteq> f" using Suc.prems(2)[of k] u by auto
  moreover have "\<not> (u = t \<and> idx (4 - k) v = idx (4 - j) virt)"
    using Suc.prems(1) new_tableD(5)[OF assms(1)] pwalk_step[OF u] by auto
  ultimately have "rd64 m' (slot u (idx (4 - k) v)) = rd64 m (slot u (idx (4 - k) v))"
    using new_table_rd[OF assms(1) pwalk_frame[OF new_table_frames(1)[OF assms(1)] u] idx_less] by auto
  then show ?case using Suc.prems(1) pwalk_step[OF u] pwalk_step[OF u'] by simp
qed

lemma new_table_keep_own:
  assumes "new_table m p f fs virt j t z e m'" and "own v" and "pwalk m p v k = Some x" and "k \<le> 4"
  shows "pwalk m' p v k = Some x"
  using assms(3,4) tables_okD(6)[OF new_tableD(1)[OF assms(1)] assms(2), of _ f]
  by (intro new_table_keep[OF assms(1)]) auto

lemma new_table_reach:
  assumes "new_table m p f fs virt j t z e m'"
  shows "pwalk m' p virt (Suc j) = Some f"
proof -
  note N = new_tableD[OF assms]
  have "pwalk m' p virt j = Some t" using N by (intro new_table_keep_own[OF assms]) simp_all
  then show ?thesis
    using pwalk_step[of m' p virt j t] new_table_rd[OF assms new_table_frames(3)[OF assms] idx_less, of "4 - j" virt] N(7,8)
    by (simp add: present_def)
qed

lemma new_table_only:
  assumes "new_table m p f fs virt j t z e m'"
    and "own v" and "pwalk m' p v k = Some x" and "k \<le> 4" and "z \<or> k \<le> 3"
  shows "pwalk m p v k = Some x \<or> (k = Suc j \<and> x = f \<and> agree (Suc j) v virt)"
  using assms(3-5)
proof (induction k arbitrary: x)
  case 0
  then show ?case by simp
next
  case (Suc k)
  note N = new_tableD[OF assms(1)] and F = new_table_frames[OF assms(1)] and rd = new_table_rd[OF assms(1)]
  from pwalk_less[OF Suc.prems(1), of k] obtain u where u': "pwalk m' p v k = Some u" by auto
  from Suc.IH[OF u'] Suc.prems(2,3)
  consider "pwalk m p v k = Some u" | "k = Suc j" "u = f" by auto
  then show ?case
  proof cases
    case 1
    have k: "k \<le> 3" using Suc.prems(2) by simp
    have nf: "u \<noteq> f" using tables_okD(6)[OF N(1) assms(2) k, of f] 1 by auto
    note r = rd[OF pwalk_frame[OF F(1) 1] idx_less, of "4 - k" v]
    show ?thesis
    proof (cases "u = t \<and> idx (4 - k) v = idx (4 - j) virt")
      case True
      have "k = j \<and> agree k v virt"
        using tables_okD(7)[OF N(1) assms(2) N(2) k _ 1, of j] N(3,4) True by auto
      then have kj: "k = j" and "agree k v virt" by auto
      moreover have "x = f" using Suc.prems(1) pwalk_step[OF u'] r True N(8) by (auto split: if_splits)
      ultimately show ?thesis using True kj by (auto simp: agree_def less_Suc_eq)
    next
      case False
      then have "rd64 m' (slot u (idx (4 - k) v)) = rd64 m (slot u (idx (4 - k) v))" using r nf by auto
      then show ?thesis using Suc.prems(1) pwalk_step[OF u'] pwalk_step[OF 1] by simp
    qed
  next
    case 2
    then have "z" using Suc.prems(2,3) N(6) by auto
    then have "rd64 m' (slot u (idx (4 - k) v)) = 0" using rd[OF F(2) idx_less] F(4) 2 by simp
    then show ?thesis using Suc.prems(1) pwalk_step[OF u'] by simp
  qed
qed

lemma new_table_ok:
  assumes "new_table m p f fs virt j t z e m'"
  shows "tables_ok m' p fs"
proof -
  note N = new_tableD[OF assms] and F = new_table_frames[OF assms] and rd = new_table_rd[OF assms]
    and only = new_table_only[OF assms]
  note D = tables_okD[OF N(1)]
  have "\<not> (p = t \<and> 510 = idx (4 - j) virt)"
  proof
    assume a: "p = t \<and> 510 = idx (4 - j) virt"
    then have "j = 0" using D(7)[OF N(2) N(2), of j 0 p] N(3,4) by auto
    with a N(2) show False by (simp add: own_def)
  qed
  then have "rd64 m' (slot p 510) = rd64 m (slot p 510)" using rd[OF F(1), of 510] F(5) by auto
  then have 1: "present (rd64 m' (slot p 510))" "frame (rd64 m' (slot p 510)) = p" using D(4,5) by simp_all
  have 2: "pwalk m' p v k \<noteq> Some g" if "own v" "k \<le> 3" "g \<in> set fs" for v k g
    using only[OF that(1), of k g] D(3) D(6)[OF that(1,2), of g] that by auto
  have 3: "i = k \<and> agree i v w"
    if "own v" "own w" "i \<le> 3" "k \<le> 3" "pwalk m' p v i = Some x" "pwalk m' p w k = Some x" for v w i k x
  proof -
    have "pwalk m p v i = Some x \<or> (i = Suc j \<and> x = f \<and> agree (Suc j) v virt)"
      "pwalk m p w k = Some x \<or> (k = Suc j \<and> x = f \<and> agree (Suc j) w virt)"
      using only[OF that(1,5)] only[OF that(2,6)] that(3,4) by simp_all
    moreover have "pwalk m p v i \<noteq> Some f" "pwalk m p w k \<noteq> Some f" using D(6) that by simp_all
    ultimately show ?thesis using D(7)[OF that(1-4)] by (auto simp: agree_def)
  qed
  have 4: "rd64 m' (slot u (idx (4 - k) v)) = 0 \<or> present (rd64 m' (slot u (idx (4 - k) v)))"
    if "own v" "k \<le> 2" "pwalk m' p v k = Some u" for v k u
  proof -
    from only[OF that(1,3)] that(2) consider "pwalk m p v k = Some u" | "u = f" "k = Suc j" by auto
    then show ?thesis
    proof cases
      case 1
      then show ?thesis
        using rd[OF pwalk_frame[OF F(1) 1] idx_less, of "4 - k" v] D(8)[OF that(1,2) 1] N(7) by auto
    next
      case 2
      then show ?thesis using rd[OF F(2) idx_less, of "4 - k" v] F(4) N(6) that(2) by auto
    qed
  qed
  show ?thesis using D(1,2,3) by (intro tables_okI 1 2 3 4) simp_all
qed

text \<open>A page that is neither a table nor free keeps its bytes.\<close>

definition data_page :: "ram \<Rightarrow> u64 \<Rightarrow> u64 list \<Rightarrow> u64 \<Rightarrow> bool" where
  "data_page m p fs g = (is_frame g \<and> g \<notin> set fs \<and> (\<forall>v k. own v \<and> k \<le> 3 \<longrightarrow> pwalk m p v k \<noteq> Some g))"

lemma wr64_page:
  assumes "is_frame t" "is_frame g" "t \<noteq> g" "i < 512" "b < 4096"
  shows "wr64 m (slot t i) e (g + of_nat b) = m (g + of_nat b)"
proof -
  have "\<not> unat (g + of_nat b - slot t i) < 8"
  proof
    assume a: "unat (g + of_nat b - slot t i) < 8"
    define j where "j = unat (g + of_nat b - slot t i)"
    have j: "j < 8" using a by (simp add: j_def)
    have "g + of_nat b = slot t i + of_nat j" by (simp add: j_def)
    also have "\<dots> = t + of_nat (8 * unat i + j)" by (rule slot_bytes(1)[OF assms(4) j])
    finally have "g = t" unfolding frame_plus_eq[OF assms(2,1,5) slot_bytes(2)[OF assms(4) j]] by simp
    with assms(3) show False by simp
  qed
  then show ?thesis by (simp add: wr64_def)
qed

lemma new_table_data:
  assumes "new_table m p f fs virt j t z e m'" and "data_page m p (f # fs) g" and "b < 4096"
  shows "m' (g + of_nat b) = m (g + of_nat b)" and "data_page m' p fs g"
proof -
  note N = new_tableD[OF assms(1)] and F = new_table_frames[OF assms(1)]
  have g: "is_frame g" "g \<noteq> f" "g \<noteq> t" using assms(2) N(2,3,4) by (auto simp: data_page_def)
  have "(if z then zero_page f m else m) (g + of_nat b) = m (g + of_nat b)"
    using unat_page_diff[OF F(2) g(1) assms(3)] g(2) by (simp add: zero_page_def)
  then show "m' (g + of_nat b) = m (g + of_nat b)"
    unfolding N(9) using wr64_page[OF F(3) g(1) _ idx_less assms(3)] g(3) by simp
  show "data_page m' p fs g"
    using assms(2) new_table_only[OF assms(1)] g(2) by (fastforce simp: data_page_def)
qed

section \<open>The entry of a page\<close>

definition set_leaf :: "ram \<Rightarrow> u64 \<Rightarrow> u64 list \<Rightarrow> u64 \<Rightarrow> u64 \<Rightarrow> u64 \<Rightarrow> ram \<Rightarrow> bool" where
  "set_leaf m p fs virt t e m' =
     (tables_ok m p fs \<and> own virt \<and> pwalk m p virt 3 = Some t \<and> m' = wr64 m (slot t (idx 1 virt)) e)"

lemma set_leaf_rd:
  assumes "set_leaf m p fs virt t e m'" and "is_frame u" and "i < 512"
  shows "rd64 m' (slot u i) = (if u = t \<and> i = idx 1 virt then e else rd64 m (slot u i))"
proof -
  have "is_frame t" using assms(1) pwalk_frame tables_okD(1) unfolding set_leaf_def by blast
  from rd64_wr_slot[OF this assms(2) idx_less assms(3)] show ?thesis using assms(1) by (simp add: set_leaf_def)
qed

lemma set_leaf_walk:
  assumes "set_leaf m p fs virt t e m'" and "own v"
  shows "k \<le> 3 \<Longrightarrow> pwalk m' p v k = pwalk m p v k"
    and "pwalk m' p v 4 =
      (if agree 4 v virt then (if present e then Some (frame e) else None) else pwalk m p v 4)"
proof -
  from assms(1) have ok: "tables_ok m p fs" "own virt" "pwalk m p virt 3 = Some t" by (simp_all add: set_leaf_def)
  note D = tables_okD[OF ok(1)]
  have low: "pwalk m' p v k = pwalk m p v k" if "k \<le> 3" for k
  proof (rule pwalk_cong)
    fix i u
    assume i: "i < k" "pwalk m p v i = Some u"
    then have "u \<noteq> t" using D(7)[OF assms(2) ok(2), of i 3 t] ok(3) that by auto
    then show "rd64 m' (slot u (idx (4 - i) v)) = rd64 m (slot u (idx (4 - i) v))"
      using set_leaf_rd[OF assms(1) pwalk_frame[OF D(1) i(2)] idx_less] by auto
  qed simp
  then show "k \<le> 3 \<Longrightarrow> pwalk m' p v k = pwalk m p v k" .
  show "pwalk m' p v 4 =
      (if agree 4 v virt then (if present e then Some (frame e) else None) else pwalk m p v 4)"
  proof (cases "pwalk m p v 3")
    case None
    moreover have "\<not> agree 4 v virt"
      using None ok(3) agree_walk[of 3 v virt] agree_Suc[of 3 v virt] by auto
    ultimately show ?thesis using low[of 3] by (simp add: eval_nat_numeral)
  next
    case (Some u)
    have "u = t \<longleftrightarrow> agree 3 v virt"
      using D(7)[OF assms(2) ok(2) _ _ Some, of 3] ok(3) agree_walk[of 3 v virt m p] Some by auto
    then have u: "u = t \<and> idx 1 v = idx 1 virt \<longleftrightarrow> agree 4 v virt"
      using agree_Suc[of 3 v virt] by simp
    have "pwalk m' p v (Suc 3) = (if rd64 m' (slot u (idx 1 v)) AND 1 = 0 then None else Some (frame (rd64 m' (slot u (idx 1 v)))))"
      using pwalk_step[of m' p v 3 u] low[of 3] Some by simp
    moreover have "pwalk m p v (Suc 3) = (if rd64 m (slot u (idx 1 v)) AND 1 = 0 then None else Some (frame (rd64 m (slot u (idx 1 v)))))"
      using pwalk_step[of m p v 3 u] Some by simp
    ultimately show ?thesis
      using u set_leaf_rd[OF assms(1) pwalk_frame[OF D(1) Some] idx_less, of 1 v] by (simp add: present_def)
  qed
qed

lemma set_leaf_ok:
  assumes "set_leaf m p fs virt t e m'"
  shows "tables_ok m' p fs"
proof -
  from assms have ok: "tables_ok m p fs" "own virt" "pwalk m p virt 3 = Some t" by (simp_all add: set_leaf_def)
  note D = tables_okD[OF ok(1)] and w = set_leaf_walk(1)[OF assms] and rd = set_leaf_rd[OF assms]
  have ne: "u \<noteq> t" if "own v" "k \<le> 2" "pwalk m p v k = Some u" for v k u
    using D(7)[OF that(1) ok(2) _ _ that(3), of 3] that(2) ok(3) by auto
  have "rd64 m' (slot p 510) = rd64 m (slot p 510)" using rd[OF D(1), of 510] ne[OF ok(2), of 0 p] by simp
  then have 1: "present (rd64 m' (slot p 510))" "frame (rd64 m' (slot p 510)) = p" using D(4,5) by simp_all
  have 2: "rd64 m' (slot u (idx (4 - k) v)) = 0 \<or> present (rd64 m' (slot u (idx (4 - k) v)))"
    if "own v" "k \<le> 2" "pwalk m' p v k = Some u" for v k u
  proof -
    have u: "pwalk m p v k = Some u" using w[OF that(1), of k] that by simp
    then show ?thesis
      using rd[OF pwalk_frame[OF D(1) u] idx_less, of "4 - k" v] ne[OF that(1,2)] D(8)[OF that(1,2) u] by simp
  qed
  show ?thesis using w D(1,2,3,6,7) by (intro tables_okI 1 2) simp_all
qed

lemma set_leaf_data:
  assumes "set_leaf m p fs virt t e m'" and "data_page m p fs g" and "b < 4096"
  shows "m' (g + of_nat b) = m (g + of_nat b)" and "data_page m' p fs g"
proof -
  from assms(1) have ok: "tables_ok m p fs" "own virt" "pwalk m p virt 3 = Some t"
    "m' = wr64 m (slot t (idx 1 virt)) e" by (simp_all add: set_leaf_def)
  have "is_frame t" "g \<noteq> t" "is_frame g"
    using pwalk_frame[OF tables_okD(1)[OF ok(1)] ok(3)] assms(2) ok(2,3) by (auto simp: data_page_def)
  then show "m' (g + of_nat b) = m (g + of_nat b)"
    unfolding ok(4) using wr64_page[of t g "idx 1 virt" b] assms(3) by simp
  show "data_page m' p fs g" using assms(2) set_leaf_walk(1)[OF assms(1)] by (simp add: data_page_def)
qed

section \<open>Mapping a page\<close>

definition spec_tables :: "bool \<Rightarrow> u64 \<Rightarrow> u64 \<times> ram \<times> u64 list \<Rightarrow> u64 \<times> ram \<times> u64 list" where
  "spec_tables z virt st = spec_step z (idx 2 virt) (spec_step True (idx 3 virt) (spec_step True (idx 4 virt) st))"

definition spec_map :: "bool \<Rightarrow> u64 \<Rightarrow> u64 \<Rightarrow> u64 \<Rightarrow> ram \<times> u64 list \<Rightarrow> ram \<times> u64 list" where
  "spec_map z virt e p st =
     (case spec_tables z virt (p, st) of (t, m, fs) \<Rightarrow> (wr64 m (slot t (idx 1 virt)) e, fs))"

text \<open>
  What each step keeps: the paths that there were; if new tables are zeroed, no address outside the
  page of \<open>virt\<close> is mapped that was not.
\<close>

definition extends :: "nat \<Rightarrow> bool \<Rightarrow> u64 \<Rightarrow> u64 \<Rightarrow> ram \<times> u64 list \<Rightarrow> ram \<times> u64 list \<Rightarrow> bool" where
  "extends n z virt p st st' =
     (case (st, st') of ((m, fs), (m', fs')) \<Rightarrow>
        tables_ok m' p fs' \<and> (\<exists>i\<le>n. fs' = drop i fs) \<and>
        (\<forall>v k x. own v \<and> k \<le> 4 \<and> pwalk m p v k = Some x \<longrightarrow> pwalk m' p v k = Some x) \<and>
        (z \<longrightarrow> (\<forall>v x. own v \<and> pwalk m' p v 4 = Some x \<longrightarrow> pwalk m p v 4 = Some x)) \<and>
        (\<forall>g b. data_page m p fs g \<and> b < 4096 \<longrightarrow> m' (g + of_nat b) = m (g + of_nat b) \<and> data_page m' p fs' g))"

lemma extendsD:
  assumes "extends n z virt p (m, fs) (m', fs')"
  shows "tables_ok m' p fs'" "\<exists>i\<le>n. fs' = drop i fs"
    "own v \<Longrightarrow> k \<le> 4 \<Longrightarrow> pwalk m p v k = Some x \<Longrightarrow> pwalk m' p v k = Some x"
    "z \<Longrightarrow> own v \<Longrightarrow> pwalk m' p v 4 = Some x \<Longrightarrow> pwalk m p v 4 = Some x"
    "data_page m p fs g \<Longrightarrow> b < 4096 \<Longrightarrow> m' (g + of_nat b) = m (g + of_nat b) \<and> data_page m' p fs' g"
proof -
  note E = assms[unfolded extends_def prod.case]
  show "tables_ok m' p fs'" using E by (rule conjunct1)
  note E1 = conjunct2[OF E]
  show "\<exists>i\<le>n. fs' = drop i fs" using E1 by (rule conjunct1)
  note E2 = conjunct2[OF E1]
  show "own v \<Longrightarrow> k \<le> 4 \<Longrightarrow> pwalk m p v k = Some x \<Longrightarrow> pwalk m' p v k = Some x"
    using conjunct1[OF E2] by blast
  note E3 = conjunct2[OF E2]
  show "z \<Longrightarrow> own v \<Longrightarrow> pwalk m' p v 4 = Some x \<Longrightarrow> pwalk m p v 4 = Some x"
    using conjunct1[OF E3] by blast
  show "data_page m p fs g \<Longrightarrow> b < 4096 \<Longrightarrow> m' (g + of_nat b) = m (g + of_nat b) \<and> data_page m' p fs' g"
    using conjunct2[OF E3] by blast
qed

lemma extendsI:
  assumes "tables_ok m' p fs'" "i \<le> n" "fs' = drop i fs"
    "\<And>v k x. own v \<Longrightarrow> k \<le> 4 \<Longrightarrow> pwalk m p v k = Some x \<Longrightarrow> pwalk m' p v k = Some x"
    "\<And>v x. z \<Longrightarrow> own v \<Longrightarrow> pwalk m' p v 4 = Some x \<Longrightarrow> pwalk m p v 4 = Some x"
    "\<And>g b. data_page m p fs g \<Longrightarrow> b < 4096 \<Longrightarrow> m' (g + of_nat b) = m (g + of_nat b) \<and> data_page m' p fs' g"
  shows "extends n z virt p (m, fs) (m', fs')"
  unfolding extends_def prod.case
proof (intro conjI)
  show "tables_ok m' p fs'" by (rule assms(1))
  show "\<exists>i\<le>n. fs' = drop i fs" using assms(2,3) by blast
  show "\<forall>v k x. own v \<and> k \<le> 4 \<and> pwalk m p v k = Some x \<longrightarrow> pwalk m' p v k = Some x"
    by (intro allI impI) (elim conjE, rule assms(4))
  show "z \<longrightarrow> (\<forall>v x. own v \<and> pwalk m' p v 4 = Some x \<longrightarrow> pwalk m p v 4 = Some x)"
    by (intro allI impI) (elim conjE, rule assms(5))
  show "\<forall>g b. data_page m p fs g \<and> b < 4096 \<longrightarrow> m' (g + of_nat b) = m (g + of_nat b) \<and> data_page m' p fs' g"
    by (intro allI impI) (elim conjE, rule assms(6))
qed

lemma extends_refl: "tables_ok m p fs \<Longrightarrow> extends n z virt p (m, fs) (m, fs)"
  by (rule extendsI[of _ _ _ 0]) simp_all

lemma extends_trans:
  assumes "extends n z virt p (m, fs) (m', fs')" and "extends k z' virt p (m', fs') (m'', fs'')" and "z'' \<Longrightarrow> z \<and> z'"
  shows "extends (n + k) z'' virt p (m, fs) (m'', fs'')"
proof -
  note 1 = extendsD[OF assms(1)] and 2 = extendsD[OF assms(2)]
  from 1(2) 2(2) obtain i j where ij: "i \<le> n" "fs' = drop i fs" "j \<le> k" "fs'' = drop j fs'" by auto
  show ?thesis
  proof (rule extendsI[of _ _ _ "i + j"])
    show "tables_ok m'' p fs''" by (rule 2(1))
    show "i + j \<le> n + k" "fs'' = drop (i + j) fs" using ij by (simp_all add: add.commute)
    show "pwalk m'' p v k = Some x" if "own v" "k \<le> 4" "pwalk m p v k = Some x" for v k x
      using 2(3)[OF that(1,2)] 1(3)[OF that] by simp
    show "pwalk m p v 4 = Some x" if "z''" "own v" "pwalk m'' p v 4 = Some x" for v x
      using 1(4)[OF _ that(2)] 2(4)[OF _ that(2,3)] assms(3)[OF that(1)] by simp
    show "m'' (g + of_nat b) = m (g + of_nat b) \<and> data_page m'' p fs'' g" if "data_page m p fs g" "b < 4096" for g b
      using 1(5)[OF that] 2(5)[OF _ that(2), of g] by simp
  qed
qed

text \<open>A step changes nothing or enters a new table.\<close>

lemma spec_step_cases:
  assumes "tables_ok m p fs" and "own virt" and "j \<le> 2" and "pwalk m p virt j = Some t" and "fs \<noteq> []"
    and "z \<or> j = 2" and "spec_step z (idx (4 - j) virt) (t, m, fs) = (t', m', fs')"
  obtains (old) "rd64 m (slot t (idx (4 - j) virt)) \<noteq> 0" "t' = frame (rd64 m (slot t (idx (4 - j) virt)))" "m' = m" "fs' = fs"
  | (new) "fs = t' # fs'" "new_table m p t' fs' virt j t z (t' OR 1 OR 2 OR 4) m'"
proof (cases "rd64 m (slot t (idx (4 - j) virt)) = 0")
  case False
  then show ?thesis using assms(7) by (intro old) (auto simp: spec_step_def Let_def)
next
  case True
  obtain f gs where f: "fs = f # gs" using assms(5) by (cases fs) auto
  have eq: "t' = f" "fs' = gs"
    "m' = wr64 (if z then zero_page f m else m) (slot t (idx (4 - j) virt)) (f OR 1 OR 2 OR 4)"
    using assms(7) True by (auto simp: spec_step_def Let_def f)
  have "is_frame f" using tables_okD(2)[OF assms(1)] f by simp
  note e = new_entry[OF this]
  have "new_table m p f gs virt j t z (f OR 1 OR 2 OR 4) m'"
    using assms(1-4,6) True e unfolding new_table_def f eq(3) by blast
  then show ?thesis using eq(1,2) f by (intro new) simp_all
qed

lemma new_table_extends:
  assumes "new_table m p f fs virt j t z e m'"
  shows "extends 1 z virt p (m, f # fs) (m', fs)"
proof (rule extendsI[of _ _ _ 1])
  show "tables_ok m' p fs" by (rule new_table_ok[OF assms])
  show "pwalk m' p v k = Some x" if "own v" "k \<le> 4" "pwalk m p v k = Some x" for v k x
    by (rule new_table_keep_own[OF assms that(1,3,2)])
  show "pwalk m p v 4 = Some x" if "z" "own v" "pwalk m' p v 4 = Some x" for v x
    using new_table_only[OF assms that(2,3)] that(1) new_tableD(3)[OF assms] by auto
  show "m' (g + of_nat b) = m (g + of_nat b) \<and> data_page m' p fs g" if "data_page m p (f # fs) g" "b < 4096" for g b
    using new_table_data[OF assms that] by simp
qed simp_all

lemma spec_step_extends:
  assumes "tables_ok m p fs" and "own virt" and "j \<le> 2" and "pwalk m p virt j = Some t" and "fs \<noteq> []"
    and "z \<or> j = 2" and "spec_step z (idx (4 - j) virt) (t, m, fs) = (t', m', fs')"
  shows "pwalk m' p virt (Suc j) = Some t' \<and> extends 1 z virt p (m, fs) (m', fs')"
  using assms
proof (cases rule: spec_step_cases)
  case old
  then have "present (rd64 m (slot t (idx (4 - j) virt)))" using tables_okD(8)[OF assms(1-4)] by simp
  then show ?thesis
    using pwalk_step[OF assms(4)] extends_refl[OF assms(1)] unfolding old(2-4) by (simp add: present_def)
next
  case new
  then show ?thesis using new_table_reach[OF new(2)] new_table_extends[OF new(2)] by simp
qed

text \<open>The pages that stay free keep their bytes; and a step makes no deeper table for \<open>virt\<close>.\<close>

lemma new_table_free:
  assumes "new_table m p f fs virt j t z e m'" and "g \<in> set fs" and "b < 4096"
  shows "m' (g + of_nat b) = m (g + of_nat b)"
proof -
  note N = new_tableD[OF assms(1)] and F = new_table_frames[OF assms(1)]
  note D = tables_okD[OF N(1)]
  have g: "is_frame g" "g \<noteq> f" using D(2)[of g] D(3) assms(2) by auto
  have "g \<noteq> t" using D(6)[OF N(2), of j g] N(3,4) assms(2) by auto
  have "(if z then zero_page f m else m) (g + of_nat b) = m (g + of_nat b)"
    using unat_page_diff[OF F(2) g(1) assms(3)] g(2) by (simp add: zero_page_def)
  then show ?thesis
    unfolding N(9) using wr64_page[OF F(3) g(1) _ idx_less assms(3)] \<open>g \<noteq> t\<close> by simp
qed

lemma spec_step_deeper:
  assumes "tables_ok m p fs" and "own virt" and "j \<le> 2" and "pwalk m p virt j = Some t" and "fs \<noteq> []"
    and "z \<or> j = 2" and "spec_step z (idx (4 - j) virt) (t, m, fs) = (t', m', fs')"
  shows "k \<le> 3 \<Longrightarrow> Suc j < k \<Longrightarrow> pwalk m' p virt k = Some x \<Longrightarrow> pwalk m p virt k = Some x"
    and "g \<in> set fs' \<Longrightarrow> b < 4096 \<Longrightarrow> m' (g + of_nat b) = m (g + of_nat b)"
proof -
  have "(k \<le> 3 \<and> Suc j < k \<and> pwalk m' p virt k = Some x \<longrightarrow> pwalk m p virt k = Some x) \<and>
      (g \<in> set fs' \<and> b < 4096 \<longrightarrow> m' (g + of_nat b) = m (g + of_nat b))"
    using assms
  proof (cases rule: spec_step_cases)
    case old
    then show ?thesis by simp
  next
    case new
    from new_table_only[OF new(2) assms(2), of k x] new_table_free[OF new(2), of g b] show ?thesis by auto
  qed
  then show "k \<le> 3 \<Longrightarrow> Suc j < k \<Longrightarrow> pwalk m' p virt k = Some x \<Longrightarrow> pwalk m p virt k = Some x"
    and "g \<in> set fs' \<Longrightarrow> b < 4096 \<Longrightarrow> m' (g + of_nat b) = m (g + of_nat b)" by simp_all
qed

lemma spec_tables_extends:
  assumes "tables_ok m p fs" and "own virt" and "3 \<le> length fs" and "spec_tables z virt (p, m, fs) = (t, m', fs')"
  shows "pwalk m' p virt 3 = Some t \<and> extends 3 z virt p (m, fs) (m', fs')"
proof -
  obtain t1 m1 fs1 where 1: "spec_step True (idx 4 virt) (p, m, fs) = (t1, m1, fs1)" by (metis prod_cases3)
  obtain t2 m2 fs2 where 2: "spec_step True (idx 3 virt) (t1, m1, fs1) = (t2, m2, fs2)" by (metis prod_cases3)
  have 3: "spec_step z (idx 2 virt) (t2, m2, fs2) = (t, m', fs')" using assms(4) 1 2 by (simp add: spec_tables_def)
  have "fs \<noteq> []" using assms(3) by auto
  with spec_step_extends[OF assms(1,2), of 0 p True] 1
  have w1: "pwalk m1 p virt 1 = Some t1" and e1: "extends 1 True virt p (m, fs) (m1, fs1)" by simp_all
  from extendsD(2)[OF e1] assms(3) have "2 \<le> length fs1" by auto
  then have "fs1 \<noteq> []" by auto
  with spec_step_extends[OF extendsD(1)[OF e1] assms(2), of 1 t1 True] w1 2
  have w2: "pwalk m2 p virt 2 = Some t2" and e2: "extends 1 True virt p (m1, fs1) (m2, fs2)"
    by (simp_all add: numeral_2_eq_2 numeral_3_eq_3)
  from extendsD(2)[OF e2] \<open>2 \<le> length fs1\<close> have "fs2 \<noteq> []" by auto
  with spec_step_extends[OF extendsD(1)[OF e2] assms(2), of 2 t2 z] w2 3
  have w3: "pwalk m' p virt 3 = Some t" and e3: "extends 1 z virt p (m2, fs2) (m', fs')"
    by (simp_all add: numeral_2_eq_2 numeral_3_eq_3)
  have "extends (1 + 1 + 1) z virt p (m, fs) (m', fs')"
    using extends_trans[OF extends_trans[OF e1 e2, of True] e3, of z] by simp
  then have "extends 3 z virt p (m, fs) (m', fs')" by (simp add: numeral_3_eq_3)
  with w3 show ?thesis by simp
qed

lemma spec_map_correct:
  assumes "tables_ok m p fs" and "own virt" and "3 \<le> length fs" and "spec_map z virt e p (m, fs) = (m', fs')"
  shows "tables_ok m' p fs'" and "\<exists>i\<le>3. fs' = drop i fs"
    and "pwalk m' p virt 4 = (if present e then Some (frame e) else None)"
    and "own v \<Longrightarrow> \<not> agree 4 v virt \<Longrightarrow> pwalk m p v 4 = Some x \<Longrightarrow> pwalk m' p v 4 = Some x"
    and "z \<Longrightarrow> own v \<Longrightarrow> \<not> agree 4 v virt \<Longrightarrow> pwalk m' p v 4 = pwalk m p v 4"
    and "data_page m p fs g \<Longrightarrow> b < 4096 \<Longrightarrow> m' (g + of_nat b) = m (g + of_nat b)"
    and "data_page m p fs g \<Longrightarrow> data_page m' p fs' g"
proof -
  obtain t m1 where s: "spec_tables z virt (p, m, fs) = (t, m1, fs')" "m' = wr64 m1 (slot t (idx 1 virt)) e"
    using assms(4) by (auto simp: spec_map_def split: prod.splits)
  from spec_tables_extends[OF assms(1-3) s(1)]
  have w: "pwalk m1 p virt 3 = Some t" and E: "extends 3 z virt p (m, fs) (m1, fs')" by simp_all
  note X = extendsD[OF E]
  have L: "set_leaf m1 p fs' virt t e m'" using X(1) assms(2) w s(2) by (simp add: set_leaf_def)
  show "tables_ok m' p fs'" by (rule set_leaf_ok[OF L])
  show "\<exists>i\<le>3. fs' = drop i fs" by (rule X(2))
  show "pwalk m' p virt 4 = (if present e then Some (frame e) else None)"
    using set_leaf_walk(2)[OF L assms(2)] by (simp add: agree_def)
  show "own v \<Longrightarrow> \<not> agree 4 v virt \<Longrightarrow> pwalk m p v 4 = Some x \<Longrightarrow> pwalk m' p v 4 = Some x"
    using set_leaf_walk(2)[OF L] X(3)[of v 4] by simp
  show "pwalk m' p v 4 = pwalk m p v 4" if "z" "own v" "\<not> agree 4 v virt"
    using set_leaf_walk(2)[OF L that(2)] that X(3)[OF that(2), of 4] X(4)[OF that(1,2)]
    by (cases "pwalk m p v 4"; cases "pwalk m1 p v 4") auto
  show "data_page m p fs g \<Longrightarrow> b < 4096 \<Longrightarrow> m' (g + of_nat b) = m (g + of_nat b)"
    using X(5)[of g b] set_leaf_data(1)[OF L, of g b] by simp
  show "data_page m p fs g \<Longrightarrow> data_page m' p fs' g"
    using X(5)[of g 0] set_leaf_data(2)[OF L, of g 0] by simp
qed

text \<open>Canonical addresses with the same four indices are in the same page.\<close>

lemma agree_same_page:
  assumes "agree 4 v w" and "canonical v" and "canonical w"
  shows "drop_bit 12 v = drop_bit 12 w"
proof (rule bit_eqI)
  fix n
  assume "possible_bit TYPE(u64) n"
  have i: "idx l v = idx l w" if "l \<in> {1, 2, 3, 4}" for l
    using assms(1) that unfolding agree_def by (auto dest: spec[of _ "4 - l"])
  have low: "bit v (12 + (l - 1) * 9 + k) = bit w (12 + (l - 1) * 9 + k)" if "l \<in> {1, 2, 3, 4}" "k < 9" for l k
    using i[OF that(1)] that(2) bit_idx[of l v k] bit_idx[of l w k] by simp
  have top: "bit u (47 + k) = (k < 17 \<and> bit u 47)" if "canonical u" for u :: u64 and k
  proof -
    have "bit (drop_bit 47 u) k = (k < 17 \<and> bit (drop_bit 47 u) 0)"
    proof (cases "drop_bit 47 u = 0")
      case False
      have "(0x1ffff :: u64) = mask 17" by (simp add: mask_eq_exp_minus_1)
      then have "drop_bit 47 u = mask 17" using False that by (simp add: canonical_def)
      then show ?thesis by (auto simp: bit_mask_iff)
    qed simp
    then show ?thesis by (simp add: bit_drop_bit_eq)
  qed
  consider "n < 9" | "9 \<le> n" "n < 18" | "18 \<le> n" "n < 27" | "27 \<le> n" "n < 36" | "36 \<le> n" by linarith
  then have "bit v (12 + n) = bit w (12 + n)"
  proof cases
    case 1 then show ?thesis using low[of 1 n] by simp
  next
    case 2 then show ?thesis using low[of 2 "n - 9"] by simp
  next
    case 3 then show ?thesis using low[of 3 "n - 18"] by simp
  next
    case 4 then show ?thesis using low[of 4 "n - 27"] by simp
  next
    case 5
    have "bit v 47 = bit w 47" using low[of 4 8] by simp
    then show ?thesis using top[OF assms(2), of "n - 35"] top[OF assms(3), of "n - 35"] 5 by simp
  qed
  then show "bit (drop_bit 12 v) n = bit (drop_bit 12 w) n" by (simp add: bit_drop_bit_eq)
qed

end
