(* ===== verification/Page_List.thy ===== *)
theory Page_List
  imports Prelude
begin

text \<open>
  The physical page allocator of \<^verbatim>\<open>sys/memory_helpers.c\<close>: the array
  \<^verbatim>\<open>_page_list\<close> of \<^verbatim>\<open>mem_page\<close> entries, threaded by their
  \<^verbatim>\<open>next\<close> indices into a list of free pages and a list of used pages (index 0 is the
  end marker), and the boot-time code that fills and filters the free list.

  A \<^verbatim>\<open>mem_page*\<close> is the index of the entry it points to: the pointer
  \<^verbatim>\<open>_page_list + i\<close> is \<open>i\<close>. \<^verbatim>\<open>physfree\<close>, which \<^verbatim>\<open>init_pages\<close> and
  \<^verbatim>\<open>make_pages\<close> hand back and forth, is such a pointer too.
\<close>

section \<open>State\<close>

record mem_page =
  pg_base :: u64
  pg_next :: u64

type_synonym page_array = "u64 \<Rightarrow> mem_page"

text \<open>A list in the array: the array, \<^verbatim>\<open>*list_head\<close> and \<^verbatim>\<open>*list_tail\<close>.\<close>

type_synonym plist = "page_array \<times> u64 \<times> u64"

record page_lists =
  page_list :: page_array
  free_page_list_head :: u64
  free_page_list_tail :: u64
  used_page_list_head :: u64
  used_page_list_tail :: u64

section \<open>Operations\<close>

definition set_next :: "page_array \<Rightarrow> u64 \<Rightarrow> u64 \<Rightarrow> page_array" where
  "set_next pl i n = pl(i := (pl i)\<lparr>pg_next := n\<rparr>)"

definition set_base :: "page_array \<Rightarrow> u64 \<Rightarrow> u64 \<Rightarrow> page_array" where
  "set_base pl i b = pl(i := (pl i)\<lparr>pg_base := b\<rparr>)"

text \<open>
  The emptiness test of \<^verbatim>\<open>dequeue_page\<close> compares the pointer \<^verbatim>\<open>list_tail\<close> with 0,
  not what it points to. The first argument says whether that pointer is null.
\<close>

definition dequeue_page :: "bool \<Rightarrow> plist \<Rightarrow> u64 option \<times> plist" where
  "dequeue_page list_tail_null q =
     (case q of (pl, hd0, tl0) \<Rightarrow>
        if hd0 = 0 \<and> list_tail_null then (None, q)
        else let nxt = pg_next (pl hd0)
             in (Some hd0, (pl, nxt, if nxt = 0 then 0 else tl0)))"

definition queue_page :: "u64 \<Rightarrow> plist \<Rightarrow> plist" where
  "queue_page index q =
     (case q of (pl, hd0, tl0) \<Rightarrow>
        let (pl1, hd1) =
              (if hd0 = 0 \<and> tl0 = 0 then (pl, index) else (set_next pl tl0 index, hd0))
        in (set_next pl1 index 0, hd1, index))"

text \<open>
  \<^verbatim>\<open>get_free_page\<close> passes the addresses of two globals, which are not null. The result is
  the entry taken off the free list.
\<close>

definition get_free_page :: "page_lists \<Rightarrow> u64 option \<times> page_lists" where
  "get_free_page s =
     (let list_index = free_page_list_head s;
          (res, (pl, fh, ft)) =
            dequeue_page False (page_list s, free_page_list_head s, free_page_list_tail s);
          s1 = s\<lparr>page_list := pl, free_page_list_head := fh, free_page_list_tail := ft\<rparr>
      in (case res of
            None \<Rightarrow> (None, s1)
          | Some page \<Rightarrow>
              (let (pl', uh, ut) =
                     queue_page list_index
                       (page_list s1, used_page_list_head s1, used_page_list_tail s1)
               in (Some page,
                   s1\<lparr>page_list := pl', used_page_list_head := uh, used_page_list_tail := ut\<rparr>))))"

text \<open>\<^verbatim>\<open>init_pages\<close> points \<^verbatim>\<open>_page_list\<close> at \<^verbatim>\<open>physfree\<close> and returns the entry after the end marker.\<close>

definition init_pages :: "page_array \<Rightarrow> page_lists \<times> u64" where
  "init_pages physfree =
     (\<lparr>page_list = set_next (set_base physfree 0 0) 0 0,
       free_page_list_head = 0, free_page_list_tail = 0,
       used_page_list_head = 0, used_page_list_tail = 0\<rparr>, 1)"

text \<open>
  The loop of \<^verbatim>\<open>make_pages\<close>: \<open>index\<close> is the physical address, \<open>list_index\<close> the list
  index and \<open>page\<close> the entry written. The loop does not return when \<open>base + len\<close> is so
  close to the top that \<open>index\<close> wraps around below it.
\<close>

partial_function (option) make_pages_loop ::
  "u64 \<Rightarrow> u64 \<Rightarrow> u64 \<Rightarrow> u64 \<Rightarrow> page_lists \<Rightarrow> (u64 \<times> page_lists) option" where
  "make_pages_loop end index list_index page s =
     (if index < end
      then (let (pl, fh, ft) =
                  queue_page list_index
                    (set_base (page_list s) page index,
                     free_page_list_head s, free_page_list_tail s)
            in make_pages_loop end (index + PAGESIZE) (list_index + 1) (page + 1)
                 (s\<lparr>page_list := pl, free_page_list_head := fh, free_page_list_tail := ft\<rparr>))
      else Some (page, s))"

definition make_pages ::
  "u64 \<Rightarrow> u64 \<Rightarrow> u64 \<Rightarrow> page_lists \<Rightarrow> (u64 \<times> page_lists) option" where
  "make_pages base len physfree s =
     (if base = 0 then Some (physfree, s)
      else make_pages_loop (base + len) base 1 physfree s)"

text \<open>
  \<^verbatim>\<open>filter_out_pages\<close>: drop leading pages of the range, panic if none is left, then
  unlink the others. \<^verbatim>\<open>_free_page_list_tail\<close> is not touched.
\<close>

definition in_range :: "u64 \<Rightarrow> u64 \<Rightarrow> page_array \<Rightarrow> u64 \<Rightarrow> bool" where
  "in_range base lim pl i = (base \<le> pg_base (pl i) \<and> pg_base (pl i) < lim)"

partial_function (option) filter_head_loop ::
  "u64 \<Rightarrow> u64 \<Rightarrow> page_array \<Rightarrow> u64 \<Rightarrow> (fault + u64) option" where
  "filter_head_loop base lim pl hd0 =
     (if in_range base lim pl hd0
      then (let hd1 = pg_next (pl hd0)
            in if hd1 = 0 then Some (Inl Panic) else filter_head_loop base lim pl hd1)
      else Some (Inr hd0))"

partial_function (option) unlink_loop ::
  "u64 \<Rightarrow> u64 \<Rightarrow> u64 \<Rightarrow> u64 \<Rightarrow> page_array \<Rightarrow> page_array option" where
  "unlink_loop base lim cur nxt pl =
     (if in_range base lim pl nxt
      then (let next_index = pg_next (pl nxt);
                pl1 = set_next pl cur next_index;
                pl2 = set_next pl1 nxt 0
            in unlink_loop base lim cur next_index pl2)
      else Some pl)"

partial_function (option) filter_tail_loop ::
  "u64 \<Rightarrow> u64 \<Rightarrow> u64 \<Rightarrow> page_array \<Rightarrow> page_array option" where
  "filter_tail_loop base lim index pl =
     (if index \<noteq> 0
      then Option.bind (unlink_loop base lim index (pg_next (pl index)) pl)
             (\<lambda>pl'. filter_tail_loop base lim (pg_next (pl' index)) pl')
      else Some pl)"

definition filter_out_pages :: "u64 \<Rightarrow> u64 \<Rightarrow> page_lists \<Rightarrow> (fault + page_lists) option" where
  "filter_out_pages base lim s =
     Option.bind (filter_head_loop base lim (page_list s) (free_page_list_head s))
       (\<lambda>r. case r of
          Inl e \<Rightarrow> Some (Inl e)
        | Inr hd1 \<Rightarrow>
            map_option
              (\<lambda>pl. Inr (s\<lparr>page_list := pl, free_page_list_head := hd1\<rparr>))
              (filter_tail_loop base lim hd1 (page_list s)))"

section \<open>Lists in the array\<close>

fun chain :: "page_array \<Rightarrow> u64 \<Rightarrow> u64 list \<Rightarrow> bool" where
  "chain pl hd0 [] = (hd0 = 0)"
| "chain pl hd0 (x # xs) = (hd0 = x \<and> x \<noteq> 0 \<and> chain pl (pg_next (pl x)) xs)"

definition plist_repr :: "plist \<Rightarrow> u64 list \<Rightarrow> bool" where
  "plist_repr q xs =
     (case q of (pl, hd0, tl0) \<Rightarrow>
        chain pl hd0 xs \<and> distinct xs \<and> tl0 = (if xs = [] then 0 else last xs))"

lemma pg_next_set_next [simp]: "pg_next (set_next pl i n j) = (if j = i then n else pg_next (pl j))"
  by (simp add: set_next_def)

lemma pg_base_set_next [simp]: "pg_base (set_next pl i n j) = pg_base (pl j)"
  by (simp add: set_next_def)

lemma pg_next_set_base [simp]: "pg_next (set_base pl i b j) = pg_next (pl j)"
  by (simp add: set_base_def)

lemma pg_base_set_base [simp]: "pg_base (set_base pl i b j) = (if j = i then b else pg_base (pl j))"
  by (simp add: set_base_def)

lemma set_next_other: "j \<noteq> i \<Longrightarrow> set_next pl i n j = pl j"
  by (simp add: set_next_def)

lemma chain_cong: "(\<And>x. x \<in> set xs \<Longrightarrow> pg_next (pl x) = pg_next (pl' x)) \<Longrightarrow> chain pl h xs = chain pl' h xs"
  by (induction xs arbitrary: h) auto

lemma chain_set_next [simp]: "i \<notin> set xs \<Longrightarrow> chain (set_next pl i n) h xs = chain pl h xs"
  by (rule chain_cong) auto

lemma chain_set_base [simp]: "chain (set_base pl i b) h xs = chain pl h xs"
  by (rule chain_cong) simp

lemma chain_nonzero: "chain pl h xs \<Longrightarrow> 0 \<notin> set xs"
  by (induction xs arbitrary: h) auto

lemma chain_unique: "chain pl h xs \<Longrightarrow> chain pl h ys \<Longrightarrow> xs = ys"
proof (induction xs arbitrary: h ys)
  case Nil
  then show ?case by (cases ys) auto
next
  case (Cons x xs)
  then show ?case by (cases ys) auto
qed

lemma chain_snoc:
  "chain pl h xs \<Longrightarrow> xs \<noteq> [] \<Longrightarrow> x \<noteq> 0 \<Longrightarrow> x \<notin> set xs \<Longrightarrow> distinct xs \<Longrightarrow>
     chain (set_next (set_next pl (last xs) x) x 0) h (xs @ [x])"
proof (induction xs arbitrary: h)
  case Nil
  then show ?case by simp
next
  case (Cons y ys)
  then show ?case by (cases "ys = []") auto
qed

lemma chain_head: "chain pl h xs \<Longrightarrow> h = 0 \<longleftrightarrow> xs = []"
  by (cases xs) auto

lemma queue_page_repr:
  "plist_repr q xs \<Longrightarrow> x \<noteq> 0 \<and> x \<notin> set xs \<Longrightarrow> plist_repr (queue_page x q) (xs @ [x])"
  by (cases q; cases "xs = []")
    (auto simp: plist_repr_def queue_page_def Let_def chain_snoc dest: chain_head)

lemma dequeue_page_repr:
  "plist_repr q (x # xs) \<Longrightarrow> \<exists>q'. dequeue_page b q = (Some x, q') \<and> plist_repr q' xs"
  by (cases q) (auto simp: plist_repr_def dequeue_page_def Let_def dest: chain_head)

interpretation page_fifo: fifo plist_repr "\<lambda>xs x. x \<noteq> 0 \<and> x \<notin> set xs" queue_page
    "\<lambda>q. map_prod the id (dequeue_page False q)"
proof unfold_locales
  show "\<And>s xs x. plist_repr s xs \<Longrightarrow> x \<noteq> 0 \<and> x \<notin> set xs \<Longrightarrow> plist_repr (queue_page x s) (xs @ [x])"
    by (rule queue_page_repr)
next
  fix s x xs assume "plist_repr s (x # xs)"
  from dequeue_page_repr[OF this, of False]
  show "\<exists>s'. map_prod the id (dequeue_page False s) = (x, s') \<and> plist_repr s' xs" by auto
qed

section \<open>Taking pages\<close>

text \<open>
  The pool: \<open>fs\<close> are the free entries, \<open>us\<close> the used ones, each a list of its own in the one
  array. Nothing is ever queued on the free list after boot, so its tail is not constrained
  (\<^verbatim>\<open>filter_out_pages\<close> may leave it on a page that it removed).
\<close>

definition pool_inv :: "page_lists \<Rightarrow> u64 list \<Rightarrow> u64 list \<Rightarrow> bool" where
  "pool_inv s fs us =
     (chain (page_list s) (free_page_list_head s) fs \<and> distinct (fs @ us) \<and>
      plist_repr (page_list s, used_page_list_head s, used_page_list_tail s) us)"

lemma queue_page_frame:
  assumes "plist_repr (pl, h, t) us" and "i \<notin> set us" and "i \<noteq> x"
  shows "fst (queue_page x (pl, h, t)) i = pl i"
  using assms
  by (cases "us = []")
    (auto simp: queue_page_def plist_repr_def Let_def set_next_def dest: chain_head)

lemma queue_page_base [simp]: "pg_base (fst (queue_page x (pl, h, t)) i) = pg_base (pl i)"
  by (auto simp: queue_page_def Let_def)

lemma get_free_page_eq:
  "get_free_page s =
     (let h = free_page_list_head s; nxt = pg_next (page_list s h);
          q = queue_page h (page_list s, used_page_list_head s, used_page_list_tail s)
      in (Some h,
          s\<lparr>page_list := fst q, free_page_list_head := nxt,
             free_page_list_tail := (if nxt = 0 then 0 else free_page_list_tail s),
             used_page_list_head := fst (snd q), used_page_list_tail := snd (snd q)\<rparr>))"
  by (simp add: get_free_page_def dequeue_page_def Let_def split: prod.splits)

lemma get_free_page_pool:
  assumes "pool_inv s (x # fs) us"
  shows "\<exists>s'. get_free_page s = (Some x, s') \<and> pool_inv s' fs (us @ [x])"
proof -
  let ?q = "(page_list s, used_page_list_head s, used_page_list_tail s)"
  from assms have q: "plist_repr ?q us" and x: "x \<noteq> 0 \<and> x \<notin> set us"
    and h: "free_page_list_head s = x" and c: "chain (page_list s) (pg_next (page_list s x)) fs"
    and d: "distinct (fs @ us @ [x])"
    by (auto simp: pool_inv_def)
  have "chain (fst (queue_page x ?q)) (pg_next (page_list s x)) fs"
    using c d by (subst chain_cong[where pl' = "page_list s"])
      (auto intro!: arg_cong[of _ _ pg_next] queue_page_frame[OF q])
  moreover have "plist_repr (queue_page x ?q) (us @ [x])"
    using q x by (rule queue_page_repr)
  ultimately show ?thesis using h d
    by (simp add: get_free_page_eq pool_inv_def Let_def)
qed

lemma get_free_page_base [simp]:
  "pg_base (page_list (snd (get_free_page s)) i) = pg_base (page_list s i)"
  by (simp add: get_free_page_eq Let_def)

lemma get_free_page_empty:
  assumes "pool_inv s [] us"
  shows "fst (get_free_page s) = Some 0"
  using assms by (simp add: get_free_page_eq pool_inv_def Let_def)

text \<open>Taking several pages: each call hands out the next entry of the free list.\<close>

fun get_free_pages :: "nat \<Rightarrow> page_lists \<Rightarrow> u64 list \<times> page_lists" where
  "get_free_pages 0 s = ([], s)"
| "get_free_pages (Suc n) s =
     (let (r, s1) = get_free_page s; (rs, s2) = get_free_pages n s1 in (the r # rs, s2))"

lemma get_free_pages_base:
  "pg_base (page_list (snd (get_free_pages n s)) i) = pg_base (page_list s i)"
  by (induction n arbitrary: s) (simp_all add: Let_def case_prod_beta)

lemma get_free_pages_pool:
  "pool_inv s fs us \<Longrightarrow> n \<le> length fs \<Longrightarrow>
     \<exists>s'. get_free_pages n s = (take n fs, s') \<and> pool_inv s' (drop n fs) (us @ take n fs)"
proof (induction n arbitrary: s fs us)
  case 0
  then show ?case by simp
next
  case (Suc n)
  then obtain x fs' where fs: "fs = x # fs'" by (cases fs) auto
  with get_free_page_pool[of s x fs' us] Suc.prems(1) obtain s1
    where s1: "get_free_page s = (Some x, s1)" "pool_inv s1 fs' (us @ [x])" by auto
  from Suc.IH[OF s1(2)] Suc.prems(2) fs s1(1) show ?case by auto
qed

section \<open>Filling the free list\<close>

definition page_indices :: "nat \<Rightarrow> u64 list" where
  "page_indices n = map of_nat [1..<Suc n]"

lemma page_indices_0 [simp]: "page_indices 0 = []"
  by (simp add: page_indices_def)

lemma page_indices_Suc: "page_indices (Suc n) = page_indices n @ [of_nat (Suc n)]"
  by (simp add: page_indices_def)

lemma length_page_indices [simp]: "length (page_indices n) = n"
  by (simp add: page_indices_def)

lemma page_indices_fresh:
  "Suc n < 2 ^ 64 \<Longrightarrow> (of_nat (Suc n) :: u64) \<noteq> 0 \<and> of_nat (Suc n) \<notin> set (page_indices n)"
proof
  assume n: "Suc n < 2 ^ 64"
  then show "(of_nat (Suc n) :: u64) \<noteq> 0"
    using of_nat_64_eq_iff[of "Suc n" 0] by simp
  show "of_nat (Suc n) \<notin> set (page_indices n)"
    using n by (auto simp: page_indices_def of_nat_64_eq_iff simp del: of_nat_Suc upt_Suc)
qed

definition free_list :: "page_lists \<Rightarrow> plist" where
  "free_list s = (page_list s, free_page_list_head s, free_page_list_tail s)"

definition fill_step :: "u64 \<Rightarrow> u64 \<Rightarrow> u64 \<Rightarrow> page_lists \<Rightarrow> page_lists" where
  "fill_step index list_index page s =
     (let q = queue_page list_index
                (set_base (page_list s) page index, free_page_list_head s, free_page_list_tail s)
      in s\<lparr>page_list := fst q, free_page_list_head := fst (snd q),
           free_page_list_tail := snd (snd q)\<rparr>)"

lemma make_pages_loop_step:
  "make_pages_loop end index li page s =
     (if index < end
      then make_pages_loop end (index + PAGESIZE) (li + 1) (page + 1) (fill_step index li page s)
      else Some (page, s))"
  by (subst make_pages_loop.simps) (simp add: fill_step_def Let_def split: prod.splits)

lemma free_list_fill_step:
  "free_list (fill_step index li page s) =
     queue_page li (set_base (page_list s) page index, free_page_list_head s, free_page_list_tail s)"
  by (simp add: fill_step_def free_list_def Let_def)

lemma plist_repr_set_base [simp]: "plist_repr (set_base pl i b, h, t) xs = plist_repr (pl, h, t) xs"
  by (simp add: plist_repr_def)

lemma fill_step_repr:
  assumes "plist_repr (free_list s) (page_indices k)" and "Suc k < 2 ^ 64"
  shows "plist_repr (free_list (fill_step index (of_nat (Suc k)) page s)) (page_indices (Suc k))"
  unfolding free_list_fill_step page_indices_Suc
  using assms page_indices_fresh[OF assms(2)]
  by (intro queue_page_repr) (simp_all add: free_list_def)

lemma fill_step_base [simp]:
  "pg_base (page_list (fill_step index li page s) i) =
     (if i = page then index else pg_base (page_list s i))"
  by (simp add: fill_step_def Let_def)

lemma fill_step_used [simp]:
  "used_page_list_head (fill_step index li page s) = used_page_list_head s"
  "used_page_list_tail (fill_step index li page s) = used_page_list_tail s"
  by (simp_all add: fill_step_def Let_def)

text \<open>
  The loop of \<^verbatim>\<open>make_pages\<close> over \<open>n\<close> pages appends the next \<open>n\<close> indices to the free list,
  and records their addresses in the entries from \<open>page\<close> on.
\<close>

lemma make_pages_loop_fill:
  assumes "plist_repr (free_list s) (page_indices k)" and "k + n < 2 ^ 64"
    and "\<forall>i<n. index + of_nat i * PAGESIZE < end" and "\<not> index + of_nat n * PAGESIZE < end"
  shows "\<exists>s'. make_pages_loop end index (of_nat (Suc k)) page s = Some (page + of_nat n, s') \<and>
           plist_repr (free_list s') (page_indices (k + n)) \<and>
           used_page_list_head s' = used_page_list_head s \<and>
           used_page_list_tail s' = used_page_list_tail s \<and>
           (\<forall>i<n. pg_base (page_list s' (page + of_nat i)) = index + of_nat i * PAGESIZE) \<and>
           (\<forall>j. (\<forall>i<n. j \<noteq> page + of_nat i) \<longrightarrow> pg_base (page_list s' j) = pg_base (page_list s j))"
  using assms
proof (induction n arbitrary: k index page s)
  case 0
  then show ?case by (subst make_pages_loop_step) auto
next
  case (Suc n)
  let ?s = "fill_step index (of_nat (Suc k)) page s"
  have r: "plist_repr (free_list ?s) (page_indices (Suc k))"
    using Suc.prems by (intro fill_step_repr) auto
  have e: "index + PAGESIZE + of_nat i * PAGESIZE = index + of_nat (Suc i) * PAGESIZE" for i
    by (simp add: algebra_simps)
  have lt: "\<forall>i<n. index + PAGESIZE + of_nat i * PAGESIZE < end"
    using Suc.prems(3) unfolding e by auto
  have ge: "\<not> index + PAGESIZE + of_nat n * PAGESIZE < end"
    using Suc.prems(4) unfolding e .
  have "Suc k + n < 2 ^ 64" using Suc.prems(2) by simp
  from Suc.IH[OF r this lt ge, of "page + 1"] obtain s' where
    s': "make_pages_loop end (index + PAGESIZE) (of_nat (Suc (Suc k))) (page + 1) ?s
           = Some (page + 1 + of_nat n, s')"
      "plist_repr (free_list s') (page_indices (Suc k + n))"
      "used_page_list_head s' = used_page_list_head s"
      "used_page_list_tail s' = used_page_list_tail s"
    and b: "\<And>i. i < n \<Longrightarrow> pg_base (page_list s' (page + 1 + of_nat i))
              = index + PAGESIZE + of_nat i * PAGESIZE"
    and u: "\<And>j. \<forall>i<n. j \<noteq> page + 1 + of_nat i \<Longrightarrow>
              pg_base (page_list s' j) = pg_base (page_list ?s j)"
    by auto
  have "index < end" using Suc.prems(3) by (auto dest: spec[of _ 0])
  then have 1: "make_pages_loop end index (of_nat (Suc k)) page s = Some (page + of_nat (Suc n), s')"
    using s'(1) by (subst make_pages_loop_step) (simp add: algebra_simps)
  have fresh: "\<forall>i<n. page \<noteq> page + 1 + of_nat i"
    using Suc.prems(2) of_nat_64_eq_iff[of "Suc _" 0] by (auto simp: add.assoc)
  have 2: "pg_base (page_list s' (page + of_nat i)) = index + of_nat i * PAGESIZE" if "i < Suc n" for i
  proof (cases i)
    case 0
    with u[OF fresh] show ?thesis by simp
  next
    case (Suc j)
    with b[of j] that show ?thesis by (simp add: algebra_simps)
  qed
  have 3: "pg_base (page_list s' j) = pg_base (page_list s j)"
    if "\<forall>i<Suc n. j \<noteq> page + of_nat i" for j
  proof -
    have "j \<noteq> page" using that by (auto dest: spec[of _ 0])
    moreover have "\<forall>i<n. j \<noteq> page + 1 + of_nat i"
    proof (intro allI impI)
      fix i assume "i < n"
      with that have "j \<noteq> page + of_nat (Suc i)" by blast
      then show "j \<noteq> page + 1 + of_nat i" by (simp add: algebra_simps)
    qed
    ultimately show ?thesis using u[of j] by simp
  qed
  from 1 2 3 s' show ?case by auto
qed

definition page_count :: "u64 \<Rightarrow> nat" where
  "page_count len = (unat len + 4095) div 4096"

lemma page_count_bounds:
  assumes "unat base + unat len + 4096 \<le> 2 ^ 64"
  shows "\<forall>i<page_count len. base + of_nat i * PAGESIZE < base + len"
    and "\<not> base + of_nat (page_count len) * PAGESIZE < base + len"
    and "page_count len < 2 ^ 63"
proof -
  have u: "unat (base + of_nat i * PAGESIZE) = unat base + i * 4096" if "i \<le> page_count len" for i
  proof -
    have "i * 4096 \<le> unat len + 4095" using that unfolding page_count_def by linarith
    then show ?thesis using assms by (simp add: unat_word_ariths unat_of_nat)
  qed
  have l: "unat (base + len) = unat base + unat len"
    using assms by (simp add: unat_word_ariths)
  show "\<forall>i<page_count len. base + of_nat i * PAGESIZE < base + len"
    using u l by (auto simp: word_less_nat_alt page_count_def)
  show "\<not> base + of_nat (page_count len) * PAGESIZE < base + len"
    using u[of "page_count len"] l by (simp add: word_less_nat_alt page_count_def)
  show "page_count len < 2 ^ 63"
    using unat64_lt[of len] by (simp add: page_count_def)
qed

lemma free_list_init: "plist_repr (free_list (fst (init_pages a))) (page_indices 0)"
  by (simp add: free_list_def init_pages_def plist_repr_def)

lemma make_pages_first:
  assumes "base \<noteq> 0" and "unat base + unat len + 4096 \<le> 2 ^ 64"
  shows "\<exists>s. make_pages base len 1 (fst (init_pages a)) = Some (of_nat (Suc (page_count len)), s) \<and>
           plist_repr (free_list s) (page_indices (page_count len)) \<and>
           used_page_list_head s = 0 \<and> used_page_list_tail s = 0 \<and>
           (\<forall>i<page_count len. pg_base (page_list s (of_nat (Suc i))) = base + of_nat i * PAGESIZE) \<and>
           pg_base (page_list s 0) = 0"
proof -
  note b = page_count_bounds[OF assms(2)]
  have "(1::u64) + of_nat i \<noteq> 0" if "i < page_count len" for i
    using of_nat_64_eq_iff[of "Suc i" 0] that b(3) by simp
  then have "\<forall>i<page_count len. 0 \<noteq> (1::u64) + of_nat i" by metis
  then show ?thesis
    using make_pages_loop_fill[OF free_list_init, of "page_count len" base "base + len" 1 a]
      b assms(1)
    by (auto simp: make_pages_def init_pages_def)
qed

text \<open>
  A second call restarts the list indices at 1, although the pages it records are written behind
  those of the first call: entry 1 becomes the tail, and the list is rebuilt from there.
\<close>

lemma requeue_first:
  assumes "plist_repr q (page_indices (Suc k))"
  shows "plist_repr (queue_page 1 q) (page_indices 1)"
proof -
  obtain pl h t where q: "q = (pl, h, t)" by (cases q)
  have "page_indices (Suc k) = 1 # map of_nat [2..<Suc (Suc k)]"
    by (simp add: page_indices_def upt_conv_Cons numeral_2_eq_2 del: upt_Suc)
  with assms q have "h = 1" by (simp add: plist_repr_def)
  then show ?thesis
    by (simp add: q queue_page_def plist_repr_def page_indices_def Let_def)
qed

lemma make_pages_again:
  assumes "plist_repr (free_list s) (page_indices (Suc k))" and "base \<noteq> 0" and "len \<noteq> 0"
    and "unat base + unat len + 4096 \<le> 2 ^ 64"
  shows "\<exists>s'. make_pages base len page s = Some (page + of_nat (page_count len), s') \<and>
           plist_repr (free_list s') (page_indices (page_count len)) \<and>
           (\<forall>j. (\<forall>i<page_count len. j \<noteq> page + of_nat i) \<longrightarrow>
                 pg_base (page_list s' j) = pg_base (page_list s j))"
proof -
  note b = page_count_bounds[OF assms(4)]
  let ?s = "fill_step base 1 page s"
  obtain n where n: "page_count len = Suc n"
    using assms(3) unat_gt_0[of len] by (cases "page_count len") (auto simp: page_count_def)
  have "base < base + len" using b(1) n by (auto dest: spec[of _ 0])
  have r: "plist_repr (free_list ?s) (page_indices 1)"
    unfolding free_list_fill_step using assms(1)
    by (intro requeue_first[of _ k]) (simp add: free_list_def)
  have e: "base + PAGESIZE + of_nat i * PAGESIZE = base + of_nat (Suc i) * PAGESIZE" for i
    by (simp add: algebra_simps)
  have "\<forall>i<n. base + PAGESIZE + of_nat i * PAGESIZE < base + len"
    and "\<not> base + PAGESIZE + of_nat n * PAGESIZE < base + len"
    using b(1,2) n unfolding e by auto
  from make_pages_loop_fill[OF r _ this, of "page + 1"] b(3) n obtain s' where
    s': "make_pages_loop (base + len) (base + PAGESIZE) 2 (page + 1) ?s = Some (page + 1 + of_nat n, s')"
      "plist_repr (free_list s') (page_indices (Suc n))"
    and u: "\<And>j. \<forall>i<n. j \<noteq> page + 1 + of_nat i \<Longrightarrow> pg_base (page_list s' j) = pg_base (page_list ?s j)"
    by auto
  have "pg_base (page_list s' j) = pg_base (page_list s j)"
    if "\<forall>i<Suc n. j \<noteq> page + of_nat i" for j
  proof -
    have "j \<noteq> page" using that by (auto dest: spec[of _ 0])
    moreover have "j \<noteq> page + 1 + of_nat i" if "i < n" for i
      using \<open>\<forall>i<Suc n. j \<noteq> page + of_nat i\<close>[rule_format, of "Suc i"] that by (simp add: algebra_simps)
    ultimately show ?thesis using u[of j] by simp
  qed
  then show ?thesis
    using assms(2) s' n \<open>base < base + len\<close>
    by (auto simp: make_pages_def make_pages_loop_step[of _ base] algebra_simps)
qed

section \<open>Filtering the free list\<close>

lemma in_range_set_next [simp]: "in_range base lim (set_next pl i n) j = in_range base lim pl j"
  by (simp add: in_range_def)

lemma in_range_cong: "pg_base (pl j) = pg_base (pl' j) \<Longrightarrow> in_range base lim pl j = in_range base lim pl' j"
  by (simp add: in_range_def)

lemma chain_dropWhile:
  "chain pl h xs \<Longrightarrow>
     chain pl (case dropWhile P xs of [] \<Rightarrow> 0 | x # _ \<Rightarrow> x) (dropWhile P xs)"
  by (induction xs arbitrary: h) auto

lemma filter_head_loop_chain:
  assumes "chain pl h xs" and "\<not> in_range base lim pl 0"
  shows "filter_head_loop base lim pl h =
     Some (if xs \<noteq> [] \<and> (\<forall>x\<in>set xs. in_range base lim pl x) then Inl Panic
           else Inr (case dropWhile (in_range base lim pl) xs of [] \<Rightarrow> 0 | x # _ \<Rightarrow> x))"
  using assms
proof (induction xs arbitrary: h)
  case Nil
  then show ?case by (subst filter_head_loop.simps) simp
next
  case (Cons x xs)
  then have h: "h = x" and c: "chain pl (pg_next (pl x)) xs" by auto
  show ?case
  proof (cases "xs = []")
    case True
    with Cons.prems h show ?thesis by (subst filter_head_loop.simps) simp
  next
    case False
    with c have "pg_next (pl x) \<noteq> 0" by (simp add: chain_head)
    with Cons.IH[OF c] Cons.prems(2) h False show ?thesis
      by (subst filter_head_loop.simps) (simp add: Let_def)
  qed
qed

lemma unlink_loop_chain:
  assumes "chain pl nxt xs" and "pg_next (pl c) = nxt" and "c \<notin> set xs" and "distinct xs"
    and "\<not> in_range base lim pl 0"
  shows "\<exists>pl'. unlink_loop base lim c nxt pl = Some pl' \<and>
           chain pl' (pg_next (pl' c)) (dropWhile (in_range base lim pl) xs) \<and>
           (\<forall>i. pg_base (pl' i) = pg_base (pl i)) \<and> (\<forall>i. i \<notin> insert c (set xs) \<longrightarrow> pl' i = pl i)"
  using assms
proof (induction xs arbitrary: nxt pl)
  case Nil
  then show ?case by (subst unlink_loop.simps) simp
next
  case (Cons x xs)
  then have x: "nxt = x" "x \<noteq> 0" "chain pl (pg_next (pl x)) xs" "c \<noteq> x" "c \<notin> set xs"
      "x \<notin> set xs" "distinct xs"
    by auto
  show ?case
  proof (cases "in_range base lim pl x")
    case False
    with Cons.prems show ?thesis by (subst unlink_loop.simps) simp
  next
    case True
    let ?n = "pg_next (pl x)"
    let ?pl = "set_next (set_next pl c ?n) x 0"
    have r: "in_range base lim ?pl = in_range base lim pl" by (rule ext) simp
    have "chain ?pl ?n xs" using x by simp
    moreover have "pg_next (?pl c) = ?n" using x by simp
    ultimately obtain pl' where pl': "unlink_loop base lim c ?n ?pl = Some pl'"
        "chain pl' (pg_next (pl' c)) (dropWhile (in_range base lim pl) xs)"
        "\<forall>i. pg_base (pl' i) = pg_base (?pl i)" "\<forall>i. i \<notin> insert c (set xs) \<longrightarrow> pl' i = ?pl i"
      using Cons.IH[of ?pl ?n] x Cons.prems(5) unfolding r by auto
    then have "unlink_loop base lim c nxt pl = Some pl'"
      using True x(1) by (subst unlink_loop.simps) (simp add: Let_def)
    with pl' True show ?thesis by (auto simp: set_next_other)
  qed
qed

lemma filter_tail_loop_chain:
  assumes "chain pl h xs" and "distinct xs" and "\<not> in_range base lim pl 0"
    and "xs \<noteq> [] \<Longrightarrow> \<not> in_range base lim pl (hd xs)"
  shows "\<exists>pl'. filter_tail_loop base lim h pl = Some pl' \<and>
           chain pl' h (filter (\<lambda>i. \<not> in_range base lim pl i) xs) \<and>
           (\<forall>i. pg_base (pl' i) = pg_base (pl i)) \<and> (\<forall>i. i \<notin> set xs \<longrightarrow> pl' i = pl i)"
  using assms
proof (induction "length xs" arbitrary: h xs pl rule: less_induct)
  case less
  show ?case
  proof (cases xs)
    case Nil
    with less.prems show ?thesis by (subst filter_tail_loop.simps) simp
  next
    case (Cons x ys)
    let ?P = "in_range base lim pl"
    let ?ys = "dropWhile ?P ys"
    from Cons less.prems have x: "h = x" "x \<noteq> 0" "chain pl (pg_next (pl x)) ys" "x \<notin> set ys"
        "distinct ys" "\<not> ?P x" by auto
    from unlink_loop_chain[OF x(3) refl x(4,5) less.prems(3)] obtain pl1 where
      u: "unlink_loop base lim x (pg_next (pl x)) pl = Some pl1"
        "chain pl1 (pg_next (pl1 x)) ?ys" "\<forall>i. pg_base (pl1 i) = pg_base (pl i)"
        "\<forall>i. i \<notin> insert x (set ys) \<longrightarrow> pl1 i = pl i" by auto
    have r: "in_range base lim pl1 = ?P" by (rule ext, rule in_range_cong) (simp add: u(3))
    have sub: "set ?ys \<subseteq> set ys" by (auto dest: set_dropWhileD)
    have hd: "?ys \<noteq> [] \<Longrightarrow> \<not> ?P (hd ?ys)" by (rule hd_dropWhile)
    have "length ?ys < length xs" using Cons by (simp add: le_imp_less_Suc length_dropWhile_le)
    from less.hyps[OF this u(2)] x(5) less.prems(3) hd obtain pl2 where
      f: "filter_tail_loop base lim (pg_next (pl1 x)) pl1 = Some pl2"
        "chain pl2 (pg_next (pl1 x)) (filter (\<lambda>i. \<not> ?P i) ?ys)"
        "\<forall>i. pg_base (pl2 i) = pg_base (pl1 i)" "\<forall>i. i \<notin> set ?ys \<longrightarrow> pl2 i = pl1 i"
      unfolding r by (auto simp: distinct_dropWhile)
    have fl: "filter (\<lambda>i. \<not> ?P i) ?ys = filter (\<lambda>i. \<not> ?P i) ys"
      by (induction ys) auto
    have "pl2 x = pl1 x" using f(4) sub x(4) by auto
    then have "chain pl2 h (filter (\<lambda>i. \<not> ?P i) xs)"
      using Cons x f(2) fl by simp
    moreover have "filter_tail_loop base lim h pl = Some pl2"
      using x(1,2) u(1) f(1) by (subst filter_tail_loop.simps) simp
    ultimately show ?thesis using f(3,4) u(3,4) sub Cons by auto
  qed
qed

lemma filter_out_pages_chain:
  assumes "chain (page_list s) (free_page_list_head s) xs" and "distinct xs"
    and "pg_base (page_list s 0) = 0" and "0 < base"
    and keep_def: "keep = filter (\<lambda>i. \<not> in_range base lim (page_list s) i) xs"
  shows "\<exists>r. filter_out_pages base lim s = Some r \<and>
           (if xs \<noteq> [] \<and> keep = [] then r = Inl Panic
            else \<exists>s'. r = Inr s' \<and> chain (page_list s') (free_page_list_head s') keep \<and>
                   (\<forall>i. pg_base (page_list s' i) = pg_base (page_list s i)) \<and>
                   (\<forall>i. i \<notin> set xs \<longrightarrow> page_list s' i = page_list s i) \<and>
                   free_page_list_tail s' = free_page_list_tail s \<and>
                   used_page_list_head s' = used_page_list_head s \<and>
                   used_page_list_tail s' = used_page_list_tail s)"
proof -
  let ?P = "in_range base lim (page_list s)"
  let ?ys = "dropWhile ?P xs"
  have 0: "\<not> ?P 0" using assms(3,4) by (auto simp: in_range_def)
  note head = filter_head_loop_chain[OF assms(1) 0]
  have fl: "filter (\<lambda>i. \<not> ?P i) ?ys = keep"
    unfolding keep_def by (induction xs) auto
  have empty: "keep = [] \<longleftrightarrow> (\<forall>x\<in>set xs. ?P x)"
    by (simp add: keep_def filter_empty_conv)
  show ?thesis
  proof (cases "xs \<noteq> [] \<and> keep = []")
    case True
    with head empty show ?thesis by (simp add: filter_out_pages_def)
  next
    case False
    let ?h = "case ?ys of [] \<Rightarrow> 0 | x # _ \<Rightarrow> x"
    have hd: "?ys \<noteq> [] \<Longrightarrow> \<not> ?P (hd ?ys)" by (rule hd_dropWhile)
    note c = chain_dropWhile[OF assms(1), of ?P]
    obtain pl' where "filter_tail_loop base lim ?h (page_list s) = Some pl'"
        "chain pl' ?h keep" "\<forall>i. pg_base (pl' i) = pg_base (page_list s i)"
        "\<forall>i. i \<notin> set ?ys \<longrightarrow> pl' i = page_list s i"
      using filter_tail_loop_chain[OF c distinct_dropWhile[OF assms(2)] 0 hd] unfolding fl by blast
    with head False empty show ?thesis
      by (auto simp: filter_out_pages_def dest: set_dropWhileD)
  qed
qed

section \<open>Properties\<close>

text \<open>A pool of three free pages, used by the witnesses below.\<close>

definition sample_pool :: page_lists where
  "sample_pool =
     \<lparr>page_list = (\<lambda>i. if i = 0 then \<lparr>pg_base = 0, pg_next = 0\<rparr>
                       else \<lparr>pg_base = 0x100000 + (i - 1) * PAGESIZE,
                             pg_next = (if i < 3 then i + 1 else 0)\<rparr>),
       free_page_list_head = 1, free_page_list_tail = 3,
       used_page_list_head = 0, used_page_list_tail = 0\<rparr>"

lemma sample_pool_inv: "pool_inv sample_pool [1, 2, 3] []"
  by (simp add: pool_inv_def plist_repr_def sample_pool_def)

lemma admits_fresh:
  "admits (\<lambda>xs x. x \<noteq> 0 \<and> x \<notin> set xs) xs ys \<longleftrightarrow> distinct ys \<and> set xs \<inter> set ys = {} \<and> 0 \<notin> set ys"
  by (induction ys arbitrary: xs) auto

text \<open>
  the page lists are first-in first-out. Entries queued with \<^verbatim>\<open>queue_page\<close> on an empty
  list come back from \<^verbatim>\<open>dequeue_page\<close> in the order in which they were queued.
\<close>

theorem page_list_fifo:
  assumes "plist_repr q []" and "distinct ys" and "0 \<notin> set ys"
  shows "fst (dequeue_n (\<lambda>q. map_prod the id (dequeue_page False q)) (length ys)
                (fold queue_page ys q)) = ys"
  using assms by (intro page_fifo.first_in_first_out) (simp_all add: admits_fresh)

theorem page_list_fifo_witness:
  "fst (dequeue_n (\<lambda>q. map_prod the id (dequeue_page False q)) (length [5, 2, 9 :: u64])
         (fold queue_page [5, 2, 9] (\<lambda>_. \<lparr>pg_base = 0, pg_next = 77\<rparr>, 0, 0))) = [5, 2, 9]"
  by (rule page_list_fifo) (simp_all add: plist_repr_def)

text \<open>
  taking \<open>n\<close> pages hands out the first \<open>n\<close> free entries in order, moves exactly these to the
  end of the used list, and keeps free and used pages apart.
\<close>

theorem get_free_pages_moves:
  assumes "pool_inv s fs us" and "n \<le> length fs"
  shows "\<exists>s'. get_free_pages n s = (take n fs, s') \<and> pool_inv s' (drop n fs) (us @ take n fs)"
  using assms by (rule get_free_pages_pool)

theorem get_free_pages_moves_witness:
  "\<exists>s'. get_free_pages 2 sample_pool = ([1, 2], s') \<and> pool_inv s' [3] [1, 2]"
  using get_free_pages_moves[OF sample_pool_inv, of 2] by simp

text \<open>
  an exhausted allocator does not say so. With no free page left \<^verbatim>\<open>get_free_page\<close>
  returns the end marker, entry 0 with physical address 0, and never \<^verbatim>\<open>NULL\<close>.
\<close>

theorem get_free_page_exhausted:
  assumes "pool_inv s [] us" and "pg_base (page_list s 0) = 0"
  shows "\<exists>s'. get_free_page s = (Some 0, s') \<and> pg_base (page_list s' 0) = 0"
  using get_free_page_empty[OF assms(1)] assms(2)
  by (metis get_free_page_base prod.collapse)

theorem get_free_page_exhausted_witness:
  "\<exists>s s'. pool_inv s [] [1, 2, 3] \<and> get_free_page s = (Some 0, s') \<and> pg_base (page_list s' 0) = 0"
proof -
  obtain s where s: "pool_inv s [] [1, 2, 3]" "get_free_pages 3 sample_pool = ([1, 2, 3], s)"
    using get_free_pages_pool[OF sample_pool_inv, of 3] by auto
  from get_free_pages_base[of 3 sample_pool 0] s(2) have "pg_base (page_list s 0) = 0" by (simp add: sample_pool_def)
  from get_free_page_exhausted[OF s(1) this] s(1) show ?thesis by blast
qed

text \<open>
  booting with one memory region yields the free list \<open>1, 2, ..., n\<close> of its \<open>n\<close> pages in
  ascending order of address.
\<close>

theorem boot_free_list:
  assumes "base \<noteq> 0" and "unat base + unat len + 4096 \<le> 2 ^ 64"
  shows "\<exists>s. make_pages base len 1 (fst (init_pages a)) = Some (of_nat (Suc (page_count len)), s) \<and>
           pool_inv s (page_indices (page_count len)) [] \<and>
           (\<forall>i<page_count len. pg_base (page_list s (of_nat (Suc i))) = base + of_nat i * PAGESIZE)"
  using make_pages_first[OF assms, of a]
  by (auto simp: pool_inv_def plist_repr_def free_list_def)

theorem boot_free_list_witness:
  "(0x100000::u64) \<noteq> 0 \<and>
   (\<exists>s. make_pages 0x100000 0x3000 1 (fst (init_pages undefined)) = Some (4, s) \<and>
        pool_inv s [1, 2, 3] [] \<and> pg_base (page_list s 3) = 0x102000)"
proof -
  have n: "page_count 0x3000 = 3" by (simp add: page_count_def)
  have i: "page_indices 3 = [1, 2, 3]" by (simp add: page_indices_def upt_rec)
  from boot_free_list[where base = "0x100000" and len = "0x3000" and a = undefined]
  obtain s where "make_pages 0x100000 0x3000 1 (fst (init_pages undefined)) = Some (4, s)"
      "pool_inv s [1, 2, 3] []"
      "\<forall>i<3. pg_base (page_list s (of_nat (Suc i))) = 0x100000 + of_nat i * PAGESIZE"
    unfolding n i by auto
  moreover from this(3)[rule_format, of 2] have "pg_base (page_list s 3) = 0x102000" by simp
  ultimately show ?thesis by auto
qed

text \<open>
  A second memory region is lost. When \<^verbatim>\<open>make_pages\<close> runs again on a list of \<open>k + 1\<close>
  pages, with a region of \<open>n\<close> pages written behind them, the free list afterwards is just
  \<open>1, ..., n\<close>: it has \<open>n\<close> entries where \<open>k + 1 + n\<close> pages have been recorded.
\<close>

theorem second_region_lost:
  assumes "plist_repr (free_list s) (page_indices (Suc k))" and "base \<noteq> 0" and "len \<noteq> 0"
    and "unat base + unat len + 4096 \<le> 2 ^ 64"
  shows "\<exists>s'. make_pages base len (of_nat (k + 2)) s =
                Some (of_nat (k + 2 + page_count len), s') \<and>
           plist_repr (free_list s') (page_indices (page_count len))"
  using make_pages_again[OF assms, of "of_nat (k + 2)"] by auto

theorem second_region_lost_witness:
  "\<exists>s'. make_pages 0x200000 0x1000 (of_nat (2 + 2)) sample_pool = Some (5, s') \<and>
        plist_repr (free_list s') [1]"
proof -
  have n: "page_count 0x1000 = 1" by (simp add: page_count_def)
  have i: "page_indices (Suc 2) = [1, 2, 3]" "page_indices 1 = [1]"
    by (simp_all add: page_indices_def upt_rec)
  have "plist_repr (free_list sample_pool) (page_indices (Suc 2))"
    unfolding i by (simp add: free_list_def plist_repr_def sample_pool_def)
  from second_region_lost[OF this, where base = "0x200000" and len = "0x1000"] show ?thesis
    unfolding n i by simp
qed

text \<open>
  \<^verbatim>\<open>filter_out_pages\<close> returns for every free list, and removes exactly the pages of the
  range, in order and without touching the used list; when that leaves nothing it panics.
\<close>

theorem filter_out_pages_filters:
  assumes "chain (page_list s) (free_page_list_head s) xs" and "distinct xs"
    and "pg_base (page_list s 0) = 0" and "0 < base"
    and "keep = filter (\<lambda>i. \<not> in_range base lim (page_list s) i) xs"
  shows "\<exists>r. filter_out_pages base lim s = Some r \<and>
           (if xs \<noteq> [] \<and> keep = [] then r = Inl Panic
            else \<exists>s'. r = Inr s' \<and> chain (page_list s') (free_page_list_head s') keep \<and>
                   (\<forall>i. pg_base (page_list s' i) = pg_base (page_list s i)) \<and>
                   (\<forall>i. i \<notin> set xs \<longrightarrow> page_list s' i = page_list s i) \<and>
                   used_page_list_head s' = used_page_list_head s \<and>
                   used_page_list_tail s' = used_page_list_tail s)"
  using filter_out_pages_chain[OF assms] by (auto split: if_splits)

theorem filter_out_pages_filters_witness:
  "\<exists>s'. filter_out_pages 0x101000 0x102000 sample_pool = Some (Inr s') \<and>
        chain (page_list s') (free_page_list_head s') [1, 3]"
proof -
  have c: "chain (page_list sample_pool) (free_page_list_head sample_pool) [1, 2, 3]"
    and z: "pg_base (page_list sample_pool 0) = 0"
    by (simp_all add: sample_pool_def)
  have "[1, 3] = filter (\<lambda>i. \<not> in_range 0x101000 0x102000 (page_list sample_pool) i) [1, 2, 3]"
    by (simp add: in_range_def sample_pool_def)
  from filter_out_pages_filters[OF c _ z _ this] show ?thesis by auto
qed

end
