(* ===== verification/Kstring.thy ===== *)
theory Kstring
  imports Prelude "HOL-Library.Sublist"
begin

text \<open>
  The kernel's string and path functions, \<^verbatim>\<open>sys/sysutil.c\<close>.

  A \<^verbatim>\<open>char*\<close> is the list of the bytes from that address to the end of the array it points
  into, so \<^verbatim>\<open>s + k\<close> is \<open>drop k s\<close> for reading; a destination is the whole array with an
  offset. Reading or writing past the end is the fault \<open>Out_Of_Bounds\<close>. \<open>cstr s\<close> is the
  text of the C string \<open>s\<close>.
\<close>

section \<open>C strings\<close>

abbreviation (input) NUL :: char where "NUL \<equiv> CHR 0x00"

definition rd :: "char list \<Rightarrow> nat \<Rightarrow> char result" where
  "rd s i = (if i < length s then Inr (s ! i) else Inl Out_Of_Bounds)"

definition wr :: "char list \<Rightarrow> nat \<Rightarrow> char \<Rightarrow> char list result" where
  "wr s i c = (if i < length s then Inr (s[i := c]) else Inl Out_Of_Bounds)"

text \<open>The value of a C \<^verbatim>\<open>char\<close>, which is signed on this target.\<close>

definition schar :: "char \<Rightarrow> int" where
  "schar c = (let n = of_char c in if n < 128 then n else n - 256)"

definition cstr :: "char list \<Rightarrow> string" where
  "cstr s = takeWhile (\<lambda>c. c \<noteq> NUL) s"

definition terminated :: "char list \<Rightarrow> bool" where
  "terminated s = (NUL \<in> set s)"

definition clen :: "char list \<Rightarrow> nat" where
  "clen s = length (cstr s)"

text \<open>A string literal of the C source: its characters and the terminator.\<close>

definition lit :: "string \<Rightarrow> char list" where
  "lit s = s @ [NUL]"

section \<open>Operations\<close>

function kstrlen_loop :: "char list \<Rightarrow> nat \<Rightarrow> nat result" where
  "kstrlen_loop s i =
     (if i < length s then (if s ! i = NUL then Inr i else kstrlen_loop s (Suc i))
      else Inl Out_Of_Bounds)"
  by pat_completeness auto
termination by (relation "measure (\<lambda>(s, i). length s - i)") auto

definition kstrlen :: "char list \<Rightarrow> nat result" where
  "kstrlen s = kstrlen_loop s 0"

text \<open>
  \<^verbatim>\<open>kstrcpy(dest + d, src, sz)\<close>: the bound is tested after the character has been
  written, and a copy that stops there leaves no terminator.
\<close>

function kstrcpy_loop :: "nat \<Rightarrow> char list \<Rightarrow> int \<Rightarrow> nat \<Rightarrow> char list \<Rightarrow> (int \<times> char list) result" where
  "kstrcpy_loop d src sz i dest =
     (if i < length src
      then (if src ! i = NUL
            then bindr (wr dest (d + i) NUL) (\<lambda>dest'. Inr (int i, dest'))
            else bindr (wr dest (d + i) (src ! i))
                   (\<lambda>dest'. if int i \<ge> sz then Inr (-1, dest')
                            else kstrcpy_loop d src sz (Suc i) dest'))
      else Inl Out_Of_Bounds)"
  by pat_completeness auto
termination by (relation "measure (\<lambda>(d, src, sz, i, dest). length src - i)") auto

definition kstrcpy :: "char list \<Rightarrow> nat \<Rightarrow> char list \<Rightarrow> int \<Rightarrow> (int \<times> char list) result" where
  "kstrcpy dest d src sz = kstrcpy_loop d src sz 0 dest"

function kstrcmp_loop :: "char list \<Rightarrow> char list \<Rightarrow> nat \<Rightarrow> int result" where
  "kstrcmp_loop s1 s2 i =
     (if i < length s1
      then (if s1 ! i = NUL then Inr 0
            else bindr (rd s2 i) (\<lambda>c. if s1 ! i \<noteq> c then Inr (schar (s1 ! i) - schar c)
                                       else kstrcmp_loop s1 s2 (Suc i)))
      else Inl Out_Of_Bounds)"
  by pat_completeness auto
termination by (relation "measure (\<lambda>(s1, s2, i). length s1 - i)") auto

definition kstrcmp :: "char list \<Rightarrow> char list \<Rightarrow> int result" where
  "kstrcmp s1 s2 =
     bindr (kstrlen s1) (\<lambda>l1. bindr (kstrlen s2) (\<lambda>l2.
       if l1 \<noteq> l2
       then (let k = (if l1 < l2 then l1 else l2)
             in bindr (rd s1 k) (\<lambda>a. bindr (rd s2 k) (\<lambda>b. Inr (schar a - schar b))))
       else kstrcmp_loop s1 s2 0))"

function kstrstartswith_loop :: "char list \<Rightarrow> char list \<Rightarrow> nat \<Rightarrow> int result" where
  "kstrstartswith_loop target pre i =
     (if i < length pre
      then (if pre ! i = NUL then Inr 1
            else bindr (rd target i) (\<lambda>c. if c \<noteq> pre ! i then Inr 0
                                           else kstrstartswith_loop target pre (Suc i)))
      else Inl Out_Of_Bounds)"
  by pat_completeness auto
termination by (relation "measure (\<lambda>(target, pre, i). length pre - i)") auto

definition kstrstartswith :: "char list \<Rightarrow> char list \<Rightarrow> int result" where
  "kstrstartswith target pre = kstrstartswith_loop target pre 0"

text \<open>One of the two copy loops of \<^verbatim>\<open>kstrcat\<close>: \<open>j\<close> runs over the source, \<open>i\<close> over the buffer.\<close>

function kstrcat_loop :: "char list \<Rightarrow> nat \<Rightarrow> nat \<Rightarrow> char list \<Rightarrow> (nat \<times> char list) result" where
  "kstrcat_loop st j i buffer =
     (if j < length st
      then (if st ! j = NUL then Inr (i, buffer)
            else bindr (wr buffer i (st ! j)) (\<lambda>buffer'. kstrcat_loop st (Suc j) (Suc i) buffer'))
      else Inl Out_Of_Bounds)"
  by pat_completeness auto
termination by (relation "measure (\<lambda>(st, j, i, buffer). length st - j)") auto

definition kstrcat :: "char list \<Rightarrow> char list \<Rightarrow> char list \<Rightarrow> char list result" where
  "kstrcat st1 st2 buffer =
     bindr (kstrcat_loop st1 0 0 buffer) (\<lambda>(i, buffer1).
       bindr (kstrcat_loop st2 0 i buffer1) (\<lambda>(i', buffer2). wr buffer2 i' NUL))"

section \<open>Normalising a path\<close>

text \<open>
  \<^verbatim>\<open>cleanup_path\<close> works on a copy of the path in \<^verbatim>\<open>temp_path\<close> (100 bytes), which it cuts
  at the slashes, and on \<^verbatim>\<open>parts\<close>, an array of 15 pointers into it: \<open>None\<close> is
  \<^verbatim>\<open>NULL\<close> and \<open>Some k\<close> is \<^verbatim>\<open>temp_path + k\<close>.
\<close>

type_synonym parts = "nat option list"

function copy_temp_loop :: "char list \<Rightarrow> nat \<Rightarrow> nat \<Rightarrow> char list \<Rightarrow> char list result" where
  "copy_temp_loop buffer sz i temp =
     (if i < sz
      then bindr (rd buffer i) (\<lambda>c. bindr (wr temp i c)
             (\<lambda>temp'. copy_temp_loop buffer sz (Suc i) temp'))
      else Inr temp)"
  by pat_completeness auto
termination by (relation "measure (\<lambda>(buffer, sz, i, temp). sz - i)") auto

definition set_part :: "parts \<Rightarrow> nat \<Rightarrow> nat option \<Rightarrow> parts result" where
  "set_part ps k v = (if k < length ps then Inr (ps[k := v]) else Inl Out_Of_Bounds)"

definition get_part :: "parts \<Rightarrow> nat \<Rightarrow> nat option result" where
  "get_part ps k = (if k < length ps then Inr (ps ! k) else Inl Out_Of_Bounds)"

function cut_loop ::
  "char list \<Rightarrow> nat \<Rightarrow> nat \<Rightarrow> nat \<Rightarrow> char list \<Rightarrow> parts \<Rightarrow> (char list \<times> parts) result" where
  "cut_loop buffer sz i part_pointer temp ps =
     (if i < sz
      then bindr (rd buffer i) (\<lambda>c.
        if c = NUL then Inr (temp, ps)
        else if c = CHR ''/''
        then bindr (wr temp i NUL) (\<lambda>temp'.
               bindr (set_part ps part_pointer (Some (Suc i))) (\<lambda>ps'.
                 cut_loop buffer sz (Suc i) (Suc part_pointer) temp' ps'))
        else cut_loop buffer sz (Suc i) part_pointer temp ps)
      else Inr (temp, ps))"
  by pat_completeness auto
termination by (relation "measure (\<lambda>(buffer, sz, i, pp, temp, ps). sz - i)") auto

text \<open>
  \<^verbatim>\<open>for (j = a; j < 15 - k; ++j) parts[j] = parts[j + k];\<close> moves the pointers from
  \<open>a + k\<close> on down by \<open>k\<close> and leaves the last \<open>k\<close> as they are.
\<close>

function shift_loop :: "nat \<Rightarrow> nat \<Rightarrow> parts \<Rightarrow> parts" where
  "shift_loop k j ps =
     (if j < 15 - k then shift_loop k (Suc j) (ps[j := ps ! (j + k)]) else ps)"
  by pat_completeness auto
termination by (relation "measure (\<lambda>(k, j, ps). 15 - j)") auto

definition empty_or_dot :: "char list \<Rightarrow> bool result" where
  "empty_or_dot p =
     bindr (rd p 0) (\<lambda>c. if c = NUL then Inr True
                          else bindr (kstrcmp p (lit ''.'')) (\<lambda>d. Inr (d = 0)))"

partial_function (option) resolve_loop :: "char list \<Rightarrow> nat \<Rightarrow> parts \<Rightarrow> parts result option" where
  "resolve_loop temp i ps =
     (if i < 15
      then (case ps ! i of
              None \<Rightarrow> Some (Inr ps)
            | Some off \<Rightarrow>
                (case empty_or_dot (drop off temp) of
                   Inl e \<Rightarrow> Some (Inl e)
                 | Inr b \<Rightarrow>
                     if b then resolve_loop temp i (shift_loop 1 i ps)
                     else (case kstrcmp (drop off temp) (lit ''..'') of
                             Inl e \<Rightarrow> Some (Inl e)
                           | Inr d \<Rightarrow>
                               if d = 0
                               then (if i = 0 then resolve_loop temp i (shift_loop 1 i ps)
                                     else resolve_loop temp (i - 1) (shift_loop 2 (i - 1) ps))
                               else resolve_loop temp (Suc i) ps)))
      else Some (Inr ps))"

function join_loop :: "char list \<Rightarrow> parts \<Rightarrow> nat \<Rightarrow> nat \<Rightarrow> char list \<Rightarrow> (nat \<times> char list) result" where
  "join_loop temp ps part_pointer i buffer =
     (if part_pointer < length ps
      then (case ps ! part_pointer of
              None \<Rightarrow> Inr (i, buffer)
            | Some off \<Rightarrow>
                bindr (kstrlen (drop off temp)) (\<lambda>l.
                  bindr (kstrcpy buffer i (drop off temp) (int l)) (\<lambda>(_, buffer1).
                    bindr (wr buffer1 (i + l) (CHR ''/'')) (\<lambda>buffer2.
                      join_loop temp ps (Suc part_pointer) (i + l + 1) buffer2))))
      else Inl Out_Of_Bounds)"
  by pat_completeness auto
termination by (relation "measure (\<lambda>(temp, ps, pp, i, buffer). length ps - pp)") auto

text \<open>The result is the buffer and \<^verbatim>\<open>temp_path\<close>; the return value of the C function is always 0.\<close>

definition cleanup_path ::
  "char list \<Rightarrow> nat \<Rightarrow> char list \<Rightarrow> (char list \<times> char list) result option" where
  "cleanup_path buffer sz temp_path =
     (case bindr (kstrcmp buffer (lit ''/'')) (\<lambda>r.
        if r = 0 then Inr None
        else bindr (copy_temp_loop buffer sz 0 temp_path) (\<lambda>temp.
               bindr (cut_loop buffer sz 0 1 temp ((replicate 15 None)[0 := Some 0]))
                 (\<lambda>tp. Inr (Some tp)))) of
        Inl e \<Rightarrow> Some (Inl e)
      | Inr None \<Rightarrow> Some (Inr (buffer, temp_path))
      | Inr (Some (temp, ps)) \<Rightarrow>
          map_option
            (\<lambda>r. bindr r (\<lambda>ps'.
               bindr (wr buffer 0 (CHR ''/'')) (\<lambda>buffer1.
                 bindr (join_loop temp ps' 0 1 buffer1) (\<lambda>(i, buffer2).
                   bindr (wr buffer2 (i - 1) NUL) (\<lambda>buffer3. Inr (buffer3, temp))))))
            (resolve_loop temp 0 ps))"

definition path_merge ::
  "char list \<Rightarrow> char list \<Rightarrow> char list \<Rightarrow> nat \<Rightarrow> char list \<Rightarrow> (char list \<times> char list) result option" where
  "path_merge base relative buffer sz temp_path =
     (case bindr (kstrstartswith relative (lit ''/'')) (\<lambda>abs1.
        if abs1 \<noteq> 0 then bindr (kstrcpy buffer 0 relative (int sz)) (\<lambda>(_, b). Inr b)
        else bindr (kstrstartswith relative (lit ''./'')) (\<lambda>dot.
               if dot \<noteq> 0 then kstrcat base (drop 2 relative) buffer
               else kstrcat base relative buffer)) of
        Inl e \<Rightarrow> Some (Inl e)
      | Inr buffer1 \<Rightarrow> cleanup_path buffer1 sz temp_path)"

declare kstrlen_loop.simps [simp del] kstrcpy_loop.simps [simp del] kstrcmp_loop.simps [simp del]
  kstrstartswith_loop.simps [simp del] kstrcat_loop.simps [simp del] copy_temp_loop.simps [simp del]
  cut_loop.simps [simp del] shift_loop.simps [simp del] join_loop.simps [simp del]

section \<open>What the string functions compute\<close>

lemma terminated_split: "terminated s \<longleftrightarrow> (\<exists>r. s = cstr s @ NUL # r)"
proof
  assume t: "terminated s"
  have "dropWhile (\<lambda>c. c \<noteq> NUL) s \<noteq> []"
    using t by (auto simp: terminated_def dropWhile_eq_Nil_conv)
  then obtain r where "dropWhile (\<lambda>c. c \<noteq> NUL) s = NUL # r"
    using hd_dropWhile[of "\<lambda>c. c \<noteq> NUL" s] by (cases "dropWhile (\<lambda>c. c \<noteq> NUL) s") auto
  then have "s = cstr s @ NUL # r"
    unfolding cstr_def using takeWhile_dropWhile_id[of "\<lambda>c. c \<noteq> NUL" s] by simp
  then show "\<exists>r. s = cstr s @ NUL # r" by blast
next
  assume "\<exists>r. s = cstr s @ NUL # r"
  then obtain r where "s = cstr s @ NUL # r" by blast
  then show "terminated s" unfolding terminated_def by (metis in_set_conv_decomp)
qed

lemma NUL_notin_cstr [simp]: "NUL \<notin> set (cstr s)"
  by (auto simp: cstr_def dest: set_takeWhileD)

lemma cstr_append_NUL [simp]: "NUL \<notin> set t \<Longrightarrow> cstr (t @ NUL # r) = t"
  unfolding cstr_def by (subst takeWhile_append2) auto

lemma terminated_append_NUL [simp]: "terminated (t @ NUL # r)"
  by (simp add: terminated_def)

lemma cstr_lit [simp]: "NUL \<notin> set t \<Longrightarrow> cstr (lit t) = t"
  by (simp add: lit_def)

lemma terminated_lit [simp]: "terminated (lit t)"
  by (simp add: lit_def)

lemma terminatedE:
  assumes "terminated s"
  obtains t r where "s = t @ NUL # r" and "NUL \<notin> set t" and "cstr s = t" and "clen s = length t"
proof -
  from assms obtain r where s: "s = cstr s @ NUL # r" by (auto simp: terminated_split)
  show thesis by (rule that[OF s]) (simp_all add: clen_def)
qed

lemma clen_less: "terminated s \<Longrightarrow> clen s < length s"
  by (elim terminatedE) simp

lemma kstrlen_loop_split: "NUL \<notin> set t \<Longrightarrow> i \<le> length t \<Longrightarrow> kstrlen_loop (t @ NUL # r) i = Inr (length t)"
proof (induction "length t - i" arbitrary: i)
  case 0
  then show ?case by (subst kstrlen_loop.simps) (simp add: nth_append)
next
  case (Suc n)
  then have "i < length t" by simp
  then have "(t @ NUL # r) ! i \<noteq> NUL" using Suc.prems(1) by (metis nth_append nth_mem)
  with \<open>i < length t\<close> Suc show ?case by (subst kstrlen_loop.simps) simp
qed

lemma kstrlen_clen [simp]: "terminated s \<Longrightarrow> kstrlen s = Inr (clen s)"
  by (elim terminatedE) (simp add: kstrlen_def kstrlen_loop_split)

lemma kstrlen_loop_unterminated: "\<not> terminated s \<Longrightarrow> kstrlen_loop s i = Inl Out_Of_Bounds"
proof (induction s i rule: kstrlen_loop.induct)
  case (1 s i)
  then have "i < length s \<Longrightarrow> s ! i \<noteq> NUL" by (metis nth_mem terminated_def)
  with 1 show ?case by (subst kstrlen_loop.simps) simp
qed

text \<open>\<open>splice dest d xs\<close>: the bytes \<open>xs\<close> written over \<open>dest\<close> from offset \<open>d\<close> on.\<close>

definition splice :: "char list \<Rightarrow> nat \<Rightarrow> char list \<Rightarrow> char list" where
  "splice dest d xs = take d dest @ xs @ drop (d + length xs) dest"

lemma splice_Nil [simp]: "splice dest d [] = dest"
  by (simp add: splice_def)

lemma length_splice [simp]: "d + length xs \<le> length dest \<Longrightarrow> length (splice dest d xs) = length dest"
  by (simp add: splice_def)

lemma wr_splice:
  assumes "d + length xs < length dest"
  shows "wr (splice dest d xs) (d + length xs) c = Inr (splice dest d (xs @ [c]))"
proof -
  have "drop (d + length xs) dest = dest ! (d + length xs) # drop (Suc (d + length xs)) dest"
    using assms by (simp add: Cons_nth_drop_Suc)
  then show ?thesis using assms by (simp add: wr_def splice_def list_update_append)
qed

lemma wr_splice_end:
  assumes "d + length xs = length dest"
  shows "wr (splice dest d xs) (d + length xs) c = Inl Out_Of_Bounds"
  using assms by (simp add: wr_def)

lemma splice_two:
  "Suc d < length buf \<Longrightarrow> splice buf d [a, c] = buf[d := a, Suc d := c]"
  by (simp add: splice_def upd_conv_take_nth_drop take_Suc_conv_app_nth[of d] list_update_append)

lemma kstrcpy_loop_copies:
  assumes "NUL \<notin> set t" and "i \<le> length t" and "int (length t) \<le> sz" and "d + length t < length dest"
  shows "kstrcpy_loop d (t @ NUL # r) sz i (splice dest d (take i t))
           = Inr (int (length t), splice dest d (t @ [NUL]))"
  using assms
proof (induction "length t - i" arbitrary: i)
  case 0
  then have "i = length t" by simp
  with 0 show ?case by (subst kstrcpy_loop.simps) (simp add: wr_splice)
next
  case (Suc n)
  then have i: "i < length t" by simp
  then have n: "(t @ NUL # r) ! i = t ! i" "t ! i \<noteq> NUL"
    using Suc.prems(1) by (auto simp: nth_append) (metis nth_mem)
  have "wr (splice dest d (take i t)) (d + i) (t ! i) = Inr (splice dest d (take (Suc i) t))"
    using wr_splice[of d "take i t" dest "t ! i"] i Suc.prems(4)
    by (simp add: take_Suc_conv_app_nth)
  with n i Suc show ?case by (subst kstrcpy_loop.simps) simp
qed

lemma kstrcpy_copies:
  assumes "terminated src" and "int (clen src) \<le> sz" and "d + clen src < length dest"
  shows "kstrcpy dest d src sz = Inr (int (clen src), splice dest d (cstr src @ [NUL]))"
  using assms
  by (elim terminatedE) (use kstrcpy_loop_copies[where i = 0] in \<open>simp add: kstrcpy_def\<close>)

lemma kstrcpy_loop_truncates:
  assumes "NUL \<notin> set t" and "i \<le> n" and "n < length t" and "d + n < length dest"
  shows "kstrcpy_loop d (t @ NUL # r) (int n) i (splice dest d (take i t))
           = Inr (-1, splice dest d (take (Suc n) t))"
  using assms
proof (induction "n - i" arbitrary: i)
  case 0
  then have "i = n" by simp
  moreover have "wr (splice dest d (take n t)) (d + n) (t ! n) = Inr (splice dest d (take (Suc n) t))"
    using wr_splice[of d "take n t" dest "t ! n"] 0 by (simp add: take_Suc_conv_app_nth)
  moreover have "t ! n \<noteq> NUL" using 0 by (metis nth_mem)
  ultimately show ?case using 0 by (subst kstrcpy_loop.simps) (simp add: nth_append)
next
  case (Suc k)
  then have i: "i < length t" "i < n" by simp_all
  then have n: "(t @ NUL # r) ! i = t ! i" "t ! i \<noteq> NUL"
    using Suc.prems(1) by (auto simp: nth_append) (metis nth_mem)
  have "wr (splice dest d (take i t)) (d + i) (t ! i) = Inr (splice dest d (take (Suc i) t))"
    using wr_splice[of d "take i t" dest "t ! i"] i Suc.prems(4)
    by (simp add: take_Suc_conv_app_nth)
  with n i Suc show ?case by (subst kstrcpy_loop.simps) simp
qed

lemma kstrcpy_truncates:
  assumes "terminated src" and "n < clen src" and "d + n < length dest"
  shows "kstrcpy dest d src (int n) = Inr (-1, splice dest d (take (Suc n) (cstr src)))"
  using assms
  by (elim terminatedE) (use kstrcpy_loop_truncates[where i = 0] in \<open>simp add: kstrcpy_def\<close>)

lemma kstrcpy_loop_overruns:
  assumes "NUL \<notin> set t" and "i \<le> n" and "n \<le> length t" and "length dest = d + n"
  shows "kstrcpy_loop d (t @ NUL # r) (int n) i (splice dest d (take i t)) = Inl Out_Of_Bounds"
  using assms
proof (induction "n - i" arbitrary: i)
  case 0
  then have "i = n" by simp
  moreover have "wr (splice dest d (take n t)) (d + n) c = Inl Out_Of_Bounds" for c
    using wr_splice_end[of d "take n t" dest c] 0 by simp
  ultimately show ?case using 0 by (subst kstrcpy_loop.simps) simp
next
  case (Suc k)
  then have i: "i < length t" "i < n" by simp_all
  then have n: "(t @ NUL # r) ! i = t ! i" "t ! i \<noteq> NUL"
    using Suc.prems(1) by (auto simp: nth_append) (metis nth_mem)
  have "wr (splice dest d (take i t)) (d + i) (t ! i) = Inr (splice dest d (take (Suc i) t))"
    using wr_splice[of d "take i t" dest "t ! i"] i Suc.prems(4)
    by (simp add: take_Suc_conv_app_nth)
  with n i Suc show ?case by (subst kstrcpy_loop.simps) simp
qed

lemma kstrcpy_overruns:
  assumes "terminated src" and "n \<le> clen src" and "length dest = d + n"
  shows "kstrcpy dest d src (int n) = Inl Out_Of_Bounds"
  using assms
  by (elim terminatedE) (use kstrcpy_loop_overruns[where i = 0] in \<open>simp add: kstrcpy_def\<close>)

lemma schar_eq_iff: "schar a = schar b \<longleftrightarrow> a = b"
proof
  have bounds: "(0::int) \<le> of_char c \<and> of_char c < (256::int)" for c :: char
  proof -
    have "(of_char c :: int) = int (of_char c)" by (simp add: of_nat_of_char)
    then show ?thesis using nat_of_char_less_256[of c] by simp
  qed
  assume "schar a = schar b"
  then have "(of_char a :: int) = of_char b"
    using bounds[of a] bounds[of b] by (auto simp: schar_def Let_def split: if_splits)
  then show "a = b" by simp
qed simp

lemma nth_split: "i < length t \<Longrightarrow> (t @ x # r) ! i = t ! i"
  by (simp add: nth_append)

lemma nth_not_NUL: "NUL \<notin> set t \<Longrightarrow> i < length t \<Longrightarrow> t ! i \<noteq> NUL"
  by (metis nth_mem)

lemma kstrcmp_loop_equal:
  assumes "NUL \<notin> set t1" and "NUL \<notin> set t2" and "length t1 = length t2" and "i \<le> length t1"
  shows "\<exists>r. kstrcmp_loop (t1 @ NUL # r1) (t2 @ NUL # r2) i = Inr r \<and>
             (r = 0 \<longleftrightarrow> drop i t1 = drop i t2)"
  using assms
proof (induction "length t1 - i" arbitrary: i)
  case 0
  then show ?case by (subst kstrcmp_loop.simps) (simp add: nth_append)
next
  case (Suc n)
  then have i: "i < length t1" "i < length t2" by simp_all
  have d: "drop i t1 = t1 ! i # drop (Suc i) t1" "drop i t2 = t2 ! i # drop (Suc i) t2"
    using i by (simp_all add: Cons_nth_drop_Suc)
  have "n = length t1 - Suc i" using Suc.hyps(2) by simp
  from Suc.hyps(1)[OF this Suc.prems(1-3)] i obtain r where
    "kstrcmp_loop (t1 @ NUL # r1) (t2 @ NUL # r2) (Suc i) = Inr r"
    "r = 0 \<longleftrightarrow> drop (Suc i) t1 = drop (Suc i) t2" by auto
  then show ?case
    using i d nth_not_NUL[OF Suc.prems(1) i(1)] schar_eq_iff[of "t1 ! i" "t2 ! i"]
    by (subst kstrcmp_loop.simps) (auto simp: nth_split rd_def)
qed

lemma kstrcmp_equal:
  assumes "terminated s1" and "terminated s2"
  shows "\<exists>r. kstrcmp s1 s2 = Inr r \<and> (r = 0 \<longleftrightarrow> cstr s1 = cstr s2)"
proof -
  from assms(1) obtain t1 r1 where 1: "s1 = t1 @ NUL # r1" "NUL \<notin> set t1" "clen s1 = length t1"
    by (elim terminatedE) auto
  from assms(2) obtain t2 r2 where 2: "s2 = t2 @ NUL # r2" "NUL \<notin> set t2" "clen s2 = length t2"
    by (elim terminatedE) auto
  show ?thesis
  proof (cases "length t1 = length t2")
    case True
    from kstrcmp_loop_equal[OF 1(2) 2(2) True, of 0] True assms 1 2 show ?thesis
      by (simp add: kstrcmp_def)
  next
    case False
    let ?k = "min (length t1) (length t2)"
    have "s1 ! ?k \<noteq> s2 ! ?k" "?k < length s1" "?k < length s2"
      using False 1 2 nth_not_NUL[of t1 "length t2"] nth_not_NUL[of t2 "length t1"]
      by (auto simp: min_def nth_append)
    then have "schar (s1 ! ?k) - schar (s2 ! ?k) \<noteq> 0" by (simp add: schar_eq_iff)
    with False show ?thesis
      using assms 1 2 \<open>?k < length s1\<close> \<open>?k < length s2\<close>
      by (auto simp: kstrcmp_def rd_def min_def Let_def split: if_splits)
  qed
qed

lemma kstrcmp_0_iff:
  "terminated s1 \<Longrightarrow> terminated s2 \<Longrightarrow> kstrcmp s1 s2 = Inr 0 \<longleftrightarrow> cstr s1 = cstr s2"
  using kstrcmp_equal[of s1 s2] by auto

lemma kstrstartswith_loop_prefix:
  assumes "NUL \<notin> set t" and "NUL \<notin> set p" and "i \<le> length p" and "i \<le> length t"
  shows "kstrstartswith_loop (t @ NUL # r1) (p @ NUL # r2) i =
           Inr (if prefix (drop i p) (drop i t) then 1 else 0)"
  using assms
proof (induction "length p - i" arbitrary: i)
  case 0
  then show ?case by (subst kstrstartswith_loop.simps) (simp add: nth_append)
next
  case (Suc n)
  then have i: "i < length p" by simp
  have dp: "drop i p = p ! i # drop (Suc i) p" using i by (simp add: Cons_nth_drop_Suc)
  have p: "p ! i \<noteq> NUL" using Suc.prems(2) i by (rule nth_not_NUL)
  show ?case
  proof (cases "i = length t")
    case True
    with i p dp show ?thesis
      by (subst kstrstartswith_loop.simps) (auto simp: nth_append rd_def)
  next
    case False
    with Suc.prems have t: "i < length t" by simp
    then have "drop i t = t ! i # drop (Suc i) t" by (simp add: Cons_nth_drop_Suc)
    moreover have "kstrstartswith_loop (t @ NUL # r1) (p @ NUL # r2) (Suc i) =
        Inr (if prefix (drop (Suc i) p) (drop (Suc i) t) then 1 else 0)"
      using Suc.hyps(1)[of "Suc i"] Suc.hyps(2) Suc.prems i t by simp
    ultimately show ?thesis using i t p dp
      by (subst kstrstartswith_loop.simps) (simp add: nth_append rd_def)
  qed
qed

lemma kstrstartswith_prefix:
  assumes "terminated target" and "terminated pre"
  shows "kstrstartswith target pre = Inr (if prefix (cstr pre) (cstr target) then 1 else 0)"
proof -
  from assms(1) obtain t1 r1 where 1: "target = t1 @ NUL # r1" "NUL \<notin> set t1" "cstr target = t1"
    by (elim terminatedE) auto
  from assms(2) obtain t2 r2 where 2: "pre = t2 @ NUL # r2" "NUL \<notin> set t2" "cstr pre = t2"
    by (elim terminatedE) auto
  from kstrstartswith_loop_prefix[OF 1(2) 2(2), of 0 r1 r2] 1 2 show ?thesis
    by (simp add: kstrstartswith_def)
qed

lemma kstrcat_loop_appends:
  assumes "NUL \<notin> set t" and "j \<le> length t" and "length xs = i"
    and "i + (length t - j) \<le> length dest"
  shows "kstrcat_loop (t @ NUL # r) j i (splice dest 0 xs)
           = Inr (i + (length t - j), splice dest 0 (xs @ drop j t))"
  using assms
proof (induction "length t - j" arbitrary: j i xs)
  case 0
  then show ?case by (subst kstrcat_loop.simps) (simp add: nth_append)
next
  case (Suc n)
  then have j: "j < length t" by simp
  have "wr (splice dest 0 xs) i (t ! j) = Inr (splice dest 0 (xs @ [t ! j]))"
    using wr_splice[of 0 xs dest "t ! j"] Suc.prems(3,4) j by simp
  moreover have "drop j t = t ! j # drop (Suc j) t" using j by (simp add: Cons_nth_drop_Suc)
  moreover have "kstrcat_loop (t @ NUL # r) (Suc j) (Suc i) (splice dest 0 (xs @ [t ! j]))
      = Inr (Suc i + (length t - Suc j), splice dest 0 ((xs @ [t ! j]) @ drop (Suc j) t))"
    using Suc.hyps(2) Suc.prems j by (intro Suc.hyps(1)) auto
  ultimately show ?case
    using j nth_not_NUL[OF Suc.prems(1) j] by (subst kstrcat_loop.simps) (simp add: nth_split)
qed

lemma kstrcat_concat:
  assumes "terminated s1" and "terminated s2" and "clen s1 + clen s2 < length buffer"
  shows "kstrcat s1 s2 buffer = Inr (splice buffer 0 (cstr s1 @ cstr s2 @ [NUL]))"
proof -
  from assms(1) obtain t1 r1 where 1: "s1 = t1 @ NUL # r1" "NUL \<notin> set t1" "cstr s1 = t1" "clen s1 = length t1"
    by (elim terminatedE) auto
  from assms(2) obtain t2 r2 where 2: "s2 = t2 @ NUL # r2" "NUL \<notin> set t2" "cstr s2 = t2" "clen s2 = length t2"
    by (elim terminatedE) auto
  have "kstrcat_loop s1 0 0 buffer = Inr (length t1, splice buffer 0 t1)"
    using kstrcat_loop_appends[OF 1(2), of 0 "[]" 0 buffer r1] assms(3) 1 2 by simp
  moreover have "kstrcat_loop s2 0 (length t1) (splice buffer 0 t1)
      = Inr (length t1 + length t2, splice buffer 0 (t1 @ t2))"
    using kstrcat_loop_appends[OF 2(2), of 0 t1 "length t1" buffer r2] assms(3) 1 2 by simp
  ultimately show ?thesis
    using wr_splice[of 0 "t1 @ t2" buffer NUL] assms(3) 1 2 by (simp add: kstrcat_def)
qed

section \<open>What path normalisation computes\<close>

text \<open>
  The specification: split at the slashes, resolve \<^verbatim>\<open>.\<close>, \<^verbatim>\<open>..\<close> and empty
  components from left to right, and put a slash before each component that is left.
\<close>

fun split_slash :: "string \<Rightarrow> string list" where
  "split_slash [] = [[]]"
| "split_slash (c # cs) =
     (if c = CHR ''/'' then [] # split_slash cs
      else (case split_slash cs of [] \<Rightarrow> [[c]] | w # ws \<Rightarrow> (c # w) # ws))"

fun norm_parts :: "string list \<Rightarrow> string list \<Rightarrow> string list" where
  "norm_parts acc [] = acc"
| "norm_parts acc (p # ps) =
     (if p = '''' \<or> p = ''.'' then norm_parts acc ps
      else if p = ''..'' then norm_parts (butlast acc) ps
      else norm_parts (acc @ [p]) ps)"

definition join_parts :: "string list \<Rightarrow> string" where
  "join_parts ps = concat (map (\<lambda>p. CHR ''/'' # p) ps)"

definition clean :: "string \<Rightarrow> string" where
  "clean t = join_parts (norm_parts [] (split_slash t))"

lemma split_slash_nonempty [simp]: "split_slash s \<noteq> []"
  by (induction s) (auto split: list.splits)

lemma length_join_append [simp]: "length (join_parts (ps @ qs)) = length (join_parts ps) + length (join_parts qs)"
  by (simp add: join_parts_def)

lemma length_join_Cons [simp]: "length (join_parts (p # ps)) = Suc (length p + length (join_parts ps))"
  by (simp add: join_parts_def)

lemma length_join_Nil [simp]: "length (join_parts []) = 0"
  by (simp add: join_parts_def)

lemma length_join_split: "length (join_parts (split_slash s)) = Suc (length s)"
proof (induction s)
  case Nil
  then show ?case by simp
next
  case (Cons c s)
  then show ?case by (cases "split_slash s") auto
qed

lemma length_join_butlast: "length (join_parts (butlast ps)) \<le> length (join_parts ps)"
  by (cases ps rule: rev_cases) auto

lemma length_norm_parts: "length (join_parts (norm_parts acc ps)) \<le> length (join_parts (acc @ ps))"
proof (induction ps arbitrary: acc)
  case Nil
  then show ?case by simp
next
  case (Cons p ps)
  show ?case
    using Cons[of acc] Cons[of "acc @ [p]"] Cons[of "butlast acc"] length_join_butlast[of acc]
    by auto
qed

lemma length_clean:
  assumes "t = CHR ''/'' # u"
  shows "length (clean t) \<le> length t"
  using length_norm_parts[of "[]" "split_slash u"] assms
  by (simp add: clean_def length_join_split)

definition proper :: "string \<Rightarrow> bool" where
  "proper p = (p \<noteq> '''' \<and> p \<noteq> ''.'' \<and> p \<noteq> ''..'' \<and> CHR ''/'' \<notin> set p)"

lemma split_slash_no_slash: "p \<in> set (split_slash s) \<Longrightarrow> CHR ''/'' \<notin> set p"
proof (induction s arbitrary: p)
  case Nil
  then show ?case by simp
next
  case (Cons c s)
  then show ?case by (cases "split_slash s") (auto split: if_splits)
qed

lemma norm_parts_proper:
  "\<forall>p\<in>set acc. proper p \<Longrightarrow> \<forall>p\<in>set ps. CHR ''/'' \<notin> set p \<Longrightarrow> \<forall>p\<in>set (norm_parts acc ps). proper p"
proof (induction ps arbitrary: acc)
  case Nil
  then show ?case by simp
next
  case (Cons p ps)
  have IH: "\<forall>q\<in>set a. proper q \<Longrightarrow> \<forall>q\<in>set (norm_parts a ps). proper q" for a
    using Cons.IH[of a] Cons.prems(2) by simp
  consider "p = '''' \<or> p = ''.''" | "p = ''..''" | "proper p"
    using Cons.prems(2) by (auto simp: proper_def)
  then show ?case
  proof cases
    case 1
    then show ?thesis using IH[OF Cons.prems(1)] by auto
  next
    case 2
    have "\<forall>q\<in>set (butlast acc). proper q" using Cons.prems(1) by (blast dest: in_set_butlastD)
    from IH[OF this] 2 show ?thesis by simp
  next
    case 3
    then have "\<forall>q\<in>set (acc @ [p]). proper q" using Cons.prems(1) by simp
    from IH[OF this] 3 show ?thesis by (simp add: proper_def)
  qed
qed

lemma norm_parts_id: "\<forall>p\<in>set ps. proper p \<Longrightarrow> norm_parts acc ps = acc @ ps"
  by (induction ps arbitrary: acc) (auto simp: proper_def)

lemma split_slash_append:
  "CHR ''/'' \<notin> set p \<Longrightarrow> split_slash (p @ CHR ''/'' # s) = p # split_slash s"
  by (induction p) auto

lemma split_slash_single: "CHR ''/'' \<notin> set p \<Longrightarrow> split_slash p = [p]"
  by (induction p) auto

lemma split_slash_join:
  "\<forall>p\<in>set ps. CHR ''/'' \<notin> set p \<Longrightarrow> split_slash (join_parts ps) = [] # ps"
proof (induction ps)
  case Nil
  then show ?case by (simp add: join_parts_def)
next
  case (Cons p ps)
  show ?case
  proof (cases ps)
    case Nil
    with Cons.prems show ?thesis by (simp add: join_parts_def split_slash_single)
  next
    case (Cons q qs)
    with Cons.prems have "split_slash (p @ join_parts ps) = p # ps"
      using Cons.IH by (simp add: join_parts_def split_slash_append)
    then show ?thesis by (simp add: join_parts_def)
  qed
qed

lemma norm_split_proper: "\<forall>p\<in>set (norm_parts [] (split_slash t)). proper p"
  by (rule norm_parts_proper) (auto dest: split_slash_no_slash)

lemma clean_idem: "clean (clean t) = clean t"
proof -
  let ?ps = "norm_parts [] (split_slash t)"
  note p = norm_split_proper[of t]
  then have "split_slash (join_parts ?ps) = [] # ?ps"
    by (intro split_slash_join) (auto simp: proper_def)
  then show ?thesis using norm_parts_id[OF p, of "[]"] by (simp add: clean_def)
qed

lemma length_norm_parts_le: "length (norm_parts acc ps) \<le> length acc + length ps"
proof (induction ps arbitrary: acc)
  case Nil
  then show ?case by simp
next
  case (Cons p ps)
  show ?case using Cons[of acc] Cons[of "acc @ [p]"] Cons[of "butlast acc"] by auto
qed

lemma length_split_clean: "length (split_slash (clean (CHR ''/'' # u))) \<le> length (split_slash (CHR ''/'' # u))"
proof -
  let ?ps = "norm_parts [] (split_slash u)"
  have "clean (CHR ''/'' # u) = join_parts ?ps" by (simp add: clean_def)
  moreover have "\<forall>p\<in>set ?ps. CHR ''/'' \<notin> set p" using norm_split_proper[of u] by (auto simp: proper_def)
  ultimately show ?thesis using length_norm_parts_le[of "[]" "split_slash u"] by (simp add: split_slash_join)
qed

subsection \<open>The stages of \<^verbatim>\<open>cleanup_path\<close>\<close>

lemma copy_temp_loop_copies:
  assumes "length buffer = n" and "length temp = n" and "i \<le> n" and "take i temp = take i buffer"
  shows "copy_temp_loop buffer n i temp = Inr buffer"
  using assms
proof (induction "n - i" arbitrary: i temp)
  case 0
  then show ?case by (subst copy_temp_loop.simps) simp
next
  case (Suc k)
  have "take (Suc i) (temp[i := buffer ! i]) = take (Suc i) buffer"
    using Suc.prems Suc.hyps(2) by (simp add: take_Suc_conv_app_nth)
  then have "copy_temp_loop buffer n (Suc i) (temp[i := buffer ! i]) = Inr buffer"
    using Suc.prems Suc.hyps(2) by (intro Suc.hyps(1)) auto
  moreover have "i < n" using Suc.hyps(2) by simp
  ultimately show ?case using Suc.prems
    by (subst copy_temp_loop.simps) (simp add: rd_def wr_def)
qed

definition cut :: "char \<Rightarrow> char" where
  "cut c = (if c = CHR ''/'' then NUL else c)"

fun part_offs :: "nat \<Rightarrow> string \<Rightarrow> nat list" where
  "part_offs k [] = []"
| "part_offs k (c # cs) =
     (if c = CHR ''/'' then Suc k # part_offs (Suc k) cs else part_offs (Suc k) cs)"

lemma length_part_offs: "length (part_offs k s) = length (split_slash s) - 1"
proof (induction s arbitrary: k)
  case Nil
  then show ?case by simp
next
  case (Cons c s)
  then show ?case by (cases "split_slash s") auto
qed

text \<open>
  \<open>slots os junk\<close>: the pointer array whose live entries are \<open>os\<close>, ended by a \<^verbatim>\<open>NULL\<close>;
  what the shifts leave behind it is \<open>junk\<close>.
\<close>

definition slots :: "nat list \<Rightarrow> parts \<Rightarrow> parts" where
  "slots os junk = map Some os @ None # junk"

definition fill :: "nat list \<Rightarrow> parts" where
  "fill os = map Some os @ replicate (15 - length os) None"

lemma fill_slots: "length os \<le> 14 \<Longrightarrow> fill os = slots os (replicate (14 - length os) None)"
proof -
  assume "length os \<le> 14"
  then have "15 - length os = Suc (14 - length os)" by simp
  then show ?thesis unfolding fill_def slots_def by simp
qed

lemma set_part_fill:
  "length os < 15 \<Longrightarrow> set_part (fill os) (length os) (Some k) = Inr (fill (os @ [k]))"
proof -
  assume "length os < 15"
  then have "15 - length os = Suc (15 - length (os @ [k]))" by simp
  then show ?thesis unfolding fill_def set_part_def
    by (simp add: list_update_append del: diff_Suc_Suc)
qed

lemma set_part_fill_full: "length os = 15 \<Longrightarrow> set_part (fill os) 15 v = Inl Out_Of_Bounds"
  by (simp add: set_part_def fill_def)

text \<open>The loop that cuts the path: what it leaves in \<^verbatim>\<open>temp_path\<close> and \<^verbatim>\<open>parts\<close>.\<close>

lemma cut_loop_cuts:
  assumes "NUL \<notin> set s" and "length pre = i" and "length pre' = i" and "i + length s < sz"
    and "length os \<le> 15"
  shows "cut_loop (pre @ s @ NUL # r) sz i (length os) (pre' @ s @ NUL # r) (fill os) =
         (if length os + length (part_offs i s) \<le> 15
          then Inr (pre' @ map cut s @ NUL # r, fill (os @ part_offs i s))
          else Inl Out_Of_Bounds)"
  using assms
proof (induction s arbitrary: i pre pre' os)
  case Nil
  then show ?case by (subst cut_loop.simps) (simp add: rd_def nth_append)
next
  case (Cons c s)
  have rd1: "rd (pre @ (c # s) @ NUL # r) i = Inr c" using Cons.prems by (simp add: rd_def nth_append)
  show ?case
  proof (cases "c = CHR ''/''")
    case True
    have w: "wr (pre' @ (c # s) @ NUL # r) i NUL = Inr ((pre' @ [NUL]) @ s @ NUL # r)"
      using Cons.prems by (simp add: wr_def list_update_append)
    show ?thesis
    proof (cases "length os = 15")
      case full: True
      then show ?thesis using rd1 True w set_part_fill_full[OF full] Cons.prems(4)
        by (subst cut_loop.simps) simp
    next
      case False
      let ?os = "os @ [Suc i]"
      have "length os < 15" using False Cons.prems(5) by simp
      note set_part_fill[OF this, of "Suc i"]
      moreover have "cut_loop ((pre @ [c]) @ s @ NUL # r) sz (Suc i) (length ?os)
           ((pre' @ [NUL]) @ s @ NUL # r) (fill ?os) =
         (if length ?os + length (part_offs (Suc i) s) \<le> 15
          then Inr ((pre' @ [NUL]) @ map cut s @ NUL # r, fill (?os @ part_offs (Suc i) s))
          else Inl Out_Of_Bounds)"
        using Cons.prems False by (intro Cons.IH) auto
      ultimately show ?thesis using rd1 True w Cons.prems(4)
        by (subst cut_loop.simps) (simp add: cut_def)
    qed
  next
    case False
    have "cut_loop ((pre @ [c]) @ s @ NUL # r) sz (Suc i) (length os) ((pre' @ [c]) @ s @ NUL # r)
           (fill os) =
         (if length os + length (part_offs (Suc i) s) \<le> 15
          then Inr ((pre' @ [c]) @ map cut s @ NUL # r, fill (os @ part_offs (Suc i) s))
          else Inl Out_Of_Bounds)"
      using Cons.prems False by (intro Cons.IH) auto
    moreover have "c \<noteq> NUL" using Cons.prems(1) by auto
    ultimately show ?thesis using rd1 False Cons.prems
      by (subst cut_loop.simps) (simp add: cut_def)
  qed
qed

text \<open>The text a pointer into \<^verbatim>\<open>temp_path\<close> denotes.\<close>

definition part_str :: "char list \<Rightarrow> nat \<Rightarrow> string" where
  "part_str temp off = cstr (drop off temp)"

definition part_ok :: "char list \<Rightarrow> nat \<Rightarrow> bool" where
  "part_ok temp off = terminated (drop off temp)"

lemma cstr_Cons: "cstr (c # s) = (if c = NUL then [] else c # cstr s)"
  by (simp add: cstr_def)

lemma part_strs:
  assumes "NUL \<notin> set s" and "length pre = k" and "temp = pre @ map cut s @ NUL # r"
  shows "map (part_str temp) (k # part_offs k s) = split_slash s"
  using assms
proof (induction s arbitrary: k pre)
  case Nil
  then show ?case by (simp add: part_str_def cstr_Cons)
next
  case (Cons c s)
  have IH: "map (part_str temp) (Suc k # part_offs (Suc k) s) = split_slash s"
    using Cons.prems by (intro Cons.IH[of "pre @ [cut c]"]) auto
  have "drop k temp = cut c # drop (Suc k) temp"
    using Cons.prems by simp
  then have "part_str temp k = (if c = CHR ''/'' then [] else c # part_str temp (Suc k))"
    using Cons.prems(1) by (auto simp: part_str_def cstr_Cons cut_def)
  with IH show ?case by (auto split: list.splits)
qed

lemma part_offs_bound: "k \<le> n \<Longrightarrow> o1 \<in> set (k # part_offs k s) \<Longrightarrow> o1 \<le> k + length s"
  by (induction s arbitrary: k n) (force split: if_splits)+

lemma part_offs_ok:
  assumes "temp = map cut s @ NUL # r" and "o1 \<in> set (0 # part_offs 0 s)"
  shows "part_ok temp o1"
proof -
  have "o1 \<le> length s" using part_offs_bound[of 0 0 o1 s] assms(2) by simp
  then show ?thesis using assms(1) by (simp add: part_ok_def)
qed

lemma shift_loop_eq:
  assumes "length ps = 15" and "j + k \<le> 15"
  shows "shift_loop k j ps = take j ps @ drop (j + k) ps @ drop (15 - k) ps"
  using assms
proof (induction "15 - k - j" arbitrary: j ps)
  case 0
  then have "j = 15 - k" by simp
  with 0 show ?case by (subst shift_loop.simps) simp
next
  case (Suc n)
  let ?ps = "ps[j := ps ! (j + k)]"
  have j: "j < 15 - k" using Suc.hyps(2) by simp
  have "shift_loop k (Suc j) ?ps = take (Suc j) ?ps @ drop (Suc j + k) ?ps @ drop (15 - k) ?ps"
    using Suc.prems Suc.hyps(2) by (intro Suc.hyps(1)) auto
  moreover have "take (Suc j) ?ps = take j ps @ [ps ! (j + k)]"
    using Suc.prems j by (simp add: take_Suc_conv_app_nth)
  moreover have "drop (j + k) ps = ps ! (j + k) # drop (Suc j + k) ps"
    using Suc.prems j by (simp add: Cons_nth_drop_Suc)
  ultimately show ?case using j by (subst shift_loop.simps) simp
qed

lemma slots_shift1:
  assumes "length (slots (us @ v # ws) junk) = 15"
  shows "\<exists>junk'. shift_loop 1 (length us) (slots (us @ v # ws) junk) = slots (us @ ws) junk' \<and>
                 length (slots (us @ ws) junk') = 15"
  using assms by (subst shift_loop_eq) (auto simp: slots_def)

lemma slots_shift2:
  assumes "length (slots (us @ u # v # ws) junk) = 15"
  shows "\<exists>junk'. shift_loop 2 (length us) (slots (us @ u # v # ws) junk) = slots (us @ ws) junk' \<and>
                 length (slots (us @ ws) junk') = 15"
  using assms by (subst shift_loop_eq) (auto simp: slots_def numeral_2_eq_2)

lemma empty_or_dot_eq:
  assumes "terminated p"
  shows "empty_or_dot p = Inr (cstr p = [] \<or> cstr p = ''.'')"
proof -
  from assms obtain t r where p: "p = t @ NUL # r" "NUL \<notin> set t" "cstr p = t" by (elim terminatedE) auto
  have d: "kstrcmp p (lit ''.'') = Inr 0 \<longleftrightarrow> t = ''.''" "\<exists>x. kstrcmp p (lit ''.'') = Inr x"
    using kstrcmp_equal[OF assms terminated_lit, of "''.''"] p(3) by auto
  show ?thesis
  proof (cases t)
    case Nil
    with p show ?thesis by (simp add: empty_or_dot_def rd_def)
  next
    case (Cons a as)
    with p d show ?thesis by (auto simp: empty_or_dot_def rd_def)
  qed
qed

lemma resolve_loop_norm:
  assumes "length (slots (done @ todo) junk) = 15" and "\<forall>k\<in>set (done @ todo). part_ok temp k"
  shows "\<exists>fin junk'. resolve_loop temp (length done) (slots (done @ todo) junk) =
                        Some (Inr (slots fin junk')) \<and>
           length (slots fin junk') = 15 \<and> set fin \<subseteq> set (done @ todo) \<and>
           map (part_str temp) fin = norm_parts (map (part_str temp) done) (map (part_str temp) todo)"
  using assms
proof (induction todo arbitrary: "done" junk)
  case Nil
  have "length done < 15" using Nil.prems(1) by (simp add: slots_def)
  then have "resolve_loop temp (length done) (slots done junk) = Some (Inr (slots done junk))"
    by (subst resolve_loop.simps) (simp add: slots_def nth_append)
  with Nil.prems show ?case by force
next
  case (Cons v todo)
  let ?ps = "slots (done @ v # todo) junk"
  let ?s = "part_str temp v"
  have i: "length done < 15" and v: "?ps ! length done = Some v"
    using Cons.prems(1) by (simp_all add: slots_def nth_append)
  have ok: "terminated (drop v temp)" using Cons.prems(2) by (simp add: part_ok_def)
  note ed = empty_or_dot_eq[OF ok, folded part_str_def]
  obtain d where d: "kstrcmp (drop v temp) (lit ''..'') = Inr d" "d = 0 \<longleftrightarrow> ?s = ''..''"
    using kstrcmp_equal[OF ok terminated_lit, of "''..''"] by (auto simp: part_str_def)
  consider (drop1) "?s = [] \<or> ?s = ''.'' \<or> (?s = ''..'' \<and> done = [])"
    | (pop) "?s = ''..''" "done \<noteq> []"
    | (keep) "?s \<noteq> []" "?s \<noteq> ''.''" "?s \<noteq> ''..''" by blast
  then show ?case
  proof cases
    case drop1
    obtain junk' where j: "shift_loop 1 (length done) ?ps = slots (done @ todo) junk'"
        "length (slots (done @ todo) junk') = 15"
      using slots_shift1[OF Cons.prems(1)] by auto
    have "resolve_loop temp (length done) ?ps = resolve_loop temp (length done) (slots (done @ todo) junk')"
      using i v ed d drop1 j(1) by (subst resolve_loop.simps) auto
    moreover have "norm_parts (map (part_str temp) done) (map (part_str temp) (v # todo)) =
        norm_parts (map (part_str temp) done) (map (part_str temp) todo)"
      using drop1 by auto
    ultimately show ?thesis using Cons.IH[OF j(2)] Cons.prems(2) by fastforce
  next
    case pop
    then obtain us u where done1: "done = us @ [u]" by (cases "done" rule: rev_cases) auto
    have "length (slots (us @ u # v # todo) junk) = 15" using Cons.prems(1) done1 by simp
    from slots_shift2[OF this] obtain junk' where
      j: "shift_loop 2 (length us) (slots (us @ u # v # todo) junk) = slots (us @ todo) junk'"
        "length (slots (us @ todo) junk') = 15" by auto
    have "resolve_loop temp (length done) ?ps = resolve_loop temp (length us) (slots (us @ todo) junk')"
      using i v ed d pop j(1) done1 by (subst resolve_loop.simps) auto
    moreover have "norm_parts (map (part_str temp) done) (map (part_str temp) (v # todo)) =
        norm_parts (map (part_str temp) us) (map (part_str temp) todo)"
      using pop done1 by simp
    ultimately show ?thesis using Cons.IH[OF j(2)] Cons.prems(2) done1 by fastforce
  next
    case keep
    have "resolve_loop temp (length done) ?ps =
        resolve_loop temp (length (done @ [v])) (slots ((done @ [v]) @ todo) junk)"
      using i v ed d keep by (subst resolve_loop.simps) auto
    moreover have "norm_parts (map (part_str temp) done) (map (part_str temp) (v # todo)) =
        norm_parts (map (part_str temp) (done @ [v])) (map (part_str temp) todo)"
      using keep by simp
    ultimately show ?thesis using Cons.IH[of "done @ [v]" junk] Cons.prems by fastforce
  qed
qed

lemma wr_splice_last:
  assumes "length xs < length dest"
  shows "wr (splice dest 0 (xs @ [a])) (length xs) c = Inr (splice dest 0 (xs @ [c]))"
  using assms by (simp add: wr_def splice_def)

lemma kstrcpy_splice:
  assumes "terminated src" and "length xs + clen src < length dest"
  shows "kstrcpy (splice dest 0 xs) (length xs) src (int (clen src)) =
           Inr (int (clen src), splice dest 0 (xs @ cstr src @ [NUL]))"
proof -
  have "splice (splice dest 0 xs) (length xs) ys = splice dest 0 (xs @ ys)" for ys
    by (simp add: splice_def add.commute)
  then show ?thesis using assms by (subst kstrcpy_copies) simp_all
qed

definition emit :: "string list \<Rightarrow> string" where
  "emit ps = concat (map (\<lambda>p. p @ ''/'') ps)"

lemma emit_simps [simp]: "emit [] = []" "emit (p # ps) = p @ CHR ''/'' # emit ps"
  by (simp_all add: emit_def)

lemma length_emit: "length (emit ps) = length (join_parts ps)"
  by (induction ps) (simp_all add: join_parts_def)

lemma emit_join: "CHR ''/'' # emit ps = join_parts ps @ ''/''"
  by (induction ps) (simp_all add: join_parts_def)

lemma join_loop_emits:
  assumes "length (slots (us @ vs) junk) = 15" and "\<forall>k\<in>set vs. part_ok temp k"
    and "length xs + length (emit (map (part_str temp) vs)) \<le> length buf"
  shows "join_loop temp (slots (us @ vs) junk) (length us) (length xs) (splice buf 0 xs) =
           Inr (length xs + length (emit (map (part_str temp) vs)),
                splice buf 0 (xs @ emit (map (part_str temp) vs)))"
  using assms
proof (induction vs arbitrary: us xs)
  case Nil
  then show ?case by (subst join_loop.simps) (simp add: slots_def nth_append)
next
  case (Cons v vs)
  let ?s = "part_str temp v"
  have ok: "terminated (drop v temp)" using Cons.prems(2) by (simp add: part_ok_def)
  have c: "clen (drop v temp) = length ?s" "cstr (drop v temp) = ?s"
    by (simp_all add: clen_def part_str_def)
  have "slots (us @ v # vs) junk ! length us = Some v" by (simp add: slots_def nth_append)
  moreover have "length us < length (slots (us @ v # vs) junk)" by (simp add: slots_def)
  moreover have "kstrcpy (splice buf 0 xs) (length xs) (drop v temp) (int (length ?s)) =
      Inr (int (length ?s), splice buf 0 (xs @ ?s @ [NUL]))"
    using kstrcpy_splice[OF ok, of xs buf] Cons.prems(3) c by simp
  moreover have "wr (splice buf 0 (xs @ ?s @ [NUL])) (length xs + length ?s) (CHR ''/'') =
      Inr (splice buf 0 (xs @ ?s @ ''/''))"
    using wr_splice_last[of "xs @ ?s" buf NUL "CHR ''/''"] Cons.prems(3) by simp
  moreover have "join_loop temp (slots ((us @ [v]) @ vs) junk) (length (us @ [v]))
      (length (xs @ ?s @ ''/'')) (splice buf 0 (xs @ ?s @ ''/'')) =
    Inr (length (xs @ ?s @ ''/'') + length (emit (map (part_str temp) vs)),
         splice buf 0 ((xs @ ?s @ ''/'') @ emit (map (part_str temp) vs)))"
    using Cons.prems by (intro Cons.IH) auto
  ultimately show ?case using ok c(1) by (subst join_loop.simps) simp
qed

lemma cleanup_path_clean:
  assumes len: "length buffer = 100" "length temp_path = 100" and nul: "terminated buffer"
    and t: "cstr buffer = t" and abs: "t = CHR ''/'' # u" and few: "length (split_slash t) \<le> 14"
  shows "\<exists>buffer' temp'. cleanup_path buffer 100 temp_path = Some (Inr (buffer', temp')) \<and>
           length buffer' = 100 \<and> length temp' = 100 \<and> terminated buffer' \<and>
           cstr buffer' = (if t = ''/'' then ''/'' else clean t)"
proof -
  from nul t obtain r where b: "buffer = t @ NUL # r" "NUL \<notin> set t"
    by (elim terminatedE) auto
  obtain x where x: "kstrcmp buffer (lit ''/'') = Inr x" "x = 0 \<longleftrightarrow> t = ''/''"
    using kstrcmp_equal[OF nul terminated_lit, of "''/''"] t by auto
  show ?thesis
  proof (cases "t = ''/''")
    case True
    with x len nul t show ?thesis by (simp add: cleanup_path_def)
  next
    case False
    let ?temp = "map cut t @ NUL # r"
    let ?os = "0 # part_offs 0 t"
    have copy: "copy_temp_loop buffer 100 0 temp_path = Inr buffer"
      using copy_temp_loop_copies[of buffer 100 temp_path 0] len by simp
    have n: "length ?os \<le> 14" using few by (simp add: length_part_offs)
    let ?junk = "replicate (14 - length ?os) None"
    have "fill [0] = (replicate 15 None)[0 := Some 0]"
      by (simp add: fill_def numeral_eq_Suc)
    then have cutl: "cut_loop buffer 100 0 1 buffer ((replicate 15 None)[0 := Some 0]) =
        Inr (?temp, slots ?os ?junk)"
      using cut_loop_cuts[OF b(2), of "[]" 0 "[]" 100 "[0]" r] fill_slots[OF n] len(1) n b(1) by simp
    have l15: "length (slots ([] @ ?os) ?junk) = 15" using n by (simp add: slots_def)
    have ok: "\<forall>k\<in>set ([] @ ?os). part_ok ?temp k"
      using part_offs_ok[OF refl, of _ t r] by simp
    have strs: "map (part_str ?temp) ?os = split_slash t"
      by (rule part_strs[OF b(2), of "[]"]) simp_all
    obtain fin junk' where f: "resolve_loop ?temp 0 (slots ?os ?junk) = Some (Inr (slots fin junk'))"
        "length (slots ([] @ fin) junk') = 15" "set fin \<subseteq> set ?os"
        "map (part_str ?temp) fin = norm_parts [] (split_slash t)"
      using resolve_loop_norm[OF l15 ok] unfolding append_Nil strs list.map(1) list.size(3) by blast
    let ?ps = "norm_parts [] (split_slash t)"
    have lc: "length (emit ?ps) \<le> length t"
      using length_clean[OF abs] by (simp add: length_emit clean_def)
    have lt: "length t < 100" using b len(1) by simp
    have "wr buffer 0 (CHR ''/'') = Inr (splice buffer 0 ''/'')"
      using wr_splice[of 0 "[]" buffer "CHR ''/''"] len by simp
    moreover have "join_loop ?temp (slots fin junk') 0 1 (splice buffer 0 ''/'') =
        Inr (1 + length (emit ?ps), splice buffer 0 (''/'' @ emit ?ps))"
      using join_loop_emits[OF f(2), of ?temp "''/''" buffer] f(3,4) ok lc lt len(1) by auto
    moreover have "wr (splice buffer 0 (''/'' @ emit ?ps)) (length (emit ?ps)) NUL =
        Inr (splice buffer 0 (clean t @ [NUL]))"
      using wr_splice_last[of "join_parts ?ps" buffer "CHR ''/''" NUL] lc lt len(1)
      by (simp add: emit_join clean_def length_emit)
    moreover have "NUL \<notin> set (clean t)"
    proof -
      have "NUL \<notin> set p" if "p \<in> set ?ps" for p
      proof -
        have "p \<in> set (map (part_str ?temp) fin)" using that f(4) by simp
        then show ?thesis by (auto simp: part_str_def)
      qed
      then show ?thesis by (auto simp: clean_def join_parts_def)
    qed
    ultimately show ?thesis
      using False x copy cutl f(1) len b lc lt
      by (simp add: cleanup_path_def splice_def length_emit clean_def)
  qed
qed

text \<open>
  The pointer array has no room for its own end: with all 15 slots in use, removing an entry
  leaves a second copy of the last one behind, and an empty last component is removed for ever.
\<close>

lemma resolve_loop_stuck:
  assumes "i < 15" and "ps ! i = Some v" and "part_ok temp v" and "part_str temp v = []"
    and "shift_loop 1 i ps = ps"
  shows "resolve_loop temp i ps = None"
proof (rule ccontr)
  assume "resolve_loop temp i ps \<noteq> None"
  then obtain y where y: "resolve_loop temp i ps = Some y" by auto
  have e: "empty_or_dot (drop v temp) = Inr True"
    using empty_or_dot_eq[of "drop v temp"] assms(3,4) by (simp add: part_ok_def part_str_def)
  have "\<not> (temp = temp \<and> i = i \<and> ps = ps)"
  proof (rule resolve_loop.raw_induct
      [where P = "\<lambda>temp' i' ps' y. \<not> (temp' = temp \<and> i' = i \<and> ps' = ps)", OF _ y], goal_cases)
    case (1 f temp' i' ps' y')
    from 1(1)[of temp i ps] have "f temp i ps = None" by (cases "f temp i ps") auto
    with 1(2) assms(1,2,5) e show ?case by auto
  qed
  then show False by simp
qed

lemma resolve_loop_keeps:
  assumes "\<forall>k\<in>set todo. part_ok temp k \<and> proper (part_str temp k)" and "length (done @ todo) \<le> 15"
  shows "resolve_loop temp (length done) (map Some (done @ todo) @ rest) =
         resolve_loop temp (length (done @ todo)) (map Some (done @ todo) @ rest)"
  using assms
proof (induction todo arbitrary: "done")
  case Nil
  then show ?case by simp
next
  case (Cons v todo)
  let ?ps = "map Some (done @ v # todo) @ rest"
  have i: "length done < 15" "?ps ! length done = Some v" using Cons.prems(2) by (simp_all add: nth_append)
  have ok: "terminated (drop v temp)" and p: "proper (cstr (drop v temp))"
    using Cons.prems(1) by (simp_all add: part_ok_def part_str_def)
  obtain d where d: "kstrcmp (drop v temp) (lit ''..'') = Inr d" "d \<noteq> 0"
    using kstrcmp_equal[OF ok terminated_lit, of "''..''"] p by (auto simp: proper_def)
  have "empty_or_dot (drop v temp) = Inr False"
    using empty_or_dot_eq[OF ok] p by (simp add: proper_def)
  then have "resolve_loop temp (length done) ?ps = resolve_loop temp (length (done @ [v])) ?ps"
    using i d by (subst resolve_loop.simps) simp
  then show ?case using Cons.IH[of "done @ [v]"] Cons.prems by simp
qed

lemma split_slash_emit:
  "\<forall>p\<in>set ps. CHR ''/'' \<notin> set p \<Longrightarrow> split_slash (emit ps) = ps @ [[]]"
  by (induction ps) (simp_all add: split_slash_append)

lemma cut_stage:
  assumes "length buffer = 100" and "length temp_path = 100" and "terminated buffer"
    and "cstr buffer = t" and "t \<noteq> ''/''"
  obtains r x where "buffer = t @ NUL # r" and "NUL \<notin> set t"
    and "kstrcmp buffer (lit ''/'') = Inr x" and "x \<noteq> 0"
    and "copy_temp_loop buffer 100 0 temp_path = Inr buffer"
    and "cut_loop buffer 100 0 1 buffer ((replicate 15 None)[0 := Some 0]) =
         (if length (split_slash t) \<le> 15
          then Inr (map cut t @ NUL # r, fill (0 # part_offs 0 t)) else Inl Out_Of_Bounds)"
proof -
  from assms(3,4) obtain r where b: "buffer = t @ NUL # r" "NUL \<notin> set t"
    by (elim terminatedE) auto
  obtain x where x: "kstrcmp buffer (lit ''/'') = Inr x" "x \<noteq> 0"
    using kstrcmp_equal[OF assms(3) terminated_lit, of "''/''"] assms(4,5) by auto
  have c: "copy_temp_loop buffer 100 0 temp_path = Inr buffer"
    using copy_temp_loop_copies[of buffer 100 temp_path 0] assms by simp
  have "fill [0] = (replicate 15 None)[0 := Some 0]"
    by (simp add: fill_def numeral_eq_Suc)
  moreover have "Suc (length (part_offs 0 t)) = length (split_slash t)"
    using length_part_offs[of 0 t] by (cases "split_slash t") auto
  ultimately have "cut_loop buffer 100 0 1 buffer ((replicate 15 None)[0 := Some 0]) =
         (if length (split_slash t) \<le> 15
          then Inr (map cut t @ NUL # r, fill (0 # part_offs 0 t)) else Inl Out_Of_Bounds)"
    using cut_loop_cuts[OF b(2), of "[]" 0 "[]" 100 "[0]" r] assms(1) b(1) by simp
  from that[OF b x c this] show thesis .
qed

lemma cleanup_path_too_deep:
  assumes "length buffer = 100" and "length temp_path = 100" and "terminated buffer"
    and "cstr buffer = t" and "15 < length (split_slash t)"
  shows "cleanup_path buffer 100 temp_path = Some (Inl Out_Of_Bounds)"
proof -
  have "t \<noteq> ''/''" using assms(5) by auto
  then show ?thesis
  proof (rule cut_stage[OF assms(1-4)])
    fix r x
    assume "kstrcmp buffer (lit ''/'') = Inr x" and "x \<noteq> 0"
      and "copy_temp_loop buffer 100 0 temp_path = Inr buffer"
      and "cut_loop buffer 100 0 1 buffer ((replicate 15 None)[0 := Some 0]) =
           (if length (split_slash t) \<le> 15
            then Inr (map cut t @ NUL # r, fill (0 # part_offs 0 t)) else Inl Out_Of_Bounds)"
    then show ?thesis using assms(5) by (simp add: cleanup_path_def)
  qed
qed

lemma cleanup_path_stuck:
  assumes "length buffer = 100" and "length temp_path = 100" and "terminated buffer"
    and t: "cstr buffer = t" "t = join_parts names @ ''/''" and "length names = 13"
    and names: "\<forall>p\<in>set names. proper p"
  shows "cleanup_path buffer 100 temp_path = None"
proof -
  have no: "\<forall>p\<in>set names. CHR ''/'' \<notin> set p" using names by (simp add: proper_def)
  have "t = CHR ''/'' # emit names" using t(2) by (simp add: emit_join)
  then have sp: "split_slash t = [] # names @ [[]]" using split_slash_emit[OF no] by simp
  then have "t \<noteq> ''/''" using assms(6) by auto
  from cut_stage[OF assms(1-4) this] obtain r x where
    b: "buffer = t @ NUL # r" "NUL \<notin> set t" and x: "kstrcmp buffer (lit ''/'') = Inr x" "x \<noteq> 0"
    and copy: "copy_temp_loop buffer 100 0 temp_path = Inr buffer"
    and "cut_loop buffer 100 0 1 buffer ((replicate 15 None)[0 := Some 0]) =
         (if length (split_slash t) \<le> 15
          then Inr (map cut t @ NUL # r, fill (0 # part_offs 0 t)) else Inl Out_Of_Bounds)" .
  then have cutl: "cut_loop buffer 100 0 1 buffer ((replicate 15 None)[0 := Some 0]) =
      Inr (map cut t @ NUL # r, fill (0 # part_offs 0 t))"
    using sp assms(6) by simp
  let ?temp = "map cut t @ NUL # r"
  let ?os = "0 # part_offs 0 t"
  have strs: "map (part_str ?temp) ?os = [] # names @ [[]]"
    using part_strs[OF b(2), of "[]" 0 ?temp r] sp by (simp del: list.map)
  have ok: "\<forall>k\<in>set ?os. part_ok ?temp k" using part_offs_ok[OF refl, of _ t r] by simp
  have l: "length (part_offs 0 t) = 14" using length_part_offs[of 0 t] sp assms(6) by simp
  then obtain ks v where v: "part_offs 0 t = ks @ [v]" "length ks = 13"
    by (cases "part_offs 0 t" rule: rev_cases) auto
  have ks: "map (part_str ?temp) ks = names" "part_str ?temp v = []"
    using strs v assms(6) by auto
  let ?ps = "map Some (ks @ [v]) @ [Some v]"
  have f: "fill ?os = Some 0 # map Some (ks @ [v])" using v by (simp add: fill_def)
  have "resolve_loop ?temp 0 (fill ?os) = resolve_loop ?temp 0 ?ps"
  proof -
    have "part_str ?temp 0 = []" using strs by simp
    then have "empty_or_dot (drop 0 ?temp) = Inr True"
      using empty_or_dot_eq[of "drop 0 ?temp"] ok by (simp add: part_ok_def part_str_def)
    moreover have "shift_loop 1 0 (fill ?os) = ?ps"
      using v(2) unfolding f by (subst shift_loop_eq) simp_all
    ultimately show ?thesis using f by (subst resolve_loop.simps) simp
  qed
  also have "\<dots> = resolve_loop ?temp 13 ?ps"
    using resolve_loop_keeps[of ks ?temp "[]" "[Some v, Some v]"] ok v names ks(1) by auto
  also have "\<dots> = None"
  proof (rule resolve_loop_stuck)
    show "shift_loop 1 13 ?ps = ?ps" using v(2) by (subst shift_loop_eq) simp_all
    show "?ps ! 13 = Some v" using v(2) by (simp add: nth_append)
  qed (use ok v ks(2) in auto)
  finally show ?thesis using x copy cutl by (simp add: cleanup_path_def)
qed

lemma cstr_splice0: "NUL \<notin> set t \<Longrightarrow> cstr (splice dest 0 (t @ [NUL])) = t"
  by (simp add: splice_def)

lemma terminated_splice0 [simp]: "terminated (splice dest 0 (t @ [NUL]))"
  by (simp add: splice_def terminated_def)

text \<open>The text that \<^verbatim>\<open>path_merge\<close> hands to \<^verbatim>\<open>cleanup_path\<close>.\<close>

definition merged :: "string \<Rightarrow> string \<Rightarrow> string" where
  "merged base rel =
     (if prefix ''/'' rel then rel else if prefix ''./'' rel then base @ drop 2 rel else base @ rel)"

lemma drop2_dot:
  assumes "terminated s" and "prefix ''./'' (cstr s)"
  shows "terminated (drop 2 s) \<and> cstr (drop 2 s) = drop 2 (cstr s)"
proof -
  from assms(1) obtain t r where s: "s = t @ NUL # r" "NUL \<notin> set t" "cstr s = t"
    by (elim terminatedE) auto
  from assms(2) s(3) obtain u where u: "t = ''./'' @ u" by (auto simp: prefix_def)
  then have "drop 2 s = u @ NUL # r" "NUL \<notin> set u" using s by auto
  then show ?thesis using s u by simp
qed

lemma path_merge_clean:
  assumes len: "length buffer = 100" "length temp_path = 100"
    and base: "terminated base" "cstr base = CHR ''/'' # b"
    and rel: "terminated relative" and t: "t = merged (cstr base) (cstr relative)"
    and "length t < 100" and "length (split_slash t) \<le> 14"
  shows "\<exists>buffer' temp'. path_merge base relative buffer 100 temp_path = Some (Inr (buffer', temp')) \<and>
           length buffer' = 100 \<and> length temp' = 100 \<and> terminated buffer' \<and>
           cstr buffer' = (if t = ''/'' then ''/'' else clean t)"
proof -
  let ?r = "cstr relative"
  have l: "kstrstartswith relative (lit ''/'') = Inr (if prefix ''/'' ?r then 1 else 0)"
    "kstrstartswith relative (lit ''./'') = Inr (if prefix ''./'' ?r then 1 else 0)"
    using kstrstartswith_prefix[OF rel terminated_lit] by auto
  have clen: "clen s = length (cstr s)" for s by (simp add: clen_def)
  have "path_merge base relative buffer 100 temp_path =
      cleanup_path (splice buffer 0 (t @ [NUL])) 100 temp_path"
  proof -
    consider "prefix ''/'' ?r" | "\<not> prefix ''/'' ?r" "prefix ''./'' ?r"
      | "\<not> prefix ''/'' ?r" "\<not> prefix ''./'' ?r" by blast
    then show ?thesis
    proof cases
      case 1
      then have "t = ?r" using t by (simp add: merged_def)
      with 1 l(1) kstrcpy_copies[OF rel, of 100 0 buffer] assms(7) len show ?thesis
        by (simp add: path_merge_def clen)
    next
      case 2
      then have "t = cstr base @ drop 2 ?r" using t by (simp add: merged_def)
      with 2 l drop2_dot[OF rel] kstrcat_concat[OF base(1), of "drop 2 relative" buffer] assms(7) len
      show ?thesis by (simp add: path_merge_def clen)
    next
      case 3
      then have "t = cstr base @ ?r" using t by (simp add: merged_def)
      with 3 l kstrcat_concat[OF base(1) rel, of buffer] assms(7) len
      show ?thesis by (simp add: path_merge_def clen)
    qed
  qed
  moreover obtain u where u: "t = CHR ''/'' # u"
    unfolding t merged_def base(2)
    by (cases "prefix ''/'' ?r"; cases "prefix ''./'' ?r") (auto simp: prefix_def)
  moreover have "NUL \<notin> set t"
    unfolding t merged_def by (auto dest: in_set_dropD)
  moreover have "length (splice buffer 0 (t @ [NUL])) = 100" using assms(7) len by simp
  ultimately show ?thesis
    using cleanup_path_clean[OF _ len(2) terminated_splice0 cstr_splice0 u assms(8)] by simp
qed

section \<open>Properties\<close>

text \<open>
  \<^verbatim>\<open>kstrcpy\<close> on a destination that is large enough. A source of at most \<open>n\<close> characters
  is copied whole, with its terminator; of a longer one \<open>n + 1\<close> characters are copied, no
  terminator is written, and the result is -1.
\<close>

theorem kstrcpy_result:
  assumes "terminated src" and "d + min n (clen src) < length dest"
  shows "kstrcpy dest d src (int n) =
     Inr (if clen src \<le> n then (int (clen src), splice dest d (cstr src @ [NUL]))
          else (-1, splice dest d (take (Suc n) (cstr src))))"
  using assms kstrcpy_copies[of src "int n" d dest] kstrcpy_truncates[of src n d dest] by simp

theorem kstrcpy_result_witness:
  "kstrcpy (replicate 8 (CHR ''x'')) 0 (lit ''abcd'') (int 2) =
     Inr (-1, ''abcxxxxx'')"
  using kstrcpy_result[of "lit ''abcd''" 0 2 "replicate 8 (CHR ''x'')"]
  by (simp add: clen_def splice_def numeral_eq_Suc)

text \<open>
  The bound of \<^verbatim>\<open>kstrcpy\<close> is one too large. With the size of the destination as the
  bound, a source of exactly that many characters or more writes past its end.
\<close>

theorem kstrcpy_writes_past_end:
  assumes "terminated src" and "n \<le> clen src" and "length dest = n"
  shows "kstrcpy dest 0 src (int n) = Inl Out_Of_Bounds"
  using assms by (intro kstrcpy_overruns) simp_all

theorem kstrcpy_writes_past_end_witness:
  "kstrcpy (replicate 50 NUL) 0 (lit (replicate 50 (CHR ''a''))) (int 50) = Inl Out_Of_Bounds"
  by (rule kstrcpy_writes_past_end) (simp_all add: clen_def)

text \<open>
  \<^verbatim>\<open>kstrcmp\<close> returns for any two C strings, and returns 0 exactly when they are equal,
  although it orders strings of different length by a single character.
\<close>

theorem kstrcmp_zero_iff_equal:
  assumes "terminated s1" and "terminated s2"
  shows "\<exists>r. kstrcmp s1 s2 = Inr r \<and> (r = 0 \<longleftrightarrow> cstr s1 = cstr s2)"
  using assms by (rule kstrcmp_equal)

theorem kstrcmp_zero_iff_equal_witness:
  "\<exists>r. kstrcmp (lit ''ab'') (lit ''b'') = Inr r \<and> r \<noteq> 0"
  using kstrcmp_zero_iff_equal[of "lit ''ab''" "lit ''b''"] by auto

text \<open>
  C33: \<^verbatim>\<open>path_merge\<close> returns the normal form of the absolute path, or of the working
  directory extended by the relative one, for every path of fewer than 100 characters and at most
  13 slashes.
\<close>

theorem path_merge_normalises:
  assumes "length buffer = 100" and "length temp_path = 100"
    and "terminated base" and "cstr base = CHR ''/'' # b"
    and "terminated relative" and "t = merged (cstr base) (cstr relative)"
    and "length t < 100" and "length (split_slash t) \<le> 14"
  shows "\<exists>buffer' temp'. path_merge base relative buffer 100 temp_path = Some (Inr (buffer', temp')) \<and>
           length buffer' = 100 \<and> terminated buffer' \<and>
           cstr buffer' = (if t = ''/'' then ''/'' else clean t)"
  using path_merge_clean[OF assms] by blast

theorem path_merge_normalises_witness:
  "\<exists>buffer' temp'. path_merge (lit ''/usr/bin/'') (lit ''.././/lib'') (replicate 100 NUL) 100
       (replicate 100 NUL) = Some (Inr (buffer', temp')) \<and> cstr buffer' = ''/usr/lib''"
proof -
  have t: "''/usr/bin/.././/lib'' = merged (cstr (lit ''/usr/bin/'')) (cstr (lit ''.././/lib''))"
    by (simp add: merged_def)
  have c: "clean ''/usr/bin/.././/lib'' = ''/usr/lib''"
    by (simp add: clean_def join_parts_def)
  show ?thesis
    using path_merge_normalises[OF _ _ terminated_lit _ terminated_lit t,
        of "replicate 100 NUL" "replicate 100 NUL" "''usr/bin/''"]
    unfolding c by auto
qed

text \<open>
  the result of \<^verbatim>\<open>cleanup_path\<close> on an absolute path is the root, or a list of proper
  components (not empty, not \<^verbatim>\<open>.\<close> or \<^verbatim>\<open>..\<close>, no slash) each after a slash; and a
  second \<^verbatim>\<open>cleanup_path\<close> on the buffer leaves the path alone.
\<close>

theorem cleanup_path_normal_form:
  assumes "length buffer = 100" and "length temp_path = 100" and "terminated buffer"
    and "cstr buffer = CHR ''/'' # u" and "length (split_slash (cstr buffer)) \<le> 14"
  shows "\<exists>b1 t1. cleanup_path buffer 100 temp_path = Some (Inr (b1, t1)) \<and>
    (cstr b1 = ''/'' \<or> (\<exists>ps. cstr b1 = join_parts ps \<and> (\<forall>p\<in>set ps. proper p))) \<and>
    (cstr b1 \<noteq> [] \<longrightarrow> (\<exists>b2 t2. cleanup_path b1 100 t1 = Some (Inr (b2, t2)) \<and> cstr b2 = cstr b1))"
proof -
  let ?t = "CHR ''/'' # u" and ?r = "if u = [] then ''/'' else clean (CHR ''/'' # u)"
  from cleanup_path_clean[OF assms(1-4) refl assms(5)[unfolded assms(4)]] obtain b1 t1 where
    1: "cleanup_path buffer 100 temp_path = Some (Inr (b1, t1))" "length b1 = 100"
      "length t1 = 100" "terminated b1" "cstr b1 = ?r" by auto
  have few: "length (split_slash ?t) \<le> 14" using assms(4,5) by simp
  have again: "\<exists>b2 t2. cleanup_path b1 100 t1 = Some (Inr (b2, t2)) \<and> cstr b2 = ?r" if ne: "?r \<noteq> []"
  proof (cases u)
    case Nil
    from cleanup_path_clean[OF 1(2-4), of "''/''" "[]"] 1(5) Nil show ?thesis by auto
  next
    case (Cons c cs)
    then have r: "?r = clean ?t" by (simp only: list.distinct if_False)
    with ne obtain v where v: "clean ?t = CHR ''/'' # v"
      by (cases "norm_parts [] (split_slash ?t)") (auto simp: clean_def join_parts_def)
    have s: "length (split_slash (clean ?t)) \<le> 14"
      using few length_split_clean[of u] by (rule order_trans[rotated])
    have "cstr b1 = clean ?t" using 1(5) r by simp
    from cleanup_path_clean[OF 1(2-4) this v s] obtain b2 t2 where
      "cleanup_path b1 100 t1 = Some (Inr (b2, t2))"
      "cstr b2 = (if clean ?t = ''/'' then ''/'' else clean (clean ?t))" by blast
    then show ?thesis unfolding r clean_idem by (intro exI[of _ b2] exI[of _ t2]) simp
  qed
  have proper: "?r = ''/'' \<or> (\<exists>ps. ?r = join_parts ps \<and> (\<forall>p\<in>set ps. proper p))"
    using norm_split_proper[of ?t] by (auto simp: clean_def)
  show ?thesis
    by (rule exI[of _ b1], rule exI[of _ t1], unfold 1(5))
      (intro conjI impI 1(1) proper again; assumption)
qed

theorem cleanup_path_normal_form_witness:
  "\<exists>b1 t1. cleanup_path (''/a/./b'' @ NUL # replicate 93 NUL) 100 (replicate 100 NUL) = Some (Inr (b1, t1))"
  using cleanup_path_normal_form[of "''/a/./b'' @ NUL # replicate 93 NUL" "replicate 100 NUL" "''a/./b''"]
  by (auto simp: cstr_append_NUL[where t = "''/a/./b''", simplified] terminated_append_NUL[where t = "''/a/./b''", simplified])

text \<open>
  a directory path with 13 components and a trailing slash makes \<^verbatim>\<open>cleanup_path\<close>
  loop for ever, since the last of the 15 pointers is never cleared.
\<close>

theorem cleanup_path_loops:
  assumes "length buffer = 100" and "length temp_path = 100" and "terminated buffer"
    and "cstr buffer = join_parts names @ ''/''" and "length names = 13"
    and "\<forall>p\<in>set names. proper p"
  shows "cleanup_path buffer 100 temp_path = None"
  by (rule cleanup_path_stuck[OF assms(1-4) refl assms(5,6)])

theorem cleanup_path_loops_witness:
  "cleanup_path (lit ''/a/b/c/d/e/f/g/h/i/j/k/l/m/'' @ replicate 72 NUL) 100 (replicate 100 NUL) = None"
proof (rule cleanup_path_loops)
  let ?names = "map (\<lambda>c. [c]) ''abcdefghijklm''"
  have "lit ''/a/b/c/d/e/f/g/h/i/j/k/l/m/'' @ replicate 72 NUL =
      ''/a/b/c/d/e/f/g/h/i/j/k/l/m/'' @ NUL # replicate 72 NUL" by (simp add: lit_def)
  then show "terminated (lit ''/a/b/c/d/e/f/g/h/i/j/k/l/m/'' @ replicate 72 NUL)"
    and "cstr (lit ''/a/b/c/d/e/f/g/h/i/j/k/l/m/'' @ replicate 72 NUL) = join_parts ?names @ ''/''"
    by (simp_all only: terminated_append_NUL) (simp add: join_parts_def cstr_Cons)
qed (simp_all add: lit_def proper_def)

text \<open>
  With 15 slashes or more \<^verbatim>\<open>cleanup_path\<close> writes past the end of its pointer array.
\<close>

theorem cleanup_path_overruns:
  assumes "length buffer = 100" and "length temp_path = 100" and "terminated buffer"
    and "cstr buffer = t" and "15 < length (split_slash t)"
  shows "cleanup_path buffer 100 temp_path = Some (Inl Out_Of_Bounds)"
  using assms by (rule cleanup_path_too_deep)

theorem cleanup_path_overruns_witness:
  "cleanup_path (replicate 15 (CHR ''/'') @ NUL # replicate 84 NUL) 100 (replicate 100 NUL)
     = Some (Inl Out_Of_Bounds)"
  by (rule cleanup_path_overruns[OF _ _ terminated_append_NUL cstr_append_NUL])
    (simp_all add: numeral_eq_Suc)

end
