(* ===== verification/Process.thy ===== *)
theory Process
  imports Kstring
begin

text \<open>
  Processes and the scheduler: the process control block and the circular run queue of
  \<^verbatim>\<open>include/sys/process_helpers.h\<close>, and the operations of
  \<^verbatim>\<open>sys/process_helpers.c\<close> on them. (Creating a process needs memory and is modelled
  with the memory components.)

  A \<^verbatim>\<open>pcb*\<close> is its address, 0 is \<^verbatim>\<open>NULL\<close>; \<open>pcbs\<close> holds the blocks that
  \<^verbatim>\<open>kmalloc\<close> has handed out, so that the queue and \<^verbatim>\<open>_active_pcb\<close> share them. A C
  \<^verbatim>\<open>int\<close> that is compared with a 64-bit argument is a 32-bit word.
\<close>

section \<open>State\<close>

type_synonym i32 = "32 word"

abbreviation (input) PROCESS_QUEUE_SIZE :: nat where "PROCESS_QUEUE_SIZE \<equiv> 100"
abbreviation (input) TIME_SLICE_LIMIT :: int where "TIME_SLICE_LIMIT \<equiv> 16"

datatype process_status = READY | RUNNING | WAITING | FINISHED

record fd_t =
  file_start_address :: u64
  file_size :: u64
  file_offset :: u64

record pcb =
  pid :: i32
  ppid :: i32
  pml4 :: u64
  user_sp :: u64
  user_brk_point :: u64
  kernel_sp :: u64
  kernel_stack :: u64
  ip :: u64
  pname :: "char list"
  wd :: "char list"
  waiting_on_stdin :: bool
  waiting_on_pid :: i32
  waiting_on_clock :: u64
  exit_notify_status :: u64
  status_return :: u64
  status :: process_status
  fd_table :: "fd_t list"
  next_fd :: nat

text \<open>The entry of the process report, \<^verbatim>\<open>include/sys/ps_helpers.h\<close>.\<close>

record pspcb =
  ps_pid :: i32
  ps_ppid :: i32
  ps_pname :: "char list"

text \<open>\<^verbatim>\<open>pcb_list\<close>: the slots, \<^verbatim>\<open>head\<close> and \<^verbatim>\<open>tail\<close>.\<close>

type_synonym pcb_list = "u64 list \<times> nat \<times> nat"

text \<open>
  The globals of \<^verbatim>\<open>process_helpers.c\<close>, and the two processor registers that a context
  switch sets: \<^verbatim>\<open>cr3\<close> and \<^verbatim>\<open>tss.rsp0\<close>.
\<close>

record sched =
  pcbs :: "u64 \<Rightarrow> pcb option"
  processq :: pcb_list
  active_pcb :: u64
  prev_pid :: i32
  time_slice :: int
  cpu_cr3 :: u64
  tss_rsp0 :: u64

section \<open>Operations\<close>

definition deref :: "sched \<Rightarrow> u64 \<Rightarrow> pcb result" where
  "deref s p = (if p = 0 then Inl Null_Deref
                else case pcbs s p of None \<Rightarrow> Inl Out_Of_Bounds | Some x \<Rightarrow> Inr x)"

definition put_pcb :: "u64 \<Rightarrow> pcb \<Rightarrow> sched \<Rightarrow> sched" where
  "put_pcb p x s = s\<lparr>pcbs := (pcbs s)(p := Some x)\<rparr>"

definition get_active_pid :: "sched \<Rightarrow> i32 result" where
  "get_active_pid s = bindr (deref s (active_pcb s)) (\<lambda>x. Inr (pid x))"

text \<open>
  All the searches through the queue are the same loop,
  \<^verbatim>\<open>for (ptr = processq.head; ptr != processq.tail; ptr = (ptr+1)%PROCESS_QUEUE_SIZE)\<close>,
  with different bodies. A body returns \<open>Some r\<close> for \<^verbatim>\<open>return r\<close> (or a \<^verbatim>\<open>break\<close>).
  Both ends are always below \<open>PROCESS_QUEUE_SIZE\<close>; the second disjunct makes the loop total.
\<close>

function queue_loop ::
  "u64 list \<Rightarrow> nat \<Rightarrow> (u64 \<Rightarrow> 's \<Rightarrow> ('r option \<times> 's) result) \<Rightarrow> nat \<Rightarrow> 's \<Rightarrow>
     ('r option \<times> 's) result" where
  "queue_loop arr tl0 body ptr s =
     (if ptr = tl0 \<or> \<not> (ptr < PROCESS_QUEUE_SIZE \<and> tl0 < PROCESS_QUEUE_SIZE) then Inr (None, s)
      else bindr (body (arr ! ptr) s) (\<lambda>(r, s').
        case r of
          Some v \<Rightarrow> Inr (Some v, s')
        | None \<Rightarrow> queue_loop arr tl0 body ((ptr + 1) mod PROCESS_QUEUE_SIZE) s'))"
  by pat_completeness auto
termination
proof (relation "measure (\<lambda>(arr, tl0, body, ptr, s). (tl0 + PROCESS_QUEUE_SIZE - ptr) mod PROCESS_QUEUE_SIZE)")
  fix arr :: "u64 list" and tl0 ptr :: nat and body :: "u64 \<Rightarrow> 's \<Rightarrow> ('r option \<times> 's) result"
    and s s' :: 's
  assume "\<not> (ptr = tl0 \<or> \<not> (ptr < 100 \<and> tl0 < 100))"
  then have "(tl0 + 100 - (ptr + 1) mod 100) mod 100 < (tl0 + 100 - ptr) mod 100"
    by (cases "ptr = 99"; cases "tl0 < ptr") (auto simp: mod_if)
  then show "((arr, tl0, body, (ptr + 1) mod 100, s'), arr, tl0, body, ptr, s) \<in>
      measure (\<lambda>(arr, tl0, body, ptr, s). (tl0 + 100 - ptr) mod 100)"
    by simp
qed simp

declare queue_loop.simps [simp del]

definition for_queue :: "(u64 \<Rightarrow> sched \<Rightarrow> ('r option \<times> sched) result) \<Rightarrow> sched \<Rightarrow>
    ('r option \<times> sched) result" where
  "for_queue body s = (case processq s of (arr, hd0, tl0) \<Rightarrow> queue_loop arr tl0 body hd0 s)"

definition notify_stdin_body :: "u64 \<Rightarrow> sched \<Rightarrow> (unit option \<times> sched) result" where
  "notify_stdin_body p s =
     bindr (deref s p) (\<lambda>x.
       if status x = WAITING \<and> waiting_on_stdin x
       then Inr (None, put_pcb p (x\<lparr>waiting_on_stdin := False, status := RUNNING\<rparr>) s)
       else Inr (None, s))"

definition notify_stdin :: "sched \<Rightarrow> sched result" where
  "notify_stdin s = bindr (for_queue notify_stdin_body s) (\<lambda>(_, s'). Inr s')"

definition notify_exit_body :: "i32 \<Rightarrow> u64 \<Rightarrow> u64 \<Rightarrow> sched \<Rightarrow> (unit option \<times> sched) result" where
  "notify_exit_body pid0 st p s =
     bindr (deref s p) (\<lambda>x.
       if status x = WAITING \<and> waiting_on_pid x = pid0
       then Inr (None, put_pcb p (x\<lparr>waiting_on_pid := 0, exit_notify_status := st, status := RUNNING\<rparr>) s)
       else Inr (None, s))"

definition notify_exit_pid :: "i32 \<Rightarrow> u64 \<Rightarrow> sched \<Rightarrow> sched result" where
  "notify_exit_pid pid0 st s = bindr (for_queue (notify_exit_body pid0 st) s) (\<lambda>(_, s'). Inr s')"

definition notify_alarm_body :: "u64 \<Rightarrow> u64 \<Rightarrow> sched \<Rightarrow> (unit option \<times> sched) result" where
  "notify_alarm_body clock p s =
     bindr (deref s p) (\<lambda>x.
       if status x = WAITING \<and> waiting_on_clock x \<noteq> 0 \<and> waiting_on_clock x \<le> clock
       then Inr (None, put_pcb p (x\<lparr>waiting_on_clock := 0, status := RUNNING\<rparr>) s)
       else Inr (None, s))"

definition notify_alarm :: "u64 \<Rightarrow> sched \<Rightarrow> sched result" where
  "notify_alarm clock s = bindr (for_queue (notify_alarm_body clock) s) (\<lambda>(_, s'). Inr s')"

text \<open>
  The argument of \<^verbatim>\<open>kill_pid\<close> is 64 bits wide; the pid of the block is sign-extended for
  the comparison.
\<close>

definition kill_body :: "u64 \<Rightarrow> u64 \<Rightarrow> sched \<Rightarrow> (unit option \<times> sched) result" where
  "kill_body pid0 p s =
     bindr (deref s p) (\<lambda>x.
       if scast (pid x) = pid0 then Inr (Some (), put_pcb p (x\<lparr>status := FINISHED\<rparr>) s)
       else Inr (None, s))"

definition kill_pid :: "u64 \<Rightarrow> sched \<Rightarrow> (int \<times> sched) result" where
  "kill_pid pid0 s =
     bindr (for_queue (kill_body pid0) s) (\<lambda>(r, s'). Inr (if r = Some () then 0 else 1, s'))"

definition find_ppid_body :: "i32 \<Rightarrow> u64 \<Rightarrow> sched \<Rightarrow> (u64 option \<times> sched) result" where
  "find_ppid_body ppid0 p s =
     bindr (deref s p) (\<lambda>x. Inr (if ppid x = ppid0 then Some p else None, s))"

definition find_pcb_by_ppid :: "i32 \<Rightarrow> sched \<Rightarrow> u64 result" where
  "find_pcb_by_ppid ppid0 s =
     bindr (for_queue (find_ppid_body ppid0) s) (\<lambda>(r, _). Inr (case r of Some p \<Rightarrow> p | None \<Rightarrow> 0))"

definition find_pid_body :: "i32 \<Rightarrow> u64 \<Rightarrow> sched \<Rightarrow> (u64 option \<times> sched) result" where
  "find_pid_body pid0 p s =
     bindr (deref s p) (\<lambda>x. Inr (if pid x = pid0 then Some p else None, s))"

definition find_pcb_by_pid :: "i32 \<Rightarrow> sched \<Rightarrow> u64 result" where
  "find_pcb_by_pid pid0 s =
     bindr (for_queue (find_pid_body pid0) s) (\<lambda>(r, _). Inr (case r of Some p \<Rightarrow> p | None \<Rightarrow> 0))"

text \<open>
  \<^verbatim>\<open>_get_process_info\<close> fills the caller's array; the loop state is the array and the
  number \<^verbatim>\<open>i\<close> of entries written. The bound is tested after an entry has been written.
\<close>

definition process_info_body ::
  "sched \<Rightarrow> int \<Rightarrow> u64 \<Rightarrow> nat \<times> pspcb list \<Rightarrow> (unit option \<times> (nat \<times> pspcb list)) result" where
  "process_info_body s sz p ib =
     (case ib of (i, buffer) \<Rightarrow>
        bindr (deref s p) (\<lambda>x.
          if status x = FINISHED then Inr (None, ib)
          else if i < length buffer
          then bindr (kstrcpy (ps_pname (buffer ! i)) 0 (pname x) 50) (\<lambda>(_, nm).
                 let ib' = (i + 1, buffer[i := \<lparr>ps_pid = pid x, ps_ppid = ppid x, ps_pname = nm\<rparr>])
                 in Inr (if int (i + 1) \<ge> sz then Some () else None, ib'))
          else Inl Out_Of_Bounds))"

definition get_process_info :: "sched \<Rightarrow> pspcb list \<Rightarrow> int \<Rightarrow> (nat \<times> pspcb list) result" where
  "get_process_info s buffer sz =
     (case processq s of (arr, hd0, tl0) \<Rightarrow>
        bindr (queue_loop arr tl0 (process_info_body s sz) hd0 (0, buffer)) (\<lambda>(_, ib). Inr ib))"

text \<open>\<^verbatim>\<open>process_init\<close> empties the queue; the slots keep nothing.\<close>

definition process_init :: "sched \<Rightarrow> sched" where
  "process_init s =
     s\<lparr>prev_pid := 0, processq := (replicate PROCESS_QUEUE_SIZE 0, 0, 0)\<rparr>"

text \<open>The two halves of the circular queue: append at the tail, take from the head.\<close>

definition ring_push :: "u64 \<Rightarrow> pcb_list \<Rightarrow> pcb_list" where
  "ring_push p q = (case q of (arr, hd0, tl0) \<Rightarrow>
     (arr[tl0 := p], hd0, (tl0 + 1) mod PROCESS_QUEUE_SIZE))"

definition ring_pop :: "pcb_list \<Rightarrow> u64 \<times> pcb_list" where
  "ring_pop q = (case q of (arr, hd0, tl0) \<Rightarrow>
     (arr ! hd0, (arr, (hd0 + 1) mod PROCESS_QUEUE_SIZE, tl0)))"

definition enqueue_process :: "u64 \<Rightarrow> sched \<Rightarrow> sched result" where
  "enqueue_process p s =
     bindr (deref s p) (\<lambda>x.
       if status x = FINISHED then Inr s else Inr (s\<lparr>processq := ring_push p (processq s)\<rparr>))"

text \<open>
  \<^verbatim>\<open>get_next_context\<close> calls itself until it finds a block that is \<open>RUNNING\<close> or
  \<open>READY\<close>. It does not return if there is none.
\<close>

definition switch_to :: "u64 \<Rightarrow> sched \<Rightarrow> (u64 \<times> sched) result" where
  "switch_to res s =
     bindr (deref s (active_pcb s)) (\<lambda>x.
       Inr (res, s\<lparr>cpu_cr3 := pml4 x, tss_rsp0 := kernel_stack x + PAGESIZE, time_slice := 0\<rparr>))"

partial_function (option) get_next_context :: "sched \<Rightarrow> (u64 \<times> sched) result option" where
  "get_next_context s =
     (case enqueue_process (active_pcb s) s of
        Inl e \<Rightarrow> Some (Inl e)
      | Inr s1 \<Rightarrow>
          (let (res, q) = ring_pop (processq s1);
               s2 = s1\<lparr>processq := q, active_pcb := res\<rparr>
           in case deref s2 res of
                Inl e \<Rightarrow> Some (Inl e)
              | Inr x \<Rightarrow>
                  if status x \<noteq> RUNNING \<and> status x \<noteq> READY
                  then Option.bind (get_next_context s2)
                         (\<lambda>r. Some (bindr r (\<lambda>(res', s3). switch_to res' s3)))
                  else Some (switch_to res s2)))"

text \<open>
  \<^verbatim>\<open>schedule\<close> saves the stack pointer in the block of the process that gives up the
  processor and loads that of the next one; the first component of the result is the stack pointer
  afterwards.
\<close>

definition schedule :: "u64 \<Rightarrow> sched \<Rightarrow> (u64 \<times> sched) result option" where
  "schedule rsp s =
     (case deref s (active_pcb s) of
        Inl e \<Rightarrow> Some (Inl e)
      | Inr x \<Rightarrow>
          map_option
            (\<lambda>r. bindr r (\<lambda>(res, s1).
               let s2 = s1\<lparr>active_pcb := res\<rparr>
               in bindr (deref s2 res) (\<lambda>y. Inr (kernel_sp y, s2))))
            (get_next_context (put_pcb (active_pcb s) (x\<lparr>kernel_sp := rsp\<rparr>) s)))"

definition process_run :: "u64 \<Rightarrow> sched \<Rightarrow> sched result" where
  "process_run p s = enqueue_process p s"

definition preempt :: "u64 \<Rightarrow> sched \<Rightarrow> (u64 \<times> sched) result option" where
  "preempt rsp s =
     (let s1 = s\<lparr>time_slice := time_slice s + 1\<rparr>
      in if time_slice s1 > TIME_SLICE_LIMIT then schedule rsp (s1\<lparr>time_slice := 0\<rparr>)
         else Some (Inr (rsp, s1)))"

section \<open>The circular queue\<close>

definition ring_repr :: "pcb_list \<Rightarrow> u64 list \<Rightarrow> bool" where
  "ring_repr q xs =
     (case q of (arr, hd0, tl0) \<Rightarrow>
        length arr = PROCESS_QUEUE_SIZE \<and> hd0 < PROCESS_QUEUE_SIZE \<and>
        length xs < PROCESS_QUEUE_SIZE \<and> tl0 = (hd0 + length xs) mod PROCESS_QUEUE_SIZE \<and>
        (\<forall>i<length xs. arr ! ((hd0 + i) mod PROCESS_QUEUE_SIZE) = xs ! i))"

lemma mod_100_eq:
  fixes h i :: nat
  assumes "h < 100" and "i < 100"
  shows "(h + i) mod 100 = (if h + i < 100 then h + i else h + i - 100)"
  using assms by (simp add: le_mod_geq)

lemma mod_100_cancel:
  fixes h i n :: nat
  assumes "h < 100" and "i < 100" and "n < 100"
  shows "(h + i) mod 100 = (h + n) mod 100 \<longleftrightarrow> i = n"
  unfolding mod_100_eq[OF assms(1,2)] mod_100_eq[OF assms(1,3)] using assms by auto

lemma ring_push_repr:
  assumes "ring_repr q xs" and "length xs < 99"
  shows "ring_repr (ring_push p q) (xs @ [p])"
proof -
  obtain arr h t where q: "q = (arr, h, t)" by (cases q)
  have neq: "t \<noteq> (h + i) mod 100" if "i < length xs" for i
    using assms q that mod_100_cancel[of h i "length xs"] by (simp add: ring_repr_def)
  show ?thesis
    using assms q neq
    by (auto simp: ring_repr_def ring_push_def nth_append less_Suc_eq mod_Suc_eq)
qed

lemma ring_pop_repr:
  assumes "ring_repr q (x # xs)"
  shows "\<exists>q'. ring_pop q = (x, q') \<and> ring_repr q' xs"
proof -
  obtain arr h t where q: "q = (arr, h, t)" by (cases q)
  from assms q have e: "\<forall>i<Suc (length xs). arr ! ((h + i) mod 100) = (x # xs) ! i" and h: "h < 100"
    by (auto simp: ring_repr_def)
  from e[rule_format, of 0] h have "arr ! h = x" by simp
  moreover have "arr ! ((Suc h mod 100 + i) mod 100) = xs ! i" if "i < length xs" for i
    using e[rule_format, of "Suc i"] that by (simp add: mod_add_left_eq)
  ultimately show ?thesis
    using assms q by (simp add: ring_repr_def ring_pop_def mod_add_left_eq)
qed

interpretation run_queue: fifo ring_repr "\<lambda>xs x. length xs < 99" ring_push ring_pop
  by unfold_locales (rule ring_push_repr ring_pop_repr; assumption)+

lemma ring_repr_empty: "h < 100 \<Longrightarrow> length arr = 100 \<Longrightarrow> ring_repr (arr, h, h) []"
  by (simp add: ring_repr_def)

text \<open>With 99 entries one more push makes both ends meet: the queue looks empty.\<close>

lemma ring_push_full:
  assumes "ring_repr q xs" and "length xs = 99"
  shows "ring_repr (ring_push p q) []"
proof -
  obtain arr h t where q: "q = (arr, h, t)" by (cases q)
  have "Suc ((h + 99) mod 100) mod 100 = h" if "h < 100"
    using that by (cases "h = 0") (simp_all add: mod_100_eq)
  then show ?thesis using assms q by (simp add: ring_repr_def ring_push_def)
qed

section \<open>Searching the queue\<close>

text \<open>The same search over the list of the queued pointers.\<close>

fun walk :: "(u64 \<Rightarrow> 's \<Rightarrow> ('r option \<times> 's) result) \<Rightarrow> u64 list \<Rightarrow> 's \<Rightarrow> ('r option \<times> 's) result" where
  "walk body [] s = Inr (None, s)"
| "walk body (p # ps) s =
     bindr (body p s) (\<lambda>(r, s'). case r of Some v \<Rightarrow> Inr (Some v, s') | None \<Rightarrow> walk body ps s')"

lemma queue_loop_walk:
  "ring_repr (arr, h, t) xs \<Longrightarrow> queue_loop arr t body h s = walk body xs s"
proof (induction xs arbitrary: h s)
  case Nil
  then show ?case by (subst queue_loop.simps) (simp add: ring_repr_def)
next
  case (Cons x xs)
  from ring_pop_repr[OF Cons.prems] have x: "arr ! h = x"
    and r: "ring_repr (arr, (h + 1) mod 100, t) xs"
    by (auto simp: ring_pop_def)
  have "h < 100" "t < 100" "h \<noteq> t"
    using Cons.prems mod_100_cancel[of h 0 "Suc (length xs)"] by (auto simp: ring_repr_def)
  with x Cons.IH[OF r] show ?case
    by (subst queue_loop.simps) (auto simp: bindr_def split: sum.splits option.splits)
qed

lemma for_queue_walk: "ring_repr (processq s) xs \<Longrightarrow> for_queue body s = walk body xs s"
  by (cases "processq s") (simp add: for_queue_def queue_loop_walk)

text \<open>All queued pointers, and the active one, are different and point to process control blocks.\<close>

definition blocks_ok :: "sched \<Rightarrow> u64 list \<Rightarrow> bool" where
  "blocks_ok s ps = (distinct ps \<and> (\<forall>p\<in>set ps. p \<noteq> 0 \<and> pcbs s p \<noteq> None))"

definition sched_ok :: "sched \<Rightarrow> u64 list \<Rightarrow> bool" where
  "sched_ok s q = (ring_repr (processq s) q \<and> length q \<le> 98 \<and> blocks_ok s (active_pcb s # q))"

lemma deref_Some: "p \<noteq> 0 \<Longrightarrow> pcbs s p = Some x \<Longrightarrow> deref s p = Inr x"
  by (simp add: deref_def)

text \<open>A notification changes the blocks that it concerns and nothing else.\<close>

definition wake :: "(pcb \<Rightarrow> bool) \<Rightarrow> (pcb \<Rightarrow> pcb) \<Rightarrow> u64 list \<Rightarrow> sched \<Rightarrow> sched" where
  "wake c f ps s =
     s\<lparr>pcbs := (\<lambda>p. if p \<in> set ps then map_option (\<lambda>x. if c x then f x else x) (pcbs s p) else pcbs s p)\<rparr>"

definition wake_body :: "(pcb \<Rightarrow> bool) \<Rightarrow> (pcb \<Rightarrow> pcb) \<Rightarrow> u64 \<Rightarrow> sched \<Rightarrow> (unit option \<times> sched) result" where
  "wake_body c f p s =
     bindr (deref s p) (\<lambda>x. if c x then Inr (None, put_pcb p (f x) s) else Inr (None, s))"

lemma walk_wake:
  "blocks_ok s ps \<Longrightarrow> walk (wake_body c f) ps s = Inr (None, wake c f ps s)"
proof (induction ps arbitrary: s)
  case Nil
  then show ?case by (simp add: wake_def)
next
  case (Cons p ps)
  then obtain x where x: "p \<noteq> 0" "pcbs s p = Some x" by (auto simp: blocks_ok_def)
  let ?s = "if c x then put_pcb p (f x) s else s"
  have "blocks_ok ?s ps" using Cons.prems by (auto simp: blocks_ok_def put_pcb_def)
  note Cons.IH[OF this]
  moreover have "wake c f ps ?s = wake c f (p # ps) s"
  proof -
    let ?g = "\<lambda>x. if c x then f x else x"
    have "(\<lambda>q. if q \<in> set ps then map_option ?g (pcbs ?s q) else pcbs ?s q) =
        (\<lambda>q. if q \<in> set (p # ps) then map_option ?g (pcbs s q) else pcbs s q)"
      using Cons.prems x by (intro ext) (simp add: put_pcb_def blocks_ok_def)
    then show ?thesis by (simp add: wake_def put_pcb_def)
  qed
  ultimately show ?case using x by (auto simp: wake_body_def deref_Some)
qed

lemma notify_bodies:
  "notify_stdin_body = wake_body (\<lambda>x. status x = WAITING \<and> waiting_on_stdin x)
     (\<lambda>x. x\<lparr>waiting_on_stdin := False, status := RUNNING\<rparr>)"
  "notify_exit_body pid0 st = wake_body (\<lambda>x. status x = WAITING \<and> waiting_on_pid x = pid0)
     (\<lambda>x. x\<lparr>waiting_on_pid := 0, exit_notify_status := st, status := RUNNING\<rparr>)"
  "notify_alarm_body clock =
     wake_body (\<lambda>x. status x = WAITING \<and> waiting_on_clock x \<noteq> 0 \<and> waiting_on_clock x \<le> clock)
       (\<lambda>x. x\<lparr>waiting_on_clock := 0, status := RUNNING\<rparr>)"
  by (auto simp: fun_eq_iff notify_stdin_body_def notify_exit_body_def notify_alarm_body_def
      wake_body_def)

lemma sched_ok_blocks: "sched_ok s q \<Longrightarrow> blocks_ok s q"
  by (simp add: sched_ok_def blocks_ok_def)

lemma sched_ok_ring: "sched_ok s q \<Longrightarrow> ring_repr (processq s) q"
  by (simp add: sched_ok_def)

lemma notify_wakes:
  assumes "sched_ok s q"
  shows "notify_stdin s = Inr (wake (\<lambda>x. status x = WAITING \<and> waiting_on_stdin x)
           (\<lambda>x. x\<lparr>waiting_on_stdin := False, status := RUNNING\<rparr>) q s)"
    and "notify_exit_pid pid0 st s =
         Inr (wake (\<lambda>x. status x = WAITING \<and> waiting_on_pid x = pid0)
           (\<lambda>x. x\<lparr>waiting_on_pid := 0, exit_notify_status := st, status := RUNNING\<rparr>) q s)"
    and "notify_alarm clock s =
         Inr (wake (\<lambda>x. status x = WAITING \<and> waiting_on_clock x \<noteq> 0 \<and> waiting_on_clock x \<le> clock)
           (\<lambda>x. x\<lparr>waiting_on_clock := 0, status := RUNNING\<rparr>) q s)"
  by (simp_all add: notify_stdin_def notify_exit_pid_def notify_alarm_def notify_bodies
      for_queue_walk[OF sched_ok_ring[OF assms]] walk_wake[OF sched_ok_blocks[OF assms]])

lemma wake_fields [simp]:
  "processq (wake c f ps s) = processq s" "active_pcb (wake c f ps s) = active_pcb s"
  by (simp_all add: wake_def)

lemma wake_ok: "sched_ok s q \<Longrightarrow> sched_ok (wake c f q s) q"
  by (auto simp: sched_ok_def blocks_ok_def wake_def)

section \<open>The scheduler as a rotation\<close>

definition has_status :: "sched \<Rightarrow> process_status set \<Rightarrow> u64 \<Rightarrow> bool" where
  "has_status s S p = (case pcbs s p of Some x \<Rightarrow> status x \<in> S | None \<Rightarrow> False)"

abbreviation (input) runnable :: "sched \<Rightarrow> u64 \<Rightarrow> bool" where
  "runnable s \<equiv> has_status s {RUNNING, READY}"

abbreviation (input) alive :: "sched \<Rightarrow> u64 \<Rightarrow> bool" where
  "alive s \<equiv> has_status s {READY, RUNNING, WAITING}"

text \<open>The processes the scheduler chooses from, in its order: the queue, then the active one.\<close>

definition candidates :: "sched \<Rightarrow> u64 list \<Rightarrow> u64 list" where
  "candidates s q = q @ filter (alive s) [active_pcb s]"

lemma not_finished_alive: "pcbs s p = Some x \<Longrightarrow> alive s p \<longleftrightarrow> status x \<noteq> FINISHED"
  by (cases "status x") (simp_all add: has_status_def)

lemma runnable_status: "pcbs s p = Some x \<Longrightarrow> runnable s p \<longleftrightarrow> status x = RUNNING \<or> status x = READY"
  by (simp add: has_status_def)

lemma runnable_alive: "runnable s p \<Longrightarrow> alive s p"
  by (auto simp: has_status_def split: option.splits)

lemma candidates_iff: "a \<in> set (candidates s q) \<longleftrightarrow> a \<in> set q \<or> a = active_pcb s \<and> alive s a"
  by (auto simp: candidates_def)

lemma has_status_pcbs: "pcbs s' = pcbs s \<Longrightarrow> has_status s' S = has_status s S"
  by (simp add: fun_eq_iff has_status_def)

lemma enqueue_candidates:
  assumes "sched_ok s q"
  shows "\<exists>Q. enqueue_process (active_pcb s) s = Inr (s\<lparr>processq := Q\<rparr>) \<and> ring_repr Q (candidates s q)"
proof -
  let ?a = "active_pcb s"
  from assms obtain x where x: "?a \<noteq> 0" "pcbs s ?a = Some x"
    and r: "ring_repr (processq s) q" "length q < 99"
    by (auto simp: sched_ok_def blocks_ok_def)
  show ?thesis
    using x r run_queue.enq_repr[OF r, of ?a] not_finished_alive[OF x(2)]
    by (intro exI[of _ "if status x = FINISHED then processq s else ring_push ?a (processq s)"])
      (auto simp: enqueue_process_def deref_Some candidates_def)
qed

lemma candidates_ok:
  assumes "sched_ok s q"
  shows "distinct (candidates s q)" and "\<forall>p\<in>set (candidates s q). p \<noteq> 0 \<and> pcbs s p \<noteq> None"
    and "length (candidates s q) \<le> 99"
  using assms by (auto simp: sched_ok_def blocks_ok_def candidates_def)

definition dispatched :: "sched \<Rightarrow> u64 \<Rightarrow> pcb_list \<Rightarrow> sched" where
  "dispatched s r Q =
     (case pcbs s r of Some x \<Rightarrow>
        s\<lparr>processq := Q, active_pcb := r, cpu_cr3 := pml4 x, tss_rsp0 := kernel_stack x + PAGESIZE,
          time_slice := 0\<rparr>
      | None \<Rightarrow> s)"

lemma get_next_context_rotates:
  assumes "sched_ok s q" and "candidates s q = pre @ r # post"
    and "\<forall>p\<in>set pre. \<not> runnable s p" and "runnable s r"
  shows "\<exists>Q. get_next_context s = Some (Inr (r, dispatched s r Q)) \<and>
             ring_repr Q (post @ filter (alive s) pre)"
  using assms
proof (induction pre arbitrary: s q post)
  case Nil
  note ok = candidates_ok[OF Nil.prems(1)]
  obtain Q where Q: "enqueue_process (active_pcb s) s = Inr (s\<lparr>processq := Q\<rparr>)"
      "ring_repr Q (r # post)"
    using enqueue_candidates[OF Nil.prems(1)] Nil.prems(2) by auto
  from run_queue.deq_repr[OF Q(2)] obtain Q' where Q': "ring_pop Q = (r, Q')" "ring_repr Q' post" by auto
  have "r \<noteq> 0" "pcbs s r \<noteq> None" using ok(2) Nil.prems(2) by auto
  then obtain x where x: "r \<noteq> 0" "pcbs s r = Some x" by auto
  have "get_next_context s = Some (Inr (r, dispatched s r Q'))"
    using Q Q' x Nil.prems(4) runnable_status[OF x(2)]
    by (subst get_next_context.simps) (auto simp: deref_def switch_to_def dispatched_def)
  with Q'(2) show ?case by (intro exI[of _ Q']) simp
next
  case (Cons y pre)
  note ok = candidates_ok[OF Cons.prems(1)]
  obtain Q where Q: "enqueue_process (active_pcb s) s = Inr (s\<lparr>processq := Q\<rparr>)"
      "ring_repr Q (y # pre @ r # post)"
    using enqueue_candidates[OF Cons.prems(1)] Cons.prems(2) by auto
  from run_queue.deq_repr[OF Q(2)] obtain Q' where Q': "ring_pop Q = (y, Q')"
      "ring_repr Q' (pre @ r # post)" by auto
  have "y \<noteq> 0" "pcbs s y \<noteq> None" using ok(2) Cons.prems(2) by auto
  then obtain x where x: "y \<noteq> 0" "pcbs s y = Some x" by auto
  let ?s = "s\<lparr>processq := Q', active_pcb := y\<rparr>"
  have hs: "has_status ?s S = has_status s S" for S by (rule has_status_pcbs) simp
  have c: "candidates ?s (pre @ r # post) = pre @ r # (post @ filter (alive s) [y])"
    by (simp add: candidates_def hs)
  have "sched_ok ?s (pre @ r # post)"
    using Q'(2) ok Cons.prems(2) by (auto simp: sched_ok_def blocks_ok_def)
  note ok' = this
  have np: "\<forall>p\<in>set pre. \<not> runnable s p" using Cons.prems(3) by simp
  have fe: "(post @ filter (alive s) [y]) @ filter (alive s) pre = post @ filter (alive s) (y # pre)" by simp
  from Cons.IH[OF ok' c, unfolded hs fe, OF np Cons.prems(4)] obtain Q'' where
    g: "get_next_context ?s = Some (Inr (r, dispatched ?s r Q''))"
    and Q'': "ring_repr Q'' (post @ filter (alive s) (y # pre))"
    by blast
  have "r \<noteq> 0" "pcbs s r \<noteq> None" using ok(2) Cons.prems(2) by auto
  then obtain z where z: "r \<noteq> 0" "pcbs s r = Some z" by auto
  have "\<not> runnable s y" using Cons.prems(3) by simp
  then have "status x \<noteq> RUNNING \<and> status x \<noteq> READY" using runnable_status[OF x(2)] by simp
  then have "get_next_context s = Some (Inr (r, dispatched s r Q''))"
    using Q Q' x z g
    by (subst get_next_context.simps) (simp add: deref_def switch_to_def dispatched_def)
  with Q'' show ?case by (intro exI[of _ Q'']) simp
qed

lemma dispatched_fields:
  assumes "pcbs s r = Some x"
  shows "pcbs (dispatched s r Q) = pcbs s" "active_pcb (dispatched s r Q) = r"
    "processq (dispatched s r Q) = Q" "cpu_cr3 (dispatched s r Q) = pml4 x"
    "tss_rsp0 (dispatched s r Q) = kernel_stack x + PAGESIZE" "time_slice (dispatched s r Q) = 0"
  using assms by (simp_all add: dispatched_def)

lemma sched_ok_dispatched:
  assumes "sched_ok s q" and "candidates s q = pre @ r # post"
    and "ring_repr Q (post @ filter (alive s) pre)"
  shows "sched_ok (dispatched s r Q) (post @ filter (alive s) pre)"
proof -
  note ok = candidates_ok[OF assms(1)]
  obtain x where x: "pcbs s r = Some x" using ok(2) assms(2) by auto
  have "length pre + length post \<le> 98" using ok(3) assms(2) by simp
  then have "length (post @ filter (alive s) pre) \<le> 98"
    using length_filter_le[of "alive s" pre] unfolding length_append by linarith
  then show ?thesis
    using ok assms(2,3) dispatched_fields[OF x, of Q] by (auto simp: sched_ok_def blocks_ok_def)
qed

text \<open>\<^verbatim>\<open>schedule\<close> does the same on the state with the stack pointer saved.\<close>

definition saved :: "u64 \<Rightarrow> sched \<Rightarrow> sched" where
  "saved rsp s =
     (case pcbs s (active_pcb s) of
        Some x \<Rightarrow> put_pcb (active_pcb s) (x\<lparr>kernel_sp := rsp\<rparr>) s
      | None \<Rightarrow> s)"

lemma saved_fields [simp]: "processq (saved rsp s) = processq s" "active_pcb (saved rsp s) = active_pcb s"
  by (simp_all add: saved_def put_pcb_def split: option.splits)

lemma saved_has_status [simp]: "has_status (saved rsp s) S = has_status s S"
  by (auto simp: fun_eq_iff has_status_def saved_def put_pcb_def split: option.splits)

lemma saved_None [simp]: "pcbs (saved rsp s) p = None \<longleftrightarrow> pcbs s p = None"
  by (auto simp: saved_def put_pcb_def split: option.splits)

lemma sched_ok_saved [simp]: "sched_ok (saved rsp s) q = sched_ok s q"
  by (simp add: sched_ok_def blocks_ok_def)

lemma candidates_saved [simp]: "candidates (saved rsp s) q = candidates s q"
  by (simp add: candidates_def)

lemma schedule_rotates:
  assumes "sched_ok s q" and "candidates s q = pre @ r # post"
    and "\<forall>p\<in>set pre. \<not> runnable s p" and "runnable s r"
  shows "\<exists>y Q. pcbs (saved rsp s) r = Some y \<and>
           schedule rsp s = Some (Inr (kernel_sp y, dispatched (saved rsp s) r Q)) \<and>
           ring_repr Q (post @ filter (alive s) pre) \<and>
           sched_ok (dispatched (saved rsp s) r Q) (post @ filter (alive s) pre)"
proof -
  let ?s = "saved rsp s"
  obtain Q where g: "get_next_context ?s = Some (Inr (r, dispatched ?s r Q))"
    and Q: "ring_repr Q (post @ filter (alive s) pre)"
    using get_next_context_rotates[of ?s q pre r post] assms by auto
  have ok: "sched_ok (dispatched ?s r Q) (post @ filter (alive s) pre)"
    using sched_ok_dispatched[of ?s q pre r post Q] assms Q by simp
  have "r \<noteq> 0" "pcbs s r \<noteq> None" using candidates_ok(2)[OF assms(1)] assms(2) by auto
  then obtain y where y: "pcbs ?s r = Some y" "r \<noteq> 0" by fastforce
  obtain x where x: "active_pcb s \<noteq> 0" "pcbs s (active_pcb s) = Some x"
    using assms(1) by (auto simp: sched_ok_def blocks_ok_def)
  have "put_pcb (active_pcb s) (x\<lparr>kernel_sp := rsp\<rparr>) s = ?s" using x by (simp add: saved_def)
  moreover have "dispatched ?s r Q\<lparr>active_pcb := r\<rparr> = dispatched ?s r Q"
    using y by (simp add: dispatched_def)
  moreover have "deref (dispatched ?s r Q) r = Inr y"
    using y dispatched_fields(1)[OF y(1)] by (simp add: deref_def)
  ultimately have "schedule rsp s = Some (Inr (kernel_sp y, dispatched ?s r Q))"
    using x g by (simp add: schedule_def deref_Some)
  then show ?thesis using y Q ok by blast
qed

text \<open>
  Scheduling again and again, with nothing else happening: \<open>turns rsps s\<close> are the processes that
  get the processor, one per stack pointer saved.
\<close>

fun turns :: "u64 list \<Rightarrow> sched \<Rightarrow> u64 list result option" where
  "turns [] s = Some (Inr [])"
| "turns (rsp # rsps) s =
     Option.bind (schedule rsp s) (\<lambda>r. case r of
        Inl e \<Rightarrow> Some (Inl e)
      | Inr (_, s') \<Rightarrow>
          map_option (\<lambda>t. bindr t (\<lambda>ps. Inr (active_pcb s' # ps))) (turns rsps s'))"

lemma first_runnable:
  assumes "p \<in> set xs" and "P p"
  shows "\<exists>pre r post. xs = pre @ r # post \<and> (\<forall>x\<in>set pre. \<not> P x) \<and> P r"
  using split_list_first_prop[of xs P] assms by blast

lemma turns_total:
  assumes "sched_ok s q" and "p \<in> set (candidates s q)" and "runnable s p"
  shows "\<exists>ps. turns rsps s = Some (Inr ps) \<and> length ps = length rsps"
  using assms
proof (induction rsps arbitrary: s q p)
  case Nil
  then show ?case by simp
next
  case (Cons rsp rsps)
  obtain pre r post where c: "candidates s q = pre @ r # post" "\<forall>x\<in>set pre. \<not> runnable s x" "runnable s r"
    using first_runnable[OF Cons.prems(2), of "runnable s"] Cons.prems(3) by auto
  from schedule_rotates[OF Cons.prems(1) c, of rsp] obtain y Q where
    y: "pcbs (saved rsp s) r = Some y"
      "schedule rsp s = Some (Inr (kernel_sp y, dispatched (saved rsp s) r Q))"
    and ok: "sched_ok (dispatched (saved rsp s) r Q) (post @ filter (alive s) pre)"
    by auto
  let ?s = "dispatched (saved rsp s) r Q"
  have hs: "has_status ?s S = has_status s S" for S
    using has_status_pcbs[OF dispatched_fields(1)[OF y(1)]] by simp
  have a: "active_pcb ?s = r" using dispatched_fields(2)[OF y(1)] .
  have "alive s r" using c(3) by (auto simp: has_status_def split: option.splits)
  then have "r \<in> set (candidates ?s (post @ filter (alive s) pre))"
    by (simp add: candidates_def a hs)
  from Cons.IH[OF ok this] c(3) y(2) show ?case by (auto simp: hs)
qed

lemma in_take_post:
  assumes "p \<in> set (take (Suc n) (pre @ r # post))" and "p \<notin> set pre" and "p \<noteq> r"
  shows "p \<in> set (take n post)"
proof -
  have "p \<in> set (take (Suc n) pre) \<union> set (take (Suc n - length pre) (r # post))"
    using assms(1) by (simp only: take_append set_append)
  moreover have "p \<notin> set (take (Suc n) pre)" using assms(2) in_set_takeD[of p "Suc n" pre] by auto
  ultimately have p: "p \<in> set (take (Suc n - length pre) (r # post))" by blast
  show ?thesis
  proof (cases "Suc n - length pre")
    case 0
    with p show ?thesis by simp
  next
    case (Suc m)
    then have "m \<le> n" by linarith
    moreover have "p \<in> set (take m post)" using p assms(3) unfolding Suc by simp
    ultimately show ?thesis using set_take_subset_set_take[of m n post] by (simp add: subset_eq)
  qed
qed

lemma turns_fair:
  assumes "sched_ok s q" and "p \<in> set (take n (candidates s q))" and "runnable s p"
  shows "\<exists>ps. turns (replicate n rsp) s = Some (Inr ps) \<and> p \<in> set ps"
  using assms
proof (induction n arbitrary: s q)
  case 0
  then show ?case by simp
next
  case (Suc n)
  have "p \<in> set (candidates s q)" using Suc.prems(2) by (rule in_set_takeD)
  from first_runnable[of p _ "runnable s", OF this Suc.prems(3)] obtain pre r post
    where c: "candidates s q = pre @ r # post" "\<forall>x\<in>set pre. \<not> runnable s x" "runnable s r"
    by auto
  from schedule_rotates[OF Suc.prems(1) c, of rsp] obtain y Q where
    y: "pcbs (saved rsp s) r = Some y"
      "schedule rsp s = Some (Inr (kernel_sp y, dispatched (saved rsp s) r Q))"
    and ok: "sched_ok (dispatched (saved rsp s) r Q) (post @ filter (alive s) pre)"
    by auto
  let ?s = "dispatched (saved rsp s) r Q"
  have hs: "has_status ?s S = has_status s S" for S
    using has_status_pcbs[OF dispatched_fields(1)[OF y(1)]] by simp
  have a: "active_pcb ?s = r" using dispatched_fields(2)[OF y(1)] .
  have "alive s r" using c(3) by (auto simp: has_status_def split: option.splits)
  then have r: "r \<in> set (candidates ?s (post @ filter (alive s) pre))" "runnable ?s r"
    using c(3) by (simp_all add: candidates_def a hs)
  obtain ps where ps: "turns (replicate n rsp) ?s = Some (Inr ps)" "p \<noteq> r \<Longrightarrow> p \<in> set ps"
  proof (cases "p = r")
    case True
    from turns_total[OF ok r, of "replicate n rsp"] obtain ps
      where "turns (replicate n rsp) ?s = Some (Inr ps)" by blast
    with True show thesis by (intro that[of ps]) simp_all
  next
    case False
    have "p \<notin> set pre" using Suc.prems(3) c(2) by auto
    then have "p \<in> set (take n post)"
      using in_take_post[OF Suc.prems(2)[unfolded c(1)]] False by simp
    then have "p \<in> set (take n (candidates ?s (post @ filter (alive s) pre)))"
      by (simp add: candidates_def)
    moreover have "runnable ?s p" using Suc.prems(3) by (simp only: hs)
    ultimately obtain ps where "turns (replicate n rsp) ?s = Some (Inr ps)" "p \<in> set ps"
      using Suc.IH[OF ok] by blast
    then show thesis by (intro that[of ps])
  qed
  then show ?case using y(2) a by auto
qed

text \<open>What one turn does to the queue, on lists: rotate to the first runnable candidate and drop
  the finished ones on the way. \<open>None\<close> if no candidate is runnable.\<close>

definition rotation :: "sched \<Rightarrow> u64 list \<Rightarrow> (u64 \<times> u64 list) option" where
  "rotation s q =
     (case dropWhile (\<lambda>p. \<not> runnable s p) (candidates s q) of
        [] \<Rightarrow> None
      | r # post \<Rightarrow>
          Some (r, post @ filter (alive s) (takeWhile (\<lambda>p. \<not> runnable s p) (candidates s q))))"

lemma rotation_split:
  "rotation s q = Some (r, q') \<longleftrightarrow>
     (\<exists>pre post. candidates s q = pre @ r # post \<and> (\<forall>p\<in>set pre. \<not> runnable s p) \<and> runnable s r \<and>
        q' = post @ filter (alive s) pre)" (is "?L \<longleftrightarrow> ?R")
proof
  let ?P = "\<lambda>p. \<not> runnable s p"
  assume ?L
  then obtain post where d: "dropWhile ?P (candidates s q) = r # post"
    and q': "q' = post @ filter (alive s) (takeWhile ?P (candidates s q))"
    by (auto simp: rotation_def split: list.splits)
  have "candidates s q = takeWhile ?P (candidates s q) @ r # post"
    using takeWhile_dropWhile_id[of ?P "candidates s q"] unfolding d by simp
  moreover have "\<forall>p\<in>set (takeWhile ?P (candidates s q)). ?P p" by (auto dest: set_takeWhileD)
  moreover have "runnable s r" using d by (simp add: dropWhile_eq_Cons_conv)
  ultimately show ?R using q' by blast
next
  assume ?R
  then obtain pre post where c: "candidates s q = pre @ r # post" "\<forall>p\<in>set pre. \<not> runnable s p"
      "runnable s r" "q' = post @ filter (alive s) pre" by blast
  then show ?L by (simp add: rotation_def takeWhile_tail dropWhile_append)
qed

lemma rotation_None: "rotation s q = None \<longleftrightarrow> (\<forall>p\<in>set (candidates s q). \<not> runnable s p)"
  by (auto simp: rotation_def dropWhile_eq_Nil_conv split: list.splits dest: arg_cong[where f = "\<lambda>x. x = []"])

lemma schedule_simulates_rotation:
  assumes "sched_ok s q" and "rotation s q = Some (r, q')"
  shows "\<exists>y s'. schedule rsp s = Some (Inr (kernel_sp y, s')) \<and> sched_ok s' q' \<and>
    pcbs s' = pcbs (saved rsp s) \<and> active_pcb s' = r \<and> pcbs s' r = Some y \<and>
    cpu_cr3 s' = pml4 y \<and> tss_rsp0 s' = kernel_stack y + PAGESIZE \<and> time_slice s' = 0"
proof -
  obtain pre post where c: "candidates s q = pre @ r # post" "\<forall>p\<in>set pre. \<not> runnable s p" "runnable s r"
      "q' = post @ filter (alive s) pre"
    using assms(2) unfolding rotation_split by blast
  from schedule_rotates[OF assms(1) c(1-3), of rsp] obtain y Q where
    y: "pcbs (saved rsp s) r = Some y"
      "schedule rsp s = Some (Inr (kernel_sp y, dispatched (saved rsp s) r Q))"
    and ok: "sched_ok (dispatched (saved rsp s) r Q) q'"
    unfolding c(4) by blast
  show ?thesis
    using y ok dispatched_fields[OF y(1), of Q]
    by (intro exI[of _ y] exI[of _ "dispatched (saved rsp s) r Q"]) simp
qed

text \<open>If all candidates wait, the scheduler goes round for ever.\<close>

definition all_wait :: "sched \<Rightarrow> u64 list \<Rightarrow> bool" where
  "all_wait s q = (sched_ok s q \<and> (\<forall>p\<in>set (candidates s q). \<not> runnable s p) \<and>
     (\<exists>p\<in>set (candidates s q). alive s p))"

lemma get_next_context_stuck:
  assumes "get_next_context s = Some y"
  shows "\<nexists>q. all_wait s q"
proof (rule get_next_context.raw_induct[OF _ assms])
  fix get_next_context' s y
  assume 1: "\<And>s y. get_next_context' s = Some y \<Longrightarrow> \<nexists>q. all_wait s q"
    "(case enqueue_process (active_pcb s) s of
        Inl e \<Rightarrow> Some (Inl e)
      | Inr s1 \<Rightarrow>
          (let (res, q) = ring_pop (processq s1);
               s2 = s1\<lparr>processq := q, active_pcb := res\<rparr>
           in case deref s2 res of
                Inl e \<Rightarrow> Some (Inl e)
              | Inr x \<Rightarrow>
                  if status x \<noteq> RUNNING \<and> status x \<noteq> READY
                  then Option.bind (get_next_context' s2)
                         (\<lambda>r. Some (bindr r (\<lambda>(res', s3). switch_to res' s3)))
                  else Some (switch_to res s2))) = Some y"
  show "\<nexists>q. all_wait s q"
  proof
    assume "\<exists>q. all_wait s q"
    then obtain q where q': "all_wait s q" ..
    then have "candidates s q \<noteq> []" by (auto simp: all_wait_def)
    then obtain p ps where c: "candidates s q = p # ps" by (meson neq_Nil_conv)
    from q' c have q: "sched_ok s q" "\<forall>a\<in>set (p # ps). \<not> runnable s a" "\<exists>a\<in>set (p # ps). alive s a"
      by (simp_all add: all_wait_def)
    note ok = candidates_ok[OF q(1), unfolded c]
    obtain Q where Q: "enqueue_process (active_pcb s) s = Inr (s\<lparr>processq := Q\<rparr>)"
        "ring_repr Q (p # ps)"
      using enqueue_candidates[OF q(1)] c by auto
    from run_queue.deq_repr[OF Q(2)] obtain Q' where Q': "ring_pop Q = (p, Q')" "ring_repr Q' ps" by auto
    obtain x where x: "p \<noteq> 0" "pcbs s p = Some x" using ok(2) by auto
    let ?s = "s\<lparr>processq := Q', active_pcb := p\<rparr>"
    have hs: "has_status ?s S = has_status s S" for S by (rule has_status_pcbs) simp
    have st: "status x \<noteq> RUNNING \<and> status x \<noteq> READY" using q(2) runnable_status[OF x(2)] by simp
    have "sched_ok ?s ps" using Q'(2) ok by (auto simp: sched_ok_def blocks_ok_def)
    with q(2,3) have "all_wait ?s ps" by (auto simp: all_wait_def candidates_def hs)
    moreover obtain y' where "get_next_context' ?s = Some y'"
      using 1(2) Q Q' x st by (auto simp: deref_def bind_eq_Some_conv)
    ultimately show False using 1(1) by blast
  qed
qed

lemma schedule_stuck:
  assumes "all_wait s q"
  shows "schedule rsp s = None"
proof -
  obtain x where x: "active_pcb s \<noteq> 0" "pcbs s (active_pcb s) = Some x"
    using assms by (auto simp: all_wait_def sched_ok_def blocks_ok_def)
  have "all_wait (saved rsp s) q" using assms by (simp add: all_wait_def)
  then have "get_next_context (saved rsp s) = None"
    using get_next_context_stuck[of "saved rsp s"] by (cases "get_next_context (saved rsp s)") auto
  moreover have "put_pcb (active_pcb s) (x\<lparr>kernel_sp := rsp\<rparr>) s = saved rsp s"
    using x by (simp add: saved_def)
  ultimately show ?thesis using x by (simp add: schedule_def deref_Some)
qed

text \<open>A finished process is never chosen, and stays finished.\<close>

lemma turns_skip_finished:
  assumes "sched_ok s q" and "has_status s {FINISHED} p" and "turns rsps s = Some (Inr ps)"
    and "\<exists>a\<in>set (candidates s q). runnable s a"
  shows "p \<notin> set ps"
  using assms
proof (induction rsps arbitrary: s q ps)
  case Nil
  then show ?case by simp
next
  case (Cons rsp rsps)
  from Cons.prems(4) rotation_None[of s q] obtain r q' where r: "rotation s q = Some (r, q')"
    by (cases "rotation s q") auto
  from schedule_simulates_rotation[OF Cons.prems(1) r, of rsp] obtain y s' where
    s': "schedule rsp s = Some (Inr (kernel_sp y, s'))" "sched_ok s' q'"
      "pcbs s' = pcbs (saved rsp s)" "active_pcb s' = r" "pcbs s' r = Some y" by blast
  have hs: "has_status s' S = has_status s S" for S using has_status_pcbs[OF s'(3)] by simp
  have rr: "runnable s r" using r unfolding rotation_split by blast
  then have "r \<noteq> p" using Cons.prems(2) by (auto simp: has_status_def split: option.splits)
  moreover obtain ps' where ps': "turns rsps s' = Some (Inr ps')" "ps = r # ps'"
    using Cons.prems(3) s'(1,4) by (cases "turns rsps s'") (auto elim!: bindr_eq_InrE)
  moreover have "runnable s' r" "alive s' r" using rr hs by (auto simp: has_status_def split: option.splits)
  then have "\<exists>a\<in>set (candidates s' q'). runnable s' a" using s'(4) by (auto simp: candidates_def)
  then have "p \<notin> set ps'" using Cons.IH[OF s'(2) _ ps'(1)] Cons.prems(2) hs by simp
  ultimately show ?case by simp
qed

text \<open>\<^verbatim>\<open>kill_pid\<close> finds the first block of the queue with that pid.\<close>

lemma walk_kill:
  assumes "blocks_ok s ps"
  shows "walk (kill_body pid0) ps s =
    (case List.find (\<lambda>p. \<exists>x. pcbs s p = Some x \<and> scast (pid x) = pid0) ps of
       None \<Rightarrow> Inr (None, s)
     | Some p \<Rightarrow> Inr (Some (), put_pcb p (the (pcbs s p)\<lparr>status := FINISHED\<rparr>) s))"
  using assms
proof (induction ps)
  case Nil
  then show ?case by simp
next
  case (Cons p ps)
  then obtain x where x: "p \<noteq> 0" "pcbs s p = Some x" by (auto simp: blocks_ok_def)
  have "blocks_ok s ps" using Cons.prems by (simp add: blocks_ok_def)
  with Cons.IH x show ?case by (simp add: kill_body_def deref_Some)
qed

lemma kill_found:
  assumes "sched_ok s q" and "q = pre @ p # post" and "pcbs s p = Some x" and "scast (pid x) = pid0"
    and "\<forall>a\<in>set pre. \<forall>y. pcbs s a = Some y \<longrightarrow> scast (pid y) \<noteq> pid0"
  shows "kill_pid pid0 s = Inr (0, put_pcb p (x\<lparr>status := FINISHED\<rparr>) s)"
proof -
  have "List.find (\<lambda>p. \<exists>x. pcbs s p = Some x \<and> scast (pid x) = pid0) (pre @ p # post) = Some p"
    using assms(3-5) by (induction pre) auto
  then show ?thesis
    using walk_kill[OF sched_ok_blocks[OF assms(1)], of pid0] assms(2,3)
    by (simp add: kill_pid_def for_queue_walk[OF sched_ok_ring[OF assms(1)]])
qed

lemma kill_not_found:
  assumes "sched_ok s q" and "\<forall>a\<in>set q. \<forall>y. pcbs s a = Some y \<longrightarrow> scast (pid y) \<noteq> pid0"
  shows "kill_pid pid0 s = Inr (1, s)"
proof -
  have "List.find (\<lambda>p. \<exists>x. pcbs s p = Some x \<and> scast (pid x) = pid0) q = None"
    using assms(2) by (auto simp: find_None_iff)
  then show ?thesis
    using walk_kill[OF sched_ok_blocks[OF assms(1)], of pid0]
    by (simp add: kill_pid_def for_queue_walk[OF sched_ok_ring[OF assms(1)]])
qed

lemma sched_ok_put: "sched_ok s q \<Longrightarrow> sched_ok (put_pcb p x s) q"
  by (auto simp: sched_ok_def blocks_ok_def put_pcb_def)

text \<open>The entry that the report gets for a block, over the old entry of the caller's array.\<close>

definition info_entry :: "pcb \<Rightarrow> pspcb \<Rightarrow> pspcb" where
  "info_entry x e =
     \<lparr>ps_pid = pid x, ps_ppid = ppid x, ps_pname = splice (ps_pname e) 0 (cstr (pname x) @ [NUL])\<rparr>"

definition live_blocks :: "sched \<Rightarrow> u64 list \<Rightarrow> pcb list" where
  "live_blocks s q = filter (\<lambda>x. status x \<noteq> FINISHED) (map (\<lambda>p. the (pcbs s p)) q)"

definition names_fit :: "sched \<Rightarrow> u64 list \<Rightarrow> pspcb list \<Rightarrow> bool" where
  "names_fit s q buffer =
     ((\<forall>x\<in>set (live_blocks s q). terminated (pname x) \<and> clen (pname x) < 50) \<and>
      (\<forall>e\<in>set buffer. length (ps_pname e) = 50))"

lemma walk_process_info:
  assumes "blocks_ok s ps" and "names_fit s ps B" and "i < sz" and "sz \<le> length B"
  shows "\<exists>r. walk (process_info_body s (int sz)) ps (i, B) =
    (let n = min (sz - i) (length (live_blocks s ps))
     in Inr (r, (i + n, take i B @ map2 info_entry (take n (live_blocks s ps)) (drop i B) @
                        drop (i + n) B)))"
  using assms
proof (induction ps arbitrary: i B)
  case Nil
  then show ?case by (simp add: live_blocks_def)
next
  case (Cons p ps)
  obtain x where x: "p \<noteq> 0" "pcbs s p = Some x" using Cons.prems(1) by (auto simp: blocks_ok_def)
  have b: "blocks_ok s ps" using Cons.prems(1) by (simp add: blocks_ok_def)
  show ?case
  proof (cases "status x = FINISHED")
    case True
    then have l: "live_blocks s (p # ps) = live_blocks s ps" using x by (simp add: live_blocks_def)
    then have "names_fit s ps B" using Cons.prems(2) by (simp add: names_fit_def)
    from Cons.IH[OF b this Cons.prems(3,4)] show ?thesis
      using True x l by (simp add: process_info_body_def deref_Some)
  next
    case False
    then have l: "live_blocks s (p # ps) = x # live_blocks s ps" using x by (simp add: live_blocks_def)
    let ?B = "B[i := info_entry x (B ! i)]"
    have n: "terminated (pname x)" "clen (pname x) < 50" "length (ps_pname (B ! i)) = 50"
      using Cons.prems(2-4) l by (simp_all add: names_fit_def)
    then have c: "kstrcpy (ps_pname (B ! i)) 0 (pname x) 50 =
        Inr (int (clen (pname x)), ps_pname (info_entry x (B ! i)))"
      using kstrcpy_copies[of "pname x" 50 0 "ps_pname (B ! i)"] by (simp add: info_entry_def)
    have i: "i < length B" using Cons.prems(3,4) by simp
    have step: "process_info_body s (int sz) p (i, B) =
        Inr (if sz \<le> i + 1 then Some () else None, (i + 1, ?B))"
      using False x i c by (auto simp: process_info_body_def deref_Some info_entry_def)
    have B: "take (Suc i) ?B = take i B @ [info_entry x (B ! i)]" "drop (Suc i) ?B = drop (Suc i) B"
        "drop i B = B ! i # drop (Suc i) B"
      using i by (simp_all add: take_Suc_conv_app_nth Cons_nth_drop_Suc)
    show ?thesis
    proof (cases "sz \<le> i + 1")
      case True
      then have "sz - i = 1" using Cons.prems(3) by simp
      then show ?thesis using step True x l i B(3) by (simp add: upd_conv_take_nth_drop)
    next
      case F: False
      have "length (ps_pname (info_entry x (B ! i))) = 50"
        using n by (simp add: info_entry_def splice_def clen_def)
      then have "names_fit s ps ?B"
        using Cons.prems(2) l set_update_subset_insert[of B i "info_entry x (B ! i)"]
        by (auto simp: names_fit_def)
      from Cons.IH[OF b this, of "Suc i"] F Cons.prems(4) obtain r where
        "walk (process_info_body s (int sz)) ps (Suc i, ?B) =
          (let n = min (sz - Suc i) (length (live_blocks s ps))
           in Inr (r, (Suc i + n, take (Suc i) ?B @
             map2 info_entry (take n (live_blocks s ps)) (drop (Suc i) ?B) @ drop (Suc i + n) ?B)))"
        by (auto simp: Let_def)
      moreover have "sz - i = Suc (sz - Suc i)" using F by simp
      moreover have "drop (Suc i + n) ?B = drop (Suc i + n) B" for n by simp
      ultimately show ?thesis using step F l by (simp add: B Let_def)
    qed
  qed
qed

lemma get_process_info_walk:
  assumes "sched_ok s q" and "names_fit s q B" and "0 < sz" and "sz \<le> length B"
    and "n = min sz (length (live_blocks s q))"
  shows "get_process_info s B (int sz) =
    Inr (n, map2 info_entry (take n (live_blocks s q)) B @ drop n B)"
proof -
  obtain r where "walk (process_info_body s (int sz)) q (0, B) =
      Inr (r, (n, map2 info_entry (take n (live_blocks s q)) B @ drop n B))"
    using walk_process_info[OF sched_ok_blocks[OF assms(1)] assms(2-4)] assms(5) by (auto simp: Let_def)
  moreover obtain arr h t where "processq s = (arr, h, t)" by (cases "processq s")
  ultimately show ?thesis
    using sched_ok_ring[OF assms(1)] by (simp add: get_process_info_def queue_loop_walk[of arr h t q])
qed

text \<open>Timer ticks, one per stack pointer at the time of the tick.\<close>

fun ticks :: "u64 list \<Rightarrow> sched \<Rightarrow> (u64 \<times> sched) result option" where
  "ticks [] s = Some (Inr (0, s))"
| "ticks [rsp] s = preempt rsp s"
| "ticks (rsp # rsps) s =
     Option.bind (preempt rsp s) (\<lambda>r. case r of Inl e \<Rightarrow> Some (Inl e) | Inr (_, s') \<Rightarrow> ticks rsps s')"

lemma ticks_count:
  "rsps \<noteq> [] \<Longrightarrow> time_slice s + int (length rsps) \<le> TIME_SLICE_LIMIT \<Longrightarrow>
     ticks rsps s = Some (Inr (last rsps, s\<lparr>time_slice := time_slice s + int (length rsps)\<rparr>))"
  by (induction rsps s rule: ticks.induct) (simp_all add: preempt_def Let_def algebra_simps)

lemma ticks_expire:
  "time_slice s + int (length rsps) = TIME_SLICE_LIMIT \<Longrightarrow>
     ticks (rsps @ [rsp]) s = schedule rsp (s\<lparr>time_slice := 0\<rparr>)"
proof (induction rsps arbitrary: s)
  case Nil
  then show ?case by (simp add: preempt_def)
next
  case (Cons r rs)
  then show ?case by (cases rs) (simp_all add: preempt_def Let_def)
qed

section \<open>Properties\<close>

text \<open>Two blocks for the witnesses: the first has the processor, the second waits for process 7.\<close>

definition blank_pcb :: pcb where
  "blank_pcb = \<lparr>pid = 0, ppid = 0, pml4 = 0, user_sp = 0, user_brk_point = 0, kernel_sp = 0,
     kernel_stack = 0, ip = 0, pname = replicate 50 NUL, wd = replicate 50 NUL,
     waiting_on_stdin = False, waiting_on_pid = 0, waiting_on_clock = 0, exit_notify_status = 0,
     status_return = 0, status = RUNNING,
     fd_table = replicate 15 \<lparr>file_start_address = 0, file_size = 0, file_offset = 0\<rparr>,
     next_fd = 3\<rparr>"

definition two_blocks :: "process_status \<Rightarrow> sched" where
  "two_blocks st = \<lparr>pcbs = [0x1000 \<mapsto> blank_pcb\<lparr>pid := 1\<rparr>,
       0x2000 \<mapsto> blank_pcb\<lparr>pid := 2, status := st, waiting_on_pid := 7, kernel_sp := 0x3000\<rparr>],
     processq = (0x2000 # replicate 99 0, 0, 1), active_pcb = 0x1000, prev_pid = 2, time_slice = 0,
     cpu_cr3 = 0, tss_rsp0 = 0\<rparr>"

lemma two_blocks_ok: "sched_ok (two_blocks st) [0x2000]"
  by (simp add: sched_ok_def ring_repr_def blocks_ok_def two_blocks_def)

lemma two_blocks_status:
  "has_status (two_blocks st) S 0x1000 \<longleftrightarrow> RUNNING \<in> S"
  "has_status (two_blocks st) S 0x2000 \<longleftrightarrow> st \<in> S"
  by (simp_all add: has_status_def two_blocks_def blank_pcb_def)

lemma two_blocks_pcbs:
  "pcbs (two_blocks st) 0x1000 = Some (blank_pcb\<lparr>pid := 1\<rparr>)"
  "pcbs (two_blocks st) 0x2000 =
     Some (blank_pcb\<lparr>pid := 2, status := st, waiting_on_pid := 7, kernel_sp := 0x3000\<rparr>)"
  by (simp_all add: two_blocks_def)

lemma two_blocks_candidates: "candidates (two_blocks st) [0x2000] = [0x2000, 0x1000]"
  using two_blocks_status(1)[of st] by (simp add: candidates_def two_blocks_def)

text \<open>
  C6: \<^verbatim>\<open>schedule\<close> implements \<open>rotation\<close> on the list of the queued processes: it returns on the
  stack saved for the first runnable process after the active one, in that process's address space
  and kernel stack and with a fresh time slice; the old stack pointer is in the old block, the
  waiting processes that were passed over are at the end of the queue and the finished ones are
  gone.
\<close>

theorem schedule_refines_rotation:
  assumes "sched_ok s q" and "rotation s q = Some (r, q')"
  shows "\<exists>y s'. schedule rsp s = Some (Inr (kernel_sp y, s')) \<and> sched_ok s' q' \<and>
    pcbs s' = pcbs (saved rsp s) \<and> active_pcb s' = r \<and> pcbs s' r = Some y \<and>
    cpu_cr3 s' = pml4 y \<and> tss_rsp0 s' = kernel_stack y + PAGESIZE \<and> time_slice s' = 0"
  using assms by (rule schedule_simulates_rotation)

theorem schedule_refines_rotation_witness:
  "\<exists>y s'. schedule 0x4000 (two_blocks READY) = Some (Inr (kernel_sp y, s')) \<and>
     sched_ok s' [0x1000] \<and> active_pcb s' = 0x2000 \<and> pcbs s' 0x2000 = Some y"
proof -
  have "rotation (two_blocks READY) [0x2000] = Some (0x2000, [0x1000])"
    by (simp add: rotation_def two_blocks_candidates two_blocks_status)
  from schedule_refines_rotation[OF two_blocks_ok this, of "0x4000"] show ?thesis by blast
qed

text \<open>
  the scheduler is fair. A runnable process that is the \<open>n\<close>-th of the candidates, or earlier,
  gets the processor within \<open>n\<close> calls of \<^verbatim>\<open>schedule\<close>, and all these calls return.
\<close>

theorem scheduler_fair:
  assumes "sched_ok s q" and "p \<in> set (take n (candidates s q))" and "runnable s p"
  shows "\<exists>ps. turns (replicate n rsp) s = Some (Inr ps) \<and> p \<in> set ps"
  using assms by (rule turns_fair)

theorem scheduler_fair_witness:
  "\<exists>ps. turns (replicate 2 0x4000) (two_blocks WAITING) = Some (Inr ps) \<and> 0x1000 \<in> set ps"
  by (rule scheduler_fair[OF two_blocks_ok]) (simp_all add: two_blocks_candidates two_blocks_status)

text \<open>
  a queued process that is killed never runs again, although its block stays in the queue until
  the scheduler passes it.
\<close>

theorem killed_never_runs:
  assumes "sched_ok s q" and "q = pre @ p # post" and "pcbs s p = Some x" and "scast (pid x) = pid0"
    and "\<forall>a\<in>set pre. \<forall>y. pcbs s a = Some y \<longrightarrow> scast (pid y) \<noteq> pid0"
    and "a \<in> set (candidates s q)" and "runnable s a" and "a \<noteq> p"
  shows "\<exists>s'. kill_pid pid0 s = Inr (0, s') \<and>
    (\<forall>rsps. \<exists>ps. turns rsps s' = Some (Inr ps) \<and> length ps = length rsps \<and> p \<notin> set ps)"
proof (intro exI[of _ "put_pcb p (x\<lparr>status := FINISHED\<rparr>) s"] conjI allI)
  let ?s = "put_pcb p (x\<lparr>status := FINISHED\<rparr>) s"
  show "kill_pid pid0 s = Inr (0, ?s)" using assms(1-5) by (rule kill_found)
  fix rsps
  have ok: "sched_ok ?s q" using assms(1) by (rule sched_ok_put)
  have a: "runnable ?s a" using assms(7,8) by (simp add: has_status_def put_pcb_def)
  then have c: "a \<in> set (candidates ?s q)"
    using assms(6) runnable_alive by (auto simp: candidates_iff put_pcb_def)
  obtain ps where ps: "turns rsps ?s = Some (Inr ps)" "length ps = length rsps"
    using turns_total[OF ok c a] by blast
  moreover have "has_status ?s {FINISHED} p" by (simp add: has_status_def put_pcb_def)
  then have "p \<notin> set ps" using turns_skip_finished[OF ok _ ps(1)] a c by blast
  ultimately show "\<exists>ps. turns rsps ?s = Some (Inr ps) \<and> length ps = length rsps \<and> p \<notin> set ps"
    by blast
qed

theorem killed_never_runs_witness:
  "\<exists>s'. kill_pid 2 (two_blocks READY) = Inr (0, s') \<and>
     (\<forall>rsps. \<exists>ps. turns rsps s' = Some (Inr ps) \<and> length ps = length rsps \<and> 0x2000 \<notin> set ps)"
proof (rule killed_never_runs[OF two_blocks_ok, where pre = "[]" and post = "[]"])
  show "0x1000 \<in> set (candidates (two_blocks READY) [0x2000])"
    "runnable (two_blocks READY) 0x1000" by (simp_all add: two_blocks_candidates two_blocks_status)
  show "pcbs (two_blocks READY) 0x2000 =
      Some (blank_pcb\<lparr>pid := 2, status := READY, waiting_on_pid := 7, kernel_sp := 0x3000\<rparr>)"
    by (rule two_blocks_pcbs)
qed simp_all

text \<open>
  each of the three notifications wakes exactly the queued processes that wait for its event,
  clears what they waited for, and changes nothing else; the status of an exit is stored in the
  blocks it wakes.
\<close>

theorem notifications_wake:
  assumes "sched_ok s q"
  shows "notify_stdin s = Inr (wake (\<lambda>x. status x = WAITING \<and> waiting_on_stdin x)
           (\<lambda>x. x\<lparr>waiting_on_stdin := False, status := RUNNING\<rparr>) q s) \<and>
         notify_exit_pid pid0 st s =
         Inr (wake (\<lambda>x. status x = WAITING \<and> waiting_on_pid x = pid0)
           (\<lambda>x. x\<lparr>waiting_on_pid := 0, exit_notify_status := st, status := RUNNING\<rparr>) q s) \<and>
         notify_alarm clock s =
         Inr (wake (\<lambda>x. status x = WAITING \<and> waiting_on_clock x \<noteq> 0 \<and> waiting_on_clock x \<le> clock)
           (\<lambda>x. x\<lparr>waiting_on_clock := 0, status := RUNNING\<rparr>) q s)"
  using notify_wakes[OF assms] by blast

theorem notifications_wake_witness:
  "\<exists>s'. notify_exit_pid 7 42 (two_blocks WAITING) = Inr s' \<and> runnable s' 0x2000 \<and>
     map_option exit_notify_status (pcbs s' 0x2000) = Some 42"
  using notifications_wake[OF two_blocks_ok[of WAITING], of 7 42]
  by (simp add: wake_def has_status_def two_blocks_pcbs)

text \<open>
  a process that waits for the exit of another one gets the processor, once the exit has been
  notified, within as many turns as there are queued processes.
\<close>

theorem exit_wakes_waiter:
  assumes "sched_ok s q" and "p \<in> set q" and "pcbs s p = Some x"
    and "status x = WAITING" and "waiting_on_pid x = pid0"
  shows "\<exists>s' ps. notify_exit_pid pid0 st s = Inr s' \<and>
    turns (replicate (length q) rsp) s' = Some (Inr ps) \<and> p \<in> set ps"
proof -
  obtain s' where s': "notify_exit_pid pid0 st s = Inr s'" "sched_ok s' q" "runnable s' p"
    using notify_wakes(2)[OF assms(1), of pid0 st] wake_ok[OF assms(1)] assms(2-5)
    by (simp add: wake_def has_status_def)
  then show ?thesis
    using turns_fair[OF s'(2), of p "length q" rsp] assms(2) by (auto simp: candidates_def)
qed

theorem exit_wakes_waiter_witness:
  "\<exists>s' ps. notify_exit_pid 7 42 (two_blocks WAITING) = Inr s' \<and>
     turns [0x4000] s' = Some (Inr ps) \<and> 0x2000 \<in> set ps"
proof -
  obtain x where "pcbs (two_blocks WAITING) 0x2000 = Some x" "status x = WAITING" "waiting_on_pid x = 7"
    by (simp add: two_blocks_pcbs)
  from exit_wakes_waiter[OF two_blocks_ok _ this, of 42 "0x4000"] show ?thesis by simp
qed

text \<open>
  C40: \<^verbatim>\<open>schedule\<close> returns exactly if some process can run; if all of them wait it never does,
  which is why the idle process must not be killed.
\<close>

theorem schedule_returns_iff_runnable:
  assumes "sched_ok s q" and "\<exists>p\<in>set (candidates s q). alive s p"
  shows "(\<exists>r. schedule rsp s = Some r) \<longleftrightarrow> (\<exists>p\<in>set (candidates s q). runnable s p)"
proof (cases "rotation s q")
  case None
  then have "all_wait s q" using assms by (simp add: all_wait_def rotation_None)
  with None schedule_stuck show ?thesis by (simp add: rotation_None)
next
  case (Some rq)
  obtain r q' where rq: "rotation s q = Some (r, q')" using Some by (cases rq) simp
  then have "\<exists>r. schedule rsp s = Some r"
    using schedule_simulates_rotation[OF assms(1) rq, of rsp] by (elim exE conjE) (rule exI)
  moreover have "\<exists>p\<in>set (candidates s q). runnable s p"
    using rq rotation_None[of s q] by (cases "\<exists>p\<in>set (candidates s q). runnable s p") simp_all
  ultimately show ?thesis by blast
qed

theorem schedule_returns_iff_runnable_witness: "\<exists>r. schedule 0x4000 (two_blocks WAITING) = Some r"
proof -
  have "\<exists>p\<in>set (candidates (two_blocks WAITING) [0x2000]). alive (two_blocks WAITING) p"
    "\<exists>p\<in>set (candidates (two_blocks WAITING) [0x2000]). runnable (two_blocks WAITING) p"
    by (simp_all add: two_blocks_candidates two_blocks_status)
  with schedule_returns_iff_runnable[OF two_blocks_ok, of WAITING "0x4000"] show ?thesis by blast
qed

text \<open>
  The run queue takes 99 processes. One more makes both ends of the ring meet, which is how an
  empty queue looks: all the queued processes are lost, and nothing reports it.
\<close>

theorem run_queue_overflow:
  assumes "ring_repr (processq s) q" and "pcbs s p = Some x" and "p \<noteq> 0" and "status x \<noteq> FINISHED"
  shows "\<exists>Q. process_run p s = Inr (s\<lparr>processq := Q\<rparr>) \<and>
    ring_repr Q (if length q < 99 then q @ [p] else [])"
proof -
  have "length q < 99 \<or> length q = 99"
    using assms(1) by (auto simp: ring_repr_def split: prod.splits)
  then show ?thesis
    using assms ring_push_full[OF assms(1), of p] run_queue.enq_repr[OF assms(1), of p]
    by (intro exI[of _ "ring_push p (processq s)"])
      (auto simp: process_run_def enqueue_process_def deref_Some)
qed

theorem run_queue_overflow_witness:
  "\<exists>Q. process_run 0x1000 (two_blocks READY\<lparr>processq := (replicate 100 0x2000, 0, 99)\<rparr>) =
       Inr (two_blocks READY\<lparr>processq := Q\<rparr>) \<and> ring_repr Q []"
  using run_queue_overflow[of "two_blocks READY\<lparr>processq := (replicate 100 0x2000, 0, 99)\<rparr>"
      "replicate 99 0x2000" "0x1000" "blank_pcb\<lparr>pid := 1\<rparr>"]
  by (simp add: ring_repr_def two_blocks_pcbs) (simp add: blank_pcb_def)

text \<open>
  \<^verbatim>\<open>_get_process_info\<close> reports the queued processes that are not finished, in the order of
  the queue and at most \<^verbatim>\<open>size\<close> of them, leaves the rest of the array alone and returns their
  number. (The process that asks is not in the queue, so it is not in its own report.)
\<close>

theorem process_report:
  assumes "sched_ok s q" and "names_fit s q buffer" and "0 < sz" and "sz \<le> length buffer"
    and "n = min sz (length (live_blocks s q))"
  shows "get_process_info s buffer (int sz) =
    Inr (n, map2 info_entry (take n (live_blocks s q)) buffer @ drop n buffer)"
  using assms by (rule get_process_info_walk)

theorem process_report_witness:
  "\<exists>buffer'. get_process_info (two_blocks READY)
       (replicate 2 \<lparr>ps_pid = 0, ps_ppid = 0, ps_pname = replicate 50 NUL\<rparr>) (int 2) = Inr (1, buffer') \<and>
     map ps_pid buffer' = [2, 0]"
proof -
  have "cstr (replicate 50 NUL) = []" by (simp add: cstr_def numeral_eq_Suc)
  then have "names_fit (two_blocks READY) [0x2000]
      (replicate 2 \<lparr>ps_pid = 0, ps_ppid = 0, ps_pname = replicate 50 NUL\<rparr>)"
    "map pid (live_blocks (two_blocks READY) [0x2000]) = [2]"
    by (simp_all add: names_fit_def live_blocks_def two_blocks_def blank_pcb_def terminated_def clen_def)
  with process_report[OF two_blocks_ok this(1), of 2 1] show ?thesis
    by (auto simp: numeral_2_eq_2 info_entry_def)
qed

text \<open>
  a process keeps the processor for 16 timer ticks, and the 17th calls \<^verbatim>\<open>schedule\<close>.
\<close>

theorem preempt_slice:
  assumes "time_slice s = 0" and "length rsps = 16"
  shows "(\<forall>k. 0 < k \<and> k \<le> 16 \<longrightarrow>
      ticks (take k rsps) s = Some (Inr (rsps ! (k - 1), s\<lparr>time_slice := int k\<rparr>))) \<and>
    ticks (rsps @ [rsp]) s = schedule rsp s"
proof (intro conjI allI impI)
  fix k :: nat
  assume k: "0 < k \<and> k \<le> 16"
  then have l: "length (take k rsps) = k" using assms(2) by simp
  moreover from this k have "take k rsps \<noteq> []" by (metis length_0_conv less_irrefl)
  moreover from this l k have "last (take k rsps) = rsps ! (k - 1)" by (simp add: last_conv_nth)
  ultimately show "ticks (take k rsps) s = Some (Inr (rsps ! (k - 1), s\<lparr>time_slice := int k\<rparr>))"
    using ticks_count[of "take k rsps" s] k assms(1) by simp
next
  have "s\<lparr>time_slice := 0\<rparr> = s" using assms(1) by simp
  moreover have "ticks (rsps @ [rsp]) s = schedule rsp (s\<lparr>time_slice := 0\<rparr>)"
    using assms by (intro ticks_expire) simp
  ultimately show "ticks (rsps @ [rsp]) s = schedule rsp s" by (simp only:)
qed

theorem preempt_slice_witness:
  "ticks (replicate 16 0x4000 @ [0x5000]) (two_blocks READY) = schedule 0x5000 (two_blocks READY)"
  using preempt_slice[of "two_blocks READY" "replicate 16 0x4000" "0x5000"] by (simp add: two_blocks_def)

text \<open>
  The two halves of \<^verbatim>\<open>enqueue_process\<close> for a process that has not ended: the store into the slot at the tail, and the
  step of the tail. An interrupt can come between them.
\<close>

definition enqueue_store :: "u64 \<Rightarrow> sched \<Rightarrow> sched" where
  "enqueue_store p s = (case processq s of (arr, hd0, tl0) \<Rightarrow> s\<lparr>processq := (arr[tl0 := p], hd0, tl0)\<rparr>)"

definition enqueue_advance :: "sched \<Rightarrow> sched" where
  "enqueue_advance s =
     (case processq s of (arr, hd0, tl0) \<Rightarrow> s\<lparr>processq := (arr, hd0, (tl0 + 1) mod PROCESS_QUEUE_SIZE)\<rparr>)"

lemma enqueue_store_fields [simp]:
  "pcbs (enqueue_store c s) = pcbs s" "active_pcb (enqueue_store c s) = active_pcb s" "time_slice (enqueue_store c s) = time_slice s"
  by (simp_all add: enqueue_store_def split: prod.split)

lemma enqueue_process_halves:
  assumes "pcbs s c = Some y" and "c \<noteq> 0" and "status y \<noteq> FINISHED"
  shows "enqueue_process c s = Inr (enqueue_advance (enqueue_store c s))"
  using assms by (simp add: enqueue_process_def deref_Some enqueue_store_def enqueue_advance_def ring_push_def split: prod.split)

text \<open>The next context switch puts the running process into the same slot.\<close>

lemma schedule_overwrites:
  assumes "alive s (active_pcb s)" and "active_pcb s \<noteq> 0"
  shows "schedule rsp (enqueue_store c s) = schedule rsp s"
proof -
  obtain x where x: "pcbs s (active_pcb s) = Some x" "status x \<noteq> FINISHED"
    using assms(1) by (auto simp: has_status_def split: option.splits)
  obtain arr h t where q: "processq s = (arr, h, t)" by (cases "processq s")
  let ?x = "x\<lparr>kernel_sp := rsp\<rparr>"
  have "enqueue_process (active_pcb s) (put_pcb (active_pcb s) ?x (enqueue_store c s)) =
      enqueue_process (active_pcb s) (put_pcb (active_pcb s) ?x s)"
    using x assms(2) by (simp add: enqueue_process_def deref_def put_pcb_def enqueue_store_def ring_push_def q)
  then have "get_next_context (put_pcb (active_pcb s) ?x (enqueue_store c s)) = get_next_context (put_pcb (active_pcb s) ?x s)"
    by (subst (1 2) get_next_context.simps) (simp add: put_pcb_def)
  then show ?thesis
    using x assms(2) by (simp add: schedule_def deref_Some)
qed

text \<open>
  C5: A process is lost if the timer comes in between the two halves of \<^verbatim>\<open>enqueue_process\<close>, as it can in \<^verbatim>\<open>do_fork\<close> because the
  handlers of system calls run with interrupts on, and the time slice of the running process (which can run) is used up: the context switch stores the running process into the same slot, so
  everything goes on as if the store had never been done. The new process \<open>c\<close> has not ended, but it neither has the processor
  nor is in the queue.
\<close>

theorem interrupted_enqueue_loses:
  assumes "sched_ok s q" and "pcbs s c = Some y" and "c \<noteq> 0" and "status y \<noteq> FINISHED" and "c \<notin> set (active_pcb s # q)"
    and "runnable s (active_pcb s)" and "TIME_SLICE_LIMIT \<le> time_slice s"
  shows "enqueue_process c s = Inr (enqueue_advance (enqueue_store c s)) \<and>
    preempt rsp (enqueue_store c s) = preempt rsp s \<and>
    (\<exists>sp s' q'. preempt rsp (enqueue_store c s) = Some (Inr (sp, s')) \<and> sched_ok s' q' \<and> alive s' c \<and>
      c \<notin> set (active_pcb s' # q'))"
proof -
  let ?s = "s\<lparr>time_slice := 0\<rparr>"
  have a: "alive s (active_pcb s)" "active_pcb s \<noteq> 0"
    using assms(1) runnable_alive[OF assms(6)] by (simp_all add: sched_ok_def blocks_ok_def)
  have "enqueue_store c ?s = (enqueue_store c s)\<lparr>time_slice := 0\<rparr>"
    by (simp add: enqueue_store_def split: prod.split)
  then have p: "preempt rsp s = schedule rsp ?s" "preempt rsp (enqueue_store c s) = schedule rsp (enqueue_store c ?s)"
    using assms(7) by (simp_all add: preempt_def Let_def)
  have "schedule rsp (enqueue_store c ?s) = schedule rsp ?s"
    using a by (intro schedule_overwrites) (simp_all add: has_status_def)
  with p have e: "preempt rsp (enqueue_store c s) = preempt rsp s" by simp
  have ok: "sched_ok ?s q" using assms(1) by (simp add: sched_ok_def blocks_ok_def)
  have run: "runnable ?s (active_pcb ?s)" using assms(6) by (simp add: has_status_def)
  then have "active_pcb ?s \<in> set (candidates ?s q)" using runnable_alive by (simp add: candidates_iff)
  with run obtain r q' where rq: "rotation ?s q = Some (r, q')" using rotation_None[of ?s q] by (cases "rotation ?s q") auto
  from schedule_simulates_rotation[OF ok rq, of rsp] obtain z :: pcb and s' where
    s': "schedule rsp ?s = Some (Inr (kernel_sp z, s'))" "sched_ok s' q'" "pcbs s' = pcbs (saved rsp ?s)" "active_pcb s' = r" by blast
  have "set (r # q') \<subseteq> set (candidates ?s q)" using rq by (auto simp: rotation_split)
  moreover have "set (candidates ?s q) \<subseteq> set (active_pcb s # q)" by (auto simp: candidates_iff)
  ultimately have "c \<notin> set (active_pcb s' # q')" using assms(5) unfolding s'(4) by blast
  moreover have "alive s' c"
    using has_status_pcbs[OF s'(3)] not_finished_alive[OF assms(2)] assms(4) by (simp add: has_status_def)
  ultimately show ?thesis using enqueue_process_halves[OF assms(2-4)] e p(1) s'(1,2) by auto
qed

theorem interrupted_enqueue_loses_witness:
  "\<exists>s c sp s' q'. enqueue_process c s = Inr (enqueue_advance (enqueue_store c s)) \<and>
     preempt 0x4000 (enqueue_store c s) = Some (Inr (sp, s')) \<and> sched_ok s' q' \<and> alive s' c \<and> c \<notin> set (active_pcb s' # q')"
proof -
  let ?s = "put_pcb 0x3000 (blank_pcb\<lparr>pid := 3, status := READY\<rparr>) (two_blocks READY)\<lparr>time_slice := 16\<rparr>"
  have "sched_ok ?s [0x2000]" using sched_ok_put[OF two_blocks_ok] by (simp add: sched_ok_def blocks_ok_def)
  from interrupted_enqueue_loses[OF this, of "0x3000" _ "0x4000"] show ?thesis
    by (fastforce simp: put_pcb_def two_blocks_def has_status_def blank_pcb_def)
qed

end
