(* ===== verification/Paging.thy ===== *)
theory Paging
  imports Page_Table Page_List Process
begin

text \<open>
  Virtual memory, the second half of \<^verbatim>\<open>sys/memory_helpers.c\<close>: mapping pages at boot on physical
  addresses and afterwards through the recursive entry 510 of the page table, new page tables,
  \<^verbatim>\<open>kmalloc\<close>, and the marking of pages for copy on write. The page lists are those of \<open>Page_List\<close>;
  they are kept apart from the bytes of memory, although the array lies in it.
\<close>

section \<open>State\<close>

record mm =
  mem :: ram
  lists :: page_lists
  available_virt_mem :: u64
  kmalloc_page :: u64
  kmalloc_index :: u64
  temp_page :: "u8 list"

text \<open>The virtual addresses of the active page table, and of the one that its entry 509 points to.\<close>

abbreviation (input) ACTIVE_PML4 :: u64 where "ACTIVE_PML4 \<equiv> 0xffffff7fbfdfe000"
abbreviation (input) OTHER_PML4 :: u64 where "OTHER_PML4 \<equiv> 0xffffff7fbfdfd000"
abbreviation (input) KERNEL_MAPPING :: u64 where "KERNEL_MAPPING \<equiv> 0xffffffff80000000"
abbreviation (input) USER_PAGE :: u64 where "USER_PAGE \<equiv> PRESENT OR READ_WRITE OR USER_ACCESSIBLE"

section \<open>Operations\<close>

text \<open>\<^verbatim>\<open>sys/vma.c\<close> leaves the registration of pages for later.\<close>

definition vma_register_page :: "u64 \<Rightarrow> i32 \<Rightarrow> mm \<Rightarrow> mm" where
  "vma_register_page page pid0 s = s"

definition vma_free_pages :: "i32 \<Rightarrow> mm \<Rightarrow> mm" where
  "vma_free_pages pid0 s = s"

text \<open>\<^verbatim>\<open>get_free_page()->base\<close>.\<close>

definition take_page :: "mm \<Rightarrow> (u64 \<times> mm) result" where
  "take_page s =
     (case get_free_page (lists s) of
        (None, l) \<Rightarrow> Inl Null_Deref
      | (Some i, l) \<Rightarrow> Inr (pg_base (page_list l i), s\<lparr>lists := l\<rparr>))"

definition zero_out :: "space \<Rightarrow> u64 \<Rightarrow> ram \<Rightarrow> ram result" where
  "zero_out sp address m = for_up 0 4096 (\<lambda>i. vwr8 sp (address + of_nat i) 0) m"

definition copy_kernel_pml4 :: "space \<Rightarrow> u64 \<Rightarrow> ram \<Rightarrow> ram result" where
  "copy_kernel_pml4 sp prog_page_table m =
     for_up 0 512
       (\<lambda>i m. bindr (vrd64 sp (slot ACTIVE_PML4 (of_nat i)) m)
                (\<lambda>e. vwr64 sp (slot prog_page_table (of_nat i)) e m)) m"

definition get_active_pml4 :: "space \<Rightarrow> ram \<Rightarrow> u64 result" where
  "get_active_pml4 sp m = vrd64 sp (slot ACTIVE_PML4 510) m"

text \<open>The address of the next table through the recursive entry.\<close>

definition next_table :: "u64 \<Rightarrow> u64 \<Rightarrow> u64" where
  "next_table table index = push_bit 9 (table OR 0xffffff8000000000 OR push_bit 3 index)"

function map_page_loop ::
  "space \<Rightarrow> u64 \<Rightarrow> i32 \<Rightarrow> nat \<Rightarrow> u64 \<Rightarrow> bool \<Rightarrow> mm \<Rightarrow> (u64 \<times> mm) result" where
  "map_page_loop sp virt pid0 lvl table new_page_flag s =
     (if lvl > 1 then
        (let index = idx lvl virt
         in bindr (if new_page_flag then zero_out sp table (mem s) else Inr (mem s)) (\<lambda>m.
            bindr (vrd64 sp (slot table index) m) (\<lambda>e.
            bindr (if e = 0
                   then bindr (take_page (s\<lparr>mem := m\<rparr>)) (\<lambda>(base, s1).
                          let s2 = vma_register_page base pid0 s1
                          in bindr (vwr64 sp (slot table index) (base OR USER_PAGE) (mem s2)) (\<lambda>m'.
                               Inr (True, s2\<lparr>mem := m'\<rparr>)))
                   else Inr (False, s\<lparr>mem := m\<rparr>)) (\<lambda>(flag, s').
              map_page_loop sp virt pid0 (lvl - 1) (next_table table index) flag s'))))
      else Inr (table, s))"
  by pat_completeness auto
termination by (relation "measure (\<lambda>(sp, virt, pid0, lvl, table, flag, s). lvl)") auto

declare map_page_loop.simps [simp del]

definition map_page :: "space \<Rightarrow> u64 \<Rightarrow> u64 \<Rightarrow> u64 \<Rightarrow> i32 \<Rightarrow> mm \<Rightarrow> (u64 \<times> mm) result" where
  "map_page sp phys virt flags pid0 s =
     bindr (map_page_loop sp virt pid0 4 ACTIVE_PML4 False s) (\<lambda>(table, s').
       bindr (vwr64 sp (slot table (idx 1 virt)) (frame phys OR flags) (mem s')) (\<lambda>m.
         Inr (virt + PAGESIZE, s'\<lparr>mem := m\<rparr>)))"

text \<open>\<open>pid0\<close> is that of the active process.\<close>

definition add_physical_page_in :: "space \<Rightarrow> i32 \<Rightarrow> u64 \<Rightarrow> mm \<Rightarrow> mm result" where
  "add_physical_page_in sp pid0 virt s =
     bindr (take_page s) (\<lambda>(base, s1).
       bindr (map_page sp base (virt AND 0xfffffffffffff000) USER_PAGE pid0 (vma_register_page base pid0 s1))
         (\<lambda>(_, s2). Inr s2))"

definition get_new_page_v :: "space \<Rightarrow> i32 \<Rightarrow> mm \<Rightarrow> (u64 \<times> mm) result" where
  "get_new_page_v sp pid0 s =
     bindr (take_page s) (\<lambda>(base, s1).
       let temp = available_virt_mem s1
       in bindr (map_page sp base temp USER_PAGE pid0 (vma_register_page base pid0 s1)) (\<lambda>(next_virt, s2).
            Inr (temp, s2\<lparr>available_virt_mem := next_virt\<rparr>)))"

text \<open>\<^verbatim>\<open>kmalloc\<close> returns \<^verbatim>\<open>NULL\<close>, the address 0, for a block larger than a page.\<close>

definition kmalloc :: "space \<Rightarrow> u64 \<Rightarrow> mm \<Rightarrow> (u64 \<times> mm) result" where
  "kmalloc sp no_bytes s =
     (if no_bytes > PAGESIZE then Inr (0, s)
      else bindr
        (if kmalloc_page s = 0 \<or> kmalloc_index s + no_bytes \<ge> PAGESIZE
         then bindr (take_page s) (\<lambda>(base, s1).
                let s2 = s1\<lparr>kmalloc_page := available_virt_mem s1\<rparr>
                in bindr (map_page sp base (available_virt_mem s2) (PRESENT OR READ_WRITE) 0 s2) (\<lambda>(next_virt, s3).
                     Inr (s3\<lparr>available_virt_mem := next_virt, kmalloc_index := 0\<rparr>)))
         else Inr s)
        (\<lambda>s'. Inr (kmalloc_page s' + kmalloc_index s', s'\<lparr>kmalloc_index := kmalloc_index s' + no_bytes\<rparr>)))"

section \<open>Boot\<close>

text \<open>\<^verbatim>\<open>lvl\<close> counts from 4 down to 1.\<close>

function k_map_v :: "space \<Rightarrow> u64 \<Rightarrow> u64 \<Rightarrow> u64 \<Rightarrow> nat \<Rightarrow> mm \<Rightarrow> mm result" where
  "k_map_v sp phys virt table lvl s =
     (let index = idx lvl virt
      in if lvl \<le> 1
         then bindr (vwr64 sp (slot table index) (frame phys OR PRESENT OR READ_WRITE) (mem s)) (\<lambda>m.
                Inr (s\<lparr>mem := m\<rparr>))
         else bindr (vrd64 sp (slot table index) (mem s)) (\<lambda>e.
              bindr (if e = 0
                     then bindr (take_page s) (\<lambda>(base, s1).
                          bindr (zero_out sp base (mem s1)) (\<lambda>m.
                          bindr (vwr64 sp (slot table index) (base OR USER_PAGE) m) (\<lambda>m'. Inr (s1\<lparr>mem := m'\<rparr>))))
                     else Inr s) (\<lambda>s'.
              bindr (vrd64 sp (slot table index) (mem s')) (\<lambda>e'.
                k_map_v sp phys virt (frame e') (lvl - 1) s'))))"
  by pat_completeness auto
termination by (relation "measure (\<lambda>(sp, phys, virt, table, lvl, s). lvl)") auto

declare k_map_v.simps [simp del]

text \<open>The loop need not end if \<open>base\<close> wraps around below \<open>end\<close>.\<close>

partial_function (option) k_mem_map_v ::
  "space \<Rightarrow> u64 \<Rightarrow> u64 \<Rightarrow> u64 \<Rightarrow> u64 \<Rightarrow> mm \<Rightarrow> (u64 \<times> mm) result option" where
  "k_mem_map_v sp base lim res table s =
     (if base < lim
      then (case k_map_v sp base res table 4 s of
              Inl e \<Rightarrow> Some (Inl e)
            | Inr s' \<Rightarrow> k_mem_map_v sp (base + PAGESIZE) lim (res + PAGESIZE) table s')
      else Some (Inr (res, s)))"

text \<open>
  \<^verbatim>\<open>setup_paging\<close>: the result is the new \<^verbatim>\<open>cr3\<close>, the argument of \<^verbatim>\<open>set_display_address\<close>
  and the state. The message at the end is left out.
\<close>

definition setup_paging ::
  "u64 \<Rightarrow> u64 \<Rightarrow> u64 \<Rightarrow> u64 \<Rightarrow> u64 \<Rightarrow> mm \<Rightarrow> (u64 \<times> u64 \<times> mm) result option" where
  "setup_paging physbase physfree displaybase displayfree kernel_virtual s =
     Option.bind (filter_out_pages physbase physfree (lists s)) (\<lambda>r.
       case r of Inl e \<Rightarrow> Some (Inl e) | Inr l1 \<Rightarrow>
     Option.bind (filter_out_pages (0xb8000 - PAGESIZE) 0xbb200 l1) (\<lambda>r.
       case r of Inl e \<Rightarrow> Some (Inl e) | Inr l2 \<Rightarrow>
     (case bindr (take_page (s\<lparr>lists := l2\<rparr>)) (\<lambda>(kernel_pml4, s1).
             bindr (zero_out Identity kernel_pml4 (mem s1)) (\<lambda>m.
             bindr (vwr64 Identity (slot kernel_pml4 0x1fe) (kernel_pml4 OR USER_PAGE) m) (\<lambda>m'.
               Inr (kernel_pml4, s1\<lparr>mem := m'\<rparr>)))) of
        Inl e \<Rightarrow> Some (Inl e)
      | Inr (kernel_pml4, s2) \<Rightarrow>
     Option.bind (k_mem_map_v Identity physbase physfree kernel_virtual kernel_pml4 s2) (\<lambda>r.
       case r of Inl e \<Rightarrow> Some (Inl e) | Inr (kernel_vrt, s3) \<Rightarrow>
     Option.bind (k_mem_map_v Identity displaybase displayfree kernel_vrt kernel_pml4 s3) (\<lambda>r.
       case r of Inl e \<Rightarrow> Some (Inl e) | Inr (kernel_vrt', s4) \<Rightarrow>
         Some (Inr (kernel_pml4, kernel_vrt OR KERNEL_MAPPING, s4\<lparr>available_virt_mem := kernel_vrt'\<rparr>)))))))"

section \<open>New page tables\<close>

definition get_new_page_table :: "space \<Rightarrow> i32 \<Rightarrow> mm \<Rightarrow> (u64 \<times> mm) result" where
  "get_new_page_table sp pid0 s =
     bindr (take_page s) (\<lambda>(base, s1).
       let temp = available_virt_mem s1
       in bindr (map_page sp base temp USER_PAGE pid0 (vma_register_page base pid0 s1)) (\<lambda>(next_virt, s2).
          let s3 = s2\<lparr>available_virt_mem := next_virt\<rparr>
          in bindr (zero_out sp temp (mem s3)) (\<lambda>m1.
             bindr (copy_kernel_pml4 sp temp m1) (\<lambda>m2.
             bindr (vwr64 sp (slot temp 510) (base OR USER_PAGE) m2) (\<lambda>m3.
               Inr (base, s3\<lparr>mem := m3\<rparr>))))))"

definition mark_fork_cross_entry :: "space \<Rightarrow> u64 \<Rightarrow> u64 \<Rightarrow> ram \<Rightarrow> ram result" where
  "mark_fork_cross_entry sp parent_pml4 child_pml4 m =
     bindr (vwr64 sp (slot ACTIVE_PML4 509) (child_pml4 OR READ_WRITE OR PRESENT OR USER_ACCESSIBLE) m) (\<lambda>m1.
       vwr64 sp (slot OTHER_PML4 509) (parent_pml4 OR READ_WRITE OR PRESENT OR USER_ACCESSIBLE) m1)"

section \<open>Copy on write\<close>

function do_mark_COW :: "space \<Rightarrow> u64 \<Rightarrow> u64 \<Rightarrow> i32 \<Rightarrow> nat \<Rightarrow> mm \<Rightarrow> mm result" where
  "do_mark_COW sp table_p table_c pid0 lvl s =
     (if lvl \<le> 1
      then for_up 0 512 (\<lambda>i s.
             bindr (vrd64 sp (slot table_p (of_nat i)) (mem s)) (\<lambda>e.
               if e = 0 then Inr s
               else bindr (vwr64 sp (slot table_p (of_nat i)) (e AND NOT READ_WRITE) (mem s)) (\<lambda>m1.
                    bindr (vrd64 sp (slot table_p (of_nat i)) m1) (\<lambda>e1.
                    bindr (vwr64 sp (slot table_p (of_nat i)) (e1 OR COW) m1) (\<lambda>m2.
                    bindr (vrd64 sp (slot table_p (of_nat i)) m2) (\<lambda>e2.
                    bindr (vwr64 sp (slot table_c (of_nat i)) e2 m2) (\<lambda>m3. Inr (s\<lparr>mem := m3\<rparr>)))))))) s
      else for_up 0 (if lvl = 4 then 509 else 512) (\<lambda>i s.
             bindr (vrd64 sp (slot table_p (of_nat i)) (mem s)) (\<lambda>e.
               if e = 0 then Inr s
               else bindr (take_page s) (\<lambda>(base, s1).
                    let s2 = vma_register_page base pid0 s1
                    in bindr (vwr64 sp (slot table_c (of_nat i)) (base OR USER_PAGE) (mem s2)) (\<lambda>m.
                         do_mark_COW sp (next_table table_p (of_nat i)) (next_table table_c (of_nat i)) pid0 (lvl - 1)
                           (s2\<lparr>mem := m\<rparr>))))) s)"
  by pat_completeness auto
termination by (relation "measure (\<lambda>(sp, tp, tc, pid0, lvl, s). lvl)") auto

declare do_mark_COW.simps [simp del]

definition mark_COW :: "space \<Rightarrow> i32 \<Rightarrow> mm \<Rightarrow> mm result" where
  "mark_COW sp pid0 s = do_mark_COW sp ACTIVE_PML4 OTHER_PML4 pid0 4 s"

definition cross_off_COW :: "space \<Rightarrow> u64 \<Rightarrow> ram \<Rightarrow> ram result" where
  "cross_off_COW sp virt m =
     bindr (vrd64 sp (slot ACTIVE_PML4 509) m) (\<lambda>e.
       if e = 0 then Inr m
       else (let virt1 = ((virt AND 0xfffffffffffff000) OR 0xffff000000000000) AND 0xfffdffffffffffff;
                 ptr = drop_bit 9 virt1 OR 0xffff000000000000
             in bindr (vrd64 sp ptr m) (\<lambda>temp. vwr64 sp ptr ((temp AND NOT COW) OR READ_WRITE) m)))"

text \<open>
  \<^verbatim>\<open>map_page_COW\<close> copies the page to \<^verbatim>\<open>temp_page\<close>, replaces its entry, loads
  \<^verbatim>\<open>cr3\<close> with \<open>current_table\<close> and copies the page back; the result has that \<^verbatim>\<open>cr3\<close>.
\<close>

definition map_page_COW :: "space \<Rightarrow> u64 \<Rightarrow> u64 \<Rightarrow> u64 \<Rightarrow> u64 \<Rightarrow> mm \<Rightarrow> (space \<times> mm) result" where
  "map_page_COW sp phys v_addr flags current_table s =
     (let virt = v_addr AND 0xfffffffffffff000
      in bindr (for_up 0 4096 (\<lambda>i t. bindr (vrd8 sp (virt + of_nat i) (mem s)) (\<lambda>b.
                  if i < length t then Inr (t[i := b]) else Inl Out_Of_Bounds)) (temp_page s)) (\<lambda>t.
         let virt1 = (virt OR 0xffff000000000000) AND 0xfffeffffffffffff;
             ptr = drop_bit 9 virt1 OR 0xffff000000000000
         in bindr (vwr64 sp ptr (phys OR flags) (mem s)) (\<lambda>m1.
            let sp' = Paged current_table
            in bindr (for_up 0 4096 (\<lambda>i m. if i < length t then vwr8 sp' (virt + of_nat i) (t ! i) m else Inl Out_Of_Bounds) m1) (\<lambda>m2.
                 Inr (sp', s\<lparr>mem := m2, temp_page := t\<rparr>)))))"

definition do_COW :: "space \<Rightarrow> pcb \<Rightarrow> u64 \<Rightarrow> mm \<Rightarrow> (space \<times> mm) result" where
  "do_COW sp proc v_addr s =
     bindr (take_page s) (\<lambda>(base, s1).
       map_page_COW sp base v_addr (USER_ACCESSIBLE OR READ_WRITE OR PRESENT) (pml4 proc)
         (vma_register_page base (pid proc) s1))"

text \<open>\<^verbatim>\<open>handle_COW\<close> looks for the child or the parent of the active process in the run queue.\<close>

definition handle_COW :: "space \<Rightarrow> sched \<Rightarrow> u64 \<Rightarrow> mm \<Rightarrow> (space \<times> mm) result" where
  "handle_COW sp sch address s =
     bindr (deref sch (active_pcb sch)) (\<lambda>proc.
       bindr (if ppid proc = 0 then find_pcb_by_ppid (pid proc) sch else find_pcb_by_pid (ppid proc) sch) (\<lambda>partner.
         if partner = 0
         then bindr (cross_off_COW sp address (mem s)) (\<lambda>m. Inr (sp, s\<lparr>mem := m\<rparr>))
         else bindr (do_COW sp proc address s) (\<lambda>(sp', s1).
                bindr (cross_off_COW sp' address (mem s1)) (\<lambda>m. Inr (sp', s1\<lparr>mem := m\<rparr>)))))"

section \<open>Pages from the free list\<close>

definition free_frames :: "mm \<Rightarrow> u64 list \<Rightarrow> bool" where
  "free_frames s fs =
     (\<exists>ix us. pool_inv (lists s) ix us \<and> fs = map (\<lambda>i. pg_base (page_list (lists s) i)) ix)"

lemma free_frames_mem [simp]:
  "free_frames (s\<lparr>mem := m\<rparr>) fs = free_frames s fs"
  "free_frames (s\<lparr>available_virt_mem := v\<rparr>) fs = free_frames s fs"
  "free_frames (s\<lparr>kmalloc_page := v\<rparr>) fs = free_frames s fs"
  "free_frames (s\<lparr>kmalloc_index := v\<rparr>) fs = free_frames s fs"
  "free_frames (s\<lparr>temp_page := t\<rparr>) fs = free_frames s fs"
  by (simp_all add: free_frames_def)

lemma take_page_free:
  assumes "free_frames s (f # fs)"
  shows "\<exists>l. take_page s = Inr (f, s\<lparr>lists := l\<rparr>) \<and> free_frames (s\<lparr>lists := l\<rparr>) fs"
proof -
  from assms obtain ix us where ix: "pool_inv (lists s) ix us" "f # fs = map (\<lambda>i. pg_base (page_list (lists s) i)) ix"
    by (auto simp: free_frames_def)
  then obtain i ix' where i: "ix = i # ix'" by (cases ix) auto
  from get_free_page_pool[OF ix(1)[unfolded i]] obtain l where
    l: "get_free_page (lists s) = (Some i, l)" "pool_inv l ix' (us @ [i])" by blast
  have b: "pg_base (page_list l j) = pg_base (page_list (lists s) j)" for j
    using get_free_page_base[of "lists s" j] l(1) by simp
  from l(2) have "free_frames (s\<lparr>lists := l\<rparr>) fs"
    using ix(2) i b by (auto simp: free_frames_def)
  moreover have "take_page s = Inr (f, s\<lparr>lists := l\<rparr>)" using l(1) ix(2) i b by (simp add: take_page_def)
  ultimately show ?thesis by blast
qed

section \<open>Stores to a page through its virtual address\<close>

lemma store_loop:
  assumes "is_frame f" and "n \<le> 4096"
    and "\<And>k m'. k < n \<Longrightarrow> (\<And>x. \<not> unat (x - f) < 4096 \<Longrightarrow> m' x = m x) \<Longrightarrow>
      phys_of m' sp (a + of_nat k) = Inr (f + of_nat k)"
  shows "for_up 0 n (\<lambda>i. vwr8 sp (a + of_nat i) (g i)) m =
    Inr (\<lambda>x. if unat (x - f) < n then g (unat (x - f)) else m x)"
proof -
  let ?P = "\<lambda>i m'. m' = (\<lambda>x. if unat (x - f) < i then g (unat (x - f)) else m x)"
  have "\<exists>m'. for_up 0 n (\<lambda>i. vwr8 sp (a + of_nat i) (g i)) m = Inr m' \<and> ?P n m'"
  proof (rule for_up_inv[where P = ?P])
    show "?P 0 m" by simp
    fix i m'
    assume i: "i < n" "?P i m'"
    have "phys_of m' sp (a + of_nat i) = Inr (f + of_nat i)"
      using i assms(2) by (intro assms(3)) auto
    then have st: "vwr8 sp (a + of_nat i) (g i) m' = Inr (m'(f + of_nat i := g i))" by (simp add: vwr8_def)
    have "x = f + of_nat i \<longleftrightarrow> unat (x - f) = i" for x :: u64
    proof
      assume "x = f + of_nat i"
      moreover have "unat (of_nat i :: u64) = i" using i(1) assms(2) by (intro unat_of_nat64) simp
      ultimately show "unat (x - f) = i" by simp
    next
      assume "unat (x - f) = i"
      then have "x - f = of_nat i" by auto
      then show "x = f + of_nat i" by (simp add: algebra_simps)
    qed
    then have "?P (Suc i) (m'(f + of_nat i := g i))"
      using i(2) by (auto simp: fun_eq_iff less_Suc_eq)
    with st show "\<exists>t'. vwr8 sp (a + of_nat i) (g i) m' = Inr t' \<and> ?P (Suc i) t'" by blast
  qed simp
  then show ?thesis by auto
qed

lemma zero_out_identity: "is_frame f \<Longrightarrow> zero_out Identity f m = Inr (zero_page f m)"
  using store_loop[of f 4096 m Identity f "\<lambda>_. 0"] by (simp add: zero_out_def zero_page_def phys_of_def)

section \<open>The recursive entry\<close>

lemma bit_next_table:
  "bit (next_table tb i) n \<longleftrightarrow> 9 \<le> n \<and> n < 64 \<and> (bit tb (n - 9) \<or> 48 \<le> n \<or> (12 \<le> n \<and> bit i (n - 12)))"
  by (auto simp: next_table_def masks bit_simps)

lemma bit_small_word: "i < 512 \<Longrightarrow> bit (i :: u64) n \<Longrightarrow> n < 9"
proof -
  assume i: "i < 512" "bit i n"
  have "take_bit 9 i = i" using i(1) by (simp add: take_bit_eq_mod word_less_nat_alt word_unat_eq_iff unat_mod_distrib)
  then show "n < 9" using i(2) by (metis bit_take_bit_iff)
qed

lemma next_table_idx:
  assumes "\<And>n. n < 12 \<Longrightarrow> \<not> bit tb n" and "i < 512"
  shows "idx 4 (next_table tb i) = idx 3 tb" "idx 3 (next_table tb i) = idx 2 tb"
    "idx 2 (next_table tb i) = idx 1 tb" "idx 1 (next_table tb i) = i"
    "n < 12 \<Longrightarrow> \<not> bit (next_table tb i) n" "idx 3 tb = 510 \<Longrightarrow> canonical (next_table tb i)"
proof -
  note s = bit_small_word[OF assms(2)]
  show "idx 4 (next_table tb i) = idx 3 tb" "idx 3 (next_table tb i) = idx 2 tb" "idx 2 (next_table tb i) = idx 1 tb"
    by (rule bit_eqI; auto simp: bit_idx bit_next_table dest: s)+
  show "idx 1 (next_table tb i) = i"
    using assms(1) by (intro bit_eqI) (auto simp: bit_idx bit_next_table dest: s)
  show "n < 12 \<Longrightarrow> \<not> bit (next_table tb i) n" using assms(1) by (auto simp: bit_next_table)
  assume "idx 3 tb = 510"
  then have "bit (idx 3 tb) 8" by simp
  then have "bit tb 38" by (simp add: bit_idx)
  then have "bit (next_table tb i) n" if "47 \<le> n" "n < 64" for n
    using that by (cases "n = 47") (auto simp: bit_next_table)
  then have "drop_bit 47 (next_table tb i) = mask 17"
    by (intro bit_eqI) (auto simp: bit_drop_bit_eq bit_mask_iff dest: bit_imp_le_length)
  then show "canonical (next_table tb i)" by (simp add: canonical_def mask_eq_exp_minus_1)
qed

text \<open>The address of the table that \<open>virt\<close> reaches after \<open>k\<close> steps, and the walk that the processor does for it.\<close>

fun tab :: "u64 \<Rightarrow> nat \<Rightarrow> u64" where
  "tab virt 0 = ACTIVE_PML4"
| "tab virt (Suc k) = next_table (tab virt k) (idx (4 - k) virt)"

definition self_mapped :: "ram \<Rightarrow> u64 \<Rightarrow> bool" where
  "self_mapped m p = (is_frame p \<and> present (rd64 m (slot p 510)) \<and> frame (rd64 m (slot p 510)) = p)"

lemma active_pml4:
  "n < 12 \<Longrightarrow> \<not> bit ACTIVE_PML4 n" "canonical ACTIVE_PML4" "l \<in> {1, 2, 3, 4} \<Longrightarrow> idx l ACTIVE_PML4 = 510"
proof -
  have "ACTIVE_PML4 = push_bit 12 0xffffff7fbfdfe" by simp
  then show "n < 12 \<Longrightarrow> \<not> bit ACTIVE_PML4 n" by (simp only: bit_push_bit_iff) simp
  show "canonical ACTIVE_PML4" by (simp add: canonical_def drop_bit_eq_div)
  show "l \<in> {1, 2, 3, 4} \<Longrightarrow> idx l ACTIVE_PML4 = 510" by (auto simp: idx_def drop_bit_eq_div)
qed

lemma tab_low: "n < 12 \<Longrightarrow> \<not> bit (tab virt k) n"
  by (induction k arbitrary: n) (use active_pml4(1) next_table_idx(5) in auto)

lemma tab_idx:
  "k \<le> 3 \<Longrightarrow> j < 4 \<Longrightarrow> idx (4 - j) (tab virt k) = (if j + k < 4 then 510 else idx (4 - (j + k - 4)) virt)"
proof (induction k arbitrary: j)
  case 0
  then have "4 - j \<in> {1, 2, 3, 4}" by auto
  then show ?case using active_pml4(3)[of "4 - j"] 0 by simp
next
  case (Suc k)
  note n = next_table_idx[OF tab_low[of _ virt k] idx_less[of "4 - k" virt]]
  consider "j = 0" | "j = 1" | "j = 2" | "j = 3" using Suc.prems by linarith
  then show ?case
  proof cases
    case 1
    then show ?thesis using n(1) Suc.IH[of 1] Suc.prems by simp
  next
    case 2
    then show ?thesis using n(2) Suc.IH[of 2] Suc.prems by simp
  next
    case 3
    then show ?thesis using n(3) Suc.IH[of 3] Suc.prems by simp
  next
    case 4
    then show ?thesis using n(4) Suc.prems by (simp add: numeral_eq_Suc)
  qed
qed

lemma tab_canonical: "k \<le> 3 \<Longrightarrow> canonical (tab virt k)"
proof (cases k)
  case 0
  then show ?thesis using active_pml4(2) by simp
next
  case (Suc l)
  assume "k \<le> 3"
  then have "idx 3 (tab virt l) = 510" using tab_idx[of l 1 virt] Suc by simp
  then show ?thesis using next_table_idx(6)[OF tab_low idx_less] Suc by simp
qed

lemma tab_walk:
  assumes "self_mapped m p" and "k \<le> 3" and "j \<le> 4"
  shows "pwalk m p (tab virt k) j = pwalk m p virt (j + k - 4)"
  using assms(3)
proof (induction j)
  case 0
  then show ?case using assms(2) by simp
next
  case (Suc j)
  note IH = Suc.IH[OF Suc_leD[OF Suc.prems]]
  show ?case
  proof (cases "j + k < 4")
    case True
    then have "pwalk m p (tab virt k) j = Some p" using IH by simp
    from pwalk_step[OF this] show ?thesis
      using tab_idx[OF assms(2), of j virt] Suc.prems True assms(1) by (simp add: self_mapped_def present_def)
  next
    case False
    then have e: "Suc j + k - 4 = Suc (j + k - 4)" by simp
    have "idx (4 - j) (tab virt k) = idx (4 - (j + k - 4)) virt"
      using tab_idx[OF assms(2), of j virt] Suc.prems False by (simp only: if_False)
    then show ?thesis unfolding e pwalk.simps IH by (simp only:)
  qed
qed

lemma phys_of_tab:
  assumes "self_mapped m p" and "k \<le> 3" and "pwalk m p virt k = Some t" and "i < 4096"
  shows "phys_of m (Paged p) (tab virt k + of_nat i) = Inr (t + of_nat i)"
proof -
  have "frame p = p" using assms(1) by (simp add: self_mapped_def is_frame_def)
  moreover have "pwalk m p (tab virt k) 4 = Some t" using tab_walk[OF assms(1,2), of 4 virt] assms(3) by simp
  ultimately show ?thesis
    using translate_page[OF tab_low assms(4) tab_canonical[OF assms(2)], of m p virt t] by (simp add: phys_of_def)
qed

lemma phys_of_tab_slot:
  assumes "self_mapped m p" and "k \<le> 3" and "pwalk m p virt k = Some t" and "i < 512"
  shows "phys_of m (Paged p) (slot (tab virt k) i) = Inr (slot t i)"
  using phys_of_tab[OF assms(1-3) slot_nat(2)[OF assms(4)]]
  unfolding slot_nat(1)[OF assms(4), of "tab virt k"] slot_nat(1)[OF assms(4), of t] .

lemma tab_access:
  assumes "self_mapped m p" and "k \<le> 3" and "pwalk m p virt k = Some t" and "i < 512"
  shows "vrd64 (Paged p) (slot (tab virt k) i) m = Inr (rd64 m (slot t i))"
    and "vwr64 (Paged p) (slot (tab virt k) i) w m = Inr (wr64 m (slot t i) w)"
  by (simp_all add: vrd64_def vwr64_def phys_of_tab_slot[OF assms])

text \<open>Bytes of other pages do not matter for the entries of a table.\<close>

lemma rd64_other_page:
  assumes "is_frame t" "is_frame f" "t \<noteq> f" "i < 512" and "\<And>x. \<not> unat (x - f) < 4096 \<Longrightarrow> m' x = m x"
  shows "rd64 m' (slot t i) = rd64 m (slot t i)"
proof (rule rd64_cong)
  fix j :: nat
  assume "j < 8"
  from unat_page_diff[OF assms(2,1) slot_bytes(2)[OF assms(4) this]] assms(3)
  show "m' (slot t i + of_nat j) = m (slot t i + of_nat j)"
    unfolding slot_bytes(1)[OF assms(4) \<open>j < 8\<close>] by (intro assms(5)) simp
qed

lemma zero_out_tab:
  assumes "self_mapped m p" and "k \<le> 3" and "pwalk m p virt k = Some t"
    and "t \<noteq> p" and "\<And>j. j < k \<Longrightarrow> pwalk m p virt j \<noteq> Some t"
  shows "zero_out (Paged p) (tab virt k) m = Inr (zero_page t m)"
proof -
  have fr: "is_frame p" using assms(1) by (simp add: self_mapped_def)
  have t: "is_frame t" using pwalk_frame[OF fr assms(3)] .
  have "phys_of m' (Paged p) (tab virt k + of_nat i) = Inr (t + of_nat i)"
    if "i < 4096" and other: "\<And>x. \<not> unat (x - t) < 4096 \<Longrightarrow> m' x = m x" for i m'
  proof -
    have "rd64 m' (slot p 510) = rd64 m (slot p 510)"
      using rd64_other_page[OF fr t _ _ other, of 510] assms(4) by auto
    then have "self_mapped m' p" using assms(1) by (simp add: self_mapped_def)
    moreover have "pwalk m' p virt k = pwalk m p virt k"
    proof (rule pwalk_cong)
      fix j u
      assume j: "j < k" "pwalk m p virt j = Some u"
      then have "u \<noteq> t" using assms(5) by auto
      then show "rd64 m' (slot u (idx (4 - j) virt)) = rd64 m (slot u (idx (4 - j) virt))"
        using rd64_other_page[OF pwalk_frame[OF fr j(2)] t _ idx_less other] by auto
    qed simp
    ultimately show ?thesis using phys_of_tab[OF _ assms(2) _ that(1)] assms(3) by simp
  qed
  then show ?thesis
    unfolding zero_out_def zero_page_def by (intro store_loop[OF t, where g = "\<lambda>_. 0"]) simp_all
qed

section \<open>\<^verbatim>\<open>map_page\<close> does what it is to do\<close>

lemma zero_page_wr64:
  assumes "is_frame t" "is_frame f" "t \<noteq> f" "i < 512"
  shows "zero_page f (wr64 m (slot t i) e) = wr64 (zero_page f m) (slot t i) e"
proof
  fix x
  show "zero_page f (wr64 m (slot t i) e) x = wr64 (zero_page f m) (slot t i) e x"
  proof (cases "unat (x - f) < 4096")
    case True
    define b where "b = unat (x - f)"
    have x: "x = f + of_nat b" and b: "b < 4096" using True by (simp_all add: b_def)
    show ?thesis using wr64_page[OF assms(1,2,3,4) b, of "zero_page f m" e] True x by (simp add: zero_page_def)
  next
    case False
    then show ?thesis by (simp add: zero_page_def wr64_def)
  qed
qed

text \<open>The loop zeroes a new table only when it is about to use it.\<close>

definition pend :: "bool \<Rightarrow> u64 \<Rightarrow> ram \<Rightarrow> ram" where
  "pend flag t m = (if flag then zero_page t m else m)"

lemma pend_facts:
  assumes "tables_ok (pend flag t m) p fs" and "own virt" and "k \<le> 3" and "pwalk (pend flag t m) p virt k = Some t"
    and "flag \<Longrightarrow> 0 < k"
  shows "self_mapped m p" and "pwalk m p virt k = Some t" and "flag \<Longrightarrow> t \<noteq> p"
    and "j < k \<Longrightarrow> pwalk m p virt j \<noteq> Some t"
proof -
  note D = tables_okD[OF assms(1)]
  have ne: "u \<noteq> t" if "j < k" "pwalk (pend flag t m) p virt j = Some u" for j u
    using D(7)[OF assms(2) assms(2), of j k u] that assms(3,4) by auto
  have fr: "is_frame t" using pwalk_frame[OF D(1) assms(4)] .
  have rd: "rd64 (pend flag t m) (slot u i) = rd64 m (slot u i)" if "is_frame u" "u \<noteq> t" "i < 512" for u i
    using rd64_zero_page[OF fr that(1,3)] that(2) by (simp add: pend_def)
  show tp: "flag \<Longrightarrow> t \<noteq> p" using ne[of 0 p] assms(5) by auto
  then have "rd64 (pend flag t m) (slot p 510) = rd64 m (slot p 510)"
    using rd[OF D(1), of 510] by (cases flag) (auto simp: pend_def)
  then show "self_mapped m p" using D(1,4,5) by (simp add: self_mapped_def)
  have w: "pwalk m p virt j = pwalk (pend flag t m) p virt j" if "j \<le> k" for j
  proof (rule pwalk_cong)
    fix l u
    assume l: "l < j" "pwalk (pend flag t m) p virt l = Some u"
    have "u \<noteq> t" using ne[OF _ l(2)] l(1) that by simp
    from rd[OF pwalk_frame[OF D(1) l(2)] this idx_less]
    show "rd64 m (slot u (idx (4 - l) virt)) = rd64 (pend flag t m) (slot u (idx (4 - l) virt))" by simp
  qed simp
  then show "pwalk m p virt k = Some t" using assms(4) by simp
  show "j < k \<Longrightarrow> pwalk m p virt j \<noteq> Some t" using w[of j] ne[of j t] by auto
qed

lemma map_page_loop_step:
  assumes "tables_ok (pend flag t (mem s)) p fs" and "own virt" and "k \<le> 2"
    and "pwalk (pend flag t (mem s)) p virt k = Some t" and "flag \<Longrightarrow> 0 < k" and "free_frames s fs" and "fs \<noteq> []"
    and "spec_step False (idx (4 - k) virt) (t, pend flag t (mem s), fs) = (t', m', fs')"
  shows "\<exists>l flag'. map_page_loop (Paged p) virt q (4 - k) (tab virt k) flag s =
      map_page_loop (Paged p) virt q (3 - k) (tab virt (Suc k)) flag' (s\<lparr>lists := l, mem := m'\<rparr>) \<and>
    free_frames (s\<lparr>lists := l, mem := m'\<rparr>) fs' \<and>
    spec_step True (idx (4 - k) virt) (t, pend flag t (mem s), fs) = (t', pend flag' t' m', fs')"
proof -
  let ?m = "pend flag t (mem s)" and ?i = "idx (4 - k) virt"
  let ?e = "rd64 ?m (slot t ?i)"
  have k3: "k \<le> 3" using assms(3) by simp
  note F = pend_facts[OF assms(1,2) k3 assms(4,5)]
  note D = tables_okD[OF assms(1)]
  have fr: "is_frame t" using pwalk_frame[OF D(1) assms(4)] .
  have sm: "self_mapped ?m p" using D(1,4,5) by (simp add: self_mapped_def)
  have z: "(if flag then zero_out (Paged p) (tab virt k) (mem s) else Inr (mem s)) = Inr ?m"
    using zero_out_tab[OF F(1) k3 F(2) F(3)] F(4) by (simp add: pend_def)
  have rd: "vrd64 (Paged p) (slot (tab virt k) ?i) ?m = Inr ?e"
    by (simp add: tab_access[OF sm k3 assms(4) idx_less])
  have wr: "vwr64 (Paged p) (slot (tab virt k) ?i) w ?m = Inr (wr64 ?m (slot t ?i) w)" for w
    by (simp add: tab_access[OF sm k3 assms(4) idx_less])
  have lvl: "4 - k > 1" "4 - k - 1 = 3 - k" using assms(3) by simp_all
  note unfold = map_page_loop.simps[of "Paged p" virt q "4 - k" "tab virt k" flag s, unfolded if_P[OF lvl(1)] lvl(2)]
  show ?thesis
  proof (cases "?e = 0")
    case False
    have "map_page_loop (Paged p) virt q (4 - k) (tab virt k) flag s =
        map_page_loop (Paged p) virt q (3 - k) (tab virt (Suc k)) False (s\<lparr>lists := lists s, mem := ?m\<rparr>)"
      unfolding unfold by (simp add: Let_def z rd False)
    moreover have "t' = frame ?e" "m' = ?m" "fs' = fs" using assms(8) False by (auto simp: spec_step_def Let_def)
    ultimately show ?thesis
      using assms(6) False by (intro exI[of _ "lists s"] exI[of _ False]) (simp add: spec_step_def Let_def pend_def)
  next
    case True
    obtain f gs where f: "fs = f # gs" using assms(7) by (cases fs) auto
    have m': "t' = f" "fs' = gs" "m' = wr64 ?m (slot t ?i) (f OR 1 OR 2 OR 4)"
      using assms(8) True f by (auto simp: spec_step_def Let_def)
    have ff: "is_frame f" "t \<noteq> f" using D(2)[of f] D(6)[of virt k f] f assms(2,4) k3 by auto
    have "free_frames (s\<lparr>mem := ?m\<rparr>) (f # gs)" using assms(6) f by simp
    from take_page_free[OF this] obtain l where
      l: "take_page (s\<lparr>mem := ?m\<rparr>) = Inr (f, s\<lparr>mem := ?m, lists := l\<rparr>)" "free_frames (s\<lparr>mem := ?m, lists := l\<rparr>) gs"
      by auto
    have "map_page_loop (Paged p) virt q (4 - k) (tab virt k) flag s =
        map_page_loop (Paged p) virt q (3 - k) (tab virt (Suc k)) True (s\<lparr>lists := l, mem := m'\<rparr>)"
      unfolding unfold m'(3) by (simp add: Let_def z rd wr True l(1) vma_register_page_def)
    moreover have "free_frames (s\<lparr>lists := l, mem := m'\<rparr>) fs'"
      using l(2) m'(2) by (simp add: free_frames_def)
    moreover have "spec_step True ?i (t, ?m, fs) = (t', pend True t' m', fs')"
      using True f m'(1,2) unfolding m'(3)
      by (simp add: spec_step_def Let_def pend_def[of True] zero_page_wr64[OF fr ff idx_less])
    ultimately show ?thesis by blast
  qed
qed

lemma map_page_level:
  assumes "tables_ok (pend flag t (mem s)) p fs" and "own virt" and "k \<le> 2"
    and "pwalk (pend flag t (mem s)) p virt k = Some t" and "flag \<Longrightarrow> 0 < k" and "free_frames s fs" and "fs \<noteq> []"
    and "spec_step False (idx n virt) (t, pend flag t (mem s), fs) = (t', m', fs')"
    and "n = 4 - k" and "n' = 3 - k" and "k' = Suc k"
  shows "\<exists>l flag'. map_page_loop (Paged p) virt q n (tab virt k) flag s =
      map_page_loop (Paged p) virt q n' (tab virt k') flag' (s\<lparr>lists := l, mem := m'\<rparr>) \<and>
    free_frames (s\<lparr>lists := l, mem := m'\<rparr>) fs' \<and>
    spec_step True (idx n virt) (t, pend flag t (mem s), fs) = (t', pend flag' t' m', fs') \<and>
    pwalk (pend flag' t' m') p virt k' = Some t' \<and>
    extends 1 True virt p (pend flag t (mem s), fs) (pend flag' t' m', fs')"
proof -
  note sp = assms(8)[unfolded assms(9)]
  from map_page_loop_step[OF assms(1-7) sp] obtain l flag' where
    l: "map_page_loop (Paged p) virt q (4 - k) (tab virt k) flag s =
      map_page_loop (Paged p) virt q (3 - k) (tab virt (Suc k)) flag' (s\<lparr>lists := l, mem := m'\<rparr>)"
    "free_frames (s\<lparr>lists := l, mem := m'\<rparr>) fs'"
    "spec_step True (idx (4 - k) virt) (t, pend flag t (mem s), fs) = (t', pend flag' t' m', fs')"
    by blast
  from spec_step_extends[OF assms(1-4,7) _ l(3)] l show ?thesis unfolding assms(9-11) by blast
qed

lemma map_page_loop_tables:
  assumes "tables_ok (mem s) p fs" and "own virt" and "free_frames s fs" and "3 \<le> length fs"
    and "spec_tables False virt (p, mem s, fs) = (t, m, fs')"
  shows "\<exists>l. map_page_loop (Paged p) virt q 4 (tab virt 0) False s = Inr (tab virt 3, s\<lparr>lists := l, mem := m\<rparr>) \<and>
    free_frames (s\<lparr>lists := l, mem := m\<rparr>) fs'"
proof -
  obtain t1 m1 fs1 where 1: "spec_step False (idx 4 virt) (p, mem s, fs) = (t1, m1, fs1)" by (metis prod_cases3)
  have p0: "pend False p (mem s) = mem s" by (simp add: pend_def)
  have upd: "s\<lparr>lists := l, mem := m\<rparr>\<lparr>lists := l', mem := m'\<rparr> = s\<lparr>lists := l', mem := m'\<rparr>" for l m l' m'
    by simp
  have ne0: "fs \<noteq> []" using assms(4) by auto
  have n0: "(0::nat) \<le> 2" "False \<Longrightarrow> (0::nat) < 0" "(4::nat) = 4 - 0" "(3::nat) = 3 - 0" "(1::nat) = Suc 0" by simp_all
  from map_page_level[where k = 0 and flag = False and n = 4 and n' = 3 and k' = 1 and t = p and q = q and s = s,
      unfolded p0, OF assms(1,2) n0(1) pwalk.simps(1) n0(2) assms(3) ne0 1 n0(3-5)]
  obtain l1 flag1 where s1:
    "map_page_loop (Paged p) virt q 4 (tab virt 0) False s =
       map_page_loop (Paged p) virt q 3 (tab virt 1) flag1 (s\<lparr>lists := l1, mem := m1\<rparr>)"
    "free_frames (s\<lparr>lists := l1, mem := m1\<rparr>) fs1"
    "spec_step True (idx 4 virt) (p, mem s, fs) = (t1, pend flag1 t1 m1, fs1)"
    "pwalk (pend flag1 t1 m1) p virt 1 = Some t1" "extends 1 True virt p (mem s, fs) (pend flag1 t1 m1, fs1)"
    by blast
  from extendsD(2)[OF s1(5)] assms(4) have len1: "2 \<le> length fs1" by auto
  then have ne1: "fs1 \<noteq> []" by auto
  obtain t2 m2 fs2 where 2: "spec_step False (idx 3 virt) (t1, pend flag1 t1 m1, fs1) = (t2, m2, fs2)" by (metis prod_cases3)
  let ?s1 = "s\<lparr>lists := l1, mem := m1\<rparr>"
  have m1: "mem ?s1 = m1" by simp
  have n1: "(1::nat) \<le> 2" "flag1 \<Longrightarrow> (0::nat) < 1" "(3::nat) = 4 - 1" "(2::nat) = 3 - 1" "(2::nat) = Suc 1" by simp_all
  from map_page_level[where k = 1 and flag = flag1 and n = 3 and n' = 2 and k' = 2 and t = t1 and s = ?s1 and q = q,
      unfolded m1, OF extendsD(1)[OF s1(5)] assms(2) n1(1) s1(4) n1(2) s1(2) ne1 2 n1(3-5)]
  obtain l2 flag2 where s2:
    "map_page_loop (Paged p) virt q 3 (tab virt 1) flag1 ?s1 =
       map_page_loop (Paged p) virt q 2 (tab virt 2) flag2 (s\<lparr>lists := l2, mem := m2\<rparr>)"
    "free_frames (s\<lparr>lists := l2, mem := m2\<rparr>) fs2"
    "spec_step True (idx 3 virt) (t1, pend flag1 t1 m1, fs1) = (t2, pend flag2 t2 m2, fs2)"
    "pwalk (pend flag2 t2 m2) p virt 2 = Some t2"
    "extends 1 True virt p (pend flag1 t1 m1, fs1) (pend flag2 t2 m2, fs2)"
    unfolding upd by blast
  from extendsD(2)[OF s2(5)] len1 have ne2: "fs2 \<noteq> []" by auto
  let ?s2 = "s\<lparr>lists := l2, mem := m2\<rparr>"
  have m2: "mem ?s2 = m2" by simp
  have 3: "spec_step False (idx 2 virt) (t2, pend flag2 t2 m2, fs2) = (t, m, fs')"
    using assms(5) s1(3) s2(3) by (simp add: spec_tables_def)
  have n2: "(2::nat) \<le> 2" "flag2 \<Longrightarrow> (0::nat) < 2" "(2::nat) = 4 - 2" "(1::nat) = 3 - 2" "(3::nat) = Suc 2" by simp_all
  from map_page_level[where k = 2 and flag = flag2 and n = 2 and n' = 1 and k' = 3 and t = t2 and s = ?s2 and q = q,
      unfolded m2, OF extendsD(1)[OF s2(5)] assms(2) n2(1) s2(4) n2(2) s2(2) ne2 3 n2(3-5)]
  obtain l3 flag3 where s3:
    "map_page_loop (Paged p) virt q 2 (tab virt 2) flag2 ?s2 =
       map_page_loop (Paged p) virt q 1 (tab virt 3) flag3 (s\<lparr>lists := l3, mem := m\<rparr>)"
    "free_frames (s\<lparr>lists := l3, mem := m\<rparr>) fs'"
    unfolding upd by blast
  have "map_page_loop (Paged p) virt q 4 (tab virt 0) False s = Inr (tab virt 3, s\<lparr>lists := l3, mem := m\<rparr>)"
    unfolding s1(1) s2(1) s3(1) by (subst map_page_loop.simps) simp
  with s3(2) show ?thesis by blast
qed

lemma map_page_refines:
  assumes "tables_ok (mem s) p fs" and "own virt" and "free_frames s fs" and "3 \<le> length fs"
    and "spec_map False virt (frame phys OR flags) p (mem s, fs) = (m', fs')"
  shows "\<exists>l. map_page (Paged p) phys virt flags q s = Inr (virt + PAGESIZE, s\<lparr>lists := l, mem := m'\<rparr>) \<and>
    free_frames (s\<lparr>lists := l, mem := m'\<rparr>) fs'"
proof -
  obtain t m where st: "spec_tables False virt (p, mem s, fs) = (t, m, fs')"
    and m': "m' = wr64 m (slot t (idx 1 virt)) (frame phys OR flags)"
    using assms(5) by (auto simp: spec_map_def split: prod.splits)
  from map_page_loop_tables[OF assms(1-4) st] obtain l where
    l: "map_page_loop (Paged p) virt q 4 ACTIVE_PML4 False s = Inr (tab virt 3, s\<lparr>lists := l, mem := m\<rparr>)"
      "free_frames (s\<lparr>lists := l, mem := m\<rparr>) fs'" by auto
  from spec_tables_extends[OF assms(1,2,4) st]
  have w: "pwalk m p virt 3 = Some t" and e: "extends 3 False virt p (mem s, fs) (m, fs')" by simp_all
  have "self_mapped m p" using tables_okD(1,4,5)[OF extendsD(1)[OF e]] by (simp add: self_mapped_def)
  note wr = tab_access(2)[OF this _ w idx_less[of 1 virt]]
  show ?thesis using l wr m' by (intro exI[of _ l]) (simp add: map_page_def free_frames_def del: tab.simps)
qed

section \<open>\<^verbatim>\<open>k_map_v\<close> does it too\<close>

lemma k_map_v_level:
  assumes "is_frame t" and "\<And>f. f \<in> set fs \<Longrightarrow> is_frame f \<and> f \<noteq> t" and "free_frames s fs" and "fs \<noteq> []" and "2 \<le> n"
    and "spec_step True (idx n virt) (t, mem s, fs) = (t', m', fs')"
  shows "\<exists>l. k_map_v Identity phys virt t n s = k_map_v Identity phys virt t' (n - 1) (s\<lparr>lists := l, mem := m'\<rparr>) \<and>
    free_frames (s\<lparr>lists := l, mem := m'\<rparr>) fs'"
proof -
  have n: "\<not> n \<le> 1" using assms(5) by simp
  note unfold = k_map_v.simps[of Identity phys virt t n s, unfolded if_not_P[OF n] Let_def]
  show ?thesis
  proof (cases "rd64 (mem s) (slot t (idx n virt)) = 0")
    case False
    then have "t' = frame (rd64 (mem s) (slot t (idx n virt)))" "m' = mem s" "fs' = fs"
      using assms(6) by (auto simp: spec_step_def Let_def)
    then show ?thesis unfolding unfold using False assms(3)
      by (intro exI[of _ "lists s"]) (simp add: vrd64_def phys_of_def)
  next
    case True
    obtain f gs where f: "fs = f # gs" using assms(4) by (cases fs) auto
    have eq: "t' = f" "fs' = gs" "m' = wr64 (zero_page f (mem s)) (slot t (idx n virt)) (f OR 1 OR 2 OR 4)"
      using assms(6) True f by (auto simp: spec_step_def Let_def)
    have ff: "is_frame f" using assms(2) f by simp
    from take_page_free[of s f gs] assms(3) f obtain l where
      l: "take_page s = Inr (f, s\<lparr>lists := l\<rparr>)" "free_frames (s\<lparr>lists := l\<rparr>) gs" by auto
    show ?thesis
      unfolding unfold using True l eq new_entry(2)[OF ff]
      by (intro exI[of _ l]) (simp add: vrd64_def vwr64_def phys_of_def zero_out_identity[OF ff] free_frames_def)
  qed
qed

lemma k_map_v_refines:
  assumes "tables_ok (mem s) p fs" and "own virt" and "free_frames s fs" and "3 \<le> length fs"
    and "spec_map True virt (frame phys OR PRESENT OR READ_WRITE) p (mem s, fs) = (m', fs')"
  shows "\<exists>l. k_map_v Identity phys virt p 4 s = Inr (s\<lparr>lists := l, mem := m'\<rparr>) \<and>
    free_frames (s\<lparr>lists := l, mem := m'\<rparr>) fs'"
proof -
  have lev: "\<exists>l. k_map_v Identity phys virt t n s1 = k_map_v Identity phys virt t' n' (s1\<lparr>lists := l, mem := m1\<rparr>) \<and>
      free_frames (s1\<lparr>lists := l, mem := m1\<rparr>) fs1' \<and> pwalk m1 p virt k' = Some t' \<and> tables_ok m1 p fs1' \<and>
      length fs1 \<le> Suc (length fs1')"
    if "tables_ok (mem s1) p fs1" "free_frames s1 fs1" "fs1 \<noteq> []" "pwalk (mem s1) p virt k = Some t"
      "k \<le> 2" "n = 4 - k" "n' = n - 1" "k' = Suc k" "spec_step True (idx n virt) (t, mem s1, fs1) = (t', m1, fs1')"
    for s1 fs1 k t n n' k' t' m1 fs1'
  proof -
    note H = that
    note D = tables_okD[OF H(1)]
    have "is_frame t" using pwalk_frame[OF D(1) H(4)] .
    moreover have "is_frame f \<and> f \<noteq> t" if "f \<in> set fs1" for f
      using D(2)[OF that] D(6)[OF assms(2) _ that, of k] H(4,5) by auto
    moreover have "2 \<le> n" using H(5,6) by simp
    ultimately obtain l where l: "k_map_v Identity phys virt t n s1 = k_map_v Identity phys virt t' (n - 1) (s1\<lparr>lists := l, mem := m1\<rparr>)"
      "free_frames (s1\<lparr>lists := l, mem := m1\<rparr>) fs1'"
      using k_map_v_level[OF _ _ H(2,3) _ H(9), of phys] by blast
    from spec_step_extends[OF H(1) assms(2) H(5,4,3) _ H(9)[unfolded H(6)]]
    have e: "pwalk m1 p virt (Suc k) = Some t'" "extends 1 True virt p (mem s1, fs1) (m1, fs1')" by simp_all
    from extendsD(2)[OF e(2)] have "length fs1 \<le> Suc (length fs1')" by auto
    with l e(1) extendsD(1)[OF e(2)] H(7,8) show ?thesis by blast
  qed
  obtain t1 m1 fs1 where 1: "spec_step True (idx 4 virt) (p, mem s, fs) = (t1, m1, fs1)" by (metis prod_cases3)
  have ne: "fs \<noteq> []" using assms(4) by auto
  have n0: "(0::nat) \<le> 2" "(4::nat) = 4 - 0" "(3::nat) = 4 - 1" "(1::nat) = Suc 0" by simp_all
  from lev[OF assms(1,3) ne pwalk.simps(1) n0 1] obtain l1 where
    s1: "k_map_v Identity phys virt p 4 s = k_map_v Identity phys virt t1 3 (s\<lparr>lists := l1, mem := m1\<rparr>)"
      "free_frames (s\<lparr>lists := l1, mem := m1\<rparr>) fs1" "pwalk m1 p virt 1 = Some t1" "tables_ok m1 p fs1" "length fs \<le> Suc (length fs1)"
    by blast
  let ?s1 = "s\<lparr>lists := l1, mem := m1\<rparr>"
  have ne1: "fs1 \<noteq> []" using s1(5) assms(4) by auto
  have m1: "mem ?s1 = m1" by simp
  have upd: "s\<lparr>lists := l, mem := m\<rparr>\<lparr>lists := l', mem := m'\<rparr> = s\<lparr>lists := l', mem := m'\<rparr>" for l m l' m' by simp
  obtain t2 m2 fs2 where 2: "spec_step True (idx 3 virt) (t1, m1, fs1) = (t2, m2, fs2)" by (metis prod_cases3)
  have n1: "(1::nat) \<le> 2" "(3::nat) = 4 - 1" "(2::nat) = 3 - 1" "(2::nat) = Suc 1" by simp_all
  from lev[of ?s1 fs1, unfolded m1, OF s1(4,2) ne1 s1(3) n1 2] obtain l2 where
    s2: "k_map_v Identity phys virt t1 3 ?s1 = k_map_v Identity phys virt t2 2 (s\<lparr>lists := l2, mem := m2\<rparr>)"
      "free_frames (s\<lparr>lists := l2, mem := m2\<rparr>) fs2" "pwalk m2 p virt 2 = Some t2" "tables_ok m2 p fs2" "length fs1 \<le> Suc (length fs2)"
    unfolding upd by blast
  let ?s2 = "s\<lparr>lists := l2, mem := m2\<rparr>"
  have ne2: "fs2 \<noteq> []" using s1(5) s2(5) assms(4) by auto
  have m2: "mem ?s2 = m2" by simp
  obtain t3 m3 fs3 where 3: "spec_step True (idx 2 virt) (t2, m2, fs2) = (t3, m3, fs3)" by (metis prod_cases3)
  have n2: "(2::nat) \<le> 2" "(2::nat) = 4 - 2" "(1::nat) = 2 - 1" "(3::nat) = Suc 2" by simp_all
  from lev[of ?s2 fs2, unfolded m2, OF s2(4,2) ne2 s2(3) n2 3] obtain l3 where
    s3: "k_map_v Identity phys virt t2 2 ?s2 = k_map_v Identity phys virt t3 1 (s\<lparr>lists := l3, mem := m3\<rparr>)"
      "free_frames (s\<lparr>lists := l3, mem := m3\<rparr>) fs3"
    unfolding upd by blast
  have eq: "m' = wr64 m3 (slot t3 (idx 1 virt)) (frame phys OR 1 OR 2)" "fs' = fs3"
    using assms(5) 1 2 3 by (auto simp: spec_map_def spec_tables_def)
  have "k_map_v Identity phys virt p 4 s = Inr (s\<lparr>lists := l3, mem := m'\<rparr>)"
    unfolding s1(1) s2(1) s3(1) eq(1) by (subst k_map_v.simps) (simp add: vwr64_def phys_of_def Let_def)
  then show ?thesis using s3(2) eq(2) by (auto simp: free_frames_def)
qed

end
