(* ===== verification/Virtual_Memory.thy ===== *)
theory Virtual_Memory
  imports Paging
begin

text \<open>
  The properties of virtual memory, stated on the processor's translation of addresses: what
  \<^verbatim>\<open>map_page\<close>, the boot mapping and the demand paging achieve, and what they leave alone. They rest on
  the refinement lemmas of \<open>Paging\<close> and on \<open>spec_map_correct\<close>.
\<close>

section \<open>Entries and translations\<close>

lemma entry_flags:
  assumes "fl < 0x1000"
  shows "frame (frame ph OR fl) = frame ph" and "present (frame ph OR fl) \<longleftrightarrow> odd fl"
proof -
  have "take_bit 12 fl = fl"
    using assms by (simp add: take_bit_eq_mod word_less_nat_alt word_unat_eq_iff unat_mod_distrib)
  then have lo: "bit fl n \<Longrightarrow> n < 12" for n by (metis bit_take_bit_iff)
  show "frame (frame ph OR fl) = frame ph"
    by (intro bit_eqI) (auto simp: bit_frame bit_or_iff dest: lo)
  have "\<not> bit (frame ph) 0" by (simp add: bit_frame del: bit_0)
  then show "present (frame ph OR fl) \<longleftrightarrow> odd fl" by (simp add: present_odd even_or_iff flip: bit_0)
qed

lemma same_page_agree:
  assumes "drop_bit 12 v = drop_bit 12 w"
  shows "agree 4 v w" and "canonical v = canonical w" and "own v = own w"
proof -
  have b: "bit v (12 + n) = bit w (12 + n)" for n
  proof -
    have "bit (drop_bit 12 v) n = bit (drop_bit 12 w) n" by (simp only: assms)
    then show ?thesis by (simp add: bit_drop_bit_eq)
  qed
  have i: "idx l v = idx l w" for l
    by (intro bit_eqI) (simp add: bit_idx b add.assoc)
  then show "agree 4 v w" "own v = own w" by (simp_all add: agree_def own_def)
  have "drop_bit 47 v = drop_bit 47 w"
  proof (rule bit_eqI)
    fix n
    show "bit (drop_bit 47 v) n = bit (drop_bit 47 w) n" using b[of "35 + n"] by (simp add: bit_drop_bit_eq)
  qed
  then show "canonical v = canonical w" by (simp add: canonical_def)
qed

lemma translate_frame: "is_frame p \<Longrightarrow> translate m p v =
    (if canonical v then map_option (\<lambda>f. f + (v AND 0xfff)) (pwalk m p v 4) else None)"
  by (simp add: translate_def is_frame_def)

text \<open>What mapping one page does to the translation, in the terms of the processor.\<close>

definition maps_one :: "bool \<Rightarrow> u64 \<Rightarrow> u64 \<Rightarrow> u64 \<Rightarrow> ram \<Rightarrow> ram \<Rightarrow> bool" where
  "maps_one only p virt fr m m' =
     ((\<forall>v. drop_bit 12 v = drop_bit 12 virt \<longrightarrow> translate m' p v = Some (fr + (v AND 0xfff))) \<and>
      (\<forall>v. own v \<and> drop_bit 12 v \<noteq> drop_bit 12 virt \<longrightarrow>
         (translate m p v \<noteq> None \<or> only \<longrightarrow> translate m' p v = translate m p v)))"

lemma spec_map_maps_one:
  assumes "tables_ok m p fs" and "own virt" and "canonical virt" and "3 \<le> length fs" and "fl < 0x1000" and "odd fl"
    and "spec_map z virt (frame ph OR fl) p (m, fs) = (m', fs')"
  shows "maps_one z p virt (frame ph) m m'"
proof -
  note S = spec_map_correct[OF assms(1,2,4,7)]
  note tr = translate_frame[OF tables_okD(1)[OF assms(1)]]
  have v: "pwalk m' p virt 4 = Some (frame ph)" using S(3) entry_flags[OF assms(5)] assms(6) by simp
  show ?thesis
    unfolding maps_one_def
  proof (intro conjI allI impI; (elim conjE)?)
    fix v
    assume "drop_bit 12 v = drop_bit 12 virt"
    note a = same_page_agree[OF this]
    show "translate m' p v = Some (frame ph + (v AND 0xfff))"
      using tr agree_walk[OF a(1), of m' p] a(2) assms(3) v by simp
  next
    fix v
    assume o: "own v" and ne: "drop_bit 12 v \<noteq> drop_bit 12 virt" and h: "translate m p v \<noteq> None \<or> z"
    show "translate m' p v = translate m p v"
    proof (cases "canonical v")
      case True
      then have na: "\<not> agree 4 v virt" using agree_same_page[OF _ True assms(3)] ne by blast
      have "pwalk m' p v 4 = pwalk m p v 4"
        using h S(4)[OF o na] S(5)[OF _ o na] tr[of m v] True by (cases z) auto
      then show ?thesis using tr by simp
    qed (simp add: tr)
  qed
qed

section \<open>A page table at boot\<close>

definition boot_ram :: "u64 \<Rightarrow> ram \<Rightarrow> ram" where
  "boot_ram p m = wr64 (zero_page p m) (slot p 510) (p OR USER_PAGE)"

lemma boot_rd:
  assumes "is_frame p" and "i < 512"
  shows "rd64 (boot_ram p m) (slot p i) = (if i = 510 then p OR USER_PAGE else 0)"
  using rd64_wr_slot[OF assms(1) assms(1) _ assms(2), of 510] rd64_zero_page[OF assms(1) assms]
  by (simp add: boot_ram_def)

lemma boot_walk:
  assumes "is_frame p" and "own v"
  shows "pwalk (boot_ram p m) p v k = (if k = 0 then Some p else None)"
proof (induction k)
  case (Suc k)
  have "rd64 (boot_ram p m) (slot p (idx 4 v)) = 0"
    using boot_rd[OF assms(1) idx_less, of m 4 v] assms(2) by (simp add: own_def)
  with Suc show ?case by (cases k) (auto simp: Let_def)
qed simp

lemma boot_tables:
  assumes "is_frame p" and "p \<notin> set fs" and "distinct fs" and "\<And>f. f \<in> set fs \<Longrightarrow> is_frame f"
  shows "tables_ok (boot_ram p m) p fs"
proof (rule tables_okI)
  note e = new_entry[OF assms(1)]
  show "present (rd64 (boot_ram p m) (slot p 510))" "frame (rd64 (boot_ram p m) (slot p 510)) = p"
    using boot_rd[OF assms(1), of 510 m] e by simp_all
  show "pwalk (boot_ram p m) p v k \<noteq> Some f" if "own v" "k \<le> 3" "f \<in> set fs" for v k f
    using boot_walk[OF assms(1) that(1)] that(3) assms(2) by auto
  show "j = k \<and> agree j v w"
    if "own v" "own w" "pwalk (boot_ram p m) p v j = Some t" "pwalk (boot_ram p m) p w k = Some t" for v w j k t
    using boot_walk[OF assms(1) that(1)] boot_walk[OF assms(1) that(2)] that(3,4)
    by (auto simp: agree_def split: if_splits)
  show "rd64 (boot_ram p m) (slot t (idx (4 - k) v)) = 0 \<or> present (rd64 (boot_ram p m) (slot t (idx (4 - k) v)))"
    if "own v" "pwalk (boot_ram p m) p v k = Some t" for v k t
    using boot_walk[OF assms(1) that(1)] that(2) boot_rd[OF assms(1) idx_less, of m "4 - k" v] e(1) by (auto split: if_splits)
qed (use assms in auto)

text \<open>Eight free pages, and the state at boot with them, for the witnesses.\<close>

definition eight_pages :: page_lists where
  "eight_pages =
     \<lparr>page_list = (\<lambda>i. if i = 0 then \<lparr>pg_base = 0, pg_next = 0\<rparr>
                       else \<lparr>pg_base = 0x100000 + i * PAGESIZE, pg_next = (if i < 8 then i + 1 else 0)\<rparr>),
       free_page_list_head = 1, free_page_list_tail = 8, used_page_list_head = 0, used_page_list_tail = 0\<rparr>"

definition eight_frames :: "u64 list" where
  "eight_frames = [0x101000, 0x102000, 0x103000, 0x104000, 0x105000, 0x106000, 0x107000, 0x108000]"

definition boot_mm :: "ram \<Rightarrow> mm" where
  "boot_mm m = \<lparr>mem = boot_ram 0x1000 m, lists = eight_pages, available_virt_mem = 0xffffffff80400000,
     kmalloc_page = 0, kmalloc_index = 0, temp_page = replicate 4096 0\<rparr>"

lemma boot_mm_ok: "tables_ok (mem (boot_mm m)) 0x1000 eight_frames" "free_frames (boot_mm m) eight_frames"
proof -
  have "tables_ok (boot_ram 0x1000 m) 0x1000 eight_frames"
    by (rule boot_tables) (auto simp: eight_frames_def is_frame_def frame_def)
  then show "tables_ok (mem (boot_mm m)) 0x1000 eight_frames" by (simp add: boot_mm_def)
  have "pool_inv eight_pages [1, 2, 3, 4, 5, 6, 7, 8] []"
    by (simp add: pool_inv_def plist_repr_def eight_pages_def)
  then show "free_frames (boot_mm m) eight_frames"
    unfolding free_frames_def
    by (intro exI[of _ "[1, 2, 3, 4, 5, 6, 7, 8]"] exI[of _ "[]"]) (simp add: boot_mm_def eight_pages_def eight_frames_def)
qed

section \<open>Fresh tables\<close>

lemma zero_page_idem:
  assumes "\<And>b. b < 4096 \<Longrightarrow> m (f + of_nat b) = 0"
  shows "zero_page f m = m"
proof
  fix x
  show "zero_page f m x = m x"
    using assms[of "unat (x - f)"] by (simp add: zero_page_def)
qed

definition zeroed :: "ram \<Rightarrow> u64 list \<Rightarrow> bool" where
  "zeroed m fs = (\<forall>f\<in>set fs. \<forall>b<4096. m (f + of_nat b) = 0)"

lemma spec_step_zeroed:
  assumes "zeroed m fs" and "\<forall>f\<in>set fs. is_frame f \<and> f \<noteq> t" and "is_frame t" and "distinct fs" and "fs \<noteq> []"
    and "i < 512" and "spec_step z i (t, m, fs) = (t', m', fs')"
  shows "zeroed m' fs'" and "spec_step False i (t, m, fs) = (t', m', fs')"
proof -
  obtain f gs where f: "fs = f # gs" using assms(5) by (cases fs) auto
  have zf: "zero_page f m = m" using assms(1) f by (intro zero_page_idem) (simp add: zeroed_def)
  then have "spec_step z i (t, m, fs) = spec_step False i (t, m, fs)" by (simp add: spec_step_def f Let_def)
  then show "spec_step False i (t, m, fs) = (t', m', fs')" using assms(7) by simp
  then have "m' = m \<and> fs' = fs \<or> (fs' = gs \<and> m' = wr64 m (slot t i) (f OR 1 OR 2 OR 4))"
    using f by (auto simp: spec_step_def Let_def split: if_splits)
  moreover have "wr64 m (slot t i) e (g + of_nat b) = m (g + of_nat b)" if "g \<in> set gs" "b < 4096" for g b e
    using wr64_page[of t g i b m e] assms(2,3,6) that f by auto
  ultimately show "zeroed m' fs'" using assms(1) f by (auto simp: zeroed_def)
qed

lemma spec_tables_zeroed:
  assumes "tables_ok m p fs" and "own virt" and "3 \<le> length fs" and "zeroed m fs"
  shows "spec_tables False virt (p, m, fs) = spec_tables True virt (p, m, fs)"
    and "spec_tables False virt (p, m, fs) = (t, m', fs') \<Longrightarrow> zeroed m' fs'"
proof -
  obtain t1 m1 fs1 where 1: "spec_step True (idx 4 virt) (p, m, fs) = (t1, m1, fs1)" by (metis prod_cases3)
  obtain t2 m2 fs2 where 2: "spec_step True (idx 3 virt) (t1, m1, fs1) = (t2, m2, fs2)" by (metis prod_cases3)
  obtain t3 m3 fs3 where 3: "spec_step True (idx 2 virt) (t2, m2, fs2) = (t3, m3, fs3)" by (metis prod_cases3)
  have ne: "fs \<noteq> []" using assms(3) by auto
  from spec_step_extends[OF assms(1,2) _ pwalk.simps(1) ne, of True] 1
  have w1: "pwalk m1 p virt 1 = Some t1" and e1: "extends 1 True virt p (m, fs) (m1, fs1)" by simp_all
  have l1: "2 \<le> length fs1" using extendsD(2)[OF e1] assms(3) by auto
  then have ne1: "fs1 \<noteq> []" by auto
  from spec_step_extends[OF extendsD(1)[OF e1] assms(2) _ w1 ne1, of True] 2
  have w2: "pwalk m2 p virt 2 = Some t2" and e2: "extends 1 True virt p (m1, fs1) (m2, fs2)"
    by (simp_all add: numeral_2_eq_2 numeral_3_eq_3)
  have ne2: "fs2 \<noteq> []" using extendsD(2)[OF e2] l1 by auto
  have fr: "\<forall>f\<in>set fs'. is_frame f \<and> f \<noteq> t" "is_frame t" "distinct fs'"
    if "tables_ok m' p fs'" "pwalk m' p virt k = Some t" "k \<le> 3" for m' fs' k t
    using tables_okD(2,3)[OF that(1)] tables_okD(6)[OF that(1) assms(2) that(3)] that(2)
      pwalk_frame[OF tables_okD(1)[OF that(1)] that(2)] by auto
  note z1 = spec_step_zeroed[OF assms(4) fr[OF assms(1) pwalk.simps(1)] ne idx_less 1]
  note z2 = spec_step_zeroed[OF z1(1) fr[OF extendsD(1)[OF e1] w1] ne1 idx_less 2]
  note z3 = spec_step_zeroed[OF z2(1) fr[OF extendsD(1)[OF e2] w2] ne2 idx_less 3]
  show "spec_tables False virt (p, m, fs) = spec_tables True virt (p, m, fs)"
    "spec_tables False virt (p, m, fs) = (t, m', fs') \<Longrightarrow> zeroed m' fs'"
    using 1 2 3 z3 by (auto simp: spec_tables_def)
qed

lemma spec_map_zeroed:
  assumes "tables_ok m p fs" and "own virt" and "3 \<le> length fs" and "zeroed m fs"
    and "spec_map False virt e p (m, fs) = (m', fs')"
  shows "spec_map True virt e p (m, fs) = (m', fs')" and "zeroed m' fs'"
proof -
  obtain t m1 where st: "spec_tables False virt (p, m, fs) = (t, m1, fs')"
    and m': "m' = wr64 m1 (slot t (idx 1 virt)) e"
    using assms(5) by (auto simp: spec_map_def split: prod.splits)
  note Z = spec_tables_zeroed[OF assms(1-4)]
  show "spec_map True virt e p (m, fs) = (m', fs')" using Z(1) assms(5) by (simp add: spec_map_def)
  have z: "zeroed m1 fs'" by (rule Z(2)[OF st])
  from spec_tables_extends[OF assms(1-3) st]
  have w: "pwalk m1 p virt 3 = Some t" and ok: "tables_ok m1 p fs'" using extendsD(1) by blast+
  note D = tables_okD[OF ok]
  have "m' (f + of_nat b) = m1 (f + of_nat b)" if "f \<in> set fs'" "b < 4096" for f b
  proof -
    have "t \<noteq> f" using D(6)[OF assms(2) _ that(1), of 3] w by auto
    then show ?thesis unfolding m' by (rule wr64_page[OF pwalk_frame[OF D(1) w] D(2)[OF that(1)] _ idx_less that(2)])
  qed
  then show "zeroed m' fs'" using z by (simp add: zeroed_def)
qed

lemma eight_zeroed: "zeroed (mem (boot_mm (\<lambda>_. 0))) eight_frames"
proof -
  have p: "is_frame 0x1000" by (simp add: is_frame_def frame_def)
  have "boot_ram 0x1000 (\<lambda>_. 0) (f + of_nat b) = 0" if "f \<in> set eight_frames" "b < 4096" for f b
  proof -
    have "is_frame f" "0x1000 \<noteq> f" using that(1) by (auto simp: eight_frames_def is_frame_def frame_def)
    from wr64_page[OF p this _ that(2), of 510] show ?thesis by (simp add: boot_ram_def zero_page_def)
  qed
  then show ?thesis by (simp add: zeroed_def boot_mm_def)
qed

lemma new_table_else:
  assumes "new_table m p f fs virt 2 t z e m'" and "own v" and "\<not> agree 3 v virt"
  shows "pwalk m' p v 4 = pwalk m p v 4"
proof -
  note N = new_tableD[OF assms(1)] and F = new_table_frames[OF assms(1)]
  have 3: "pwalk m' p v 3 = pwalk m p v 3"
    using new_table_only[OF assms(1,2), of 3] new_table_keep_own[OF assms(1,2), of 3] assms(3)
    by (cases "pwalk m p v 3"; cases "pwalk m' p v 3") (auto simp: numeral_3_eq_3)
  show ?thesis
  proof (cases "pwalk m p v 3")
    case None
    then show ?thesis using 3 by (simp add: eval_nat_numeral)
  next
    case (Some u)
    have "u \<noteq> f" using tables_okD(6)[OF N(1) assms(2), of 3 f] Some by auto
    moreover have "u \<noteq> t" using tables_okD(7)[OF N(1) assms(2) N(2), of 3 2 t] Some N(4) by auto
    ultimately have "rd64 m' (slot u (idx 1 v)) = rd64 m (slot u (idx 1 v))"
      using new_table_rd[OF assms(1) pwalk_frame[OF F(1) Some] idx_less, of 1 v] by simp
    then show ?thesis using pwalk_step[of m' p v 3 u] pwalk_step[of m p v 3 u] Some 3 by simp
  qed
qed

lemma extends_walk:
  assumes "extends n True virt p (m, fs) (m', fs')" and "own v"
  shows "pwalk m' p v 4 = pwalk m p v 4"
proof -
  have "pwalk m p v 4 = Some x \<Longrightarrow> pwalk m' p v 4 = Some x" for x by (rule extendsD(3)[OF assms]) simp_all
  moreover have "pwalk m' p v 4 = Some x \<Longrightarrow> pwalk m p v 4 = Some x" for x by (rule extendsD(4)[OF assms(1) TrueI assms(2)])
  ultimately show ?thesis by (metis option.exhaust)
qed

lemma fresh_level1:
  assumes "tables_ok m p fs" and "own virt" and "3 \<le> length fs" and "pwalk m p virt 3 = None"
    and "spec_map False virt e p (m, fs) = (m', fs')"
  shows "\<exists>f\<in>set fs. (\<forall>v. agree 3 v virt \<and> idx 1 v \<noteq> idx 1 virt \<longrightarrow>
      pwalk m' p v 4 = (if present (rd64 m (slot f (idx 1 v))) then Some (frame (rd64 m (slot f (idx 1 v)))) else None)) \<and>
    (\<forall>v. own v \<and> \<not> agree 3 v virt \<longrightarrow> pwalk m' p v 4 = pwalk m p v 4)"
proof -
  obtain t1 m1 fs1 where 1: "spec_step True (idx 4 virt) (p, m, fs) = (t1, m1, fs1)" by (metis prod_cases3)
  obtain t2 m2 fs2 where 2: "spec_step True (idx 3 virt) (t1, m1, fs1) = (t2, m2, fs2)" by (metis prod_cases3)
  obtain t3 m3 fs3 where 3: "spec_step False (idx 2 virt) (t2, m2, fs2) = (t3, m3, fs3)" by (metis prod_cases3)
  have m': "m' = wr64 m3 (slot t3 (idx 1 virt)) e"
    using assms(5) 1 2 3 by (simp add: spec_map_def spec_tables_def)
  have n: "(0::nat) \<le> 2" "(1::nat) \<le> 2" "(2::nat) \<le> 2" by simp_all
  have i: "idx 4 virt = idx (4 - 0) virt" "idx 3 virt = idx (4 - 1) virt" "idx 2 virt = idx (4 - 2) virt" by simp_all
  have ne: "fs \<noteq> []" using assms(3) by auto
  from spec_step_extends[OF assms(1,2) n(1) pwalk.simps(1) ne _ 1[unfolded i(1)]]
  have w1: "pwalk m1 p virt 1 = Some t1" and e1: "extends 1 True virt p (m, fs) (m1, fs1)" by simp_all
  have l1: "2 \<le> length fs1" using extendsD(2)[OF e1] assms(3) by auto
  then have ne1: "fs1 \<noteq> []" by auto
  from spec_step_extends[OF extendsD(1)[OF e1] assms(2) n(2) w1 ne1 _ 2[unfolded i(2)]]
  have w2: "pwalk m2 p virt 2 = Some t2" and e2: "extends 1 True virt p (m1, fs1) (m2, fs2)"
    by (simp_all add: numeral_2_eq_2)
  have ne2: "fs2 \<noteq> []" using extendsD(2)[OF e2] l1 by auto
  note ok2 = extendsD(1)[OF e2]
  note d1 = spec_step_deeper[OF assms(1,2) n(1) pwalk.simps(1) ne _ 1[unfolded i(1)]]
  note d2 = spec_step_deeper[OF extendsD(1)[OF e1] assms(2) n(2) w1 ne1 _ 2[unfolded i(2)]]
  have none: "pwalk m2 p virt 3 = None"
  proof (rule ccontr)
    assume "pwalk m2 p virt 3 \<noteq> None"
    then obtain x where "pwalk m2 p virt 3 = Some x" by auto
    then have "pwalk m1 p virt 3 = Some x" by (intro d2(1)) simp_all
    then have "pwalk m p virt 3 = Some x" by (intro d1(1)) simp_all
    with assms(4) show False by simp
  qed
  have N: "fs2 = t3 # fs3" "new_table m2 p t3 fs3 virt 2 t2 False (t3 OR 1 OR 2 OR 4) m3"
  proof -
    have z: "False \<or> (2::nat) = 2" by simp
    have "fs2 = t3 # fs3 \<and> new_table m2 p t3 fs3 virt 2 t2 False (t3 OR 1 OR 2 OR 4) m3"
    proof (cases rule: spec_step_cases[OF ok2 assms(2) n(3) w2 ne2 z 3[unfolded i(3)]])
      case 1
      from spec_step_extends[OF ok2 assms(2) n(3) w2 ne2 _ 3[unfolded i(3)]]
      have "pwalk m3 p virt 3 = Some t3" by (simp add: numeral_3_eq_3)
      then show ?thesis using none 1(3) by simp
    next
      case 2
      then show ?thesis by blast
    qed
    then show "fs2 = t3 # fs3" "new_table m2 p t3 fs3 virt 2 t2 False (t3 OR 1 OR 2 OR 4) m3" by blast+
  qed
  have sub: "set fs2 \<subseteq> set fs1" "set fs1 \<subseteq> set fs"
    using extendsD(2)[OF e1] extendsD(2)[OF e2] by (auto dest: in_set_dropD)
  have bytes: "m2 (t3 + of_nat b) = m (t3 + of_nat b)" if "b < 4096" for b
    using d2(2)[OF _ _ that, of t3] d1(2)[OF _ _ that, of t3] N(1) sub(1) by auto
  note F = new_table_frames[OF N(2)]
  have "pwalk m3 p virt 3 = Some t3" using new_table_reach[OF N(2)] by (simp add: numeral_3_eq_3)
  then have L: "set_leaf m3 p fs3 virt t3 e m'" using new_table_ok[OF N(2)] assms(2) m' by (simp add: set_leaf_def)
  have "pwalk m' p v 4 = (if present (rd64 m (slot t3 (idx 1 v))) then Some (frame (rd64 m (slot t3 (idx 1 v)))) else None)"
    if v: "agree 3 v virt" "idx 1 v \<noteq> idx 1 virt" for v
  proof -
    have "own v" using v(1) assms(2) by (auto simp: own_def agree_def dest: spec[of _ 0])
    then have "pwalk m' p v 3 = pwalk m3 p v 3" using set_leaf_walk(1)[OF L, of v 3] by simp
    also have "\<dots> = Some t3" using agree_walk[OF v(1)] \<open>pwalk m3 p virt 3 = Some t3\<close> by simp
    finally have w: "pwalk m' p v 3 = Some t3" .
    have "rd64 m' (slot t3 (idx 1 v)) = rd64 m3 (slot t3 (idx 1 v))"
      using set_leaf_rd[OF L F(2) idx_less, of 1 v] v(2) by simp
    also have "\<dots> = rd64 m2 (slot t3 (idx 1 v))"
      using new_table_rd[OF N(2) F(2) idx_less, of 1 v] F(4) by auto
    also have "\<dots> = rd64 m (slot t3 (idx 1 v))"
      by (rule rd64_cong) (simp only: slot_bytes[OF idx_less] bytes)
    finally show ?thesis
      using pwalk_step[OF w] by (simp add: present_def numeral_eq_Suc)
  qed
  moreover have "pwalk m' p v 4 = pwalk m p v 4" if v: "own v" "\<not> agree 3 v virt" for v
  proof -
    have "\<not> agree 4 v virt" using v(2) agree_Suc[of 3 v virt] by auto
    then have "pwalk m' p v 4 = pwalk m3 p v 4" using set_leaf_walk(2)[OF L v(1)] by simp
    also have "\<dots> = pwalk m2 p v 4" by (rule new_table_else[OF N(2) v])
    also have "\<dots> = pwalk m p v 4"
      using extends_walk[OF e1 v(1)] extends_walk[OF e2 v(1)] by simp
    finally show ?thesis .
  qed
  ultimately show ?thesis using N(1) sub by (intro bexI[of _ t3]) auto
qed

lemma spec_map_same_frames:
  assumes "spec_map False virt e p st = (m, fs)" and "spec_map True virt e p st = (m', fs')"
  shows "fs = fs'"
proof -
  have "snd (snd (spec_step False i x)) = snd (snd (spec_step True i x))" for i x
    by (cases x) (simp add: spec_step_def Let_def)
  then have "snd (snd (spec_tables False virt (p, st))) = snd (snd (spec_tables True virt (p, st)))"
    by (simp add: spec_tables_def)
  then show ?thesis using assms by (auto simp: spec_map_def split: prod.splits)
qed

lemma rd64_zero_bytes:
  assumes "i < 512" and "\<And>b. b < 4096 \<Longrightarrow> m (t + of_nat b) = 0"
  shows "rd64 m (slot t i) = 0"
proof -
  have "m (slot t i + of_nat j) = 0" if "j < 8" for j
    using assms(2)[OF slot_bytes(2)[OF assms(1) that]] slot_bytes(1)[OF assms(1) that] by (simp only:)
  then have "rd64 m (slot t i) = rd64 (\<lambda>_. 0) (slot t i)" by (intro rd64_cong) simp
  also have "\<dots> = 0" by (intro bit_eqI) (simp add: bit_rd64)
  finally show ?thesis .
qed

lemma old_level1:
  assumes "tables_ok m p fs" and "own virt" and "3 \<le> length fs" and "pwalk m p virt 3 \<noteq> None"
    and "spec_map False virt e p (m, fs) = (m', fs')"
  shows "spec_map True virt e p (m, fs) = (m', fs')"
proof -
  obtain t1 m1 fs1 where 1: "spec_step True (idx 4 virt) (p, m, fs) = (t1, m1, fs1)" by (metis prod_cases3)
  obtain t2 m2 fs2 where 2: "spec_step True (idx 3 virt) (t1, m1, fs1) = (t2, m2, fs2)" by (metis prod_cases3)
  have ne: "fs \<noteq> []" using assms(3) by auto
  from spec_step_extends[OF assms(1,2) _ pwalk.simps(1) ne, of True] 1
  have w1: "pwalk m1 p virt 1 = Some t1" and e1: "extends 1 True virt p (m, fs) (m1, fs1)" by simp_all
  have ne1: "fs1 \<noteq> []" using extendsD(2)[OF e1] assms(3) by auto
  from spec_step_extends[OF extendsD(1)[OF e1] assms(2) _ w1 ne1, of True] 2
  have w2: "pwalk m2 p virt 2 = Some t2" and e2: "extends 1 True virt p (m1, fs1) (m2, fs2)"
    by (simp_all add: numeral_2_eq_2 numeral_3_eq_3)
  from assms(4) obtain x where "pwalk m p virt 3 = Some x" by auto
  then have "pwalk m2 p virt (Suc 2) = Some x"
    using extendsD(3)[OF e1 assms(2), of 3 x] extendsD(3)[OF e2 assms(2), of 3 x] by simp
  then have "rd64 m2 (slot t2 (idx 2 virt)) \<noteq> 0" using pwalk_step[OF w2] by auto
  then have "spec_step True (idx 2 virt) (t2, m2, fs2) = spec_step False (idx 2 virt) (t2, m2, fs2)"
    by (simp add: spec_step_def Let_def)
  then show ?thesis using assms(5) 1 2 by (simp add: spec_map_def spec_tables_def)
qed

section \<open>The exact effect of mapping a page\<close>

text \<open>
  A new table of the last level is not zeroed by \<^verbatim>\<open>map_page\<close>. If the address \<open>virt\<close> had no
  such table, the bytes that the page \<open>f\<close> taken for it happens to hold become the entries of all other
  addresses with the same upper indices: what is present in them is mapped. \<open>maps_exactly\<close> says where every
  address is afterwards: in the page of \<open>virt\<close>, under a new table of the last level (\<open>fresh\<close>), or anywhere else.
\<close>

definition stale_entry :: "ram \<Rightarrow> u64 \<Rightarrow> u64 \<Rightarrow> u64 option" where
  "stale_entry m f v =
     (let e = rd64 m (slot f (idx 1 v)) in if present e then Some (frame e + (v AND 0xfff)) else None)"

definition maps_exactly :: "u64 list \<Rightarrow> u64 \<Rightarrow> u64 \<Rightarrow> u64 \<Rightarrow> ram \<Rightarrow> ram \<Rightarrow> bool" where
  "maps_exactly fs p virt fr m m' =
     (\<exists>fresh. (fresh = None \<longleftrightarrow> pwalk m p virt 3 \<noteq> None) \<and> set_option fresh \<subseteq> set fs \<and>
        (\<forall>v. own v \<longrightarrow> translate m' p v =
           (if drop_bit 12 v = drop_bit 12 virt then Some (fr + (v AND 0xfff))
            else if canonical v \<and> agree 3 v virt \<and> fresh \<noteq> None then stale_entry m (the fresh) v
            else translate m p v)))"

lemma spec_map_exactly:
  assumes "tables_ok m p fs" and "own virt" and "canonical virt" and "3 \<le> length fs" and "fl < 0x1000" and "odd fl"
    and "spec_map False virt (frame ph OR fl) p (m, fs) = (m', fs')"
  shows "maps_exactly fs p virt (frame ph) m m'"
proof (cases "pwalk m p virt 3")
  case (Some t)
  have "spec_map True virt (frame ph OR fl) p (m, fs) = (m', fs')" by (rule old_level1[OF assms(1,2,4) _ assms(7)]) (simp add: Some)
  from spec_map_maps_one[OF assms(1-6) this] show ?thesis
    unfolding maps_exactly_def maps_one_def by (intro exI[of _ None]) (simp add: Some)
next
  case None
  note tr = translate_frame[OF tables_okD(1)[OF assms(1)]]
  from fresh_level1[OF assms(1,2,4) None assms(7)] obtain f where f: "f \<in> set fs"
    "\<And>v. agree 3 v virt \<Longrightarrow> idx 1 v \<noteq> idx 1 virt \<Longrightarrow>
      pwalk m' p v 4 = (if present (rd64 m (slot f (idx 1 v))) then Some (frame (rd64 m (slot f (idx 1 v)))) else None)"
    "\<And>v. own v \<Longrightarrow> \<not> agree 3 v virt \<Longrightarrow> pwalk m' p v 4 = pwalk m p v 4" by blast
  have page: "translate m' p v = Some (frame ph + (v AND 0xfff))" if "drop_bit 12 v = drop_bit 12 virt" for v
    using spec_map_maps_one[OF assms] that by (simp add: maps_one_def)
  have "translate m' p v = (if canonical v \<and> agree 3 v virt then stale_entry m f v else translate m p v)"
    if v: "own v" "drop_bit 12 v \<noteq> drop_bit 12 virt" for v
  proof (cases "canonical v \<and> agree 3 v virt")
    case True
    then have "\<not> agree 4 v virt" using agree_same_page[OF _ _ assms(3)] v(2) by blast
    then have "idx 1 v \<noteq> idx 1 virt" using True agree_Suc[of 3 v virt] by auto
    then show ?thesis using True f(2)[of v] by (simp add: tr stale_entry_def Let_def)
  next
    case False
    then show ?thesis using f(3)[OF v(1)] by (auto simp: tr)
  qed
  then show ?thesis
    using page f(1) None unfolding maps_exactly_def by (intro exI[of _ "Some f"]) simp
qed

lemma maps_exactly_page:
  assumes "drop_bit 12 v = drop_bit 12 w" and "maps_exactly fs p v fr m m'"
  shows "maps_exactly fs p w fr m m'"
proof -
  have a: "agree 3 v w" using same_page_agree(1)[OF assms(1)] by (simp add: agree_def)
  then have "agree 3 x v = agree 3 x w" for x by (auto simp: agree_def)
  then have "(\<lambda>x. agree 3 x v) = (\<lambda>x. agree 3 x w)" by (rule ext)
  then show ?thesis using assms(2) unfolding maps_exactly_def assms(1) agree_walk[OF a, of m p] by (simp only: fun_eq_iff)
qed

lemma spec_map_keeps:
  assumes "tables_ok m p fs" and "own virt" and "3 \<le> length fs" and "spec_map z virt e p (m, fs) = (m', fs')"
    and "own v" and "k \<le> 3" and "pwalk m p v k = Some x"
  shows "pwalk m' p v k = Some x"
proof -
  obtain t m1 where s: "spec_tables z virt (p, m, fs) = (t, m1, fs')" "m' = wr64 m1 (slot t (idx 1 virt)) e"
    using assms(4) by (auto simp: spec_map_def split: prod.splits)
  from spec_tables_extends[OF assms(1-3) s(1)]
  have w: "pwalk m1 p virt 3 = Some t" and E: "extends 3 z virt p (m, fs) (m1, fs')" by simp_all
  have L: "set_leaf m1 p fs' virt t e m'" using extendsD(1)[OF E] assms(2) w s(2) by (simp add: set_leaf_def)
  show ?thesis using set_leaf_walk(1)[OF L assms(5,6)] extendsD(3)[OF E assms(5) _ assms(7)] assms(6) by simp
qed

lemma maps_exactly_one:
  assumes "maps_exactly fs p virt fr m m'" and "own virt" and "is_frame p"
    and "z \<Longrightarrow> pwalk m p virt 3 \<noteq> None \<or> zeroed m fs"
  shows "maps_one z p virt fr m m'"
proof -
  obtain fresh where x: "fresh = None \<longleftrightarrow> pwalk m p virt 3 \<noteq> None" "set_option fresh \<subseteq> set fs"
    "\<And>v. own v \<Longrightarrow> translate m' p v =
       (if drop_bit 12 v = drop_bit 12 virt then Some (fr + (v AND 0xfff))
        else if canonical v \<and> agree 3 v virt \<and> fresh \<noteq> None then stale_entry m (the fresh) v
        else translate m p v)" using assms(1) unfolding maps_exactly_def by blast
  show ?thesis
    unfolding maps_one_def
  proof (intro conjI allI impI; (elim conjE)?)
    fix v
    assume "drop_bit 12 v = drop_bit 12 virt"
    then show "translate m' p v = Some (fr + (v AND 0xfff))" using x(3)[of v] same_page_agree(3)[of v virt] assms(2) by simp
  next
    fix v
    assume v: "own v" "drop_bit 12 v \<noteq> drop_bit 12 virt" "translate m p v \<noteq> None \<or> z"
    show "translate m' p v = translate m p v"
    proof (cases "canonical v \<and> agree 3 v virt \<and> fresh \<noteq> None")
      case True
      then obtain f where f: "fresh = Some f" "f \<in> set fs" using x(2) by auto
      have "pwalk m p v 3 = None" using x(1) True agree_walk[of 3 v virt m p] by auto
      then have none: "translate m p v = None" by (simp add: translate_frame[OF assms(3)] eval_nat_numeral)
      then have "zeroed m fs" using v(3) assms(4) x(1) f(1) by auto
      then have "rd64 m (slot f (idx 1 v)) = 0"
        using f(2) rd64_zero_bytes[OF idx_less, of m f 1 v] by (simp add: zeroed_def)
      then show ?thesis using x(3)[OF v(1)] v(2) True none f(1) by (simp add: stale_entry_def present_def)
    qed (use x(3)[OF v(1)] v(2) in auto)
  qed
qed

text \<open>C8: \<^verbatim>\<open>map_page\<close> through the recursive entry maps the page of \<open>virt\<close> to the frame of
  \<open>phys\<close>: every address of the page translates to it, and every other address translates as before, with one exception: if
  \<open>virt\<close> had no table of the last level, a free page becomes this table as it is, and the addresses under
  it translate as the old bytes of that page say. The table stays well formed with the pages that are left, and the bytes
  of all pages that are neither tables nor free stay. (\<open>virt\<close> is canonical and not in the range of the recursive entry, the flags
  are flag bits with the present bit, and there are three free pages.)\<close>

theorem map_page_maps:
  assumes "tables_ok (mem s) p fs" and "free_frames s fs" and "3 \<le> length fs"
    and "own virt" and "canonical virt" and "flags < 0x1000" and "odd flags"
  shows "\<exists>s' n. map_page (Paged p) phys virt flags q s = Inr (virt + PAGESIZE, s') \<and>
    maps_exactly fs p virt (frame phys) (mem s) (mem s') \<and>
    n \<le> 3 \<and> tables_ok (mem s') p (drop n fs) \<and> free_frames s' (drop n fs) \<and>
    (\<forall>g b. data_page (mem s) p fs g \<and> b < 4096 \<longrightarrow> mem s' (g + of_nat b) = mem s (g + of_nat b))"
proof -
  obtain m' fs' where sp: "spec_map False virt (frame phys OR flags) p (mem s, fs) = (m', fs')"
    by (cases "spec_map False virt (frame phys OR flags) p (mem s, fs)") auto
  note S = spec_map_correct[OF assms(1,4,3) sp]
  from S(2) obtain n where n: "n \<le> 3" "fs' = drop n fs" by blast
  from map_page_refines[OF assms(1,4,2,3) sp] obtain l where
    "map_page (Paged p) phys virt flags q s = Inr (virt + PAGESIZE, s\<lparr>lists := l, mem := m'\<rparr>)"
    "free_frames (s\<lparr>lists := l, mem := m'\<rparr>) fs'" by blast
  moreover have "maps_exactly fs p virt (frame phys) (mem s) m'"
    by (rule spec_map_exactly[OF assms(1,4,5,3,6,7) sp])
  ultimately show ?thesis using n S(1,6) by (intro exI[of _ "s\<lparr>lists := l, mem := m'\<rparr>"] exI[of _ n]) simp
qed

lemma map_page_maps_witness:
  "\<exists>s'. map_page (Paged 0x1000) 0xb8000 0xffffffff80400000 3 0 (boot_mm (\<lambda>_. 0)) = Inr (0xffffffff80401000, s') \<and>
     translate (mem s') 0x1000 0xffffffff80400123 = Some 0xb8123"
proof -
  have o: "own 0xffffffff80400000" "canonical 0xffffffff80400000"
    by (simp_all add: own_def idx_def canonical_def drop_bit_eq_div)
  have f: "frame 0xb8000 = (0xb8000 :: u64)" by (simp add: frame_def)
  have l: "3 \<le> length eight_frames" by (simp add: eight_frames_def)
  from map_page_maps[where s = "boot_mm (\<lambda>_. 0)" and flags = 3 and phys = "0xb8000" and q = 0, OF boot_mm_ok l o]
  obtain s' where
    s': "map_page (Paged 0x1000) 0xb8000 0xffffffff80400000 3 0 (boot_mm (\<lambda>_. 0)) = Inr (0xffffffff80400000 + PAGESIZE, s')"
      "maps_exactly eight_frames 0x1000 0xffffffff80400000 0xb8000 (mem (boot_mm (\<lambda>_. 0))) (mem s')"
    unfolding f by auto
  have "drop_bit 12 (0xffffffff80400123 :: u64) = drop_bit 12 0xffffffff80400000" by (simp add: drop_bit_eq_div)
  with s'(2) have "translate (mem s') 0x1000 0xffffffff80400123 = Some (0xb8000 + (0xffffffff80400123 AND 0xfff))"
    using maps_exactly_one[OF s'(2) o(1), of False] unfolding maps_one_def by (simp add: is_frame_def frame_def)
  then show ?thesis using s'(1) by simp
qed

text \<open>C32: The two functions that map a page are equivalent up to a table of the last level that is not zeroed: called with the flags
  that \<^verbatim>\<open>k_map_v\<close> writes, \<^verbatim>\<open>map_page\<close> through the recursive entry, with paging on, uses the same free pages as
  \<^verbatim>\<open>k_map_v\<close> on physical addresses at boot, and every address translates to the same afterwards, except for those
  under a table of the last level that \<open>virt\<close> did not have before. If it had one, or the free pages hold zeros, the two leave the same memory.
  (\<open>virt\<close> is canonical and not in the range of the recursive entry, and there are three free pages.)\<close>

theorem map_page_equals_k_map_v:
  assumes "tables_ok (mem s) p fs" and "free_frames s fs" and "3 \<le> length fs" and "own virt" and "canonical virt"
  shows "\<exists>l l' m m' fs'. map_page (Paged p) phys virt (PRESENT OR READ_WRITE) q s = Inr (virt + PAGESIZE, s\<lparr>lists := l, mem := m\<rparr>) \<and>
    k_map_v Identity phys virt p 4 s = Inr (s\<lparr>lists := l', mem := m'\<rparr>) \<and>
    free_frames (s\<lparr>lists := l, mem := m\<rparr>) fs' \<and> free_frames (s\<lparr>lists := l', mem := m'\<rparr>) fs' \<and>
    (\<forall>v. own v \<and> (agree 3 v virt \<and> drop_bit 12 v \<noteq> drop_bit 12 virt \<longrightarrow> pwalk (mem s) p virt 3 \<noteq> None) \<longrightarrow>
      translate m p v = translate m' p v) \<and>
    (pwalk (mem s) p virt 3 \<noteq> None \<or> zeroed (mem s) fs \<longrightarrow> m = m')"
proof -
  let ?e = "frame phys OR (PRESENT OR READ_WRITE)"
  obtain m fs1 where sp: "spec_map False virt ?e p (mem s, fs) = (m, fs1)" by (metis surj_pair)
  obtain m' fs2 where sp': "spec_map True virt ?e p (mem s, fs) = (m', fs2)" by (metis surj_pair)
  have e: "spec_map True virt (frame phys OR PRESENT OR READ_WRITE) p (mem s, fs) = (m', fs2)" using sp' by (simp add: or.assoc)
  have fl: "(PRESENT OR READ_WRITE :: u64) < 0x1000" "odd (PRESENT OR READ_WRITE :: u64)" by simp_all
  have fs: "fs1 = fs2" by (rule spec_map_same_frames[OF sp sp'])
  note x = spec_map_exactly[OF assms(1,4,5,3) fl sp] and one = spec_map_maps_one[OF assms(1,4,5,3) fl sp']
  have "translate m p v = translate m' p v"
    if v: "own v" "agree 3 v virt \<and> drop_bit 12 v \<noteq> drop_bit 12 virt \<longrightarrow> pwalk (mem s) p virt 3 \<noteq> None" for v
  proof (cases "drop_bit 12 v = drop_bit 12 virt")
    case True
    then show ?thesis using x one v(1) by (auto simp: maps_exactly_def maps_one_def)
  next
    case False
    from x obtain fresh where f: "fresh = None \<longleftrightarrow> pwalk (mem s) p virt 3 \<noteq> None"
      "\<And>v. own v \<Longrightarrow> translate m p v = (if drop_bit 12 v = drop_bit 12 virt then Some (frame phys + (v AND 0xfff))
         else if canonical v \<and> agree 3 v virt \<and> fresh \<noteq> None then stale_entry (mem s) (the fresh) v else translate (mem s) p v)"
      unfolding maps_exactly_def by blast
    have "\<not> (canonical v \<and> agree 3 v virt \<and> fresh \<noteq> None)" using v(2) False f(1) by blast
    then have "translate m p v = translate (mem s) p v" using f(2)[OF v(1)] False by (simp only: if_False)
    moreover have "translate m' p v = translate (mem s) p v" using one False v(1) by (simp add: maps_one_def)
    ultimately show ?thesis by simp
  qed
  moreover have "m = m'" if "pwalk (mem s) p virt 3 \<noteq> None \<or> zeroed (mem s) fs"
    using that old_level1[OF assms(1,4,3) _ sp] spec_map_zeroed(1)[OF assms(1,4,3) _ sp] sp' by auto
  ultimately show ?thesis
    using k_map_v_refines[OF assms(1,4,2,3) e] map_page_refines[OF assms(1,4,2,3) sp, of q] fs by blast
qed

lemma map_page_equals_k_map_v_witness:
  "\<exists>l l' m. map_page (Paged 0x1000) 0xb8000 0xffffffff80400000 (PRESENT OR READ_WRITE) 0 (boot_mm (\<lambda>_. 0)) =
       Inr (0xffffffff80401000, (boot_mm (\<lambda>_. 0))\<lparr>lists := l, mem := m\<rparr>) \<and>
     k_map_v Identity 0xb8000 0xffffffff80400000 0x1000 4 (boot_mm (\<lambda>_. 0)) = Inr ((boot_mm (\<lambda>_. 0))\<lparr>lists := l', mem := m\<rparr>)"
proof -
  have o: "own 0xffffffff80400000" "canonical 0xffffffff80400000" by (simp_all add: own_def idx_def canonical_def drop_bit_eq_div)
  have l: "3 \<le> length eight_frames" by (simp add: eight_frames_def)
  from map_page_equals_k_map_v[OF boot_mm_ok[of "\<lambda>_. 0"] l o, of "0xb8000" 0] obtain l l' m m' where
    "map_page (Paged 0x1000) 0xb8000 0xffffffff80400000 (PRESENT OR READ_WRITE) 0 (boot_mm (\<lambda>_. 0)) =
       Inr (0xffffffff80400000 + PAGESIZE, (boot_mm (\<lambda>_. 0))\<lparr>lists := l, mem := m\<rparr>)"
    "k_map_v Identity 0xb8000 0xffffffff80400000 0x1000 4 (boot_mm (\<lambda>_. 0)) = Inr ((boot_mm (\<lambda>_. 0))\<lparr>lists := l', mem := m'\<rparr>)"
    "m = m'" using eight_zeroed by blast
  then show ?thesis by (intro exI[of _ l] exI[of _ l'] exI[of _ m]) simp
qed

text \<open>The exception in \<open>map_page_maps\<close> is real: with old bytes in the free pages, addresses become mapped.\<close>

theorem fresh_level1_not_zeroed:
  assumes "tables_ok (mem s) p fs" and "free_frames s fs" and "3 \<le> length fs" and "own virt"
    and "pwalk (mem s) p virt 3 = None"
  shows "\<exists>s'. map_page (Paged p) phys virt flags q s = Inr (virt + PAGESIZE, s') \<and>
    (\<exists>f\<in>set fs. \<forall>v. agree 3 v virt \<and> idx 1 v \<noteq> idx 1 virt \<longrightarrow>
       pwalk (mem s') p v 4 =
         (if present (rd64 (mem s) (slot f (idx 1 v))) then Some (frame (rd64 (mem s) (slot f (idx 1 v)))) else None))"
proof -
  obtain m' fs' where sp: "spec_map False virt (frame phys OR flags) p (mem s, fs) = (m', fs')"
    by (metis surj_pair)
  from map_page_refines[OF assms(1,4,2,3) sp, of q] obtain l where
    "map_page (Paged p) phys virt flags q s = Inr (virt + PAGESIZE, s\<lparr>lists := l, mem := m'\<rparr>)" by blast
  with fresh_level1[OF assms(1,4,3,5) sp] show ?thesis
    by (intro exI[of _ "s\<lparr>lists := l, mem := m'\<rparr>"]) simp
qed

lemma fresh_level1_not_zeroed_witness:
  "\<exists>s'. map_page (Paged 0x1000) 0xb8000 0xffffffff80400000 3 0 (boot_mm (\<lambda>_. 7)) = Inr (0xffffffff80401000, s') \<and>
     pwalk (mem s') 0x1000 0xffffffff80401000 4 \<noteq> None"
proof -
  let ?v = "0xffffffff80400000 :: u64"
  have p: "is_frame 0x1000" by (simp add: is_frame_def frame_def)
  have o: "own ?v" by (simp add: own_def idx_def drop_bit_eq_div)
  have l: "3 \<le> length eight_frames" by (simp add: eight_frames_def)
  have "pwalk (mem (boot_mm (\<lambda>_. 7))) 0x1000 ?v 3 = None"
    unfolding boot_mm_def mm.select_convs boot_walk[OF p o] by simp
  from fresh_level1_not_zeroed[where flags = 3 and phys = "0xb8000" and q = 0, OF boot_mm_ok l o this] obtain s' f where
    s': "map_page (Paged 0x1000) 0xb8000 ?v 3 0 (boot_mm (\<lambda>_. 7)) = Inr (?v + PAGESIZE, s')" "f \<in> set eight_frames"
      "\<And>v. agree 3 v ?v \<and> idx 1 v \<noteq> idx 1 ?v \<Longrightarrow> pwalk (mem s') 0x1000 v 4 =
        (if present (rd64 (mem (boot_mm (\<lambda>_. 7))) (slot f (idx 1 v)))
         then Some (frame (rd64 (mem (boot_mm (\<lambda>_. 7))) (slot f (idx 1 v)))) else None)"
    by blast
  have f: "is_frame f" "0x1000 \<noteq> f" using s'(2) by (auto simp: eight_frames_def is_frame_def frame_def)
  have "idx (4 - i) 0xffffffff80401000 = idx (4 - i) ?v" if i: "i < 3" for i
  proof -
    from i have "i = 0 \<or> i = 1 \<or> i = 2" by linarith
    then show ?thesis by (elim disjE) (simp_all add: idx_def drop_bit_eq_div)
  qed
  then have a: "agree 3 0xffffffff80401000 ?v" by (simp add: agree_def)
  have i: "idx 1 0xffffffff80401000 = 1" "idx 1 ?v = 0" by (simp_all add: idx_def drop_bit_eq_div)
  have m: "mem (boot_mm (\<lambda>_. 7)) (slot f 1 + of_nat 0) = 7"
    unfolding slot_bytes(1)[of 1 0 f, simplified]
    using wr64_page[OF p f _ _, of 510 8 "zero_page 0x1000 (\<lambda>_. 7)"] unat_page_diff[OF p f(1), of 8] f(2)
    by (simp add: boot_mm_def boot_ram_def zero_page_def slot_def)
  then have "bit (rd64 (mem (boot_mm (\<lambda>_. 7))) (slot f 1)) 0" by (simp add: bit_rd64 bit_0 del: bit_0)
  then have "present (rd64 (mem (boot_mm (\<lambda>_. 7))) (slot f 1))" by (simp add: present_odd bit_0)
  then show ?thesis using s'(1) s'(3)[of "0xffffffff80401000"] a i by simp
qed

section \<open>Mapping a region at boot\<close>

lemma same_page_iff:
  assumes "\<And>n. n < 12 \<Longrightarrow> \<not> bit v n"
  shows "drop_bit 12 w = drop_bit 12 v \<longleftrightarrow> unat (w - v :: u64) < 4096"
    and "drop_bit 12 w = drop_bit 12 v \<Longrightarrow> w AND 0xfff = w - v"
proof -
  have 1: "drop_bit 12 w = drop_bit 12 v \<and> w AND 0xfff = w - v" if "unat (w - v) < 4096"
  proof -
    have w: "w = v + of_nat (unat (w - v))" by simp
    note b = frame_offset(2)[OF assms that]
    have "drop_bit 12 (v + of_nat (unat (w - v))) = drop_bit 12 v"
      by (intro bit_eqI) (simp only: bit_drop_bit_eq b if_False not_add_less1 o_def)
    moreover have "(v + of_nat (unat (w - v))) AND 0xfff = of_nat (unat (w - v))" by (rule idx_page(2)[OF assms that])
    ultimately show ?thesis using w by simp
  qed
  have 2: "unat (w - v) < 4096" if "drop_bit 12 w = drop_bit 12 v"
  proof -
    have "take_bit 12 v = 0" using assms by (intro bit_eqI) (auto simp: bit_take_bit_iff)
    then have "v = push_bit 12 (drop_bit 12 w)" using bits_ident[of 12 v] that by simp
    then have "w = v + take_bit 12 w" using bits_ident[of 12 w] by simp
    then have "w - v = take_bit 12 w" by (simp add: algebra_simps)
    then show ?thesis by (simp add: take_bit_eq_mod unat_mod_distrib)
  qed
  show "drop_bit 12 w = drop_bit 12 v \<longleftrightarrow> unat (w - v) < 4096" using 1 2 by blast
  show "drop_bit 12 w = drop_bit 12 v \<Longrightarrow> w AND 0xfff = w - v" using 1 2 by blast
qed

text \<open>The last 512 GB of the address space: they are the kernel's and go through entry 511.\<close>

lemma top_own:
  assumes "0xffffff8000000000 \<le> w"
  shows "own w" and "canonical w"
proof -
  have "0xffffff8000000000 \<le> unat w" using assms by (simp add: word_le_nat_alt)
  then have "unat w div 2 ^ 39 = 2 ^ 25 - 1" using unat64_lt[of w] by simp
  then have "unat (drop_bit 39 w) = 2 ^ 25 - 1" by (simp add: drop_bit_eq_div unat_div_distrib)
  then have d: "drop_bit 39 w = mask 25" by (simp add: word_unat_eq_iff mask_eq_exp_minus_1)
  have b: "bit w n" if "39 \<le> n" "n < 64" for n
  proof -
    have "bit (drop_bit 39 w) (n - 39)" unfolding d using that by (auto simp: bit_mask_iff)
    then show ?thesis using that by (simp add: bit_drop_bit_eq)
  qed
  have "idx 4 w = mask 9" by (intro bit_eqI) (auto simp: bit_idx bit_mask_iff b)
  then show "own w" by (simp add: own_def mask_eq_exp_minus_1)
  have "drop_bit 47 w = mask 17" by (intro bit_eqI) (auto simp: bit_drop_bit_eq bit_mask_iff b dest: bit_imp_le_length)
  then show "canonical w" by (simp add: canonical_def mask_eq_exp_minus_1)
qed

definition maps_region :: "u64 \<Rightarrow> u64 \<Rightarrow> u64 \<Rightarrow> nat \<Rightarrow> ram \<Rightarrow> ram \<Rightarrow> bool" where
  "maps_region p virt phys n m m' =
     (\<forall>w. own w \<longrightarrow> translate m' p w =
        (if unat (w - virt) < 4096 * n then Some (phys + (w - virt)) else translate m p w))"

lemma maps_region_Suc:
  assumes "maps_one True p virt phys m m1" and "\<And>n. n < 12 \<Longrightarrow> \<not> bit virt n"
    and "maps_region p (virt + PAGESIZE) (phys + PAGESIZE) n m1 m'" and "4096 * Suc n \<le> 2 ^ 64"
  shows "maps_region p virt phys (Suc n) m m'"
  unfolding maps_region_def
proof (intro allI impI)
  fix w
  assume o: "own w"
  let ?x = "w - virt"
  have x: "w - (virt + PAGESIZE) = ?x - PAGESIZE" by (simp add: diff_diff_eq)
  have u: "unat (?x - PAGESIZE) = (if 4096 \<le> unat ?x then unat ?x - 4096 else unat ?x + 2 ^ 64 - 4096)"
    by (simp add: unat_sub_if')
  have m1: "translate m1 p w = (if unat ?x < 4096 then Some (phys + ?x) else translate m p w)"
    using assms(1) o same_page_iff[OF assms(2), where w = w] unfolding maps_one_def by auto
  have m': "translate m' p w = (if unat (?x - PAGESIZE) < 4096 * n then Some (phys + PAGESIZE + (?x - PAGESIZE))
      else translate m1 p w)"
    by (rule assms(3)[unfolded maps_region_def, rule_format, OF o, unfolded x])
  show "translate m' p w = (if unat ?x < 4096 * Suc n then Some (phys + ?x) else translate m p w)"
  proof (cases "4096 \<le> unat ?x")
    case True
    then have "unat ?x - 4096 < 4096 * n \<longleftrightarrow> unat ?x < 4096 * Suc n" by auto
    with True show ?thesis unfolding m' m1 u by simp
  next
    case False
    then have "\<not> unat (?x - PAGESIZE) < 4096 * n" unfolding u using assms(4) by simp
    then show ?thesis unfolding m' m1 using False by simp
  qed
qed

lemma low_bits_dvd: "(\<forall>n<12. \<not> bit (v :: u64) n) \<longleftrightarrow> 4096 dvd unat v"
proof -
  have "(\<forall>n<12. \<not> bit v n) \<longleftrightarrow> take_bit 12 v = 0" by (auto simp: bit_eq_iff bit_take_bit_iff)
  also have "\<dots> \<longleftrightarrow> unat v mod 4096 = 0" by (simp add: take_bit_eq_mod word_unat_eq_iff unat_mod_distrib)
  finally show ?thesis by (simp add: dvd_eq_mod_eq_0)
qed

lemma is_frame_iff: "is_frame f \<longleftrightarrow> 4096 dvd unat f \<and> unat f < 2 ^ 52"
proof -
  have "is_frame f \<longleftrightarrow> (\<forall>n<12. \<not> bit f n) \<and> take_bit 52 f = f"
  proof
    assume "is_frame f"
    then have "frame f = f" by (simp add: is_frame_def)
    then have b: "bit f n \<longleftrightarrow> 12 \<le> n \<and> n < 52 \<and> bit f n" for n using bit_frame[of f n] by simp
    have "take_bit 52 f = f"
    proof (rule bit_eqI)
      show "bit (take_bit 52 f) n \<longleftrightarrow> bit f n" for n using b[of n] by (cases "bit f n") (simp_all add: bit_take_bit_iff)
    qed
    moreover have "\<not> bit f n" if "n < 12" for n using b[of n] that by linarith
    ultimately show "(\<forall>n<12. \<not> bit f n) \<and> take_bit 52 f = f" by blast
  next
    assume H: "(\<forall>n<12. \<not> bit f n) \<and> take_bit 52 f = f"
    then have b: "bit f n \<longleftrightarrow> n < 52 \<and> bit f n" for n using bit_take_bit_iff[of 52 f n] by simp
    have "frame f = f"
    proof (rule bit_eqI)
      show "bit (frame f) n \<longleftrightarrow> bit f n" for n using b[of n] H by (cases "n < 12") (auto simp: bit_frame)
    qed
    then show "is_frame f" by (simp add: is_frame_def)
  qed
  moreover have "take_bit 52 f = f \<longleftrightarrow> unat f < 2 ^ 52"
    by (simp add: take_bit_eq_mod word_unat_eq_iff unat_mod_distrib mod_eq_self_iff_div_eq_0 div_eq_0_iff)
  ultimately show ?thesis by (simp add: low_bits_dvd)
qed

lemma k_mem_map_v_region:
  assumes "tables_ok (mem s) p fs" and "free_frames s fs" and "3 * n \<le> length fs"
    and "0xffffff8000000000 \<le> virt" and "unat virt + 4096 * n < 2 ^ 64" and "4096 dvd unat virt"
    and "4096 dvd unat base" and "unat base + 4096 * n < 2 ^ 52"
    and "\<And>i. i \<le> n \<Longrightarrow> base + of_nat (4096 * i) < lim \<longleftrightarrow> i < n"
  shows "\<exists>s' k. k_mem_map_v Identity base lim virt p s = Some (Inr (virt + of_nat (4096 * n), s')) \<and>
    maps_region p virt base n (mem s) (mem s') \<and> k \<le> 3 * n \<and> tables_ok (mem s') p (drop k fs) \<and>
    free_frames s' (drop k fs) \<and> available_virt_mem s' = available_virt_mem s"
  using assms
proof (induction n arbitrary: s fs virt base)
  case 0
  have "\<not> base < lim" using "0.prems"(9)[of 0] by simp
  then show ?case
    using "0.prems" by (subst k_mem_map_v.simps) (auto simp: maps_region_def intro!: exI[of _ 0])
next
  case (Suc n)
  note P = Suc.prems
  have o: "own virt" "canonical virt" using top_own[OF P(4)] by simp_all
  have fr: "is_frame base" using P(7,8) by (simp add: is_frame_iff)
  have len: "3 \<le> length fs" using P(3) by simp
  obtain m1 fs1 where sp: "spec_map True virt (frame base OR PRESENT OR READ_WRITE) p (mem s, fs) = (m1, fs1)"
    by (metis surj_pair)
  have sp3: "spec_map True virt (frame base OR 3) p (mem s, fs) = (m1, fs1)" using sp by (simp add: or.assoc)
  note S = spec_map_correct[OF P(1) o(1) len sp]
  from S(2) obtain i where i: "i \<le> 3" "fs1 = drop i fs" by blast
  from k_map_v_refines[OF P(1) o(1) P(2) len sp] obtain l where
    l: "k_map_v Identity base virt p 4 s = Inr (s\<lparr>lists := l, mem := m1\<rparr>)" "free_frames (s\<lparr>lists := l, mem := m1\<rparr>) fs1"
    by blast
  let ?s1 = "s\<lparr>lists := l, mem := m1\<rparr>"
  have one: "maps_one True p virt base (mem s) m1"
    using spec_map_maps_one[OF P(1) o len _ _ sp3] fr by (simp add: is_frame_def)
  have lim: "base < lim" using P(9)[of 0] by simp
  have step: "k_mem_map_v Identity base lim virt p s = k_mem_map_v Identity (base + PAGESIZE) lim (virt + PAGESIZE) p ?s1"
    by (subst k_mem_map_v.simps) (simp add: lim l(1))
  have uv: "unat (virt + PAGESIZE) = unat virt + 4096" "unat (base + PAGESIZE) = unat base + 4096"
    using unat_add_of_nat64[of virt 4096] unat_add_of_nat64[of base 4096] P(5,8) by simp_all
  have nxt: "0xffffff8000000000 \<le> virt + PAGESIZE" using P(4) by (simp add: word_le_nat_alt uv)
  have al: "unat (virt + PAGESIZE) + 4096 * n < 2 ^ 64" "4096 dvd unat (virt + PAGESIZE)"
    "4096 dvd unat (base + PAGESIZE)" "unat (base + PAGESIZE) + 4096 * n < 2 ^ 52"
    using P(5-8) by (simp_all add: uv)
  have bnd: "base + PAGESIZE + of_nat (4096 * j) < lim \<longleftrightarrow> j < n" if "j \<le> n" for j
    using P(9)[of "Suc j"] that by (simp add: algebra_simps)
  have "tables_ok (mem ?s1) p fs1" "3 * n \<le> length fs1" using S(1) i P(3) by simp_all
  from Suc.IH[OF this(1) l(2) this(2) nxt al bnd] obtain s' k where
    s': "k_mem_map_v Identity (base + PAGESIZE) lim (virt + PAGESIZE) p ?s1 =
        Some (Inr (virt + PAGESIZE + of_nat (4096 * n), s'))"
      "maps_region p (virt + PAGESIZE) (base + PAGESIZE) n m1 (mem s')" "k \<le> 3 * n" "tables_ok (mem s') p (drop k fs1)"
      "free_frames s' (drop k fs1)" "available_virt_mem s' = available_virt_mem s" by auto
  have "maps_region p virt base (Suc n) (mem s) (mem s')"
    using maps_region_Suc[OF one _ s'(2)] P(5,6) low_bits_dvd[of virt] by simp
  moreover have "drop k fs1 = drop (k + i) fs" "k + i \<le> 3 * Suc n" using i s'(3) by simp_all
  moreover have "virt + PAGESIZE + of_nat (4096 * n) = virt + of_nat (4096 * Suc n)" by (simp add: algebra_simps)
  ultimately show ?case
    using s' step by (intro exI[of _ s'] exI[of _ "k + i"]) simp
qed

section \<open>The page table of the kernel\<close>

lemma filter_free_frames:
  assumes "free_frames s fs" and "pg_base (page_list (lists s) 0) = 0" and "0 < b"
    and "gs = filter (\<lambda>f. \<not> (b \<le> f \<and> f < lim)) fs" and "gs \<noteq> []"
  shows "\<exists>l. filter_out_pages b lim (lists s) = Some (Inr l) \<and> free_frames (s\<lparr>lists := l\<rparr>) gs \<and>
    pg_base (page_list l 0) = 0"
proof -
  from assms(1) obtain ix us where
    P: "pool_inv (lists s) ix us" and fs: "fs = map (\<lambda>i. pg_base (page_list (lists s) i)) ix"
    by (auto simp: free_frames_def)
  let ?keep = "filter (\<lambda>i. \<not> in_range b lim (page_list (lists s)) i) ix"
  have gs: "gs = map (\<lambda>i. pg_base (page_list (lists s) i)) ?keep"
    unfolding assms(4) fs by (simp add: filter_map comp_def in_range_def)
  then have ne: "?keep \<noteq> []" using assms(5) by auto
  from P have P1: "chain (page_list (lists s)) (free_page_list_head (lists s)) ix" "distinct ix" "distinct (ix @ us)"
    "plist_repr (page_list (lists s), used_page_list_head (lists s), used_page_list_tail (lists s)) us"
    by (auto simp: pool_inv_def)
  from filter_out_pages_chain[OF P1(1,2) assms(2,3) refl, of lim] ne obtain l where
    l: "filter_out_pages b lim (lists s) = Some (Inr l)" "chain (page_list l) (free_page_list_head l) ?keep"
      "\<forall>i. pg_base (page_list l i) = pg_base (page_list (lists s) i)"
      "\<forall>i. i \<notin> set ix \<longrightarrow> page_list l i = page_list (lists s) i"
      "used_page_list_head l = used_page_list_head (lists s)" "used_page_list_tail l = used_page_list_tail (lists s)"
    by auto
  have "chain (page_list l) h us = chain (page_list (lists s)) h us" for h
    using l(4) P1(3) by (intro chain_cong) auto
  then have "pool_inv l ?keep us" using l(2,5,6) P1(3,4) by (auto simp: pool_inv_def plist_repr_def)
  then have "free_frames (s\<lparr>lists := l\<rparr>) gs"
    unfolding free_frames_def gs using l(3) by auto
  with l(1,3) assms(2) show ?thesis by auto
qed

lemma kernel_half:
  assumes "0xffffffff80000000 \<le> w"
  shows "w OR KERNEL_MAPPING = w"
proof -
  have "0xffffffff80000000 \<le> unat w" using assms by (simp add: word_le_nat_alt)
  then have "unat w div 2 ^ 31 = 2 ^ 33 - 1" using unat64_lt[of w] by simp
  then have "unat (drop_bit 31 w) = 2 ^ 33 - 1" by (simp add: drop_bit_eq_div unat_div_distrib)
  then have d: "drop_bit 31 w = mask 33" by (simp add: word_unat_eq_iff mask_eq_exp_minus_1)
  have k: "KERNEL_MAPPING = push_bit 31 (mask 33)" by (simp add: push_bit_eq_mult mask_eq_exp_minus_1)
  have "bit w n" if "bit KERNEL_MAPPING n" for n
  proof -
    have "bit (drop_bit 31 w) (n - 31)" "31 \<le> n" using that unfolding d k by (simp_all add: bit_push_bit_iff)
    then show ?thesis by (simp add: bit_drop_bit_eq)
  qed
  then show ?thesis by (intro bit_eqI) (auto simp: bit_or_iff)
qed

lemma page_count_less:
  assumes "unat a \<le> unat b" and "unat a + 4096 * page_count (b - a) < 2 ^ 64" and "i \<le> page_count (b - a)"
  shows "a + of_nat (4096 * i) < b \<longleftrightarrow> i < page_count (b - a)"
proof -
  have u: "unat (b - a) = unat b - unat a" using assms(1) by (simp add: unat_sub word_le_nat_alt)
  have "4096 * i \<le> 4096 * page_count (b - a)" using assms(3) by simp
  then have "unat a + 4096 * i < 2 ^ 64" using assms(2) by linarith
  then have "unat (a + of_nat (4096 * i)) = unat a + 4096 * i" by (rule unat_add_of_nat64)
  then show ?thesis
    using assms(1,3) u by (auto simp: word_less_nat_alt page_count_def)
qed

lemma pml4_setup:
  assumes "free_frames s (p # fs)" and "is_frame p"
  shows "\<exists>l. bindr (take_page s) (\<lambda>(kernel_pml4, s1).
        bindr (zero_out Identity kernel_pml4 (mem s1)) (\<lambda>m.
        bindr (vwr64 Identity (slot kernel_pml4 0x1fe) (kernel_pml4 OR USER_PAGE) m) (\<lambda>m'.
          Inr (kernel_pml4, s1\<lparr>mem := m'\<rparr>)))) = Inr (p, s\<lparr>lists := l, mem := boot_ram p (mem s)\<rparr>) \<and>
      free_frames (s\<lparr>lists := l, mem := boot_ram p (mem s)\<rparr>) fs"
proof -
  from take_page_free[OF assms(1)] obtain l where
    l: "take_page s = Inr (p, s\<lparr>lists := l\<rparr>)" "free_frames (s\<lparr>lists := l\<rparr>) fs" by blast
  then show ?thesis
    by (intro exI[of _ l]) (simp add: zero_out_identity[OF assms(2)] vwr64_def phys_of_def boot_ram_def free_frames_def)
qed

lemma setup_paging_run:
  assumes "free_frames s ps" and "pg_base (page_list (lists s) 0) = 0" and "distinct ps" and "\<forall>f\<in>set ps. is_frame f"
    and "fs = filter (\<lambda>f. \<not> (physbase \<le> f \<and> f < physfree) \<and> \<not> (0xb7000 \<le> f \<and> f < 0xbb200)) ps"
    and "n = page_count (physfree - physbase)" and "3 * (n + 4) < length fs"
    and "0 < physbase" and "physbase \<le> physfree" and "4096 dvd unat physbase" and "unat physbase + 4096 * n < 2 ^ 52"
    and "0xffffffff80000000 \<le> kv" and "4096 dvd unat kv" and "unat kv + 4096 * (n + 4) < 2 ^ 64"
  shows "\<exists>s' k. setup_paging physbase physfree 0xb8000 0xbb200 kv s = Some (Inr (hd fs, kv + of_nat (4096 * n), s')) \<and>
    available_virt_mem s' = kv + of_nat (4096 * (n + 4)) \<and> k \<le> 3 * (n + 4) \<and>
    tables_ok (mem s') (hd fs) (drop k (tl fs)) \<and> free_frames s' (drop k (tl fs)) \<and>
    (\<forall>w. own w \<longrightarrow> translate (mem s') (hd fs) w =
      (if unat (w - kv) < 4096 * n then Some (physbase + (w - kv))
       else if unat (w - (kv + of_nat (4096 * n))) < 4096 * 4 then Some (0xb8000 + (w - (kv + of_nat (4096 * n))))
       else None))"
proof -
  let ?P = "\<lambda>f. \<not> (physbase \<le> f \<and> f < physfree)" and ?d = "kv + of_nat (4096 * n)"
  let ?Q = "\<lambda>f. \<not> ((0xb8000 - PAGESIZE :: u64) \<le> f \<and> f < 0xbb200)"
  have fs: "fs = filter ?Q (filter ?P ps)" unfolding assms(5) filter_filter by (simp add: conj_commute)
  have "fs \<noteq> []" using assms(7) by auto
  then have ne: "filter ?Q (filter ?P ps) \<noteq> []" unfolding fs .
  then have ne: "filter ?Q (filter ?P ps) \<noteq> []" "filter ?P ps \<noteq> []" by (simp, metis filter.simps(1))
  from filter_free_frames[OF assms(1,2,8) refl ne(2)] obtain l1 where
    l1: "filter_out_pages physbase physfree (lists s) = Some (Inr l1)" "free_frames (s\<lparr>lists := l1\<rparr>) (filter ?P ps)"
      "pg_base (page_list l1 0) = 0" by blast
  have b0: "0 < (0xb8000 - PAGESIZE :: u64)" "pg_base (page_list (lists (s\<lparr>lists := l1\<rparr>)) 0) = 0" using l1(3) by simp_all
  from filter_free_frames[OF l1(2) b0(2,1) refl ne(1)] obtain l2 where
    l2: "filter_out_pages (0xb8000 - PAGESIZE) 0xbb200 l1 = Some (Inr l2)" "free_frames (s\<lparr>lists := l2\<rparr>) fs"
    unfolding fs by auto
  obtain p gs where p: "fs = p # gs" using assms(7) by (cases fs) auto
  have D: "is_frame p" "p \<notin> set gs" "distinct gs" "\<And>f. f \<in> set gs \<Longrightarrow> is_frame f"
  proof -
    have "distinct fs" "set fs \<subseteq> set ps" unfolding fs using assms(3) by auto
    then show "is_frame p" "p \<notin> set gs" "distinct gs" "\<And>f. f \<in> set gs \<Longrightarrow> is_frame f" using assms(4) p by auto
  qed
  from pml4_setup[OF l2(2)[unfolded p] D(1)] obtain l3 where
    l3: "bindr (take_page (s\<lparr>lists := l2\<rparr>)) (\<lambda>(kernel_pml4, s1).
        bindr (zero_out Identity kernel_pml4 (mem s1)) (\<lambda>m.
        bindr (vwr64 Identity (slot kernel_pml4 0x1fe) (kernel_pml4 OR USER_PAGE) m) (\<lambda>m'.
          Inr (kernel_pml4, s1\<lparr>mem := m'\<rparr>)))) = Inr (p, s\<lparr>lists := l3, mem := boot_ram p (mem s)\<rparr>)"
      "free_frames (s\<lparr>lists := l3, mem := boot_ram p (mem s)\<rparr>) gs" by auto
  let ?s3 = "s\<lparr>lists := l3, mem := boot_ram p (mem s)\<rparr>"
  have m3: "mem ?s3 = boot_ram p (mem s)" by simp
  have len: "3 * n \<le> length gs" "3 * 4 \<le> length gs - 3 * n" using assms(7) p by simp_all
  have hk: "0xffffff8000000000 \<le> kv" "unat kv + 4096 * n < 2 ^ 64"
    using assms(12,14) by (simp_all add: word_le_nat_alt)
  have "unat physbase + 4096 * n < 2 ^ 64" using assms(11) by simp
  note bnd = page_count_less[of physbase physfree, folded assms(6), OF _ this]
  from k_mem_map_v_region[where n = n and lim = physfree and s = ?s3, unfolded m3, OF boot_tables[OF D] l3(2) len(1) hk assms(13,10,11) bnd]
    assms(9) obtain s4 j where
    s4: "k_mem_map_v Identity physbase physfree kv p ?s3 = Some (Inr (?d, s4))"
      "maps_region p kv physbase n (boot_ram p (mem s)) (mem s4)" "j \<le> 3 * n" "tables_ok (mem s4) p (drop j gs)"
      "free_frames s4 (drop j gs)"
    by (auto simp: word_le_nat_alt)
  have ud: "unat ?d = unat kv + 4096 * n" using hk(2) by (rule unat_add_of_nat64)
  then have hd: "0xffffffff80000000 \<le> ?d" "0xffffff8000000000 \<le> ?d" "unat ?d + 4096 * 4 < 2 ^ 64" "4096 dvd unat ?d"
    using assms(12-14) by (simp_all add: word_le_nat_alt)
  have c4: "page_count (0xbb200 - 0xb8000) = 4" by (simp add: page_count_def)
  have b4: "0xb8000 + of_nat (4096 * i) < (0xbb200 :: u64) \<longleftrightarrow> i < 4" if "i \<le> 4" for i
    using page_count_less[of "0xb8000" "0xbb200" i] that unfolding c4 by simp
  have len4: "3 * 4 \<le> length (drop j gs)" using len s4(3) by simp
  have d4: "4096 dvd unat (0xb8000 :: u64)" "unat (0xb8000 :: u64) + 4096 * 4 < 2 ^ 52" by simp_all
  from k_mem_map_v_region[OF s4(4,5) len4 hd(2-4) d4 b4] obtain s5 i where
    s5: "k_mem_map_v Identity 0xb8000 0xbb200 ?d p s4 = Some (Inr (?d + of_nat (4096 * 4), s5))"
      "maps_region p ?d 0xb8000 4 (mem s4) (mem s5)" "tables_ok (mem s5) p (drop i (drop j gs))"
      "free_frames s5 (drop i (drop j gs))" "i \<le> 12" by auto
  let ?s = "s5\<lparr>available_virt_mem := ?d + of_nat (4096 * 4)\<rparr>"
  have "setup_paging physbase physfree 0xb8000 0xbb200 kv s = Some (Inr (p, ?d, ?s))"
    using l1(1) l2(1) l3(1) s4(1) s5(1) kernel_half[OF hd(1)] by (simp add: setup_paging_def)
  moreover have "?d + of_nat (4096 * 4) = kv + of_nat (4096 * (n + 4))" by (simp add: algebra_simps)
  moreover have "translate (mem s5) p w =
      (if unat (w - kv) < 4096 * n then Some (physbase + (w - kv))
       else if unat (w - ?d) < 4096 * 4 then Some (0xb8000 + (w - ?d)) else None)" if w: "own w" for w
  proof -
    have none: "translate (boot_ram p (mem s)) p w = None"
      using boot_walk[OF D(1) w, of "mem s" 4] by (simp add: translate_frame[OF D(1)])
    have disj: "\<not> unat (w - ?d) < 4096 * 4" if h: "unat (w - kv) < 4096 * n"
    proof -
      have "w = kv + of_nat (unat (w - kv))" by simp
      then have "unat w = unat kv + unat (w - kv)"
        using unat_add_of_nat64[of kv "unat (w - kv)"] h hk(2) by simp
      then have "unat w < unat ?d" using h ud by simp
      then have "unat (w - ?d) = 2 ^ 64 + unat w - unat ?d" by (simp add: unat_sub_if')
      moreover have "unat ?d + 4096 * 4 < 2 ^ 64" by (rule hd(3))
      ultimately show ?thesis by linarith
    qed
    show ?thesis
      using s4(2) s5(2) w none disj unfolding maps_region_def by simp
  qed
  ultimately show ?thesis
    using s5(3-5) s4(3) p
    by (intro exI[of _ ?s] exI[of _ "i + j"]) (simp add: free_frames_def)
qed

text \<open>C9: \<^verbatim>\<open>setup_paging\<close> returns, and the table that it loads maps the kernel's half of the address
  space to exactly two regions: the pages of the kernel from \<^verbatim>\<open>kernel_virtual\<close> on, and those of the
  display behind them, at the address given to \<^verbatim>\<open>set_display_address\<close>. No page of the kernel or of the
  display is used for a table, the table is well formed, and \<^verbatim>\<open>_available_virt_mem\<close> is the first
  address after the two regions.\<close>

theorem setup_paging_maps:
  assumes "free_frames s ps" and "pg_base (page_list (lists s) 0) = 0" and "distinct ps" and "\<forall>f\<in>set ps. is_frame f"
    and "fs = filter (\<lambda>f. \<not> (physbase \<le> f \<and> f < physfree) \<and> \<not> (0xb7000 \<le> f \<and> f < 0xbb200)) ps"
    and "n = page_count (physfree - physbase)" and "3 * (n + 4) < length fs"
    and "0 < physbase" and "physbase \<le> physfree" and "4096 dvd unat physbase" and "unat physbase + 4096 * n < 2 ^ 52"
    and "0xffffffff80000000 \<le> kv" and "4096 dvd unat kv" and "unat kv + 4096 * (n + 4) < 2 ^ 64"
  shows "\<exists>s' k. setup_paging physbase physfree 0xb8000 0xbb200 kv s = Some (Inr (hd fs, kv + of_nat (4096 * n), s')) \<and>
    available_virt_mem s' = kv + of_nat (4096 * (n + 4)) \<and>
    tables_ok (mem s') (hd fs) (drop k (tl fs)) \<and> free_frames s' (drop k (tl fs)) \<and>
    (\<forall>w. own w \<longrightarrow> translate (mem s') (hd fs) w =
      (if unat (w - kv) < 4096 * n then Some (physbase + (w - kv))
       else if unat (w - (kv + of_nat (4096 * n))) < 4096 * 4 then Some (0xb8000 + (w - (kv + of_nat (4096 * n))))
       else None))"
proof -
  from setup_paging_run[OF assms] show ?thesis by blast
qed

text \<open>Twenty-four pages from \<open>0xb6000\<close> on: they contain the display and the kernel of the example.\<close>

definition boot_pool :: page_lists where
  "boot_pool =
     \<lparr>page_list = (\<lambda>i. if i = 0 then \<lparr>pg_base = 0, pg_next = 0\<rparr>
                       else \<lparr>pg_base = 0xb5000 + i * PAGESIZE, pg_next = (if i < 24 then i + 1 else 0)\<rparr>),
       free_page_list_head = 1, free_page_list_tail = 24, used_page_list_head = 0, used_page_list_tail = 0\<rparr>"

definition boot_pages :: "u64 list" where
  "boot_pages = map (\<lambda>i. 0xb5000 + i * PAGESIZE)
     [1, 2, 3, 4, 5, 6, 7, 8, 9, 10, 11, 12, 13, 14, 15, 16, 17, 18, 19, 20, 21, 22, 23, 24]"

definition before_paging :: mm where
  "before_paging = \<lparr>mem = (\<lambda>_. 0x55), lists = boot_pool, available_virt_mem = 0, kmalloc_page = 0, kmalloc_index = 0,
     temp_page = replicate 4096 0\<rparr>"

lemma boot_pool_free: "free_frames before_paging boot_pages"
proof -
  have "pool_inv boot_pool [1, 2, 3, 4, 5, 6, 7, 8, 9, 10, 11, 12, 13, 14, 15, 16, 17, 18, 19, 20, 21, 22, 23, 24] []"
    by (simp add: pool_inv_def plist_repr_def boot_pool_def)
  then show ?thesis
    unfolding free_frames_def
    by (intro exI[of _ "[1, 2, 3, 4, 5, 6, 7, 8, 9, 10, 11, 12, 13, 14, 15, 16, 17, 18, 19, 20, 21, 22, 23, 24]"] exI[of _ "[]"])
      (simp add: before_paging_def boot_pool_def boot_pages_def)
qed

lemma setup_paging_maps_witness:
  "\<exists>s'. setup_paging 0xc0000 0xc0800 0xb8000 0xbb200 0xffffffff80200000 before_paging =
       Some (Inr (0xb6000, 0xffffffff80201000, s')) \<and>
     translate (mem s') 0xb6000 0xffffffff80200042 = Some 0xc0042 \<and>
     translate (mem s') 0xb6000 0xffffffff80201000 = Some 0xb8000 \<and>
     translate (mem s') 0xb6000 0xffffffff80205000 = None"
proof -
  let ?fs = "filter (\<lambda>f. \<not> (0xc0000 \<le> f \<and> f < 0xc0800) \<and> \<not> (0xb7000 \<le> f \<and> f < 0xbb200)) boot_pages"
  have z: "pg_base (page_list (lists before_paging) 0) = 0" by (simp add: before_paging_def boot_pool_def)
  have d: "distinct boot_pages" "\<forall>f\<in>set boot_pages. is_frame f" by (simp_all add: boot_pages_def is_frame_iff)
  have n: "(1 :: nat) = page_count (0xc0800 - 0xc0000)" by (simp add: page_count_def)
  have l: "3 * (1 + 4) < length ?fs" "hd ?fs = 0xb6000" by (simp_all add: boot_pages_def)
  have c: "0 < (0xc0000 :: u64)" "0xc0000 \<le> (0xc0800 :: u64)" "4096 dvd unat (0xc0000 :: u64)"
    "unat (0xc0000 :: u64) + 4096 * 1 < 2 ^ 52" "0xffffffff80000000 \<le> (0xffffffff80200000 :: u64)"
    "4096 dvd unat (0xffffffff80200000 :: u64)" "unat (0xffffffff80200000 :: u64) + 4096 * (1 + 4) < 2 ^ 64"
    by simp_all
  from setup_paging_maps[OF boot_pool_free z d refl n l(1) c, unfolded l(2)] obtain s' where
    s': "setup_paging 0xc0000 0xc0800 0xb8000 0xbb200 0xffffffff80200000 before_paging =
        Some (Inr (0xb6000, 0xffffffff80200000 + of_nat (4096 * 1), s'))"
      "\<And>w. own w \<Longrightarrow> translate (mem s') 0xb6000 w =
        (if unat (w - 0xffffffff80200000) < 4096 * 1 then Some (0xc0000 + (w - 0xffffffff80200000))
         else if unat (w - (0xffffffff80200000 + of_nat (4096 * 1))) < 4096 * 4
         then Some (0xb8000 + (w - (0xffffffff80200000 + of_nat (4096 * 1)))) else None)" by blast
  have "own 0xffffffff80200042" "own 0xffffffff80201000" "own 0xffffffff80205000" by (rule top_own; simp)+
  note t = s'(2)[OF this(1)] s'(2)[OF this(2)] s'(2)[OF this(3)]
  show ?thesis using s'(1) t by (intro exI[of _ s']) simp
qed

end
