(* ===== verification/Page_Alloc.thy ===== *)
theory Page_Alloc
  imports Virtual_Memory
begin

text \<open>
  The operations of \<^verbatim>\<open>sys/memory_helpers.c\<close> that take a page and map it: demand paging, \<^verbatim>\<open>get_new_page_v\<close>,
  \<^verbatim>\<open>kmalloc\<close> and \<^verbatim>\<open>get_new_page_table\<close>, with what they promise to their callers.
\<close>

section \<open>Taking a page and mapping it\<close>

lemma tables_ok_tl:
  assumes "tables_ok m p (f # fs)"
  shows "tables_ok m p fs" and "data_page m p fs f"
proof -
  note D = tables_okD[OF assms]
  show "tables_ok m p fs"
  proof (rule tables_okI)
    show "is_frame p" by (rule D(1))
    show "is_frame g" if "g \<in> set fs" for g using D(2)[of g] that by simp
    show "distinct fs" using D(3) by simp
    show "present (rd64 m (slot p 510))" "frame (rd64 m (slot p 510)) = p" by (rule D(4), rule D(5))
    show "pwalk m p v k \<noteq> Some g" if "own v" "k \<le> 3" "g \<in> set fs" for v k g
      using D(6)[OF that(1,2)] that(3) by simp
    show "j = k \<and> agree j v w"
      if "own v" "own w" "j \<le> 3" "k \<le> 3" "pwalk m p v j = Some t" "pwalk m p w k = Some t" for v w j k t
      by (rule D(7)[OF that])
    show "rd64 m (slot t (idx (4 - k) v)) = 0 \<or> present (rd64 m (slot t (idx (4 - k) v)))"
      if "own v" "k \<le> 2" "pwalk m p v k = Some t" for v k t
      by (rule D(8)[OF that])
  qed
  show "data_page m p fs f"
    unfolding data_page_def using D(2)[of f] D(3) D(6)[of _ _ f] by auto
qed

lemma take_and_map:
  assumes "tables_ok (mem s) p (f # fs)" and "free_frames s (f # fs)" and "3 \<le> length fs"
    and "own virt" and "canonical virt" and "fl < 0x1000" and "odd fl"
  shows "\<exists>l l' m n. take_page s = Inr (f, s\<lparr>lists := l\<rparr>) \<and>
    map_page (Paged p) f virt fl q (s\<lparr>lists := l\<rparr>) = Inr (virt + PAGESIZE, s\<lparr>lists := l', mem := m\<rparr>) \<and>
    maps_one False p virt f (mem s) m \<and> n \<le> 3 \<and> tables_ok m p (drop n fs) \<and>
    free_frames (s\<lparr>lists := l', mem := m\<rparr>) (drop n fs) \<and> data_page m p (drop n fs) f \<and>
    (\<forall>g b. data_page (mem s) p fs g \<and> b < 4096 \<longrightarrow> m (g + of_nat b) = mem s (g + of_nat b)) \<and>
    (\<forall>g. data_page (mem s) p fs g \<longrightarrow> data_page m p (drop n fs) g) \<and>
    (zeroed (mem s) fs \<longrightarrow> maps_one True p virt f (mem s) m \<and> zeroed m (drop n fs)) \<and>
    maps_exactly fs p virt f (mem s) m \<and> (\<forall>v. own v \<and> pwalk (mem s) p v 3 \<noteq> None \<longrightarrow> pwalk m p v 3 \<noteq> None)"
proof -
  note T = tables_ok_tl[OF assms(1)]
  have ff: "frame f = f" using T(2) by (simp add: data_page_def is_frame_def)
  from take_page_free[OF assms(2)] obtain l where
    l: "take_page s = Inr (f, s\<lparr>lists := l\<rparr>)" "free_frames (s\<lparr>lists := l\<rparr>) fs" by blast
  let ?s = "s\<lparr>lists := l\<rparr>"
  obtain m fs' where sp: "spec_map False virt (frame f OR fl) p (mem s, fs) = (m, fs')" by (metis surj_pair)
  have sp': "spec_map False virt (frame f OR fl) p (mem ?s, fs) = (m, fs')" "tables_ok (mem ?s) p fs"
    using sp T(1) by simp_all
  from map_page_refines[OF sp'(2) assms(4) l(2) assms(3) sp'(1), of q] obtain l' where
    l': "map_page (Paged p) f virt fl q ?s = Inr (virt + PAGESIZE, s\<lparr>lists := l', mem := m\<rparr>)"
      "free_frames (s\<lparr>lists := l', mem := m\<rparr>) fs'" by auto
  note S = spec_map_correct[OF T(1) assms(4,3) sp]
  have one: "maps_one False p virt f (mem s) m"
    using spec_map_maps_one[OF T(1) assms(4,5,3,6,7) sp] ff by simp
  have "maps_one True p virt f (mem s) m \<and> zeroed m fs'" if z: "zeroed (mem s) fs"
    using spec_map_maps_one[OF T(1) assms(4,5,3,6,7) spec_map_zeroed(1)[OF T(1) assms(4,3) z sp]]
      spec_map_zeroed(2)[OF T(1) assms(4,3) z sp] ff by simp
  moreover have "maps_exactly fs p virt f (mem s) m"
    using spec_map_exactly[OF T(1) assms(4,5,3,6,7) sp] ff by simp
  moreover have "pwalk m p v 3 \<noteq> None" if "own v" "pwalk (mem s) p v 3 \<noteq> None" for v
    using spec_map_keeps[OF T(1) assms(4,3) sp that(1), of 3] that(2) by auto
  moreover from S(2) obtain n where "n \<le> 3" "fs' = drop n fs" by blast
  ultimately show ?thesis using l l' one S(1,6,7) S(7)[OF T(2)]
    by (intro exI[of _ l] exI[of _ l'] exI[of _ m] exI[of _ n]) simp
qed

text \<open>The page of an address.\<close>

lemma page_of:
  fixes v :: u64
  shows "drop_bit 12 (v AND 0xfffffffffffff000) = drop_bit 12 v" and "n < 12 \<Longrightarrow> \<not> bit (v AND 0xfffffffffffff000) n"
proof -
  have m: "(0xfffffffffffff000 :: u64) = push_bit 12 (mask 52)" by (simp add: push_bit_eq_mult mask_eq_exp_minus_1)
  show "drop_bit 12 (v AND 0xfffffffffffff000) = drop_bit 12 v"
    unfolding m by (intro bit_eqI) (auto simp: bit_simps dest: bit_imp_le_length)
  show "n < 12 \<Longrightarrow> \<not> bit (v AND 0xfffffffffffff000) n" unfolding m by (simp add: bit_simps)
qed

lemma user_page_flags: "(PRESENT OR READ_WRITE OR USER_ACCESSIBLE :: u64) < 0x1000" "odd (PRESENT OR READ_WRITE OR USER_ACCESSIBLE :: u64)"
  by simp_all

section \<open>Demand paging\<close>

lemma add_physical_page_in_maps:
  assumes "tables_ok (mem s) p (f # fs)" and "free_frames s (f # fs)" and "3 \<le> length fs"
    and "own v" and "canonical v"
  shows "\<exists>s' n. add_physical_page_in (Paged p) q v s = Inr s' \<and>
    maps_one False p v f (mem s) (mem s') \<and> n \<le> 3 \<and> tables_ok (mem s') p (drop n fs) \<and> free_frames s' (drop n fs) \<and>
    (\<forall>g b. data_page (mem s) p fs g \<and> b < 4096 \<longrightarrow> mem s' (g + of_nat b) = mem s (g + of_nat b)) \<and>
    data_page (mem s') p (drop n fs) f \<and> (\<forall>g. data_page (mem s) p fs g \<longrightarrow> data_page (mem s') p (drop n fs) g) \<and>
    (zeroed (mem s) fs \<longrightarrow> maps_one True p v f (mem s) (mem s') \<and> zeroed (mem s') (drop n fs)) \<and>
    maps_exactly fs p v f (mem s) (mem s') \<and> (\<forall>w. own w \<and> pwalk (mem s) p w 3 \<noteq> None \<longrightarrow> pwalk (mem s') p w 3 \<noteq> None)"
proof -
  let ?v = "v AND 0xfffffffffffff000"
  note P = page_of(1)[of v]
  have o: "own ?v" "canonical ?v" using same_page_agree[OF P] assms(4,5) by simp_all
  have one: "maps_one z p ?v f m m' \<Longrightarrow> maps_one z p v f m m'" for z m m'
    unfolding maps_one_def P .
  from take_and_map[OF assms(1-3) o user_page_flags, of q] obtain l l' m n where
    T: "take_page s = Inr (f, s\<lparr>lists := l\<rparr>)"
      "map_page (Paged p) f ?v USER_PAGE q (s\<lparr>lists := l\<rparr>) = Inr (?v + PAGESIZE, s\<lparr>lists := l', mem := m\<rparr>)"
      "maps_one False p ?v f (mem s) m" "n \<le> 3" "tables_ok m p (drop n fs)"
      "free_frames (s\<lparr>lists := l', mem := m\<rparr>) (drop n fs)"
      "\<forall>g b. data_page (mem s) p fs g \<and> b < 4096 \<longrightarrow> m (g + of_nat b) = mem s (g + of_nat b)"
      "data_page m p (drop n fs) f" "\<forall>g. data_page (mem s) p fs g \<longrightarrow> data_page m p (drop n fs) g"
      "zeroed (mem s) fs \<longrightarrow> maps_one True p ?v f (mem s) m \<and> zeroed m (drop n fs)"
      "maps_exactly fs p ?v f (mem s) m" "\<forall>w. own w \<and> pwalk (mem s) p w 3 \<noteq> None \<longrightarrow> pwalk m p w 3 \<noteq> None" by blast
  have ex: "maps_exactly fs p v f (mem s) m" using T(11) by (rule maps_exactly_page[OF P])
  have "add_physical_page_in (Paged p) q v s = Inr (s\<lparr>lists := l', mem := m\<rparr>)"
    using T(1,2) by (simp add: add_physical_page_in_def vma_register_page_def)
  with T(3-10,12) ex one show ?thesis by (intro exI[of _ "s\<lparr>lists := l', mem := m\<rparr>"] exI[of _ n]) simp
qed

section \<open>\<^verbatim>\<open>kmalloc\<close>\<close>

text \<open>The current page of \<^verbatim>\<open>kmalloc\<close> is mapped and lies below \<^verbatim>\<open>_available_virt_mem\<close>.\<close>

definition kmalloc_ok :: "u64 \<Rightarrow> mm \<Rightarrow> bool" where
  "kmalloc_ok p s =
     (0xffffff8000000000 \<le> available_virt_mem s \<and> 4096 dvd unat (available_virt_mem s) \<and>
      (kmalloc_page s \<noteq> 0 \<longrightarrow>
         kmalloc_index s \<le> PAGESIZE \<and> 0xffffff8000000000 \<le> kmalloc_page s \<and> 4096 dvd unat (kmalloc_page s) \<and>
         translate (mem s) p (kmalloc_page s) \<noteq> None \<and>
         unat (kmalloc_page s) + 4096 \<le> unat (available_virt_mem s)))"

definition kmalloc_end :: "mm \<Rightarrow> nat" where
  "kmalloc_end s = (if kmalloc_page s = 0 then 0 else unat (kmalloc_page s) + unat (kmalloc_index s))"

definition keeps_translations :: "u64 \<Rightarrow> mm \<Rightarrow> mm \<Rightarrow> bool" where
  "keeps_translations p s s' =
     (\<forall>w. own w \<and> translate (mem s) p w \<noteq> None \<longrightarrow> translate (mem s') p w \<noteq> None)"

text \<open>What is mapped below \<^verbatim>\<open>_available_virt_mem\<close> stays mapped where it is.\<close>

definition keeps_below :: "u64 \<Rightarrow> mm \<Rightarrow> mm \<Rightarrow> bool" where
  "keeps_below p s s' =
     (available_virt_mem s \<le> available_virt_mem s' \<and>
      (\<forall>w. own w \<and> w < available_virt_mem s \<and> translate (mem s) p w \<noteq> None \<longrightarrow>
         translate (mem s') p w = translate (mem s) p w))"

lemma keeps_below_trans: "keeps_below p s s1 \<Longrightarrow> keeps_below p s1 s2 \<Longrightarrow> keeps_below p s s2"
  unfolding keeps_below_def by (metis order_less_le_trans order_trans)

lemma maps_one_below:
  assumes "maps_one z p (available_virt_mem s) f (mem s) (mem s')" and "4096 dvd unat (available_virt_mem s)"
    and "available_virt_mem s \<le> available_virt_mem s'"
  shows "keeps_below p s s'"
proof -
  have "drop_bit 12 w \<noteq> drop_bit 12 (available_virt_mem s)" if "w < available_virt_mem s" for w
  proof
    assume "drop_bit 12 w = drop_bit 12 (available_virt_mem s)"
    then have "unat (drop_bit 12 w) = unat (drop_bit 12 (available_virt_mem s))" by simp
    then have "unat w div 4096 = unat (available_virt_mem s) div 4096" by (simp add: drop_bit_eq_div unat_div_distrib)
    moreover have "unat w < unat (available_virt_mem s)" using that by (simp add: word_less_nat_alt)
    ultimately show False using assms(2) by (auto elim!: dvdE)
  qed
  then show ?thesis using assms(1,3) unfolding keeps_below_def maps_one_def by blast
qed

text \<open>Pages that hold data keep their bytes and stay apart from the tables and the free pages.\<close>

definition keeps_pages :: "u64 \<Rightarrow> u64 list \<Rightarrow> ram \<Rightarrow> u64 list \<Rightarrow> ram \<Rightarrow> bool" where
  "keeps_pages p fs m fs' m' =
     (\<forall>g. data_page m p fs g \<longrightarrow> data_page m' p fs' g \<and> (\<forall>b<4096. m' (g + of_nat b) = m (g + of_nat b)))"

lemma keeps_pages_refl: "set fs' \<subseteq> set fs \<Longrightarrow> keeps_pages p fs m fs' m"
  by (auto simp: keeps_pages_def data_page_def)

lemma keeps_pages_trans: "keeps_pages p fs m fs' m' \<Longrightarrow> keeps_pages p fs' m' fs'' m'' \<Longrightarrow> keeps_pages p fs m fs'' m''"
  by (simp add: keeps_pages_def)

lemma keeps_pages_tl:
  assumes "\<forall>g b. data_page m p fs g \<and> b < 4096 \<longrightarrow> m' (g + of_nat b) = m (g + of_nat b)"
    and "\<forall>g. data_page m p fs g \<longrightarrow> data_page m' p (drop n fs) g"
  shows "keeps_pages p (f # fs) m (drop n fs) m'"
  using assms by (simp add: keeps_pages_def data_page_def)

lemma page_mapped:
  assumes "is_frame p" and "4096 dvd unat v" and "translate m p v \<noteq> None" and "b < 4096"
  shows "translate m p (v + of_nat b) \<noteq> None"
proof -
  have low: "\<And>n. n < 12 \<Longrightarrow> \<not> bit v n" using low_bits_dvd[of v] assms(2) by blast
  from assms(3) obtain f where f: "canonical v" "pwalk m p v 4 = Some f"
    using translate_frame[OF assms(1)] by (auto split: if_splits)
  have "frame p = p" using assms(1) by (simp add: is_frame_def)
  with translate_page[OF low assms(4) f(1), of m p f] f(2) show ?thesis by simp
qed

lemma maps_one_keeps:
  assumes "maps_one z p v f (mem s) (mem s')"
  shows "keeps_translations p s s'"
  using assms unfolding maps_one_def keeps_translations_def by (metis option.distinct(1))

text \<open>What one call achieves: a mapped block that starts at or after the end of all earlier ones.\<close>

definition kmalloc_result :: "u64 \<Rightarrow> u64 \<Rightarrow> mm \<Rightarrow> u64 list \<Rightarrow> u64 \<Rightarrow> mm \<Rightarrow> nat \<Rightarrow> bool" where
  "kmalloc_result p n s fs a s' k =
     (k \<le> 4 \<and> tables_ok (mem s') p (drop k fs) \<and> free_frames s' (drop k fs) \<and> kmalloc_ok p s' \<and>
      kmalloc_end s \<le> unat a \<and> kmalloc_end s' = unat a + unat n \<and> 0xffffff8000000000 \<le> a \<and>
      unat a + unat n < 2 ^ 64 \<and> (\<forall>b<unat n. translate (mem s') p (a + of_nat b) \<noteq> None) \<and>
      keeps_translations p s s' \<and> keeps_pages p fs (mem s) (drop k fs) (mem s') \<and>
      keeps_below p s s' \<and> unat (available_virt_mem s') \<le> unat (available_virt_mem s) + 4096)"

lemma kmalloc_carve:
  assumes "is_frame p" and "kmalloc_ok p s" and "kmalloc_page s \<noteq> 0"
    and "unat (kmalloc_index s) + unat n \<le> 4096" and "tables_ok (mem s) p fs" and "free_frames s fs"
  shows "kmalloc_result p n s fs (kmalloc_page s + kmalloc_index s)
    (s\<lparr>kmalloc_index := kmalloc_index s + n\<rparr>) 0"
proof -
  let ?p = "kmalloc_page s" and ?i = "kmalloc_index s"
  from assms(2,3) have K: "?i \<le> PAGESIZE" "0xffffff8000000000 \<le> ?p" "4096 dvd unat ?p"
    "translate (mem s) p ?p \<noteq> None" "unat ?p + 4096 \<le> unat (available_virt_mem s)"
    by (auto simp: kmalloc_ok_def)
  have top: "unat ?p + 4096 < 2 ^ 64" using K(5) assms(2) K(3) unat64_lt[of "available_virt_mem s"] by linarith
  have a: "unat (?p + ?i) = unat ?p + unat ?i"
    using unat_add_of_nat64[of ?p "unat ?i"] assms(4) top by simp
  have i: "unat (?i + n) = unat ?i + unat n"
    using unat_add_of_nat64[of ?i "unat n"] assms(4) by simp
  have "translate (mem s) p (?p + ?i + of_nat b) \<noteq> None" if "b < unat n" for b
    using page_mapped[OF assms(1) K(3,4), of "unat ?i + b"] that assms(4) by (simp add: add.assoc)
  then show ?thesis
    using assms K a i top
    unfolding kmalloc_result_def
    by (simp add: kmalloc_ok_def kmalloc_end_def keeps_translations_def word_le_nat_alt keeps_pages_refl keeps_below_def)
qed

lemma kmalloc_step:
  assumes "tables_ok (mem s) p fs" and "free_frames s fs" and "4 \<le> length fs" and "kmalloc_ok p s"
    and "n \<le> PAGESIZE" and "unat (available_virt_mem s) + 4096 < 2 ^ 64"
  shows "\<exists>a s' k. kmalloc (Paged p) n s = Inr (a, s') \<and> kmalloc_result p n s fs a s' k"
proof -
  note p = tables_okD(1)[OF assms(1)]
  have n: "\<not> n > PAGESIZE" "unat n \<le> 4096" using assms(5) by (simp_all add: word_le_nat_alt not_less)
  let ?new = "kmalloc_page s = 0 \<or> kmalloc_index s + n \<ge> PAGESIZE"
  show ?thesis
  proof (cases ?new)
    case False
    have "unat (kmalloc_index s) \<le> 4096"
      using False assms(4) by (auto simp: kmalloc_ok_def word_le_nat_alt)
    then have "unat (kmalloc_index s + n) = unat (kmalloc_index s) + unat n"
      using unat_add_of_nat64[of "kmalloc_index s" "unat n"] n(2) by simp
    moreover have "unat (kmalloc_index s + n) < 4096" using False by (simp add: word_le_nat_alt not_le)
    ultimately have "unat (kmalloc_index s) + unat n \<le> 4096" by simp
    with False kmalloc_carve[OF p assms(4) _ this assms(1,2)] n(1) show ?thesis
      by (intro exI[of _ "kmalloc_page s + kmalloc_index s"] exI[of _ "s\<lparr>kmalloc_index := kmalloc_index s + n\<rparr>"] exI[of _ 0])
        (simp add: kmalloc_def)
  next
    case True
    let ?a = "available_virt_mem s"
    obtain f gs where f: "fs = f # gs" using assms(3) by (cases fs) auto
    have len: "3 \<le> length gs" using assms(3) f by simp
    have A: "0xffffff8000000000 \<le> ?a" "4096 dvd unat ?a" using assms(4) by (simp_all add: kmalloc_ok_def)
    have o: "own ?a" "canonical ?a" using top_own[OF A(1)] by simp_all
    have fl: "(PRESENT OR READ_WRITE :: u64) < 0x1000" "odd (PRESENT OR READ_WRITE :: u64)" by simp_all
    let ?s0 = "s\<lparr>kmalloc_page := ?a\<rparr>"
    have s0: "tables_ok (mem ?s0) p (f # gs)" "free_frames ?s0 (f # gs)" using assms(1,2) f by simp_all
    from take_and_map[OF s0 len o fl, of 0] obtain l l' m k where
      T0: "take_page ?s0 = Inr (f, ?s0\<lparr>lists := l\<rparr>)"
        "map_page (Paged p) f ?a (PRESENT OR READ_WRITE) 0 (?s0\<lparr>lists := l\<rparr>) = Inr (?a + PAGESIZE, ?s0\<lparr>lists := l', mem := m\<rparr>)"
      and T: "maps_one False p ?a f (mem ?s0) m" "k \<le> 3" "tables_ok m p (drop k gs)"
        "free_frames (?s0\<lparr>lists := l', mem := m\<rparr>) (drop k gs)"
        "\<forall>g b. data_page (mem s) p gs g \<and> b < 4096 \<longrightarrow> m (g + of_nat b) = mem s (g + of_nat b)"
        "\<forall>g. data_page (mem s) p gs g \<longrightarrow> data_page m p (drop k gs) g" by auto
    have "take_page s = Inr (f, s\<lparr>lists := l\<rparr>)"
      using T0(1) by (cases s) (auto simp: take_page_def split: prod.splits option.splits)
    moreover have upd: "s\<lparr>lists := l, kmalloc_page := ?a\<rparr> = ?s0\<lparr>lists := l\<rparr>" by (cases s) simp
    ultimately have run: "kmalloc (Paged p) n s = Inr (?a + 0, ?s0\<lparr>lists := l', mem := m, available_virt_mem := ?a + PAGESIZE, kmalloc_index := 0 + n\<rparr>)"
      using T0(2)[folded upd] True n(1) by (simp add: kmalloc_def)
    let ?s = "?s0\<lparr>lists := l', mem := m, available_virt_mem := ?a + PAGESIZE, kmalloc_index := 0\<rparr>"
    have ua: "unat (?a + PAGESIZE) = unat ?a + 4096" using unat_add_of_nat64[of ?a 4096] assms(6) by simp
    have tr: "translate m p ?a \<noteq> None" using T(1) unfolding maps_one_def by simp
    have nz: "?a \<noteq> 0" using A(1) by auto
    have ok: "kmalloc_ok p ?s"
      using A tr ua by (simp add: kmalloc_ok_def word_le_nat_alt)
    have kp: "keeps_translations p s ?s" using maps_one_keeps[of False p ?a f s ?s] T(1) by simp
    have kb: "keeps_below p s ?s" by (rule maps_one_below) (use T(1) A(2) ua in \<open>simp_all add: word_le_nat_alt\<close>)
    have carve: "kmalloc_result p n ?s (drop k gs) (?a + 0) (?s\<lparr>kmalloc_index := 0 + n\<rparr>) 0"
      using kmalloc_carve[OF p ok, of n "drop k gs"] nz n(2) T(3,4) by simp
    have "kmalloc_end s \<le> unat ?a"
      using assms(4) by (auto simp: kmalloc_end_def kmalloc_ok_def word_le_nat_alt)
    then have "kmalloc_result p n s fs (?a + 0) (?s\<lparr>kmalloc_index := 0 + n\<rparr>) (Suc k)"
      using carve T(2) kp kb ua keeps_pages_tl[OF T(5,6), of f] unfolding kmalloc_result_def
      by (auto simp: f keeps_translations_def keeps_below_def)
    with run show ?thesis by (intro exI[of _ "?a + 0"] exI[of _ "?s\<lparr>kmalloc_index := 0 + n\<rparr>"] exI[of _ "Suc k"]) simp
  qed
qed

fun kmallocs :: "space \<Rightarrow> u64 list \<Rightarrow> mm \<Rightarrow> (u64 list \<times> mm) result" where
  "kmallocs sp [] s = Inr ([], s)"
| "kmallocs sp (n # ns) s =
     bindr (kmalloc sp n s) (\<lambda>(a, s1). bindr (kmallocs sp ns s1) (\<lambda>(as, s2). Inr (a # as, s2)))"

text \<open>C13: \<^verbatim>\<open>kmalloc\<close>: the blocks of any sequence of requests of at most a page each are disjoint, in
  ascending order, after everything handed out before, and every byte of them is mapped at the end.\<close>

theorem kmalloc_blocks_disjoint:
  assumes "tables_ok (mem s) p fs" and "free_frames s fs" and "4 * length ns \<le> length fs" and "kmalloc_ok p s"
    and "\<forall>n\<in>set ns. n \<le> PAGESIZE" and "unat (available_virt_mem s) + 4096 * length ns < 2 ^ 64"
  shows "\<exists>as s'. kmallocs (Paged p) ns s = Inr (as, s') \<and> length as = length ns \<and> kmalloc_ok p s' \<and>
    (\<forall>i<length ns. kmalloc_end s \<le> unat (as ! i) \<and>
       (\<forall>b<unat (ns ! i). translate (mem s') p (as ! i + of_nat b) \<noteq> None) \<and>
       (\<forall>j<i. unat (as ! j) + unat (ns ! j) \<le> unat (as ! i))) \<and> keeps_translations p s s'"
  using assms
proof (induction ns arbitrary: s fs)
  case Nil
  then show ?case by (simp add: keeps_translations_def)
next
  case (Cons n ns)
  note P = Cons.prems
  have h: "4 \<le> length fs" "n \<le> PAGESIZE" "unat (available_virt_mem s) + 4096 < 2 ^ 64" using P(3,5,6) by simp_all
  from kmalloc_step[OF P(1,2) h(1) P(4) h(2,3)] obtain a s1 k where
    k: "kmalloc (Paged p) n s = Inr (a, s1)" "kmalloc_result p n s fs a s1 k" by blast
  note R = k(2)[unfolded kmalloc_result_def]
  have "4 * length ns \<le> length (drop k fs)" "\<forall>n\<in>set ns. n \<le> PAGESIZE"
    "unat (available_virt_mem s1) + 4096 * length ns < 2 ^ 64" using P(3,5,6) R by auto
  from Cons.IH[OF _ _ this(1) _ this(2,3)] R obtain as s' where
    I: "kmallocs (Paged p) ns s1 = Inr (as, s')" "length as = length ns" "kmalloc_ok p s'"
      "\<And>i. i < length ns \<Longrightarrow> kmalloc_end s1 \<le> unat (as ! i)"
      "\<And>i b. i < length ns \<Longrightarrow> b < unat (ns ! i) \<Longrightarrow> translate (mem s') p (as ! i + of_nat b) \<noteq> None"
      "\<And>i j. i < length ns \<Longrightarrow> j < i \<Longrightarrow> unat (as ! j) + unat (ns ! j) \<le> unat (as ! i)" "keeps_translations p s1 s'"
    by blast
  have first: "translate (mem s') p (a + of_nat b) \<noteq> None" if b: "b < unat n" for b
  proof -
    have "unat (a + of_nat b) = unat a + b" using R b by (intro unat_add_of_nat64) simp
    then have "0xffffff8000000000 \<le> a + of_nat b" using R by (simp add: word_le_nat_alt)
    then show ?thesis using I(7) R b top_own(1) by (simp add: keeps_translations_def)
  qed
  show ?case
  proof (intro exI[of _ "a # as"] exI[of _ s'] conjI allI impI)
    show "kmallocs (Paged p) (n # ns) s = Inr (a # as, s')" using k(1) I(1) by simp
    show "keeps_translations p s s'" using I(7) R by (auto simp: keeps_translations_def)
    fix i
    assume i: "i < length (n # ns)"
    show "kmalloc_end s \<le> unat ((a # as) ! i)" using R I(4)[of "i - 1"] i by (cases i) simp_all
    show "translate (mem s') p ((a # as) ! i + of_nat b) \<noteq> None" if "b < unat ((n # ns) ! i)" for b
      using first[of b] I(5)[of "i - 1" b] i that by (cases i) simp_all
    show "unat ((a # as) ! j) + unat ((n # ns) ! j) \<le> unat ((a # as) ! i)" if "j < i" for j
      using R I(4)[of "i - 1"] I(6)[of "i - 1" "j - 1"] i that by (cases i; cases j) simp_all
  qed (use I(2,3) in simp_all)
qed

lemma kmalloc_blocks_disjoint_witness:
  "\<exists>as s'. kmallocs (Paged 0x1000) [0x500, 0x1000] (boot_mm (\<lambda>_. 0)) = Inr (as, s') \<and>
     unat (as ! 0) + 0x500 \<le> unat (as ! 1) \<and> translate (mem s') 0x1000 (as ! 1 + of_nat 0xfff) \<noteq> None"
proof -
  have k: "kmalloc_ok 0x1000 (boot_mm (\<lambda>_. 0))" by (simp add: kmalloc_ok_def boot_mm_def)
  have l: "4 * length [0x500, 0x1000 :: u64] \<le> length eight_frames" by (simp add: eight_frames_def)
  have n: "\<forall>n\<in>set [0x500, 0x1000]. n \<le> PAGESIZE" by simp
  have a: "unat (available_virt_mem (boot_mm (\<lambda>_. 0))) + 4096 * length [0x500, 0x1000 :: u64] < 2 ^ 64"
    by (simp add: boot_mm_def)
  let ?ns = "[0x500, 0x1000 :: u64]"
  from kmalloc_blocks_disjoint[OF boot_mm_ok l k n a] obtain as s' where
    r: "kmallocs (Paged 0x1000) ?ns (boot_mm (\<lambda>_. 0)) = Inr (as, s')"
      "\<forall>i<length ?ns. kmalloc_end (boot_mm (\<lambda>_. 0)) \<le> unat (as ! i) \<and>
        (\<forall>b<unat (?ns ! i). translate (mem s') 0x1000 (as ! i + of_nat b) \<noteq> None) \<and>
        (\<forall>j<i. unat (as ! j) + unat (?ns ! j) \<le> unat (as ! i))" by blast
  have 1: "1 < length ?ns" "(0xfff :: nat) < unat (?ns ! 1)" "(0 :: nat) < 1" by simp_all
  note R = r(2)[rule_format, OF 1(1)]
  from R have "unat (as ! 0) + unat (?ns ! 0) \<le> unat (as ! 1)" using 1(3) by blast
  moreover from R have "translate (mem s') 0x1000 (as ! 1 + of_nat 0xfff) \<noteq> None" using 1(2) by blast
  ultimately show ?thesis using r(1) by auto
qed

section \<open>New pages\<close>

text \<open>A new page at the next free virtual address; the state of \<^verbatim>\<open>kmalloc\<close> stays in order.\<close>

definition page_made :: "u64 \<Rightarrow> u64 list \<Rightarrow> mm \<Rightarrow> u64 \<Rightarrow> mm \<Rightarrow> nat \<Rightarrow> bool" where
  "page_made p fs s f s' n =
     (n \<le> 3 \<and> tables_ok (mem s') p (drop n fs) \<and> free_frames s' (drop n fs) \<and>
      maps_one False p (available_virt_mem s) f (mem s) (mem s') \<and> data_page (mem s') p (drop n fs) f \<and>
      keeps_pages p (f # fs) (mem s) (drop n fs) (mem s') \<and> available_virt_mem s' = available_virt_mem s + PAGESIZE \<and>
      kmalloc_page s' = kmalloc_page s \<and> kmalloc_index s' = kmalloc_index s)"

lemma kmalloc_ok_next:
  assumes "kmalloc_ok p s" and "maps_one z p v f (mem s) (mem s')" and "available_virt_mem s' = available_virt_mem s + PAGESIZE"
    and "kmalloc_page s' = kmalloc_page s" and "kmalloc_index s' = kmalloc_index s"
    and "unat (available_virt_mem s) + 4096 < 2 ^ 64"
  shows "kmalloc_ok p s'" and "kmalloc_end s' = kmalloc_end s"
    and "unat (available_virt_mem s') = unat (available_virt_mem s) + 4096"
proof -
  show ua: "unat (available_virt_mem s') = unat (available_virt_mem s) + 4096"
    using unat_add_of_nat64[of "available_virt_mem s" 4096] assms(3,6) by simp
  have "translate (mem s') p (kmalloc_page s) \<noteq> None" if "kmalloc_page s \<noteq> 0"
    using maps_one_keeps[OF assms(2)] assms(1) that top_own(1)[of "kmalloc_page s"]
    by (simp add: keeps_translations_def kmalloc_ok_def)
  then show "kmalloc_ok p s'" using assms(1,4,5) ua by (auto simp: kmalloc_ok_def word_le_nat_alt)
  show "kmalloc_end s' = kmalloc_end s" using assms(4,5) by (simp add: kmalloc_end_def)
qed

lemma new_page_v_step:
  assumes "tables_ok (mem s) p (f # fs)" and "free_frames s (f # fs)" and "3 \<le> length fs"
    and "0xffffff8000000000 \<le> available_virt_mem s"
  shows "\<exists>s' n. get_new_page_v (Paged p) q s = Inr (available_virt_mem s, s') \<and> page_made p fs s f s' n"
proof -
  let ?v = "available_virt_mem s"
  have o: "own ?v" "canonical ?v" using top_own[OF assms(4)] by simp_all
  from take_and_map[OF assms(1-3) o user_page_flags, of q] obtain l l' m n where
    T: "take_page s = Inr (f, s\<lparr>lists := l\<rparr>)"
      "map_page (Paged p) f ?v USER_PAGE q (s\<lparr>lists := l\<rparr>) = Inr (?v + PAGESIZE, s\<lparr>lists := l', mem := m\<rparr>)"
      "maps_one False p ?v f (mem s) m" "n \<le> 3" "tables_ok m p (drop n fs)"
      "free_frames (s\<lparr>lists := l', mem := m\<rparr>) (drop n fs)" "data_page m p (drop n fs) f"
      "\<forall>g b. data_page (mem s) p fs g \<and> b < 4096 \<longrightarrow> m (g + of_nat b) = mem s (g + of_nat b)"
      "\<forall>g. data_page (mem s) p fs g \<longrightarrow> data_page m p (drop n fs) g" by blast
  let ?s = "s\<lparr>lists := l', mem := m, available_virt_mem := ?v + PAGESIZE\<rparr>"
  have "get_new_page_v (Paged p) q s = Inr (?v, ?s)"
    using T(1,2) by (simp add: get_new_page_v_def vma_register_page_def Let_def)
  moreover have "free_frames ?s (drop n fs)" using T(6) by (simp add: free_frames_def)
  ultimately show ?thesis
    using T(3-5,7) keeps_pages_tl[OF T(8,9), of f] by (intro exI[of _ ?s] exI[of _ n]) (simp add: page_made_def)
qed

section \<open>Writing to a data page\<close>

definition off_page :: "u64 \<Rightarrow> ram \<Rightarrow> ram \<Rightarrow> bool" where
  "off_page f m m' = (\<forall>x. \<not> unat (x - f) < 4096 \<longrightarrow> m' x = m x)"

lemma off_page_refl [simp]: "off_page f m m"
  by (simp add: off_page_def)

lemma off_page_trans: "off_page f m m' \<Longrightarrow> off_page f m' m'' \<Longrightarrow> off_page f m m''"
  by (simp add: off_page_def)

lemma off_page_zero: "off_page f m (zero_page f m)"
  by (simp add: off_page_def zero_page_def)

lemma off_page_wr64:
  assumes "is_frame f" and "i < 512"
  shows "off_page f m (wr64 m (slot f i) e)"
  unfolding off_page_def
proof (intro allI impI)
  fix x
  assume x: "\<not> unat (x - f) < 4096"
  have "\<not> unat (x - slot f i) < 8"
  proof
    assume j: "unat (x - slot f i) < 8"
    define k where "k = unat (x - slot f i)"
    have k: "k < 8" "x = slot f i + of_nat k" using j by (simp_all add: k_def)
    then have "x = f + of_nat (8 * unat i + k)" using slot_bytes(1)[OF assms(2) k(1)] by simp
    then have "x - f = of_nat (8 * unat i + k)" by simp
    moreover have b: "8 * unat i + k < 4096" by (rule slot_bytes(2)[OF assms(2) k(1)])
    moreover have "unat (of_nat (8 * unat i + k) :: u64) = 8 * unat i + k" using b by (intro unat_of_nat64) simp
    ultimately have "unat (x - f) < 4096" by (simp only:)
    with x show False by simp
  qed
  then show "wr64 m (slot f i) e x = m x" by (simp add: wr64_def)
qed

lemma off_page_tables:
  assumes "tables_ok m p fs" and "data_page m p fs f" and "off_page f m m'"
  shows "t \<noteq> f \<Longrightarrow> is_frame t \<Longrightarrow> i < 512 \<Longrightarrow> rd64 m' (slot t i) = rd64 m (slot t i)"
    and "own v \<Longrightarrow> k \<le> 4 \<Longrightarrow> pwalk m' p v k = pwalk m p v k"
    and "self_mapped m' p" and "p \<noteq> f" and "tables_ok m' p fs" and "data_page m' p fs f"
proof -
  note D = tables_okD[OF assms(1)]
  have f: "is_frame f" "\<And>v k. own v \<Longrightarrow> k \<le> 3 \<Longrightarrow> pwalk m p v k \<noteq> Some f"
    using assms(2) by (auto simp: data_page_def)
  have rd: "rd64 m' (slot t i) = rd64 m (slot t i)" if "t \<noteq> f" "is_frame t" "i < 512" for t i
    using rd64_other_page[OF that(2) f(1) that(1,3), of m' m] assms(3) by (simp add: off_page_def)
  then show "t \<noteq> f \<Longrightarrow> is_frame t \<Longrightarrow> i < 512 \<Longrightarrow> rd64 m' (slot t i) = rd64 m (slot t i)" .
  have w: "pwalk m' p v k = pwalk m p v k" if "own v" "k \<le> 4" for v k
  proof (rule pwalk_cong)
    fix j t
    assume j: "j < k" "pwalk m p v j = Some t"
    then have "t \<noteq> f" using f(2)[OF that(1), of j] that(2) by auto
    then show "rd64 m' (slot t (idx (4 - j) v)) = rd64 m (slot t (idx (4 - j) v))"
      using rd[OF _ pwalk_frame[OF D(1) j(2)] idx_less] by simp
  qed simp
  then show "own v \<Longrightarrow> k \<le> 4 \<Longrightarrow> pwalk m' p v k = pwalk m p v k" .
  have "own 0" by (simp add: own_def idx_def)
  from f(2)[OF this, of 0] show pf: "p \<noteq> f" by simp
  have e: "rd64 m' (slot p 510) = rd64 m (slot p 510)" using rd[OF pf D(1), of 510] by simp
  then show "self_mapped m' p" using D(1,4,5) by (simp add: self_mapped_def)
  show "data_page m' p fs f" using assms(2) w by (simp add: data_page_def)
  show "tables_ok m' p fs"
  proof (rule tables_okI)
    show "present (rd64 m' (slot p 510))" "frame (rd64 m' (slot p 510)) = p" using e D(4,5) by simp_all
    show "pwalk m' p v k \<noteq> Some g" if "own v" "k \<le> 3" "g \<in> set fs" for v k g
      using D(6)[OF that] w[OF that(1)] that(2) by simp
    show "j = k \<and> agree j v u"
      if "own v" "own u" "j \<le> 3" "k \<le> 3" "pwalk m' p v j = Some t" "pwalk m' p u k = Some t" for v u j k t
      by (rule D(7)[OF that(1-4)]) (use that(3-6) w[OF that(1), of j] w[OF that(2), of k] in simp_all)
    show "rd64 m' (slot t (idx (4 - k) v)) = 0 \<or> present (rd64 m' (slot t (idx (4 - k) v)))"
      if "own v" "k \<le> 2" "pwalk m' p v k = Some t" for v k t
    proof -
      have t: "pwalk m p v k = Some t" using w[OF that(1), of k] that(2,3) by simp
      then have "t \<noteq> f" using f(2)[OF that(1), of k] that(2) by auto
      then show ?thesis using rd[OF _ pwalk_frame[OF D(1) t] idx_less] D(8)[OF that(1,2) t] by simp
    qed
  qed (use D in auto)
qed

lemma data_page_phys:
  assumes "tables_ok m p fs" and "data_page m p fs f" and "off_page f m m'"
    and "own v" and "4096 dvd unat v" and "translate m p v = Some f" and "b < 4096"
  shows "phys_of m' (Paged p) (v + of_nat b) = Inr (f + of_nat b)"
proof -
  note D = tables_okD[OF assms(1)]
  have low: "\<And>n. n < 12 \<Longrightarrow> \<not> bit v n" using low_bits_dvd[of v] assms(5) by blast
  then have "v AND 0xfff = 0"
    using idx_page(2)[OF low, of 0] by simp
  with assms(6) have f: "canonical v" "pwalk m p v 4 = Some f"
    using translate_frame[OF D(1)] by (auto split: if_splits)
  have "frame p = p" using D(1) by (simp add: is_frame_def)
  with translate_page[OF low assms(7) f(1), of m' p f] f(2) off_page_tables(2)[OF assms(1-4), of 4]
  show ?thesis by (simp add: phys_of_def)
qed

lemma data_page_slot:
  assumes "tables_ok m p fs" and "data_page m p fs f" and "off_page f m m'"
    and "own v" and "4096 dvd unat v" and "translate m p v = Some f" and "i < 512"
  shows "vwr64 (Paged p) (slot v i) e m' = Inr (wr64 m' (slot f i) e)"
    and "off_page f m (wr64 m' (slot f i) e)"
proof -
  have "phys_of m' (Paged p) (slot v i) = Inr (slot f i)"
    using data_page_phys[OF assms(1-6) slot_nat(2)[OF assms(7)]]
    unfolding slot_nat(1)[OF assms(7), of v] slot_nat(1)[OF assms(7), of f] .
  then show "vwr64 (Paged p) (slot v i) e m' = Inr (wr64 m' (slot f i) e)" by (simp add: vwr64_def)
  have "is_frame f" using assms(2) by (simp add: data_page_def)
  from off_page_trans[OF assms(3) off_page_wr64[OF this assms(7)]]
  show "off_page f m (wr64 m' (slot f i) e)" .
qed

lemma zero_out_data_page:
  assumes "tables_ok m p fs" and "data_page m p fs f" and "own v" and "4096 dvd unat v" and "translate m p v = Some f"
  shows "zero_out (Paged p) v m = Inr (zero_page f m)"
proof -
  have f: "is_frame f" using assms(2) by (simp add: data_page_def)
  have "phys_of m' (Paged p) (v + of_nat k) = Inr (f + of_nat k)"
    if "k < 4096" "\<And>x. \<not> unat (x - f) < 4096 \<Longrightarrow> m' x = m x" for k m'
    using that(2) by (intro data_page_phys[OF assms(1,2) _ assms(3-5) that(1)]) (simp add: off_page_def)
  then show ?thesis
    unfolding zero_out_def zero_page_def by (intro store_loop[OF f, where g = "\<lambda>_. 0"]) simp_all
qed

section \<open>New page tables\<close>

lemma copy_kernel_pml4_copies:
  assumes "tables_ok m p fs" and "data_page m p fs f" and "off_page f m m0"
    and "own v" and "4096 dvd unat v" and "translate m p v = Some f"
  shows "\<exists>m'. copy_kernel_pml4 (Paged p) v m0 = Inr m' \<and> off_page f m m' \<and>
    (\<forall>i<512. rd64 m' (slot f i) = rd64 m (slot p i))"
proof -
  have f: "is_frame f" using assms(2) by (simp add: data_page_def)
  let ?P = "\<lambda>n m'. off_page f m m' \<and> (\<forall>i<n. rd64 m' (slot f (of_nat i)) = rd64 m (slot p (of_nat i)))"
  have "\<exists>m'. copy_kernel_pml4 (Paged p) v m0 = Inr m' \<and> ?P 512 m'"
    unfolding copy_kernel_pml4_def
  proof (rule for_up_inv[where P = ?P])
    show "?P 0 m0" using assms(3) by simp
    fix n m'
    assume n: "n < 512" and P: "?P n m'"
    have i: "(of_nat n :: u64) < 512" "unat (of_nat n :: u64) = n"
      using n unat_of_nat64[of n] by (simp_all add: word_less_nat_alt)
    note O = off_page_tables[OF assms(1,2) conjunct1[OF P]]
    have r: "vrd64 (Paged p) (slot ACTIVE_PML4 (of_nat n)) m' = Inr (rd64 m (slot p (of_nat n)))"
      using tab_access(1)[OF O(3), of 0 v p "of_nat n"] i(1) O(1)[OF O(4) tables_okD(1)[OF assms(1)] i(1)] by simp
    let ?m = "wr64 m' (slot f (of_nat n)) (rd64 m (slot p (of_nat n)))"
    note W = data_page_slot[OF assms(1,2) conjunct1[OF P] assms(4-6) i(1)]
    have "rd64 ?m (slot f (of_nat j)) = rd64 m (slot p (of_nat j))" if "j < Suc n" for j
    proof -
      have j: "(of_nat j :: u64) < 512" "unat (of_nat j :: u64) = j"
        using that n unat_of_nat64[of j] by (simp_all add: word_less_nat_alt)
      have "(of_nat j :: u64) = of_nat n \<longleftrightarrow> j = n" using i(2) j(2) by metis
      then show ?thesis using rd64_wr_slot[OF f f i(1) j(1)] P that by auto
    qed
    with r W show "\<exists>t'. bindr (vrd64 (Paged p) (slot ACTIVE_PML4 (of_nat n)) m')
        (\<lambda>e. vwr64 (Paged p) (slot v (of_nat n)) e m') = Inr t' \<and> ?P (Suc n) t'" by simp
  qed simp
  then obtain m' where m': "copy_kernel_pml4 (Paged p) v m0 = Inr m'" "off_page f m m'"
    "\<And>i. i < 512 \<Longrightarrow> rd64 m' (slot f (of_nat i)) = rd64 m (slot p (of_nat i))" by blast
  have "rd64 m' (slot f i) = rd64 m (slot p i)" if "i < 512" for i
    using m'(3)[of "unat i"] that by (simp add: word_less_nat_alt)
  with m'(1,2) show ?thesis by blast
qed

text \<open>A table \<open>f\<close> that shares the entries of \<open>p\<close>, except for the recursive one.\<close>

definition shares_entries :: "ram \<Rightarrow> u64 \<Rightarrow> u64 \<Rightarrow> bool" where
  "shares_entries m p f =
     (\<forall>i<512. rd64 m (slot f i) = (if i = 510 then f OR USER_PAGE else rd64 m (slot p i)))"

lemma shares_walk:
  assumes "shares_entries m p f" and "own v"
  shows "pwalk m f v (Suc k) = pwalk m p v (Suc k)"
proof (induction k)
  case 0
  have "rd64 m (slot f (idx 4 v)) = rd64 m (slot p (idx 4 v))"
    using assms by (simp add: shares_entries_def own_def)
  then show ?case by simp
next
  case (Suc k)
  then show ?case by simp
qed

lemma shares_tables:
  assumes "tables_ok m p fs" and "data_page m p fs f" and "shares_entries m p f"
  shows "tables_ok m f fs" and "own v \<Longrightarrow> translate m f v = translate m p v"
proof -
  note D = tables_okD[OF assms(1)]
  have f: "is_frame f" "f \<notin> set fs" "\<And>v k. own v \<Longrightarrow> k \<le> 3 \<Longrightarrow> pwalk m p v k \<noteq> Some f"
    using assms(2) by (auto simp: data_page_def)
  have w: "pwalk m f v k = (if k = 0 then Some f else pwalk m p v k)" if "own v" for v k
    using shares_walk[OF assms(3) that, of "k - 1"] by (cases k) simp_all
  have e: "rd64 m (slot f 510) = f OR USER_PAGE" using assms(3) by (simp add: shares_entries_def)
  show "own v \<Longrightarrow> translate m f v = translate m p v"
    using w[of v 4] by (simp add: translate_frame[OF f(1)] translate_frame[OF D(1)])
  show "tables_ok m f fs"
  proof (rule tables_okI)
    show "present (rd64 m (slot f 510))" "frame (rd64 m (slot f 510)) = f" using e new_entry[OF f(1)] by simp_all
    show "pwalk m f v k \<noteq> Some g" if "own v" "k \<le> 3" "g \<in> set fs" for v k g
      using w[OF that(1)] f(2) that(3) D(6)[OF that] by auto
    show "j = k \<and> agree j v u"
      if h: "own v" "own u" "j \<le> 3" "k \<le> 3" "pwalk m f v j = Some t" "pwalk m f u k = Some t" for v u j k t
    proof -
      note wv = w[OF h(1), of j] and wu = w[OF h(2), of k]
      consider "j = 0" "k = 0" | "j = 0" "k \<noteq> 0" | "j \<noteq> 0" "k = 0" | "j \<noteq> 0" "k \<noteq> 0" by blast
      then show ?thesis
      proof cases
        case 1
        then show ?thesis by (simp add: agree_def)
      next
        case 2
        then show ?thesis using wv wu h f(3)[OF h(2,4)] by simp
      next
        case 3
        then show ?thesis using wv wu h f(3)[OF h(1,3)] by simp
      next
        case 4
        then have "pwalk m p v j = Some t" "pwalk m p u k = Some t" using wv wu h(5,6) by simp_all
        then show ?thesis by (rule D(7)[OF h(1-4)])
      qed
    qed
    show "rd64 m (slot t (idx (4 - k) v)) = 0 \<or> present (rd64 m (slot t (idx (4 - k) v)))"
      if h: "own v" "k \<le> 2" "pwalk m f v k = Some t" for v k t
    proof (cases k)
      case 0
      then have "rd64 m (slot t (idx (4 - k) v)) = rd64 m (slot p (idx (4 - 0) v))"
        using h(1,3) assms(3) by (simp add: shares_entries_def own_def)
      then show ?thesis using D(8)[OF h(1), of 0 p] by simp
    next
      case (Suc n)
      then show ?thesis using w[OF h(1), of k] D(8)[OF h(1,2), of t] h(3) by simp
    qed
  qed (use f D in auto)
qed

definition table_made :: "u64 \<Rightarrow> u64 list \<Rightarrow> mm \<Rightarrow> u64 \<Rightarrow> mm \<Rightarrow> nat \<Rightarrow> bool" where
  "table_made p fs s f s' n =
     (shares_entries (mem s') p f \<and> n \<le> 3 \<and> tables_ok (mem s') f (drop n fs) \<and> tables_ok (mem s') p (drop n fs) \<and>
      free_frames s' (drop n fs) \<and> maps_one False p (available_virt_mem s) f (mem s) (mem s') \<and>
      (\<forall>v. own v \<longrightarrow> translate (mem s') f v = translate (mem s') p v) \<and>
      keeps_pages p (f # fs) (mem s) (drop n fs) (mem s') \<and> available_virt_mem s' = available_virt_mem s + PAGESIZE \<and>
      kmalloc_page s' = kmalloc_page s \<and> kmalloc_index s' = kmalloc_index s)"

lemma page_table_step:
  assumes "tables_ok (mem s) p (f # fs)" and "free_frames s (f # fs)" and "3 \<le> length fs"
    and "0xffffff8000000000 \<le> available_virt_mem s" and "4096 dvd unat (available_virt_mem s)"
  shows "\<exists>s' n. get_new_page_table (Paged p) q s = Inr (f, s') \<and> table_made p fs s f s' n"
proof -
  let ?v = "available_virt_mem s"
  have o: "own ?v" "canonical ?v" using top_own[OF assms(4)] by simp_all
  from take_and_map[OF assms(1-3) o user_page_flags, of q] obtain l l' m n where
    T: "take_page s = Inr (f, s\<lparr>lists := l\<rparr>)"
      "map_page (Paged p) f ?v USER_PAGE q (s\<lparr>lists := l\<rparr>) = Inr (?v + PAGESIZE, s\<lparr>lists := l', mem := m\<rparr>)"
      "maps_one False p ?v f (mem s) m" "n \<le> 3" "tables_ok m p (drop n fs)"
      "free_frames (s\<lparr>lists := l', mem := m\<rparr>) (drop n fs)" "data_page m p (drop n fs) f"
      "\<forall>g b. data_page (mem s) p fs g \<and> b < 4096 \<longrightarrow> m (g + of_nat b) = mem s (g + of_nat b)"
      "\<forall>g. data_page (mem s) p fs g \<longrightarrow> data_page m p (drop n fs) g"
    by blast
  have f: "is_frame f" using T(7) by (simp add: data_page_def)
  have low: "\<And>n. n < 12 \<Longrightarrow> \<not> bit ?v n" using low_bits_dvd[of ?v] assms(5) by blast
  then have "?v AND 0xfff = 0" using idx_page(2)[OF low, of 0] by simp
  then have tr: "translate m p ?v = Some f" using T(3) unfolding maps_one_def by simp
  note Z = zero_out_data_page[OF T(5,7) o(1) assms(5) tr]
  from copy_kernel_pml4_copies[OF T(5,7) off_page_zero o(1) assms(5) tr] obtain m2 where
    m2: "copy_kernel_pml4 (Paged p) ?v (zero_page f m) = Inr m2" "off_page f m m2"
      "\<And>i. i < 512 \<Longrightarrow> rd64 m2 (slot f i) = rd64 m (slot p i)" by blast
  have i: "(510 :: u64) < 512" by simp
  note W = data_page_slot[OF T(5,7) m2(2) o(1) assms(5) tr i, of "f OR USER_PAGE"]
  let ?m = "wr64 m2 (slot f 510) (f OR USER_PAGE)"
  note O = off_page_tables[OF T(5,7) W(2)]
  have sh: "shares_entries ?m p f"
    unfolding shares_entries_def
    using rd64_wr_slot[OF f f i] m2(3) O(1)[OF O(4) tables_okD(1)[OF T(5)]] by simp
  let ?s = "s\<lparr>lists := l', mem := ?m, available_virt_mem := ?v + PAGESIZE\<rparr>"
  have "get_new_page_table (Paged p) q s = Inr (f, ?s)"
    using T(1,2) Z m2(1) W(1) by (simp add: get_new_page_table_def vma_register_page_def Let_def)
  moreover have tm: "translate ?m p v = translate m p v" if "own v" for v
    using O(2)[OF that, of 4] by (simp add: translate_frame[OF tables_okD(1)[OF T(5)]])
  have "own v" if "drop_bit 12 v = drop_bit 12 ?v" for v using same_page_agree(3)[OF that] o(1) by simp
  then have "maps_one False p ?v f (mem s) ?m" using T(3) tm unfolding maps_one_def by simp
  moreover have "keeps_pages p (f # fs) (mem s) (drop n fs) ?m"
  proof -
    have "data_page ?m p (drop n fs) g \<and> (\<forall>b<4096. ?m (g + of_nat b) = m (g + of_nat b))"
      if g: "data_page m p (drop n fs) g" "g \<noteq> f" for g
    proof
      show "data_page ?m p (drop n fs) g" using g(1) O(2) by (simp add: data_page_def)
      show "\<forall>b<4096. ?m (g + of_nat b) = m (g + of_nat b)"
        using W(2) g f unat_page_diff[OF f] by (simp add: off_page_def data_page_def)
    qed
    then show ?thesis using keeps_pages_tl[OF T(8,9), of f] by (auto simp: keeps_pages_def data_page_def)
  qed
  moreover have "free_frames ?s (drop n fs)" using T(6) by (simp add: free_frames_def)
  ultimately show ?thesis
    using T(4) sh O(5) shares_tables[OF O(5,6) sh]
    by (intro exI[of _ ?s] exI[of _ n]) (simp add: table_made_def)
qed

text \<open>C14: \<^verbatim>\<open>get_new_page_table\<close> returns a page that is a well-formed page table: all its entries are those
  of the active table, except for the recursive entry, which points to itself, so that every address
  of the process is translated in the new table as in the active one.\<close>

theorem get_new_page_table_shares:
  assumes "tables_ok (mem s) p (f # fs)" and "free_frames s (f # fs)" and "3 \<le> length fs"
    and "0xffffff8000000000 \<le> available_virt_mem s" and "4096 dvd unat (available_virt_mem s)"
  shows "\<exists>s' n. get_new_page_table (Paged p) q s = Inr (f, s') \<and> shares_entries (mem s') p f \<and>
    n \<le> 3 \<and> tables_ok (mem s') f (drop n fs) \<and> tables_ok (mem s') p (drop n fs) \<and> free_frames s' (drop n fs) \<and>
    (\<forall>v. own v \<longrightarrow> translate (mem s') f v = translate (mem s') p v \<and>
       (translate (mem s) p v \<noteq> None \<and> drop_bit 12 v \<noteq> drop_bit 12 (available_virt_mem s) \<longrightarrow>
          translate (mem s') p v = translate (mem s) p v))"
proof -
  from page_table_step[OF assms, of q] obtain s' n where
    "get_new_page_table (Paged p) q s = Inr (f, s')" "table_made p fs s f s' n" by blast
  then show ?thesis unfolding table_made_def maps_one_def by (intro exI[of _ s'] exI[of _ n]) blast
qed

lemma get_new_page_table_shares_witness:
  "\<exists>s'. get_new_page_table (Paged 0x1000) 1 (boot_mm (\<lambda>_. 0)) = Inr (0x101000, s') \<and>
     shares_entries (mem s') 0x1000 0x101000"
proof -
  have a: "0xffffff8000000000 \<le> available_virt_mem (boot_mm (\<lambda>_. 0))" "4096 dvd unat (available_virt_mem (boot_mm (\<lambda>_. 0)))"
    by (simp_all add: boot_mm_def)
  have l: "3 \<le> length [0x102000, 0x103000, 0x104000, 0x105000, 0x106000, 0x107000, 0x108000 :: u64]" by simp
  from get_new_page_table_shares[OF boot_mm_ok[unfolded eight_frames_def] l a, of 1]
  show ?thesis by blast
qed

end
