(* ===== verification/Copy_On_Write.thy ===== *)
theory Copy_On_Write
  imports Page_Alloc
begin

text \<open>
  Copy on write: the leaf entries that \<^verbatim>\<open>map_page_COW\<close> and \<^verbatim>\<open>cross_off_COW\<close> reach through the entries
  510 (the process's own table) and 509 (the table of its partner after a fork), what a copy
  achieves, and what the marking of a table's pages leaves in both tables.
\<close>

section \<open>Leaf entries\<close>

text \<open>The pointers computed by \<^verbatim>\<open>map_page_COW\<close> (\<open>i = 510\<close>) and \<^verbatim>\<open>cross_off_COW\<close> (\<open>i = 509\<close>).\<close>

definition leaf_ptr :: "u64 \<Rightarrow> u64 \<Rightarrow> u64" where
  "leaf_ptr i virt =
     (drop_bit 9 ((virt OR 0xffff000000000000) AND (if i = 509 then 0xfffdffffffffffff else 0xfffeffffffffffff)))
       OR 0xffff000000000000"

lemma bit_consts:
  "bit (0xffff000000000000 :: u64) n \<longleftrightarrow> 48 \<le> n \<and> n < 64"
  "bit (0xfffdffffffffffff :: u64) n \<longleftrightarrow> n < 64 \<and> n \<noteq> 49"
  "bit (0xfffeffffffffffff :: u64) n \<longleftrightarrow> n < 64 \<and> n \<noteq> 48"
  "bit (509 :: u64) n \<longleftrightarrow> n < 9 \<and> n \<noteq> 1"
  "bit (510 :: u64) n \<longleftrightarrow> n < 9 \<and> n \<noteq> 0"
proof -
  have "(0xffff000000000000 :: u64) = push_bit 48 (mask 16)" by (simp add: push_bit_eq_mult mask_eq_exp_minus_1)
  then show "bit (0xffff000000000000 :: u64) n \<longleftrightarrow> 48 \<le> n \<and> n < 64"
    by (simp only: bit_push_bit_iff bit_mask_iff) auto
  have "(0xfffdffffffffffff :: u64) = NOT (push_bit 49 1)" "(0xfffeffffffffffff :: u64) = NOT (push_bit 48 1)"
    by (simp_all add: push_bit_eq_mult)
  then show "bit (0xfffdffffffffffff :: u64) n \<longleftrightarrow> n < 64 \<and> n \<noteq> 49"
    "bit (0xfffeffffffffffff :: u64) n \<longleftrightarrow> n < 64 \<and> n \<noteq> 48"
    by (simp_all only: bit_not_iff bit_push_bit_iff bit_1_iff) auto
  have "(509 :: u64) = mask 9 AND NOT (push_bit 1 1)" "(510 :: u64) = mask 9 AND NOT (push_bit 0 1)"
    by (simp_all add: mask_eq_exp_minus_1 push_bit_eq_mult)
  then show "bit (509 :: u64) n \<longleftrightarrow> n < 9 \<and> n \<noteq> 1" "bit (510 :: u64) n \<longleftrightarrow> n < 9 \<and> n \<noteq> 0"
    by (simp_all only: bit_not_iff bit_and_iff bit_mask_iff bit_push_bit_iff bit_1_iff) auto
qed

lemma bit_leaf_ptr:
  assumes "i = 509 \<or> i = 510"
  shows "bit (leaf_ptr i virt) n \<longleftrightarrow>
    n < 64 \<and> (48 \<le> n \<or> (if n < 39 then bit virt (n + 9) else n \<noteq> (if i = 509 then 40 else 39)))"
proof -
  have "bit (leaf_ptr i virt) n \<longleftrightarrow> (bit virt (9 + n) \<or> 48 \<le> 9 + n \<and> 9 + n < 64) \<and>
      9 + n < 64 \<and> 9 + n \<noteq> (if i = 509 then 49 else 48) \<or> 48 \<le> n \<and> n < 64"
    unfolding leaf_ptr_def
    by (simp only: bit_or_iff bit_drop_bit_eq o_def bit_and_iff bit_consts split: if_split) (use assms in auto)
  then show ?thesis by (auto simp: add.commute dest: bit_imp_le_length)
qed

lemma leaf_ptr_idx:
  assumes "i = 509 \<or> i = 510"
  shows "idx 4 (leaf_ptr i virt) = i" and "idx 3 (leaf_ptr i virt) = idx 4 virt"
    and "idx 2 (leaf_ptr i virt) = idx 3 virt" and "idx 1 (leaf_ptr i virt) = idx 2 virt"
    and "canonical (leaf_ptr i virt)"
    and "(\<And>n. n < 12 \<Longrightarrow> \<not> bit virt n) \<Longrightarrow> leaf_ptr i virt AND 0xfff = 8 * idx 1 virt"
proof -
  note b = bit_leaf_ptr[OF assms]
  have bi: "bit i n \<longleftrightarrow> n < 9 \<and> n \<noteq> (if i = 509 then 1 else 0)" for n
    using assms bit_consts(4,5)[of n] by (elim disjE) simp_all
  show "idx 4 (leaf_ptr i virt) = i"
    by (rule bit_eqI) (auto simp: bit_idx b bi)
  show "idx 3 (leaf_ptr i virt) = idx 4 virt" "idx 2 (leaf_ptr i virt) = idx 3 virt" "idx 1 (leaf_ptr i virt) = idx 2 virt"
    by (rule bit_eqI; auto simp: bit_idx b add.commute)+
  have "drop_bit 47 (leaf_ptr i virt) = mask 17"
    using assms by (intro bit_eqI) (auto simp: bit_drop_bit_eq bit_mask_iff b dest: bit_imp_le_length)
  then show "canonical (leaf_ptr i virt)" by (simp add: canonical_def mask_eq_exp_minus_1)
  assume low: "\<And>n. n < 12 \<Longrightarrow> \<not> bit virt n"
  have "8 * idx 1 virt = push_bit 3 (idx 1 virt)" by (simp add: push_bit_eq_mult)
  moreover have "bit (leaf_ptr i virt AND 0xfff) n \<longleftrightarrow> bit (push_bit 3 (idx 1 virt)) n" for n
  proof -
    consider "n < 3" | k where "n = k + 3" "k < 9" | "12 \<le> n" 
    proof (cases "n < 3 \<or> 12 \<le> n")
      case False
      then have "n = n - 3 + 3" "n - 3 < 9" by linarith+
      then show ?thesis using that(2) by blast
    qed (use that in blast)
    then show ?thesis
    proof cases
      case 1
      then show ?thesis using low[of "n + 9"] by (simp add: masks bit_and_iff bit_mask_iff b bit_push_bit_iff)
    next
      case 2
      then show ?thesis using low by (simp add: masks bit_and_iff bit_mask_iff b bit_push_bit_iff bit_idx add.commute)
    next
      case 3
      then have "\<not> n < 12" "\<not> n - 3 < 9" by linarith+
      then show ?thesis by (simp add: masks bit_and_iff bit_mask_iff bit_push_bit_iff bit_idx)
    qed
  qed
  then have "leaf_ptr i virt AND 0xfff = push_bit 3 (idx 1 virt)" by (intro bit_eqI) simp
  ultimately show "leaf_ptr i virt AND 0xfff = 8 * idx 1 virt" by simp
qed

lemma leaf_ptr_phys:
  assumes "i = 509 \<or> i = 510" and "is_frame p" and "present (rd64 m (slot p i))" and "frame (rd64 m (slot p i)) = c"
    and "\<And>n. n < 12 \<Longrightarrow> \<not> bit virt n" and "pwalk m c virt 3 = Some t"
  shows "phys_of m (Paged p) (leaf_ptr i virt) = Inr (slot t (idx 1 virt))"
proof -
  note L = leaf_ptr_idx[OF assms(1)]
  have fp: "frame p = p" using assms(2) by (simp add: is_frame_def)
  have 1: "pwalk m p (leaf_ptr i virt) (Suc 0) = Some c"
    using assms(3,4) L(1) by (simp add: present_def)
  have step: "pwalk m p (leaf_ptr i virt) (Suc (Suc k)) = pwalk m c virt (Suc k)"
    if "pwalk m p (leaf_ptr i virt) (Suc k) = pwalk m c virt k" "idx (4 - Suc k) (leaf_ptr i virt) = idx (4 - k) virt" for k
  proof -
    have "pwalk m p (leaf_ptr i virt) (Suc (Suc k)) = (case pwalk m p (leaf_ptr i virt) (Suc k) of None \<Rightarrow> None
        | Some t \<Rightarrow> let e = rd64 m (slot t (idx (4 - Suc k) (leaf_ptr i virt)))
                     in if e AND PRESENT = 0 then None else Some (frame e))"
      by (rule pwalk.simps(2))
    also have "\<dots> = pwalk m c virt (Suc k)" unfolding that by (rule pwalk.simps(2)[symmetric])
    finally show ?thesis .
  qed
  have 2: "pwalk m p (leaf_ptr i virt) (Suc (Suc 0)) = pwalk m c virt (Suc 0)"
    using step[of 0] 1 L(2) by simp
  have 3: "pwalk m p (leaf_ptr i virt) (Suc (Suc (Suc 0))) = pwalk m c virt (Suc (Suc 0))"
    using step[OF 2] L(3) by simp
  have 4: "pwalk m p (leaf_ptr i virt) (Suc (Suc (Suc (Suc 0)))) = pwalk m c virt (Suc (Suc (Suc 0)))"
    using step[OF 3] L(4) by simp
  have "pwalk m p (leaf_ptr i virt) 4 = Some t" using 4 assms(6) by (simp add: numeral_eq_Suc)
  then show ?thesis using L(5) L(6)[OF assms(5)] fp by (simp add: phys_of_def translate_def slot_def)
qed

section \<open>A private copy\<close>

definition leaf :: "ram \<Rightarrow> u64 \<Rightarrow> u64 \<Rightarrow> u64 option" where
  "leaf m p v = map_option (\<lambda>t. rd64 m (slot t (idx 1 v))) (pwalk m p v 3)"

lemma leaf_walk:
  "pwalk m p v 4 = (case leaf m p v of None \<Rightarrow> None | Some e \<Rightarrow> if present e then Some (frame e) else None)"
proof (cases "pwalk m p v 3")
  case None
  then show ?thesis by (simp add: leaf_def eval_nat_numeral)
next
  case (Some t)
  then show ?thesis using pwalk_step[OF Some] by (simp add: leaf_def present_def eval_nat_numeral)
qed

lemma same_bytes_rd64:
  "(\<And>b. b < 4096 \<Longrightarrow> m' (t + of_nat b) = m (t + of_nat b)) \<Longrightarrow> i < 512 \<Longrightarrow> rd64 m' (slot t i) = rd64 m (slot t i)"
  by (rule rd64_cong) (simp only: slot_bytes)

lemma read_page_loop:
  assumes "length t0 = 4096" and "\<And>i. i < 4096 \<Longrightarrow> phys_of m sp (v + of_nat i) = Inr (g + of_nat i)"
  shows "for_up 0 4096 (\<lambda>i t. bindr (vrd8 sp (v + of_nat i) m) (\<lambda>b.
      if i < length t then Inr (t[i := b]) else Inl Out_Of_Bounds)) t0 = Inr (map (\<lambda>i. m (g + of_nat i)) [0..<4096])"
proof -
  let ?P = "\<lambda>n t. length t = 4096 \<and> (\<forall>i<n. t ! i = m (g + of_nat i))"
  have "\<exists>t. for_up 0 4096 (\<lambda>i t. bindr (vrd8 sp (v + of_nat i) m) (\<lambda>b.
      if i < length t then Inr (t[i := b]) else Inl Out_Of_Bounds)) t0 = Inr t \<and> ?P 4096 t"
  proof (rule for_up_inv[where P = ?P])
    fix n t
    assume n: "n < 4096" and P: "?P n t"
    then show "\<exists>t'. bindr (vrd8 sp (v + of_nat n) m) (\<lambda>b. if n < length t then Inr (t[n := b]) else Inl Out_Of_Bounds) = Inr t' \<and>
        ?P (Suc n) t'"
      using assms(2)[OF n] by (auto simp: vrd8_def nth_list_update less_Suc_eq)
  qed (use assms(1) in simp_all)
  then obtain t where t: "for_up 0 4096 (\<lambda>i t. bindr (vrd8 sp (v + of_nat i) m) (\<lambda>b.
      if i < length t then Inr (t[i := b]) else Inl Out_Of_Bounds)) t0 = Inr t" "?P 4096 t" by blast
  have "t = map (\<lambda>i. m (g + of_nat i)) [0..<4096]" by (rule nth_equalityI) (use t(2) in auto)
  with t(1) show ?thesis by simp
qed

lemma write_page_loop:
  assumes "is_frame f" and "length t = 4096"
    and "\<And>k m'. k < 4096 \<Longrightarrow> off_page f m m' \<Longrightarrow> phys_of m' sp (v + of_nat k) = Inr (f + of_nat k)"
  shows "for_up 0 4096 (\<lambda>i m. if i < length t then vwr8 sp (v + of_nat i) (t ! i) m else Inl Out_Of_Bounds) m =
    Inr (\<lambda>x. if unat (x - f) < 4096 then t ! unat (x - f) else m x)"
proof -
  have "for_up 0 4096 (\<lambda>i m. if i < length t then vwr8 sp (v + of_nat i) (t ! i) m else Inl Out_Of_Bounds) m =
      for_up 0 4096 (\<lambda>i. vwr8 sp (v + of_nat i) (t ! i)) m"
    by (rule for_up_same) (use assms(2) in simp)
  also have "\<dots> = Inr (\<lambda>x. if unat (x - f) < 4096 then t ! unat (x - f) else m x)"
    by (rule store_loop[OF assms(1)]) (use assms(3) in \<open>auto simp: off_page_def\<close>)
  finally show ?thesis .
qed

lemma phys_of_frame: "frame c = p \<Longrightarrow> is_frame p \<Longrightarrow> phys_of m (Paged c) v = phys_of m (Paged p) v"
  by (simp add: phys_of_def translate_def is_frame_def)

text \<open>The page of \<open>v\<close>, which was \<open>g\<close>, is now the writable page \<open>f\<close> with the same bytes; all else is as it was.\<close>

definition private_copy :: "u64 \<Rightarrow> u64 \<Rightarrow> u64 list \<Rightarrow> u64 \<Rightarrow> u64 \<Rightarrow> ram \<Rightarrow> ram \<Rightarrow> bool" where
  "private_copy p f fs v g m m' =
     (leaf m' p v = Some (f OR USER_PAGE) \<and> (\<forall>b<4096. m' (f + of_nat b) = m (g + of_nat b)) \<and>
      (\<forall>u b. data_page m p (f # fs) u \<and> b < 4096 \<longrightarrow> m' (u + of_nat b) = m (u + of_nat b)) \<and>
      (\<forall>u. data_page m p (f # fs) u \<longrightarrow> data_page m' p fs u) \<and>
      (\<forall>w. own w \<and> \<not> agree 4 w v \<longrightarrow> pwalk m' p w 4 = pwalk m p w 4) \<and>
      (\<forall>w k. own w \<and> k \<le> 3 \<longrightarrow> pwalk m' p w k = pwalk m p w k) \<and> tables_ok m' p fs \<and>
      (\<forall>t. pwalk m p v 3 = Some t \<longrightarrow> (\<exists>m1. off_page t m m1 \<and> off_page f m1 m')))"

lemma do_COW_copies:
  assumes "tables_ok (mem s) p (f # fs)" and "free_frames s (f # fs)" and "own v" and "canonical v"
    and "pwalk (mem s) p v 4 = Some g" and "data_page (mem s) p (f # fs) g"
    and "length (temp_page s) = 4096" and "frame (pml4 proc) = p"
  shows "\<exists>s'. do_COW (Paged p) proc v s = Inr (Paged (pml4 proc), s') \<and>
    private_copy p f fs v g (mem s) (mem s') \<and> free_frames s' fs"
proof -
  let ?v = "v AND 0xfffffffffffff000" and ?m = "mem s"
  note T = tables_ok_tl[OF assms(1)] and D = tables_okD[OF assms(1)]
  note P = page_of(1)[of v] and low = page_of(2)[of _ v]
  note A = same_page_agree[OF P]
  have o: "own ?v" "canonical ?v" using A assms(3,4) by simp_all
  have ai: "idx 1 ?v = idx 1 v" using A(1)[unfolded agree_def, rule_format, of 3] by simp
  have w4: "pwalk ?m p ?v 4 = Some g" using agree_walk[OF A(1), of ?m p] assms(5) by simp
  then obtain t where t: "pwalk ?m p ?v 3 = Some t" using pwalk_less[of ?m p ?v 4 g 3] by auto
  have f: "is_frame f" using T(2) by (simp add: data_page_def)
  have fp: "frame p = p" using D(1) by (simp add: is_frame_def)
  from take_page_free[OF assms(2)] obtain l where
    l: "take_page s = Inr (f, s\<lparr>lists := l\<rparr>)" "free_frames (s\<lparr>lists := l\<rparr>) fs" by blast
  let ?t = "map (\<lambda>i. ?m (g + of_nat i)) [0..<4096]"
  have rd: "phys_of ?m (Paged p) (?v + of_nat i) = Inr (g + of_nat i)" if "i < 4096" for i
    using translate_page[OF low that o(2), of ?m p g] w4 fp by (simp add: phys_of_def)
  note R = read_page_loop[OF assms(7), of ?m "Paged p" ?v g, OF rd]
  have e510: "present (rd64 ?m (slot p 510))" "frame (rd64 ?m (slot p 510)) = p" by (rule D(4), rule D(5))
  from leaf_ptr_phys[OF _ D(1) e510 low t] have ptr: "phys_of ?m (Paged p) (leaf_ptr 510 ?v) = Inr (slot t (idx 1 ?v))" by simp
  let ?m1 = "wr64 ?m (slot t (idx 1 ?v)) (f OR USER_PAGE)"
  have L: "set_leaf ?m p fs ?v t (f OR USER_PAGE) ?m1" using T(1) o(1) t by (simp add: set_leaf_def)
  have ok1: "tables_ok ?m1 p fs" by (rule set_leaf_ok[OF L])
  have d1: "data_page ?m1 p fs f" by (rule set_leaf_data(2)[OF L T(2), of 0]) simp
  have e: "present (f OR USER_PAGE)" "frame (f OR USER_PAGE) = f" using new_entry[OF f] by simp_all
  have w1: "pwalk ?m1 p ?v 4 = Some f" using set_leaf_walk(2)[OF L o(1)] e by (simp add: agree_def)
  have wr: "phys_of m' (Paged p) (?v + of_nat k) = Inr (f + of_nat k)" if "k < 4096" "off_page f ?m1 m'" for k m'
    using translate_page[OF low that(1) o(2), of m' p f] off_page_tables(2)[OF ok1 d1 that(2) o(1), of 4] w1 fp
    by (simp add: phys_of_def)
  define m2 where "m2 = (\<lambda>x. if unat (x - f) < 4096 then ?t ! unat (x - f) else ?m1 x)"
  have W: "for_up 0 4096 (\<lambda>i m. if i < length ?t then vwr8 (Paged (pml4 proc)) (?v + of_nat i) (?t ! i) m else Inl Out_Of_Bounds) ?m1 = Inr m2"
    unfolding m2_def by (rule write_page_loop[OF f]) (use wr phys_of_frame[OF assms(8) D(1)] in simp_all)
  have off: "off_page f ?m1 m2" by (simp add: off_page_def m2_def)
  note O = off_page_tables[OF ok1 d1 off]
  let ?s = "s\<lparr>lists := l, mem := m2, temp_page := ?t\<rparr>"
  have "do_COW (Paged p) proc v s = Inr (Paged (pml4 proc), ?s)"
    using l(1) R W ptr
    by (simp add: do_COW_def map_page_COW_def vma_register_page_def Let_def leaf_ptr_def vwr64_def del: upt_Suc)
  moreover have "leaf m2 p v = Some (f OR USER_PAGE)"
  proof -
    have "pwalk m2 p v 3 = Some t"
      using O(2)[OF assms(3), of 3] set_leaf_walk(1)[OF L assms(3), of 3] agree_walk[of 3 v ?v ?m p] A(1) t
      by (simp add: agree_def)
    moreover have "t \<noteq> f" using d1 set_leaf_walk(1)[OF L o(1), of 3] t o(1) unfolding data_page_def by auto
    ultimately show ?thesis
      using O(1)[OF _ pwalk_frame[OF D(1) t] idx_less] set_leaf_rd[OF L pwalk_frame[OF D(1) t] idx_less, of 1 ?v] ai
      by (simp add: leaf_def)
  qed
  moreover have "m2 (f + of_nat b) = ?m (g + of_nat b)" if "b < 4096" for b
    using that unat_of_nat64[of b] by (simp add: m2_def del: upt_Suc)
  moreover have "m2 (u + of_nat b) = ?m (u + of_nat b)" if "data_page ?m p (f # fs) u" "b < 4096" for u b
  proof -
    have u: "is_frame u" "u \<noteq> f" "data_page ?m p fs u" using that(1) by (auto simp: data_page_def)
    from set_leaf_data(1)[OF L u(3) that(2)] unat_page_diff[OF f u(1) that(2)] u(2) show ?thesis by (simp add: m2_def)
  qed
  moreover have "pwalk m2 p w 4 = pwalk ?m p w 4" if "own w" "\<not> agree 4 w v" for w
  proof -
    have "\<not> agree 4 w ?v" using that(2) A(1) by (auto simp: agree_def)
    then show ?thesis using O(2)[OF that(1), of 4] set_leaf_walk(2)[OF L that(1)] by simp
  qed
  moreover have "pwalk m2 p w k = pwalk ?m p w k" if "own w" "k \<le> 3" for w k
    using O(2)[OF that(1), of k] set_leaf_walk(1)[OF L that(1,2)] that(2) by simp
  moreover have "data_page m2 p fs u" if "data_page ?m p (f # fs) u" for u
  proof -
    have "data_page ?m p fs u" using that by (simp add: data_page_def)
    from set_leaf_data(2)[OF L this, of 0] O(2) show ?thesis by (simp add: data_page_def)
  qed
  moreover have "off_page u ?m ?m1" if "pwalk ?m p v 3 = Some u" for u
  proof -
    have "u = t" using that t agree_walk[of 3 v ?v ?m p] A(1) by (simp add: agree_def)
    then show ?thesis using off_page_wr64[OF pwalk_frame[OF D(1) t] idx_less] by simp
  qed
  moreover have "free_frames ?s fs" using l(2) by simp
  ultimately show ?thesis using O(5) off unfolding private_copy_def by (intro exI[of _ ?s]) auto
qed

section \<open>The partner's entry\<close>

lemma cross_off_COW_other:
  assumes "tables_ok m p fs" and "present (rd64 m (slot p 509))" and "frame (rd64 m (slot p 509)) = c"
    and "pwalk m c v 3 = Some t" and "frame r = p"
  shows "cross_off_COW (Paged r) v m =
    Inr (wr64 m (slot t (idx 1 v)) ((rd64 m (slot t (idx 1 v)) AND NOT COW) OR READ_WRITE))"
proof -
  let ?v = "v AND 0xfffffffffffff000"
  note D = tables_okD[OF assms(1)]
  note low = page_of(2)[of _ v] and A = same_page_agree[OF page_of(1)[of v]]
  have ai: "idx 1 ?v = idx 1 v" using A(1)[unfolded agree_def, rule_format, of 3] by simp
  have "agree 3 ?v v" using A(1) by (simp add: agree_def)
  then have t: "pwalk m c ?v 3 = Some t" using agree_walk assms(4) by simp
  have sm: "self_mapped m p" using D(1,4,5) by (simp add: self_mapped_def)
  note ph = phys_of_frame[OF assms(5) D(1)]
  have "vrd64 (Paged r) (slot ACTIVE_PML4 509) m = Inr (rd64 m (slot p 509))"
    using tab_access(1)[OF sm, of 0 v p 509] ph by (simp add: vrd64_def)
  moreover have "rd64 m (slot p 509) \<noteq> 0" using assms(2) by (auto simp: present_def)
  moreover have "phys_of m (Paged p) (leaf_ptr 509 ?v) = Inr (slot t (idx 1 v))"
    using leaf_ptr_phys[OF _ D(1) assms(2,3) low t] ai by simp
  ultimately show ?thesis
    using ph by (simp add: cross_off_COW_def leaf_ptr_def vrd64_def vwr64_def Let_def)
qed

text \<open>
  The partner's table is well formed, and the tables that hold the two entries of \<open>v\<close> are each
  outside the other process's table.
\<close>

definition partner_path :: "ram \<Rightarrow> u64 \<Rightarrow> u64 list \<Rightarrow> u64 \<Rightarrow> u64 \<Rightarrow> bool" where
  "partner_path m p fs c v =
     (present (rd64 m (slot p 509)) \<and> frame (rd64 m (slot p 509)) = c \<and> tables_ok m c fs \<and> own v \<and>
      (\<exists>t u. pwalk m c v 3 = Some t \<and> data_page m p fs t \<and> pwalk m p v 3 = Some u \<and> data_page m c fs u))"

lemma wr64_data_page:
  assumes "tables_ok m p fs" and "data_page m p fs u" and "i < 512" and "own w" and "k \<le> 4"
  shows "pwalk (wr64 m (slot u i) e) p w k = pwalk m p w k" and "tables_ok (wr64 m (slot u i) e) p fs"
proof -
  have "is_frame u" using assms(2) by (simp add: data_page_def)
  from off_page_tables[OF assms(1,2) off_page_wr64[OF this assms(3), of m e]] assms(4,5)
  show "pwalk (wr64 m (slot u i) e) p w k = pwalk m p w k" "tables_ok (wr64 m (slot u i) e) p fs" by blast+
qed

lemma cross_off_COW_effect:
  assumes "tables_ok m p fs" and "partner_path m p fs c v" and "frame r = p"
  shows "\<exists>m'. cross_off_COW (Paged r) v m = Inr m' \<and>
    leaf m' c v = map_option (\<lambda>e. (e AND NOT COW) OR READ_WRITE) (leaf m c v) \<and>
    (\<forall>w k. own w \<and> k \<le> 4 \<longrightarrow> pwalk m' p w k = pwalk m p w k) \<and>
    (\<forall>w. own w \<longrightarrow> leaf m' p w = leaf m p w) \<and> tables_ok m' p fs \<and>
    (\<forall>u b. is_frame u \<and> pwalk m c v 3 \<noteq> Some u \<and> b < 4096 \<longrightarrow> m' (u + of_nat b) = m (u + of_nat b))"
proof -
  from assms(2) have P: "present (rd64 m (slot p 509))" "frame (rd64 m (slot p 509)) = c"
    "tables_ok m c fs" "own v" "\<exists>t. pwalk m c v 3 = Some t \<and> data_page m p fs t"
    by (auto simp: partner_path_def)
  from P(5) obtain t where t: "pwalk m c v 3 = Some t" "data_page m p fs t" by auto
  have ft: "is_frame t" using t(2) by (simp add: data_page_def)
  let ?e = "(rd64 m (slot t (idx 1 v)) AND NOT COW) OR READ_WRITE"
  let ?m = "wr64 m (slot t (idx 1 v)) ?e"
  note W = wr64_data_page[OF assms(1) t(2) idx_less, of _ _ 1 v ?e]
  have rd: "rd64 ?m (slot u i) = (if u = t \<and> i = idx 1 v then ?e else rd64 m (slot u i))" if "is_frame u" "i < 512" for u i
    using rd64_wr_slot[OF ft that(1) idx_less that(2)] by simp
  have "cross_off_COW (Paged r) v m = Inr ?m" by (rule cross_off_COW_other[OF assms(1) P(1,2) t(1) assms(3)])
  moreover have "leaf ?m p w = leaf m p w" if "own w" for w
  proof (cases "pwalk m p w 3")
    case (Some u)
    then have "u \<noteq> t" "is_frame u"
      using t(2) that pwalk_frame[OF tables_okD(1)[OF assms(1)]] unfolding data_page_def by auto
    then show ?thesis using Some W(1)[OF that, of 3] rd[OF _ idx_less, of u 1 w] by (simp add: leaf_def)
  qed (use W(1)[OF that, of 3] in \<open>simp add: leaf_def\<close>)
  moreover have "?m (u + of_nat b) = m (u + of_nat b)" if "is_frame u" "pwalk m c v 3 \<noteq> Some u" "b < 4096" for u b
    using wr64_page[OF ft that(1) _ idx_less that(3)] t(1) that(2) by auto
  moreover have "leaf ?m c v = map_option (\<lambda>e. (e AND NOT COW) OR READ_WRITE) (leaf m c v)"
  proof -
    have L: "set_leaf m c fs v t ?e ?m" using P(3,4) t(1) by (simp add: set_leaf_def)
    have "pwalk ?m c v 3 = Some t" using set_leaf_walk(1)[OF L P(4), of 3] t(1) by simp
    then show ?thesis using t(1) rd[OF ft idx_less, of 1 v] by (simp add: leaf_def)
  qed
  ultimately show ?thesis using W(1) W(2)[OF P(4), of 0] by (intro exI[of _ ?m]) simp
qed

section \<open>\<^verbatim>\<open>handle_COW\<close>\<close>

definition partner_of :: "sched \<Rightarrow> pcb \<Rightarrow> u64 result" where
  "partner_of sch proc =
     (if ppid proc = 0 then find_pcb_by_ppid (pid proc) sch else find_pcb_by_pid (ppid proc) sch)"

lemma private_copy_partner:
  assumes "tables_ok m p (f # fs)" and "partner_path m p (f # fs) c v" and "private_copy p f fs v g m m'"
  shows "partner_path m' p fs c v" and "leaf m' c v = leaf m c v" and "pwalk m' c v 3 = pwalk m c v 3"
proof -
  note D = tables_okD[OF assms(1)]
  from assms(2) obtain t u where P: "present (rd64 m (slot p 509))" "frame (rd64 m (slot p 509)) = c"
    "tables_ok m c (f # fs)" "own v" "pwalk m c v 3 = Some t" "data_page m p (f # fs) t" "pwalk m p v 3 = Some u"
    "data_page m c (f # fs) u" by (auto simp: partner_path_def)
  note C = assms(3)[unfolded private_copy_def]
  from C P(7) obtain m1 where m1: "off_page u m m1" "off_page f m1 m'" by blast
  note O1 = off_page_tables[OF P(3,8) m1(1)]
  have d: "data_page m1 c fs f" "tables_ok m1 c fs" using tables_ok_tl[OF O1(5)] by simp_all
  note O2 = off_page_tables[OF d(2,1) m1(2)]
  have w: "pwalk m' c v k = pwalk m c v k" if "k \<le> 4" for k
    using O1(2)[OF P(4) that] O2(2)[OF P(4) that] by simp
  have up: "p \<noteq> u" using D(7)[OF P(4) P(4), of 0 3 u] P(7) by auto
  have uf: "is_frame u" using pwalk_frame[OF D(1) P(7)] .
  have fp: "p \<noteq> f" "is_frame f" using D(6)[OF P(4), of 0 f] D(2)[of f] by auto
  have i: "(509 :: u64) < 512" by simp
  have "rd64 m' (slot p 509) = rd64 m1 (slot p 509)"
    using rd64_other_page[OF D(1) fp(2,1) i, of m' m1] m1(2) by (simp add: off_page_def)
  also have "\<dots> = rd64 m (slot p 509)"
    using rd64_other_page[OF D(1) uf up i, of m1 m] m1(1) by (simp add: off_page_def)
  finally have e: "rd64 m' (slot p 509) = rd64 m (slot p 509)" .
  have dt: "data_page m' p fs t" using C P(6) by blast
  have wp: "pwalk m' p v 3 = Some u" using C P(4,7) by simp
  have "data_page m' c fs u"
    using P(8) O1(2) O2(2) by (simp add: data_page_def)
  with P(1-5) e w[of 3] dt wp O2(5) show "partner_path m' p fs c v" by (simp add: partner_path_def)
  have "rd64 m' (slot t i) = rd64 m (slot t i)" if "i < 512" for i
    using C P(6) that by (intro same_bytes_rd64) auto
  then show "leaf m' c v = leaf m c v" using w[of 3] P(5) by (simp add: leaf_def)
  show "pwalk m' c v 3 = pwalk m c v 3" using w[of 3] by simp
qed

text \<open>C10: A write to a page that is shared after a fork gives both processes a writable page of their
  own: the faulting process gets a fresh page with the same bytes, its partner keeps the old page,
  unchanged, with \<^verbatim>\<open>READ_WRITE\<close> set and \<^verbatim>\<open>COW\<close> cleared, and nothing else in the process's address
  space changes.\<close>

theorem handle_COW_separates:
  assumes "tables_ok (mem s) p (f # fs)" and "free_frames s (f # fs)" and "own v" and "canonical v"
    and "pwalk (mem s) p v 4 = Some g" and "data_page (mem s) p (f # fs) g"
    and "length (temp_page s) = 4096" and "frame (pml4 proc) = p"
    and "deref sch (active_pcb sch) = Inr proc" and "partner_of sch proc = Inr r" and "r \<noteq> 0"
    and "partner_path (mem s) p (f # fs) c v" and "leaf (mem s) c v = Some e"
    and "pwalk (mem s) c v 3 \<noteq> Some g"
  shows "\<exists>s'. handle_COW (Paged p) sch v s = Inr (Paged (pml4 proc), s') \<and>
    leaf (mem s') p v = Some (f OR USER_PAGE) \<and> leaf (mem s') c v = Some ((e AND NOT COW) OR READ_WRITE) \<and>
    (\<forall>b<4096. mem s' (f + of_nat b) = mem s (g + of_nat b) \<and> mem s' (g + of_nat b) = mem s (g + of_nat b)) \<and>
    (\<forall>w. own w \<and> \<not> agree 4 w v \<longrightarrow> pwalk (mem s') p w 4 = pwalk (mem s) p w 4) \<and>
    tables_ok (mem s') p fs \<and> free_frames s' fs"
proof -
  from do_COW_copies[OF assms(1-8)] obtain s1 where
    s1: "do_COW (Paged p) proc v s = Inr (Paged (pml4 proc), s1)" "private_copy p f fs v g (mem s) (mem s1)"
      "free_frames s1 fs" by blast
  note C = s1(2)[unfolded private_copy_def]
  note P = private_copy_partner[OF assms(1,12) s1(2)]
  have ok: "tables_ok (mem s1) p fs" using C by blast
  from cross_off_COW_effect[OF ok P(1) assms(8)] obtain m' where
    m': "cross_off_COW (Paged (pml4 proc)) v (mem s1) = Inr m'"
      "leaf m' c v = map_option (\<lambda>e. (e AND NOT COW) OR READ_WRITE) (leaf (mem s1) c v)"
      "\<And>w k. own w \<Longrightarrow> k \<le> 4 \<Longrightarrow> pwalk m' p w k = pwalk (mem s1) p w k"
      "\<And>w. own w \<Longrightarrow> leaf m' p w = leaf (mem s1) p w" "tables_ok m' p fs"
      "\<And>u b. is_frame u \<Longrightarrow> pwalk (mem s1) c v 3 \<noteq> Some u \<Longrightarrow> b < 4096 \<Longrightarrow> m' (u + of_nat b) = mem s1 (u + of_nat b)"
    by blast
  note w3 = P(3)
  have g: "is_frame g" and f: "is_frame f" using assms(6) tables_okD(2)[OF assms(1), of f] by (simp_all add: data_page_def)
  have "pwalk (mem s) c v 3 \<noteq> Some f"
  proof -
    from assms(12) have "tables_ok (mem s) c (f # fs)" by (simp add: partner_path_def)
    from tables_okD(6)[OF this assms(3), of 3 f] show ?thesis by simp
  qed
  with m'(6)[OF f] m'(6)[OF g] w3 assms(14) C assms(6)
  have bytes: "m' (f + of_nat b) = mem s (g + of_nat b)" "m' (g + of_nat b) = mem s (g + of_nat b)" if "b < 4096" for b
    using that by auto
  have "handle_COW (Paged p) sch v s = Inr (Paged (pml4 proc), s1\<lparr>mem := m'\<rparr>)"
    using assms(9-11) s1(1) m'(1) by (simp add: handle_COW_def partner_of_def)
  moreover have "leaf m' p v = Some (f OR USER_PAGE)" using m'(4)[OF assms(3)] C by simp
  moreover have "leaf m' c v = Some ((e AND NOT COW) OR READ_WRITE)" using m'(2) P(2) assms(13) by simp
  moreover have "pwalk m' p w 4 = pwalk (mem s) p w 4" if "own w" "\<not> agree 4 w v" for w
    using m'(3)[OF that(1), of 4] C that by simp
  ultimately show ?thesis using bytes m'(5) s1(3) by (intro exI[of _ "s1\<lparr>mem := m'\<rparr>"]) simp
qed

text \<open>Without a partner \<^verbatim>\<open>handle_COW\<close> does not resolve the fault: when the other process of the fork is
  gone, only the entry in the stale table behind entry 509 is changed, or nothing at all. The entry of
  the faulting process stays as it is, read-only and marked \<^verbatim>\<open>COW\<close>, and the write faults again.\<close>

theorem lone_COW_not_resolved:
  assumes "tables_ok (mem s) p fs" and "own v" and "frame r = p"
    and "deref sch (active_pcb sch) = Inr proc" and "partner_of sch proc = Inr 0"
    and "rd64 (mem s) (slot p 509) = 0 \<or> partner_path (mem s) p fs c v"
  shows "\<exists>s'. handle_COW (Paged r) sch v s = Inr (Paged r, s') \<and> leaf (mem s') p v = leaf (mem s) p v"
  using assms(6)
proof
  assume e: "rd64 (mem s) (slot p 509) = 0"
  have "self_mapped (mem s) p" using tables_okD(1,4,5)[OF assms(1)] by (simp add: self_mapped_def)
  from tab_access(1)[OF this, of 0 v p 509] phys_of_frame[OF assms(3) tables_okD(1)[OF assms(1)]]
  have "vrd64 (Paged r) (slot ACTIVE_PML4 509) (mem s) = Inr 0" using e by (simp add: vrd64_def)
  then have "handle_COW (Paged r) sch v s = Inr (Paged r, s\<lparr>mem := mem s\<rparr>)"
    using assms(4,5) by (simp add: handle_COW_def partner_of_def cross_off_COW_def)
  then show ?thesis by simp
next
  assume "partner_path (mem s) p fs c v"
  from cross_off_COW_effect[OF assms(1) this assms(3)] assms(2) obtain m' where
    "cross_off_COW (Paged r) v (mem s) = Inr m'" "leaf m' p v = leaf (mem s) p v" by blast
  then show ?thesis
    using assms(4,5) by (intro exI[of _ "s\<lparr>mem := m'\<rparr>"]) (simp add: handle_COW_def partner_of_def)
qed

section \<open>Two processes that share a page\<close>

lemma one_path:
  assumes "is_frame p" "is_frame t1" "is_frame t2" "is_frame t3" and "distinct [p, t1, t2, t3]" and "own v"
    and "\<And>i. i < 512 \<Longrightarrow> i \<noteq> 509 \<Longrightarrow> rd64 m (slot p i) =
      (if i = 510 then p OR USER_PAGE else if i = idx 4 v then t1 OR USER_PAGE else 0)"
    and "\<And>i. i < 512 \<Longrightarrow> rd64 m (slot t1 i) = (if i = idx 3 v then t2 OR USER_PAGE else 0)"
    and "\<And>i. i < 512 \<Longrightarrow> rd64 m (slot t2 i) = (if i = idx 2 v then t3 OR USER_PAGE else 0)"
  shows "own w \<Longrightarrow> k \<le> 3 \<Longrightarrow> pwalk m p w k = (if agree k w v then Some ([p, t1, t2, t3] ! k) else None)"
    and "\<forall>f\<in>set fs. is_frame f \<and> f \<notin> {p, t1, t2, t3} \<Longrightarrow> distinct fs \<Longrightarrow> tables_ok m p fs"
proof -
  note e1 = new_entry[OF assms(2)] and e2 = new_entry[OF assms(3)] and e3 = new_entry[OF assms(4)] and e0 = new_entry[OF assms(1)]
  have w1: "pwalk m p w (Suc 0) = (if agree (Suc 0) w v then Some t1 else None)" if "own w" for w
    using that assms(7)[OF idx_less, of 4 w] e1 by (simp add: agree_Suc own_def present_def agree_def)
  have step: "pwalk m p w (Suc k) = (if agree (Suc k) w v then Some b else None)"
    if h: "pwalk m p w k = (if agree k w v then Some a else None)" "is_frame b"
      "\<And>i. i < 512 \<Longrightarrow> rd64 m (slot a i) = (if i = idx (4 - k) v then b OR USER_PAGE else 0)" for w k a b
  proof (cases "agree k w v")
    case True
    with h(1) have "pwalk m p w k = Some a" by simp
    note st = pwalk_step[OF this]
    have "rd64 m (slot a (idx (4 - k) w)) = (if agree (Suc k) w v then b OR USER_PAGE else 0)"
      using h(3)[OF idx_less, of "4 - k" w] True by (simp add: agree_Suc)
    then show ?thesis
      unfolding st using new_entry[OF h(2)] by (cases "agree (Suc k) w v") (simp_all add: present_def)
  next
    case False
    with h(1) show ?thesis by (simp add: agree_Suc)
  qed
  have w2: "pwalk m p w (Suc (Suc 0)) = (if agree (Suc (Suc 0)) w v then Some t2 else None)" if "own w" for w
    by (rule step[OF w1[OF that] assms(3)]) (simp add: assms(8))
  have w3: "pwalk m p w (Suc (Suc (Suc 0))) = (if agree (Suc (Suc (Suc 0))) w v then Some t3 else None)" if "own w" for w
    by (rule step[OF w2[OF that] assms(4)]) (simp add: assms(9) numeral_2_eq_2)
  have W: "pwalk m p w k = (if agree k w v then Some ([p, t1, t2, t3] ! k) else None)" if "own w" "k \<le> 3" for w k
  proof -
    from that(2) consider "k = 0" | "k = Suc 0" | "k = Suc (Suc 0)" | "k = Suc (Suc (Suc 0))" by linarith
    then show ?thesis using w1[OF that(1)] w2[OF that(1)] w3[OF that(1)] by cases (simp_all add: agree_def del: pwalk.simps(2))
  qed
  then show "own w \<Longrightarrow> k \<le> 3 \<Longrightarrow> pwalk m p w k = (if agree k w v then Some ([p, t1, t2, t3] ! k) else None)" .
  have r: "rd64 m (slot p 510) = p OR USER_PAGE" using assms(7)[of 510] by simp
  have nth: "[p, t1, t2, t3] ! k \<in> {p, t1, t2, t3}" if "k \<le> 3" for k
    using that nth_mem[of k "[p, t1, t2, t3]"] by simp
  show "tables_ok m p fs" if fs: "\<forall>f\<in>set fs. is_frame f \<and> f \<notin> {p, t1, t2, t3}" "distinct fs"
  proof (rule tables_okI)
    show "present (rd64 m (slot p 510))" "frame (rd64 m (slot p 510)) = p" using r e0 by simp_all
    show "pwalk m p w k \<noteq> Some f" if "own w" "k \<le> 3" "f \<in> set fs" for w k f
      using W[OF that(1,2)] nth[OF that(2)] fs(1) that(3) by auto
    show "j = k \<and> agree j x w"
      if h: "own x" "own w" "j \<le> 3" "k \<le> 3" "pwalk m p x j = Some t" "pwalk m p w k = Some t" for x w j k t
    proof -
      have "[p, t1, t2, t3] ! j = [p, t1, t2, t3] ! k" "agree j x v" "agree k w v"
        using W[OF h(1,3)] W[OF h(2,4)] h(5,6) by (auto split: if_splits)
      moreover from this(1) have "j = k" using nth_eq_iff_index_eq[OF assms(5), of j k] h(3,4) by simp
      ultimately show ?thesis by (simp add: agree_def)
    qed
    show "rd64 m (slot t (idx (4 - k) w)) = 0 \<or> present (rd64 m (slot t (idx (4 - k) w)))"
      if h: "own w" "k \<le> 2" "pwalk m p w k = Some t" for w k t
    proof -
      have t: "t = [p, t1, t2, t3] ! k" using W[OF h(1), of k] h(2,3) by (auto split: if_splits)
      from h(2) consider "k = 0" | "k = 1" | "k = 2" by linarith
      then show ?thesis
      proof cases
        case 1
        then have "t = p" "idx (4 - k) w = idx 4 w" using t by simp_all
        then show ?thesis using assms(7)[OF idx_less, of 4 w] h(1) e1(1) by (simp add: own_def)
      next
        case 2
        then have "t = t1" "idx (4 - k) w = idx 3 w" using t by simp_all
        then show ?thesis using assms(8)[OF idx_less, of 3 w] e2(1) by simp
      next
        case 3
        then have "t = t2" "idx (4 - k) w = idx 2 w" using t by (simp_all add: numeral_2_eq_2)
        then show ?thesis using assms(9)[OF idx_less, of 2 w] e3(1) by simp
      qed
    qed
  qed (use assms fs in auto)
qed

text \<open>
  The example: the tables \<open>0x1000\<close> to \<open>0x4000\<close> of the parent, \<open>0x5000\<close> to \<open>0x8000\<close> of the child, and
  the page \<open>0x9000\<close>, which both have mapped, for copy on write, at \<open>0x500000\<close>.
\<close>

definition table_writes :: "(u64 \<times> u64 \<times> u64) list \<Rightarrow> ram" where
  "table_writes ws = fold (\<lambda>(t, i, e) m. wr64 m (slot t i) e) ws (\<lambda>_. 0)"

lemma rd64_table_writes:
  assumes "is_frame u" and "j < 512" and "\<forall>(t, i, e)\<in>set ws. is_frame t \<and> i < 512"
  shows "rd64 (table_writes ws) (slot u j) = fold (\<lambda>(t, i, e) x. if u = t \<and> j = i then e else x) ws 0"
  using assms(3)
proof (induction ws rule: rev_induct)
  case Nil
  have "rd64 (\<lambda>_. 0) (slot u j) = 0" by (intro bit_eqI) (simp add: bit_rd64)
  then show ?case by (simp add: table_writes_def)
next
  case (snoc x ws)
  obtain t i e where x: "x = (t, i, e)" by (cases x)
  have "rd64 (table_writes (ws @ [x])) (slot u j) = (if u = t \<and> j = i then e else rd64 (table_writes ws) (slot u j))"
    using rd64_wr_slot[OF _ assms(1) _ assms(2), of t i "table_writes ws" e] snoc.prems x by (simp add: table_writes_def)
  with snoc x show ?case by simp
qed

definition shared_writes :: "(u64 \<times> u64 \<times> u64) list" where
  "shared_writes =
     [(0x1000, 510, 0x1007), (0x1000, 509, 0x5007), (0x1000, 0, 0x2007), (0x2000, 0, 0x3007), (0x3000, 2, 0x4007),
      (0x4000, 256, 0x9205), (0x5000, 510, 0x5007), (0x5000, 509, 0x1007), (0x5000, 0, 0x6007), (0x6000, 0, 0x7007),
      (0x7000, 2, 0x8007), (0x8000, 256, 0x9205)]"

definition shared_mm :: mm where
  "shared_mm = (boot_mm (\<lambda>_. 0))\<lparr>mem := table_writes shared_writes\<rparr>"

lemma shared_entries:
  assumes "is_frame u" and "j < 512"
  shows "rd64 (mem shared_mm) (slot u j) = fold (\<lambda>(t, i, e) x. if u = t \<and> j = i then e else x) shared_writes 0"
  using rd64_table_writes[OF assms, of shared_writes] by (simp add: shared_mm_def shared_writes_def is_frame_iff)

lemma shared_idx: "idx 4 0x500000 = 0" "idx 3 0x500000 = 0" "idx 2 0x500000 = 2" "idx 1 0x500000 = 256"
  "own 0x500000" "canonical 0x500000"
  by (simp_all add: own_def idx_def drop_bit_eq_div canonical_def)

lemma shared_frames:
  "is_frame 0x1000" "is_frame 0x2000" "is_frame 0x3000" "is_frame 0x4000" "is_frame 0x5000" "is_frame 0x6000"
  "is_frame 0x7000" "is_frame 0x8000" "is_frame 0x9000"
  by (simp_all add: is_frame_iff)

lemma shared_parent:
  shows "own w \<Longrightarrow> k \<le> 3 \<Longrightarrow> pwalk (mem shared_mm) 0x1000 w k =
      (if agree k w 0x500000 then Some ([0x1000, 0x2000, 0x3000, 0x4000] ! k) else None)"
    and "tables_ok (mem shared_mm) 0x1000 eight_frames"
proof -
  note e = shared_entries[unfolded shared_writes_def]
  have r: "\<And>i. i < 512 \<Longrightarrow> i \<noteq> 509 \<Longrightarrow> rd64 (mem shared_mm) (slot 0x1000 i) =
      (if i = 510 then 0x1000 OR USER_PAGE else if i = idx 4 0x500000 then 0x2000 OR USER_PAGE else 0)"
    "\<And>i. i < 512 \<Longrightarrow> rd64 (mem shared_mm) (slot 0x2000 i) = (if i = idx 3 0x500000 then 0x3000 OR USER_PAGE else 0)"
    "\<And>i. i < 512 \<Longrightarrow> rd64 (mem shared_mm) (slot 0x3000 i) = (if i = idx 2 0x500000 then 0x4000 OR USER_PAGE else 0)"
    using shared_idx by (simp_all add: e shared_frames)
  have d: "distinct [0x1000, 0x2000, 0x3000, 0x4000 :: u64]" by simp
  note O = one_path[OF shared_frames(1-4) d shared_idx(5) r]
  show "own w \<Longrightarrow> k \<le> 3 \<Longrightarrow> pwalk (mem shared_mm) 0x1000 w k =
      (if agree k w 0x500000 then Some ([0x1000, 0x2000, 0x3000, 0x4000] ! k) else None)" by (rule O(1))
  show "tables_ok (mem shared_mm) 0x1000 eight_frames"
    by (rule O(2)) (simp_all add: eight_frames_def is_frame_iff)
qed

lemma shared_child:
  shows "own w \<Longrightarrow> k \<le> 3 \<Longrightarrow> pwalk (mem shared_mm) 0x5000 w k =
      (if agree k w 0x500000 then Some ([0x5000, 0x6000, 0x7000, 0x8000] ! k) else None)"
    and "tables_ok (mem shared_mm) 0x5000 eight_frames"
proof -
  note e = shared_entries[unfolded shared_writes_def]
  have r: "\<And>i. i < 512 \<Longrightarrow> i \<noteq> 509 \<Longrightarrow> rd64 (mem shared_mm) (slot 0x5000 i) =
      (if i = 510 then 0x5000 OR USER_PAGE else if i = idx 4 0x500000 then 0x6000 OR USER_PAGE else 0)"
    "\<And>i. i < 512 \<Longrightarrow> rd64 (mem shared_mm) (slot 0x6000 i) = (if i = idx 3 0x500000 then 0x7000 OR USER_PAGE else 0)"
    "\<And>i. i < 512 \<Longrightarrow> rd64 (mem shared_mm) (slot 0x7000 i) = (if i = idx 2 0x500000 then 0x8000 OR USER_PAGE else 0)"
    using shared_idx by (simp_all add: e shared_frames)
  have d: "distinct [0x5000, 0x6000, 0x7000, 0x8000 :: u64]" by simp
  note O = one_path[OF shared_frames(5-8) d shared_idx(5) r]
  show "own w \<Longrightarrow> k \<le> 3 \<Longrightarrow> pwalk (mem shared_mm) 0x5000 w k =
      (if agree k w 0x500000 then Some ([0x5000, 0x6000, 0x7000, 0x8000] ! k) else None)" by (rule O(1))
  show "tables_ok (mem shared_mm) 0x5000 eight_frames"
    by (rule O(2)) (simp_all add: eight_frames_def is_frame_iff)
qed

lemma shared_leaf:
  "leaf (mem shared_mm) 0x1000 0x500000 = Some 0x9205" "leaf (mem shared_mm) 0x5000 0x500000 = Some 0x9205"
  "pwalk (mem shared_mm) 0x1000 0x500000 4 = Some 0x9000"
proof -
  show l: "leaf (mem shared_mm) 0x1000 0x500000 = Some 0x9205" "leaf (mem shared_mm) 0x5000 0x500000 = Some 0x9205"
    using shared_parent(1)[of "0x500000" 3] shared_child(1)[of "0x500000" 3] shared_idx
    by (simp_all add: leaf_def agree_def shared_entries shared_frames shared_writes_def)
  have "present 0x9205" "frame 0x9205 = 0x9000" by (simp_all add: present_def frame_def)
  with l(1) show "pwalk (mem shared_mm) 0x1000 0x500000 4 = Some 0x9000" by (simp add: leaf_walk)
qed

lemma nth_4: "(k :: nat) \<le> 3 \<Longrightarrow> [a, b, c, d :: u64] ! k \<in> {a, b, c, d}"
  using nth_mem[of k "[a, b, c, d]"] by simp

lemma shared_partner:
  "data_page (mem shared_mm) 0x1000 eight_frames 0x9000" "partner_path (mem shared_mm) 0x1000 eight_frames 0x5000 0x500000"
proof -
  have e: "u \<notin> set eight_frames" if "u \<in> {0x4000, 0x8000, 0x9000}" for u using that by (auto simp: eight_frames_def)
  have p: "pwalk (mem shared_mm) 0x1000 w k \<noteq> Some u" if "own w" "k \<le> 3" "u \<in> {0x8000, 0x9000}" for w k u
    using shared_parent(1)[OF that(1,2)] nth_4[OF that(2), of "0x1000" "0x2000" "0x3000" "0x4000"] that(3) by auto
  have c: "pwalk (mem shared_mm) 0x5000 w k \<noteq> Some 0x4000" if "own w" "k \<le> 3" for w k
    using shared_child(1)[OF that] nth_4[OF that(2), of "0x5000" "0x6000" "0x7000" "0x8000"] by auto
  show "data_page (mem shared_mm) 0x1000 eight_frames 0x9000"
    using p e shared_frames by (simp add: data_page_def)
  have d: "data_page (mem shared_mm) 0x1000 eight_frames 0x8000" "data_page (mem shared_mm) 0x5000 eight_frames 0x4000"
    using p c e shared_frames by (simp_all add: data_page_def)
  have "rd64 (mem shared_mm) (slot 0x1000 509) = 0x5007"
    by (simp add: shared_entries shared_frames shared_writes_def)
  moreover have "present 0x5007" "frame 0x5007 = 0x5000" by (simp_all add: present_def frame_def)
  moreover have "pwalk (mem shared_mm) 0x5000 0x500000 3 = Some 0x8000" "pwalk (mem shared_mm) 0x1000 0x500000 3 = Some 0x4000"
    using shared_parent(1)[of "0x500000" 3] shared_child(1)[of "0x500000" 3] shared_idx by (simp_all add: agree_def)
  ultimately show "partner_path (mem shared_mm) 0x1000 eight_frames 0x5000 0x500000"
    using d shared_idx shared_child(2) by (simp add: partner_path_def)
qed

text \<open>The parent is active, with or without its child in the queue.\<close>

definition fork_sched :: "i32 \<Rightarrow> sched" where
  "fork_sched q = (two_blocks RUNNING)\<lparr>pcbs := [0x1000 \<mapsto> blank_pcb\<lparr>pid := 1, pml4 := 0x1000\<rparr>,
     0x2000 \<mapsto> blank_pcb\<lparr>pid := 2, ppid := q\<rparr>]\<rparr>"

lemma fork_sched_partner:
  "deref (fork_sched q) (active_pcb (fork_sched q)) = Inr (blank_pcb\<lparr>pid := 1, pml4 := 0x1000\<rparr>)"
  "partner_of (fork_sched 1) (blank_pcb\<lparr>pid := 1, pml4 := 0x1000\<rparr>) = Inr 0x2000"
  "partner_of (fork_sched 7) (blank_pcb\<lparr>pid := 1, pml4 := 0x1000\<rparr>) = Inr 0"
proof -
  have r: "ring_repr (processq (fork_sched q)) [0x2000]" for q by (simp add: fork_sched_def two_blocks_def ring_repr_def)
  have q: "deref (fork_sched q) 0x2000 = Inr (blank_pcb\<lparr>pid := 2, ppid := q\<rparr>)" for q
    by (simp add: deref_def fork_sched_def two_blocks_def)
  show "deref (fork_sched q) (active_pcb (fork_sched q)) = Inr (blank_pcb\<lparr>pid := 1, pml4 := 0x1000\<rparr>)"
    by (simp add: deref_def fork_sched_def two_blocks_def)
  have "find_pcb_by_ppid 1 (fork_sched q) = Inr (if q = 1 then 0x2000 else 0)" for q
    unfolding find_pcb_by_ppid_def for_queue_walk[OF r] by (simp add: find_ppid_body_def q)
  then show "partner_of (fork_sched 1) (blank_pcb\<lparr>pid := 1, pml4 := 0x1000\<rparr>) = Inr 0x2000"
    "partner_of (fork_sched 7) (blank_pcb\<lparr>pid := 1, pml4 := 0x1000\<rparr>) = Inr 0"
    by (simp_all add: partner_of_def blank_pcb_def)
qed

lemma shared_free: "free_frames shared_mm eight_frames" "length (temp_page shared_mm) = 4096"
  using boot_mm_ok(2) by (simp_all add: shared_mm_def) (simp add: boot_mm_def)

lemma handle_COW_separates_witness:
  "\<exists>s'. handle_COW (Paged 0x1000) (fork_sched 1) 0x500000 shared_mm = Inr (Paged 0x1000, s') \<and>
     leaf (mem s') 0x1000 0x500000 = Some 0x101007 \<and> leaf (mem s') 0x5000 0x500000 = Some 0x9007"
proof -
  let ?p = "blank_pcb\<lparr>pid := 1, pml4 := 0x1000\<rparr>"
  have f: "frame (pml4 ?p) = 0x1000" by (simp add: frame_def)
  have c: "pwalk (mem shared_mm) 0x5000 0x500000 3 \<noteq> Some 0x9000"
    using shared_child(1)[of "0x500000" 3] shared_idx by (simp add: agree_def)
  have r: "(0x2000 :: u64) \<noteq> 0" by simp
  from handle_COW_separates[OF shared_parent(2)[unfolded eight_frames_def] shared_free(1)[unfolded eight_frames_def]
      shared_idx(5,6) shared_leaf(3) shared_partner(1)[unfolded eight_frames_def] shared_free(2) f
      fork_sched_partner(1,2) r shared_partner(2)[unfolded eight_frames_def] shared_leaf(2) c]
  show ?thesis by auto
qed

lemma lone_COW_not_resolved_witness:
  "\<exists>s'. handle_COW (Paged 0x1000) (fork_sched 7) 0x500000 shared_mm = Inr (Paged 0x1000, s') \<and>
     leaf (mem s') 0x1000 0x500000 = Some 0x9205"
proof -
  have f: "frame 0x1000 = (0x1000 :: u64)" by (simp add: frame_def)
  from lone_COW_not_resolved[OF shared_parent(2) shared_idx(5) f fork_sched_partner(1,3)] shared_partner(2) shared_leaf(1)
  show ?thesis by auto
qed

end
