(* ===== verification/Console.thy ===== *)
theory Console
  imports Kstring
begin

text \<open>
  The text console, \<^verbatim>\<open>sys/unix_helpers.c\<close>: the cursor, scrolling and \<^verbatim>\<open>write_k\<close>.

  The display memory is a byte array at \<^verbatim>\<open>display_mem\<close>, two bytes per cell (character and
  attribute) and 80 cells per row. Rows 0 to 22 are the scrolling screen, row 23 is the status line
  for the last key and the clock. An access outside the array is \<open>Out_Of_Bounds\<close>.
\<close>

record console =
  display_mem :: u64
  vram :: "char list"
  row :: nat
  col :: nat

definition set_display_address :: "u64 \<Rightarrow> console \<Rightarrow> console" where
  "set_display_address add s = s\<lparr>display_mem := add\<rparr>"

section \<open>Operations\<close>

definition copy_cell :: "nat \<Rightarrow> nat \<Rightarrow> char list \<Rightarrow> char list result" where
  "copy_cell temprow tempcol m =
     bindr (rd m (160 * (temprow + 1) + 2 * tempcol)) (wr m (160 * temprow + 2 * tempcol))"

definition rollup :: "char list \<Rightarrow> char list result" where
  "rollup m =
     bindr (for_up 0 22 (\<lambda>temprow. for_up 0 80 (copy_cell temprow)) m)
       (for_up 0 80 (\<lambda>tempcol m. wr m (160 * 22 + 2 * tempcol) (CHR '' '')))"

text \<open>Two writes at the cursor: the character and a zero attribute.\<close>

definition put_cell :: "char \<Rightarrow> console \<Rightarrow> console result" where
  "put_cell v s =
     bindr (wr (vram s) (160 * row s + 2 * col s) v) (\<lambda>m.
       bindr (wr m (160 * row s + 2 * col s + 1) NUL) (\<lambda>m'.
         Inr (s\<lparr>vram := m', col := col s + 1\<rparr>)))"

function fill_line :: "console \<Rightarrow> console result" where
  "fill_line s = (if col s < 80 then bindr (put_cell (CHR '' '') s) fill_line else Inr s)"
  by pat_completeness auto
termination by (relation "measure (\<lambda>s. 80 - col s)") (auto simp: put_cell_def)

declare fill_line.simps [simp del]

definition do_newline :: "console \<Rightarrow> console result" where
  "do_newline s =
     bindr (fill_line s) (\<lambda>s1.
       let s2 = s1\<lparr>col := 0, row := row s1 + 1\<rparr>
       in if row s2 > 22
          then bindr (rollup (vram s2)) (\<lambda>m. Inr (s2\<lparr>vram := m, row := 22\<rparr>))
          else Inr s2)"

text \<open>
  The last part of \<^verbatim>\<open>write_k\<close>, for an ordinary character; its calls of itself are all with
  a space and take this part.
\<close>

definition put_plain :: "char \<Rightarrow> console \<Rightarrow> console result" where
  "put_plain v s = bindr (put_cell v s) (\<lambda>s1. if col s1 \<ge> 80 then do_newline s1 else Inr s1)"

text \<open>The bound of the loop is computed from the cursor, which the body moves.\<close>

function tab_loop :: "nat \<Rightarrow> console \<Rightarrow> console result" where
  "tab_loop i s =
     (if i < col s mod 4 then bindr (put_plain (CHR '' '') s) (tab_loop (Suc i)) else Inr s)"
  by pat_completeness auto
termination
proof (relation "measure (\<lambda>(i, s). 4 - i)")
  fix i s x
  assume "i < col s mod 4"
  moreover have "col s mod 4 < 4" by simp
  ultimately have "i < 4" by linarith
  then show "((Suc i, x), i, s) \<in> measure (\<lambda>(i, s). 4 - i)" by simp
qed simp

declare tab_loop.simps [simp del]

definition step_back :: "console \<Rightarrow> console" where
  "step_back s =
     (if col s = 0 \<and> row s > 0 then s\<lparr>col := 79, row := row s - 1\<rparr>
      else if col s > 0 then s\<lparr>col := col s - 1\<rparr> else s)"

abbreviation (input) BS :: char where "BS \<equiv> CHR 0x08"
abbreviation (input) TAB :: char where "TAB \<equiv> CHR 0x09"
abbreviation (input) LF :: char where "LF \<equiv> CHR 0x0A"

definition write_k :: "char \<Rightarrow> console \<Rightarrow> console result" where
  "write_k v s =
     (if v = NUL then Inr s
      else if v = LF then do_newline s
      else if v = TAB then tab_loop 0 s
      else if v = BS then bindr (put_plain (CHR '' '') (step_back s)) (\<lambda>s1. Inr (step_back s1))
      else put_plain v s)"

section \<open>The screen as a grid\<close>

text \<open>
  What the operations do to the screen: a grid of characters, blank outside the 23 rows of 80
  columns, and a cursor.
\<close>

type_synonym grid = "nat \<Rightarrow> nat \<Rightarrow> char"

definition cells :: "char list \<Rightarrow> grid" where
  "cells m r c = (if r < 23 \<and> c < 80 then m ! (160 * r + 2 * c) else CHR '' '')"

definition blank_from :: "nat \<Rightarrow> (nat \<Rightarrow> char) \<Rightarrow> nat \<Rightarrow> char" where
  "blank_from c line k = (if c \<le> k then CHR '' '' else line k)"

definition newline_spec :: "grid \<times> nat \<times> nat \<Rightarrow> grid \<times> nat \<times> nat" where
  "newline_spec t = (case t of (g, r, c) \<Rightarrow>
     let g1 = g(r := blank_from c (g r))
     in if r = 22 then ((\<lambda>i. g1 (Suc i)), 22, 0) else (g1, r + 1, 0))"

definition plain_spec :: "char \<Rightarrow> grid \<times> nat \<times> nat \<Rightarrow> grid \<times> nat \<times> nat" where
  "plain_spec v t = (case t of (g, r, c) \<Rightarrow>
     let g1 = g(r := (g r)(c := v))
     in if c = 79 then newline_spec (g1, r, 80) else (g1, r, c + 1))"

definition back_spec :: "nat \<times> nat \<Rightarrow> nat \<times> nat" where
  "back_spec p = (case p of (r, c) \<Rightarrow> if c > 0 then (r, c - 1) else if r > 0 then (r - 1, 79) else (0, 0))"

definition write_spec :: "char \<Rightarrow> grid \<times> nat \<times> nat \<Rightarrow> grid \<times> nat \<times> nat" where
  "write_spec v t = (case t of (g, r, c) \<Rightarrow>
     if v = NUL then t
     else if v = LF then newline_spec t
     else if v = TAB then ((plain_spec (CHR '' '')) ^^ ((4 - c mod 4) mod 4)) t
     else if v = BS then (case back_spec (r, c) of (r', c') \<Rightarrow> (g(r' := (g r')(c' := CHR '' '')), r', c'))
     else plain_spec v t)"

text \<open>The memory holds the 24 rows, and the cursor is on the screen.\<close>

definition console_ok :: "console \<Rightarrow> bool" where
  "console_ok s = (3840 \<le> length (vram s) \<and> row s < 23 \<and> col s < 80)"

definition view :: "console \<Rightarrow> grid \<times> nat \<times> nat" where
  "view s = (cells (vram s), row s, col s)"

text \<open>What lies behind the 23 rows.\<close>

definition below :: "console \<Rightarrow> char list" where
  "below s = drop 3680 (vram s)"

lemma cell_index:
  fixes r c r' c' :: nat
  assumes "c < 80" and "c' < 80"
  shows "160 * r + 2 * c = 160 * r' + 2 * c' \<longleftrightarrow> r = r' \<and> c = c'"
    and "160 * r + 2 * c + 1 \<noteq> 160 * r' + 2 * c'"
proof -
  have "(80 * r + c) div 80 = r" "(80 * r' + c') div 80 = r'" using assms by simp_all
  then have "80 * r + c = 80 * r' + c' \<Longrightarrow> r = r'" by metis
  then show "160 * r + 2 * c = 160 * r' + 2 * c' \<longleftrightarrow> r = r' \<and> c = c'" by auto
  show "160 * r + 2 * c + 1 \<noteq> 160 * r' + 2 * c'"
  proof
    assume e: "160 * r + 2 * c + 1 = 160 * r' + 2 * c'"
    have "even (160 * r' + 2 * c')" by simp
    then show False unfolding e[symmetric] by simp
  qed
qed

lemma blank_from_end: "blank_from 80 (cells m r) = cells m r"
  by (auto simp: fun_eq_iff blank_from_def cells_def)

lemma cell_bound: "r < 23 \<Longrightarrow> c < 80 \<Longrightarrow> 160 * r + 2 * c < (3679::nat)"
  by linarith

lemma cells_update:
  assumes "3840 \<le> length m" and "r < 23" and "c < 80"
  shows "cells (m[160 * r + 2 * c := v]) = (cells m)(r := (cells m r)(c := v))"
proof (intro ext)
  fix r' c'
  show "cells (m[160 * r + 2 * c := v]) r' c' = ((cells m)(r := (cells m r)(c := v))) r' c'"
    using assms cell_index(1)[of c c' r r'] by (auto simp: cells_def nth_list_update fun_upd_def)
qed

lemma cells_attribute:
  assumes "c < 80"
  shows "cells (m[Suc (160 * r + 2 * c) := v]) = cells m"
proof (intro ext)
  fix r' c'
  show "cells (m[Suc (160 * r + 2 * c) := v]) r' c' = cells m r' c'"
    using assms cell_index(2)[of c c' r r'] by (auto simp: cells_def nth_list_update)
qed

lemma put_cell_spec:
  assumes "3840 \<le> length (vram s)" and "row s < 23" and "col s < 80"
  shows "\<exists>m. put_cell v s = Inr (s\<lparr>vram := m, col := col s + 1\<rparr>) \<and> length m = length (vram s) \<and>
    cells m = (cells (vram s))(row s := (cells (vram s) (row s))(col s := v)) \<and>
    drop 3680 m = drop 3680 (vram s)"
proof -
  have b: "160 * row s + 2 * col s < 3679" using assms(2,3) by (rule cell_bound)
  let ?m = "(vram s)[160 * row s + 2 * col s := v, Suc (160 * row s + 2 * col s) := NUL]"
  have "cells ?m = (cells (vram s))(row s := (cells (vram s) (row s))(col s := v))"
    unfolding cells_attribute[OF assms(3)] by (rule cells_update[OF assms])
  then show ?thesis using assms b by (intro exI[of _ ?m]) (simp add: put_cell_def wr_def)
qed

lemma fill_line_spec:
  assumes "3840 \<le> length (vram s)" and "row s < 23" and "col s \<le> 80"
  shows "\<exists>m. fill_line s = Inr (s\<lparr>vram := m, col := 80\<rparr>) \<and> length m = length (vram s) \<and>
    cells m = (cells (vram s))(row s := blank_from (col s) (cells (vram s) (row s))) \<and>
    drop 3680 m = drop 3680 (vram s)"
  using assms
proof (induction "80 - col s" arbitrary: s)
  case 0
  then have "col s = 80" by simp
  moreover have "blank_from 80 (cells (vram s) (row s)) = cells (vram s) (row s)"
    by (rule blank_from_end)
  ultimately show ?case by (subst fill_line.simps) (auto intro!: exI[of _ "vram s"])
next
  case (Suc d)
  then have c: "col s < 80" by simp
  from put_cell_spec[OF Suc.prems(1,2) c, of "CHR '' ''"] obtain m where
    m: "put_cell (CHR '' '') s = Inr (s\<lparr>vram := m, col := col s + 1\<rparr>)" "length m = length (vram s)"
      "cells m = (cells (vram s))(row s := (cells (vram s) (row s))(col s := CHR '' ''))"
      "drop 3680 m = drop 3680 (vram s)" by blast
  let ?s = "s\<lparr>vram := m, col := col s + 1\<rparr>"
  have "79 - col s = d" using Suc.hyps(2) by simp
  then have "\<exists>m'. fill_line ?s = Inr (?s\<lparr>vram := m', col := 80\<rparr>) \<and> length m' = length (vram ?s) \<and>
    cells m' = (cells (vram ?s))(row ?s := blank_from (col ?s) (cells (vram ?s) (row ?s))) \<and>
    drop 3680 m' = drop 3680 (vram ?s)"
    using Suc.prems m(2) c by (intro Suc.hyps(1)) simp_all
  then obtain m' where *: "fill_line ?s = Inr (?s\<lparr>vram := m', col := 80\<rparr>)"
      "length m' = length (vram ?s)"
      "cells m' = (cells (vram ?s))(row ?s := blank_from (col ?s) (cells (vram ?s) (row ?s)))"
      "drop 3680 m' = drop 3680 (vram ?s)" by blast
  have m': "fill_line ?s = Inr (s\<lparr>vram := m', col := 80\<rparr>)" "length m' = length m"
      "cells m' = (cells m)(row s := blank_from (col s + 1) (cells m (row s)))"
      "drop 3680 m' = drop 3680 m"
    using * by simp_all
  have "cells m' = (cells (vram s))(row s := blank_from (col s) (cells (vram s) (row s)))"
    unfolding m'(3) m(3) by (auto simp: fun_eq_iff blank_from_def)
  moreover have "fill_line s = Inr (s\<lparr>vram := m', col := 80\<rparr>)"
    using m(1) m'(1) c by (subst fill_line.simps) simp
  ultimately show ?case using m(2,4) m'(2,4) by (intro exI[of _ m']) simp
qed

lemma copy_row:
  assumes "3840 \<le> length m" and "r < 22"
  shows "\<exists>m'. for_up 0 80 (copy_cell r) m = Inr m' \<and> length m' = length m \<and>
    cells m' = (cells m)(r := cells m (Suc r)) \<and> drop 3680 m' = drop 3680 m"
proof -
  let ?P = "\<lambda>k t. length t = length m \<and> drop 3680 t = drop 3680 m \<and>
    cells t = (cells m)(r := (\<lambda>c. if c < k then cells m (Suc r) c else cells m r c))"
  have "\<exists>m'. for_up 0 80 (copy_cell r) m = Inr m' \<and> ?P 80 m'"
  proof (rule for_up_inv)
    fix k t
    assume k: "k < (80::nat)" and P: "?P k t"
    have b: "160 * r + 2 * k < 3679" "160 * Suc r + 2 * k < 3679"
      using k assms(2) by (auto intro: cell_bound)
    have "cells t (Suc r) k = cells m (Suc r) k" using P by simp
    then have t: "t ! (160 * Suc r + 2 * k) = cells m (Suc r) k"
      unfolding cells_def[of t] using k assms(2) by (simp del: mult_Suc_right)
    let ?t = "t[160 * r + 2 * k := cells m (Suc r) k]"
    have "copy_cell r k t = Inr ?t" using P b assms(1) t by (simp add: copy_cell_def rd_def wr_def)
    moreover have "cells ?t = (cells t)(r := (cells t r)(k := cells m (Suc r) k))"
      using P assms k by (intro cells_update) simp_all
    with P have "?P (Suc k) ?t" using b by (auto simp: fun_eq_iff less_Suc_eq)
    ultimately show "\<exists>t'. copy_cell r k t = Inr t' \<and> ?P (Suc k) t'" by blast
  qed (simp_all add: fun_eq_iff)
  then obtain m' where m': "for_up 0 80 (copy_cell r) m = Inr m'" "?P 80 m'" by blast
  moreover have "(\<lambda>c. if c < 80 then cells m (Suc r) c else cells m r c) = cells m (Suc r)"
    by (auto simp: fun_eq_iff cells_def)
  ultimately show ?thesis by (intro exI[of _ m']) simp
qed

lemma rollup_spec:
  assumes "3840 \<le> length m"
  shows "\<exists>m'. rollup m = Inr m' \<and> length m' = length m \<and>
    cells m' = (\<lambda>r. cells m (Suc r)) \<and> drop 3680 m' = drop 3680 m"
proof -
  let ?P = "\<lambda>k t. length t = length m \<and> drop 3680 t = drop 3680 m \<and>
    (\<forall>r. cells t r = (if r < k then cells m (Suc r) else cells m r))"
  have "\<exists>t. for_up 0 22 (\<lambda>temprow. for_up 0 80 (copy_cell temprow)) m = Inr t \<and> ?P 22 t"
  proof (rule for_up_inv)
    fix k t
    assume k: "k < (22::nat)" and P: "?P k t"
    from P assms have "3840 \<le> length t" by simp
    from copy_row[OF this k] obtain t' where t': "for_up 0 80 (copy_cell k) t = Inr t'"
        "length t' = length t" "cells t' = (cells t)(k := cells t (Suc k))"
        "drop 3680 t' = drop 3680 t" by blast
    have "?P (Suc k) t'" using P t'(2-4) by (auto simp: less_Suc_eq)
    with t'(1) show "\<exists>t'. for_up 0 80 (copy_cell k) t = Inr t' \<and> ?P (Suc k) t'" by blast
  qed simp_all
  then obtain t where t: "for_up 0 22 (\<lambda>temprow. for_up 0 80 (copy_cell temprow)) m = Inr t" "?P 22 t"
    by blast
  let ?Q = "\<lambda>k u. length u = length m \<and> drop 3680 u = drop 3680 m \<and>
    (\<forall>r c. cells u r c = (if r = 22 \<and> c < k then CHR '' '' else cells t r c))"
  have "\<exists>u. for_up 0 80 (\<lambda>tempcol m. wr m (160 * 22 + 2 * tempcol) (CHR '' '')) t = Inr u \<and> ?Q 80 u"
  proof (rule for_up_inv)
    fix k u
    assume k: "k < (80::nat)" and Q: "?Q k u"
    let ?u = "u[160 * 22 + 2 * k := CHR '' '']"
    have "160 * 22 + 2 * k < (3679::nat)" using k by (intro cell_bound) simp_all
    moreover from this have "wr u (160 * 22 + 2 * k) (CHR '' '') = Inr ?u" using Q assms by (simp add: wr_def)
    moreover have "cells ?u = (cells u)(22 := (cells u 22)(k := CHR '' ''))"
      by (rule cells_update) (use Q assms k in simp_all)
    ultimately have "?Q (Suc k) ?u" using Q by (simp add: less_Suc_eq)
    then show "\<exists>u'. wr u (160 * 22 + 2 * k) (CHR '' '') = Inr u' \<and> ?Q (Suc k) u'"
      using \<open>wr u _ _ = Inr ?u\<close> by blast
  qed (use t in simp_all)
  then obtain u where u: "for_up 0 80 (\<lambda>tempcol m. wr m (160 * 22 + 2 * tempcol) (CHR '' '')) t = Inr u"
      "?Q 80 u" by blast
  have "cells u r c = cells m (Suc r) c" for r c
  proof (cases "r < 22")
    case True
    with u(2) t(2) show ?thesis by simp
  next
    case False
    then have "cells m (Suc r) c = CHR '' ''" by (simp add: cells_def)
    moreover have "cells u r c = CHR '' ''"
    proof (cases "r = 22 \<and> c < 80")
      case True
      with u(2) show ?thesis by simp
    next
      case F: False
      then show ?thesis using False by (auto simp: cells_def)
    qed
    ultimately show ?thesis by simp
  qed
  with t(1) u show ?thesis unfolding rollup_def by (intro exI[of _ u]) (simp add: fun_eq_iff)
qed

lemma do_newline_spec:
  assumes "3840 \<le> length (vram s)" and "row s < 23" and "col s \<le> 80"
  shows "\<exists>s'. do_newline s = Inr s' \<and> console_ok s' \<and> view s' = newline_spec (view s) \<and> below s' = below s"
proof -
  from fill_line_spec[OF assms] obtain m where
    m: "fill_line s = Inr (s\<lparr>vram := m, col := 80\<rparr>)" "length m = length (vram s)"
      "cells m = (cells (vram s))(row s := blank_from (col s) (cells (vram s) (row s)))"
      "drop 3680 m = drop 3680 (vram s)" by blast
  show ?thesis
  proof (cases "row s = 22")
    case True
    from m(2) assms(1) have "3840 \<le> length m" by simp
    from rollup_spec[OF this] obtain m' where m': "rollup m = Inr m'" "length m' = length m"
        "cells m' = (\<lambda>r. cells m (Suc r))" "drop 3680 m' = drop 3680 m" by blast
    let ?s = "s\<lparr>vram := m', row := 22, col := 0\<rparr>"
    have "do_newline s = Inr ?s" using m(1) m'(1) True by (simp add: do_newline_def)
    moreover have "console_ok ?s" "below ?s = below s"
      using assms m(2,4) m'(2,4) by (simp_all add: console_ok_def below_def)
    moreover have "view ?s = newline_spec (view s)"
      using True m(3) m'(3) by (simp add: view_def newline_spec_def Let_def)
    ultimately show ?thesis by blast
  next
    case False
    let ?s = "s\<lparr>vram := m, row := row s + 1, col := 0\<rparr>"
    have "do_newline s = Inr ?s" using m(1) False assms(2) by (simp add: do_newline_def)
    moreover have "console_ok ?s" "below ?s = below s"
      using assms m(2,4) False by (simp_all add: console_ok_def below_def)
    moreover have "view ?s = newline_spec (view s)"
      using False m(3) by (simp add: view_def newline_spec_def Let_def)
    ultimately show ?thesis by blast
  qed
qed

lemma put_plain_spec:
  assumes "console_ok s"
  shows "\<exists>s'. put_plain v s = Inr s' \<and> console_ok s' \<and> view s' = plain_spec v (view s) \<and> below s' = below s"
proof -
  have ok: "3840 \<le> length (vram s)" "row s < 23" "col s < 80" using assms by (simp_all add: console_ok_def)
  from put_cell_spec[OF ok, of v] obtain m where
    m: "put_cell v s = Inr (s\<lparr>vram := m, col := col s + 1\<rparr>)" "length m = length (vram s)"
      "cells m = (cells (vram s))(row s := (cells (vram s) (row s))(col s := v))"
      "drop 3680 m = drop 3680 (vram s)" by blast
  let ?s = "s\<lparr>vram := m, col := col s + 1\<rparr>"
  show ?thesis
  proof (cases "col s = 79")
    case True
    have "\<exists>s'. do_newline ?s = Inr s' \<and> console_ok s' \<and> view s' = newline_spec (view ?s) \<and> below s' = below ?s"
      using ok m(2) by (intro do_newline_spec) simp_all
    then obtain s' where s': "do_newline ?s = Inr s'" "console_ok s'" "view s' = newline_spec (view ?s)"
        "below s' = below ?s" by blast
    have "put_plain v s = Inr s'" using m(1) s'(1) True by (simp add: put_plain_def)
    moreover have "newline_spec (view ?s) = plain_spec v (view s)"
      using True m(3) by (simp add: view_def plain_spec_def)
    ultimately show ?thesis using s' m(4) by (auto simp: below_def)
  next
    case False
    then have "put_plain v s = Inr ?s" using m(1) ok(3) by (simp add: put_plain_def)
    moreover have "view ?s = plain_spec v (view s)"
      using False m(3) by (simp add: view_def plain_spec_def)
    ultimately show ?thesis using ok m(2,4) False by (auto simp: below_def console_ok_def)
  qed
qed

definition tab_writes :: "nat \<Rightarrow> nat" where
  "tab_writes c = (4 - c mod 4) mod 4"

lemma tab_loop_spec:
  assumes "console_ok s" and "i < col s mod 4 \<or> col s mod 4 = 0"
  shows "\<exists>s'. tab_loop i s = Inr s' \<and> console_ok s' \<and>
    view s' = ((plain_spec (CHR '' '')) ^^ tab_writes (col s)) (view s) \<and> below s' = below s"
  using assms
proof (induction "4 - i" arbitrary: i s rule: less_induct)
  case less
  show ?case
  proof (cases "col s mod 4 = 0")
    case True
    then show ?thesis using less.prems(1) by (subst tab_loop.simps) (simp add: tab_writes_def)
  next
    case False
    then have i: "i < col s mod 4" using less.prems(2) by simp
    have c: "col s mod 4 < 4" "col s < 80" using less.prems(1) by (simp_all add: console_ok_def)
    from put_plain_spec[OF less.prems(1), of "CHR '' ''"] obtain s1 where
      s1: "put_plain (CHR '' '') s = Inr s1" "console_ok s1"
        "view s1 = plain_spec (CHR '' '') (view s)" "below s1 = below s" by blast
    have c1: "col s1 = (if col s = 79 then 0 else col s + 1)"
      using s1(3) by (simp add: view_def plain_spec_def newline_spec_def Let_def split: if_splits)
    then have m: "col s1 mod 4 = (col s mod 4 + 1) mod 4" by (simp add: mod_Suc_eq)
    have w: "tab_writes (col s) = Suc (tab_writes (col s1))"
      using False c(1) unfolding tab_writes_def m by (cases "col s mod 4 = 3") auto
    have j: "Suc i < col s1 mod 4 \<or> col s1 mod 4 = 0"
      unfolding m using i c(1) by (cases "col s mod 4 = 3") auto
    have "4 - Suc i < 4 - i" using i c(1) by linarith
    from less.hyps[OF this s1(2) j] obtain s' where
      "tab_loop (Suc i) s1 = Inr s'" "console_ok s'"
      "view s' = ((plain_spec (CHR '' '')) ^^ tab_writes (col s1)) (view s1)" "below s' = below s1"
      by auto
    then show ?thesis
      using s1 i w by (subst tab_loop.simps) (auto simp: funpow_swap1)
  qed
qed

lemma step_back_ok:
  assumes "console_ok s"
  shows "console_ok (step_back s)" and "vram (step_back s) = vram s"
    and "(row (step_back s), col (step_back s)) = back_spec (row s, col s)"
  using assms by (auto simp: console_ok_def step_back_def back_spec_def)

text \<open>Backspace: step back, blank the cell, and step back from behind it.\<close>

lemma back_over:
  assumes "r < 23" and "c < 80" and "(r', c') = back_spec (r, c)" and "\<forall>k\<ge>80. g r' k = CHR '' ''"
    and "(g2, r2, c2) = plain_spec v (g, r', c')"
  shows "g2 = g(r' := (g r')(c' := v)) \<and> back_spec (r2, c2) = (r', c')"
proof -
  have "blank_from 80 ((g r')(79 := v)) = (g r')(79 := v)"
    using assms(4) by (auto simp: fun_eq_iff blank_from_def)
  then show ?thesis
    using assms(1-3,5) by (auto simp: plain_spec_def newline_spec_def back_spec_def Let_def split: if_splits)
qed

lemma write_k_spec:
  assumes "console_ok s"
  shows "\<exists>s'. write_k v s = Inr s' \<and> console_ok s' \<and> view s' = write_spec v (view s) \<and> below s' = below s"
proof -
  have ok: "3840 \<le> length (vram s)" "row s < 23" "col s < 80" using assms by (simp_all add: console_ok_def)
  consider "v = NUL" | "v = LF" | "v = TAB" | "v = BS" | "v \<notin> {NUL, LF, TAB, BS}" by blast
  then show ?thesis
  proof cases
    case 1
    then show ?thesis using assms by (simp add: write_k_def write_spec_def view_def)
  next
    case 2
    then show ?thesis using do_newline_spec[of s] ok by (simp add: write_k_def write_spec_def view_def)
  next
    case 3
    have "0 < col s mod 4 \<or> col s mod 4 = 0" by auto
    from tab_loop_spec[OF assms this] 3 show ?thesis
      by (simp add: write_k_def write_spec_def view_def tab_writes_def)
  next
    case 4
    note bk = step_back_ok[OF assms]
    from put_plain_spec[OF bk(1), of "CHR '' ''"] obtain s1 where
      s1: "put_plain (CHR '' '') (step_back s) = Inr s1" "console_ok s1"
        "view s1 = plain_spec (CHR '' '') (view (step_back s))" "below s1 = below (step_back s)" by blast
    have pl: "(cells (vram s1), row s1, col s1) =
        plain_spec (CHR '' '') (cells (vram s), row (step_back s), col (step_back s))"
      using s1(3) bk(2) by (simp add: view_def)
    have "\<forall>k\<ge>80. cells (vram s) (row (step_back s)) k = CHR '' ''" by (simp add: cells_def)
    from back_over[OF ok(2,3) bk(3) this pl]
    have g: "cells (vram s1) = (cells (vram s))(row (step_back s) :=
          (cells (vram s) (row (step_back s)))(col (step_back s) := CHR '' ''))"
      and b: "back_spec (row s1, col s1) = back_spec (row s, col s)" using bk(3) by simp_all
    have "write_k v s = Inr (step_back s1)" using 4 s1(1) by (simp add: write_k_def)
    moreover have "view (step_back s1) = write_spec v (view s)"
      using 4 g b step_back_ok(2,3)[OF s1(2)] bk(3)
      by (auto simp: view_def write_spec_def split: prod.splits)
    ultimately show ?thesis
      using step_back_ok(1,2)[OF s1(2)] s1(4) bk(2) by (simp add: below_def)
  next
    case 5
    then show ?thesis
      using put_plain_spec[OF assms, of v] by (simp add: write_k_def write_spec_def view_def)
  qed
qed

lemma backspace_erases:
  assumes "r < 23" and "c < 80" and "v \<notin> {NUL, LF, TAB, BS}" and "(r, c) \<noteq> (22, 79)"
    and "\<forall>k\<ge>80. g r k = CHR '' ''"
  shows "write_spec BS (write_spec v (g, r, c)) = (g(r := (g r)(c := CHR '' '')), r, c)"
proof -
  have "blank_from 80 ((g r)(79 := v)) = (g r)(79 := v)"
    using assms(5) by (auto simp: fun_eq_iff blank_from_def)
  then show ?thesis
    using assms by (auto simp: write_spec_def plain_spec_def newline_spec_def back_spec_def Let_def)
qed

text \<open>Writing a text writes its characters.\<close>

fun write_all :: "string \<Rightarrow> console \<Rightarrow> console result" where
  "write_all [] s = Inr s"
| "write_all (c # cs) s = bindr (write_k c s) (write_all cs)"

lemma write_all_spec:
  "console_ok s \<Longrightarrow> \<exists>s'. write_all cs s = Inr s' \<and> console_ok s' \<and> view s' = fold write_spec cs (view s) \<and>
     below s' = below s"
proof (induction cs arbitrary: s)
  case Nil
  then show ?case by simp
next
  case (Cons c cs)
  from write_k_spec[OF Cons.prems, of c] obtain s1 where
    s1: "write_k c s = Inr s1" "console_ok s1" "view s1 = write_spec c (view s)" "below s1 = below s" by blast
  from Cons.IH[OF s1(2)] s1 show ?case by auto
qed

lemma write_all_append: "write_all (a @ b) s = bindr (write_all a s) (write_all b)"
  by (induction a arbitrary: s) (auto simp: bindr_def split: sum.split)

section \<open>Properties\<close>

text \<open>
  C34: \<^verbatim>\<open>write_k\<close> keeps the cursor on the screen and all its writes within the 23 rows above
  the status line, and its effect on the screen is the effect of the character on the grid: a line
  feed blanks the rest of the line and scrolls at the bottom, a tab goes on to the next multiple of
  4, a backspace blanks the cell before the cursor, another character fills the cell at the cursor.
\<close>

theorem write_k_refines_grid:
  assumes "console_ok s"
  shows "\<exists>s'. write_k v s = Inr s' \<and> console_ok s' \<and> view s' = write_spec v (view s) \<and> below s' = below s"
  using assms by (rule write_k_spec)

definition blank_console :: console where
  "blank_console = \<lparr>display_mem = 0xb8000, vram = replicate 4000 (CHR '' ''), row = 22, col = 79\<rparr>"

lemma blank_console_ok: "console_ok blank_console"
  by (simp add: console_ok_def blank_console_def)

theorem write_k_refines_grid_witness:
  "\<exists>s'. write_k (CHR ''a'') blank_console = Inr s' \<and> row s' = 22 \<and> col s' = 0 \<and>
     cells (vram s') 21 79 = CHR ''a'' \<and> cells (vram s') 22 79 = CHR '' ''"
proof -
  from write_k_refines_grid[OF blank_console_ok, of "CHR ''a''"] obtain s' where
    s': "write_k (CHR ''a'') blank_console = Inr s'"
      "view s' = write_spec (CHR ''a'') (view blank_console)" by blast
  from s'(2) have "row s' = 22 \<and> col s' = 0 \<and> cells (vram s') 21 79 = CHR ''a'' \<and>
      cells (vram s') 22 79 = CHR '' ''"
    by (simp add: view_def write_spec_def plain_spec_def newline_spec_def Let_def blank_from_def
        cells_def[of _ 23] blank_console_def)
  with s'(1) show ?thesis by blast
qed

text \<open>
  a character and a backspace leave the screen with the cursor where it was and a blank under
  it, also over the end of a line; all other cells are as before. (In the last cell of the screen
  the character scrolls it.)
\<close>

theorem backspace_undoes_character:
  assumes "console_ok s" and "v \<notin> {NUL, LF, TAB, BS}" and "(row s, col s) \<noteq> (22, 79)"
  shows "\<exists>s1 s2. write_k v s = Inr s1 \<and> write_k BS s1 = Inr s2 \<and> row s2 = row s \<and> col s2 = col s \<and>
    cells (vram s2) = (cells (vram s))(row s := (cells (vram s) (row s))(col s := CHR '' ''))"
proof -
  from write_k_spec[OF assms(1), of v] obtain s1 where
    s1: "write_k v s = Inr s1" "console_ok s1" "view s1 = write_spec v (view s)" by blast
  from write_k_spec[OF s1(2), of BS] obtain s2 where
    s2: "write_k BS s1 = Inr s2" "view s2 = write_spec BS (view s1)" by blast
  have "view s2 = ((cells (vram s))(row s := (cells (vram s) (row s))(col s := CHR '' '')), row s, col s)"
    unfolding s2(2) s1(3) view_def[of s]
    using assms by (intro backspace_erases) (auto simp: console_ok_def cells_def)
  with s1(1) s2(1) show ?thesis by (simp add: view_def)
qed

theorem backspace_undoes_character_witness:
  "\<exists>s1 s2. write_k (CHR ''a'') (blank_console\<lparr>row := 3\<rparr>) = Inr s1 \<and> write_k BS s1 = Inr s2 \<and>
     row s2 = 3 \<and> col s2 = 79"
  using backspace_undoes_character[of "blank_console\<lparr>row := 3\<rparr>" "CHR ''a''"] blank_console_ok
  by (auto simp: console_ok_def blank_console_def)

end
