(* ===== verification/Printf.thy ===== *)
theory Printf
  imports Console "HOL-Library.Signed_Division"
begin

text \<open>
  The kernel's \<^verbatim>\<open>printf\<close> and its number conversions, \<^verbatim>\<open>sys/unix_helpers.c\<close>. An
  argument is a 64-bit slot of the variable argument list or a pointer to a string; reading past the
  last one is \<open>Out_Of_Bounds\<close>.
\<close>

section \<open>Number conversion\<close>

definition chr_of :: "nat \<Rightarrow> char" where
  "chr_of n = char_of n"

function count16 :: "u64 \<Rightarrow> nat" where
  "count16 temp = (if temp = 0 then 0 else Suc (count16 (temp div 16)))"
  by pat_completeness auto
termination
  by (relation "measure unat") (simp_all add: unat_div_distrib unat_gt_0)

fun fill16 :: "nat \<Rightarrow> u64 \<Rightarrow> char list \<Rightarrow> char list result" where
  "fill16 0 n buf = Inr buf"
| "fill16 (Suc i) n buf =
     (let temp = n mod 16
      in bindr (wr buf i (if temp > 9 then chr_of (65 + unat (temp - 10)) else chr_of (48 + unat temp)))
           (fill16 i (n div 16)))"

definition itoh_printf :: "char list \<Rightarrow> nat \<Rightarrow> u64 \<Rightarrow> char list result" where
  "itoh_printf buf d n =
     (if n = 0 then bindr (wr buf d (CHR ''0'')) (\<lambda>b. wr b (d + 1) NUL)
      else bindr (wr buf (d + count16 n) NUL) (\<lambda>b.
             bindr (fill16 (count16 n) n (drop d b)) (\<lambda>b'. Inr (take d b @ b'))))"

text \<open>\<^verbatim>\<open>int temp = n\<close> keeps the low 32 bits, and C division rounds towards zero.\<close>

function count10 :: "int \<Rightarrow> nat" where
  "count10 temp = (if temp = 0 then 0 else Suc (count10 (temp sdiv 10)))"
  by pat_completeness auto
termination
proof (relation "measure (\<lambda>t. nat \<bar>t\<bar>)")
  fix temp :: int
  assume "temp \<noteq> 0"
  then show "(temp sdiv 10, temp) \<in> measure (\<lambda>t. nat \<bar>t\<bar>)"
    by (auto simp: signed_divide_int_def abs_mult)
qed simp

fun fill10 :: "nat \<Rightarrow> u64 \<Rightarrow> char list \<Rightarrow> char list result" where
  "fill10 0 n buf = Inr buf"
| "fill10 (Suc i) n buf =
     bindr (wr buf i (chr_of (48 + unat (n mod 10)))) (fill10 i (n div 10))"

definition itoa_printf :: "char list \<Rightarrow> nat \<Rightarrow> u64 \<Rightarrow> char list result" where
  "itoa_printf buf d n =
     (if n = 0 then bindr (wr buf d (CHR ''0'')) (\<lambda>b. wr b (d + 1) NUL)
      else (let k = count10 (sint (ucast n :: 32 word))
            in bindr (wr buf (d + k) NUL) (\<lambda>b.
                 bindr (fill10 k n (drop d b)) (\<lambda>b'. Inr (take d b @ b')))))"

declare count16.simps [simp del] count10.simps [simp del]

section \<open>\<^verbatim>\<open>printf\<close>\<close>

datatype varg = Slot u64 | Text "char list"

record pstate =
  con :: console
  buf30 :: "char list"

definition putc :: "char \<Rightarrow> pstate \<Rightarrow> pstate result" where
  "putc c s = bindr (write_k c (con s)) (\<lambda>k. Inr (s\<lparr>con := k\<rparr>))"

fun puts_buffered :: "char list \<Rightarrow> pstate \<Rightarrow> pstate result" where
  "puts_buffered [] s = Inl Out_Of_Bounds"
| "puts_buffered (c # cs) s =
     (if c = NUL then Inr s
      else bindr (wr (buf30 s) 0 c) (\<lambda>b. bindr (putc c (s\<lparr>buf30 := b\<rparr>)) (puts_buffered cs)))"

text \<open>
  One directive; \<open>again\<close> is the call \<^verbatim>\<open>printf(_buffer)\<close> of the converted number.
\<close>

definition directive ::
  "(char list \<Rightarrow> pstate \<Rightarrow> pstate result) \<Rightarrow> char \<Rightarrow> varg list \<Rightarrow> pstate \<Rightarrow> (varg list \<times> pstate) result" where
  "directive again c args s =
     (if c = CHR ''c'' then
        (case args of
           Slot w # rest \<Rightarrow>
             bindr (wr (buf30 s) 0 (chr_of (unat (ucast w :: 8 word)))) (\<lambda>b.
               bindr (wr b 1 NUL) (\<lambda>b1.
                 bindr (putc (chr_of (unat (ucast w :: 8 word))) (s\<lparr>buf30 := b1\<rparr>)) (\<lambda>s1. Inr (rest, s1))))
         | _ \<Rightarrow> Inl Out_Of_Bounds)
      else if c = CHR ''d'' then
        (case args of
           Slot w # rest \<Rightarrow>
             (let number = (ucast w :: 32 word)
              in bindr (if sint number < 0
                        then bindr (wr (buf30 s) 0 (CHR ''-'')) (\<lambda>b. itoa_printf b 1 (scast (- number)))
                        else itoa_printf (buf30 s) 0 (scast number)) (\<lambda>b.
                   bindr (again b (s\<lparr>buf30 := b\<rparr>)) (\<lambda>s1. Inr (rest, s1))))
         | _ \<Rightarrow> Inl Out_Of_Bounds)
      else if c = CHR ''x'' \<or> c = CHR ''p'' then
        (case args of
           Slot w # rest \<Rightarrow>
             bindr (itoh_printf (buf30 s) 0 w) (\<lambda>b.
               bindr (again b (s\<lparr>buf30 := b\<rparr>)) (\<lambda>s1. Inr (rest, s1)))
         | _ \<Rightarrow> Inl Out_Of_Bounds)
      else if c = CHR ''s'' then
        (case args of
           Text t # rest \<Rightarrow>
             bindr (wr (buf30 s) 1 NUL) (\<lambda>b.
               bindr (puts_buffered t (s\<lparr>buf30 := b\<rparr>)) (\<lambda>s1. Inr (rest, s1)))
         | _ \<Rightarrow> Inl Out_Of_Bounds)
      else Inr (args, s))"

fun printf_loop ::
  "(char list \<Rightarrow> pstate \<Rightarrow> pstate result) \<Rightarrow> char list \<Rightarrow> varg list \<Rightarrow> pstate \<Rightarrow> pstate result" where
  "printf_loop again [] args s = Inl Out_Of_Bounds"
| "printf_loop again [c] args s =
     (if c = NUL then Inr s else if c = CHR ''%'' then Inl Out_Of_Bounds
      else bindr (putc c s) (\<lambda>s1. Inl Out_Of_Bounds))"
| "printf_loop again (c # c' # fmt) args s =
     (if c = NUL then Inr s
      else if c = CHR ''%''
      then bindr (directive again c' args s) (\<lambda>(args', s1). printf_loop again fmt args' s1)
      else bindr (putc c s) (printf_loop again (c' # fmt) args))"

text \<open>
  The inner call of \<^verbatim>\<open>printf\<close> has no arguments, so it faults before it could call
  \<^verbatim>\<open>printf\<close> once more.
\<close>

definition printf_number :: "char list \<Rightarrow> pstate \<Rightarrow> pstate result" where
  "printf_number fmt s = printf_loop (\<lambda>_ _. Inl Panic) fmt [] s"

definition printf :: "char list \<Rightarrow> varg list \<Rightarrow> pstate \<Rightarrow> pstate result" where
  "printf fmt args s = printf_loop printf_number fmt args s"

section \<open>The digits\<close>

definition digit :: "nat \<Rightarrow> char" where
  "digit k = (if k > 9 then chr_of (65 + (k - 10)) else chr_of (48 + k))"

definition digit_value :: "char \<Rightarrow> nat" where
  "digit_value c = (if of_char c \<ge> (65::nat) then of_char c - 55 else of_char c - 48)"

lemma digit_value_digit: "k < 16 \<Longrightarrow> digit_value (digit k) = k"
  by (auto simp: digit_def digit_value_def chr_of_def)

lemma of_char_digit: "k < 16 \<Longrightarrow> of_char (digit k) = (if k > 9 then 55 + k else 48 + k)"
  by (simp add: digit_def chr_of_def)

lemma digit_plain:
  assumes "k < 16"
  shows "digit k \<noteq> NUL \<and> digit k \<noteq> CHR ''%''"
proof -
  have "of_char (digit k) \<noteq> (0::nat)" "of_char (digit k) \<noteq> (37::nat)"
    unfolding of_char_digit[OF assms] by auto
  then show ?thesis by auto
qed

lemma mod_lt_16: "2 \<le> b \<Longrightarrow> b \<le> 16 \<Longrightarrow> n mod b < (16::nat)"
  using mod_less_divisor[of b n] by linarith

text \<open>The digits of \<open>n\<close> in base \<open>b\<close>, none for 0; and the number a text denotes.\<close>

fun digits :: "nat \<Rightarrow> nat \<Rightarrow> string" where
  "digits b n = (if n = 0 \<or> b < 2 then [] else digits b (n div b) @ [digit (n mod b)])"

declare digits.simps [simp del]

definition number_text :: "nat \<Rightarrow> nat \<Rightarrow> string" where
  "number_text b n = (if n = 0 then ''0'' else digits b n)"

definition read_number :: "nat \<Rightarrow> string \<Rightarrow> nat" where
  "read_number b s = foldl (\<lambda>a c. a * b + digit_value c) 0 s"

lemma digits_0 [simp]: "digits b 0 = []"
  by (simp add: digits.simps)

lemma digits_rec: "0 < n \<Longrightarrow> 2 \<le> b \<Longrightarrow> digits b n = digits b (n div b) @ [digit (n mod b)]"
  by (simp add: digits.simps[of b n])

lemma read_digits:
  assumes "2 \<le> b" and "b \<le> 16"
  shows "read_number b (digits b n) = n"
proof (induction n rule: less_induct)
  case (less n)
  show ?case
  proof (cases "n = 0")
    case True
    then show ?thesis by (simp add: read_number_def)
  next
    case False
    have "n mod b < 16" using assms by (rule mod_lt_16)
    moreover have "read_number b (digits b (n div b)) = n div b"
      using False assms(1) by (intro less.IH) simp
    ultimately show ?thesis
      using False assms(1) by (simp add: digits_rec read_number_def digit_value_digit)
  qed
qed

lemma read_number_text: "2 \<le> b \<Longrightarrow> b \<le> 16 \<Longrightarrow> read_number b (number_text b n) = n"
  using read_digits[of b n] by (auto simp: number_text_def read_number_def digit_value_def)

lemma digits_plain:
  assumes "2 \<le> b" and "b \<le> 16"
  shows "\<forall>c\<in>set (digits b n). c \<noteq> NUL \<and> c \<noteq> CHR ''%''"
proof (induction n rule: less_induct)
  case (less n)
  show ?case
  proof (cases "n = 0")
    case False
    have "n mod b < 16" using assms by (rule mod_lt_16)
    moreover have "\<forall>c\<in>set (digits b (n div b)). c \<noteq> NUL \<and> c \<noteq> CHR ''%''"
      using False assms(1) by (intro less.IH) simp
    ultimately show ?thesis using False assms(1) digit_plain[of "n mod b"] by (auto simp: digits_rec)
  qed simp
qed

lemma number_text_plain: "2 \<le> b \<Longrightarrow> b \<le> 16 \<Longrightarrow> \<forall>c\<in>set (number_text b n). c \<noteq> NUL \<and> c \<noteq> CHR ''%''"
  using digits_plain[of b n] by (auto simp: number_text_def)

lemma length_digits:
  assumes "n < b ^ k" and "2 \<le> b"
  shows "length (digits b n) \<le> k"
  using assms
proof (induction k arbitrary: n)
  case 0
  then show ?case by simp
next
  case (Suc k)
  show ?case
  proof (cases "n = 0")
    case False
    have "n div b < b ^ k" using Suc.prems by (simp add: less_mult_imp_div_less mult.commute)
    then show ?thesis using Suc.IH[of "n div b"] Suc.prems(2) False by (simp add: digits_rec)
  qed simp
qed

lemma count16_digits: "count16 n = length (digits 16 (unat n))"
proof (induction n rule: count16.induct)
  case (1 n)
  show ?case
  proof (cases "n = 0")
    case True
    then show ?thesis by (simp add: count16.simps)
  next
    case False
    then show ?thesis
      using 1 by (simp add: count16.simps[of n] digits_rec unat_gt_0 unat_div_distrib)
  qed
qed

lemma fill16_digits:
  "k = length (digits 16 (unat n)) \<Longrightarrow> k \<le> length buf \<Longrightarrow>
     fill16 k n buf = Inr (digits 16 (unat n) @ drop k buf)"
proof (induction k arbitrary: n buf)
  case 0
  then show ?case by simp
next
  case (Suc i)
  then have n: "0 < unat n" by (cases "unat n = 0") simp_all
  have d: "digits 16 (unat n) = digits 16 (unat (n div 16)) @ [digit (unat (n mod 16))]"
    using n by (simp add: digits_rec unat_div_distrib unat_mod_distrib)
  have i: "i = length (digits 16 (unat (n div 16)))" using Suc.prems(1) unfolding d by simp
  have c: "(if n mod 16 > 9 then chr_of (65 + unat (n mod 16 - 10)) else chr_of (48 + unat (n mod 16)))
      = digit (unat (n mod 16))"
    by (auto simp: digit_def word_less_nat_alt unat_sub word_le_nat_alt)
  let ?buf = "buf[i := digit (unat (n mod 16))]"
  have "fill16 i (n div 16) ?buf = Inr (digits 16 (unat (n div 16)) @ drop i ?buf)"
    using Suc.prems(2) i by (intro Suc.IH) simp_all
  moreover have "drop i ?buf = digit (unat (n mod 16)) # drop (Suc i) buf"
    using Suc.prems(2) by (simp add: drop_update_swap Cons_nth_drop_Suc[symmetric])
  ultimately show ?case using Suc.prems(2) d by (simp add: Let_def c wr_def)
qed

lemma drop_update_here: "i < length xs \<Longrightarrow> drop i (xs[i := x]) = x # drop (Suc i) xs"
  by (simp add: upd_conv_take_nth_drop)

lemma splice_digits:
  assumes "d + length ds < length buf"
  shows "splice buf d (ds @ [x]) =
    take d (buf[d + length ds := x]) @ ds @ drop (length ds) (drop d (buf[d + length ds := x]))"
  using assms drop_update_here[of "d + length ds" buf x] by (simp add: splice_def add.commute)

lemma itoh_text:
  assumes "d + 17 \<le> length buf"
  shows "itoh_printf buf d n = Inr (splice buf d (number_text 16 (unat n) @ [NUL]))"
proof (cases "n = 0")
  case True
  then show ?thesis
    using assms by (simp add: itoh_printf_def number_text_def wr_def splice_two[of d buf])
next
  case False
  let ?k = "length (digits 16 (unat n))"
  have "unat n < 16 ^ 16" using unat64_lt[of n] by simp
  then have k: "?k \<le> 16" by (rule length_digits) simp
  let ?b = "buf[d + ?k := NUL]"
  have "fill16 ?k n (drop d ?b) = Inr (digits 16 (unat n) @ drop ?k (drop d ?b))"
    using k assms by (intro fill16_digits) simp_all
  moreover have "splice buf d (number_text 16 (unat n) @ [NUL]) =
      take d ?b @ digits 16 (unat n) @ drop ?k (drop d ?b)"
    using k assms False splice_digits[of d "digits 16 (unat n)" buf NUL]
    by (simp add: number_text_def unat_eq_0)
  ultimately show ?thesis using k assms False by (simp add: itoh_printf_def count16_digits wr_def)
qed

text \<open>Decimal conversion is right below 2 to the 31; \<^verbatim>\<open>printf\<close> only passes such numbers.\<close>

lemma count10_digits: "count10 (int n) = length (digits 10 n)"
proof (induction n rule: less_induct)
  case (less n)
  show ?case
  proof (cases "n = 0")
    case True
    then show ?thesis by (simp add: count10.simps)
  next
    case False
    then have "count10 (int (n div 10)) = length (digits 10 (n div 10))" by (intro less.IH) simp
    moreover have "int n sdiv 10 = int (n div 10)" by (simp add: signed_divide_int_def sgn_if zdiv_int)
    ultimately show ?thesis using False by (simp add: count10.simps[of "int n"] digits_rec)
  qed
qed

lemma fill10_digits:
  "k = length (digits 10 (unat n)) \<Longrightarrow> k \<le> length buf \<Longrightarrow>
     fill10 k n buf = Inr (digits 10 (unat n) @ drop k buf)"
proof (induction k arbitrary: n buf)
  case 0
  then show ?case by simp
next
  case (Suc i)
  then have n: "0 < unat n" by (cases "unat n = 0") simp_all
  have d: "digits 10 (unat n) = digits 10 (unat (n div 10)) @ [digit (unat (n mod 10))]"
    using n by (simp add: digits_rec unat_div_distrib unat_mod_distrib)
  have i: "i = length (digits 10 (unat (n div 10)))" using Suc.prems(1) unfolding d by simp
  have "unat (n mod 10) < 10" by (simp add: unat_mod_distrib)
  then have c: "chr_of (48 + unat (n mod 10)) = digit (unat (n mod 10))" by (simp add: digit_def)
  let ?buf = "buf[i := digit (unat (n mod 10))]"
  have "fill10 i (n div 10) ?buf = Inr (digits 10 (unat (n div 10)) @ drop i ?buf)"
    using Suc.prems(2) i by (intro Suc.IH) simp_all
  moreover have "drop i ?buf = digit (unat (n mod 10)) # drop (Suc i) buf"
    using Suc.prems(2) by (simp add: drop_update_swap Cons_nth_drop_Suc[symmetric])
  ultimately show ?case using Suc.prems(2) d by (simp add: c wr_def)
qed

lemma sint_low_word:
  assumes "unat (n::u64) < 2 ^ 31"
  shows "sint (ucast n :: 32 word) = int (unat n)"
proof -
  have "sint (ucast n :: 32 word) = signed_take_bit 31 (int (unat n))"
    by (simp add: sint_uint unsigned_ucast_eq signed_take_bit_take_bit)
  also have "\<dots> = int (unat n)"
  proof (rule signed_take_bit_int_eq_self)
    show "- (2 ^ 31) \<le> int (unat n)" by (rule order_trans[of _ 0]) simp_all
    show "int (unat n) < 2 ^ 31" using assms by (metis of_nat_less_iff of_nat_numeral of_nat_power)
  qed
  finally show ?thesis .
qed
lemma itoa_text:
  assumes "d + 11 \<le> length buf" and "unat n < 2 ^ 31"
  shows "itoa_printf buf d n = Inr (splice buf d (number_text 10 (unat n) @ [NUL]))"
proof (cases "n = 0")
  case True
  then show ?thesis
    using assms by (simp add: itoa_printf_def number_text_def wr_def splice_two[of d buf])
next
  case False
  let ?k = "length (digits 10 (unat n))"
  have "unat n < 10 ^ 10" using assms(2) by simp
  then have k: "?k \<le> 10" by (rule length_digits) simp
  let ?b = "buf[d + ?k := NUL]"
  have "fill10 ?k n (drop d ?b) = Inr (digits 10 (unat n) @ drop ?k (drop d ?b))"
    using k assms by (intro fill10_digits) simp_all
  moreover have "splice buf d (number_text 10 (unat n) @ [NUL]) =
      take d ?b @ digits 10 (unat n) @ drop ?k (drop d ?b)"
    using k assms False splice_digits[of d "digits 10 (unat n)" buf NUL]
    by (simp add: number_text_def unat_eq_0)
  moreover have "count10 (sint (ucast n :: 32 word)) = ?k"
    by (simp only: sint_low_word[OF assms(2)] count10_digits)
  ultimately show ?thesis using k assms False by (simp add: itoa_printf_def Let_def wr_def)
qed

section \<open>What a format prints\<close>

text \<open>
  The text of a format with its arguments; \<open>None\<close> if an argument is missing or of the wrong kind,
  for a \<^verbatim>\<open>%\<close> at the end, and for the smallest integer.
\<close>

fun render :: "string \<Rightarrow> varg list \<Rightarrow> string option" where
  "render [] args = Some []"
| "render [c] args = (if c = CHR ''%'' then None else Some [c])"
| "render (c # d # fmt) args =
     (if c \<noteq> CHR ''%'' then map_option (\<lambda>t. c # t) (render (d # fmt) args)
      else if d = CHR ''c'' then
        (case args of Slot w # rest \<Rightarrow>
           map_option (\<lambda>t. chr_of (unat (ucast w :: 8 word)) # t) (render fmt rest) | _ \<Rightarrow> None)
      else if d = CHR ''d'' then
        (case args of Slot w # rest \<Rightarrow>
           (let i = sint (ucast w :: 32 word)
            in if i = - (2 ^ 31) then None
               else map_option (\<lambda>t. (if i < 0 then CHR ''-'' # number_text 10 (nat (- i)) else number_text 10 (nat i)) @ t)
                      (render fmt rest)) | _ \<Rightarrow> None)
      else if d = CHR ''x'' \<or> d = CHR ''p'' then
        (case args of Slot w # rest \<Rightarrow>
           map_option (\<lambda>t. number_text 16 (unat w) @ t) (render fmt rest) | _ \<Rightarrow> None)
      else if d = CHR ''s'' then
        (case args of Text s # rest \<Rightarrow>
           if terminated s then map_option (\<lambda>t. cstr s @ t) (render fmt rest) else None | _ \<Rightarrow> None)
      else render fmt args)"

definition emits :: "pstate \<Rightarrow> string \<Rightarrow> pstate \<Rightarrow> bool" where
  "emits s t s' = (write_all t (con s) = Inr (con s') \<and> console_ok (con s') \<and> length (buf30 s') = length (buf30 s))"

lemma emits_Nil: "console_ok (con s) \<Longrightarrow> emits s [] s"
  by (simp add: emits_def)

lemma emits_trans: "emits s t s' \<Longrightarrow> emits s' u s'' \<Longrightarrow> emits s (t @ u) s''"
  by (simp add: emits_def write_all_append)

lemma emits_buf: "emits (s\<lparr>buf30 := b\<rparr>) t s' \<Longrightarrow> length b = length (buf30 s) \<Longrightarrow> emits s t s'"
  by (simp add: emits_def)

lemma putc_emits:
  assumes "console_ok (con s)"
  shows "\<exists>s'. putc c s = Inr s' \<and> emits s [c] s' \<and> buf30 s' = buf30 s"
proof -
  from write_k_spec[OF assms, of c] obtain k where "write_k c (con s) = Inr k" "console_ok k" by blast
  then show ?thesis by (auto simp: putc_def emits_def)
qed

lemma puts_buffered_emits:
  assumes "console_ok (con s)" and "NUL \<notin> set t" and "0 < length (buf30 s)"
  shows "\<exists>s'. puts_buffered (t @ NUL # r) s = Inr s' \<and> emits s t s'"
  using assms
proof (induction t arbitrary: s)
  case Nil
  then show ?case by (simp add: emits_Nil)
next
  case (Cons c t)
  let ?s = "s\<lparr>buf30 := (buf30 s)[0 := c]\<rparr>"
  from putc_emits[of ?s c] Cons.prems(1) obtain s1 where
    s1: "putc c ?s = Inr s1" "emits ?s [c] s1" "buf30 s1 = buf30 ?s" by auto
  have "console_ok (con s1)" "0 < length (buf30 s1)" using s1 Cons.prems(3) by (simp_all add: emits_def)
  from Cons.IH[OF this(1) _ this(2)] Cons.prems(2) obtain s2 where
    s2: "puts_buffered (t @ NUL # r) s1 = Inr s2" "emits s1 t s2" by auto
  have "emits s (c # t) s2" using emits_trans[OF emits_buf[OF s1(2)] s2(2)] by simp
  then show ?case using s1(1) s2(1) Cons.prems(2,3) by (auto simp: wr_def)
qed

lemma printf_number_emits:
  assumes "console_ok (con s)" and "\<forall>c\<in>set t. c \<noteq> NUL \<and> c \<noteq> CHR ''%''"
  shows "\<exists>s'. printf_number (t @ NUL # r) s = Inr s' \<and> emits s t s'"
  using assms
proof (induction t arbitrary: s)
  case Nil
  then show ?case by (cases r) (simp_all add: printf_number_def emits_Nil)
next
  case (Cons c t)
  from putc_emits[OF Cons.prems(1), of c] obtain s1 where s1: "putc c s = Inr s1" "emits s [c] s1" by blast
  then have "console_ok (con s1)" by (simp add: emits_def)
  from Cons.IH[OF this] Cons.prems(2) obtain s2 where
    s2: "printf_number (t @ NUL # r) s1 = Inr s2" "emits s1 t s2" by auto
  have "emits s (c # t) s2" using emits_trans[OF s1(2) s2(2)] by simp
  then show ?case
    using s1(1) s2(1) Cons.prems(2) by (cases t) (auto simp: printf_number_def)
qed

text \<open>The three kinds of directives that convert.\<close>

lemma again_emits:
  assumes "console_ok (con s)" and "length (buf30 s) = 30" and "length t < 30"
    and "\<forall>c\<in>set t. c \<noteq> NUL \<and> c \<noteq> CHR ''%''" and "length b = 30" and "b = t @ NUL # r"
  shows "\<exists>s'. printf_number b (s\<lparr>buf30 := b\<rparr>) = Inr s' \<and> emits s t s'"
proof -
  have "console_ok (con (s\<lparr>buf30 := b\<rparr>))" using assms(1) by simp
  from printf_number_emits[OF this assms(4), of r] obtain s' where
    "printf_number b (s\<lparr>buf30 := b\<rparr>) = Inr s'" "emits (s\<lparr>buf30 := b\<rparr>) t s'"
    unfolding assms(6) by blast
  then show ?thesis using emits_buf assms(2,5) by auto
qed

lemma length_number_text:
  "n < b ^ k \<Longrightarrow> 2 \<le> b \<Longrightarrow> 0 < k \<Longrightarrow> length (number_text b n) \<le> k"
  using length_digits[of n b k] by (simp add: number_text_def)

lemma directive_x:
  assumes "console_ok (con s)" and "length (buf30 s) = 30" and "c = CHR ''x'' \<or> c = CHR ''p''"
  shows "\<exists>s'. directive printf_number c (Slot w # rest) s = Inr (rest, s') \<and>
    emits s (number_text 16 (unat w)) s'"
proof -
  let ?t = "number_text 16 (unat w)"
  have "unat w < 16 ^ 16" using unat64_lt[of w] by simp
  then have l: "length ?t \<le> 16" by (rule length_number_text) simp_all
  let ?b = "splice (buf30 s) 0 (?t @ [NUL])"
  have "\<exists>s'. printf_number ?b (s\<lparr>buf30 := ?b\<rparr>) = Inr s' \<and> emits s ?t s'"
    by (rule again_emits[OF assms(1,2) _ number_text_plain, where r = "drop (Suc (length ?t)) (buf30 s)"])
      (use l assms(2) in \<open>simp_all add: splice_def\<close>)
  moreover have "itoh_printf (buf30 s) 0 w = Inr ?b" using assms(2) by (intro itoh_text) simp
  ultimately show ?thesis using assms(3) by (auto simp: directive_def)
qed

lemma unat_scast_abs:
  assumes "i = sint (w :: 32 word)" and "- (2 ^ 31) < i" and "i < 2 ^ 31"
  shows "unat (if i < 0 then scast (- w) else scast w :: u64) = nat \<bar>i\<bar>"
proof -
  have pos: "unat (word_of_int k :: u64) = nat k" if "0 \<le> k" "k < 2 ^ 31" for k
  proof -
    have "k < 2 ^ 64" using that(2) by (rule less_trans) simp
    then show ?thesis using that(1) by (simp add: unsigned_of_int take_bit_int_eq_self nat_take_bit_eq)
  qed
  have neg: "sint (- w) = - sint w" if "i < 0"
  proof -
    have "sint (- w) = signed_take_bit 31 (- sint w)" by (simp add: sint_word_ariths)
    also have "\<dots> = - sint w"
      using assms that by (intro signed_take_bit_int_eq_self) simp_all
    finally show ?thesis .
  qed
  have e: "(if i < 0 then scast (- w) else scast w :: u64) = word_of_int \<bar>i\<bar>"
  proof (cases "i < 0")
    case True
    have "scast (- w) = (word_of_int (- sint w) :: u64)" unfolding scast_eq neg[OF True] ..
    then show ?thesis using True assms(1) by (simp only: if_True abs_of_neg)
  next
    case False
    then have "\<bar>i\<bar> = sint w" using assms(1) by simp
    with False show ?thesis by (simp only: if_False scast_eq)
  qed
  show ?thesis unfolding e by (rule pos) (use assms(2,3) in auto)
qed

lemma directive_d:
  assumes "console_ok (con s)" and "length (buf30 s) = 30" and "i = sint (ucast w :: 32 word)"
    and "i \<noteq> - (2 ^ 31)"
  shows "\<exists>s'. directive printf_number (CHR ''d'') (Slot w # rest) s = Inr (rest, s') \<and>
    emits s ((if i < 0 then ''-'' else []) @ number_text 10 (nat \<bar>i\<bar>)) s'"
proof -
  let ?w = "ucast w :: 32 word" and ?t = "number_text 10 (nat \<bar>i\<bar>)"
  have i: "- (2 ^ 31) < i" "i < 2 ^ 31"
    using assms(3,4) sint_ge[of ?w] sint_lt[of ?w] by auto
  then have m: "nat \<bar>i\<bar> < 2 ^ 31" by (auto simp: nat_less_iff)
  then have "nat \<bar>i\<bar> < 10 ^ 10" by simp
  then have l: "length ?t \<le> 10" by (rule length_number_text) simp_all
  let ?buf = "if i < 0 then (buf30 s)[0 := CHR ''-''] else buf30 s" and ?d = "if i < 0 then 1 else (0::nat)"
  let ?n = "if i < 0 then scast (- ?w) else scast ?w :: u64"
  have n: "unat ?n = nat \<bar>i\<bar>" using assms(3) i by (rule unat_scast_abs)
  let ?b = "splice ?buf ?d (?t @ [NUL])"
  have c: "itoa_printf ?buf ?d ?n = Inr ?b"
    using itoa_text[of ?d ?buf ?n] n m assms(2) by auto
  have "\<exists>s'. printf_number ?b (s\<lparr>buf30 := ?b\<rparr>) = Inr s' \<and> emits s ((if i < 0 then ''-'' else []) @ ?t) s'"
  proof (rule again_emits[OF assms(1,2), where r = "drop (?d + Suc (length ?t)) (buf30 s)"])
    show "\<forall>c\<in>set ((if i < 0 then ''-'' else []) @ ?t). c \<noteq> NUL \<and> c \<noteq> CHR ''%''"
      using number_text_plain[of 10 "nat \<bar>i\<bar>"] by auto
    show "?b = ((if i < 0 then ''-'' else []) @ ?t) @ NUL # drop (?d + Suc (length ?t)) (buf30 s)"
      using assms(2) by (cases "buf30 s") (auto simp: splice_def)
  qed (use l assms(2) in \<open>auto simp: splice_def\<close>)
  then show ?thesis using c assms(2,3) by (auto simp: directive_def wr_def Let_def)
qed

lemma directive_s:
  assumes "console_ok (con s)" and "length (buf30 s) = 30" and "terminated t"
  shows "\<exists>s'. directive printf_number (CHR ''s'') (Text t # rest) s = Inr (rest, s') \<and> emits s (cstr t) s'"
proof -
  from assms(3) obtain u r where t: "t = u @ NUL # r" "NUL \<notin> set u" "cstr t = u"
    by (elim terminatedE) auto
  let ?s = "s\<lparr>buf30 := (buf30 s)[1 := NUL]\<rparr>"
  from puts_buffered_emits[of ?s u r] assms(1,2) t(2) obtain s' where
    "puts_buffered t ?s = Inr s'" "emits ?s u s'" unfolding t(1) by auto
  then show ?thesis
    using assms(2) t(3) emits_buf[where s = s and b = "(buf30 s)[1 := NUL]" and t = u and s' = s'] by (auto simp: directive_def wr_def)
qed

lemma directive_c:
  assumes "console_ok (con s)" and "length (buf30 s) = 30"
  shows "\<exists>s'. directive printf_number (CHR ''c'') (Slot w # rest) s = Inr (rest, s') \<and>
    emits s [chr_of (unat (ucast w :: 8 word))] s'"
proof -
  let ?c = "chr_of (unat (ucast w :: 8 word))"
  let ?s = "s\<lparr>buf30 := (buf30 s)[0 := ?c, 1 := NUL]\<rparr>"
  from putc_emits[of ?s ?c] assms(1) obtain s' where "putc ?c ?s = Inr s'" "emits ?s [?c] s'" by auto
  then show ?thesis
    using assms(2) emits_buf[where s = s and b = "(buf30 s)[0 := ?c, 1 := NUL]" and t = "[?c]" and s' = s']
    by (auto simp: directive_def wr_def)
qed

lemma printf_step:
  assumes "directive printf_number d args s = Inr (rest, s1)" and "emits s u s1"
    and "printf (fmt @ NUL # r) rest s1 = Inr s2" and "emits s1 t s2"
  shows "\<exists>s'. printf ((CHR ''%'' # d # fmt) @ NUL # r) args s = Inr s' \<and> emits s (u @ t) s'"
  using assms emits_trans[OF assms(2,4)] by (simp add: printf_def)

lemma printf_put:
  assumes "putc c s = Inr s1" and "emits s [c] s1" and "c \<noteq> CHR ''%''" and "c \<noteq> NUL"
    and "printf (fmt @ NUL # r) args s1 = Inr s2" and "emits s1 t s2"
  shows "\<exists>s'. printf ((c # fmt) @ NUL # r) args s = Inr s' \<and> emits s (c # t) s'"
  using assms emits_trans[OF assms(2,6)] by (cases fmt) (simp_all add: printf_def)

lemma emits_keeps:
  "emits s t s' \<Longrightarrow> length (buf30 s) = 30 \<Longrightarrow> console_ok (con s') \<and> length (buf30 s') = 30"
  by (simp add: emits_def)

definition renders :: "string \<Rightarrow> varg list \<Rightarrow> bool" where
  "renders fmt args = (\<forall>s out r. console_ok (con s) \<longrightarrow> length (buf30 s) = 30 \<longrightarrow> render fmt args = Some out \<longrightarrow>
     (\<exists>s'. printf (fmt @ NUL # r) args s = Inr s' \<and> emits s out s'))"

lemma rendersD:
  assumes "renders fmt args" and "emits s0 u s" and "length (buf30 s0) = 30" and "render fmt args = Some out"
  shows "\<exists>s'. printf (fmt @ NUL # r) args s = Inr s' \<and> emits s out s'"
  using assms emits_keeps[OF assms(2,3)] unfolding renders_def by blast

lemma renders_step:
  assumes "renders fmt rest"
    and "\<And>s. console_ok (con s) \<Longrightarrow> length (buf30 s) = 30 \<Longrightarrow>
       \<exists>s1. directive printf_number d args s = Inr (rest, s1) \<and> emits s u s1"
    and "\<And>out. render (CHR ''%'' # d # fmt) args = Some out \<Longrightarrow> \<exists>t. render fmt rest = Some t \<and> out = u @ t"
  shows "renders (CHR ''%'' # d # fmt) args"
  unfolding renders_def
proof (intro allI impI)
  fix s :: pstate and out r
  assume s: "console_ok (con s)" "length (buf30 s) = 30" "render (CHR ''%'' # d # fmt) args = Some out"
  from assms(2)[OF s(1,2)] obtain s1 where s1: "directive printf_number d args s = Inr (rest, s1)" "emits s u s1"
    by blast
  from assms(3)[OF s(3)] obtain t where t: "render fmt rest = Some t" "out = u @ t" by blast
  from rendersD[OF assms(1) s1(2) s(2) t(1), of r] obtain s2 where
    "printf (fmt @ NUL # r) rest s1 = Inr s2" "emits s1 t s2" by blast
  from printf_step[OF s1 this] show "\<exists>s'. printf ((CHR ''%'' # d # fmt) @ NUL # r) args s = Inr s' \<and> emits s out s'"
    unfolding t(2) .
qed

lemma directive_other:
  "d \<notin> {CHR ''c'', CHR ''d'', CHR ''x'', CHR ''p'', CHR ''s''} \<Longrightarrow> directive again d args s = Inr (args, s)"
  by (simp add: directive_def)

lemma renders_percent:
  assumes "\<And>w rest. args = Slot w # rest \<Longrightarrow> renders fmt rest"
    and "\<And>t rest. args = Text t # rest \<Longrightarrow> renders fmt rest"
    and "d \<notin> {CHR ''c'', CHR ''d'', CHR ''x'', CHR ''p'', CHR ''s''} \<Longrightarrow> renders fmt args"
  shows "renders (CHR ''%'' # d # fmt) args"
proof (cases "\<exists>out. render (CHR ''%'' # d # fmt) args = Some out")
  case False
  then show ?thesis by (simp add: renders_def)
next
  case True
  then obtain out where out: "render (CHR ''%'' # d # fmt) args = Some out" ..
  consider (c) w rest where "d = CHR ''c''" "args = Slot w # rest"
    | (d) w rest where "d = CHR ''d''" "args = Slot w # rest" "sint (ucast w :: 32 word) \<noteq> - (2 ^ 31)"
    | (x) w rest where "d = CHR ''x'' \<or> d = CHR ''p''" "args = Slot w # rest"
    | (s) t rest where "d = CHR ''s''" "args = Text t # rest" "terminated t"
    | (other) "d \<notin> {CHR ''c'', CHR ''d'', CHR ''x'', CHR ''p'', CHR ''s''}"
    using out by (auto simp: Let_def split: if_splits list.splits varg.splits)
  then show ?thesis
  proof cases
    case c
    show ?thesis
      by (rule renders_step[OF assms(1)[OF c(2)], where u = "[chr_of (unat (ucast w :: 8 word))]"])
        (use c directive_c in auto)
  next
    case d
    show ?thesis
      by (rule renders_step[OF assms(1)[OF d(2)],
            where u = "(if sint (ucast w :: 32 word) < 0 then ''-'' else []) @ number_text 10 (nat \<bar>sint (ucast w :: 32 word)\<bar>)"])
        (use d directive_d[OF _ _ refl d(3)] in \<open>auto simp: Let_def\<close>)
  next
    case x
    show ?thesis
      by (rule renders_step[OF assms(1)[OF x(2)], where u = "number_text 16 (unat w)"])
        (use x directive_x in auto)
  next
    case s
    show ?thesis
      by (rule renders_step[OF assms(2)[OF s(2)], where u = "cstr t"]) (use s directive_s in auto)
  next
    case other
    show ?thesis
      by (rule renders_step[OF assms(3)[OF other], where u = "[]"])
        (use other directive_other emits_Nil in auto)
  qed
qed

lemma renders_plain:
  assumes "c \<noteq> CHR ''%''" and "c \<noteq> NUL" and "renders (d # fmt) args"
  shows "renders (c # d # fmt) args"
  unfolding renders_def
proof (intro allI impI)
  fix s :: pstate and out r
  assume s: "console_ok (con s)" "length (buf30 s) = 30" "render (c # d # fmt) args = Some out"
  from s(3) assms(1) obtain t where t: "render (d # fmt) args = Some t" "out = c # t" by auto
  from putc_emits[OF s(1), of c] obtain s1 where s1: "putc c s = Inr s1" "emits s [c] s1" by blast
  from rendersD[OF assms(3) s1(2) s(2) t(1), of r] obtain s2 where
    "printf ((d # fmt) @ NUL # r) args s1 = Inr s2" "emits s1 t s2" by blast
  from printf_put[OF s1 assms(1,2) this] show "\<exists>s'. printf ((c # d # fmt) @ NUL # r) args s = Inr s' \<and> emits s out s'"
    unfolding t(2) .
qed

lemma renders_Nil: "renders [] args"
  unfolding renders_def
proof (intro allI impI)
  fix s :: pstate and out r
  assume "console_ok (con s)" "render [] args = Some out"
  then show "\<exists>s'. printf ([] @ NUL # r) args s = Inr s' \<and> emits s out s'"
    by (cases r) (simp_all add: printf_def emits_Nil)
qed

lemma renders_single: "c \<noteq> NUL \<Longrightarrow> renders [c] args"
  unfolding renders_def
proof (intro allI impI)
  fix s :: pstate and out r
  assume s: "c \<noteq> NUL" "console_ok (con s)" "render [c] args = Some out"
  from putc_emits[OF s(2), of c] obtain s1 where "putc c s = Inr s1" "emits s [c] s1" by blast
  then show "\<exists>s'. printf ([c] @ NUL # r) args s = Inr s' \<and> emits s out s'"
    using s by (cases r) (auto simp: printf_def split: if_splits)
qed

lemma printf_renders: "NUL \<notin> set fmt \<Longrightarrow> renders fmt args"
proof (induction fmt arbitrary: args rule: length_induct)
  case (1 fmt)
  consider "fmt = []" | c where "fmt = [c]" | c d f where "fmt = c # d # f"
    by (metis list.exhaust)
  then show ?case
  proof cases
    case (3 c d f)
    then have "renders f a" "renders (d # f) a" for a using 1 by simp_all
    then show ?thesis
      using 1(2) 3 renders_percent[of _ f d] renders_plain[of c d f] by (cases "c = CHR ''%''") auto
  qed (use 1 renders_Nil renders_single in auto)
qed

section \<open>Properties\<close>

text \<open>
  \<^verbatim>\<open>itoh_printf\<close> writes the hexadecimal digits of any 64-bit number and a terminator, and
  nothing else; reading the digits gives the number back.
\<close>

theorem itoh_printf_round_trip:
  assumes "d + 17 \<le> length buf"
  shows "\<exists>t. itoh_printf buf d n = Inr (splice buf d (t @ [NUL])) \<and> length t \<le> 16 \<and>
    read_number 16 t = unat n"
proof -
  have "unat n < 16 ^ 16" using unat64_lt[of n] by simp
  then have "length (number_text 16 (unat n)) \<le> 16" by (rule length_number_text) simp_all
  then show ?thesis using itoh_text[OF assms, of n] read_number_text[of 16 "unat n"] by auto
qed

theorem itoh_printf_round_trip_witness:
  "\<exists>t. itoh_printf (replicate 30 NUL) 0 0xb8000 = Inr (splice (replicate 30 NUL) 0 (t @ [NUL])) \<and>
     read_number 16 t = 0xb8000"
  using itoh_printf_round_trip[of 0 "replicate 30 NUL" "0xb8000"] by auto

text \<open>
  C35: the kernel's \<^verbatim>\<open>printf\<close> writes to the console the text that the format and its arguments
  denote, for the directives \<^verbatim>\<open>%c %d %x %p %s\<close>; its static buffer is large enough.
\<close>

theorem printf_writes_rendering:
  assumes "console_ok (con s)" and "length (buf30 s) = 30" and "NUL \<notin> set fmt"
    and "render fmt args = Some out"
  shows "\<exists>s'. printf (fmt @ NUL # r) args s = Inr s' \<and> write_all out (con s) = Inr (con s') \<and>
    console_ok (con s') \<and> length (buf30 s') = 30"
  using printf_renders[OF assms(3), of args] assms by (auto simp: renders_def emits_def)

theorem printf_writes_rendering_witness:
  "\<exists>s'. printf (lit ''x=%d %s'') [Slot (- 5), Text (lit ''ok'')]
       \<lparr>con = blank_console, buf30 = replicate 30 NUL\<rparr> = Inr s' \<and>
     write_all ''x=-5 ok'' blank_console = Inr (con s')"
proof -
  have "render ''x=%d %s'' [Slot (- 5), Text (lit ''ok'')] = Some ''x=-5 ok''"
    using char_of_char[of "CHR ''5''"] by (simp add: number_text_def digits_rec digit_def chr_of_def)
  from printf_writes_rendering[OF _ _ _ this, of "\<lparr>con = blank_console, buf30 = replicate 30 NUL\<rparr>" "[]"]
  show ?thesis by (auto simp: blank_console_ok lit_def)
qed

end
