(* ===== verification/Keyboard.thy ===== *)
theory Keyboard
  imports Console
begin

text \<open>
  The two scan-code decoders, \<^verbatim>\<open>sys/keyboard_helpers.c\<close> (for the status line) and the first
  part of \<^verbatim>\<open>sys/stdin.c\<close> (for standard input). They are the same state machine with a
  different output; a key is reported when it is released, so a key without modifiers takes two scan
  codes and a key with a modifier waits for two releases.

  \<^verbatim>\<open>shift\<close> and \<^verbatim>\<open>ctrl\<close> are 0 or -1 in the code and Booleans here.
\<close>

datatype kstate = S_INPUT | S_NEED_1 | S_NEED_2 | S_FINISHED

record kbd =
  kstate :: kstate
  pressed_key :: u8
  shift :: bool
  ctrl :: bool

abbreviation (input) K_SHIFTDOWN :: u8 where "K_SHIFTDOWN \<equiv> 0x2a"
abbreviation (input) K_CTRLDOWN :: u8 where "K_CTRLDOWN \<equiv> 0x1d"

definition smalls :: "char list" where
  "smalls = lit ('' `1234567890-=  qwertyuiop[]'' @ [CHR 0x5C] @ '' asdfghjkl;'' @ [CHR 0x27] @
     ''   zxcvbnm,./     '')"

definition capitals :: "char list" where
  "capitals = lit ('' ~!@#$%^&*()_+  QWERTYUIOP{}| ASDFGHJKL:'' @ [CHR 0x22] @ ''   ZXCVBNM<>?     '')"

section \<open>Operations\<close>

definition feed_state :: "u8 \<Rightarrow> kbd \<Rightarrow> kbd" where
  "feed_state key s =
     (case kstate s of
        S_NEED_1 \<Rightarrow> s\<lparr>kstate := S_FINISHED\<rparr>
      | S_NEED_2 \<Rightarrow> s\<lparr>kstate := S_NEED_1\<rparr>
      | S_INPUT \<Rightarrow>
          if key = K_CTRLDOWN then s\<lparr>ctrl := True\<rparr>
          else if key = K_SHIFTDOWN then s\<lparr>shift := True\<rparr>
          else s\<lparr>pressed_key := key, kstate := if ctrl s \<or> shift s then S_NEED_2 else S_NEED_1\<rparr>
      | S_FINISHED \<Rightarrow> s)"

definition key_reset :: "kbd \<Rightarrow> kbd" where
  "key_reset s = s\<lparr>kstate := S_INPUT, shift := False, ctrl := False, pressed_key := 0\<rparr>"

definition print_glyph :: "kbd \<Rightarrow> char list \<Rightarrow> char list result" where
  "print_glyph s buff =
     (if length buff < 4 then Inl Out_Of_Bounds
      else let b = ''    '' @ drop 4 buff in
        if pressed_key s = 0x01 then Inr (b[0 := CHR ''E'', 1 := CHR ''S'', 2 := CHR ''C''])
        else if pressed_key s = 0x0e then Inr (b[1 := CHR 0x5C, 2 := CHR ''B''])
        else if pressed_key s = 0x0f then Inr (b[1 := CHR 0x5C, 2 := CHR ''T''])
        else if pressed_key s = 0x1c then Inr (b[1 := CHR 0x5C, 2 := CHR ''N''])
        else bindr (rd (if shift s \<or> ctrl s then capitals else smalls) (unat (pressed_key s))) (\<lambda>c.
               Inr (if ctrl s then b[2 := c, 1 := CHR ''^''] else b[2 := c])))"

definition keyboard_feed :: "u8 \<Rightarrow> char list \<Rightarrow> kbd \<Rightarrow> (int \<times> char list \<times> kbd) result" where
  "keyboard_feed key buff s =
     (let s1 = feed_state key s
      in if kstate s1 = S_FINISHED
         then bindr (print_glyph s1 buff) (\<lambda>b. Inr (1, b, key_reset s1))
         else Inr (0, buff, s1))"

text \<open>\<^verbatim>\<open>single_elem_buffer[0] -= 64\<close> on a \<^verbatim>\<open>char\<close>.\<close>

definition control_char :: "char \<Rightarrow> char" where
  "control_char c = char_of ((of_char c + 192 :: nat) mod 256)"

definition fill_single_elem_buffer :: "kbd \<Rightarrow> char result" where
  "fill_single_elem_buffer s =
     bindr (if pressed_key s = 0x01 then Inr NUL
            else if pressed_key s = 0x0e then Inr BS
            else if pressed_key s = 0x0f then Inr TAB
            else if pressed_key s = 0x1c then Inr LF
            else if shift s \<or> ctrl s then rd capitals (unat (pressed_key s))
            else rd smalls (unat (pressed_key s)))
       (\<lambda>c. Inr (if ctrl s then control_char c else c))"

definition stdin_keyboard_feed :: "u8 \<Rightarrow> kbd \<Rightarrow> (char option \<times> kbd) result" where
  "stdin_keyboard_feed key s =
     (let s1 = feed_state key s
      in if kstate s1 = S_FINISHED
         then bindr (fill_single_elem_buffer (s1\<lparr>kstate := S_INPUT\<rparr>)) (\<lambda>c. Inr (Some c, key_reset s1))
         else Inr (None, s1))"

text \<open>The last key in the status line: \<^verbatim>\<open>put_pressed_key\<close>, at row 23 and column 48.\<close>

definition status_at :: "nat \<Rightarrow> string \<Rightarrow> char list \<Rightarrow> char list result" where
  "status_at p t m =
     for_up 0 (length t) (\<lambda>i m. bindr (wr m (p + 2 * i) (t ! i)) (\<lambda>m1. wr m1 (p + 2 * i + 1) NUL)) m"

definition put_pressed_key ::
  "u8 \<Rightarrow> kbd \<times> char list \<times> console \<Rightarrow> (kbd \<times> char list \<times> console) result" where
  "put_pressed_key key st =
     (case st of (s, buff, con) \<Rightarrow>
        bindr (keyboard_feed key buff s) (\<lambda>(r, buff', s').
          if r \<noteq> 0
          then bindr (status_at (160 * 23 + 2 * 48) (take 4 buff') (vram con)) (\<lambda>m.
                 Inr (s', buff', con\<lparr>vram := m\<rparr>))
          else Inr (s', buff', con)))"

section \<open>Key strokes\<close>

definition idle_kbd :: kbd where
  "idle_kbd = \<lparr>kstate = S_INPUT, pressed_key = 0, shift = False, ctrl = False\<rparr>"

text \<open>
  A stroke is the modifiers pressed, the key, and the codes of the releases (one for the key and one
  for a modifier).
\<close>

datatype stroke = Stroke (mods: "u8 list") (skey: u8) (releases: "u8 list")

definition stroke_ok :: "stroke \<Rightarrow> bool" where
  "stroke_ok k = (set (mods k) \<subseteq> {K_SHIFTDOWN, K_CTRLDOWN} \<and> skey k \<notin> {K_SHIFTDOWN, K_CTRLDOWN} \<and>
     length (releases k) = (if mods k = [] then 1 else 2))"

definition codes :: "stroke \<Rightarrow> u8 list" where
  "codes k = mods k @ skey k # releases k"

text \<open>The character of a key.\<close>

definition key_char :: "bool \<Rightarrow> bool \<Rightarrow> u8 \<Rightarrow> char result" where
  "key_char sh ct key = fill_single_elem_buffer \<lparr>kstate = S_INPUT, pressed_key = key, shift = sh, ctrl = ct\<rparr>"

fun feed_all :: "u8 list \<Rightarrow> kbd \<Rightarrow> (string \<times> kbd) result" where
  "feed_all [] s = Inr ([], s)"
| "feed_all (k # ks) s =
     bindr (stdin_keyboard_feed k s) (\<lambda>(c, s1).
       bindr (feed_all ks s1) (\<lambda>(cs, s2). Inr ((case c of None \<Rightarrow> cs | Some c' \<Rightarrow> c' # cs), s2)))"

lemma feed_all_append:
  "feed_all (a @ b) s = bindr (feed_all a s) (\<lambda>(x, s1). bindr (feed_all b s1) (\<lambda>(y, s2). Inr (x @ y, s2)))"
  by (induction a arbitrary: s) (auto simp: bindr_def split: sum.split option.split)

lemma feed_mods:
  assumes "set ms \<subseteq> {K_SHIFTDOWN, K_CTRLDOWN}" and "kstate s = S_INPUT"
  shows "feed_all ms s =
    Inr ([], s\<lparr>shift := shift s \<or> K_SHIFTDOWN \<in> set ms, ctrl := ctrl s \<or> K_CTRLDOWN \<in> set ms\<rparr>)"
  using assms
proof (induction ms arbitrary: s)
  case Nil
  then show ?case by simp
next
  case (Cons m ms)
  then consider "m = K_SHIFTDOWN" | "m = K_CTRLDOWN" by auto
  then show ?case
    using Cons by cases (auto simp: stdin_keyboard_feed_def feed_state_def Let_def)
qed

lemma feed_stroke:
  assumes "stroke_ok k"
  shows "feed_all (codes k) idle_kbd =
    bindr (key_char (K_SHIFTDOWN \<in> set (mods k)) (K_CTRLDOWN \<in> set (mods k)) (skey k))
      (\<lambda>c. Inr ([c], idle_kbd))"
proof (cases "mods k = []")
  case True
  then obtain r where "releases k = [r]"
    using assms by (auto simp: stroke_ok_def length_Suc_conv numeral_2_eq_2)
  with True assms show ?thesis
    by (auto simp: codes_def stroke_ok_def stdin_keyboard_feed_def feed_state_def idle_kbd_def
        key_char_def key_reset_def bindr_def split: sum.split)
next
  case False
  then obtain r1 r2 where r: "releases k = [r1, r2]"
    using assms by (auto simp: stroke_ok_def length_Suc_conv numeral_2_eq_2)
  have m: "set (mods k) \<subseteq> {K_SHIFTDOWN, K_CTRLDOWN}" using assms by (simp add: stroke_ok_def)
  with False have "K_SHIFTDOWN \<in> set (mods k) \<or> K_CTRLDOWN \<in> set (mods k)" by (cases "mods k") auto
  with r assms feed_mods[OF m, of idle_kbd] show ?thesis
    by (auto simp: codes_def feed_all_append stroke_ok_def stdin_keyboard_feed_def feed_state_def
        idle_kbd_def key_char_def key_reset_def bindr_def split: sum.split)
qed


lemma feed_strokes:
  assumes "\<forall>k\<in>set ks. stroke_ok k" and "length cs = length ks"
    and "\<forall>i<length ks. key_char (K_SHIFTDOWN \<in> set (mods (ks ! i))) (K_CTRLDOWN \<in> set (mods (ks ! i))) (skey (ks ! i))
           = Inr (cs ! i)"
  shows "feed_all (concat (map codes ks)) idle_kbd = Inr (cs, idle_kbd)"
  using assms
proof (induction ks arbitrary: cs)
  case Nil
  then show ?case by simp
next
  case (Cons k ks)
  then obtain c cs' where cs: "cs = c # cs'" by (cases cs) auto
  have "feed_all (codes k) idle_kbd = Inr ([c], idle_kbd)"
    using feed_stroke[of k] Cons.prems(1) Cons.prems(3)[rule_format, of 0] cs by simp
  moreover have "feed_all (concat (map codes ks)) idle_kbd = Inr (cs', idle_kbd)"
    using Cons.prems cs by (intro Cons.IH) auto
  ultimately show ?case using cs by (simp add: feed_all_append)
qed

lemma table_length [simp]: "length smalls = 60" "length capitals = 60"
  by (simp_all add: smalls_def capitals_def lit_def)

lemma key_char_beyond:
  assumes "60 \<le> unat key"
  shows "key_char sh ct key = Inl Out_Of_Bounds"
proof -
  have "key \<noteq> 0x01" "key \<noteq> 0x0e" "key \<noteq> 0x0f" "key \<noteq> 0x1c" using assms by auto
  then show ?thesis using assms by (simp add: key_char_def fill_single_elem_buffer_def rd_def)
qed

lemma all_less_3: "(\<forall>i<3. P i) \<longleftrightarrow> P 0 \<and> P 1 \<and> P (2::nat)"
  by (auto simp: numeral_eq_Suc less_Suc_eq)

section \<open>Properties\<close>

text \<open>
  the decoder of standard input turns any sequence of key strokes, with shift or control held or
  not, into one character per stroke, that of the key with its modifiers, whatever the codes of the
  releases are; and it is in its initial state afterwards.
\<close>

theorem keystrokes_decode:
  assumes "\<forall>k\<in>set ks. stroke_ok k" and "length cs = length ks"
    and "\<forall>i<length ks. key_char (K_SHIFTDOWN \<in> set (mods (ks ! i))) (K_CTRLDOWN \<in> set (mods (ks ! i))) (skey (ks ! i))
           = Inr (cs ! i)"
  shows "feed_all (concat (map codes ks)) idle_kbd = Inr (cs, idle_kbd)"
  using assms by (rule feed_strokes)

theorem keystrokes_decode_witness:
  "feed_all ([0x2a, 0x23, 0xa3, 0xaa] @ [0x17, 0x97] @ [0x1d, 0x20, 0xa0, 0x9d]) idle_kbd =
     Inr ([CHR ''H'', CHR ''i'', CHR 0x04], idle_kbd)"
proof -
  let ?ks = "[Stroke [0x2a] 0x23 [0xa3, 0xaa], Stroke [] 0x17 [0x97], Stroke [0x1d] 0x20 [0xa0, 0x9d]]"
  have "char_of (4::nat) = CHR 0x04" using char_of_char[of "CHR 0x04", where 'a = nat] by simp
  moreover have "char_of (4::nat) = (char_of (260::nat) :: char)" using char_of_mod_256[of "260::nat"] by simp
  ultimately have "char_of (260::nat) = CHR 0x04" by simp
  then have "\<forall>i<3. key_char (K_SHIFTDOWN \<in> set (mods (?ks ! i))) (K_CTRLDOWN \<in> set (mods (?ks ! i))) (skey (?ks ! i))
      = Inr ([CHR ''H'', CHR ''i'', CHR 0x04] ! i)"
    by (simp add: all_less_3 key_char_def fill_single_elem_buffer_def rd_def capitals_def smalls_def
        lit_def control_char_def)
  with keystrokes_decode[of ?ks "[CHR ''H'', CHR ''i'', CHR 0x04]"] show ?thesis
    by (simp add: stroke_ok_def codes_def)
qed

text \<open>
  The key is not checked against the size of the character tables. A key with a scan code of 60
  or more (a function key, or the prefix of an arrow key) reads past their end.
\<close>

theorem extended_key_overreads:
  assumes "60 \<le> unat key"
  shows "feed_all [key, r] idle_kbd = Inl Out_Of_Bounds"
proof -
  have "key \<noteq> K_SHIFTDOWN" "key \<noteq> K_CTRLDOWN" using assms by auto
  then have "stroke_ok (Stroke [] key [r])" by (simp add: stroke_ok_def)
  from feed_stroke[OF this] show ?thesis using key_char_beyond[OF assms] by (simp add: codes_def)
qed

theorem extended_key_overreads_witness: "feed_all [0xe0, 0x48] idle_kbd = Inl Out_Of_Bounds"
  by (rule extended_key_overreads) simp

end
