(* ===== verification/Stdin.thy ===== *)
theory Stdin
  imports Keyboard Process
begin

text \<open>
  Standard input, \<^verbatim>\<open>sys/stdin.c\<close>: a ring of 256 characters between the keyboard interrupt,
  which appends what is typed and echoes it, and \<^verbatim>\<open>copy_input\<close>, which a reading process calls
  once \<^verbatim>\<open>buffer_is_ready\<close>.

  \<^verbatim>\<open>start_point\<close>, \<^verbatim>\<open>end_point\<close> and \<^verbatim>\<open>input_count\<close> are \<^verbatim>\<open>int\<close>s and can become
  negative; an access with a negative index is \<open>Out_Of_Bounds\<close>.
\<close>

abbreviation (input) STDIN_BUFFER_SIZE :: int where "STDIN_BUFFER_SIZE \<equiv> 256"

text \<open>Control-D, \<^verbatim>\<open>'D'-64\<close>.\<close>

abbreviation (input) EOT :: char where "EOT \<equiv> CHR 0x04"

record stdin =
  stdin_buffer :: "char list"
  start_point :: int
  end_point :: int
  input_count :: int

section \<open>Operations\<close>

text \<open>The remainder of C, which rounds towards zero.\<close>

definition cmod :: "int \<Rightarrow> int \<Rightarrow> int" where
  "cmod a b = a - b * (sgn a * sgn b * (\<bar>a\<bar> div \<bar>b\<bar>))"

definition rdi :: "char list \<Rightarrow> int \<Rightarrow> char result" where
  "rdi m i = (if i < 0 then Inl Out_Of_Bounds else rd m (nat i))"

definition wri :: "char list \<Rightarrow> int \<Rightarrow> char \<Rightarrow> char list result" where
  "wri m i c = (if i < 0 then Inl Out_Of_Bounds else wr m (nat i) c)"

definition add_char :: "char \<Rightarrow> stdin \<times> sched \<Rightarrow> (int \<times> stdin \<times> sched) result" where
  "add_char c st =
     (case st of (s, sch) \<Rightarrow>
        if cmod (end_point s + 1) STDIN_BUFFER_SIZE = start_point s then Inr (1, s, sch)
        else if c = BS \<and> end_point s = start_point s then Inr (0, s, sch)
        else if c = BS then Inr (1, s\<lparr>end_point := cmod (end_point s - 1) STDIN_BUFFER_SIZE\<rparr>, sch)
        else bindr (wri (stdin_buffer s) (end_point s) c) (\<lambda>b.
               let s1 = s\<lparr>stdin_buffer := b, end_point := cmod (end_point s + 1) STDIN_BUFFER_SIZE\<rparr>
               in if c = LF \<or> c = EOT
                  then bindr (notify_stdin sch) (\<lambda>sch1. Inr (1, s1\<lparr>input_count := input_count s + 1\<rparr>, sch1))
                  else Inr (1, s1, sch)))"

definition buffer_is_ready :: "stdin \<Rightarrow> bool" where
  "buffer_is_ready s = (input_count s > 0)"

text \<open>
  The copying loop of \<^verbatim>\<open>copy_input\<close>; \<open>Inl\<close> of the inner sum is the early \<^verbatim>\<open>return size\<close>.
  It ends since each turn writes one more character of \<^verbatim>\<open>buffer\<close>.
\<close>

function copy_line :: "nat \<Rightarrow> int \<Rightarrow> stdin \<Rightarrow> char list \<Rightarrow> ((int \<times> stdin \<times> char list) + (nat \<times> stdin \<times> char list)) result" where
  "copy_line i sz s buffer =
     bindr (rdi (stdin_buffer s) (start_point s)) (\<lambda>c.
       if c = LF then Inr (Inr (i, s, buffer))
       else if i < length buffer
       then let buffer1 = buffer[i := c];
                s1 = s\<lparr>start_point := cmod (start_point s + 1) STDIN_BUFFER_SIZE\<rparr>
            in if int i = sz - 1 then Inr (Inl (sz, s1, buffer1[i := NUL]))
               else copy_line (Suc i) sz s1 buffer1
       else Inl Out_Of_Bounds)"
  by pat_completeness auto
termination by (relation "measure (\<lambda>(i, sz, s, buffer). length buffer - i)") auto

declare copy_line.simps [simp del]

definition copy_input :: "char list \<Rightarrow> int \<Rightarrow> stdin \<Rightarrow> (int \<times> stdin \<times> char list) result" where
  "copy_input buffer sz s =
     bindr (rdi (stdin_buffer s) (start_point s)) (\<lambda>c.
       if c = EOT
       then Inr (0, s\<lparr>start_point := start_point s + 1, input_count := input_count s - 1\<rparr>, buffer)
       else bindr (copy_line 0 sz s buffer) (\<lambda>r.
              case r of
                Inl early \<Rightarrow> Inr early
              | Inr (i, s1, buffer1) \<Rightarrow>
                  bindr (wr buffer1 i LF) (\<lambda>b.
                    bindr (wr b (i + 1) NUL) (\<lambda>b1.
                      Inr (int i + 1,
                           s1\<lparr>start_point := cmod (start_point s1 + 1) STDIN_BUFFER_SIZE,
                              input_count := input_count s1 - 1\<rparr>, b1)))))"

text \<open>The keyboard interrupt: decode, store and echo.\<close>

record input =
  kb :: kbd
  inp :: stdin
  screen :: console
  procs :: sched

definition buffer_add_char :: "u8 \<Rightarrow> input \<Rightarrow> input result" where
  "buffer_add_char c t =
     bindr (stdin_keyboard_feed c (kb t)) (\<lambda>(r, k).
       case r of
         None \<Rightarrow> Inr (t\<lparr>kb := k\<rparr>)
       | Some to_print \<Rightarrow>
           bindr (add_char to_print (inp t, procs t)) (\<lambda>(echo, s, sch).
             let t1 = t\<lparr>kb := k, inp := s, procs := sch\<rparr>
             in if echo \<noteq> 0
                then bindr (write_k to_print (screen t)) (\<lambda>con. Inr (t1\<lparr>screen := con\<rparr>))
                else Inr t1))"

section \<open>The ring as a list\<close>

text \<open>\<open>xs\<close> is what was typed and not read yet.\<close>

definition typed :: "stdin \<Rightarrow> string \<Rightarrow> bool" where
  "typed s xs =
     (length (stdin_buffer s) = 256 \<and> 0 \<le> start_point s \<and> start_point s < 256 \<and> length xs < 256 \<and>
      end_point s = (start_point s + int (length xs)) mod 256 \<and>
      (\<forall>i<length xs. stdin_buffer s ! nat ((start_point s + int i) mod 256) = xs ! i))"

lemma cmod_nonneg: "0 \<le> a \<Longrightarrow> cmod a 256 = a mod 256"
  by (cases "a = 0") (simp_all add: cmod_def minus_mult_div_eq_mod)

lemma typed_range: "typed s xs \<Longrightarrow> 0 \<le> end_point s \<and> end_point s < 256"
  by (simp add: typed_def)

lemma mod_256_cancel:
  fixes a i j :: int
  assumes "(a + i) mod 256 = (a + j) mod 256" and "0 \<le> i" "i < 256" "0 \<le> j" "j < 256"
  shows "i = j"
proof -
  have "(a + i - a) mod 256 = (a + j - a) mod 256" by (rule mod_diff_cong[OF assms(1) refl])
  then show ?thesis using assms(2-5) by simp
qed

lemma mod_256_Suc: "((a::int) + int n) mod 256 = (a mod 256 + int n) mod 256"
  by (simp add: mod_add_left_eq)

lemma typed_next:
  assumes "typed s xs"
  shows "cmod (end_point s + 1) 256 = (start_point s + int (Suc (length xs))) mod 256"
proof -
  have "cmod (end_point s + 1) 256 = ((start_point s + int (length xs)) mod 256 + 1) mod 256"
    using assms typed_range[OF assms] by (simp add: cmod_nonneg typed_def)
  also have "\<dots> = (start_point s + int (Suc (length xs))) mod 256"
    unfolding mod_add_left_eq by (simp add: ac_simps)
  finally show ?thesis .
qed

lemma typed_cancel:
  assumes "typed s xs" and "i < 256" and "j < 256"
  shows "(start_point s + int i) mod 256 = (start_point s + int j) mod 256 \<longleftrightarrow> i = j"
  using mod_256_cancel[of "start_point s" "int i" "int j"] assms(2,3) by auto

lemma typed_start: "typed s xs \<Longrightarrow> start_point s = (start_point s + int 0) mod 256"
  by (simp add: typed_def)

lemma typed_full:
  assumes "typed s xs"
  shows "cmod (end_point s + 1) 256 = start_point s \<longleftrightarrow> length xs = 255"
proof (cases "length xs = 255")
  case True
  then show ?thesis using assms unfolding typed_next[OF assms] by (simp add: typed_def)
next
  case False
  then have "Suc (length xs) < 256" using assms by (simp add: typed_def)
  from typed_cancel[OF assms this, of 0] typed_start[OF assms] False show ?thesis
    unfolding typed_next[OF assms] by simp
qed

lemma typed_empty: "typed s xs \<Longrightarrow> end_point s = start_point s \<longleftrightarrow> xs = []"
  using typed_cancel[of s xs "length xs" 0] typed_start[of s xs] by (simp add: typed_def)

text \<open>The two ends of the ring.\<close>

definition ring_put :: "char \<Rightarrow> stdin \<Rightarrow> stdin" where
  "ring_put c s = s\<lparr>stdin_buffer := (stdin_buffer s)[nat (end_point s) := c],
     end_point := cmod (end_point s + 1) STDIN_BUFFER_SIZE\<rparr>"

definition ring_take :: "stdin \<Rightarrow> char \<times> stdin" where
  "ring_take s = (stdin_buffer s ! nat (start_point s),
     s\<lparr>start_point := cmod (start_point s + 1) STDIN_BUFFER_SIZE\<rparr>)"

lemma nat_mod_eq: "nat (a mod 256) = nat (b mod 256) \<longleftrightarrow> a mod 256 = b mod (256::int)"
  by (simp add: nat_eq_iff)

lemma ring_put_typed:
  assumes "typed s xs" and "length xs < 255"
  shows "typed (ring_put c s) (xs @ [c])"
proof -
  let ?f = "\<lambda>i. nat ((start_point s + int i) mod 256)"
  have e: "nat (end_point s) = ?f (length xs)" using assms(1) by (simp add: typed_def)
  have ne: "?f i \<noteq> ?f (length xs)" if "i < length xs" for i
    using typed_cancel[OF assms(1), of i "length xs"] that assms(2) by (simp add: nat_mod_eq)
  have "?f (length xs) < 256" by (simp add: nat_less_iff)
  then have "(stdin_buffer s)[nat (end_point s) := c] ! ?f i = (xs @ [c]) ! i" if "i < Suc (length xs)" for i
    using assms(1) that ne[of i] unfolding e
    by (cases "i = length xs") (simp_all add: typed_def nth_append)
  then show ?thesis
    using assms typed_next[OF assms(1)] by (simp add: typed_def ring_put_def)
qed

lemma ring_take_typed:
  assumes "typed s (x # xs)"
  shows "\<exists>s'. ring_take s = (x, s') \<and> typed s' xs"
proof -
  have x: "stdin_buffer s ! nat (start_point s) = x"
    using assms typed_start[OF assms] by (auto simp: typed_def)
  have st: "cmod (start_point s + 1) 256 = (start_point s + 1) mod 256"
    using assms by (simp add: cmod_nonneg typed_def)
  have sh: "((start_point s + 1) mod 256 + int i) mod 256 = (start_point s + int (Suc i)) mod 256" for i
    unfolding mod_add_left_eq by (simp add: ac_simps)
  have "typed (s\<lparr>start_point := (start_point s + 1) mod 256\<rparr>) xs"
    using assms sh[of "length xs"] by (auto simp: typed_def sh)
  then show ?thesis using x st by (simp add: ring_take_def)
qed

interpretation stdin_ring: fifo typed "\<lambda>xs x. length xs < 255" ring_put ring_take
  by unfold_locales (rule ring_put_typed ring_take_typed; assumption)+

lemma typed_read:
  assumes "typed s (x # xs)"
  shows "rdi (stdin_buffer s) (start_point s) = Inr x"
    and "s\<lparr>start_point := cmod (start_point s + 1) STDIN_BUFFER_SIZE\<rparr> = snd (ring_take s)"
  using stdin_ring.deq_fst[OF assms] assms by (auto simp: ring_take_def rdi_def rd_def typed_def)

lemma ring_take_fields [simp]:
  "input_count (snd (ring_take s)) = input_count s" "stdin_buffer (snd (ring_take s)) = stdin_buffer s"
  by (simp_all add: ring_take_def)

lemma ring_put_fields [simp]:
  "input_count (ring_put c s) = input_count s" "start_point (ring_put c s) = start_point s"
  by (simp_all add: ring_put_def)

lemma typed_count [simp]: "typed (s\<lparr>input_count := n\<rparr>) xs = typed s xs"
  by (simp add: typed_def)

section \<open>Typing\<close>

lemma add_plain:
  assumes "typed s xs" and "length xs < 255" and "c \<notin> {BS, LF, EOT}"
  shows "add_char c (s, sch) = Inr (1, ring_put c s, sch)"
proof -
  have "cmod (end_point s + 1) 256 \<noteq> start_point s" using typed_full[OF assms(1)] assms(2) by simp
  then show ?thesis
    using assms typed_range[OF assms(1)]
    by (auto simp: add_char_def ring_put_def wri_def wr_def typed_def Let_def)
qed

lemma add_end_of_input:
  assumes "typed s xs" and "length xs < 255" and "c \<in> {LF, EOT}" and "notify_stdin sch = Inr sch'"
  shows "add_char c (s, sch) = Inr (1, (ring_put c s)\<lparr>input_count := input_count s + 1\<rparr>, sch')"
proof -
  have "cmod (end_point s + 1) 256 \<noteq> start_point s" using typed_full[OF assms(1)] assms(2) by simp
  then show ?thesis
    using assms typed_range[OF assms(1)]
    by (auto simp: add_char_def ring_put_def wri_def wr_def typed_def Let_def)
qed

lemma add_backspace:
  assumes "typed s (xs @ [x])" and "length xs < 254" and "0 < end_point s"
  shows "\<exists>s'. add_char BS (s, sch) = Inr (1, s', sch) \<and> typed s' xs \<and>
    input_count s' = input_count s \<and> start_point s' = start_point s"
proof -
  let ?s = "s\<lparr>end_point := cmod (end_point s - 1) STDIN_BUFFER_SIZE\<rparr>"
  have "cmod (end_point s + 1) 256 \<noteq> start_point s" "end_point s \<noteq> start_point s"
    using typed_full[OF assms(1)] typed_empty[OF assms(1)] assms(2) by simp_all
  then have "add_char BS (s, sch) = Inr (1, ?s, sch)" by (simp add: add_char_def)
  moreover have "cmod (end_point s - 1) 256 = (start_point s + int (length xs)) mod 256"
  proof -
    have e: "end_point s = (start_point s + int (Suc (length xs))) mod 256"
      using assms(1) by (simp add: typed_def)
    have "cmod (end_point s - 1) 256 = ((start_point s + int (Suc (length xs))) mod 256 - 1) mod 256"
      unfolding e[symmetric] using assms(3) by (simp add: cmod_nonneg)
    also have "\<dots> = (start_point s + int (length xs)) mod 256"
      unfolding mod_diff_left_eq by simp
    finally show ?thesis .
  qed
  then have "typed ?s xs" using assms(1) by (auto simp: typed_def nth_append)
  ultimately show ?thesis by auto
qed

lemma add_backspace_empty:
  assumes "typed s []"
  shows "add_char BS (s, sch) = Inr (0, s, sch)"
  using typed_full[OF assms] typed_empty[OF assms] by (simp add: add_char_def)

text \<open>Typing a text, and the line that is left of it after its backspaces.\<close>

fun add_chars :: "string \<Rightarrow> stdin \<times> sched \<Rightarrow> (stdin \<times> sched) result" where
  "add_chars [] st = Inr st"
| "add_chars (c # cs) st = bindr (add_char c st) (\<lambda>(_, st'). add_chars cs st')"

definition edit_step :: "string \<Rightarrow> char \<Rightarrow> string" where
  "edit_step acc c = (if c = BS then butlast acc else acc @ [c])"

definition edited :: "string \<Rightarrow> string \<Rightarrow> string" where
  "edited acc cs = foldl edit_step acc cs"

lemma length_edited: "length (edited [] cs) \<le> length cs"
proof (induction cs rule: rev_induct)
  case (snoc c cs)
  then show ?case by (simp add: edited_def edit_step_def le_diff_conv)
qed (simp add: edited_def)

lemma set_edited: "set (edited acc cs) \<subseteq> set acc \<union> set cs"
proof (induction cs arbitrary: acc)
  case (Cons c cs)
  show ?case using Cons[of "edit_step acc c"]
    by (auto simp: edited_def edit_step_def split: if_splits dest: in_set_butlastD)
qed (simp add: edited_def)

lemma add_chars_append: "add_chars (a @ b) st = bindr (add_chars a st) (add_chars b)"
  by (induction a arbitrary: st) (auto simp: bindr_def split: sum.split)

lemma length_edit_step: "length (edit_step acc c) \<le> Suc (length acc)"
  by (cases acc) (simp_all add: edit_step_def)

lemma add_chars_edit:
  assumes "typed s xs" and "set cs \<inter> {LF, EOT} = {}"
    and "start_point s + int (length xs + length cs) < 255"
  shows "\<exists>s'. add_chars cs (s, sch) = Inr (s', sch) \<and> typed s' (edited xs cs) \<and>
    input_count s' = input_count s \<and> start_point s' = start_point s"
  using assms
proof (induction cs arbitrary: s xs)
  case Nil
  then show ?case by (simp add: edited_def)
next
  case (Cons c cs)
  have p: "0 \<le> start_point s" "length xs < 254" using Cons.prems(1,3) by (auto simp: typed_def)
  have "\<exists>r s1. add_char c (s, sch) = Inr (r, s1, sch) \<and> typed s1 (edit_step xs c) \<and>
    input_count s1 = input_count s \<and> start_point s1 = start_point s"
  proof (cases "c = BS")
    case False
    then have "add_char c (s, sch) = Inr (1, ring_put c s, sch)"
      using Cons.prems p(2) by (intro add_plain[of s xs]) auto
    moreover have "typed (ring_put c s) (edit_step xs c)"
      using Cons.prems(1) p(2) False stdin_ring.enq_repr by (simp add: edit_step_def)
    ultimately show ?thesis by auto
  next
    case True
    show ?thesis
    proof (cases xs rule: rev_cases)
      case Nil
      with True Cons.prems(1) show ?thesis by (simp add: add_backspace_empty edit_step_def)
    next
      case (snoc ys y)
      have "end_point s = start_point s + int (length xs)"
        using Cons.prems(1,3) by (simp add: typed_def)
      then have "0 < end_point s" using p snoc by simp
      from add_backspace[OF Cons.prems(1)[unfolded snoc] _ this, of sch] p(2) snoc True show ?thesis
        by (auto simp: edit_step_def)
    qed
  qed
  then obtain r s1 where s1: "add_char c (s, sch) = Inr (r, s1, sch)" "typed s1 (edit_step xs c)"
      "input_count s1 = input_count s" "start_point s1 = start_point s" by blast
  have "start_point s1 + int (length (edit_step xs c) + length cs) < 255"
    using Cons.prems(3) s1(4) length_edit_step[of xs c] by simp
  from Cons.IH[OF s1(2) _ this] Cons.prems(2) s1 show ?case by (auto simp: edited_def)
qed

section \<open>Reading a line\<close>

lemma copy_line_whole:
  assumes "typed s (l @ LF # rest)" and "LF \<notin> set l" and "i + length l < length buffer"
    and "int (i + length l) < sz"
  shows "\<exists>s'. copy_line i sz s buffer = Inr (Inr (i + length l, s', splice buffer i l)) \<and>
    typed s' (LF # rest) \<and> input_count s' = input_count s"
  using assms
proof (induction l arbitrary: i s buffer)
  case Nil
  then show ?case using typed_read(1)[of s LF rest] by (subst copy_line.simps) simp
next
  case (Cons c l)
  have t: "typed s (c # l @ LF # rest)" using Cons.prems(1) by simp
  obtain s1 where s1: "ring_take s = (c, s1)" "typed s1 (l @ LF # rest)"
    using stdin_ring.deq_repr[OF t] by blast
  have "\<exists>s'. copy_line (Suc i) sz s1 (buffer[i := c]) = Inr (Inr (Suc i + length l, s', splice (buffer[i := c]) (Suc i) l)) \<and>
      typed s' (LF # rest) \<and> input_count s' = input_count s1"
    using Cons.prems by (intro Cons.IH s1(2)) simp_all
  then obtain s' where s': "copy_line (Suc i) sz s1 (buffer[i := c]) =
        Inr (Inr (Suc i + length l, s', splice (buffer[i := c]) (Suc i) l))"
      "typed s' (LF # rest)" "input_count s' = input_count s1" by blast
  have "splice (buffer[i := c]) (Suc i) l = splice buffer i (c # l)"
    using Cons.prems(3) by (simp add: splice_def take_Suc_conv_app_nth)
  moreover have "c \<noteq> LF" "int i \<noteq> sz - 1" using Cons.prems(2,4) by auto
  then have "copy_line i sz s buffer = copy_line (Suc i) sz s1 (buffer[i := c])"
    using Cons.prems(3) typed_read[OF t] s1(1) by (subst copy_line.simps) (simp add: Let_def)
  moreover have "input_count s1 = input_count s" using ring_take_fields(1)[of s] s1(1) by simp
  ultimately show ?case using s' by auto
qed

lemma copy_line_cut:
  assumes "typed s (l @ rest)" and "LF \<notin> set l" and "i + length l \<le> length buffer" and "l \<noteq> []"
    and "int (i + length l) = sz"
  shows "\<exists>s'. copy_line i sz s buffer = Inr (Inl (sz, s', splice buffer i (butlast l @ [NUL]))) \<and>
    typed s' rest \<and> input_count s' = input_count s"
  using assms
proof (induction l arbitrary: i s buffer)
  case Nil
  then show ?case by simp
next
  case (Cons c l)
  have t: "typed s (c # l @ rest)" using Cons.prems(1) by simp
  obtain s1 where s1: "ring_take s = (c, s1)" "typed s1 (l @ rest)"
    using stdin_ring.deq_repr[OF t] by blast
  have n: "input_count s1 = input_count s" using ring_take_fields(1)[of s] s1(1) by simp
  show ?case
  proof (cases "l = []")
    case True
    have "splice buffer i [NUL] = buffer[i := NUL]"
      using Cons.prems(3) by (simp add: splice_def upd_conv_take_nth_drop)
    then show ?thesis
      using True Cons.prems typed_read[OF t] s1 n by (subst copy_line.simps) (simp add: Let_def)
  next
    case False
    have "\<exists>s'. copy_line (Suc i) sz s1 (buffer[i := c]) =
        Inr (Inl (sz, s', splice (buffer[i := c]) (Suc i) (butlast l @ [NUL]))) \<and>
        typed s' rest \<and> input_count s' = input_count s1"
      using Cons.prems False by (intro Cons.IH s1(2)) simp_all
    then obtain s' where s': "copy_line (Suc i) sz s1 (buffer[i := c]) =
        Inr (Inl (sz, s', splice (buffer[i := c]) (Suc i) (butlast l @ [NUL])))"
        "typed s' rest" "input_count s' = input_count s1" by blast
    have "splice (buffer[i := c]) (Suc i) (butlast l @ [NUL]) = splice buffer i (butlast (c # l) @ [NUL])"
      using Cons.prems(3) False by (simp add: splice_def take_Suc_conv_app_nth)
    moreover have "c \<noteq> LF" "int i \<noteq> sz - 1" using Cons.prems(2,5) False by auto
    then have "copy_line i sz s buffer = copy_line (Suc i) sz s1 (buffer[i := c])"
      using Cons.prems typed_read[OF t] s1(1) by (subst copy_line.simps) (simp add: Let_def)
    ultimately show ?thesis using s' n by auto
  qed
qed

lemma head_not_EOT: "typed s (l @ c # rest) \<Longrightarrow> EOT \<notin> set l \<Longrightarrow> c \<noteq> EOT \<Longrightarrow>
    \<exists>x. rdi (stdin_buffer s) (start_point s) = Inr x \<and> x \<noteq> EOT"
  using typed_read(1)[of s c rest] typed_read(1)[of s "hd l" "tl l @ c # rest"] by (cases l) auto

lemma copy_input_line:
  assumes "typed s (l @ LF # rest)" and "set l \<inter> {LF, EOT} = {}" and "length l + 2 \<le> length buffer"
    and "int (length l) < sz"
  shows "\<exists>s'. copy_input buffer sz s = Inr (int (length l) + 1, s', splice buffer 0 (l @ [LF, NUL])) \<and>
    typed s' rest \<and> input_count s' = input_count s - 1"
proof -
  obtain x where x: "rdi (stdin_buffer s) (start_point s) = Inr x" "x \<noteq> EOT"
    using head_not_EOT[OF assms(1)] assms(2) by auto
  from copy_line_whole[OF assms(1), of 0 buffer sz] assms(2-4) obtain s1 where
    s1: "copy_line 0 sz s buffer = Inr (Inr (length l, s1, splice buffer 0 l))" "typed s1 (LF # rest)"
      "input_count s1 = input_count s" by auto
  obtain s2 where s2: "ring_take s1 = (LF, s2)" "typed s2 rest" using stdin_ring.deq_repr[OF s1(2)] by blast
  have "input_count s2 = input_count s" using ring_take_fields(1)[of s1] s2(1) s1(3) by simp
  moreover note s1(3)
  moreover have "(splice buffer 0 l)[length l := LF, Suc (length l) := NUL] = splice buffer 0 (l @ [LF, NUL])"
  proof -
    have "drop (length l) buffer = buffer ! length l # buffer ! Suc (length l) # drop (Suc (Suc (length l))) buffer"
      using assms(3) by (simp add: Cons_nth_drop_Suc)
    then show ?thesis by (simp add: splice_def list_update_append)
  qed
  moreover have "length (splice buffer 0 l) = length buffer" using assms(3) by (simp add: splice_def)
  ultimately show ?thesis
    using x s1(1) s2 typed_read(2)[OF s1(2)] assms(3) by (simp add: copy_input_def wr_def)
qed


lemma copy_input_cut:
  assumes "typed s (l @ rest)" and "set l \<inter> {LF, EOT} = {}" and "l \<noteq> []" and "length l \<le> length buffer"
  shows "\<exists>s'. copy_input buffer (int (length l)) s =
      Inr (int (length l), s', splice buffer 0 (butlast l @ [NUL])) \<and>
    typed s' rest \<and> input_count s' = input_count s"
proof -
  obtain c l' where l: "l = c # l'" using assms(3) by (cases l) auto
  have "rdi (stdin_buffer s) (start_point s) = Inr c" "c \<noteq> EOT"
    using typed_read(1)[of s c "l' @ rest"] assms(1,2) l by auto
  with copy_line_cut[OF assms(1), of 0 buffer "int (length l)"] assms(2-4) show ?thesis
    by (auto simp: copy_input_def)
qed

section \<open>Properties\<close>

definition empty_stdin :: stdin where
  "empty_stdin = \<lparr>stdin_buffer = replicate 256 NUL, start_point = 0, end_point = 0, input_count = 0\<rparr>"

lemma empty_stdin_typed: "typed empty_stdin []"
  by (simp add: empty_stdin_def typed_def)

text \<open>Plain characters are appended, also around the end of the ring.\<close>

lemma add_chars_plain:
  assumes "typed s xs" and "set cs \<inter> {LF, EOT, BS} = {}" and "length xs + length cs \<le> 255"
  shows "\<exists>s'. add_chars cs (s, sch) = Inr (s', sch) \<and> typed s' (xs @ cs) \<and> input_count s' = input_count s"
  using assms
proof (induction cs arbitrary: s xs)
  case (Cons c cs)
  have l: "length xs < 255" using Cons.prems(3) by simp
  have "add_char c (s, sch) = Inr (1, ring_put c s, sch)"
    using Cons.prems(1,2) l by (intro add_plain[of s xs]) auto
  moreover have "\<exists>s'. add_chars cs (ring_put c s, sch) = Inr (s', sch) \<and> typed s' ((xs @ [c]) @ cs) \<and>
      input_count s' = input_count (ring_put c s)"
    using Cons.prems by (intro Cons.IH stdin_ring.enq_repr l) simp_all
  ultimately show ?case by simp
qed simp

text \<open>What a typed line does to the ring, and what is left of it when the line has been read.\<close>

lemma typed_line_read:
  assumes "typed s []" and "input_count s = 0" and "sched_ok sch q"
    and "set cs \<inter> {LF, EOT} = {}" and "set rest \<inter> {LF, EOT, BS} = {}" and "start_point s + int (length cs) < 255" and "length cs + length rest < 255"
    and "l = edited [] cs" and "length l + 2 \<le> length buffer" and "int (length l) < sz"
  shows "\<exists>s1 s2 sch1. add_chars (cs @ [LF] @ rest) (s, sch) = Inr (s1, sch1) \<and> buffer_is_ready s1 \<and>
    sch1 = wake (\<lambda>x. status x = WAITING \<and> waiting_on_stdin x)
      (\<lambda>x. x\<lparr>waiting_on_stdin := False, status := RUNNING\<rparr>) q sch \<and>
    copy_input buffer sz s1 = Inr (int (length l) + 1, s2, splice buffer 0 (l @ [LF, NUL])) \<and>
    typed s2 rest \<and> \<not> buffer_is_ready s2"
proof -
  obtain s' where s': "add_chars cs (s, sch) = Inr (s', sch)" "typed s' l" "input_count s' = 0" "start_point s' = start_point s"
    using add_chars_edit[OF assms(1,4), of sch] assms(2,6,8) by auto
  let ?sch = "wake (\<lambda>x. status x = WAITING \<and> waiting_on_stdin x)
      (\<lambda>x. x\<lparr>waiting_on_stdin := False, status := RUNNING\<rparr>) q sch"
  let ?s = "(ring_put LF s')\<lparr>input_count := input_count s' + 1\<rparr>"
  have ll: "length l \<le> length cs" unfolding assms(8) by (rule length_edited)
  then have len: "length l < 255" using assms(7) by simp
  have t: "typed ?s (l @ [LF])" using s'(2) len stdin_ring.enq_repr by simp
  have lt: "set l \<inter> {LF, EOT} = {}" using assms(4) set_edited[of "[]" cs] unfolding assms(8) by auto
  have line: "add_chars (cs @ [LF]) (s, sch) = Inr (?s, ?sch)"
    using s'(1) add_end_of_input[OF s'(2) len, of LF sch] notify_wakes(1)[OF assms(3)]
    by (simp add: add_chars_append)
  have room: "length (l @ [LF]) + length rest \<le> 255" using assms(7) ll by simp
  obtain s1 where s1: "add_chars rest (?s, ?sch) = Inr (s1, ?sch)" "typed s1 (l @ LF # rest)" "input_count s1 = 1"
    using add_chars_plain[OF t assms(5) room, of ?sch] s'(3) by auto
  from copy_input_line[OF s1(2) lt assms(9,10)] obtain s2 where
    s2: "copy_input buffer sz s1 = Inr (int (length l) + 1, s2, splice buffer 0 (l @ [LF, NUL]))"
      "typed s2 rest" "input_count s2 = 0" using s1(3) by auto
  have "add_chars (cs @ [LF] @ rest) (s, sch) = Inr (s1, ?sch)"
    using line s1(1) add_chars_append[of "cs @ [LF]" rest "(s, sch)"] by simp
  with s2 s1(3) show ?thesis by (auto simp: buffer_is_ready_def)
qed

text \<open>
  C36: a line that is typed, with corrections by backspace, is what a reader gets. After the return
  key the readers that wait for input are runnable and the buffer is ready; when the reader comes, more characters (the
  beginning of the next line) may have been typed. \<^verbatim>\<open>copy_input\<close> stores the edited line with its line feed and a terminator, returns
  its length, and leaves the rest, the characters typed after the line, in the ring; the buffer is not ready any more. (The ring is
  empty at first and has room for all of it, and the line is typed away from the end of the ring, where backspace does not wrap;
  the characters after it are no backspaces.)
\<close>

theorem stdin_line_round_trip:
  assumes "typed s []" and "input_count s = 0" and "sched_ok sch q"
    and "set cs \<inter> {LF, EOT} = {}" and "set rest \<inter> {LF, EOT, BS} = {}" and "start_point s + int (length cs) < 255" and "length cs + length rest < 255"
    and "l = edited [] cs" and "length l + 2 \<le> length buffer" and "int (length l) < sz"
  shows "\<exists>s1 s2 sch1. add_chars (cs @ [LF] @ rest) (s, sch) = Inr (s1, sch1) \<and> buffer_is_ready s1 \<and>
    sch1 = wake (\<lambda>x. status x = WAITING \<and> waiting_on_stdin x)
      (\<lambda>x. x\<lparr>waiting_on_stdin := False, status := RUNNING\<rparr>) q sch \<and>
    copy_input buffer sz s1 = Inr (int (length l) + 1, s2, splice buffer 0 (l @ [LF, NUL])) \<and>
    typed s2 rest \<and> \<not> buffer_is_ready s2"
  using assms by (rule typed_line_read)

theorem stdin_line_round_trip_witness:
  "\<exists>s1 s2 sch1. add_chars ([CHR ''l'', CHR ''a'', BS, CHR ''s''] @ [LF] @ ''cd'') (empty_stdin, two_blocks READY) = Inr (s1, sch1) \<and>
     copy_input (replicate 10 NUL) 10 s1 = Inr (3, s2, splice (replicate 10 NUL) 0 (''ls'' @ [LF, NUL])) \<and> typed s2 ''cd''"
  using stdin_line_round_trip[OF empty_stdin_typed _ two_blocks_ok, of "[CHR ''l'', CHR ''a'', BS, CHR ''s'']" "''cd''"
      "''ls''" "replicate 10 NUL" 10 READY]
  by (auto simp: edited_def edit_step_def empty_stdin_def)

text \<open>
  A reader whose buffer is shorter than the line gets all but the last of the characters it asked
  for; that one is overwritten by the terminator and lost, and the number returned counts it.
\<close>

theorem copy_input_truncates:
  assumes "typed s (l @ rest)" and "set l \<inter> {LF, EOT} = {}" and "l \<noteq> []" and "length l \<le> length buffer"
  shows "\<exists>s'. copy_input buffer (int (length l)) s =
      Inr (int (length l), s', splice buffer 0 (butlast l @ [NUL])) \<and>
    typed s' rest \<and> input_count s' = input_count s"
  using assms by (rule copy_input_cut)

theorem copy_input_truncates_witness:
  "\<exists>s'. copy_input (replicate 2 NUL) 2
       \<lparr>stdin_buffer = ''abc'' @ [LF] @ replicate 252 NUL, start_point = 0, end_point = 4, input_count = 1\<rparr> =
     Inr (2, s', [CHR ''a'', NUL]) \<and> typed s' [CHR ''c'', LF]"
proof -
  have "typed \<lparr>stdin_buffer = ''abc'' @ [LF] @ replicate 252 NUL, start_point = 0, end_point = 4, input_count = 1\<rparr>
      (''ab'' @ [CHR ''c'', LF])"
    by (simp add: typed_def numeral_eq_Suc less_Suc_eq all_conj_distrib)
  from copy_input_truncates[OF this, of "replicate 2 NUL"] show ?thesis
    by (auto simp: splice_def numeral_2_eq_2)
qed

text \<open>
  with 255 characters in the ring every further character is dropped, the return key and
  backspace too, although it is echoed: if no line is complete, none ever will be and standard input
  is dead.
\<close>

theorem stdin_full_is_stuck:
  assumes "typed s xs" and "length xs = 255"
  shows "add_chars cs (s, sch) = Inr (s, sch)"
proof (induction cs)
  case Nil
  then show ?case by simp
next
  case (Cons c cs)
  then show ?case using typed_full[OF assms(1)] assms(2) by (simp add: add_char_def)
qed

theorem stdin_full_is_stuck_witness:
  "add_chars [BS, LF] (empty_stdin\<lparr>end_point := 255\<rparr>, two_blocks READY) =
     Inr (empty_stdin\<lparr>end_point := 255\<rparr>, two_blocks READY)"
proof (rule stdin_full_is_stuck)
  show "typed (empty_stdin\<lparr>end_point := 255\<rparr>) (replicate 255 NUL)"
    by (simp add: typed_def empty_stdin_def nat_less_iff)
qed simp

text \<open>
  when the ring has wrapped and the last character is in its last place, a backspace makes
  \<^verbatim>\<open>end_point\<close> -1, because the remainder of a negative number is negative, and the next
  character is written in front of the buffer.
\<close>

theorem backspace_at_wrap_faults:
  assumes "typed s xs" and "xs \<noteq> []" and "length xs < 255" and "end_point s = 0" and "c \<noteq> BS"
  shows "\<exists>s'. add_char BS (s, sch) = Inr (1, s', sch) \<and> end_point s' = - 1 \<and>
    (start_point s' \<noteq> 0 \<longrightarrow> add_char c (s', sch) = Inl Out_Of_Bounds)"
proof -
  have "cmod (end_point s + 1) 256 \<noteq> start_point s" "end_point s \<noteq> start_point s"
    using typed_full[OF assms(1)] typed_empty[OF assms(1)] assms(2,3) by simp_all
  then show ?thesis
    using assms(4,5) by (simp add: add_char_def cmod_def wri_def)
qed

theorem backspace_at_wrap_faults_witness:
  "\<exists>s'. add_char BS (empty_stdin\<lparr>start_point := 250\<rparr>, two_blocks READY) = Inr (1, s', two_blocks READY) \<and>
     add_char (CHR ''a'') (s', two_blocks READY) = Inl Out_Of_Bounds"
proof -
  have t: "typed (empty_stdin\<lparr>start_point := 250\<rparr>) (replicate 6 NUL)"
    by (simp add: typed_def empty_stdin_def nat_less_iff)
  have "start_point s' = 250" if "add_char BS (empty_stdin\<lparr>start_point := 250\<rparr>, sch) = Inr (1, s', sch)"
    for s' :: stdin and sch
    using that by (auto simp: add_char_def empty_stdin_def cmod_def)
  with backspace_at_wrap_faults[OF t, of "CHR ''a''" "two_blocks READY"] show ?thesis
    by (auto simp: empty_stdin_def)
qed

end
