(* ===== verification/Timer.thy ===== *)
theory Timer
  imports Keyboard Process
begin

text \<open>
  The timer interrupt, \<^verbatim>\<open>sys/timer_helpers.c\<close>: the tick counter, the clock of the status
  line and the alarms of sleeping processes.
\<close>

abbreviation (input) PRINT_TICK_DIVIDE :: u64 where "PRINT_TICK_DIVIDE \<equiv> 10"
abbreviation (input) ALARM_TICK_DIVIDE :: u64 where "ALARM_TICK_DIVIDE \<equiv> 3"

record timer =
  clk :: u64
  tick :: u64

section \<open>Operations\<close>

definition char_add :: "char \<Rightarrow> int \<Rightarrow> char" where
  "char_add c i = char_of (nat ((of_char c + i) mod 256))"

definition print_clk :: "int \<Rightarrow> int \<Rightarrow> int \<Rightarrow> char list \<Rightarrow> char list result" where
  "print_clk h m s buff =
     (if length buff < 7 then Inl Out_Of_Bounds
      else Inr (buff[0 := char_add (CHR ''0'') h, 1 := CHR '':'',
                     2 := char_add (CHR ''0'') (m div 10), 3 := char_add (CHR ''0'') (m mod 10),
                     4 := CHR '':'',
                     5 := char_add (CHR ''0'') (s div 10), 6 := char_add (CHR ''0'') (s mod 10)]))"

text \<open>The second component of the result is \<^verbatim>\<open>print_time\<close>. The hours are narrowed to an \<^verbatim>\<open>int\<close>.\<close>

definition tick_count ::
  "timer \<times> char list \<times> sched \<Rightarrow> (bool \<times> timer \<times> char list \<times> sched) result" where
  "tick_count st =
     (case st of (t, buff, sch) \<Rightarrow>
        let t1 = t\<lparr>tick := tick t + 1\<rparr>;
            print_time = (tick t1 mod PRINT_TICK_DIVIDE = 1);
            t2 = if print_time then t1\<lparr>clk := clk t1 + 1\<rparr> else t1
        in bindr (if print_time
                  then print_clk (sint (ucast (clk t2 div 3600) :: i32)) (uint ((clk t2 mod 3600) div 60))
                         (uint (clk t2 mod 60)) buff
                  else Inr buff) (\<lambda>buff1.
             bindr (if tick t2 mod ALARM_TICK_DIVIDE = 1 then notify_alarm (tick t2) sch else Inr sch)
               (\<lambda>sch1. Inr (print_time, t2, buff1, sch1))))"

definition timer_get_clock :: "timer \<Rightarrow> u64" where
  "timer_get_clock t = tick t"

text \<open>\<^verbatim>\<open>put_time_since_boot\<close>: the clock at row 23 and column 56 of the display.\<close>

definition put_time_since_boot ::
  "timer \<times> char list \<times> sched \<times> console \<Rightarrow> (timer \<times> char list \<times> sched \<times> console) result" where
  "put_time_since_boot st =
     (case st of (t, buff, sch, con) \<Rightarrow>
        bindr (tick_count (t, buff, sch)) (\<lambda>(print_time, t1, buff1, sch1).
          if print_time
          then bindr (status_at (160 * 23 + 2 * 56) (cstr buff1) (vram con)) (\<lambda>m.
                 Inr (t1, buff1, sch1, con\<lparr>vram := m\<rparr>))
          else Inr (t1, buff1, sch1, con)))"

fun run_ticks :: "nat \<Rightarrow> timer \<times> char list \<times> sched \<Rightarrow> (timer \<times> char list \<times> sched) result" where
  "run_ticks 0 st = Inr st"
| "run_ticks (Suc n) st = bindr (run_ticks n st) (\<lambda>st'. bindr (tick_count st') (\<lambda>(_, st''). Inr st''))"

section \<open>The clock\<close>

definition clock_text :: "nat \<Rightarrow> string" where
  "clock_text n =
     [char_add (CHR ''0'') (int (n div 3600)), CHR '':'',
      char_add (CHR ''0'') (int (n mod 3600 div 60 div 10)), char_add (CHR ''0'') (int (n mod 3600 div 60 mod 10)),
      CHR '':'', char_add (CHR ''0'') (int (n mod 60 div 10)), char_add (CHR ''0'') (int (n mod 60 mod 10))]"

lemma clock_text_nth [simp]: "length (clock_text n) = 7" "(clock_text n @ [NUL]) ! 7 = NUL"
  by (simp_all add: clock_text_def)

lemma list_of_eight:
  assumes "length xs = 8"
  shows "\<exists>a b c d e f g h. xs = [a, b, c, d, e, f, g, h]"
proof -
  have "length xs = Suc (Suc (Suc (Suc (Suc (Suc (Suc (Suc 0)))))))" using assms by simp
  then show ?thesis by (simp only: length_Suc_conv length_0_conv) blast
qed

lemma second_count: "(Suc n + 9) div 10 = (if Suc n mod 10 = 1 then Suc ((n + 9) div 10) else (n + 9) div 10)"
proof -
  have "Suc (n + 9) mod 10 = n mod 10" using mod_add_self2[of n 10] by simp
  moreover have "Suc n mod 10 = 1 \<longleftrightarrow> n mod 10 = 0" by (simp add: mod_Suc)
  ultimately show ?thesis using div_Suc[of "n + 9" 10] by simp
qed

lemma print_clk_text:
  assumes "length buff = 8" and "buff ! 7 = NUL" and "n < 36000"
    and "ck = (of_nat n :: u64)"
  shows "print_clk (sint (ucast (ck div 3600) :: i32)) (uint ((ck mod 3600) div 60)) (uint (ck mod 60)) buff
     = Inr (clock_text n @ [NUL])"
proof -
  have u: "uint ck = int n"
    unfolding assms(4) using assms(3) by (simp add: unsigned_of_nat take_bit_nat_eq_self uint_nat)
  have h1: "sint (ucast (ck div 3600) :: i32) = int (n div 3600)"
  proof -
    have "uint (ck div 3600) = int (n div 3600)" by (simp add: uint_div_distrib u zdiv_int)
    moreover have "n div 3600 < 2 ^ 31" using assms(3) by simp
    ultimately show ?thesis
      by (simp add: sint_uint unsigned_ucast_eq signed_take_bit_take_bit signed_take_bit_int_eq_self)
  qed
  have h2: "uint ((ck mod 3600) div 60) = int (n mod 3600 div 60)"
    by (simp add: uint_div_distrib uint_mod_distrib u zdiv_int zmod_int)
  have h3: "uint (ck mod 60) = int (n mod 60)" by (simp add: uint_mod_distrib u zmod_int)
  obtain a b c d e f g h where b: "buff = [a, b, c, d, e, f, g, h]"
    using list_of_eight[OF assms(1)] by blast
  have "h = NUL" using assms(2) unfolding b by simp
  then show ?thesis
    unfolding h1 h2 h3 b by (simp add: print_clk_def clock_text_def zdiv_int zmod_int)
qed

lemma tick_mod: "n < 2 ^ 64 \<Longrightarrow> (of_nat n :: u64) mod 10 = 1 \<longleftrightarrow> n mod 10 = 1"
    "n < 2 ^ 64 \<Longrightarrow> (of_nat n :: u64) mod 3 = 1 \<longleftrightarrow> n mod 3 = 1"
  by (simp_all add: word_unat_eq_iff unat_mod_distrib unat_of_nat64)


text \<open>The state after \<open>n\<close> ticks: a second is counted at the ticks 1, 11, 21 and so on.\<close>

definition timer_at :: "nat \<Rightarrow> timer \<Rightarrow> char list \<Rightarrow> bool" where
  "timer_at n t buff =
     (tick t = of_nat n \<and> clk t = of_nat ((n + 9) div 10) \<and> length buff = 8 \<and> buff ! 7 = NUL \<and>
      (0 < n \<longrightarrow> buff = clock_text ((n + 9) div 10) @ [NUL]))"

definition ring_alarms :: "nat \<Rightarrow> u64 list \<Rightarrow> sched \<Rightarrow> sched" where
  "ring_alarms n q sch =
     (if n mod 3 = 1
      then wake (\<lambda>x. status x = WAITING \<and> waiting_on_clock x \<noteq> 0 \<and> waiting_on_clock x \<le> of_nat n)
             (\<lambda>x. x\<lparr>waiting_on_clock := 0, status := RUNNING\<rparr>) q sch
      else sch)"

lemma ring_alarms_ok: "sched_ok sch q \<Longrightarrow> sched_ok (ring_alarms n q sch) q"
  by (simp add: ring_alarms_def wake_ok)

lemma tick_count_eq:
  assumes "tick t + 1 = T" and "clk t + 1 = C"
  shows "tick_count (t, buff, sch) =
    (if T mod 10 = 1
     then bindr (print_clk (sint (ucast (C div 3600) :: i32)) (uint ((C mod 3600) div 60)) (uint (C mod 60)) buff)
            (\<lambda>b. bindr (if T mod 3 = 1 then notify_alarm T sch else Inr sch)
               (\<lambda>sch1. Inr (True, t\<lparr>tick := T, clk := C\<rparr>, b, sch1)))
     else bindr (if T mod 3 = 1 then notify_alarm T sch else Inr sch)
            (\<lambda>sch1. Inr (False, t\<lparr>tick := T\<rparr>, buff, sch1)))"
  using assms by (simp add: tick_count_def Let_def)

lemma tick_count_at:
  assumes "timer_at n t buff" and "n < 359989" and "sched_ok sch q"
  shows "\<exists>t' buff'. tick_count (t, buff, sch) =
      Inr (Suc n mod 10 = 1, t', buff', ring_alarms (Suc n) q sch) \<and> timer_at (Suc n) t' buff'"
proof -
  have n: "Suc n < 2 ^ 64" using assms(2) by simp
  have tk: "tick t + 1 = of_nat (Suc n)" using assms(1) by (simp add: timer_at_def)
  note m = tick_mod[OF n]
  have al: "(if (of_nat (Suc n) :: u64) mod 3 = 1 then notify_alarm (of_nat (Suc n)) sch else Inr sch)
      = Inr (ring_alarms (Suc n) q sch)"
    unfolding m(2) using notify_wakes(3)[OF assms(3)] by (simp add: ring_alarms_def)
  show ?thesis
  proof (cases "Suc n mod 10 = 1")
    case True
    then have d: "(Suc n + 9) div 10 = Suc ((n + 9) div 10)" using second_count[of n] by simp
    let ?t = "t\<lparr>tick := of_nat (Suc n), clk := of_nat ((Suc n + 9) div 10)\<rparr>"
    have c: "clk t + 1 = of_nat ((Suc n + 9) div 10)" using assms(1) d by (simp add: timer_at_def)
    have "(Suc n + 9) div 10 < 36000" using assms(2) by simp
    from print_clk_text[OF _ _ this refl, of buff] assms(1)
    have pc: "print_clk (sint (ucast ((of_nat ((Suc n + 9) div 10) :: u64) div 3600) :: i32))
        (uint (((of_nat ((Suc n + 9) div 10) :: u64) mod 3600) div 60))
        (uint ((of_nat ((Suc n + 9) div 10) :: u64) mod 60)) buff = Inr (clock_text ((Suc n + 9) div 10) @ [NUL])"
      by (simp add: timer_at_def)
    have "tick_count (t, buff, sch) =
        Inr (True, ?t, clock_text ((Suc n + 9) div 10) @ [NUL], ring_alarms (Suc n) q sch)"
      unfolding tick_count_eq[OF tk c] m(1) pc al using True by simp
    moreover have "timer_at (Suc n) ?t (clock_text ((Suc n + 9) div 10) @ [NUL])"
      by (simp add: timer_at_def clock_text_def)
    ultimately show ?thesis using True by auto
  next
    case False
    then have d: "(Suc n + 9) div 10 = (n + 9) div 10" using second_count[of n] by simp
    let ?t = "t\<lparr>tick := of_nat (Suc n)\<rparr>"
    have "tick_count (t, buff, sch) = Inr (False, ?t, buff, ring_alarms (Suc n) q sch)"
      unfolding tick_count_eq[OF tk refl] m(1) al using False by simp
    moreover have "0 < n" using False by (cases n) simp_all
    then have "timer_at (Suc n) ?t buff" using assms(1) d unfolding timer_at_def by (simp del: of_nat_Suc)
    ultimately show ?thesis using False by auto
  qed
qed

fun alarms_of :: "nat \<Rightarrow> nat \<Rightarrow> u64 list \<Rightarrow> sched \<Rightarrow> sched" where
  "alarms_of n 0 q sch = sch"
| "alarms_of n (Suc k) q sch = ring_alarms (n + Suc k) q (alarms_of n k q sch)"

lemma run_ticks_at:
  assumes "timer_at n t buff" and "n + k < 359990" and "sched_ok sch q"
  shows "\<exists>t' buff'. run_ticks k (t, buff, sch) = Inr (t', buff', alarms_of n k q sch) \<and>
    timer_at (n + k) t' buff' \<and> sched_ok (alarms_of n k q sch) q"
  using assms(2)
proof (induction k)
  case 0
  then show ?case using assms(1,3) by simp
next
  case (Suc k)
  then obtain t1 b1 where 1: "run_ticks k (t, buff, sch) = Inr (t1, b1, alarms_of n k q sch)"
      "timer_at (n + k) t1 b1" "sched_ok (alarms_of n k q sch) q" by auto
  have "n + k < 359989" using Suc.prems by simp
  from tick_count_at[OF 1(2) this 1(3)] obtain t2 b2 where
    "tick_count (t1, b1, alarms_of n k q sch) =
      Inr (Suc (n + k) mod 10 = 1, t2, b2, ring_alarms (Suc (n + k)) q (alarms_of n k q sch))"
    "timer_at (Suc (n + k)) t2 b2" by blast
  then show ?case using 1 ring_alarms_ok[OF 1(3)] by simp
qed

text \<open>A sleeping process is woken by the first alarm tick at or after its time.\<close>

lemma ex_up_to_Suc:
  fixes n k :: nat
  shows "(\<exists>j. n < j \<and> j \<le> n + Suc k \<and> w \<le> j \<and> P j) \<longleftrightarrow>
    (\<exists>j. n < j \<and> j \<le> n + k \<and> w \<le> j \<and> P j) \<or> (w \<le> n + Suc k \<and> P (n + Suc k))"
    (is "?L \<longleftrightarrow> ?R")
proof
  assume ?L
  then obtain j where j: "n < j" "j \<le> n + Suc k" "w \<le> j" "P j" by blast
  show ?R
  proof (cases "j = n + Suc k")
    case True
    with j show ?thesis by simp
  next
    case False
    with j(2) have "j \<le> n + k" by simp
    with j show ?thesis by blast
  qed
next
  assume ?R
  then show ?L
  proof
    assume "\<exists>j. n < j \<and> j \<le> n + k \<and> w \<le> j \<and> P j"
    then obtain j where "n < j" "j \<le> n + k" "w \<le> j" "P j" by blast
    then show ?L by (intro exI[of _ j]) simp
  next
    assume "w \<le> n + Suc k \<and> P (n + Suc k)"
    then show ?L by (intro exI[of _ "n + Suc k"]) simp
  qed
qed

lemma alarms_of_process:
  assumes "p \<in> set q" and "pcbs sch p = Some x" and "status x = WAITING"
    and "waiting_on_clock x = of_nat w" and "0 < w" and "w < 2 ^ 64" and "n + k < 2 ^ 64"
  shows "pcbs (alarms_of n k q sch) p =
    Some (if \<exists>j. n < j \<and> j \<le> n + k \<and> w \<le> j \<and> j mod 3 = 1
          then x\<lparr>waiting_on_clock := 0, status := RUNNING\<rparr> else x)"
  using assms(7)
proof (induction k)
  case 0
  have no: "\<not> (\<exists>j. n < j \<and> j \<le> n + 0 \<and> w \<le> j \<and> j mod 3 = 1)"
  proof
    assume "\<exists>j. n < j \<and> j \<le> n + 0 \<and> w \<le> j \<and> j mod 3 = 1"
    then obtain j where "n < j" "j \<le> n" unfolding Nat.add_0_right by blast
    then show False by simp
  qed
  show ?case by (simp only: alarms_of.simps no if_False assms(2))
next
  case (Suc k)
  let ?E = "\<lambda>k. \<exists>j. n < j \<and> j \<le> n + k \<and> w \<le> j \<and> j mod 3 = 1"
  have E: "?E (Suc k) \<longleftrightarrow> ?E k \<or> (w \<le> n + Suc k \<and> (n + Suc k) mod 3 = 1)"
    by (rule ex_up_to_Suc)
  have nz: "(of_nat w :: u64) \<noteq> 0" using assms(5,6) unat_of_nat64[of w] by (metis less_irrefl unat_0)
  have le: "(of_nat w :: u64) \<le> of_nat (n + Suc k) \<longleftrightarrow> w \<le> n + Suc k"
    unfolding word_le_nat_alt unat_of_nat64[OF assms(6)] unat_of_nat64[OF Suc.prems] ..
  have IH: "pcbs (alarms_of n k q sch) p = Some (if ?E k then x\<lparr>waiting_on_clock := 0, status := RUNNING\<rparr> else x)"
    using Suc by simp
  show ?case
    unfolding alarms_of.simps ring_alarms_def E
    using IH assms(1,3,4) nz le by (auto simp: wake_def simp del: of_nat_add of_nat_Suc)
qed

section \<open>Properties\<close>

text \<open>
  after \<open>n\<close> ticks the clock counts \<open>n\<close>, and the buffer of the status line shows
  the elapsed tens of ticks as hours, minutes and seconds (until the hours need a second digit).
\<close>

theorem clock_shows_time:
  assumes "0 < n" and "n < 359990" and "length buff = 8" and "buff ! 7 = NUL" and "sched_ok sch q"
  shows "\<exists>t sch'. run_ticks n (\<lparr>clk = 0, tick = 0\<rparr>, buff, sch) =
      Inr (t, clock_text ((n + 9) div 10) @ [NUL], sch') \<and> timer_get_clock t = of_nat n"
proof -
  have "timer_at 0 \<lparr>clk = 0, tick = 0\<rparr> buff" using assms(3,4) by (simp add: timer_at_def)
  from run_ticks_at[OF this _ assms(5), of n] assms(1,2) show ?thesis
    by (auto simp: timer_at_def timer_get_clock_def)
qed

theorem clock_shows_time_witness:
  "\<exists>t sch'. run_ticks 36611 (\<lparr>clk = 0, tick = 0\<rparr>, ''0:00:00'' @ [NUL], two_blocks READY) =
     Inr (t, ''1:01:02'' @ [NUL], sch')"
proof -
  have "clock_text 3662 = ''1:01:02''"
    using char_of_char[of "CHR ''0''", where 'a = nat] char_of_char[of "CHR ''1''", where 'a = nat]
      char_of_char[of "CHR ''2''", where 'a = nat]
    by (simp add: clock_text_def char_add_def)
  with clock_shows_time[of 36611 "''0:00:00'' @ [NUL]", OF _ _ _ _ two_blocks_ok[of READY]]
  show ?thesis by auto
qed

text \<open>
  an alarm is at most two ticks late and never early: a process that sleeps until tick \<open>w\<close>
  still waits before tick \<open>w\<close>, and is runnable from tick \<open>w + 2\<close> on.
\<close>

theorem alarm_wakes_in_time:
  assumes "timer_at n t buff" and "n + k < 359990" and "sched_ok sch q"
    and "p \<in> set q" and "pcbs sch p = Some x" and "status x = WAITING"
    and "waiting_on_clock x = of_nat w" and "n < w" and "w < 359990"
  shows "\<exists>t' buff' sch'. run_ticks k (t, buff, sch) = Inr (t', buff', sch') \<and>
    (n + k < w \<longrightarrow> pcbs sch' p = Some x) \<and>
    (w + 2 \<le> n + k \<longrightarrow> pcbs sch' p = Some (x\<lparr>waiting_on_clock := 0, status := RUNNING\<rparr>))"
proof -
  obtain t' buff' where r: "run_ticks k (t, buff, sch) = Inr (t', buff', alarms_of n k q sch)"
    using run_ticks_at[OF assms(1-3)] by blast
  have p: "pcbs (alarms_of n k q sch) p =
    Some (if \<exists>j. n < j \<and> j \<le> n + k \<and> w \<le> j \<and> j mod 3 = 1
          then x\<lparr>waiting_on_clock := 0, status := RUNNING\<rparr> else x)"
    using assms(2,8,9) by (intro alarms_of_process[OF assms(4-7)]) simp_all
  have "\<exists>j. n < j \<and> j \<le> n + k \<and> w \<le> j \<and> j mod 3 = 1" if "w + 2 \<le> n + k"
  proof -
    have "w mod 3 = 1 \<or> (w + 1) mod 3 = 1 \<or> (w + 2) mod 3 = 1" by presburger
    then show ?thesis
    proof (elim disjE)
      assume "w mod 3 = 1"
      then show ?thesis using that assms(8) by (intro exI[of _ w]) simp
    next
      assume "(w + 1) mod 3 = 1"
      then show ?thesis using that assms(8) by (intro exI[of _ "w + 1"]) simp
    next
      assume "(w + 2) mod 3 = 1"
      then show ?thesis using that assms(8) by (intro exI[of _ "w + 2"]) simp
    qed
  qed
  with r p show ?thesis by auto
qed

theorem alarm_wakes_in_time_witness:
  "\<exists>t' buff' sch'. run_ticks 12 (\<lparr>clk = 0, tick = 0\<rparr>, ''0:00:00'' @ [NUL],
       put_pcb 0x2000 (blank_pcb\<lparr>status := WAITING, waiting_on_clock := 10\<rparr>) (two_blocks READY)) =
     Inr (t', buff', sch') \<and> runnable sch' 0x2000"
proof -
  let ?x = "blank_pcb\<lparr>status := WAITING, waiting_on_clock := 10\<rparr>"
  have t: "timer_at 0 \<lparr>clk = 0, tick = 0\<rparr> (''0:00:00'' @ [NUL])" by (simp add: timer_at_def)
  have "pcbs (put_pcb 0x2000 ?x (two_blocks READY)) 0x2000 = Some ?x" by (simp add: put_pcb_def)
  from alarm_wakes_in_time[OF t _ sched_ok_put[OF two_blocks_ok] _ this, of 12 10] show ?thesis
    by (auto simp: has_status_def)
qed

end
