(* ===== verification/Tarfs.thy ===== *)
theory Tarfs
  imports Process
begin

text \<open>
  The read-only file system in the kernel image, \<^verbatim>\<open>sys/tarfs.c\<close> and \<^verbatim>\<open>check_elf\<close> of
  \<^verbatim>\<open>sys/exec.c\<close>: a tar archive between \<^verbatim>\<open>_tar_start\<close> and \<^verbatim>\<open>_tar_end\<close>, searched
  linearly for each operation. Addresses are 64-bit words; an access outside the archive is
  \<open>Out_Of_Bounds\<close>. Loading a program needs the memory and is not part of this theory.
\<close>

abbreviation (input) LF :: char where "LF \<equiv> CHR 0x0A"

record tarfs =
  tar_start :: u64
  tar_end :: u64
  archive :: "char list"

abbreviation (input) NAME_MAX :: int where "NAME_MAX \<equiv> 255"

text \<open>\<^verbatim>\<open>sizeof(tarfs_header)\<close>, and the offset of \<^verbatim>\<open>size\<close> in it.\<close>

abbreviation (input) HEADER_SIZE :: u64 where "HEADER_SIZE \<equiv> 512"
abbreviation (input) SIZE_FIELD :: u64 where "SIZE_FIELD \<equiv> 124"

record dirent =
  d_ino :: int
  d_off :: int
  d_reclen :: nat
  d_name :: "char list"

section \<open>Operations\<close>

text \<open>The bytes from an address to the end of the archive.\<close>

definition bytes_at :: "tarfs \<Rightarrow> u64 \<Rightarrow> char list result" where
  "bytes_at fs a =
     (if tar_start fs \<le> a \<and> a < tar_end fs then Inr (drop (unat (a - tar_start fs)) (archive fs))
      else Inl Out_Of_Bounds)"

fun tar_size_loop :: "nat \<Rightarrow> char list \<Rightarrow> u64 \<Rightarrow> u64 result" where
  "tar_size_loop 0 s res = Inr res"
| "tar_size_loop (Suc n) [] res = Inl Out_Of_Bounds"
| "tar_size_loop (Suc n) (c # s) res = tar_size_loop n s (res * 8 + (word_of_int (schar c) - 0x30))"

definition tar_size :: "char list \<Rightarrow> u64 result" where
  "tar_size s = tar_size_loop 11 s 0"

definition tar_size_roundup :: "u64 \<Rightarrow> u64" where
  "tar_size_roundup sz = (if sz = 0 then 0 else 512 - sz mod 512)"

definition init_tarfs :: "u64 \<Rightarrow> u64 \<Rightarrow> tarfs \<Rightarrow> tarfs" where
  "init_tarfs s e fs = fs\<lparr>tar_start := s, tar_end := e\<rparr>"

text \<open>
  All the searches are one loop over the headers. \<open>visit p size\<close> is the part between computing the
  size and the next header; it returns \<open>Some r\<close> for \<^verbatim>\<open>return r\<close>. The offset is a 64-bit sum
  that a bad size field can wrap, so the loop need not end.
\<close>

partial_function (option) tar_loop ::
  "tarfs \<Rightarrow> (u64 \<Rightarrow> u64 \<Rightarrow> 's \<Rightarrow> ('r option \<times> 's) result) \<Rightarrow> u64 \<Rightarrow> 's \<Rightarrow> ('r option \<times> 's) result option" where
  "tar_loop fs visit offset st =
     (if \<not> (tar_start fs + offset < tar_end fs) then Some (Inr (None, st))
      else
        (let p = tar_start fs + offset
         in case bindr (bytes_at fs (p + SIZE_FIELD)) tar_size of
              Inl e \<Rightarrow> Some (Inl e)
            | Inr sz \<Rightarrow>
                (case visit p sz st of
                   Inl e \<Rightarrow> Some (Inl e)
                 | Inr (Some r, st') \<Rightarrow> Some (Inr (Some r, st'))
                 | Inr (None, st') \<Rightarrow> tar_loop fs visit (offset + (sz + HEADER_SIZE + tar_size_roundup sz)) st')))"

text \<open>The two tests of the searches by name; \<open>found\<close> is the code under the second one.\<close>

definition by_name ::
  "tarfs \<Rightarrow> char list \<Rightarrow> 'r \<Rightarrow> (u64 \<Rightarrow> u64 \<Rightarrow> 's \<Rightarrow> ('r \<times> 's) result) \<Rightarrow> u64 \<Rightarrow> u64 \<Rightarrow> 's \<Rightarrow> ('r option \<times> 's) result" where
  "by_name fs path none found p sz st =
     bindr (bytes_at fs p) (\<lambda>name.
       bindr (kstrlen name) (\<lambda>l.
         if l = 0 then Inr (Some none, st)
         else bindr (kstrcmp name (drop 1 path)) (\<lambda>c.
                if c = 0 then bindr (found p sz st) (\<lambda>(r, st'). Inr (Some r, st')) else Inr (None, st))))"

text \<open>The result of a search is that of the first \<^verbatim>\<open>return\<close>, or \<open>none\<close> after the loop.\<close>

definition tar_search ::
  "tarfs \<Rightarrow> char list \<Rightarrow> 'r \<Rightarrow> (u64 \<Rightarrow> u64 \<Rightarrow> 's \<Rightarrow> ('r \<times> 's) result) \<Rightarrow> 's \<Rightarrow> ('r \<times> 's) result option" where
  "tar_search fs path none found st =
     map_option (\<lambda>r. bindr r (\<lambda>(o', st'). Inr (case o' of Some x \<Rightarrow> x | None \<Rightarrow> none, st')))
       (tar_loop fs (by_name fs path none found) 0 st)"

definition elf_byte :: "tarfs \<Rightarrow> u64 \<Rightarrow> nat \<Rightarrow> char result" where
  "elf_byte fs hdr i = bindr (bytes_at fs hdr) (\<lambda>b. rd b i)"

definition check_elf :: "tarfs \<Rightarrow> u64 \<Rightarrow> int result" where
  "check_elf fs hdr =
     (if hdr = 0 then Inr 0
      else bindr (elf_byte fs hdr 0) (\<lambda>c0. if c0 \<noteq> CHR 0x7F then Inr 0
      else bindr (elf_byte fs hdr 1) (\<lambda>c1. if c1 \<noteq> CHR ''E'' then Inr 0
      else bindr (elf_byte fs hdr 2) (\<lambda>c2. if c2 \<noteq> CHR ''L'' then Inr 0
      else bindr (elf_byte fs hdr 3) (\<lambda>c3. if c3 \<noteq> CHR ''F'' then Inr 0 else Inr 1)))))"

definition search_file_for_exec :: "tarfs \<Rightarrow> char list \<Rightarrow> (int \<times> unit) result option" where
  "search_file_for_exec fs path =
     tar_search fs path 0
       (\<lambda>p sz st. bindr (check_elf fs (p + HEADER_SIZE)) (\<lambda>e. Inr (if e \<noteq> 0 then 1 else 0, st))) ()"

definition search_for_dir :: "tarfs \<Rightarrow> char list \<Rightarrow> (int \<times> unit) result option" where
  "search_for_dir fs path = tar_search fs path 0 (\<lambda>p sz st. Inr (if sz = 0 then 1 else 0, st)) ()"

definition search_file_open :: "tarfs \<Rightarrow> char list \<Rightarrow> (int \<times> unit) result option" where
  "search_file_open fs path = tar_search fs path 0 (\<lambda>p sz st. Inr (if sz = 0 then 0 else 1, st)) ()"

text \<open>
  The descriptor table has 15 entries and \<^verbatim>\<open>next_fd\<close> only grows; storing behind the table is
  \<open>Out_Of_Bounds\<close>.
\<close>

definition alloc_fd :: "u64 \<Rightarrow> u64 \<Rightarrow> pcb \<Rightarrow> (int \<times> pcb) result" where
  "alloc_fd start sz proc =
     (let fd = next_fd proc
      in if fd < length (fd_table proc)
         then Inr (int fd, proc\<lparr>next_fd := fd + 1,
                fd_table := (fd_table proc)[fd := \<lparr>file_start_address = start, file_size = sz, file_offset = 0\<rparr>]\<rparr>)
         else Inl Out_Of_Bounds)"

definition do_open_file :: "tarfs \<Rightarrow> char list \<Rightarrow> pcb \<Rightarrow> (int \<times> pcb) result option" where
  "do_open_file fs abspath proc =
     tar_search fs abspath (- 1) (\<lambda>p sz pr. alloc_fd (p + HEADER_SIZE) sz pr) proc"

definition do_open_dir :: "tarfs \<Rightarrow> char list \<Rightarrow> pcb \<Rightarrow> (int \<times> pcb) result option" where
  "do_open_dir fs abspath proc =
     (case kstrcmp abspath (lit ''/'') of
        Inl e \<Rightarrow> Some (Inl e)
      | Inr c \<Rightarrow>
          if c = 0 then Some (alloc_fd (tar_end fs) 0 proc)
          else tar_search fs abspath (- 1) (\<lambda>p sz pr. alloc_fd p 0 pr) proc)"

text \<open>\<^verbatim>\<open>_fill_dents_by_path\<close>: the loop state is \<^verbatim>\<open>ent_c\<close> and the caller's array.\<close>

function count_slashes :: "char list \<Rightarrow> nat \<Rightarrow> int \<Rightarrow> nat \<Rightarrow> nat result" where
  "count_slashes name i n c =
     (if int i < n then bindr (rd name i) (\<lambda>ch. count_slashes name (Suc i) n (if ch = CHR ''/'' then c + 1 else c))
      else Inr c)"
  by pat_completeness auto
termination by (relation "measure (\<lambda>(name, i, n, c). nat (n - int i))") auto

declare count_slashes.simps [simp del]

definition dents_visit ::
  "tarfs \<Rightarrow> char list \<Rightarrow> nat \<Rightarrow> u64 \<Rightarrow> u64 \<Rightarrow> nat \<times> dirent list \<Rightarrow> (unit option \<times> (nat \<times> dirent list)) result" where
  "dents_visit fs path l p sz st =
     (case st of (ent_c, buffer) \<Rightarrow>
        bindr (bytes_at fs p) (\<lambda>name.
          bindr (kstrlen name) (\<lambda>ll.
            if ll = 0 then Inr (Some (), st)
            else bindr (kstrstartswith name path) (\<lambda>sw.
                   if sw \<noteq> 0
                   then bindr (count_slashes name l (int ll - 1) 0) (\<lambda>c.
                          if c = 0
                          then if ent_c < length buffer
                               then bindr (kstrcpy (d_name (buffer ! ent_c)) 0 (drop l name) NAME_MAX) (\<lambda>(_, nm).
                                      Inr (None, (ent_c + 1,
                                        buffer[ent_c := (buffer ! ent_c)\<lparr>d_ino := int ent_c + 1, d_reclen := 280, d_name := nm\<rparr>])))
                               else Inl Out_Of_Bounds
                          else Inr (None, st))
                   else Inr (None, st)))))"

definition fill_dents_by_path ::
  "tarfs \<Rightarrow> char list \<Rightarrow> dirent list \<Rightarrow> nat \<Rightarrow> dirent list result option" where
  "fill_dents_by_path fs path buffer dir_size =
     (case kstrlen path of
        Inl e \<Rightarrow> Some (Inl e)
      | Inr l \<Rightarrow>
          map_option
            (\<lambda>r. bindr r (\<lambda>(ret, (ent_c, b)).
               if ret = Some () then Inr b
               else for_up ent_c dir_size
                      (\<lambda>i b. if i < length b then Inr (b[i := (b ! i)\<lparr>d_ino := 0\<rparr>]) else Inl Out_Of_Bounds) b))
            (tar_loop fs (dents_visit fs path l) 0 (0, buffer)))"

definition fill_dents :: "tarfs \<Rightarrow> u64 \<Rightarrow> dirent list \<Rightarrow> nat \<Rightarrow> dirent list result option" where
  "fill_dents fs file_start buffer sz =
     (if file_start = tar_end fs then fill_dents_by_path fs (lit []) buffer sz
      else case bytes_at fs file_start of
             Inl e \<Rightarrow> Some (Inl e)
           | Inr name \<Rightarrow> fill_dents_by_path fs name buffer sz)"

text \<open>
  \<^verbatim>\<open>read_to_buffer\<close>. The bound \<^verbatim>\<open>size - 1\<close> wraps for size 0; each turn stores one more
  character, so the loop ends at the end of the buffer at the latest.
\<close>

function read_loop :: "tarfs \<Rightarrow> nat \<Rightarrow> u64 \<Rightarrow> fd_t \<Rightarrow> char list \<Rightarrow> (u64 \<times> fd_t \<times> char list) result" where
  "read_loop fs n sz fd buffer =
     (if of_nat n < sz - 1 then
        (if file_offset fd \<ge> file_size fd
         then bindr (wr buffer n NUL) (\<lambda>b. Inr (of_nat n + 1, fd, b))
         else bindr (bytes_at fs (file_start_address fd + file_offset fd)) (\<lambda>fl.
                bindr (rd fl 0) (\<lambda>c.
                  if n < length buffer
                  then let b = buffer[n := c]; fd1 = fd\<lparr>file_offset := file_offset fd + 1\<rparr>
                       in if c = LF then bindr (wr b (n + 1) NUL) (\<lambda>b1. Inr (of_nat n + 1, fd1, b1))
                          else read_loop fs (Suc n) sz fd1 b
                  else Inl Out_Of_Bounds)))
      else bindr (wr buffer n NUL) (\<lambda>b. Inr (of_nat n + 1, fd, b)))"
  by pat_completeness auto
termination by (relation "measure (\<lambda>(fs, n, sz, fd, buffer). length buffer - n)") auto

declare read_loop.simps [simp del]

definition read_to_buffer :: "tarfs \<Rightarrow> fd_t \<Rightarrow> char list \<Rightarrow> u64 \<Rightarrow> (u64 \<times> fd_t \<times> char list) result" where
  "read_to_buffer fs fd buffer sz =
     (if file_offset fd \<ge> file_size fd then Inr (0, fd, buffer) else read_loop fs 0 sz fd buffer)"

section \<open>Archives\<close>

text \<open>
  A well-formed archive: each file has a header, its data and padding to a multiple of 512 bytes; the
  end of the archive is the end of the memory or a zero block.
\<close>

definition padded :: "nat \<Rightarrow> nat" where
  "padded n = n + (512 - n mod 512) mod 512"

type_synonym tar_file = "string \<times> char list"

fun tar_at :: "char list \<Rightarrow> nat \<Rightarrow> tar_file list \<Rightarrow> bool" where
  "tar_at ar pos [] = (pos = length ar \<or>
     (pos + 512 \<le> length ar \<and> ar ! pos = NUL \<and> (\<exists>w. tar_size (drop (pos + 124) ar) = Inr w)))"
| "tar_at ar pos ((nm, d) # es) =
     (nm \<noteq> [] \<and> NUL \<notin> set nm \<and> length nm < 100 \<and> pos + 512 + padded (length d) \<le> length ar \<and>
      (\<exists>r. drop pos ar = nm @ NUL # r) \<and> tar_size (drop (pos + 124) ar) = Inr (of_nat (length d)) \<and>
      take (length d) (drop (pos + 512) ar) = d \<and> tar_at ar (pos + 512 + padded (length d)) es)"

definition fs_ok :: "tarfs \<Rightarrow> tar_file list \<Rightarrow> bool" where
  "fs_ok fs es =
     (unat (tar_start fs) + length (archive fs) < 2 ^ 64 \<and>
      tar_end fs = tar_start fs + of_nat (length (archive fs)) \<and> tar_at (archive fs) 0 es)"

text \<open>The code skips a whole block too much behind a file whose size is a multiple of 512.\<close>

definition sizes_ok :: "tar_file list \<Rightarrow> bool" where
  "sizes_ok es = (\<forall>(nm, d)\<in>set es. d = [] \<or> length d mod 512 \<noteq> 0)"

fun locate :: "nat \<Rightarrow> tar_file list \<Rightarrow> string \<Rightarrow> (nat \<times> char list) option" where
  "locate pos [] n = None"
| "locate pos ((nm, d) # es) n = (if nm = n then Some (pos, d) else locate (pos + 512 + padded (length d)) es n)"

lemma fs_addr:
  assumes "fs_ok fs es" and "n \<le> length (archive fs)"
  shows "tar_start fs + of_nat n < tar_end fs \<longleftrightarrow> n < length (archive fs)"
    and "tar_start fs \<le> tar_start fs + of_nat n"
    and "unat (tar_start fs + of_nat n - tar_start fs) = n"
proof -
  have l: "unat (tar_start fs) + length (archive fs) < 2 ^ 64"
    and e: "tar_end fs = tar_start fs + of_nat (length (archive fs))"
    using assms(1) by (simp_all add: fs_ok_def)
  have u: "unat (tar_start fs + of_nat n) = unat (tar_start fs) + n"
    using l assms(2) by (intro unat_add_of_nat64) simp
  show "tar_start fs + of_nat n < tar_end fs \<longleftrightarrow> n < length (archive fs)"
    unfolding e word_less_nat_alt u unat_add_of_nat64[OF l] by simp
  show "tar_start fs \<le> tar_start fs + of_nat n" unfolding word_le_nat_alt u by simp
  have "n < 2 ^ 64" using l assms(2) by simp
  then show "unat (tar_start fs + of_nat n - tar_start fs) = n" by (simp add: unat_of_nat64)
qed

lemma bytes_at_pos:
  assumes "fs_ok fs es" and "n < length (archive fs)"
  shows "bytes_at fs (tar_start fs + of_nat n) = Inr (drop n (archive fs))"
  using fs_addr[OF assms(1), of n] assms(2) by (simp add: bytes_at_def)

lemma roundup_padded:
  assumes "d = [] \<or> length d mod 512 \<noteq> 0" and "length d < 2 ^ 64"
  shows "(of_nat (length d) :: u64) + HEADER_SIZE + tar_size_roundup (of_nat (length d)) =
    of_nat (512 + padded (length d))"
proof (cases "d = []")
  case True
  then show ?thesis by (simp add: tar_size_roundup_def padded_def)
next
  case False
  then have m: "length d mod 512 \<noteq> 0" using assms(1) by simp
  have u: "unat (of_nat (length d) :: u64) = length d" using assms(2) by (rule unat_of_nat64)
  have nz: "(of_nat (length d) :: u64) \<noteq> 0" using False u by (metis length_0_conv unat_0)
  have "(of_nat (length d) :: u64) mod 512 = of_nat (length d mod 512)"
  proof -
    have "length d mod 512 < 2 ^ 64" by (rule less_trans[of _ 512]) simp_all
    then show ?thesis unfolding word_unat_eq_iff by (simp add: unat_mod_distrib u unat_of_nat64)
  qed
  then have "tar_size_roundup (of_nat (length d)) = of_nat (512 - length d mod 512)"
    using nz m by (simp add: tar_size_roundup_def of_nat_diff less_imp_le)
  moreover have "padded (length d) = length d + (512 - length d mod 512)"
    using m by (simp add: padded_def)
  ultimately show ?thesis by simp
qed


lemma tar_at_space: "tar_at ar pos es \<Longrightarrow> pos \<le> length ar"
  by (cases "(ar, pos, es)" rule: tar_at.cases) auto

lemma tar_loop_step:
  assumes "fs_ok fs es0" and "tar_at (archive fs) pos ((nm, d) # es)" and "d = [] \<or> length d mod 512 \<noteq> 0"
  shows "tar_loop fs visit (of_nat pos) st =
    (case visit (tar_start fs + of_nat pos) (of_nat (length d)) st of
       Inl e \<Rightarrow> Some (Inl e)
     | Inr (Some r, st') \<Rightarrow> Some (Inr (Some r, st'))
     | Inr (None, st') \<Rightarrow> tar_loop fs visit (of_nat (pos + 512 + padded (length d))) st')"
proof -
  have l: "pos + 512 + padded (length d) \<le> length (archive fs)" using assms(2) by simp
  have pos: "pos < length (archive fs)" "pos + 124 < length (archive fs)" using l by simp_all
  have "length d \<le> padded (length d)" by (simp add: padded_def)
  then have "length d < 2 ^ 64" using l assms(1) by (simp add: fs_ok_def)
  note r = roundup_padded[OF assms(3) this]
  have s: "bytes_at fs (tar_start fs + of_nat pos + SIZE_FIELD) = Inr (drop (pos + 124) (archive fs))"
    using bytes_at_pos[OF assms(1) pos(2)] by (simp add: ac_simps)
  have o: "of_nat pos + (of_nat (length d) + HEADER_SIZE + tar_size_roundup (of_nat (length d))) =
      (of_nat (pos + 512 + padded (length d)) :: u64)"
    unfolding r by simp
  have lt: "tar_start fs + of_nat pos < tar_end fs" using fs_addr(1)[OF assms(1), of pos] pos by simp
  have sz: "bindr (bytes_at fs (tar_start fs + of_nat pos + SIZE_FIELD)) tar_size = Inr (of_nat (length d))"
    using s assms(2) by simp
  show ?thesis
    by (subst tar_loop.simps) (simp only: lt not_True_eq_False if_False Let_def sz sum.case o)
qed

lemma tar_loop_end:
  assumes "fs_ok fs es0" and "tar_at (archive fs) pos []"
  shows "tar_loop fs visit (of_nat pos) st =
    (if pos = length (archive fs) then Some (Inr (None, st))
     else case bindr (bytes_at fs (tar_start fs + of_nat pos + SIZE_FIELD)) tar_size of
            Inl e \<Rightarrow> Some (Inl e)
          | Inr sz \<Rightarrow>
              (case visit (tar_start fs + of_nat pos) sz st of
                 Inl e \<Rightarrow> Some (Inl e)
               | Inr (Some r, st') \<Rightarrow> Some (Inr (Some r, st'))
               | Inr (None, st') \<Rightarrow> tar_loop fs visit (of_nat pos + (sz + HEADER_SIZE + tar_size_roundup sz)) st'))"
  using fs_addr(1)[OF assms(1), of pos] assms(2)
  by (subst tar_loop.simps) (auto simp: Let_def)

lemma tar_loop_zero_block:
  assumes "fs_ok fs es0" and "tar_at (archive fs) pos []" and "pos \<noteq> length (archive fs)"
  shows "\<exists>sz. bindr (bytes_at fs (tar_start fs + of_nat pos + SIZE_FIELD)) tar_size = Inr sz"
    and "bytes_at fs (tar_start fs + of_nat pos) = Inr (drop pos (archive fs))"
    and "kstrlen (drop pos (archive fs)) = Inr 0"
proof -
  have pos: "pos < length (archive fs)" "pos + 124 < length (archive fs)" using assms(2,3) by auto
  show "\<exists>sz. bindr (bytes_at fs (tar_start fs + of_nat pos + SIZE_FIELD)) tar_size = Inr sz"
  proof -
    have "bytes_at fs (tar_start fs + of_nat pos + SIZE_FIELD) = Inr (drop (pos + 124) (archive fs))"
      using bytes_at_pos[OF assms(1) pos(2)] by (simp add: ac_simps)
    with assms(2,3) show ?thesis by simp
  qed
  show "bytes_at fs (tar_start fs + of_nat pos) = Inr (drop pos (archive fs))"
    by (rule bytes_at_pos[OF assms(1) pos(1)])
  have "drop pos (archive fs) = [] @ NUL # drop (Suc pos) (archive fs)"
    using assms(2,3) Cons_nth_drop_Suc[OF pos(1)] by simp
  then show "kstrlen (drop pos (archive fs)) = Inr 0"
    using kstrlen_loop_split[of "[]" 0] by (simp add: kstrlen_def)
qed

lemma entry_name:
  assumes "tar_at ar pos ((nm, d) # es)"
  shows "terminated (drop pos ar) \<and> cstr (drop pos ar) = nm \<and> kstrlen (drop pos ar) = Inr (length nm)"
proof -
  from assms obtain r where r: "drop pos ar = nm @ NUL # r" "NUL \<notin> set nm" by auto
  then have "terminated (drop pos ar)" "cstr (drop pos ar) = nm" by simp_all
  then show ?thesis by (simp add: clen_def)
qed

lemma tar_loop_by_name:
  assumes "fs_ok fs es0" and "tar_at (archive fs) pos es" and "sizes_ok es" and "terminated (drop 1 path)"
  shows "map_option (\<lambda>r. bindr r (\<lambda>(o', st'). Inr (case o' of Some x \<Rightarrow> x | None \<Rightarrow> none, st')))
       (tar_loop fs (by_name fs path none found) (of_nat pos) st) =
    Some (case locate pos es (cstr (drop 1 path)) of
            None \<Rightarrow> Inr (none, st)
          | Some (q, d) \<Rightarrow> found (tar_start fs + of_nat q) (of_nat (length d)) st)"
  using assms(2,3)
proof (induction es arbitrary: pos)
  case Nil
  show ?case
  proof (cases "pos = length (archive fs)")
    case True
    then show ?thesis by (subst tar_loop_end[OF assms(1) Nil.prems(1)]) simp
  next
    case False
    note z = tar_loop_zero_block[OF assms(1) Nil.prems(1) False]
    from z(1) obtain sz where "bindr (bytes_at fs (tar_start fs + of_nat pos + SIZE_FIELD)) tar_size = Inr sz" ..
    with False z(2,3) show ?thesis
      by (subst tar_loop_end[OF assms(1) Nil.prems(1)]) (simp add: by_name_def)
  qed
next
  case (Cons e es)
  obtain nm d where e: "e = (nm, d)" by (cases e)
  note t = Cons.prems(1)[unfolded e]
  have d: "d = [] \<or> length d mod 512 \<noteq> 0" "sizes_ok es" using Cons.prems(2) by (auto simp: sizes_ok_def e)
  have pos: "pos < length (archive fs)" using t by simp
  note nm = entry_name[OF t] and b = bytes_at_pos[OF assms(1) pos]
  obtain c where c: "kstrcmp (drop pos (archive fs)) (drop 1 path) = Inr c" "c = 0 \<longleftrightarrow> nm = cstr (drop 1 path)"
    using kstrcmp_equal[OF _ assms(4), of "drop pos (archive fs)"] nm by auto
  have v: "by_name fs path none found (tar_start fs + of_nat pos) (of_nat (length d)) st =
      (if nm = cstr (drop 1 path)
       then bindr (found (tar_start fs + of_nat pos) (of_nat (length d)) st) (\<lambda>(r, st'). Inr (Some r, st'))
       else Inr (None, st))"
    using t b c nm by (auto simp: by_name_def)
  show ?case
  proof (cases "nm = cstr (drop 1 path)")
    case True
    then show ?thesis
      unfolding tar_loop_step[OF assms(1) t d(1)] v
      by (cases "found (tar_start fs + of_nat pos) (of_nat (length d)) st") (auto simp: e)
  next
    case False
    have "tar_at (archive fs) (pos + 512 + padded (length d)) es" using t by simp
    from Cons.IH[OF this d(2)] False show ?thesis
      unfolding tar_loop_step[OF assms(1) t d(1)] v by (simp add: e)
  qed
qed

lemma tar_search_locate:
  assumes "fs_ok fs es" and "sizes_ok es" and "terminated (drop 1 path)"
  shows "tar_search fs path none found st =
    Some (case locate 0 es (cstr (drop 1 path)) of
            None \<Rightarrow> Inr (none, st)
          | Some (q, d) \<Rightarrow> found (tar_start fs + of_nat q) (of_nat (length d)) st)"
  using tar_loop_by_name[OF assms(1) _ assms(2,3), of 0 none found st] assms(1)
  by (simp add: tar_search_def fs_ok_def)

lemma locate_at:
  "locate pos es n = Some (q, d) \<Longrightarrow> tar_at ar pos es \<Longrightarrow>
     q + 512 + length d \<le> length ar \<and> take (length d) (drop (q + 512) ar) = d"
proof (induction es arbitrary: pos)
  case Nil
  then show ?case by simp
next
  case (Cons e es)
  obtain nm d' where e: "e = (nm, d')" by (cases e)
  show ?case
  proof (cases "nm = n")
    case True
    then show ?thesis using Cons.prems e by (auto simp: padded_def)
  next
    case False
    then show ?thesis using Cons e by auto
  qed
qed

section \<open>Reading\<close>

text \<open>What one call reads: up to the end of the line, of the data or of the room.\<close>

fun chunk :: "nat \<Rightarrow> char list \<Rightarrow> char list" where
  "chunk 0 r = []"
| "chunk (Suc k) [] = []"
| "chunk (Suc k) (c # r) = c # (if c = LF then [] else chunk k r)"

definition ends_line :: "char list \<Rightarrow> bool" where
  "ends_line t = (t \<noteq> [] \<and> last t = LF)"

lemma length_chunk: "length (chunk k r) \<le> k \<and> length (chunk k r) \<le> length r"
  by (induction k r rule: chunk.induct) auto

lemma chunk_take: "chunk k r = take (length (chunk k r)) r"
  by (induction k r rule: chunk.induct) auto

lemma chunk_Nil: "chunk k r = [] \<longleftrightarrow> k = 0 \<or> r = []"
  by (cases "(k, r)" rule: chunk.cases) auto

text \<open>The descriptor of an open file: its data lie in the archive at the start address.\<close>

definition fd_at :: "tarfs \<Rightarrow> nat \<Rightarrow> char list \<Rightarrow> nat \<Rightarrow> fd_t \<Rightarrow> bool" where
  "fd_at fs q d k fd =
     (q + length d \<le> length (archive fs) \<and> take (length d) (drop q (archive fs)) = d \<and> k \<le> length d \<and>
      fd = \<lparr>file_start_address = tar_start fs + of_nat q, file_size = of_nat (length d), file_offset = of_nat k\<rparr>)"

lemma fd_at_byte:
  assumes "fs_ok fs es" and "fd_at fs q d k fd" and "k < length d"
  shows "bytes_at fs (file_start_address fd + file_offset fd) = Inr (drop (q + k) (archive fs))"
    and "rd (drop (q + k) (archive fs)) 0 = Inr (d ! k)"
    and "\<not> file_offset fd \<ge> file_size fd"
    and "fd_at fs q d (Suc k) (fd\<lparr>file_offset := file_offset fd + 1\<rparr>)"
proof -
  have l: "q + k < length (archive fs)" using assms(2,3) by (auto simp: fd_at_def)
  then show "bytes_at fs (file_start_address fd + file_offset fd) = Inr (drop (q + k) (archive fs))"
    using bytes_at_pos[OF assms(1) l] assms(2) by (simp add: fd_at_def add.assoc)
  have "d ! k = take (length d) (drop q (archive fs)) ! k" using assms(2) by (simp add: fd_at_def)
  then show "rd (drop (q + k) (archive fs)) 0 = Inr (d ! k)"
    using l assms(3) by (simp add: rd_def)
  have "length d < 2 ^ 64" using assms(1,2) by (simp add: fd_at_def fs_ok_def)
  then show "\<not> file_offset fd \<ge> file_size fd"
    using assms(2,3) by (simp add: fd_at_def word_le_nat_alt unat_of_nat64)
  show "fd_at fs q d (Suc k) (fd\<lparr>file_offset := file_offset fd + 1\<rparr>)"
    using assms(2,3) by (simp add: fd_at_def)
qed

lemma fd_at_end:
  "fd_at fs q d k fd \<Longrightarrow> k = length d \<Longrightarrow> file_offset fd \<ge> file_size fd"
  by (simp add: fd_at_def)

lemma read_loop_chunk:
  assumes "fs_ok fs es" and "fd_at fs q d k fd" and "sz \<le> length buffer" and "sz < 2 ^ 64"
    and "n < sz" and "t = chunk (sz - 1 - n) (drop k d)"
  shows "\<exists>fd'. read_loop fs n (of_nat sz) fd buffer =
      Inr (of_nat (n + length t + (if ends_line t then 0 else 1)), fd', splice buffer n (t @ [NUL])) \<and>
    fd_at fs q d (k + length t) fd'"
  using assms(2,3,5,6)
proof (induction "sz - n" arbitrary: n k fd buffer t)
  case 0
  then show ?case by simp
next
  case (Suc m)
  have bound: "of_nat n < (of_nat sz :: u64) - 1 \<longleftrightarrow> n < sz - 1"
  proof -
    have "(of_nat sz :: u64) - 1 = of_nat (sz - 1)" using Suc.prems(3) by (simp add: of_nat_diff)
    moreover have "sz - 1 < 2 ^ 64" "n < 2 ^ 64" using assms(4) Suc.prems(3) by simp_all
    ultimately show ?thesis unfolding word_less_nat_alt by (simp only: unat_of_nat64)
  qed
  have put: "splice buffer n [NUL] = buffer[n := NUL]" "n < length buffer"
    using Suc.prems(2,3) by (simp_all add: splice_def upd_conv_take_nth_drop)
  show ?case
  proof (cases "n < sz - 1 \<and> k < length d")
    case False
    then have t: "t = []" using Suc.prems(4) by (auto simp: chunk_Nil)
    have "read_loop fs n (of_nat sz) fd buffer = Inr (of_nat n + 1, fd, buffer[n := NUL])"
      using False bound fd_at_end[OF Suc.prems(1)] put(2) Suc.prems(1)
      by (subst read_loop.simps) (auto simp: wr_def fd_at_def)
    then show ?thesis using t put(1) Suc.prems(1) by (simp add: ends_line_def)
  next
    case True
    note b = fd_at_byte[OF assms(1) Suc.prems(1), of] True
    let ?c = "d ! k" and ?fd = "fd\<lparr>file_offset := file_offset fd + 1\<rparr>"
    have d: "drop k d = ?c # drop (Suc k) d" using True by (simp add: Cons_nth_drop_Suc)
    have st: "sz - 1 - n = Suc (sz - 1 - Suc n)" using True by linarith
    have t: "t = ?c # (if ?c = LF then [] else chunk (sz - 1 - Suc n) (drop (Suc k) d))"
      unfolding Suc.prems(4) st d by simp
    note byte = fd_at_byte[OF assms(1) Suc.prems(1) conjunct2[OF True]]
    show ?thesis
    proof (cases "?c = LF")
      case lf: True
      have "Suc n < length buffer" using True Suc.prems(2) by linarith
      have "splice buffer n [LF, NUL] = buffer[n := LF, Suc n := NUL]"
        using True Suc.prems(2) by (intro splice_two) linarith
      moreover have "read_loop fs n (of_nat sz) fd buffer =
          Inr (of_nat n + 1, ?fd, buffer[n := LF, Suc n := NUL])"
        using True bound byte put(2) Suc.prems(2) lf \<open>Suc n < length buffer\<close>
        by (subst read_loop.simps) (simp add: Let_def wr_def)
      ultimately show ?thesis using t lf byte(4) by (simp add: ends_line_def)
    next
      case nl: False
      let ?t = "chunk (sz - 1 - Suc n) (drop (Suc k) d)"
      have "Suc n < sz" using True by linarith
      then have "\<exists>fd'. read_loop fs (Suc n) (of_nat sz) ?fd (buffer[n := ?c]) =
          Inr (of_nat (Suc n + length ?t + (if ends_line ?t then 0 else 1)), fd',
            splice (buffer[n := ?c]) (Suc n) (?t @ [NUL])) \<and> fd_at fs q d (Suc k + length ?t) fd'"
        using Suc.hyps(2) True Suc.prems(2) by (intro Suc.hyps(1) byte(4)) simp_all
      then obtain fd' where fd': "read_loop fs (Suc n) (of_nat sz) ?fd (buffer[n := ?c]) =
          Inr (of_nat (Suc n + length ?t + (if ends_line ?t then 0 else 1)), fd',
            splice (buffer[n := ?c]) (Suc n) (?t @ [NUL]))" "fd_at fs q d (Suc k + length ?t) fd'"
        by blast
      have "read_loop fs n (of_nat sz) fd buffer = read_loop fs (Suc n) (of_nat sz) ?fd (buffer[n := ?c])"
        using True bound byte put(2) nl by (subst read_loop.simps) (simp add: Let_def)
      moreover have "splice (buffer[n := ?c]) (Suc n) (?t @ [NUL]) = splice buffer n (t @ [NUL])"
        using put(2) t nl by (simp add: splice_def take_Suc_conv_app_nth)
      moreover have "ends_line t = ends_line ?t" using t nl by (simp add: ends_line_def)
      ultimately show ?thesis using fd' t nl by auto
    qed
  qed
qed

lemma read_to_buffer_chunk:
  assumes "fs_ok fs es" and "fd_at fs q d k fd" and "sz \<le> length buffer" and "sz < 2 ^ 64" and "0 < sz"
    and "k < length d" and "t = chunk (sz - 1) (drop k d)"
  shows "\<exists>fd'. read_to_buffer fs fd buffer (of_nat sz) =
      Inr (of_nat (length t + (if ends_line t then 0 else 1)), fd', splice buffer 0 (t @ [NUL])) \<and>
    fd_at fs q d (k + length t) fd'"
  using read_loop_chunk[OF assms(1-5), of t] assms(7) fd_at_byte(3)[OF assms(1,2,6)]
  by (simp add: read_to_buffer_def)

lemma read_to_buffer_eof:
  "fd_at fs q d (length d) fd \<Longrightarrow> read_to_buffer fs fd buffer sz = Inr (0, fd, buffer)"
  by (simp add: read_to_buffer_def fd_at_def)

text \<open>Reading \<open>n\<close> times and putting together the texts that come back.\<close>

fun read_text :: "nat \<Rightarrow> tarfs \<Rightarrow> fd_t \<Rightarrow> char list \<Rightarrow> u64 \<Rightarrow> (string \<times> fd_t) result" where
  "read_text 0 fs fd buffer sz = Inr ([], fd)"
| "read_text (Suc n) fs fd buffer sz =
     bindr (read_to_buffer fs fd buffer sz) (\<lambda>(r, fd1, b).
       if r = 0 then Inr ([], fd1)
       else bindr (read_text n fs fd1 b sz) (\<lambda>(t, fd2). Inr (cstr b @ t, fd2)))"

lemma read_text_all:
  assumes "fs_ok fs es" and "fd_at fs q d k fd" and "NUL \<notin> set d" and "sz \<le> length buffer"
    and "sz < 2 ^ 64" and "2 \<le> sz" and "length d - k \<le> n"
  shows "\<exists>fd'. read_text n fs fd buffer (of_nat sz) = Inr (drop k d, fd')"
  using assms(2,4,7)
proof (induction n arbitrary: k fd buffer)
  case 0
  then show ?case by simp
next
  case (Suc n)
  show ?case
  proof (cases "k < length d")
    case False
    then have "k = length d" using Suc.prems(1) by (simp add: fd_at_def)
    then show ?thesis using read_to_buffer_eof Suc.prems(1) by simp
  next
    case True
    let ?t = "chunk (sz - 1) (drop k d)"
    from read_to_buffer_chunk[OF assms(1) Suc.prems(1,2) assms(5) _ True refl] assms(6)
    obtain fd1 where fd1: "read_to_buffer fs fd buffer (of_nat sz) =
        Inr (of_nat (length ?t + (if ends_line ?t then 0 else 1)), fd1, splice buffer 0 (?t @ [NUL]))"
      "fd_at fs q d (k + length ?t) fd1" by auto
    have t: "?t \<noteq> []" "length ?t \<le> sz - 1" "?t = take (length ?t) (drop k d)"
      using True assms(6) length_chunk[of "sz - 1" "drop k d"] chunk_take[of "sz - 1" "drop k d"]
      by (simp_all add: chunk_Nil)
    let ?b = "splice buffer 0 (?t @ [NUL])"
    have lb: "sz \<le> length ?b" using t(2) Suc.prems(2) assms(6) by (simp add: splice_def)
    have "0 < length ?t" using t(1) by simp
    then have "length d - (k + length ?t) \<le> n" using Suc.prems(3) True by linarith
    from Suc.IH[OF fd1(2) lb this] obtain fd2 where
      fd2: "read_text n fs fd1 ?b (of_nat sz) = Inr (drop (k + length ?t) d, fd2)" by blast
    have "NUL \<notin> set ?t"
      using assms(3) t(3) by (metis in_set_dropD in_set_takeD)
    then have "cstr ?b = ?t" by (simp add: splice_def)
    moreover have "?t @ drop (k + length ?t) d = drop k d"
      using t(3) append_take_drop_id[of "length ?t" "drop k d"] by (simp add: add.commute)
    moreover have "(of_nat (length ?t + (if ends_line ?t then 0 else 1)) :: u64) \<noteq> 0"
    proof -
      have "length ?t + (if ends_line ?t then 0 else 1) \<le> length ?t + 1" by simp
      moreover have "length ?t + 1 \<le> sz" using t(2) assms(6) by linarith
      ultimately have "length ?t + (if ends_line ?t then 0 else 1) < 2 ^ 64" using assms(5) by linarith
      then show ?thesis using \<open>0 < length ?t\<close> unat_of_nat64 by (metis add_is_0 less_numeral_extra(3) unat_0)
    qed
    ultimately show ?thesis using fd1(1) fd2 by simp
  qed
qed

section \<open>Directories\<close>

text \<open>
  The names that a directory listing shows: those that begin with the path of the directory and have
  no slash behind it, except as the last character. (The path itself is one of them.)
\<close>

definition child :: "string \<Rightarrow> string \<Rightarrow> bool" where
  "child path nm = (prefix path nm \<and> CHR ''/'' \<notin> set (butlast (drop (length path) nm)))"

definition children :: "string \<Rightarrow> tar_file list \<Rightarrow> string list" where
  "children path es = filter (child path) (map fst es)"

fun tar_tail :: "nat \<Rightarrow> tar_file list \<Rightarrow> nat" where
  "tar_tail pos [] = pos"
| "tar_tail pos ((nm, d) # es) = tar_tail (pos + 512 + padded (length d)) es"

definition dent_entry :: "nat \<Rightarrow> string \<Rightarrow> dirent \<Rightarrow> dirent" where
  "dent_entry i nm e = e\<lparr>d_ino := int i + 1, d_reclen := 280, d_name := splice (d_name e) 0 (nm @ [NUL])\<rparr>"

lemma count_slashes_spec:
  assumes "int i \<le> n" and "nat n \<le> length name"
  shows "count_slashes name i n c = Inr (c + length (filter (\<lambda>x. x = CHR ''/'') (take (nat n - i) (drop i name))))"
  using assms
proof (induction "nat n - i" arbitrary: i c)
  case 0
  then have "\<not> int i < n" "nat n - i = 0" by linarith+
  then show ?case by (subst count_slashes.simps) simp
next
  case (Suc k)
  then have i: "int i < n" "i < length name" by simp_all
  have "nat n - i = Suc (nat n - Suc i)" "int (Suc i) \<le> n" using i(1) by simp_all
  then have "count_slashes name (Suc i) n c' = Inr (c' + length (filter (\<lambda>x. x = CHR ''/'') (take (nat n - Suc i) (drop (Suc i) name))))"
    for c' using Suc.hyps(2) Suc.prems(2) by (intro Suc.hyps(1)) simp_all
  then show ?case
    using i \<open>nat n - i = Suc (nat n - Suc i)\<close>
    by (subst count_slashes.simps) (simp add: rd_def Cons_nth_drop_Suc[OF i(2), symmetric])
qed

lemma count_slashes_child:
  assumes "name = nm @ NUL # r" and "prefix path nm" and "nm \<noteq> []"
  shows "\<exists>c. count_slashes name (length path) (int (length nm) - 1) 0 = Inr c \<and> (c = 0 \<longleftrightarrow> child path nm)"
proof (cases "length path < length nm")
  case True
  let ?s = "drop (length path) nm"
  have n: "nat (int (length nm) - 1) = length nm - 1" by simp
  have "take (length nm - 1 - length path) (drop (length path) name) = butlast ?s"
    using assms(1) True by (simp add: butlast_conv_take)
  moreover have "int (length path) \<le> int (length nm) - 1" "nat (int (length nm) - 1) \<le> length name"
    using True assms(1) by simp_all
  note count_slashes_spec[OF this, of 0]
  ultimately have "count_slashes name (length path) (int (length nm) - 1) 0 =
      Inr (length (filter (\<lambda>x. x = CHR ''/'') (butlast ?s)))" unfolding n by simp
  then show ?thesis using assms(2) by (auto simp: child_def filter_empty_conv)
next
  case False
  then have "drop (length path) nm = []" by simp
  then show ?thesis using False assms(2) by (subst count_slashes.simps) (simp add: child_def)
qed

lemma dents_visit_spec:
  assumes "fs_ok fs es0" and "tar_at (archive fs) pos ((nm, d) # es)" and "terminated path" and "cstr path = pt"
    and "child pt nm \<Longrightarrow> ec < length B \<and> length (d_name (B ! ec)) = 256"
  shows "dents_visit fs path (length pt) (tar_start fs + of_nat pos) sz (ec, B) =
    Inr (None, if child pt nm then (ec + 1, B[ec := dent_entry ec (drop (length pt) nm) (B ! ec)]) else (ec, B))"
proof -
  have pos: "pos < length (archive fs)" using assms(2) by simp
  note b = bytes_at_pos[OF assms(1) pos] and nm = entry_name[OF assms(2)]
  from assms(2) obtain r where r: "drop pos (archive fs) = nm @ NUL # r" "nm \<noteq> []" "NUL \<notin> set nm" "length nm < 100"
    by auto
  have sw: "kstrstartswith (drop pos (archive fs)) path = Inr (if prefix pt nm then 1 else 0)"
    using kstrstartswith_prefix[OF _ assms(3), of "drop pos (archive fs)"] nm assms(4) by simp
  show ?thesis
  proof (cases "prefix pt nm")
    case False
    then show ?thesis using b nm sw r(2) by (simp add: dents_visit_def child_def)
  next
    case True
    from count_slashes_child[OF r(1) True r(2)] obtain c where
      c: "count_slashes (drop pos (archive fs)) (length pt) (int (length nm) - 1) 0 = Inr c"
        "c = 0 \<longleftrightarrow> child pt nm" by blast
    show ?thesis
    proof (cases "child pt nm")
      case ch: True
      have le: "length pt \<le> length nm" using True by (simp add: prefix_length_le)
      let ?src = "drop (length pt) (drop pos (archive fs))"
      have src: "?src = drop (length pt) nm @ NUL # r" using r(1) le by simp
      have "NUL \<notin> set (drop (length pt) nm)" using r(3) by (auto dest: in_set_dropD)
      then have "terminated ?src" "cstr ?src = drop (length pt) nm" unfolding src by simp_all
      with src have "kstrcpy (d_name (B ! ec)) 0 ?src 255 =
          Inr (int (length nm - length pt), splice (d_name (B ! ec)) 0 (drop (length pt) nm @ [NUL]))"
        using kstrcpy_copies[of ?src 255 0 "d_name (B ! ec)"] assms(5)[OF ch] r(4) by (simp add: clen_def)
      then show ?thesis
        using b nm sw c ch True r(2) assms(5)[OF ch]
        by (simp add: dents_visit_def dent_entry_def del: drop_drop)
    next
      case False
      then show ?thesis using b nm sw c True r(2) by (simp add: dents_visit_def)
    qed
  qed
qed

lemma dents_loop:
  assumes "fs_ok fs es0" and "tar_at (archive fs) pos es" and "sizes_ok es" and "terminated path" and "cstr path = pt"
    and "ec + length (children pt es) \<le> length B" and "\<forall>e\<in>set B. length (d_name e) = 256"
  shows "\<exists>B'. tar_loop fs (dents_visit fs path (length pt)) (of_nat pos) (ec, B) =
      Some (Inr (if tar_tail pos es = length (archive fs) then None else Some (), (ec + length (children pt es), B'))) \<and>
    length B' = length B \<and>
    (\<forall>i<length B. B' ! i = (if ec \<le> i \<and> i < ec + length (children pt es)
       then dent_entry i (drop (length pt) (children pt es ! (i - ec))) (B ! i) else B ! i))"
  using assms(2,3,6,7)
proof (induction es arbitrary: pos ec B)
  case Nil
  show ?case
  proof (cases "pos = length (archive fs)")
    case True
    then show ?thesis by (subst tar_loop_end[OF assms(1) Nil.prems(1)]) (auto simp: children_def)
  next
    case False
    note z = tar_loop_zero_block[OF assms(1) Nil.prems(1) False]
    from z(1) obtain sz where "bindr (bytes_at fs (tar_start fs + of_nat pos + SIZE_FIELD)) tar_size = Inr sz" ..
    with False z(2,3) show ?thesis
      by (subst tar_loop_end[OF assms(1) Nil.prems(1)]) (auto simp: dents_visit_def children_def)
  qed
next
  case (Cons e es)
  obtain nm d where e: "e = (nm, d)" by (cases e)
  note t = Cons.prems(1)[unfolded e]
  have d: "d = [] \<or> length d mod 512 \<noteq> 0" "sizes_ok es" using Cons.prems(2) by (auto simp: sizes_ok_def e)
  have t': "tar_at (archive fs) (pos + 512 + padded (length d)) es" using t by simp
  have "child pt nm \<Longrightarrow> ec < length B \<and> length (d_name (B ! ec)) = 256"
    using Cons.prems(3,4) by (simp add: children_def e)
  then have v: "dents_visit fs path (length pt) (tar_start fs + of_nat pos) (of_nat (length d)) (ec, B) =
      Inr (None, if child pt nm then (ec + 1, B[ec := dent_entry ec (drop (length pt) nm) (B ! ec)]) else (ec, B))"
    by (intro dents_visit_spec[OF assms(1) t assms(4,5)])
  have step: "tar_loop fs (dents_visit fs path (length pt)) (of_nat pos) (ec, B) =
      tar_loop fs (dents_visit fs path (length pt)) (of_nat (pos + 512 + padded (length d)))
        (if child pt nm then (ec + 1, B[ec := dent_entry ec (drop (length pt) nm) (B ! ec)]) else (ec, B))"
    unfolding tar_loop_step[OF assms(1) t d(1)] v by simp
  show ?case
  proof (cases "child pt nm")
    case False
    then have ch: "children pt (e # es) = children pt es" by (simp add: children_def e)
    from Cons.IH[OF t' d(2) _ Cons.prems(4), of ec] Cons.prems(3) False show ?thesis
      unfolding step ch by (simp add: e del: of_nat_add)
  next
    case True
    then have ch: "children pt (e # es) = nm # children pt es" by (simp add: children_def e)
    let ?B = "B[ec := dent_entry ec (drop (length pt) nm) (B ! ec)]"
    have ec: "ec < length B" using Cons.prems(3) ch by simp
    have "length (d_name (dent_entry ec (drop (length pt) nm) (B ! ec))) = 256"
      using t Cons.prems(4) ec by (auto simp: dent_entry_def splice_def)
    then have "\<forall>e\<in>set ?B. length (d_name e) = 256"
      using Cons.prems(4) set_update_subset_insert[of B ec "dent_entry ec (drop (length pt) nm) (B ! ec)"] by auto
    from Cons.IH[OF t' d(2) _ this, of "ec + 1"] Cons.prems(3) ch obtain B' where
      B': "tar_loop fs (dents_visit fs path (length pt)) (of_nat (pos + 512 + padded (length d))) (ec + 1, ?B) =
        Some (Inr (if tar_tail (pos + 512 + padded (length d)) es = length (archive fs) then None else Some (),
          (ec + 1 + length (children pt es), B')))" "length B' = length B"
      "\<forall>i<length B. B' ! i = (if ec + 1 \<le> i \<and> i < ec + 1 + length (children pt es)
         then dent_entry i (drop (length pt) (children pt es ! (i - (ec + 1)))) (?B ! i) else ?B ! i)"
      by auto
    have nth: "B' ! i = (if ec \<le> i \<and> i < ec + length (children pt (e # es))
        then dent_entry i (drop (length pt) (children pt (e # es) ! (i - ec))) (B ! i) else B ! i)"
      if "i < length B" for i
      using B'(3) that ec unfolding ch
      by (cases "i = ec"; cases "ec < i") (auto simp: nth_Cons')
    show ?thesis
      using B'(1,2) nth True unfolding step
      by (intro exI[of _ B']) (simp add: ch[unfolded e] e del: of_nat_add)
  qed
qed

section \<open>Sizes, and archives to look at\<close>

fun octal :: "nat \<Rightarrow> nat \<Rightarrow> string" where
  "octal 0 n = []"
| "octal (Suc k) n = octal k (n div 8) @ [char_of (48 + n mod 8)]"

lemma length_octal [simp]: "length (octal k n) = k"
  by (induction k arbitrary: n) simp_all

lemma schar_octal: "schar (char_of (48 + n mod 8)) = 48 + int (n mod 8)"
proof -
  have "n mod 8 < 8" by simp
  then have m: "(48 + n mod 8) mod 256 = 48 + n mod 8" by simp
  have "of_char (char_of (48 + n mod 8)) = int ((48 + n mod 8) mod 256)"
    by (metis of_char_of of_nat_of_char char_of_nat)
  then have "of_char (char_of (48 + n mod 8)) = 48 + int (n mod 8)" unfolding m by (simp only: of_nat_add of_nat_numeral)
  then show ?thesis using \<open>n mod 8 < 8\<close> by (simp add: schar_def Let_def)
qed

lemma tar_size_loop_room: "k \<le> length s \<Longrightarrow> \<exists>w. tar_size_loop k s res = Inr w"
  by (induction k s res rule: tar_size_loop.induct) auto

lemma tar_size_loop_append:
  "tar_size_loop (length a + k) (a @ b) res = bindr (tar_size_loop (length a) a res) (tar_size_loop k b)"
  by (induction a arbitrary: res) simp_all

lemma tar_size_loop_octal: "tar_size_loop k (octal k n) w = Inr (w * of_nat (8 ^ k) + of_nat (n mod 8 ^ k))"
proof (induction k arbitrary: n)
  case 0
  then show ?case by simp
next
  case (Suc k)
  have "tar_size_loop (Suc k) (octal (Suc k) n) w =
      bindr (tar_size_loop k (octal k (n div 8)) w) (tar_size_loop 1 [char_of (48 + n mod 8)])"
    using tar_size_loop_append[of "octal k (n div 8)" 1 "[char_of (48 + n mod 8)]" w] by simp
  also have "\<dots> = Inr ((w * of_nat (8 ^ k) + of_nat (n div 8 mod 8 ^ k)) * 8 + of_nat (n mod 8))"
    unfolding Suc.IH by (simp add: schar_octal)
  also have "n mod 8 ^ Suc k = 8 * (n div 8 mod 8 ^ k) + n mod 8" by (simp add: mod_mult2_eq)
  then have "(w * of_nat (8 ^ k) + of_nat (n div 8 mod 8 ^ k)) * 8 + of_nat (n mod 8) =
      w * of_nat (8 ^ Suc k) + of_nat (n mod 8 ^ Suc k)"
    by (simp add: algebra_simps)
  finally show ?case .
qed

lemma tar_size_octal:
  assumes "n < 8 ^ 11"
  shows "tar_size (octal 11 n @ r) = Inr (of_nat n)"
  using tar_size_loop_append[of "octal 11 n" 0 r 0] tar_size_loop_octal[of 11 n 0] assms
  by (simp add: tar_size_def)

definition header :: "string \<Rightarrow> nat \<Rightarrow> char list" where
  "header nm n = nm @ replicate (124 - length nm) NUL @ octal 11 n @ replicate 377 NUL"

fun mk_archive :: "tar_file list \<Rightarrow> char list" where
  "mk_archive [] = replicate 1024 NUL"
| "mk_archive ((nm, d) # es) =
     header nm (length d) @ d @ replicate ((512 - length d mod 512) mod 512) NUL @ mk_archive es"

definition files_ok :: "tar_file list \<Rightarrow> bool" where
  "files_ok es = (\<forall>(nm, d)\<in>set es. nm \<noteq> [] \<and> NUL \<notin> set nm \<and> length nm < 100 \<and> length d < 8 ^ 11)"

lemma length_header: "length nm < 100 \<Longrightarrow> length (header nm n) = 512"
  by (simp add: header_def)

lemma mk_archive_tar_at:
  "files_ok es \<Longrightarrow> length pre = pos \<Longrightarrow> tar_at (pre @ mk_archive es) pos es"
proof (induction es arbitrary: pre pos)
  case Nil
  have "drop pos (pre @ mk_archive []) = replicate 1024 NUL" using Nil by simp
  moreover have "(pre @ mk_archive []) ! pos = NUL" using Nil by (simp add: nth_append)
  moreover have "\<exists>w. tar_size (drop (pos + 124) (pre @ mk_archive [])) = Inr w"
    unfolding tar_size_def using Nil by (intro tar_size_loop_room) simp
  moreover have "pos + 512 \<le> length (pre @ mk_archive [])" using Nil by simp
  ultimately show ?case unfolding tar_at.simps by blast
next
  case (Cons e es)
  obtain nm d where e: "e = (nm, d)" by (cases e)
  have f: "nm \<noteq> []" "NUL \<notin> set nm" "length nm < 100" "length d < 8 ^ 11" "files_ok es"
    using Cons.prems(1) by (auto simp: files_ok_def e)
  let ?pad = "replicate ((512 - length d mod 512) mod 512) NUL"
  let ?pre = "pre @ header nm (length d) @ d @ ?pad"
  have ar: "pre @ mk_archive (e # es) = ?pre @ mk_archive es" by (simp add: e)
  have len: "length ?pre = pos + 512 + padded (length d)"
    using f(3) Cons.prems(2) by (simp add: length_header padded_def)
  have "tar_at (?pre @ mk_archive es) (pos + 512 + padded (length d)) es"
    using Cons.IH[OF f(5) len] .
  moreover have "drop pos (?pre @ mk_archive es) =
      nm @ NUL # replicate (123 - length nm) NUL @ octal 11 (length d) @ replicate 377 NUL @ d @ ?pad @ mk_archive es"
  proof -
    have "124 - length nm = Suc (123 - length nm)" using f(3) by simp
    then show ?thesis using Cons.prems(2) by (simp add: header_def)
  qed
  moreover have "drop (pos + 124) (?pre @ mk_archive es) =
      octal 11 (length d) @ replicate 377 NUL @ d @ ?pad @ mk_archive es"
    using f(3) Cons.prems(2) by (simp add: header_def)
  moreover have "take (length d) (drop (pos + 512) (?pre @ mk_archive es)) = d"
    using f(3) Cons.prems(2) by (simp add: length_header)
  moreover have "pos + 512 + padded (length d) \<le> length (?pre @ mk_archive es)" using len by simp
  ultimately show ?case unfolding e ar[unfolded e] tar_at.simps using f tar_size_octal[OF f(4)] by (simp only:) blast
qed

definition fs_of :: "tar_file list \<Rightarrow> tarfs" where
  "fs_of es = \<lparr>tar_start = 0x1000, tar_end = 0x1000 + of_nat (length (mk_archive es)), archive = mk_archive es\<rparr>"

lemma fs_of_ok:
  assumes "files_ok es" and "length (mk_archive es) < 2 ^ 63"
  shows "fs_ok (fs_of es) es"
  using mk_archive_tar_at[OF assms(1), of "[]" 0] assms(2) by (simp add: fs_ok_def fs_of_def)

section \<open>Properties\<close>

lemma locate_room:
  assumes "fs_ok fs es" and "locate 0 es n = Some (q, d)"
  shows "q + 512 + length d \<le> length (archive fs)" and "take (length d) (drop (q + 512) (archive fs)) = d"
    and "(of_nat (length d) :: u64) = 0 \<longleftrightarrow> d = []"
    and "tar_start fs + of_nat q + HEADER_SIZE = tar_start fs + of_nat (q + 512)"
proof -
  have "tar_at (archive fs) 0 es" using assms(1) by (simp add: fs_ok_def)
  from locate_at[OF assms(2) this]
  show l: "q + 512 + length d \<le> length (archive fs)" and "take (length d) (drop (q + 512) (archive fs)) = d"
    by simp_all
  have "length d < 2 ^ 64" using l assms(1) by (simp add: fs_ok_def)
  then have "unat (of_nat (length d) :: u64) = length d" by (rule unat_of_nat64)
  then show "(of_nat (length d) :: u64) = 0 \<longleftrightarrow> d = []"
    unfolding word_unat_eq_iff by simp
  show "tar_start fs + of_nat q + HEADER_SIZE = tar_start fs + of_nat (q + 512)" by simp
qed

lemma fd_at_opened:
  assumes "fs_ok fs es" and "locate 0 es n = Some (q, d)"
  shows "fd_at fs (q + 512) d 0 \<lparr>file_start_address = tar_start fs + of_nat q + HEADER_SIZE,
    file_size = of_nat (length d), file_offset = 0\<rparr>"
  using locate_room[OF assms] by (simp add: fd_at_def)

lemma check_elf_magic:
  assumes "fs_ok fs es" and "p + 4 \<le> length (archive fs)" and "tar_start fs + of_nat p \<noteq> 0"
  shows "check_elf fs (tar_start fs + of_nat p) =
    Inr (if take 4 (drop p (archive fs)) = CHR 0x7F # ''ELF'' then 1 else 0)"
proof -
  obtain c0 c1 c2 c3 r where s: "drop p (archive fs) = c0 # c1 # c2 # c3 # r"
  proof -
    have "4 \<le> length (drop p (archive fs))" using assms(2) by simp
    then show ?thesis using that
      by (cases "drop p (archive fs)" rule: remdups_adj.cases; cases "tl (tl (drop p (archive fs)))" rule: remdups_adj.cases)
        auto
  qed
  have b: "bytes_at fs (tar_start fs + of_nat p) = Inr (c0 # c1 # c2 # c3 # r)"
    using bytes_at_pos[OF assms(1), of p] assms(2) s by simp
  have "elf_byte fs (tar_start fs + of_nat p) i = rd (c0 # c1 # c2 # c3 # r) i" for i
    using b by (simp add: elf_byte_def)
  then show ?thesis using assms(3) s by (simp add: check_elf_def rd_def numeral_eq_Suc)
qed

text \<open>C38: On a well-formed archive none of whose files has a positive multiple of 512 bytes, the
  searches by name decide exactly what they are for, and all of them return: \<open>search_file_open\<close> finds
  the non-empty files, \<open>search_for_dir\<close> the empty ones (the directories), and \<open>search_file_for_exec\<close>
  the ones that begin with the ELF magic number.\<close>

theorem tar_searches_decide:
  assumes "fs_ok fs es" and "sizes_ok es" and "terminated (drop 1 path)" and "0 < tar_start fs"
  shows "search_file_open fs path = Some (Inr
      (case locate 0 es (cstr (drop 1 path)) of None \<Rightarrow> 0 | Some (q, d) \<Rightarrow> if d = [] then 0 else 1, ())) \<and>
    search_for_dir fs path = Some (Inr
      (case locate 0 es (cstr (drop 1 path)) of None \<Rightarrow> 0 | Some (q, d) \<Rightarrow> if d = [] then 1 else 0, ())) \<and>
    ((\<forall>q d. locate 0 es (cstr (drop 1 path)) = Some (q, d) \<longrightarrow> 4 \<le> length d) \<longrightarrow>
     search_file_for_exec fs path = Some (Inr
      (case locate 0 es (cstr (drop 1 path)) of None \<Rightarrow> 0
       | Some (q, d) \<Rightarrow> if take 4 d = CHR 0x7F # ''ELF'' then 1 else 0, ())))"
proof (cases "locate 0 es (cstr (drop 1 path))")
  case None
  then show ?thesis
    unfolding search_file_open_def search_for_dir_def search_file_for_exec_def
      tar_search_locate[OF assms(1-3)] by simp
next
  case (Some qd)
  obtain q d where qd: "qd = (q, d)" by (cases qd)
  note l = Some[unfolded qd]
  note room = locate_room[OF assms(1) l]
  have elf: "check_elf fs (tar_start fs + of_nat q + HEADER_SIZE) =
      Inr (if take 4 d = CHR 0x7F # ''ELF'' then 1 else 0)" if "4 \<le> length d"
  proof -
    have p: "q + 512 + 4 \<le> length (archive fs)" using room(1) that by simp
    have "unat (tar_start fs) + (q + 512) < 2 ^ 64" using p assms(1) by (simp add: fs_ok_def)
    then have "unat (tar_start fs + of_nat (q + 512)) = unat (tar_start fs) + (q + 512)"
      by (rule unat_add_of_nat64)
    then have "tar_start fs + of_nat (q + 512) \<noteq> 0" by (metis add_is_0 unat_0 zero_neq_numeral)
    from check_elf_magic[OF assms(1) p this]
    have "check_elf fs (tar_start fs + of_nat q + HEADER_SIZE) =
        Inr (if take 4 (drop (q + 512) (archive fs)) = CHR 0x7F # ''ELF'' then 1 else 0)"
      unfolding room(4) .
    moreover have "take 4 (drop (q + 512) (archive fs)) = take 4 d"
      using arg_cong[OF room(2), of "take 4"] that by (simp add: min_def)
    ultimately show ?thesis by simp
  qed
  show ?thesis
    unfolding search_file_open_def search_for_dir_def search_file_for_exec_def
      tar_search_locate[OF assms(1-3)]
    using l room(3) elf by simp
qed

definition demo :: "tar_file list" where
  "demo = [(''bin/'', []), (''bin/a'', CHR 0x7F # ''ELF..''), (''etc/x'', ''ab'' @ [LF] @ ''c'')]"

lemma demo_ok: "fs_ok (fs_of demo) demo \<and> sizes_ok demo \<and> 0 < tar_start (fs_of demo)"
proof -
  have "files_ok demo" by (simp add: files_ok_def demo_def)
  moreover have "length (mk_archive demo) < 2 ^ 63" by (simp add: demo_def header_def)
  ultimately have "fs_ok (fs_of demo) demo" by (rule fs_of_ok)
  then show ?thesis by (simp add: sizes_ok_def demo_def fs_of_def)
qed

lemma tar_searches_decide_witness:
  "search_file_open (fs_of demo) (lit ''/etc/x'') = Some (Inr (1, ())) \<and>
   search_for_dir (fs_of demo) (lit ''/etc/x'') = Some (Inr (0, ())) \<and>
   search_file_for_exec (fs_of demo) (lit ''/bin/a'') = Some (Inr (1, ())) \<and>
   search_for_dir (fs_of demo) (lit ''/bin/'') = Some (Inr (1, ()))"
  using tar_searches_decide[of "fs_of demo" demo "lit ''/etc/x''"]
    tar_searches_decide[of "fs_of demo" demo "lit ''/bin/a''"]
    tar_searches_decide[of "fs_of demo" demo "lit ''/bin/''"] demo_ok
  by (simp add: demo_def cstr_def terminated_def lit_def)

text \<open>C37: Opening a file that the archive has gives the next free descriptor, and reading it with any
  buffer of at least two bytes, call after call until the count is 0, gives back exactly the data of
  the file, if they hold no NUL. If the table is full, the descriptor is stored behind it; a file that
  is not there gives \<open>-1\<close> and no descriptor.\<close>

theorem open_read_round_trip:
  assumes "fs_ok fs es" and "sizes_ok es" and "terminated (drop 1 path)" and "length (fd_table proc) = 15"
  shows "case locate 0 es (cstr (drop 1 path)) of
      None \<Rightarrow> do_open_file fs path proc = Some (Inr (- 1, proc))
    | Some (q, d) \<Rightarrow>
        if next_fd proc < 15
        then \<exists>proc'. do_open_file fs path proc = Some (Inr (int (next_fd proc), proc')) \<and>
          next_fd proc' = next_fd proc + 1 \<and>
          (NUL \<notin> set d \<longrightarrow> (\<forall>buffer sz. 2 \<le> sz \<and> sz \<le> length buffer \<and> sz < 2 ^ 64 \<longrightarrow>
             (\<exists>fd'. read_text (length d) fs (fd_table proc' ! next_fd proc) buffer (of_nat sz) = Inr (d, fd'))))
        else do_open_file fs path proc = Some (Inl Out_Of_Bounds)"
proof (cases "locate 0 es (cstr (drop 1 path))")
  case None
  then show ?thesis unfolding do_open_file_def tar_search_locate[OF assms(1-3)] by simp
next
  case (Some qd)
  obtain q d where qd: "qd = (q, d)" by (cases qd)
  note l = Some[unfolded qd]
  let ?fd = "\<lparr>file_start_address = tar_start fs + of_nat q + HEADER_SIZE,
    file_size = of_nat (length d), file_offset = 0\<rparr>"
  have rt: "\<exists>fd'. read_text (length d) fs ?fd buffer (of_nat sz) = Inr (d, fd')"
    if "NUL \<notin> set d" "2 \<le> sz" "sz \<le> length buffer" "sz < 2 ^ 64" for buffer sz
    using read_text_all[OF assms(1) fd_at_opened[OF assms(1) l] that(1,3,4,2)] by simp
  have o: "do_open_file fs path proc = Some (alloc_fd (tar_start fs + of_nat q + HEADER_SIZE) (of_nat (length d)) proc)"
    unfolding do_open_file_def tar_search_locate[OF assms(1-3)] using l by simp
  show ?thesis
  proof (cases "next_fd proc < 15")
    case True
    then show ?thesis using l o rt assms(4) by (simp add: alloc_fd_def Let_def)
  next
    case False
    then show ?thesis using l o assms(4) by (simp add: alloc_fd_def)
  qed
qed

lemma open_read_round_trip_witness:
  "\<exists>proc' fd'. do_open_file (fs_of demo) (lit ''/etc/x'') blank_pcb = Some (Inr (3, proc')) \<and>
     read_text 4 (fs_of demo) (fd_table proc' ! 3) (lit ''..'') 2 = Inr (''ab'' @ [LF] @ ''c'', fd')"
proof -
  have l: "locate 0 demo (cstr (drop 1 (lit ''/etc/x''))) = Some (1536, ''ab'' @ [LF] @ ''c'')"
    by (simp add: demo_def padded_def cstr_def lit_def)
  have len: "length (''ab'' @ [LF] @ ''c'') = 4" by simp
  have p: "terminated (drop 1 (lit ''/etc/x''))" "length (fd_table blank_pcb) = 15" "next_fd blank_pcb = 3"
    by (simp_all add: terminated_def lit_def blank_pcb_def)
  from open_read_round_trip[of "fs_of demo" demo "lit ''/etc/x''" blank_pcb]
  have "\<exists>proc'. do_open_file (fs_of demo) (lit ''/etc/x'') blank_pcb = Some (Inr (3, proc')) \<and>
      (\<forall>buffer sz. 2 \<le> sz \<and> sz \<le> length buffer \<and> sz < 2 ^ 64 \<longrightarrow>
         (\<exists>fd'. read_text 4 (fs_of demo) (fd_table proc' ! 3) buffer (of_nat sz) = Inr (''ab'' @ [LF] @ ''c'', fd')))"
    unfolding l option.case prod.case len p(3) using demo_ok p(1,2) by (simp del: read_text.simps) blast
  then obtain proc' where proc': "do_open_file (fs_of demo) (lit ''/etc/x'') blank_pcb = Some (Inr (3, proc'))"
    "\<And>buffer sz. 2 \<le> sz \<Longrightarrow> sz \<le> length buffer \<Longrightarrow> sz < 2 ^ 64 \<Longrightarrow>
         (\<exists>fd'. read_text 4 (fs_of demo) (fd_table proc' ! 3) buffer (of_nat sz) = Inr (''ab'' @ [LF] @ ''c'', fd'))"
    by blast
  from proc'(2)[of 2 "lit ''..''"]
  have "\<exists>fd'. read_text 4 (fs_of demo) (fd_table proc' ! 3) (lit ''..'') (of_nat 2) = Inr (''ab'' @ [LF] @ ''c'', fd')"
    by (simp add: lit_def del: read_text.simps)
  with proc'(1) show ?thesis by (auto simp del: read_text.simps)
qed

text \<open>\<open>tar_size_roundup\<close> returns 512 and not 0 for a positive multiple of 512, so behind a file of
  that size the loop of every search goes on 512 bytes behind the next header, although the archive is
  well formed: the next file is not seen.\<close>

theorem full_block_skips_header:
  assumes "fs_ok fs es0" and "tar_at (archive fs) pos ((nm, d) # es)" and "d \<noteq> []" and "length d mod 512 = 0"
    and "visit (tar_start fs + of_nat pos) (of_nat (length d)) st = Inr (None, st')"
  shows "tar_loop fs visit (of_nat pos) st = tar_loop fs visit (of_nat (pos + 512 + length d + 512)) st' \<and>
    tar_at (archive fs) (pos + 512 + length d) es"
proof -
  have l: "pos + 512 + length d \<le> length (archive fs)" using assms(2,4) by (simp add: padded_def)
  have pos: "pos < length (archive fs)" "pos + 124 < length (archive fs)" using l by simp_all
  have "length d < 2 ^ 64" using l assms(1) by (simp add: fs_ok_def)
  then have u: "unat (of_nat (length d) :: u64) = length d" by (rule unat_of_nat64)
  then have nz: "(of_nat (length d) :: u64) \<noteq> 0" using assms(3) by (metis length_0_conv unat_0)
  have "(of_nat (length d) :: u64) mod 512 = 0"
    unfolding word_unat_eq_iff unat_mod_distrib u using assms(4) by simp
  then have r: "tar_size_roundup (of_nat (length d)) = 512" using nz by (simp add: tar_size_roundup_def)
  have s: "bytes_at fs (tar_start fs + of_nat pos + SIZE_FIELD) = Inr (drop (pos + 124) (archive fs))"
    using bytes_at_pos[OF assms(1) pos(2)] by (simp add: ac_simps)
  have lt: "tar_start fs + of_nat pos < tar_end fs" using fs_addr(1)[OF assms(1), of pos] pos by simp
  have sz: "bindr (bytes_at fs (tar_start fs + of_nat pos + SIZE_FIELD)) tar_size = Inr (of_nat (length d))"
    using s assms(2) by simp
  have o: "of_nat pos + (of_nat (length d) + HEADER_SIZE + tar_size_roundup (of_nat (length d))) =
      (of_nat (pos + 512 + length d + 512) :: u64)" unfolding r by simp
  have "tar_loop fs visit (of_nat pos) st = tar_loop fs visit (of_nat (pos + 512 + length d + 512)) st'"
    by (subst tar_loop.simps)
      (simp only: lt not_True_eq_False if_False Let_def sz sum.case o assms(5) prod.case option.case)
  moreover have "tar_at (archive fs) (pos + 512 + length d) es" using assms(2,4) by (simp add: padded_def)
  ultimately show ?thesis ..
qed

definition full_demo :: "tar_file list" where
  "full_demo = [(''a'', replicate 512 CHR ''x''), (''b/'', [])]"

lemma full_block_skips_header_witness:
  "tar_loop (fs_of full_demo) (\<lambda>p sz st. Inr (if p = 0x1400 then Some () else None, st @ [p])) 0 [] =
     tar_loop (fs_of full_demo) (\<lambda>p sz st. Inr (if p = 0x1400 then Some () else None, st @ [p])) 1536 [0x1000 :: u64] \<and>
   tar_at (archive (fs_of full_demo)) 1024 [(''b/'', [])]"
proof -
  have "files_ok full_demo" by (simp add: files_ok_def full_demo_def)
  moreover have "length (mk_archive full_demo) < 2 ^ 63" by (simp add: full_demo_def header_def)
  ultimately have ok: "fs_ok (fs_of full_demo) full_demo" by (rule fs_of_ok)
  then have "tar_at (archive (fs_of full_demo)) 0 ((''a'', replicate 512 CHR ''x'') # [(''b/'', [])])"
    by (simp add: fs_ok_def full_demo_def)
  from full_block_skips_header[OF ok this,
    of "\<lambda>p sz st. Inr (if p = 0x1400 then Some () else None, st @ [p])" "[]" "[0x1000]"]
  have "tar_loop (fs_of full_demo) (\<lambda>p sz st. Inr (if p = 0x1400 then Some () else None, st @ [p])) (of_nat 0) [] =
     tar_loop (fs_of full_demo) (\<lambda>p sz st. Inr (if p = 0x1400 then Some () else None, st @ [p]))
       (of_nat (0 + 512 + length (replicate 512 CHR ''x'') + 512)) [0x1000 :: u64] \<and>
     tar_at (archive (fs_of full_demo)) (0 + 512 + length (replicate 512 CHR ''x'')) [(''b/'', [])]"
    by (simp add: fs_of_def del: tar_at.simps)
  then show ?thesis by (simp del: tar_at.simps)
qed

lemma mark_loop:
  assumes "length B = n" and "a \<le> n"
  shows "\<exists>b. for_up a n (\<lambda>i b. if i < length b then Inr (b[i := (b ! i)\<lparr>d_ino := 0\<rparr>]) else Inl Out_Of_Bounds) B = Inr b \<and>
    length b = n \<and> (\<forall>i<n. b ! i = (if a \<le> i then (B ! i)\<lparr>d_ino := 0\<rparr> else B ! i))"
proof -
  let ?P = "\<lambda>k b. length b = n \<and> (\<forall>i<n. b ! i = (if a \<le> i \<and> i < k then (B ! i)\<lparr>d_ino := 0\<rparr> else B ! i))"
  let ?body = "\<lambda>i b. if i < length b then Inr (b[i := (b ! i)\<lparr>d_ino := 0\<rparr>]) else Inl Out_Of_Bounds"
  have "\<exists>b. for_up a n ?body B = Inr b \<and> ?P n b"
  proof (rule for_up_inv[OF assms(2), where P = ?P])
    show "?P a B" using assms(1) by simp
    fix i b
    assume i: "a \<le> i" "i < n" "?P i b"
    then show "\<exists>t'. ?body i b = Inr t' \<and> ?P (Suc i) t'"
      by (intro exI[of _ "b[i := (b ! i)\<lparr>d_ino := 0\<rparr>]"]) (auto simp: nth_list_update less_Suc_eq)
  qed
  then show ?thesis by auto
qed

text \<open>Listing a directory stores the names below it in the order of the archive, each with a
  positive inode number, without the path and with its terminator, and leaves the remaining entries
  alone except for the end mark; the mark is set only if the archive ends without a zero block.\<close>

theorem listing_is_exact:
  assumes "fs_ok fs es" and "sizes_ok es" and "terminated path"
    and "length (children (cstr path) es) \<le> length buffer" and "length buffer = n"
    and "\<forall>e\<in>set buffer. length (d_name e) = 256"
  shows "\<exists>b. fill_dents_by_path fs path buffer n = Some (Inr b) \<and> length b = n \<and>
    (\<forall>i<n. b ! i =
       (if i < length (children (cstr path) es)
        then dent_entry i (drop (length (cstr path)) (children (cstr path) es ! i)) (buffer ! i)
        else if tar_tail 0 es = length (archive fs) then (buffer ! i)\<lparr>d_ino := 0\<rparr> else buffer ! i))"
proof -
  let ?c = "children (cstr path) es"
  have "tar_at (archive fs) 0 es" using assms(1) by (simp add: fs_ok_def)
  from dents_loop[OF assms(1) this assms(2,3) refl _ assms(6), of 0] assms(4) obtain B where
    B: "tar_loop fs (dents_visit fs path (length (cstr path))) 0 (0, buffer) =
      Some (Inr (if tar_tail 0 es = length (archive fs) then None else Some (), (length ?c, B)))"
    "length B = length buffer"
    "\<forall>i<length buffer. B ! i = (if i < length ?c then dent_entry i (drop (length (cstr path)) (?c ! i)) (buffer ! i)
       else buffer ! i)"
    by auto
  have k: "kstrlen path = Inr (length (cstr path))" using assms(3) by (simp add: clen_def)
  show ?thesis
  proof (cases "tar_tail 0 es = length (archive fs)")
    case False
    then show ?thesis using B k assms(5) by (simp add: fill_dents_by_path_def)
  next
    case True
    let ?mark = "\<lambda>i b. if i < length b then Inr (b[i := (b ! i)\<lparr>d_ino := 0\<rparr>]) else Inl Out_Of_Bounds"
    have "\<exists>b. for_up (length ?c) n ?mark B = Inr b \<and> length b = n \<and>
        (\<forall>i<n. b ! i = (if length ?c \<le> i then (B ! i)\<lparr>d_ino := 0\<rparr> else B ! i))"
      using mark_loop[of B n "length ?c"] B(2) assms(4,5) by simp
    then show ?thesis using B k True assms(5) by (auto simp: fill_dents_by_path_def)
  qed
qed

definition blank_dirent :: dirent where
  "blank_dirent = \<lparr>d_ino = 7, d_off = 0, d_reclen = 0, d_name = replicate 256 NUL\<rparr>"

lemma listing_is_exact_witness:
  "\<exists>b. fill_dents_by_path (fs_of demo) (lit ''bin/'') (replicate 3 blank_dirent) 3 = Some (Inr b) \<and>
     b ! 1 = dent_entry 1 ''a'' blank_dirent \<and> d_ino (b ! 2) = 7"
proof -
  have c: "children (cstr (lit ''bin/'')) demo = [''bin/'', ''bin/a'']" "length (cstr (lit ''bin/'')) = 4"
    by (simp_all add: children_def child_def demo_def cstr_def lit_def)
  have t: "terminated (lit ''bin/'')" "tar_tail 0 demo \<noteq> length (archive (fs_of demo))"
    by (simp_all add: terminated_def lit_def fs_of_def demo_def padded_def header_def)
  have n: "length (replicate 3 blank_dirent) = 3" "\<forall>e\<in>set (replicate 3 blank_dirent). length (d_name e) = 256"
    by (simp_all add: blank_dirent_def)
  from listing_is_exact[OF conjunct1[OF demo_ok] _ t(1) _ n, unfolded c] t(2) demo_ok
  obtain b where b: "fill_dents_by_path (fs_of demo) (lit ''bin/'') (replicate 3 blank_dirent) 3 = Some (Inr b)"
    "\<forall>i<3. b ! i = (if i < 2 then dent_entry i (drop 4 ([''bin/'', ''bin/a''] ! i)) (replicate 3 blank_dirent ! i)
       else replicate 3 blank_dirent ! i)" by auto
  from b(2)[rule_format, of 1] b(2)[rule_format, of 2] b(1) show ?thesis by (simp add: blank_dirent_def)
qed

end
