(* ===== verification/Interrupts.thy ===== *)
theory Interrupts
  imports Copy_On_Write Printf Stdin Timer Tarfs
begin

text \<open>
  The interrupt and exception handlers of \<^verbatim>\<open>include/sys/idt.h\<close>, and the state of the whole kernel that
  they and the system calls work on.
\<close>

section \<open>The state of the kernel\<close>

text \<open>
  \<open>io\<close> has the keyboard, the input ring, the screen and the processes; the address space in which the
  kernel runs is that of the loaded \<^verbatim>\<open>cr3\<close>. \<open>ports\<close> is the list of the writes to I/O ports.
\<close>

record kernel =
  io :: input
  vm :: mm
  clock :: timer
  clock_buff :: "char list"
  status_kbd :: kbd
  status_buff :: "char list"
  files :: tarfs
  abspath :: "char list"
  path_temp :: "char list"
  print_buf :: "char list"
  ports :: "(u16 \<times> u8) list"

abbreviation (input) sched_of :: "kernel \<Rightarrow> sched" where
  "sched_of k \<equiv> procs (io k)"

definition space_of :: "kernel \<Rightarrow> space" where
  "space_of k = Paged (cpu_cr3 (sched_of k))"

definition set_sched :: "sched \<Rightarrow> kernel \<Rightarrow> kernel" where
  "set_sched s k = k\<lparr>io := (io k)\<lparr>procs := s\<rparr>\<rparr>"

definition set_cr3 :: "u64 \<Rightarrow> kernel \<Rightarrow> kernel" where
  "set_cr3 table k = set_sched ((sched_of k)\<lparr>cpu_cr3 := table\<rparr>) k"

definition outb :: "u16 \<Rightarrow> u8 \<Rightarrow> kernel \<Rightarrow> kernel" where
  "outb port val k = k\<lparr>ports := ports k @ [(port, val)]\<rparr>"

definition kprintf :: "string \<Rightarrow> varg list \<Rightarrow> kernel \<Rightarrow> kernel result" where
  "kprintf fmt args k =
     bindr (printf (lit fmt) args \<lparr>con = screen (io k), buf30 = print_buf k\<rparr>) (\<lambda>s.
       Inr (k\<lparr>io := (io k)\<lparr>screen := con s\<rparr>, print_buf := buf30 s\<rparr>))"

lemma set_sched_simps [simp]:
  "sched_of (set_sched s k) = s" "vm (set_sched s k) = vm k" "files (set_sched s k) = files k"
  "set_sched s (set_sched t k) = set_sched s k" "clock (set_sched s k) = clock k" "screen (io (set_sched s k)) = screen (io k)"
  "inp (io (set_sched s k)) = inp (io k)" "Interrupts.abspath (set_sched s k) = Interrupts.abspath k"
  by (simp_all add: set_sched_def)

lemma set_cr3_simps [simp]:
  "sched_of (set_cr3 t k) = (sched_of k)\<lparr>cpu_cr3 := t\<rparr>" "vm (set_cr3 t k) = vm k" "space_of (set_cr3 t k) = Paged t"
  by (simp_all add: set_cr3_def space_of_def)

section \<open>Handlers\<close>

text \<open>The byte \<open>l\<close> is what \<^verbatim>\<open>inb(0x60)\<close> returns.\<close>

definition int_kbd_srv :: "u8 \<Rightarrow> kernel \<Rightarrow> kernel result" where
  "int_kbd_srv l k =
     bindr (put_pressed_key l (status_kbd k, status_buff k, screen (io k))) (\<lambda>(s, b, scr).
       bindr (buffer_add_char l ((io k)\<lparr>screen := scr\<rparr>)) (\<lambda>i.
         Inr (outb 0x20 0x20 (k\<lparr>status_kbd := s, status_buff := b, io := i\<rparr>))))"

text \<open>
  The timer interrupt up to the call of \<^verbatim>\<open>schedule\<close> in \<^verbatim>\<open>preempt\<close>: the first component of the result is the
  new stack pointer. If it is not the old one the rest of the handler, which acknowledges the
  interrupt, runs when the process gets the processor back.
\<close>

definition int_tmr_begin :: "u64 \<Rightarrow> kernel \<Rightarrow> (u64 \<times> kernel) result option" where
  "int_tmr_begin rsp k =
     (case put_time_since_boot (clock k, clock_buff k, sched_of k, screen (io k)) of
        Inl e \<Rightarrow> Some (Inl e)
      | Inr (t, b, sch, scr) \<Rightarrow>
          map_option (\<lambda>r. bindr r (\<lambda>(sp, sch').
              Inr (sp, k\<lparr>clock := t, clock_buff := b, io := (io k)\<lparr>procs := sch', screen := scr\<rparr>\<rparr>)))
            (preempt rsp sch))"

definition int_tmr_end :: "kernel \<Rightarrow> kernel" where
  "int_tmr_end k = outb 0x20 0x20 k"

definition int_prtctn_srv :: "u64 \<Rightarrow> kernel \<Rightarrow> kernel result" where
  "int_prtctn_srv err k =
     bindr (kprintf (''(general protection fault): %x'' @ [LF]) [Slot (ucast (ucast err :: u32))] k) (\<lambda>_. Inl Panic)"

definition int_dblflt_srv :: "u64 \<Rightarrow> u64 \<Rightarrow> kernel \<Rightarrow> kernel result" where
  "int_dblflt_srv address err k =
     kprintf (''(double_fault):%x, %x'' @ [LF]) [Slot address, Slot (ucast (ucast err :: u32))] k"

text \<open>\<open>address\<close> is the content of \<^verbatim>\<open>cr2\<close>.\<close>

definition int_pgflt_srv :: "u64 \<Rightarrow> u64 \<Rightarrow> kernel \<Rightarrow> kernel result" where
  "int_pgflt_srv address err k =
     (let error = (ucast err :: u32);
          reload = (\<lambda>k. bindr (deref (sched_of k) (active_pcb (sched_of k))) (\<lambda>x. Inr (set_cr3 (pml4 x) k)))
      in if address = 0
         then bindr (kprintf (''(segmantation fault)'' @ [LF]) [] k) (\<lambda>_. Inl Panic)
         else if error = 7
         then bindr (handle_COW (space_of k) (sched_of k) address (vm k)) (\<lambda>(sp, s). reload (k\<lparr>vm := s\<rparr>))
         else if error AND 5 = 0 \<or> error AND 5 = 4
         then bindr (get_active_pid (sched_of k)) (\<lambda>p.
              bindr (add_physical_page_in (space_of k) p address (vm k)) (\<lambda>s. reload (k\<lparr>vm := s\<rparr>)))
         else bindr (kprintf (''(page fault - not handled):%x, %x'' @ [LF]) [Slot address, Slot (ucast error)] k)
                (\<lambda>_. Inl Panic))"

section \<open>Page faults\<close>

lemma not_present_error:
  fixes e :: u32
  assumes "even e"
  shows "e AND 5 = 0 \<or> e AND 5 = 4" and "e \<noteq> 7"
proof -
  have "e AND 5 \<in> {0, 4}"
  proof -
    have five: "e AND 5 = (e AND 4) OR (e AND 1)"
    proof -
      have "e AND 5 = e AND (4 OR 1)" by simp
      also have "\<dots> = (e AND 4) OR (e AND 1)" by (simp only: bit.conj_disj_distrib)
      finally show ?thesis .
    qed
    have "e AND 1 = 0" using assms by (simp add: and_one_eq even_iff_mod_2_eq_zero)
    moreover have "e AND 4 \<in> {0, 4}"
    proof -
      have "(4 :: u32) = push_bit 2 1" by (simp add: push_bit_eq_mult)
      then have b: "bit (4 :: u32) n \<longleftrightarrow> n = 2" for n by (simp only: bit_push_bit_iff bit_1_iff) auto
      have "e AND 4 = 4" if "bit e 2" by (rule bit_eqI) (use that in \<open>auto simp only: bit_and_iff b bit_0_eq bot_apply bot_bool_def\<close>)
      moreover have "e AND 4 = 0" if "\<not> bit e 2" by (rule bit_eqI) (use that in \<open>auto simp only: bit_and_iff b bit_0_eq bot_apply bot_bool_def\<close>)
      ultimately show ?thesis by blast
    qed
    ultimately show ?thesis unfolding five by auto
  qed
  then show "e AND 5 = 0 \<or> e AND 5 = 4" by blast
  show "e \<noteq> 7" using assms by auto
qed

text \<open>The kernel runs on the well-formed table of the active process.\<close>

definition vm_ok :: "kernel \<Rightarrow> u64 \<Rightarrow> u64 list \<Rightarrow> bool" where
  "vm_ok k p fs =
     (\<exists>x. deref (sched_of k) (active_pcb (sched_of k)) = Inr x \<and> pml4 x = p \<and> cpu_cr3 (sched_of k) = p \<and>
      tables_ok (mem (vm k)) p fs \<and> free_frames (vm k) fs)"

lemma pagefault_step:
  assumes "vm_ok k p (f # fs)" and "3 \<le> length fs" and "even (ucast err :: u32)" and "address \<noteq> 0"
    and "own address" and "canonical address"
  shows "\<exists>k' n. int_pgflt_srv address err k = Inr k' \<and> maps_one False p address f (mem (vm k)) (mem (vm k')) \<and>
    n \<le> 3 \<and> vm_ok k' p (drop n fs) \<and> sched_of k' = sched_of k \<and>
    (\<forall>g b. data_page (mem (vm k)) p fs g \<and> b < 4096 \<longrightarrow> mem (vm k') (g + of_nat b) = mem (vm k) (g + of_nat b)) \<and>
    data_page (mem (vm k')) p (drop n fs) f \<and>
    (\<forall>g. data_page (mem (vm k)) p fs g \<longrightarrow> data_page (mem (vm k')) p (drop n fs) g) \<and> files k' = files k \<and>
    (zeroed (mem (vm k)) fs \<longrightarrow> maps_one True p address f (mem (vm k)) (mem (vm k')) \<and> zeroed (mem (vm k')) (drop n fs)) \<and>
    maps_exactly fs p address f (mem (vm k)) (mem (vm k')) \<and>
    (\<forall>w. own w \<and> pwalk (mem (vm k)) p w 3 \<noteq> None \<longrightarrow> pwalk (mem (vm k')) p w 3 \<noteq> None)"
proof -
  from assms(1) obtain x where x: "deref (sched_of k) (active_pcb (sched_of k)) = Inr x" "pml4 x = p"
    "cpu_cr3 (sched_of k) = p" "tables_ok (mem (vm k)) p (f # fs)" "free_frames (vm k) (f # fs)"
    by (auto simp: vm_ok_def)
  from add_physical_page_in_maps[OF x(4,5) assms(2,5,6), of "pid x"] obtain s' n where
    s': "add_physical_page_in (Paged p) (pid x) address (vm k) = Inr s'"
      "maps_one False p address f (mem (vm k)) (mem s')" "n \<le> 3" "tables_ok (mem s') p (drop n fs)"
      "free_frames s' (drop n fs)"
      "\<forall>g b. data_page (mem (vm k)) p fs g \<and> b < 4096 \<longrightarrow> mem s' (g + of_nat b) = mem (vm k) (g + of_nat b)"
      "data_page (mem s') p (drop n fs) f" "\<forall>g. data_page (mem (vm k)) p fs g \<longrightarrow> data_page (mem s') p (drop n fs) g"
      "zeroed (mem (vm k)) fs \<longrightarrow> maps_one True p address f (mem (vm k)) (mem s') \<and> zeroed (mem s') (drop n fs)"
      "maps_exactly fs p address f (mem (vm k)) (mem s')"
      "\<forall>w. own w \<and> pwalk (mem (vm k)) p w 3 \<noteq> None \<longrightarrow> pwalk (mem s') p w 3 \<noteq> None" by blast
  let ?k = "set_cr3 p (k\<lparr>vm := s'\<rparr>)"
  have sch: "sched_of ?k = sched_of k" using x(3) by (simp add: set_cr3_def)
  have v: "vm ?k = s'" by simp
  have "vm_ok ?k p (drop n fs)"
    unfolding vm_ok_def sch v using x(1-3) s'(4,5) by blast
  moreover have "int_pgflt_srv address err k = Inr ?k"
    using not_present_error[OF assms(3)] assms(4) x(1-3) s'(1)
    by (simp add: int_pgflt_srv_def Let_def space_of_def get_active_pid_def)
  ultimately show ?thesis
    using s' sch v by (intro exI[of _ ?k] exI[of _ n]) (simp add: set_cr3_def)
qed

text \<open>C12: A page fault for an address that is not mapped is resolved by demand paging: the handler returns,
  the address is mapped to a fresh page, so that the access can be repeated, and every other address translates as before,
  except for those under a table of the last level that did not exist before, whose entries are the old bytes of the
  page that becomes the table. The pages that are neither tables nor free keep their bytes, the processes are as before, and the
  table, the list of free pages and \<^verbatim>\<open>cr3\<close> remain in order. (The fault is one of a page that is not present, at an address that is not 0, is canonical
  and is not in the range of the recursive entry, and there are four free pages.)\<close>

theorem pagefault_resolved:
  assumes "vm_ok k p (f # fs)" and "3 \<le> length fs" and "even (ucast err :: u32)" and "address \<noteq> 0"
    and "own address" and "canonical address"
  shows "\<exists>k' n. int_pgflt_srv address err k = Inr k' \<and> maps_exactly fs p address f (mem (vm k)) (mem (vm k')) \<and>
    n \<le> 3 \<and> vm_ok k' p (drop n fs) \<and> sched_of k' = sched_of k \<and>
    (\<forall>g b. data_page (mem (vm k)) p fs g \<and> b < 4096 \<longrightarrow> mem (vm k') (g + of_nat b) = mem (vm k) (g + of_nat b))"
  using pagefault_step[OF assms] by blast

section \<open>A kernel for the examples\<close>

definition demo_kernel :: kernel where
  "demo_kernel =
     \<lparr>io = \<lparr>kb = idle_kbd, inp = empty_stdin, screen = blank_console, procs = (fork_sched 1)\<lparr>cpu_cr3 := 0x1000\<rparr>\<rparr>,
      vm = boot_mm (\<lambda>_. 0), clock = \<lparr>clk = 0, tick = 0\<rparr>, clock_buff = replicate 8 NUL,
      status_kbd = idle_kbd, status_buff = replicate 5 NUL, files = fs_of demo, abspath = replicate 100 NUL, path_temp = replicate 100 NUL,
      print_buf = replicate 30 NUL, ports = []\<rparr>"

lemma demo_kernel_vm: "vm_ok demo_kernel 0x1000 eight_frames"
proof -
  have "deref (sched_of demo_kernel) (active_pcb (sched_of demo_kernel)) = Inr (blank_pcb\<lparr>pid := 1, pml4 := 0x1000\<rparr>)"
    by (simp add: demo_kernel_def deref_def fork_sched_def two_blocks_def)
  then show ?thesis
    using boot_mm_ok by (simp add: vm_ok_def demo_kernel_def)
qed

theorem pagefault_resolved_witness:
  "\<exists>k'. int_pgflt_srv 0x400123 4 demo_kernel = Inr k' \<and> translate (mem (vm k')) 0x1000 0x400123 = Some 0x101123"
proof -
  have e: "even (ucast (4 :: u64) :: u32)" "(0x400123 :: u64) \<noteq> 0" by simp_all
  have o: "own 0x400123" "canonical 0x400123" by (simp_all add: own_def idx_def drop_bit_eq_div canonical_def)
  have l: "3 \<le> length [0x102000, 0x103000, 0x104000, 0x105000, 0x106000, 0x107000, 0x108000 :: u64]" by simp
  from pagefault_resolved[OF demo_kernel_vm[unfolded eight_frames_def] l e o] obtain k' where
    "int_pgflt_srv 0x400123 4 demo_kernel = Inr k'"
    "maps_exactly [0x102000, 0x103000, 0x104000, 0x105000, 0x106000, 0x107000, 0x108000] 0x1000 0x400123 0x101000
       (mem (vm demo_kernel)) (mem (vm k'))" by blast
  then show ?thesis using o unfolding maps_exactly_def by auto
qed

end
