(* ===== verification/Loader.thy ===== *)
theory Loader
  imports Interrupts
begin

text \<open>
  Loading a program: \<^verbatim>\<open>mem_map_file\<close> (\<^verbatim>\<open>sys/vma.c\<close>), \<^verbatim>\<open>map_elf\<close> (\<^verbatim>\<open>sys/exec.c\<close>) and \<^verbatim>\<open>map_file\<close>
  (\<^verbatim>\<open>sys/tarfs.c\<close>). The loader stores to the user's addresses without mapping them first and relies on
  the page fault handler, so a store here is a store of the processor: if the address is not mapped
  the handler runs and the store is repeated, once.
\<close>

section \<open>Operations\<close>

definition kstore8 :: "u64 \<Rightarrow> u8 \<Rightarrow> kernel \<Rightarrow> kernel result" where
  "kstore8 a b k =
     (let again = (\<lambda>k. bindr (vwr8 (space_of k) a b (mem (vm k))) (\<lambda>m. Inr (k\<lparr>vm := (vm k)\<lparr>mem := m\<rparr>\<rparr>)))
      in case again k of
           Inl (Page_Fault v) \<Rightarrow> bindr (int_pgflt_srv a 2 k) again
         | r \<Rightarrow> r)"

definition file_byte :: "kernel \<Rightarrow> u64 \<Rightarrow> u8 result" where
  "file_byte k a = bindr (bytes_at (files k) a) (\<lambda>b. bindr (rd b 0) (\<lambda>c. Inr (of_char c)))"

definition mem_map_file :: "u64 \<Rightarrow> u64 \<Rightarrow> u64 \<Rightarrow> u64 \<Rightarrow> kernel \<Rightarrow> kernel result" where
  "mem_map_file file vaddr memsz filesz k =
     bindr (for_up 0 (unat filesz) (\<lambda>i k. bindr (file_byte k (file + of_nat i)) (\<lambda>b. kstore8 (vaddr + of_nat i) b k)) k)
       (for_up (unat filesz) (unat memsz) (\<lambda>i. kstore8 (vaddr + of_nat i) 0))"

text \<open>A little-endian field of \<open>n\<close> bytes.\<close>

fun le_field :: "nat \<Rightarrow> kernel \<Rightarrow> u64 \<Rightarrow> u64 result" where
  "le_field 0 k a = Inr 0"
| "le_field (Suc n) k a =
     bindr (file_byte k a) (\<lambda>b. bindr (le_field n k (a + 1)) (\<lambda>r. Inr (ucast b OR push_bit 8 r)))"

definition map_elf :: "u64 \<Rightarrow> kernel \<Rightarrow> (u64 \<times> kernel) result" where
  "map_elf hdr k =
     bindr (le_field 8 k (hdr + 32)) (\<lambda>e_phoff.
     bindr (le_field 2 k (hdr + 56)) (\<lambda>e_phnum.
     bindr (for_up 0 (unat e_phnum) (\<lambda>seg (p_base, k).
         bindr (le_field 8 k (p_base + 8)) (\<lambda>p_offset.
         bindr (le_field 8 k (p_base + 16)) (\<lambda>p_vaddr.
         bindr (le_field 8 k (p_base + 40)) (\<lambda>p_memsz.
         bindr (le_field 8 k (p_base + 32)) (\<lambda>p_filesz.
         bindr (mem_map_file (hdr + p_offset) p_vaddr p_memsz p_filesz k) (\<lambda>k1.
         bindr (le_field 2 k1 (hdr + 54)) (\<lambda>e_phentsize. Inr (p_base + e_phentsize, k1))))))))
       (hdr + e_phoff, k)) (\<lambda>(_, k2).
     bindr (le_field 8 k2 (hdr + 24)) (\<lambda>e_entry. Inr (e_entry, k2)))))"

definition map_file :: "char list \<Rightarrow> kernel \<Rightarrow> (u64 \<times> kernel) result option" where
  "map_file path k =
     tar_search (files k) path 0
       (\<lambda>p sz k. bindr (check_elf (files k) (p + HEADER_SIZE)) (\<lambda>e.
          if e \<noteq> 0 then map_elf (p + HEADER_SIZE) k else Inr (0, k))) k"

section \<open>User memory\<close>

definition user_byte :: "kernel \<Rightarrow> u64 \<Rightarrow> u64 \<Rightarrow> u8 option" where
  "user_byte k p x = map_option (mem (vm k)) (translate (mem (vm k)) p x)"

text \<open>The addresses \<open>S\<close> of a program: each is unmapped or in a page of its own that is not a table.\<close>

definition user_space :: "kernel \<Rightarrow> u64 \<Rightarrow> u64 list \<Rightarrow> u64 set \<Rightarrow> bool" where
  "user_space k p fs S =
     (vm_ok k p fs \<and> finite S \<and> (\<forall>x\<in>S. x \<noteq> 0 \<and> own x \<and> canonical x) \<and>
      (\<forall>x\<in>S. \<forall>g. pwalk (mem (vm k)) p x 4 = Some g \<longrightarrow> data_page (mem (vm k)) p fs g) \<and>
      (\<forall>x\<in>S. \<forall>y\<in>S. \<forall>g. pwalk (mem (vm k)) p x 4 = Some g \<and> pwalk (mem (vm k)) p y 4 = Some g \<longrightarrow>
         drop_bit 12 x = drop_bit 12 y))"

text \<open>
  The kernel does not zero a new table of the last level. So that no old bytes become entries for addresses of the program, the
  free pages have to hold zeros, or the tables of the last level for \<open>S\<close> have to exist.
\<close>

definition fresh_ok :: "ram \<Rightarrow> u64 \<Rightarrow> u64 list \<Rightarrow> u64 set \<Rightarrow> bool" where
  "fresh_ok m p fs S = (zeroed m fs \<or> (\<forall>x\<in>S. pwalk m p x 3 \<noteq> None))"

definition user_ok :: "kernel \<Rightarrow> u64 \<Rightarrow> u64 list \<Rightarrow> u64 set \<Rightarrow> bool" where
  "user_ok k p fs S = (user_space k p fs S \<and> fresh_ok (mem (vm k)) p fs S)"

definition unmapped :: "kernel \<Rightarrow> u64 \<Rightarrow> u64 set \<Rightarrow> u64 set" where
  "unmapped k p S = drop_bit 12 ` {x \<in> S. pwalk (mem (vm k)) p x 4 = None}"

text \<open>The store of \<open>b\<close> at \<open>x\<close> and nothing else.\<close>

definition stores :: "u64 \<Rightarrow> u64 \<Rightarrow> u8 \<Rightarrow> u64 set \<Rightarrow> kernel \<Rightarrow> kernel \<Rightarrow> bool" where
  "stores p x b S k k' =
     (user_byte k' p x = Some b \<and> files k' = files k \<and>
      (\<forall>y\<in>S. y \<noteq> x \<and> user_byte k p y \<noteq> None \<longrightarrow> user_byte k' p y = user_byte k p y))"

lemma low12: "unat (v AND 0xfff :: u64) < 4096" "of_nat (unat (v AND 0xfff :: u64)) = v AND 0xfff"
proof -
  have "v AND 0xfff = take_bit 12 v" by (simp add: take_bit_eq_mask mask_eq_exp_minus_1)
  then show "unat (v AND 0xfff) < 4096" by (simp add: take_bit_eq_mod unat_mod_distrib)
  show "of_nat (unat (v AND 0xfff :: u64)) = v AND 0xfff" by simp
qed

lemma same_page_low:
  assumes "drop_bit 12 x = drop_bit 12 y" and "x AND 0xfff = y AND 0xfff"
  shows "x = (y :: u64)"
proof -
  have "take_bit 12 x = take_bit 12 y" using assms(2) by (simp add: take_bit_eq_mask mask_eq_exp_minus_1)
  then show ?thesis using assms(1) by (metis bits_ident)
qed

lemma user_okI:
  assumes "vm_ok k p fs" "fresh_ok (mem (vm k)) p fs S" "finite S" "\<And>x. x \<in> S \<Longrightarrow> x \<noteq> 0 \<and> own x \<and> canonical x"
    "\<And>x g. x \<in> S \<Longrightarrow> pwalk (mem (vm k)) p x 4 = Some g \<Longrightarrow> data_page (mem (vm k)) p fs g"
    "\<And>x y g. x \<in> S \<Longrightarrow> y \<in> S \<Longrightarrow> pwalk (mem (vm k)) p x 4 = Some g \<Longrightarrow> pwalk (mem (vm k)) p y 4 = Some g \<Longrightarrow>
       drop_bit 12 x = drop_bit 12 y"
  shows "user_ok k p fs S"
  unfolding user_ok_def user_space_def using assms by blast

lemma user_okD:
  assumes "user_ok k p fs S"
  shows "vm_ok k p fs" "fresh_ok (mem (vm k)) p fs S" "finite S" "x \<in> S \<Longrightarrow> x \<noteq> 0 \<and> own x \<and> canonical x"
    "x \<in> S \<Longrightarrow> pwalk (mem (vm k)) p x 4 = Some g \<Longrightarrow> data_page (mem (vm k)) p fs g"
    "x \<in> S \<Longrightarrow> y \<in> S \<Longrightarrow> pwalk (mem (vm k)) p x 4 = Some g \<Longrightarrow> pwalk (mem (vm k)) p y 4 = Some g \<Longrightarrow>
       drop_bit 12 x = drop_bit 12 y"
  using assms unfolding user_ok_def user_space_def by blast+

lemma vm_ok_set_mem:
  assumes "vm_ok k p fs" and "tables_ok m p fs"
  shows "vm_ok (k\<lparr>vm := (vm k)\<lparr>mem := m\<rparr>\<rparr>) p fs"
  using assms by (auto simp: vm_ok_def)

lemma kstore8_mapped:
  assumes "user_ok k p fs S" and "x \<in> S" and "pwalk (mem (vm k)) p x 4 = Some g"
  shows "\<exists>k'. kstore8 x b k = Inr k' \<and> user_ok k' p fs S \<and> stores p x b S k k' \<and> unmapped k' p S = unmapped k p S"
proof -
  let ?m = "mem (vm k)"
  note V = user_okD[OF assms(1)]
  note U = V(1,2) conjunct2[OF V(4)] V(5,6)
  from U(1) have T: "tables_ok ?m p fs" "cpu_cr3 (sched_of k) = p" by (auto simp: vm_ok_def)
  note D = tables_okD[OF T(1)]
  have d: "data_page ?m p fs g" by (rule U(4)[OF assms(2,3)])
  then have g: "is_frame g" "g \<notin> set fs" by (simp_all add: data_page_def)
  define o' where "o' = unat (x AND 0xfff)"
  let ?a = "g + of_nat o'"
  let ?m' = "?m(?a := b)"
  let ?k = "k\<lparr>vm := (vm k)\<lparr>mem := ?m'\<rparr>\<rparr>"
  have tx: "translate ?m p x = Some ?a"
    using assms(3) U(3)[OF assms(2)] translate_frame[OF D(1)] by (simp add: o'_def)
  have fp: "frame p = p" using D(1) by (simp add: is_frame_def)
  have run: "kstore8 x b k = Inr ?k"
    using tx T(2) by (simp add: kstore8_def Let_def vwr8_def phys_of_def space_of_def)
  have off: "off_page g ?m ?m'"
    unfolding off_page_def
  proof (intro allI impI)
    fix z
    assume "\<not> unat (z - g) < 4096"
    then have "z \<noteq> ?a" using low12(1)[of x] by (auto simp: o'_def)
    then show "?m' z = ?m z" by simp
  qed
  note O = off_page_tables[OF T(1) d off]
  have w: "pwalk ?m' p y 4 = pwalk ?m p y 4" if "y \<in> S" for y using O(2)[of y 4] U(3)[OF that] by simp
  have tr: "translate ?m' p y = translate ?m p y" if "y \<in> S" for y
    using w[OF that] by (simp add: translate_frame[OF D(1)])
  have z: "fresh_ok ?m' p fs S"
  proof -
    have "f + of_nat j \<noteq> ?a" if "f \<in> set fs" "j < 4096" for f j
      using frame_plus_eq[OF D(2)[OF that(1)] g(1) that(2) low12(1)[of x]] g(2) that(1) by (auto simp: o'_def)
    then have "zeroed ?m fs \<Longrightarrow> zeroed ?m' fs" by (simp add: zeroed_def)
    moreover have "pwalk ?m' p y 3 = pwalk ?m p y 3" if "y \<in> S" for y using O(2)[of y 3] U(3)[OF that] by simp
    ultimately show ?thesis using U(2) by (auto simp: fresh_ok_def)
  qed
  have dp: "data_page ?m' p fs h" if "data_page ?m p fs h" for h
    using that O(2) by (simp add: data_page_def)
  have mk: "mem (vm ?k) = ?m'" by simp
  have "user_ok ?k p fs S"
  proof (rule user_okI; (unfold mk)?)
    show "vm_ok ?k p fs" by (rule vm_ok_set_mem[OF U(1) O(5)])
    show "fresh_ok ?m' p fs S" by (rule z)
    show "finite S" by (rule V(3))
    show "y \<noteq> 0 \<and> own y \<and> canonical y" if "y \<in> S" for y by (rule V(4)[OF that])
    show "data_page ?m' p fs h" if "y \<in> S" "pwalk ?m' p y 4 = Some h" for y h
      using dp[OF U(4)[OF that(1)]] that(2) unfolding w[OF that(1)] by simp
    show "drop_bit 12 y = drop_bit 12 y'" if "y \<in> S" "y' \<in> S" "pwalk ?m' p y 4 = Some h" "pwalk ?m' p y' 4 = Some h" for y y' h
      using U(5)[OF that(1,2)] that(3,4) unfolding w[OF that(1)] w[OF that(2)] by simp
  qed
  moreover have "unmapped ?k p S = unmapped k p S"
  proof -
    have "{y \<in> S. pwalk ?m' p y 4 = None} = {y \<in> S. pwalk ?m p y 4 = None}" using w by auto
    then show ?thesis by (simp add: unmapped_def)
  qed
  moreover have "stores p x b S k ?k"
    unfolding stores_def
  proof (intro conjI ballI impI)
    show "user_byte ?k p x = Some b" using tr[OF assms(2)] tx by (simp add: user_byte_def)
    show "files ?k = files k" by simp
    fix y
    assume y: "y \<in> S" "y \<noteq> x \<and> user_byte k p y \<noteq> None"
    then obtain h where h: "pwalk ?m p y 4 = Some h" "translate ?m p y = Some (h + of_nat (unat (y AND 0xfff)))"
      using translate_frame[OF D(1), of ?m y] U(3)[OF y(1)] by (auto simp: user_byte_def)
    have "h + of_nat (unat (y AND 0xfff)) \<noteq> ?a"
    proof
      assume "h + of_nat (unat (y AND 0xfff)) = ?a"
      then have e: "h = g" "unat (y AND 0xfff) = o'"
        using frame_plus_eq[OF pwalk_frame[OF D(1) h(1)] g(1) low12(1)[of y] low12(1)[of x]] by (simp_all add: o'_def)
      then have "y AND 0xfff = x AND 0xfff" using low12(2) o'_def by metis
      with U(5)[OF y(1) assms(2) h(1)] e(1) assms(3) same_page_low y(2) show False by blast
    qed
    then show "user_byte ?k p y = user_byte k p y" using tr[OF y(1)] h(2) by (simp add: user_byte_def)
  qed
  ultimately show ?thesis using run by blast
qed

text \<open>One page fault maps one page of the program.\<close>

lemma pagefault_user:
  assumes "user_ok k p (f # fs) S" and "x \<in> S" and "pwalk (mem (vm k)) p x 4 = None" and "3 \<le> length fs"
  shows "\<exists>k' n. int_pgflt_srv x 2 k = Inr k' \<and> n \<le> 3 \<and> user_ok k' p (drop n fs) S \<and> files k' = files k \<and>
    pwalk (mem (vm k')) p x 4 = Some f \<and> (\<forall>y\<in>S. user_byte k p y \<noteq> None \<longrightarrow> user_byte k' p y = user_byte k p y) \<and>
    unmapped k' p S = unmapped k p S - {drop_bit 12 x}"
proof -
  let ?m = "mem (vm k)"
  note V = user_okD[OF assms(1)]
  from V(1) have T: "tables_ok ?m p (f # fs)" by (auto simp: vm_ok_def)
  note D = tables_okD[OF T] and T' = tables_ok_tl[OF T]
  have x: "x \<noteq> 0" "own x" "canonical x" using V(4)[OF assms(2)] by simp_all
  have e: "even (ucast (2 :: u64) :: u32)" by simp
  have px: "is_frame p" by (rule D(1))
  from pagefault_step[OF V(1) assms(4) e x] obtain k' n where
    k': "int_pgflt_srv x 2 k = Inr k'" "n \<le> 3" "vm_ok k' p (drop n fs)"
      "\<And>g b. data_page ?m p fs g \<Longrightarrow> b < 4096 \<Longrightarrow> mem (vm k') (g + of_nat b) = ?m (g + of_nat b)"
      "data_page (mem (vm k')) p (drop n fs) f"
      "\<And>g. data_page ?m p fs g \<Longrightarrow> data_page (mem (vm k')) p (drop n fs) g"
      "files k' = files k" "maps_exactly fs p x f ?m (mem (vm k'))" "zeroed ?m fs \<Longrightarrow> zeroed (mem (vm k')) (drop n fs)"
      "\<And>w. own w \<Longrightarrow> pwalk ?m p w 3 \<noteq> None \<Longrightarrow> pwalk (mem (vm k')) p w 3 \<noteq> None"
    by blast
  have one: "maps_one True p x f ?m (mem (vm k'))"
    by (rule maps_exactly_one[OF k'(8) x(2) px]) (use V(2) assms(2) in \<open>auto simp: fresh_ok_def zeroed_def\<close>)
  have fresh: "fresh_ok (mem (vm k')) p (drop n fs) S"
    using V(2,4) k'(9,10) by (auto simp: fresh_ok_def zeroed_def)
  let ?m' = "mem (vm k')"
  note tr = translate_frame[OF D(1)]
  have on: "pwalk ?m' p y 4 = Some f" if "y \<in> S" "drop_bit 12 y = drop_bit 12 x" for y
  proof -
    have "translate ?m' p y = Some (f + (y AND 0xfff))" using one that(2) unfolding maps_one_def by blast
    then show ?thesis unfolding tr by (auto split: if_splits)
  qed
  have off: "pwalk ?m' p y 4 = pwalk ?m p y 4" if "y \<in> S" "drop_bit 12 y \<noteq> drop_bit 12 x" for y
  proof -
    have "translate ?m' p y = translate ?m p y"
      using one that(2) V(4)[OF that(1)] unfolding maps_one_def by blast
    then show ?thesis using V(4)[OF that(1)] unfolding tr by (cases "pwalk ?m' p y 4"; cases "pwalk ?m p y 4") auto
  qed
  have dp: "data_page ?m p fs g" "g \<noteq> f" if "y \<in> S" "pwalk ?m p y 4 = Some g" for y g
    using V(5)[OF that] by (auto simp: data_page_def)
  have none: "pwalk ?m p y 4 = None" if "y \<in> S" "drop_bit 12 y = drop_bit 12 x" for y
    using agree_walk[OF same_page_agree(1)[OF that(2)]] assms(3) by simp
  have "user_ok k' p (drop n fs) S"
  proof (rule user_okI)
    show "vm_ok k' p (drop n fs)" "fresh_ok ?m' p (drop n fs) S" "finite S" by (rule k'(3), rule fresh, rule V(3))
    show "y \<noteq> 0 \<and> own y \<and> canonical y" if "y \<in> S" for y by (rule V(4)[OF that])
    show "data_page ?m' p (drop n fs) g" if "y \<in> S" "pwalk ?m' p y 4 = Some g" for y g
    proof (cases "drop_bit 12 y = drop_bit 12 x")
      case True
      then have "g = f" using on[OF that(1)] that(2) by simp
      then show ?thesis using k'(5) by simp
    next
      case False
      then show ?thesis using k'(6)[OF dp(1)[OF that(1)]] off[OF that(1)] that(2) by simp
    qed
    show "drop_bit 12 y = drop_bit 12 z" if h: "y \<in> S" "z \<in> S" "pwalk ?m' p y 4 = Some g" "pwalk ?m' p z 4 = Some g" for y z g
    proof -
      consider "drop_bit 12 y = drop_bit 12 x" "drop_bit 12 z = drop_bit 12 x"
        | "drop_bit 12 y = drop_bit 12 x" "drop_bit 12 z \<noteq> drop_bit 12 x"
        | "drop_bit 12 y \<noteq> drop_bit 12 x" "drop_bit 12 z = drop_bit 12 x"
        | "drop_bit 12 y \<noteq> drop_bit 12 x" "drop_bit 12 z \<noteq> drop_bit 12 x" by blast
      then show ?thesis
      proof cases
        case 1
        then show ?thesis by simp
      next
        case 2
        then show ?thesis using on[OF h(1)] off[OF h(2)] dp(2)[OF h(2)] h(3,4) by force
      next
        case 3
        then show ?thesis using on[OF h(2)] off[OF h(1)] dp(2)[OF h(1)] h(3,4) by force
      next
        case 4
        have "pwalk ?m p y 4 = Some g" "pwalk ?m p z 4 = Some g"
          using off[OF h(1) 4(1)] off[OF h(2) 4(2)] h(3,4) by simp_all
        then show ?thesis by (rule V(6)[OF h(1,2)])
      qed
    qed
  qed
  moreover have "user_byte k' p y = user_byte k p y" if y: "y \<in> S" "user_byte k p y \<noteq> None" for y
  proof -
    from y(2) obtain g where g: "pwalk ?m p y 4 = Some g" unfolding user_byte_def tr by (auto split: if_splits)
    then have ne: "drop_bit 12 y \<noteq> drop_bit 12 x" using none[OF y(1)] by auto
    have "?m' (g + of_nat (unat (y AND 0xfff))) = ?m (g + of_nat (unat (y AND 0xfff)))"
      by (rule k'(4)[OF dp(1)[OF y(1) g] low12(1)])
    then show ?thesis using g off[OF y(1) ne] unfolding user_byte_def tr low12(2) by simp
  qed
  moreover have "unmapped k' p S = unmapped k p S - {drop_bit 12 x}"
  proof -
    have "y \<in> S \<and> pwalk ?m' p y 4 = None \<longleftrightarrow> y \<in> S \<and> pwalk ?m p y 4 = None \<and> drop_bit 12 y \<noteq> drop_bit 12 x" for y
      using on[of y] off[of y] by (cases "drop_bit 12 y = drop_bit 12 x") auto
    then show ?thesis unfolding unmapped_def by auto
  qed
  ultimately show ?thesis using k'(1,2,7) on[OF assms(2) refl] by blast
qed

lemma kstore8_user:
  assumes "user_ok k p fs S" and "x \<in> S" and "4 * card (unmapped k p S) \<le> length fs"
  shows "\<exists>k' n. kstore8 x b k = Inr k' \<and> user_ok k' p (drop n fs) S \<and> stores p x b S k k' \<and>
    4 * card (unmapped k' p S) \<le> length (drop n fs)"
proof (cases "pwalk (mem (vm k)) p x 4")
  case (Some g)
  from kstore8_mapped[OF assms(1,2) this, of b] assms(3) show ?thesis by (metis drop0)
next
  case None
  note V = user_okD[OF assms(1)]
  have fin: "finite (unmapped k p S)" using V(3) by (simp add: unmapped_def)
  have x: "drop_bit 12 x \<in> unmapped k p S" using None assms(2) by (auto simp: unmapped_def)
  then have "0 < card (unmapped k p S)" using fin by (auto simp: card_gt_0_iff)
  with assms(3) obtain f gs where f: "fs = f # gs" "3 \<le> length gs" by (cases fs) auto
  from pagefault_user[OF assms(1)[unfolded f(1)] assms(2) None f(2)] obtain k1 n where
    k1: "int_pgflt_srv x 2 k = Inr k1" "n \<le> 3" "user_ok k1 p (drop n gs) S" "files k1 = files k"
      "pwalk (mem (vm k1)) p x 4 = Some f" "\<And>y. y \<in> S \<Longrightarrow> user_byte k p y \<noteq> None \<Longrightarrow> user_byte k1 p y = user_byte k p y"
      "unmapped k1 p S = unmapped k p S - {drop_bit 12 x}" by blast
  from kstore8_mapped[OF k1(3) assms(2) k1(5), of b] obtain k2 where
    k2: "kstore8 x b k1 = Inr k2" "user_ok k2 p (drop n gs) S" "stores p x b S k1 k2" "unmapped k2 p S = unmapped k1 p S"
    by blast
  from V(1) have T: "tables_ok (mem (vm k)) p fs" "cpu_cr3 (sched_of k) = p" by (auto simp: vm_ok_def)
  from user_okD(1)[OF k1(3)] have T1: "tables_ok (mem (vm k1)) p (drop n gs)" "cpu_cr3 (sched_of k1) = p"
    by (auto simp: vm_ok_def)
  have fault: "vwr8 (space_of k) x b (mem (vm k)) = Inl (Page_Fault x)"
    using None T(2) by (simp add: vwr8_def phys_of_def space_of_def translate_frame[OF tables_okD(1)[OF T(1)]])
  have "translate (mem (vm k1)) p x \<noteq> None"
    using k1(5) V(4)[OF assms(2)] by (simp add: translate_frame[OF tables_okD(1)[OF T1(1)]])
  then obtain m where m: "vwr8 (space_of k1) x b (mem (vm k1)) = Inr m"
    using T1(2) by (auto simp: vwr8_def phys_of_def space_of_def)
  have "kstore8 x b k = kstore8 x b k1" using fault k1(1) m by (simp add: kstore8_def Let_def)
  moreover have "stores p x b S k k2"
    using k2(3) k1(4,6) unfolding stores_def by (metis (no_types, lifting))
  moreover have "card (unmapped k1 p S) = card (unmapped k p S) - 1"
    unfolding k1(7) using x fin by simp
  then have "4 * card (unmapped k2 p S) \<le> length (drop (Suc n) fs)"
    using k2(4) assms(3) k1(2) f(1) by simp
  ultimately show ?thesis using k2(1,2) f(1) by (intro exI[of _ k2] exI[of _ "Suc n"]) simp
qed

section \<open>Loading a segment\<close>

definition loaded :: "kernel \<Rightarrow> u64 \<Rightarrow> u64 list \<Rightarrow> u64 set \<Rightarrow> u64 \<Rightarrow> (nat \<Rightarrow> u8) \<Rightarrow> nat \<Rightarrow> kernel \<Rightarrow> bool" where
  "loaded k p fs S vaddr g i k' =
     (\<exists>n. user_ok k' p (drop n fs) S \<and> 4 * card (unmapped k' p S) \<le> length (drop n fs) \<and> files k' = files k \<and>
      (\<forall>j<i. user_byte k' p (vaddr + of_nat j) = Some (g j)))"

lemma store_range:
  assumes "\<And>i. i < n \<Longrightarrow> vaddr + of_nat i \<in> S" and "n \<le> 2 ^ 64" and "a \<le> n" and "loaded k p fs S vaddr g a k1"
    and "\<And>i k'. a \<le> i \<Longrightarrow> i < n \<Longrightarrow> files k' = files k \<Longrightarrow> body i k' = kstore8 (vaddr + of_nat i) (g i) k'"
  shows "\<exists>k'. for_up a n body k1 = Inr k' \<and> loaded k p fs S vaddr g n k'"
proof (rule for_up_inv[where P = "loaded k p fs S vaddr g", OF assms(3,4)])
  fix i k2
  assume i: "a \<le> i" "i < n" "loaded k p fs S vaddr g i k2"
  from i(3) obtain m where m: "user_ok k2 p (drop m fs) S" "4 * card (unmapped k2 p S) \<le> length (drop m fs)"
    "files k2 = files k" "\<And>j. j < i \<Longrightarrow> user_byte k2 p (vaddr + of_nat j) = Some (g j)"
    by (auto simp: loaded_def)
  from kstore8_user[OF m(1) assms(1)[OF i(2)] m(2), of "g i"] obtain k3 l where
    k3: "kstore8 (vaddr + of_nat i) (g i) k2 = Inr k3" "user_ok k3 p (drop l (drop m fs)) S"
      "stores p (vaddr + of_nat i) (g i) S k2 k3" "4 * card (unmapped k3 p S) \<le> length (drop l (drop m fs))" by blast
  have "user_byte k3 p (vaddr + of_nat j) = Some (g j)" if j: "j < Suc i" for j
  proof (cases "j = i")
    case False
    have "j < 2 ^ 64" "i < 2 ^ 64" using i(2) assms(2) j by simp_all
    then have "(of_nat j :: u64) \<noteq> of_nat i" using False of_nat_64_eq_iff by simp
    moreover have "j < i" "vaddr + of_nat j \<in> S" using j False i(2) assms(1)[of j] by simp_all
    ultimately show ?thesis using k3(3) m(4)[of j] unfolding stores_def by simp
  qed (use k3(3) in \<open>simp add: stores_def\<close>)
  then have "loaded k p fs S vaddr g (Suc i) k3"
    unfolding loaded_def using k3 m(3) by (intro exI[of _ "l + m"]) (simp add: stores_def)
  then show "\<exists>t'. body i k2 = Inr t' \<and> loaded k p fs S vaddr g (Suc i) t'"
    using assms(5)[OF i(1,2) m(3)] k3(1) by auto
qed

lemma file_byte_files: "files k' = files k \<Longrightarrow> file_byte k' a = file_byte k a"
  by (simp add: file_byte_def)

text \<open>C11: \<^verbatim>\<open>mem_map_file\<close> loads a segment through the page fault handler: for a range of addresses of
  which any pages may be unmapped yet, it returns with the bytes of the file at the first
  \<^verbatim>\<open>filesz\<close> addresses and zeros behind them up to \<^verbatim>\<open>memsz\<close>, each page in a frame of its own. This needs enough free pages and one
  thing that the kernel does not see to: either all free pages hold zeros, or the range has all its tables of the last level (a new one is
  not zeroed, and old bytes in it would count as entries).\<close>

theorem mem_map_file_loads:
  assumes "user_space k p fs S" and "zeroed (mem (vm k)) fs \<or> (\<forall>x\<in>S. pwalk (mem (vm k)) p x 3 \<noteq> None)"
    and "4 * card (unmapped k p S) \<le> length fs" and "S = (\<lambda>i. vaddr + of_nat i) ` {..<unat memsz}" and "filesz \<le> memsz"
    and "\<And>i. i < unat filesz \<Longrightarrow> file_byte k (file + of_nat i) = Inr (c i)"
  shows "\<exists>k' n. mem_map_file file vaddr memsz filesz k = Inr k' \<and> user_space k' p (drop n fs) S \<and>
    (\<forall>i<unat memsz. user_byte k' p (vaddr + of_nat i) = Some (if i < unat filesz then c i else 0))"
proof -
  have ok: "user_ok k p fs S" using assms(1,2) by (simp add: user_ok_def fresh_ok_def)
  let ?g = "\<lambda>i. if i < unat filesz then c i else 0"
  have le: "unat filesz \<le> unat memsz" using assms(5) by (simp add: word_le_nat_alt)
  have S: "\<And>i. i < unat memsz \<Longrightarrow> vaddr + of_nat i \<in> S" unfolding assms(4) by blast
  have 0: "loaded k p fs S vaddr ?g 0 k" unfolding loaded_def using ok assms(3) by (intro exI[of _ 0]) simp
  have le0: "0 \<le> unat filesz" by simp
  have m: "unat filesz \<le> 2 ^ 64" "unat memsz \<le> 2 ^ 64" using unat64_lt less_imp_le by blast+
  have "\<exists>k1. for_up 0 (unat filesz) (\<lambda>i k. bindr (file_byte k (file + of_nat i)) (\<lambda>b. kstore8 (vaddr + of_nat i) b k)) k = Inr k1 \<and>
      loaded k p fs S vaddr ?g (unat filesz) k1"
  proof (rule store_range[OF _ m(1) le0 0])
    show "vaddr + of_nat i \<in> S" if "i < unat filesz" for i using S le that by simp
    show "bindr (file_byte k' (file + of_nat i)) (\<lambda>b. kstore8 (vaddr + of_nat i) b k') = kstore8 (vaddr + of_nat i) (?g i) k'"
      if "i < unat filesz" "files k' = files k" for i k'
      unfolding file_byte_files[OF that(2)] assms(6)[OF that(1)] using that(1) by simp
  qed
  then obtain k1 where k1: "for_up 0 (unat filesz) (\<lambda>i k. bindr (file_byte k (file + of_nat i)) (\<lambda>b. kstore8 (vaddr + of_nat i) b k)) k = Inr k1"
    "loaded k p fs S vaddr ?g (unat filesz) k1" by blast
  have "\<exists>k2. for_up (unat filesz) (unat memsz) (\<lambda>i. kstore8 (vaddr + of_nat i) 0) k1 = Inr k2 \<and>
      loaded k p fs S vaddr ?g (unat memsz) k2"
    by (rule store_range[OF S m(2) le k1(2)]) simp_all
  then show ?thesis using k1(1) unfolding mem_map_file_def loaded_def user_ok_def by auto
qed

definition demo_loader :: kernel where
  "demo_loader = demo_kernel\<lparr>files := \<lparr>tar_start = 0x3000, tar_end = 0x3004, archive = ''ABCD''\<rparr>\<rparr>"

lemma demo_loader_walk: "own x \<Longrightarrow> pwalk (mem (vm demo_loader)) 0x1000 x 4 = None"
  by (simp add: demo_loader_def demo_kernel_def boot_mm_def boot_walk is_frame_def frame_def)

lemma demo_loader_user: "user_ok demo_loader 0x1000 eight_frames {0x400000, 0x400001, 0x400002}"
proof (rule user_okI)
  show "vm_ok demo_loader 0x1000 eight_frames" using demo_kernel_vm by (simp add: vm_ok_def demo_loader_def)
  have m: "mem (vm demo_loader) = mem (boot_mm (\<lambda>_. 0))" by (simp add: demo_loader_def demo_kernel_def)
  show "fresh_ok (mem (vm demo_loader)) 0x1000 eight_frames {0x400000, 0x400001, 0x400002}"
    unfolding m fresh_ok_def using eight_zeroed by blast
qed (auto simp: own_def idx_def drop_bit_eq_div canonical_def demo_loader_walk)

lemma filter_all_set: "(\<And>x. x \<in> S \<Longrightarrow> P x) \<Longrightarrow> {x \<in> S. P x} = S"
  by blast

theorem mem_map_file_loads_witness:
  "\<exists>k'. mem_map_file 0x3001 0x400000 3 2 demo_loader = Inr k' \<and> user_byte k' 0x1000 0x400001 = Some 0x43 \<and>
     user_byte k' 0x1000 0x400002 = Some 0"
proof -
  have n: "{..<unat (3 :: u64)} = {0, 1, 2}" by auto
  have S: "{0x400000, 0x400001, 0x400002} = (\<lambda>i. (0x400000 :: u64) + of_nat i) ` {..<unat (3 :: u64)}"
    unfolding n by simp
  have u: "unmapped demo_loader 0x1000 {0x400000, 0x400001, 0x400002} = {0x400}"
  proof -
    have "own 0x400000" "own 0x400001" "own 0x400002" by (simp_all add: own_def idx_def drop_bit_eq_div)
    note o = this[THEN demo_loader_walk]
    have "pwalk (mem (vm demo_loader)) 0x1000 x 4 = None" if "x \<in> {0x400000, 0x400001, 0x400002}" for x
    proof -
      from that have "x = 0x400000 \<or> x = 0x400001 \<or> x = 0x400002" by (simp only: insert_iff empty_iff simp_thms)
      then show ?thesis by (elim disjE) (simp_all only: o)
    qed
    then have "{x \<in> {0x400000, 0x400001, 0x400002}. pwalk (mem (vm demo_loader)) 0x1000 x 4 = None} =
        {0x400000, 0x400001, 0x400002}" by (rule filter_all_set)
    moreover have "drop_bit 12 ` {0x400000, 0x400001, 0x400002 :: u64} = {0x400}" by (simp add: drop_bit_eq_div)
    ultimately show ?thesis unfolding unmapped_def by (rule ssubst)
  qed
  have c: "4 * card (unmapped demo_loader 0x1000 {0x400000, 0x400001, 0x400002}) \<le> length eight_frames"
    unfolding u by (simp add: eight_frames_def)
  have b: "file_byte demo_loader (0x3001 + of_nat i) = Inr (if i = 0 then 0x42 else 0x43)" if "i < unat (2 :: u64)" for i
  proof -
    have "i = 0 \<or> i = 1" using that less_2_cases[of i] by simp
    then show ?thesis by (elim disjE) (simp_all add: file_byte_def bytes_at_def demo_loader_def rd_def)
  qed
  have le: "(2 :: u64) \<le> 3" by simp
  note du = demo_loader_user[unfolded user_ok_def fresh_ok_def]
  from mem_map_file_loads[OF conjunct1[OF du] conjunct2[OF du] c S le b] obtain k' where
    k': "mem_map_file 0x3001 0x400000 3 2 demo_loader = Inr k'"
      "\<forall>i<unat (3 :: u64). user_byte k' 0x1000 (0x400000 + of_nat i) =
         Some (if i < unat (2 :: u64) then if i = 0 then 0x42 else 0x43 else 0)" by blast
  from k'(2)[rule_format, of 1] k'(2)[rule_format, of 2] k'(1) show ?thesis by auto
qed

end
