(* ===== verification/Process_Create.thy ===== *)
theory Process_Create
  imports Loader
begin

text \<open>
  Creating processes, the rest of \<^verbatim>\<open>sys/process_helpers.c\<close>: the block, kernel stack and page table of a
  new process, the copy of a forked one, the two processes of \<^verbatim>\<open>init\<close>, the first run of a program and
  \<^verbatim>\<open>process_exec\<close>. What freshly allocated memory holds is a parameter \<open>raw\<close>; the addresses of
  \<^verbatim>\<open>_sys_idle\<close> and \<^verbatim>\<open>k_thread_kernel\<close> in the kernel image are parameters too.
\<close>

section \<open>Quadwords in the address space of the running process\<close>

definition kload64 :: "u64 \<Rightarrow> kernel \<Rightarrow> (u64 \<times> kernel) result" where
  "kload64 a k =
     (let again = (\<lambda>k. bindr (vrd64 (space_of k) a (mem (vm k))) (\<lambda>w. Inr (w, k)))
      in case again k of
           Inl (Page_Fault v) \<Rightarrow> bindr (int_pgflt_srv a 0 k) again
         | r \<Rightarrow> r)"

definition kstore64 :: "u64 \<Rightarrow> u64 \<Rightarrow> kernel \<Rightarrow> kernel result" where
  "kstore64 a w k =
     (let again = (\<lambda>k. bindr (vwr64 (space_of k) a w (mem (vm k))) (\<lambda>m. Inr (k\<lparr>vm := (vm k)\<lparr>mem := m\<rparr>\<rparr>)))
      in case again k of
           Inl (Page_Fault v) \<Rightarrow> bindr (int_pgflt_srv a 2 k) again
         | r \<Rightarrow> r)"

text \<open>Assignments to fields of \<^verbatim>\<open>*p\<close>.\<close>

definition upd_pcb :: "u64 \<Rightarrow> (pcb \<Rightarrow> pcb) \<Rightarrow> kernel \<Rightarrow> kernel result" where
  "upd_pcb p f k = bindr (deref (sched_of k) p) (\<lambda>x. Inr (set_sched (put_pcb p (f x) (sched_of k)) k))"

text \<open>\<^verbatim>\<open>p->kernel_sp--; *(p->kernel_sp) = w\<close>\<close>

definition push_kernel :: "u64 \<Rightarrow> u64 \<Rightarrow> kernel \<Rightarrow> kernel result" where
  "push_kernel p w k =
     bindr (upd_pcb p (\<lambda>x. x\<lparr>kernel_sp := kernel_sp x - 8\<rparr>) k) (\<lambda>k1.
     bindr (deref (sched_of k1) p) (\<lambda>x. kstore64 (kernel_sp x) w k1))"

text \<open>\<^verbatim>\<open>kstrcpy(p->pname, name, 50)\<close>\<close>

definition set_pname :: "u64 \<Rightarrow> char list \<Rightarrow> kernel \<Rightarrow> kernel result" where
  "set_pname p name k =
     bindr (deref (sched_of k) p) (\<lambda>x.
     bindr (kstrcpy (pname x) 0 name 50) (\<lambda>(_, s). upd_pcb p (\<lambda>x. x\<lparr>pname := s\<rparr>) k))"

definition set_wd :: "u64 \<Rightarrow> char list \<Rightarrow> int \<Rightarrow> kernel \<Rightarrow> kernel result" where
  "set_wd p name sz k =
     bindr (deref (sched_of k) p) (\<lambda>x.
     bindr (kstrcpy (wd x) 0 name sz) (\<lambda>(_, s). upd_pcb p (\<lambda>x. x\<lparr>wd := s\<rparr>) k))"

section \<open>New processes\<close>

text \<open>\<^verbatim>\<open>sizeof(pcb)\<close>\<close>

abbreviation (input) PCB_SIZE :: u64 where "PCB_SIZE \<equiv> 568"

text \<open>\<^verbatim>\<open>get_new_page_table()\<close> is called without its argument: \<open>junk\<close>.\<close>

definition get_new_pcb :: "(u64 \<Rightarrow> pcb) \<Rightarrow> i32 \<Rightarrow> kernel \<Rightarrow> (u64 \<times> kernel) result" where
  "get_new_pcb raw junk k =
     bindr (kmalloc (space_of k) PCB_SIZE (vm k)) (\<lambda>(res, s1).
     if res = 0 then Inl Null_Deref
     else let p = prev_pid (sched_of k) + 1;
              x = (raw res)\<lparr>pid := p\<rparr>
     in bindr (get_new_page_v (space_of k) (pid x) s1) (\<lambda>(stack, s2).
     let x1 = x\<lparr>kernel_stack := stack, kernel_sp := stack + PAGESIZE - 8\<rparr>
     in bindr (kstore64 (kernel_sp x1) 0
                 (set_sched (put_pcb res x1 ((sched_of k)\<lparr>prev_pid := p\<rparr>)) (k\<lparr>vm := s2\<rparr>))) (\<lambda>k1.
     bindr (get_new_page_table (space_of k1) junk (vm k1)) (\<lambda>(table, s3).
     bindr (upd_pcb res (\<lambda>x. x\<lparr>ppid := 0, waiting_on_stdin := False, waiting_on_pid := 0, waiting_on_clock := 0,
                pml4 := table, user_brk_point := 0x0000700000000000, user_sp := 0x00006FFFFFFFFFF0,
                fd_table := replicate 15 \<lparr>file_start_address = 0, file_size = 0, file_offset = 0\<rparr>,
                next_fd := 3\<rparr>) (k1\<lparr>vm := s3\<rparr>)) (\<lambda>k2.
     Inr (res, k2))))))"

definition get_forked_pcb :: "(u64 \<Rightarrow> pcb) \<Rightarrow> i32 \<Rightarrow> u64 \<Rightarrow> kernel \<Rightarrow> (u64 \<times> kernel) result" where
  "get_forked_pcb raw junk parent k =
     bindr (get_new_pcb raw junk k) (\<lambda>(child, k1).
     bindr (get_new_page_table (space_of k1) junk (vm k1)) (\<lambda>(table, s).
     bindr (upd_pcb child (\<lambda>x. x\<lparr>pml4 := table\<rparr>) (k1\<lparr>vm := s\<rparr>)) (\<lambda>k2.
     bindr (deref (sched_of k2) parent) (\<lambda>px.
     bindr (deref (sched_of k2) child) (\<lambda>cx.
     bindr (mark_fork_cross_entry (space_of k2) (pml4 px) (pml4 cx) (mem (vm k2))) (\<lambda>m.
     bindr (mark_COW (space_of k2) (pid cx) ((vm k2)\<lparr>mem := m\<rparr>)) (\<lambda>s3.
     bindr (upd_pcb child (\<lambda>x. x\<lparr>ppid := pid px, status := RUNNING, user_brk_point := user_brk_point px,
                user_sp := user_sp px\<rparr>) (k2\<lparr>vm := s3\<rparr>)) (\<lambda>k3.
     bindr (set_pname child (pname px) k3) (\<lambda>k4.
     bindr (set_wd child (wd px) 50 k4) (\<lambda>k5.
     Inr (child, k5)))))))))))"

section \<open>The first run of a program\<close>

definition prepare_user_memory :: "u64 \<Rightarrow> kernel \<Rightarrow> kernel result option" where
  "prepare_user_memory p k =
     (case deref (sched_of k) p of
        Inl e \<Rightarrow> Some (Inl e)
      | Inr x \<Rightarrow>
          map_option (\<lambda>r. bindr r (\<lambda>(entry, k1).
              bindr (upd_pcb p (\<lambda>x. x\<lparr>ip := entry\<rparr>) k1) (\<lambda>k2.
              bindr (deref (sched_of k2) p) (\<lambda>x.
              bindr (kstore64 (user_sp x - 8) 0 k2) (upd_pcb p (\<lambda>x. x\<lparr>status := RUNNING\<rparr>))))))
            (map_file (pname x) (set_cr3 (pml4 x) k)))"

text \<open>\<^verbatim>\<open>_switch_to_ring_3\<close>: the instruction and stack pointers with which user mode is entered.\<close>

definition switch_to_ring_3 :: "kernel \<Rightarrow> ((u64 \<times> u64) \<times> kernel) result" where
  "switch_to_ring_3 k =
     bindr (deref (sched_of k) (active_pcb (sched_of k))) (\<lambda>x.
       let k1 = set_cr3 (pml4 x) k
       in Inr ((ip x, user_sp x), set_sched ((sched_of k1)\<lparr>tss_rsp0 := kernel_stack x + PAGESIZE\<rparr>) k1))"

definition k_thread_kernel :: "kernel \<Rightarrow> ((u64 \<times> u64) \<times> kernel) result option" where
  "k_thread_kernel k =
     (case deref (sched_of k) (active_pcb (sched_of k)) of
        Inl e \<Rightarrow> Some (Inl e)
      | Inr x \<Rightarrow>
          map_option (\<lambda>r. bindr r (\<lambda>k1.
              bindr (deref (sched_of k1) (active_pcb (sched_of k1))) (\<lambda>y.
                if status y = RUNNING then switch_to_ring_3 k1
                else bindr (kprintf (''[k_thread_kernel]: Shouldn'' @ [CHR 0x27] @ ''t have gotten here!! PANIC!!!!'' @ [LF]) [] k1)
                       (\<lambda>_. Inl Panic))))
            (if status x = READY then prepare_user_memory (active_pcb (sched_of k)) k else Some (Inr k)))"

section \<open>Boot and execution of a program\<close>

text \<open>\<^verbatim>\<open>init\<close>, up to the \<^verbatim>\<open>retq\<close>: the first component of the result is the stack pointer.\<close>

definition init :: "(u64 \<Rightarrow> pcb) \<Rightarrow> i32 \<Rightarrow> u64 \<Rightarrow> u64 \<Rightarrow> kernel \<Rightarrow> (u64 \<times> kernel) result" where
  "init raw junk idle_fn thread_fn k =
     bindr (get_new_pcb raw junk k) (\<lambda>(sys_idle, k).
     bindr (set_pname sys_idle (lit ''system_idle_process'') k) (\<lambda>k.
     bindr (upd_pcb sys_idle (\<lambda>x. x\<lparr>status := RUNNING\<rparr>) k) (\<lambda>k.
     bindr (push_kernel sys_idle idle_fn k) (\<lambda>k.
     bindr (get_new_pcb raw junk k) (\<lambda>(shell, k).
     bindr (set_pname shell (lit ''/bin/sbush'') k) (\<lambda>k.
     bindr (set_wd shell (lit ''/'') 50 k) (\<lambda>k.
     bindr (upd_pcb shell (\<lambda>x. x\<lparr>status := READY\<rparr>) k) (\<lambda>k.
     bindr (push_kernel shell thread_fn k) (\<lambda>k.
     bindr (push_kernel shell 0 k) (\<lambda>k.
     bindr (enqueue_process sys_idle (sched_of k)) (\<lambda>s.
     bindr (enqueue_process shell s) (\<lambda>s.
     case processq s of (arr, hd0, tl0) \<Rightarrow>
     let s = s\<lparr>active_pcb := sys_idle, processq := (arr, hd0 + 1, tl0)\<rparr>
     in bindr (deref s sys_idle) (\<lambda>x. Inr (kernel_sp x, set_sched s k))))))))))))))"

text \<open>\<^verbatim>\<open>for (; envp[count]; ++count);\<close> need not end.\<close>

partial_function (option) count_ptrs :: "u64 \<Rightarrow> nat \<Rightarrow> kernel \<Rightarrow> (nat \<times> kernel) result option" where
  "count_ptrs a n k =
     (case kload64 (a + 8 * of_nat n) k of
        Inl e \<Rightarrow> Some (Inl e)
      | Inr (w, k') \<Rightarrow> if w \<noteq> 0 then count_ptrs a (n + 1) k' else Some (Inr (n, k')))"

text \<open>\<^verbatim>\<open>for (; i >= 0; --i) { sp--; *sp = a[i]; }\<close> from \<open>i = n - 1\<close>.\<close>

fun push_ptrs :: "nat \<Rightarrow> u64 \<Rightarrow> u64 \<Rightarrow> kernel \<Rightarrow> (u64 \<times> kernel) result" where
  "push_ptrs 0 a sp k = Inr (sp, k)"
| "push_ptrs (Suc i) a sp k =
     bindr (kload64 (a + 8 * of_nat i) k) (\<lambda>(w, k1).
     bindr (kstore64 (sp - 8) w k1) (push_ptrs i a (sp - 8)))"

text \<open>\<^verbatim>\<open>process_exec\<close>, up to the call of \<^verbatim>\<open>schedule\<close>.\<close>

definition process_exec :: "u64 \<Rightarrow> u64 \<Rightarrow> char list \<Rightarrow> u64 \<Rightarrow> u64 \<Rightarrow> kernel \<Rightarrow> kernel result option" where
  "process_exec thread_fn p path argv envp k =
     (case bindr (set_pname p path k) (\<lambda>k.
           bindr (upd_pcb p (\<lambda>x. x\<lparr>status := READY\<rparr>) k) (\<lambda>k.
           bindr (push_kernel p thread_fn k) (push_kernel p 0))) of
        Inl e \<Rightarrow> Some (Inl e)
      | Inr k \<Rightarrow> Option.bind (count_ptrs envp 0 k) (\<lambda>r.
     (case bindr r (\<lambda>(n, k). push_ptrs n envp 0x00006FFFFFFFFFF0 k) of
        Inl e \<Rightarrow> Some (Inl e)
      | Inr (sp, k) \<Rightarrow> Option.bind (count_ptrs argv 0 k) (\<lambda>r.
     Some (bindr r (\<lambda>(n, k).
           bindr (push_ptrs (n + 1) argv sp k) (\<lambda>(sp, k).
           bindr (kstore64 (sp - 8) (of_nat n) k)
             (upd_pcb p (\<lambda>x. x\<lparr>user_sp := sp - 8\<rparr>)))))))))"

section \<open>What a new process gets\<close>

text \<open>The kernel runs on the table \<open>p\<close>, with the free pages \<open>fs\<close> and room for \<open>r\<close> more pages of addresses.\<close>

definition kmem_ok :: "u64 \<Rightarrow> u64 list \<Rightarrow> nat \<Rightarrow> kernel \<Rightarrow> bool" where
  "kmem_ok p fs r k =
     (cpu_cr3 (sched_of k) = p \<and> tables_ok (mem (vm k)) p fs \<and> free_frames (vm k) fs \<and> kmalloc_ok p (vm k) \<and>
      unat (available_virt_mem (vm k)) + 4096 * r < 2 ^ 64)"

lemma kmem_okD:
  assumes "kmem_ok p fs r k"
  shows "cpu_cr3 (sched_of k) = p" "space_of k = Paged p" "tables_ok (mem (vm k)) p fs" "free_frames (vm k) fs" "kmalloc_ok p (vm k)"
    "unat (available_virt_mem (vm k)) + 4096 * r < 2 ^ 64" "0xffffff8000000000 \<le> available_virt_mem (vm k)"
    "4096 dvd unat (available_virt_mem (vm k))"
  using assms by (auto simp: kmem_ok_def space_of_def kmalloc_ok_def)

text \<open>The fields that \<^verbatim>\<open>_get_new_pcb\<close> sets; the others keep what the memory held.\<close>

definition fresh_pcb :: "pcb \<Rightarrow> i32 \<Rightarrow> u64 \<Rightarrow> u64 \<Rightarrow> pcb" where
  "fresh_pcb x p stack table =
     x\<lparr>pid := p, kernel_stack := stack, kernel_sp := stack + PAGESIZE - 8, ppid := 0, waiting_on_stdin := False,
       waiting_on_pid := 0, waiting_on_clock := 0, pml4 := table, user_brk_point := 0x0000700000000000,
       user_sp := 0x00006FFFFFFFFFF0,
       fd_table := replicate 15 \<lparr>file_start_address = 0, file_size = 0, file_offset = 0\<rparr>, next_fd := 3\<rparr>"

text \<open>A kernel stack: a page of data that holds the quadword \<open>w\<close> at index \<open>i\<close>.\<close>

definition stack_page :: "u64 \<Rightarrow> u64 list \<Rightarrow> ram \<Rightarrow> u64 \<Rightarrow> u64 \<Rightarrow> bool" where
  "stack_page p fs m v g =
     (0xffffff8000000000 \<le> v \<and> 4096 dvd unat v \<and> translate m p v = Some g \<and> data_page m p fs g)"

lemma top_slot: "slot v 511 = v + PAGESIZE - 8"
  by (simp add: slot_def)

definition stored :: "u64 \<Rightarrow> u64 \<Rightarrow> u64 \<Rightarrow> kernel \<Rightarrow> kernel" where
  "stored g i w k = k\<lparr>vm := (vm k)\<lparr>mem := wr64 (mem (vm k)) (slot g i) w\<rparr>\<rparr>"

lemma stack_store:
  assumes "kmem_ok p fs r k" and "stack_page p fs (mem (vm k)) v g" and "i < 512"
  shows "kstore64 (slot v i) w k = Inr (stored g i w k)"
    and "kmem_ok p fs r (stored g i w k)"
    and "stack_page p fs (mem (vm k)) u h \<Longrightarrow> stack_page p fs (mem (vm (stored g i w k))) u h"
    and "is_frame h \<Longrightarrow> j < 512 \<Longrightarrow> rd64 (mem (vm (stored g i w k))) (slot h j) = (if h = g \<and> j = i then w else rd64 (mem (vm k)) (slot h j))"
    and "own u \<Longrightarrow> translate (mem (vm (stored g i w k))) p u = translate (mem (vm k)) p u"
    and "data_page (mem (vm k)) p fs h \<Longrightarrow> data_page (mem (vm (stored g i w k))) p fs h"
    and "data_page (mem (vm k)) p fs h \<Longrightarrow> h \<noteq> g \<Longrightarrow> b < 4096 \<Longrightarrow> mem (vm (stored g i w k)) (h + of_nat b) = mem (vm k) (h + of_nat b)"
proof -
  have st [simp]: "mem (vm (stored g i w k)) = wr64 (mem (vm k)) (slot g i) w" by (simp add: stored_def)
  note K = kmem_okD[OF assms(1)]
  from assms(2) have S: "0xffffff8000000000 \<le> v" "4096 dvd unat v" "translate (mem (vm k)) p v = Some g"
    "data_page (mem (vm k)) p fs g" by (simp_all add: stack_page_def)
  have g: "is_frame g" using S(4) by (simp add: data_page_def)
  note W = data_page_slot[OF K(3) S(4) off_page_refl top_own(1)[OF S(1)] S(2,3) assms(3), of w]
  note O = off_page_tables[OF K(3) S(4) W(2)]
  show "kstore64 (slot v i) w k = Inr (stored g i w k)" using W(1) K(2) by (simp add: kstore64_def Let_def stored_def)
  show tr: "own u \<Longrightarrow> translate (mem (vm (stored g i w k))) p u = translate (mem (vm k)) p u" for u
    using O(2)[of u 4] by (simp add: translate_frame[OF tables_okD(1)[OF K(3)]])
  show dp: "data_page (mem (vm k)) p fs h \<Longrightarrow> data_page (mem (vm (stored g i w k))) p fs h" for h
    using O(2) by (simp add: data_page_def)
  show "stack_page p fs (mem (vm k)) u h \<Longrightarrow> stack_page p fs (mem (vm (stored g i w k))) u h"
    using tr[OF top_own(1)] dp by (simp add: stack_page_def)
  show "is_frame h \<Longrightarrow> j < 512 \<Longrightarrow> rd64 (mem (vm (stored g i w k))) (slot h j) = (if h = g \<and> j = i then w else rd64 (mem (vm k)) (slot h j))"
    using rd64_wr_slot[OF g _ assms(3), of h j] by simp
  show "data_page (mem (vm k)) p fs h \<Longrightarrow> h \<noteq> g \<Longrightarrow> b < 4096 \<Longrightarrow> mem (vm (stored g i w k)) (h + of_nat b) = mem (vm k) (h + of_nat b)"
    using W(2) unat_page_diff[OF g, of h b] by (simp add: off_page_def data_page_def)
  have "kmalloc_ok p (vm (stored g i w k))"
    using K(5) tr[OF top_own(1)[of "kmalloc_page (vm k)"]] by (simp add: kmalloc_ok_def stored_def)
  then show "kmem_ok p fs r (stored g i w k)" using K O(5) by (simp add: kmem_ok_def free_frames_def stored_def)
qed

lemma kmalloc_end_mem: "kmalloc_end (s\<lparr>mem := m\<rparr>) = kmalloc_end s"
  by (simp add: kmalloc_end_def)

lemma keeps_slot:
  assumes "keeps_pages p fs m fs' m'" and "data_page m p fs g" and "i < 512"
  shows "rd64 m' (slot g i) = rd64 m (slot g i)"
  using assms by (intro same_bytes_rd64) (auto simp: keeps_pages_def data_page_def)

text \<open>A new block \<open>a\<close>, behind all earlier ones, with a kernel stack in the page \<open>g\<close> and a page table of its own.\<close>

definition pcb_made ::
  "u64 \<Rightarrow> u64 list \<Rightarrow> nat \<Rightarrow> (u64 \<Rightarrow> pcb) \<Rightarrow> kernel \<Rightarrow> u64 \<Rightarrow> kernel \<Rightarrow> u64 \<Rightarrow> u64 \<Rightarrow> u64 \<Rightarrow> u64 list \<Rightarrow> bool" where
  "pcb_made p fs r raw k a k' stack g table fs' =
     (kmem_ok p fs' r k' \<and> 0xffffff8000000000 \<le> a \<and> kmalloc_end (vm k) \<le> unat a \<and> kmalloc_end (vm k') = unat a + 568 \<and>
      k' = set_sched ((put_pcb a (fresh_pcb (raw a) (prev_pid (sched_of k) + 1) stack table) (sched_of k))
             \<lparr>prev_pid := prev_pid (sched_of k) + 1\<rparr>) (k\<lparr>vm := vm k'\<rparr>) \<and>
      stack_page p fs' (mem (vm k')) stack g \<and> g \<in> set fs \<and> rd64 (mem (vm k')) (slot g 511) = 0 \<and>
      shares_entries (mem (vm k')) p table \<and> tables_ok (mem (vm k')) table fs' \<and> table \<noteq> g \<and> table \<in> set fs \<and>
      stack < available_virt_mem (vm k') \<and> keeps_pages p fs (mem (vm k)) fs' (mem (vm k')) \<and> keeps_below p (vm k) (vm k'))"

lemma new_pcb_made:
  assumes "kmem_ok p fs (r + 3) k" and "12 \<le> length fs"
  shows "\<exists>a k' stack g table n. get_new_pcb raw junk k = Inr (a, k') \<and> n \<le> 12 \<and>
    pcb_made p fs r raw k a k' stack g table (drop n fs)"
proof -
  note K = kmem_okD[OF assms(1)]
  have l: "4 \<le> length fs" "PCB_SIZE \<le> PAGESIZE" using assms(2) by simp_all
  have "unat (available_virt_mem (vm k)) + 4096 < 2 ^ 64" using K(6) by simp
  from kmalloc_step[OF K(3,4) l(1) K(5) l(2) this] obtain a s1 n1 where
    s1: "kmalloc (Paged p) PCB_SIZE (vm k) = Inr (a, s1)" "kmalloc_result p PCB_SIZE (vm k) fs a s1 n1" by blast
  from s1(2) have M: "n1 \<le> 4" "tables_ok (mem s1) p (drop n1 fs)" "free_frames s1 (drop n1 fs)" "kmalloc_ok p s1"
    "kmalloc_end (vm k) \<le> unat a" "kmalloc_end s1 = unat a + 568" "0xffffff8000000000 \<le> a"
    "keeps_below p (vm k) s1" "keeps_pages p fs (mem (vm k)) (drop n1 fs) (mem s1)"
    "unat (available_virt_mem s1) \<le> unat (available_virt_mem (vm k)) + 4096"
    by (simp_all add: kmalloc_result_def)
  have "drop n1 fs \<noteq> []" using M(1) assms(2) by simp
  then obtain f gs where f: "drop n1 fs = f # gs" by (cases "drop n1 fs") auto
  have "length (drop n1 fs) = Suc (length gs)" by (simp only: f list.size(4))
  then have lg: "7 \<le> length gs" using M(1) assms(2) by simp
  have lg3: "3 \<le> length gs" using lg by simp
  have av1: "0xffffff8000000000 \<le> available_virt_mem s1" "4096 dvd unat (available_virt_mem s1)"
    using M(4) by (simp_all add: kmalloc_ok_def)
  from new_page_v_step[OF M(2,3)[unfolded f] lg3 av1(1), of "prev_pid (sched_of k) + 1"] obtain s2 n2 where
    s2: "get_new_page_v (Paged p) (prev_pid (sched_of k) + 1) s1 = Inr (available_virt_mem s1, s2)" "page_made p gs s1 f s2 n2"
    by blast
  from s2(2) have P: "n2 \<le> 3" "tables_ok (mem s2) p (drop n2 gs)" "free_frames s2 (drop n2 gs)"
    "maps_one False p (available_virt_mem s1) f (mem s1) (mem s2)" "data_page (mem s2) p (drop n2 gs) f"
    "keeps_pages p (f # gs) (mem s1) (drop n2 gs) (mem s2)" "available_virt_mem s2 = available_virt_mem s1 + PAGESIZE"
    "kmalloc_page s2 = kmalloc_page s1" "kmalloc_index s2 = kmalloc_index s1" by (simp_all add: page_made_def)
  have room1: "unat (available_virt_mem s1) + 4096 < 2 ^ 64" using M(10) K(6) by simp
  note Q = kmalloc_ok_next[OF M(4) P(4,7-9) room1]
  let ?st = "available_virt_mem s1"
  let ?x = "(raw a)\<lparr>pid := prev_pid (sched_of k) + 1, kernel_stack := ?st, kernel_sp := ?st + PAGESIZE - 8\<rparr>"
  let ?s0 = "put_pcb a ?x ((sched_of k)\<lparr>prev_pid := prev_pid (sched_of k) + 1\<rparr>)"
  let ?k0 = "set_sched ?s0 (k\<lparr>vm := s2\<rparr>)"
  have k0: "kmem_ok p (drop n2 gs) (r + 1) ?k0"
    using P(2,3) Q K(1,6) M(10) by (simp add: kmem_ok_def put_pcb_def)
  have "?st AND 0xfff = 0" using idx_page(2)[of ?st 0] low_bits_dvd[of ?st] av1(2) by auto
  then have "translate (mem s2) p ?st = Some f" using P(4) unfolding maps_one_def by simp
  then have sp: "stack_page p (drop n2 gs) (mem (vm ?k0)) ?st f" using P(5) av1 by (simp add: stack_page_def)
  have i: "(511 :: u64) < 512" by simp
  note S = stack_store[OF k0 sp i, where w = 0]
  let ?k1 = "stored f 511 0 ?k0"
  have sch1: "sched_of ?k1 = ?s0" by (simp add: stored_def)
  have f': "is_frame f" using P(5) by (simp add: data_page_def)
  note K1 = kmem_okD[OF S(2)]
  have "drop n2 gs \<noteq> []" using P(1) lg by simp
  then obtain t hs where t: "drop n2 gs = t # hs" by (cases "drop n2 gs") auto
  have "length (drop n2 gs) = Suc (length hs)" by (simp only: t list.size(4))
  then have lh: "3 \<le> length hs" using P(1) lg by simp
  from page_table_step[OF K1(3,4)[unfolded t] lh K1(7,8), of junk] obtain s3 n3 where
    s3: "get_new_page_table (Paged p) junk (vm ?k1) = Inr (t, s3)" "table_made p hs (vm ?k1) t s3 n3" by blast
  from s3(2) have T: "shares_entries (mem s3) p t" "n3 \<le> 3" "tables_ok (mem s3) t (drop n3 hs)" "tables_ok (mem s3) p (drop n3 hs)"
    "free_frames s3 (drop n3 hs)" "maps_one False p (available_virt_mem (vm ?k1)) t (mem (vm ?k1)) (mem s3)"
    "keeps_pages p (t # hs) (mem (vm ?k1)) (drop n3 hs) (mem s3)"
    "available_virt_mem s3 = available_virt_mem (vm ?k1) + PAGESIZE" "kmalloc_page s3 = kmalloc_page (vm ?k1)"
    "kmalloc_index s3 = kmalloc_index (vm ?k1)" by (simp_all add: table_made_def)
  have room2: "unat (available_virt_mem (vm ?k1)) + 4096 < 2 ^ 64" using K1(6) by simp
  note R = kmalloc_ok_next[OF K1(5) T(6,8-10) room2]
  let ?t = "fresh_pcb (raw a) (prev_pid (sched_of k) + 1) ?st t"
  let ?k' = "set_sched ((put_pcb a ?t (sched_of k))\<lparr>prev_pid := prev_pid (sched_of k) + 1\<rparr>) (k\<lparr>vm := s3\<rparr>)"
  define n where "n = Suc n3 + (Suc n2 + n1)"
  have fs': "drop n3 hs = drop n fs"
  proof -
    have "gs = drop (Suc n1) fs" "hs = drop (Suc n2) gs"
      using arg_cong[OF f, of "drop 1"] arg_cong[OF t, of "drop 1"] by simp_all
    then show ?thesis by (simp add: n_def add.commute add.left_commute)
  qed
  have a0: "a \<noteq> 0" using M(7) by auto
  have k1': "deref (sched_of (?k1\<lparr>vm := s3\<rparr>)) a = Inr ?x"
    unfolding deref_def using a0 sch1 by (simp add: put_pcb_def)
  have upd: "upd_pcb a (\<lambda>x. x\<lparr>ppid := 0, waiting_on_stdin := False, waiting_on_pid := 0, waiting_on_clock := 0,
                pml4 := t, user_brk_point := 0x0000700000000000, user_sp := 0x00006FFFFFFFFFF0,
                fd_table := replicate 15 \<lparr>file_start_address = 0, file_size = 0, file_offset = 0\<rparr>,
                next_fd := 3\<rparr>) (?k1\<lparr>vm := s3\<rparr>) = Inr ?k'"
    unfolding upd_pcb_def k1' by (simp add: sch1 fresh_pcb_def put_pcb_def set_sched_def stored_def)
  have sl: "kernel_sp ?x = slot ?st 511" by (simp add: top_slot)
  have run: "get_new_pcb raw junk k = Inr (a, ?k')"
    using S(1)[folded sl] a0 s2(1) s3(1) upd K1(2)
    unfolding get_new_pcb_def K(2) s1(1) by (simp add: Let_def)
  have v': "vm ?k' = s3" by simp
  have kp: "keeps_pages p fs (mem (vm k)) (drop n fs) (mem s3)"
    unfolding keeps_pages_def
  proof (intro allI impI)
    fix h
    assume h: "data_page (mem (vm k)) p fs h"
    have "f \<in> set fs" using f in_set_dropD[of f n1 fs] by simp
    then have hf: "h \<noteq> f" using h by (auto simp: data_page_def)
    from keeps_pages_trans[OF M(9)[unfolded f] P(6)] h
    have h2: "data_page (mem s2) p (drop n2 gs) h" "\<forall>b<4096. mem s2 (h + of_nat b) = mem (vm k) (h + of_nat b)"
      by (simp_all add: keeps_pages_def)
    have "data_page (mem (vm ?k1)) p (t # hs) h" using S(6)[of h] h2(1) t by simp
    with T(7) have h3: "data_page (mem s3) p (drop n3 hs) h" "\<forall>b<4096. mem s3 (h + of_nat b) = mem (vm ?k1) (h + of_nat b)"
      by (simp_all add: keeps_pages_def)
    then show "data_page (mem s3) p (drop n fs) h \<and> (\<forall>b<4096. mem s3 (h + of_nat b) = mem (vm k) (h + of_nat b))"
      using S(7)[of h] h2 hf fs' by simp
  qed
  have kb: "keeps_below p (vm k) s3"
  proof (rule keeps_below_trans[OF M(8)], rule keeps_below_trans)
    show "keeps_below p s1 s2" using maps_one_below[OF P(4) av1(2)] Q(3) by (simp add: word_le_nat_alt)
    show "keeps_below p s2 s3"
    proof (rule keeps_below_trans)
      show "keeps_below p s2 (vm ?k1)" using S(5) by (simp add: keeps_below_def stored_def)
      show "keeps_below p (vm ?k1) s3" using maps_one_below[OF T(6) K1(8)] R(3) by (simp add: word_le_nat_alt)
    qed
  qed
  have "data_page (mem (vm ?k1)) p (t # hs) f" using S(6)[of f] P(5) t by simp
  note F = keeps_slot[OF T(7) this i] and D = this
  have "rd64 (mem s3) (slot f 511) = 0" using F S(4)[OF f' i] by simp
  moreover have "stack_page p (drop n fs) (mem s3) ?st f"
  proof -
    have "available_virt_mem (vm ?k1) = ?st + PAGESIZE" using P(7) by (simp add: stored_def)
    moreover have "drop_bit 12 ?st \<noteq> drop_bit 12 (?st + PAGESIZE)"
    proof
      assume "drop_bit 12 ?st = drop_bit 12 (?st + PAGESIZE)"
      then have "unat (drop_bit 12 ?st) = unat (drop_bit 12 (?st + PAGESIZE))" by simp
      then show False using Q(3) P(7) by (simp add: drop_bit_eq_div unat_div_distrib)
    qed
    moreover have "translate (mem (vm ?k1)) p ?st = Some f"
      using S(5)[OF top_own(1)[OF av1(1)]] sp by (simp add: stack_page_def)
    ultimately have "translate (mem s3) p ?st = Some f"
      using T(6) top_own(1)[OF av1(1)] unfolding maps_one_def by auto
    moreover have "data_page (mem s3) p (drop n fs) f" using T(7) D fs' by (simp add: keeps_pages_def)
    ultimately show ?thesis using av1 by (simp add: stack_page_def)
  qed
  moreover have "kmem_ok p (drop n fs) r ?k'"
    using T(4,5) R K(1) K1(6) fs' by (simp add: kmem_ok_def put_pcb_def)
  moreover have "kmalloc_end s3 = unat a + 568" using R(2) Q(2) M(6) by (simp add: stored_def kmalloc_end_mem)
  moreover have "f \<in> set fs" using f in_set_dropD[of f n1 fs] by simp
  moreover have "?st < available_virt_mem s3" using R(3) Q(3) by (simp add: word_less_nat_alt stored_def)
  moreover have "t \<in> set fs"
    using t f in_set_dropD[of t n2 gs] in_set_dropD[of t n1 fs] by simp
  moreover have "t \<noteq> f"
  proof -
    have "distinct (f # gs)" using tables_okD(3)[OF M(2)[unfolded f]] .
    moreover have "t \<in> set gs" using t in_set_dropD[of t n2 gs] by simp
    ultimately show ?thesis by auto
  qed
  moreover have "n \<le> 12" using M(1) P(1) T(2) by (simp add: n_def)
  ultimately show ?thesis using run M(5,7) T(1,3) kp kb fs'
    by (intro exI[of _ a] exI[of _ ?k'] exI[of _ ?st] exI[of _ f] exI[of _ t] exI[of _ n]) (simp add: pcb_made_def)
qed

text \<open>The blocks of all processes lie apart, below what \<^verbatim>\<open>kmalloc\<close> hands out next, and no two have the same pid.\<close>

definition processes_ok :: "kernel \<Rightarrow> bool" where
  "processes_ok k =
     ((\<forall>q x. pcbs (sched_of k) q = Some x \<longrightarrow>
         q \<noteq> 0 \<and> unat q + 568 \<le> kmalloc_end (vm k) \<and> pid x \<le> prev_pid (sched_of k)) \<and>
      (\<forall>q q' x x'. pcbs (sched_of k) q = Some x \<and> pcbs (sched_of k) q' = Some x' \<and> q \<noteq> q' \<longrightarrow>
         pid x \<noteq> pid x' \<and> (unat q + 568 \<le> unat q' \<or> unat q' + 568 \<le> unat q)))"

lemma processes_ok_step:
  assumes "processes_ok k" and "pcb_made p fs r raw k a k' stack g table fs'"
    and "unat (prev_pid (sched_of k)) + 1 < 2 ^ 32"
  shows "processes_ok k'" and "pcbs (sched_of k) a = None"
proof -
  let ?n = "prev_pid (sched_of k) + 1"
  from assms(2) have M: "0xffffff8000000000 \<le> a" "kmalloc_end (vm k) \<le> unat a" "kmalloc_end (vm k') = unat a + 568"
    by (simp_all add: pcb_made_def)
  have sch: "sched_of k' = (put_pcb a (fresh_pcb (raw a) ?n stack table) (sched_of k))\<lparr>prev_pid := ?n\<rparr>"
    using assms(2) set_sched_simps(1) unfolding pcb_made_def by metis
  have old: "q \<noteq> 0 \<and> unat q + 568 \<le> unat a \<and> pid x \<le> prev_pid (sched_of k)" if "pcbs (sched_of k) q = Some x" for q x
    using assms(1) that M(2) by (fastforce simp: processes_ok_def)
  show "pcbs (sched_of k) a = None" using old[of a] by (cases "pcbs (sched_of k) a") auto
  have n: "unat ?n = unat (prev_pid (sched_of k)) + 1" using assms(3) by (simp add: unat_word_ariths)
  have pids: "pid x < ?n" if "pcbs (sched_of k) q = Some x" for q x
    using old[OF that] n by (simp add: word_less_nat_alt word_le_nat_alt)
  have at: "pcbs (sched_of k') q = (if q = a then Some (fresh_pcb (raw a) ?n stack table) else pcbs (sched_of k) q)" for q
    unfolding sch by (simp add: put_pcb_def)
  have np: "pid (fresh_pcb (raw a) ?n stack table) = ?n" "prev_pid (sched_of k') = ?n"
    unfolding sch by (simp_all add: fresh_pcb_def)
  have a0: "a \<noteq> 0" using M(1) by auto
  show "processes_ok k'"
    unfolding processes_ok_def np(2)
  proof (intro conjI allI impI)
    fix q x
    assume q: "pcbs (sched_of k') q = Some x"
    show "q \<noteq> 0" using q old a0 unfolding at by (cases "q = a") auto
    show "unat q + 568 \<le> kmalloc_end (vm k')" using q old[of q x] M(3) unfolding at by (cases "q = a") auto
    show "pid x \<le> ?n" using q pids[of q x] np(1) unfolding at by (cases "q = a") auto
  next
    fix q q' x x'
    assume h: "pcbs (sched_of k') q = Some x \<and> pcbs (sched_of k') q' = Some x' \<and> q \<noteq> q'"
    consider "q = a" "q' \<noteq> a" | "q \<noteq> a" "q' = a" | "q \<noteq> a" "q' \<noteq> a" using h by blast
    then have "pid x \<noteq> pid x' \<and> (unat q + 568 \<le> unat q' \<or> unat q' + 568 \<le> unat q)"
    proof cases
      case 1
      then have x: "x = fresh_pcb (raw a) ?n stack table" "pcbs (sched_of k) q' = Some x'" using h unfolding at by auto
      then show ?thesis using old[OF x(2)] pids[OF x(2)] np(1) 1 by auto
    next
      case 2
      then have x: "x' = fresh_pcb (raw a) ?n stack table" "pcbs (sched_of k) q = Some x" using h unfolding at by auto
      then show ?thesis using old[OF x(2)] pids[OF x(2)] np(1) 2 by auto
    next
      case 3
      then have "pcbs (sched_of k) q = Some x" "pcbs (sched_of k) q' = Some x'" using h unfolding at by auto
      then show ?thesis using assms(1) h unfolding processes_ok_def by blast
    qed
    then show "pid x \<noteq> pid x'" "unat q + 568 \<le> unat q' \<or> unat q' + 568 \<le> unat q" by blast+
  qed
qed

text \<open>No page table of a process is a free page, and no two processes have the same one.\<close>

definition tables_apart :: "u64 list \<Rightarrow> kernel \<Rightarrow> bool" where
  "tables_apart fs k =
     ((\<forall>q x. pcbs (sched_of k) q = Some x \<longrightarrow> pml4 x \<notin> set fs) \<and>
      (\<forall>q q' x x'. pcbs (sched_of k) q = Some x \<and> pcbs (sched_of k) q' = Some x' \<and> q \<noteq> q' \<longrightarrow> pml4 x \<noteq> pml4 x'))"

lemma tables_apart_step:
  assumes "tables_apart fs k" and "pcb_made p fs r raw k a k' stack g table (drop n fs)" and "tables_ok (mem (vm k)) p fs"
  shows "tables_apart (drop n fs) k'" and "table \<noteq> p"
proof -
  from assms(2) have T: "table \<in> set fs" "tables_ok (mem (vm k')) table (drop n fs)" by (simp_all add: pcb_made_def)
  have "sched_of k' = (put_pcb a (fresh_pcb (raw a) (prev_pid (sched_of k) + 1) stack table) (sched_of k))
      \<lparr>prev_pid := prev_pid (sched_of k) + 1\<rparr>"
    using assms(2) set_sched_simps(1) unfolding pcb_made_def by metis
  then have sch: "pcbs (sched_of k') = (pcbs (sched_of k))(a \<mapsto> fresh_pcb (raw a) (prev_pid (sched_of k) + 1) stack table)"
    by (simp add: put_pcb_def)
  have p4: "pml4 (fresh_pcb x n st table) = table" for x n st by (simp add: fresh_pcb_def)
  have o: "own 0" by (simp add: own_def idx_def)
  show "table \<noteq> p" using tables_okD(6)[OF assms(3) o, of 0 table] T(1) by auto
  have new: "table \<notin> set (drop n fs)" using tables_okD(6)[OF T(2) o, of 0 table] by auto
  show "tables_apart (drop n fs) k'"
    using assms(1) T(1) new unfolding tables_apart_def sch fun_upd_apply
    by (auto simp: p4 split: if_splits dest: in_set_dropD)
qed

text \<open>C15: \<^verbatim>\<open>_get_new_pcb\<close> returns a process of its own: a block apart from those of all other processes, a
  pid that no other has, a kernel stack in a fresh page with a zero on top, a page table of its own (a free page, which is not the
  running table and not that of any other process) that translates
  all addresses of the process as the running one does, and otherwise the initial values; the other
  processes and the pages that hold data are as before, and the memory is in order for the next call.\<close>

theorem new_process_separate:
  assumes "kmem_ok p fs (r + 3) k" and "12 \<le> length fs" and "processes_ok k" and "tables_apart fs k"
    and "unat (prev_pid (sched_of k)) + 1 < 2 ^ 32"
  shows "\<exists>a k' stack g table n. get_new_pcb raw junk k = Inr (a, k') \<and> n \<le> 12 \<and>
    pcb_made p fs r raw k a k' stack g table (drop n fs) \<and> processes_ok k' \<and> pcbs (sched_of k) a = None \<and>
    table \<in> set fs \<and> table \<noteq> p \<and> tables_apart (drop n fs) k'"
proof -
  from new_pcb_made[OF assms(1,2)] obtain a k' stack g table n where
    m: "get_new_pcb raw junk k = Inr (a, k')" "n \<le> 12" "pcb_made p fs r raw k a k' stack g table (drop n fs)" by blast
  have "table \<in> set fs" using m(3) by (simp add: pcb_made_def)
  with m processes_ok_step[OF assms(3) m(3) assms(5)] tables_apart_step[OF assms(4) m(3) kmem_okD(3)[OF assms(1)]]
  show ?thesis by blast
qed

section \<open>Boot\<close>

lemma put_put [simp]: "put_pcb a y (put_pcb a x s) = put_pcb a y s"
  by (simp add: put_pcb_def)

lemma put_fields [simp]:
  "pcbs (put_pcb a x s) q = (if q = a then Some x else pcbs s q)" "processq (put_pcb a x s) = processq s"
  "active_pcb (put_pcb a x s) = active_pcb s" "prev_pid (put_pcb a x s) = prev_pid s" "cpu_cr3 (put_pcb a x s) = cpu_cr3 s"
  by (simp_all add: put_pcb_def)

lemma stored_fields [simp]:
  "sched_of (stored g i w k) = sched_of k" "set_sched s (stored g i w k) = stored g i w (set_sched s k)"
  "kmalloc_end (vm (stored g i w k)) = kmalloc_end (vm k)"
  by (simp_all add: stored_def set_sched_def kmalloc_end_mem)

lemma kmem_ok_sched: "cpu_cr3 s = cpu_cr3 (sched_of k) \<Longrightarrow> kmem_ok p fs r (set_sched s k) = kmem_ok p fs r k"
  by (simp add: kmem_ok_def)

lemma upd_run:
  assumes "a \<noteq> 0" and "pcbs (sched_of k) a = Some x"
  shows "upd_pcb a f k = Inr (set_sched (put_pcb a (f x) (sched_of k)) k)"
  using assms by (simp add: upd_pcb_def deref_def)

definition named :: "char list \<Rightarrow> string \<Rightarrow> char list" where
  "named old s = splice old 0 (s @ [NUL])"

lemma name_run:
  assumes "a \<noteq> 0" and "pcbs (sched_of k) a = Some x" and "NUL \<notin> set s" and "length s < 50"
  shows "length (pname x) = 50 \<Longrightarrow>
      set_pname a (lit s) k = Inr (set_sched (put_pcb a (x\<lparr>pname := named (pname x) s\<rparr>) (sched_of k)) k)"
    and "length (wd x) = 50 \<Longrightarrow>
      set_wd a (lit s) 50 k = Inr (set_sched (put_pcb a (x\<lparr>wd := named (wd x) s\<rparr>) (sched_of k)) k)"
proof -
  have "terminated (lit s)" "clen (lit s) = length s" "cstr (lit s) = s"
    using assms(3) by (simp_all add: terminated_def lit_def clen_def cstr_def takeWhile_append)
  then have "length d = 50 \<Longrightarrow> kstrcpy d 0 (lit s) 50 = Inr (int (length s), named d s)" for d
    using kstrcpy_copies[of "lit s" 50 0 d] assms(4) by (simp add: named_def)
  then show "length (pname x) = 50 \<Longrightarrow>
      set_pname a (lit s) k = Inr (set_sched (put_pcb a (x\<lparr>pname := named (pname x) s\<rparr>) (sched_of k)) k)"
    and "length (wd x) = 50 \<Longrightarrow>
      set_wd a (lit s) 50 k = Inr (set_sched (put_pcb a (x\<lparr>wd := named (wd x) s\<rparr>) (sched_of k)) k)"
    using assms(1,2) by (simp_all add: set_pname_def set_wd_def upd_run deref_def)
qed

lemma cstr_named: "NUL \<notin> set s \<Longrightarrow> cstr (named d s) = s"
  by (simp add: named_def splice_def cstr_def takeWhile_append)

lemma push_run:
  assumes "kmem_ok p fs r k" and "a \<noteq> 0" and "pcbs (sched_of k) a = Some x"
    and "stack_page p fs (mem (vm k)) v g" and "i < 511" and "kernel_sp x = slot v (i + 1)"
  shows "push_kernel a w k = Inr (stored g i w (set_sched (put_pcb a (x\<lparr>kernel_sp := slot v i\<rparr>) (sched_of k)) k))"
    and "kmem_ok p fs r (stored g i w (set_sched (put_pcb a (x\<lparr>kernel_sp := slot v i\<rparr>) (sched_of k)) k))"
proof -
  let ?k = "set_sched (put_pcb a (x\<lparr>kernel_sp := slot v i\<rparr>) (sched_of k)) k"
  have e: "kernel_sp x - 8 = slot v i" using assms(6) by (simp add: slot_def algebra_simps)
  have k: "kmem_ok p fs r ?k" using assms(1) by (simp add: kmem_ok_sched)
  have i: "i < 512" using assms(5) by (simp add: word_less_nat_alt)
  have "stack_page p fs (mem (vm ?k)) v g" using assms(4) by simp
  from stack_store(1,2)[OF k this i] show "push_kernel a w k = Inr (stored g i w ?k)" "kmem_ok p fs r (stored g i w ?k)"
    using assms(2,3) e by (simp_all add: push_kernel_def upd_run deref_def)
qed

text \<open>Reading a kernel stack, also through a table that shares the entries.\<close>

lemma stack_addr:
  assumes "0xffffff8000000000 \<le> v" and "4096 dvd unat v" and "i < 512"
  shows "own (slot v i)"
proof -
  from assms(2) obtain q where q: "unat v = 4096 * q" by blast
  have "unat v < 2 ^ 64" by (rule unat64_lt)
  then have "unat v + 4096 \<le> 2 ^ 64" using q by simp
  moreover have "8 * unat i < 4096" using assms(3) by (simp add: word_less_nat_alt)
  ultimately have "unat (v + of_nat (8 * unat i)) = unat v + 8 * unat i" by (intro unat_add_of_nat64) simp
  then have "unat (slot v i) = unat v + 8 * unat i" by (simp add: slot_def)
  then have "0xffffff8000000000 \<le> slot v i" using assms(1) by (simp add: word_le_nat_alt)
  then show ?thesis by (rule top_own(1))
qed

lemma stack_read:
  assumes "tables_ok m p fs" and "stack_page p fs m v g" and "i < 512"
  shows "vrd64 (Paged p) (slot v i) m = Inr (rd64 m (slot g i))"
    and "shares_entries m p t \<Longrightarrow> is_frame t \<Longrightarrow> vrd64 (Paged t) (slot v i) m = Inr (rd64 m (slot g i))"
proof -
  from assms(2) have S: "0xffffff8000000000 \<le> v" "4096 dvd unat v" "translate m p v = Some g" "data_page m p fs g"
    by (simp_all add: stack_page_def)
  have ph: "phys_of m (Paged p) (slot v i) = Inr (slot g i)"
    using data_page_phys[OF assms(1) S(4) off_page_refl top_own(1)[OF S(1)] S(2,3) slot_nat(2)[OF assms(3)]]
    unfolding slot_nat(1)[OF assms(3), of v] slot_nat(1)[OF assms(3), of g] .
  then show "vrd64 (Paged p) (slot v i) m = Inr (rd64 m (slot g i))" by (simp add: vrd64_def)
  assume t: "shares_entries m p t" "is_frame t"
  have "translate m t (slot v i) = translate m p (slot v i)"
    using shares_walk[OF t(1) stack_addr[OF S(1,2) assms(3)], of 3]
    by (simp add: translate_frame[OF t(2)] translate_frame[OF tables_okD(1)[OF assms(1)]] eval_nat_numeral del: pwalk.simps)
  with ph show "vrd64 (Paged t) (slot v i) m = Inr (rd64 m (slot g i))" by (simp add: vrd64_def phys_of_def)
qed

text \<open>The state in which \<^verbatim>\<open>init\<close> leaves the kernel: the idle process runs, the shell is queued behind it.\<close>

definition booted :: "u64 \<Rightarrow> u64 \<Rightarrow> u64 \<Rightarrow> u64 \<Rightarrow> u64 \<Rightarrow> pcb \<Rightarrow> u64 \<Rightarrow> pcb \<Rightarrow> kernel \<Rightarrow> bool" where
  "booted p idle_fn thread_fn rsp idle x shell y k =
     (sched_ok (sched_of k) [shell] \<and> active_pcb (sched_of k) = idle \<and> pcbs (sched_of k) idle = Some x \<and>
      pid x = 1 \<and> status x = RUNNING \<and> cstr (pname x) = ''system_idle_process'' \<and> rsp = kernel_sp x \<and>
      vrd64 (Paged p) rsp (mem (vm k)) = Inr idle_fn \<and>
      pcbs (sched_of k) shell = Some y \<and> pid y = 2 \<and> status y = READY \<and> cstr (pname y) = ''/bin/sbush'' \<and>
      cstr (wd y) = ''/'' \<and> vrd64 (Paged (pml4 y)) (kernel_sp y) (mem (vm k)) = Inr 0 \<and>
      vrd64 (Paged (pml4 y)) (kernel_sp y + 8) (mem (vm k)) = Inr thread_fn)"

text \<open>One of the two processes: created, named, and a first word pushed under the zero of its stack.\<close>

lemma spawn_pushed:
  assumes "pcb_made p fs r raw k0 a k stack g table fs'" and "0 < a"
    and "x' = (fresh_pcb (raw a) (prev_pid (sched_of k0) + 1) stack table)\<lparr>pname := nm, wd := w0, status := st\<rparr>"
  shows "push_kernel a w (set_sched (put_pcb a x' (sched_of k)) k) =
      Inr (stored g 510 w (set_sched (put_pcb a (x'\<lparr>kernel_sp := slot stack 510\<rparr>) (sched_of k)) k))"
    and "kmem_ok p fs' r (stored g 510 w (set_sched (put_pcb a (x'\<lparr>kernel_sp := slot stack 510\<rparr>) (sched_of k)) k))"
    and "stack_page p fs' (mem (vm (stored g 510 w (set_sched (put_pcb a (x'\<lparr>kernel_sp := slot stack 510\<rparr>) (sched_of k)) k)))) stack g"
    and "rd64 (mem (vm (stored g 510 w (set_sched (put_pcb a (x'\<lparr>kernel_sp := slot stack 510\<rparr>) (sched_of k)) k)))) (slot g 510) = w"
proof -
  let ?k0 = "set_sched (put_pcb a x' (sched_of k)) k"
  from assms(1) have M: "kmem_ok p fs' r k" "stack_page p fs' (mem (vm k)) stack g" by (simp_all add: pcb_made_def)
  have k0: "kmem_ok p fs' r ?k0" "stack_page p fs' (mem (vm ?k0)) stack g" using M by (simp_all add: kmem_ok_sched)
  have x: "pcbs (sched_of ?k0) a = Some x'" "kernel_sp x' = slot stack (510 + 1)" "a \<noteq> 0" "(510 :: u64) < 511"
    using assms(2) unfolding assms(3) by (simp_all add: fresh_pcb_def top_slot)
  note P = push_run[OF k0(1) x(3,1) k0(2) x(4,2), of w]
  show "push_kernel a w ?k0 = Inr (stored g 510 w (set_sched (put_pcb a (x'\<lparr>kernel_sp := slot stack 510\<rparr>) (sched_of k)) k))"
    "kmem_ok p fs' r (stored g 510 w (set_sched (put_pcb a (x'\<lparr>kernel_sp := slot stack 510\<rparr>) (sched_of k)) k))"
    using P by simp_all
  let ?k1 = "set_sched (put_pcb a (x'\<lparr>kernel_sp := slot stack 510\<rparr>) (sched_of k)) k"
  have k1: "kmem_ok p fs' r ?k1" "stack_page p fs' (mem (vm ?k1)) stack g" "(510 :: u64) < 512" using M by (simp_all add: kmem_ok_sched)
  have "is_frame g" using M(2) by (simp add: stack_page_def data_page_def)
  then show "stack_page p fs' (mem (vm (stored g 510 w ?k1))) stack g" "rd64 (mem (vm (stored g 510 w ?k1))) (slot g 510) = w"
    using stack_store(3)[OF k1 k1(2)] stack_store(4)[OF k1, of g 510 w] k1(3) by simp_all
qed

text \<open>The idle process: its stack holds the entry of the idle loop, and goes on to do so.\<close>

lemma idle_made:
  assumes "kmem_ok p fs (r + 3) k" and "12 \<le> length fs" and "prev_pid (sched_of k) = 0"
    and "\<And>a. length (pname (raw a)) = 50"
  shows "\<exists>a k1 k4 x stack g n. get_new_pcb raw junk k = Inr (a, k1) \<and> n \<le> 12 \<and> a \<noteq> 0 \<and>
    bindr (set_pname a (lit ''system_idle_process'') k1) (\<lambda>k.
      bindr (upd_pcb a (\<lambda>x. x\<lparr>status := RUNNING\<rparr>) k) (push_kernel a idle_fn)) = Inr k4 \<and>
    kmem_ok p (drop n fs) r k4 \<and> prev_pid (sched_of k4) = 1 \<and> kmalloc_end (vm k4) = unat a + 568 \<and>
    processq (sched_of k4) = processq (sched_of k) \<and>
    pcbs (sched_of k4) a = Some x \<and> pid x = 1 \<and> status x = RUNNING \<and> cstr (pname x) = ''system_idle_process'' \<and>
    kernel_sp x = slot stack 510 \<and> stack_page p (drop n fs) (mem (vm k4)) stack g \<and> stack < available_virt_mem (vm k4) \<and>
    rd64 (mem (vm k4)) (slot g 510) = idle_fn"
proof -
  from new_pcb_made[OF assms(1,2), of raw junk] obtain a k1 stack g table n where
    k1: "get_new_pcb raw junk k = Inr (a, k1)" "n \<le> 12" "pcb_made p fs r raw k a k1 stack g table (drop n fs)" by blast
  have a: "0 < a" using k1(3) by (auto simp: pcb_made_def word_less_nat_alt word_le_nat_alt)
  let ?x = "fresh_pcb (raw a) (prev_pid (sched_of k) + 1) stack table"
  let ?nm = "named (pname (raw a)) ''system_idle_process''"
  let ?y = "?x\<lparr>pname := ?nm, wd := wd (raw a), status := RUNNING\<rparr>"
  have sch: "sched_of k1 = (put_pcb a ?x (sched_of k))\<lparr>prev_pid := prev_pid (sched_of k) + 1\<rparr>"
    using k1(3) set_sched_simps(1) unfolding pcb_made_def by metis
  have at: "pcbs (sched_of k1) a = Some ?x" "a \<noteq> 0" using a unfolding sch by auto
  have len: "length (pname ?x) = 50" "pname ?x = pname (raw a)" using assms(4) by (simp_all add: fresh_pcb_def)
  have y: "?x\<lparr>pname := ?nm, status := RUNNING\<rparr> = ?y" by (simp add: fresh_pcb_def)
  have nul: "NUL \<notin> set ''system_idle_process''" "length ''system_idle_process'' < 50" by simp_all
  note N = name_run(1)[OF at(2,1) nul len(1), unfolded len(2)]
  note S = spawn_pushed[OF k1(3) a refl, where nm = ?nm and ?w0.0 = "wd (raw a)" and st = RUNNING and w = idle_fn]
  let ?k4 = "stored g 510 idle_fn (set_sched (put_pcb a (?y\<lparr>kernel_sp := slot stack 510\<rparr>) (sched_of k1)) k1)"
  have run: "bindr (set_pname a (lit ''system_idle_process'') k1) (\<lambda>k.
      bindr (upd_pcb a (\<lambda>x. x\<lparr>status := RUNNING\<rparr>) k) (push_kernel a idle_fn)) = Inr ?k4"
    using S(1) at(2) by (simp add: N upd_run y)
  have f: "sched_of ?k4 = put_pcb a (?y\<lparr>kernel_sp := slot stack 510\<rparr>) (sched_of k1)" by (simp only: stored_fields set_sched_simps)
  have e: "kmalloc_end (vm ?k4) = unat a + 568" "stack < available_virt_mem (vm ?k4)"
    using k1(3) by (simp_all only: pcb_made_def stored_fields set_sched_simps) (simp add: stored_def)
  have p1: "prev_pid (sched_of ?k4) = 1" "processq (sched_of ?k4) = processq (sched_of k)"
    unfolding f put_fields unfolding sch using assms(3) by simp_all
  have x1: "pcbs (sched_of ?k4) a = Some (?y\<lparr>kernel_sp := slot stack 510\<rparr>)" unfolding f by simp
  have x2: "pid (?y\<lparr>kernel_sp := slot stack 510\<rparr>) = 1" "status (?y\<lparr>kernel_sp := slot stack 510\<rparr>) = RUNNING"
    "cstr (pname (?y\<lparr>kernel_sp := slot stack 510\<rparr>)) = ''system_idle_process''"
    "kernel_sp (?y\<lparr>kernel_sp := slot stack 510\<rparr>) = slot stack 510"
    using assms(3) cstr_named[OF nul(1)] by (simp_all add: fresh_pcb_def)
  show ?thesis
    by (rule exI[of _ a], rule exI[of _ k1], rule exI[of _ ?k4], rule exI[of _ "?y\<lparr>kernel_sp := slot stack 510\<rparr>"],
        rule exI[of _ stack], rule exI[of _ g], rule exI[of _ n])
      (intro conjI k1(1,2) at(2) run S(2-4) e p1 x1 x2)
qed

lemma shares_stored:
  assumes "kmem_ok p fs r k" and "stack_page p fs (mem (vm k)) v g" and "i < 512" and "shares_entries (mem (vm k)) p t"
    and "is_frame t" and "t \<noteq> g"
  shows "shares_entries (mem (vm (stored g i w k))) p t"
proof -
  note K = kmem_okD[OF assms(1)]
  have "p \<noteq> g"
    using off_page_tables(4)[OF K(3) _ off_page_refl, of g] assms(2) by (simp add: stack_page_def)
  then show ?thesis
    using assms(4,6) stack_store(4)[OF assms(1-3) assms(5)] stack_store(4)[OF assms(1-3) tables_okD(1)[OF K(3)]]
    by (simp add: shares_entries_def)
qed

text \<open>The shell: on its stack the zero that \<^verbatim>\<open>schedule\<close> pops and the entry of \<^verbatim>\<open>k_thread_kernel\<close>, also when
  read through its own page table; the stacks made before stay.\<close>

lemma shell_made:
  assumes "kmem_ok p fs (r + 3) k" and "12 \<le> length fs"
    and "\<And>a. length (pname (raw a)) = 50 \<and> length (wd (raw a)) = 50"
  shows "\<exists>b k1 k9 y n. get_new_pcb raw junk k = Inr (b, k1) \<and> b \<noteq> 0 \<and> kmalloc_end (vm k) \<le> unat b \<and>
    bindr (set_pname b (lit ''/bin/sbush'') k1) (\<lambda>k. bindr (set_wd b (lit ''/'') 50 k) (\<lambda>k.
      bindr (upd_pcb b (\<lambda>x. x\<lparr>status := READY\<rparr>) k) (\<lambda>k.
      bindr (push_kernel b thread_fn k) (push_kernel b 0)))) = Inr k9 \<and>
    kmem_ok p (drop n fs) r k9 \<and>
    sched_of k9 = (put_pcb b y (sched_of k))\<lparr>prev_pid := prev_pid (sched_of k) + 1\<rparr> \<and>
    pid y = prev_pid (sched_of k) + 1 \<and> status y = READY \<and> cstr (pname y) = ''/bin/sbush'' \<and> cstr (wd y) = ''/'' \<and>
    vrd64 (Paged (pml4 y)) (kernel_sp y) (mem (vm k9)) = Inr 0 \<and>
    vrd64 (Paged (pml4 y)) (kernel_sp y + 8) (mem (vm k9)) = Inr thread_fn \<and>
    (\<forall>v g. stack_page p fs (mem (vm k)) v g \<and> v < available_virt_mem (vm k) \<longrightarrow>
       stack_page p (drop n fs) (mem (vm k9)) v g \<and>
       (\<forall>i<512. rd64 (mem (vm k9)) (slot g i) = rd64 (mem (vm k)) (slot g i)))"
proof -
  from new_pcb_made[OF assms(1,2), of raw junk] obtain b k1 st g t n where
    k1: "get_new_pcb raw junk k = Inr (b, k1)" "pcb_made p fs r raw k b k1 st g t (drop n fs)" by blast
  let ?fs = "drop n fs"
  from k1(2) have M: "kmem_ok p ?fs r k1" "stack_page p ?fs (mem (vm k1)) st g" "g \<in> set fs" "shares_entries (mem (vm k1)) p t"
    "tables_ok (mem (vm k1)) t ?fs" "t \<noteq> g" "kmalloc_end (vm k) \<le> unat b" "keeps_pages p fs (mem (vm k)) ?fs (mem (vm k1))"
    "keeps_below p (vm k) (vm k1)" by (simp_all add: pcb_made_def)
  have b: "0 < b" using k1(2) by (auto simp: pcb_made_def word_less_nat_alt word_le_nat_alt)
  let ?x = "fresh_pcb (raw b) (prev_pid (sched_of k) + 1) st t"
  let ?nm = "named (pname (raw b)) ''/bin/sbush''" and ?w = "named (wd (raw b)) ''/''"
  let ?y = "?x\<lparr>pname := ?nm, wd := ?w, status := READY\<rparr>"
  have sch: "sched_of k1 = (put_pcb b ?x (sched_of k))\<lparr>prev_pid := prev_pid (sched_of k) + 1\<rparr>"
    using k1(2) set_sched_simps(1) unfolding pcb_made_def by metis
  have at: "pcbs (sched_of k1) b = Some ?x" "b \<noteq> 0" using b unfolding sch by auto
  have len: "length (pname ?x) = 50" "pname ?x = pname (raw b)" "wd ?x = wd (raw b)" "length (wd (raw b)) = 50"
    using assms(3) by (simp_all add: fresh_pcb_def)
  have nul: "NUL \<notin> set ''/bin/sbush''" "length ''/bin/sbush'' < 50" "NUL \<notin> set ''/''" "length ''/'' < 50" by simp_all
  note N = name_run(1)[OF at(2,1) nul(1,2) len(1), unfolded len(2)]
  let ?k2 = "set_sched (put_pcb b (?x\<lparr>pname := ?nm\<rparr>) (sched_of k1)) k1"
  have at2: "pcbs (sched_of ?k2) b = Some (?x\<lparr>pname := ?nm\<rparr>)" "length (wd (?x\<lparr>pname := ?nm\<rparr>)) = 50" using len(3,4) by simp_all
  note W = name_run(2)[OF at(2) at2(1) nul(3,4) at2(2)]
  note S = spawn_pushed[OF k1(2) b refl, where nm = ?nm and ?w0.0 = ?w and st = READY and w = thread_fn]
  let ?k8 = "stored g 510 thread_fn (set_sched (put_pcb b (?y\<lparr>kernel_sp := slot st 510\<rparr>) (sched_of k1)) k1)"
  have at8: "pcbs (sched_of ?k8) b = Some (?y\<lparr>kernel_sp := slot st 510\<rparr>)" "(509 :: u64) < 511"
    "kernel_sp (?y\<lparr>kernel_sp := slot st 510\<rparr>) = slot st (509 + 1)" by simp_all
  note P = push_run[OF S(2) at(2) at8(1) S(3) at8(2,3), of 0]
  let ?z = "?y\<lparr>kernel_sp := slot st 509\<rparr>"
  let ?k0 = "set_sched (put_pcb b ?z (sched_of k1)) k1"
  let ?k9 = "stored g 509 0 (stored g 510 thread_fn ?k0)"
  let ?k8' = "stored g 510 thread_fn ?k0"
  have y: "?x\<lparr>pname := ?nm, wd := ?w, status := READY\<rparr> = ?y" by simp
  have run: "bindr (set_pname b (lit ''/bin/sbush'') k1) (\<lambda>k. bindr (set_wd b (lit ''/'') 50 k) (\<lambda>k.
      bindr (upd_pcb b (\<lambda>x. x\<lparr>status := READY\<rparr>) k) (\<lambda>k.
      bindr (push_kernel b thread_fn k) (push_kernel b 0)))) = Inr ?k9"
    using S(1) P(1) at(2) W len(3) unfolding N by (simp add: upd_run)
  have K0: "kmem_ok p ?fs r ?k0" "stack_page p ?fs (mem (vm ?k0)) st g" using M(1,2) by (simp_all add: kmem_ok_sched)
  have i: "(510 :: u64) < 512" "(509 :: u64) < 512" by simp_all
  note A = stack_store[OF K0 i(1), where w = thread_fn]
  note B = stack_store[OF A(2) A(3)[OF K0(2)] i(2), where w = 0]
  have g: "is_frame g" "is_frame t" using M(2) tables_okD(1)[OF M(5)] by (simp_all add: stack_page_def data_page_def)
  have sp: "stack_page p ?fs (mem (vm ?k9)) st g" using B(3) A(3)[OF K0(2)] by blast
  have sh: "shares_entries (mem (vm ?k9)) p t"
    by (rule shares_stored[OF A(2) A(3)[OF K0(2)] i(2) shares_stored[OF K0 i(1)]]) (use M(4,6) g in simp_all)
  note T9 = kmem_okD(3)[OF B(2)]
  have rd: "rd64 (mem (vm ?k9)) (slot g 509) = 0" "rd64 (mem (vm ?k9)) (slot g 510) = thread_fn"
    using B(4)[OF g(1) i(2)] B(4)[OF g(1) i(1)] A(4)[OF g(1) i(1)] by simp_all
  have z: "pml4 ?z = t" "kernel_sp ?z = slot st 509" "pid ?z = prev_pid (sched_of k) + 1" "status ?z = READY"
    by (simp_all add: fresh_pcb_def)
  have stk: "vrd64 (Paged (pml4 ?z)) (kernel_sp ?z) (mem (vm ?k9)) = Inr 0"
    "vrd64 (Paged (pml4 ?z)) (kernel_sp ?z + 8) (mem (vm ?k9)) = Inr thread_fn"
  proof -
    have "kernel_sp ?z + 8 = slot st 510" unfolding z(2) by (simp add: slot_def)
    then show "vrd64 (Paged (pml4 ?z)) (kernel_sp ?z) (mem (vm ?k9)) = Inr 0"
      "vrd64 (Paged (pml4 ?z)) (kernel_sp ?z + 8) (mem (vm ?k9)) = Inr thread_fn"
      using stack_read(2)[OF T9 sp i(2) sh g(2)] stack_read(2)[OF T9 sp i(1) sh g(2)] rd z(1,2) by simp_all
  qed
  have old: "stack_page p ?fs (mem (vm ?k9)) v h \<and> (\<forall>i<512. rd64 (mem (vm ?k9)) (slot h i) = rd64 (mem (vm k)) (slot h i))"
    if h: "stack_page p fs (mem (vm k)) v h" "v < available_virt_mem (vm k)" for v h
  proof -
    from h(1) have H: "0xffffff8000000000 \<le> v" "translate (mem (vm k)) p v = Some h" "data_page (mem (vm k)) p fs h" "4096 dvd unat v"
      by (simp_all add: stack_page_def)
    have hg: "h \<noteq> g" "is_frame h" using H(3) M(3) by (auto simp: data_page_def)
    have "translate (mem (vm k1)) p v = Some h" using M(9) top_own(1)[OF H(1)] h(2) H(2) by (simp add: keeps_below_def)
    moreover have "data_page (mem (vm k1)) p ?fs h" using M(8) H(3) by (simp add: keeps_pages_def)
    ultimately have "stack_page p ?fs (mem (vm ?k0)) v h" using H(1,4) by (simp add: stack_page_def)
    then have "stack_page p ?fs (mem (vm ?k9)) v h" using B(3) A(3) by blast
    moreover have "rd64 (mem (vm ?k9)) (slot h i) = rd64 (mem (vm k)) (slot h i)" if "i < 512" for i
      using B(4)[OF hg(2) that] A(4)[OF hg(2) that] hg(1) keeps_slot[OF M(8) H(3) that] by simp
    ultimately show ?thesis by blast
  qed
  have s9: "sched_of ?k9 = (put_pcb b ?z (sched_of k))\<lparr>prev_pid := prev_pid (sched_of k) + 1\<rparr>"
    unfolding stored_fields set_sched_simps sch by (simp add: put_pcb_def)
  have nms: "cstr (pname ?z) = ''/bin/sbush''" "cstr (wd ?z) = ''/''" using cstr_named nul(1,3) by simp_all
  show ?thesis
    by (rule exI[of _ b], rule exI[of _ k1], rule exI[of _ ?k9], rule exI[of _ ?z], rule exI[of _ n])
      (intro conjI k1(1) at(2) M(7) run B(2) s9 z(3,4) nms stk allI impI old; blast)
qed

lemma init_makes:
  assumes "kmem_ok p fs (r + 6) k" and "24 \<le> length fs" and "prev_pid (sched_of k) = 0"
    and "processq (sched_of k) = (replicate 100 0, 0, 0)" and "\<And>a. length (pname (raw a)) = 50 \<and> length (wd (raw a)) = 50"
  shows "\<exists>rsp k' idle x shell y. init raw junk idle_fn thread_fn k = Inr (rsp, k') \<and>
    booted p idle_fn thread_fn rsp idle x shell y k'"
proof -
  have a1: "kmem_ok p fs ((r + 3) + 3) k" "12 \<le> length fs" "\<And>a. length (pname (raw a)) = 50"
    using assms(1,2,5) by (simp_all add: add.assoc)
  from idle_made[where idle_fn = idle_fn and junk = junk and raw = raw, OF a1(1,2) assms(3) a1(3)]
  obtain a k1 k4 x stack g n where
    i: "get_new_pcb raw junk k = Inr (a, k1)" "n \<le> 12" "a \<noteq> 0"
      "bindr (set_pname a (lit ''system_idle_process'') k1) (\<lambda>k.
        bindr (upd_pcb a (\<lambda>x. x\<lparr>status := RUNNING\<rparr>) k) (push_kernel a idle_fn)) = Inr k4"
      "kmem_ok p (drop n fs) (r + 3) k4" "prev_pid (sched_of k4) = 1" "kmalloc_end (vm k4) = unat a + 568"
      "processq (sched_of k4) = processq (sched_of k)"
      "pcbs (sched_of k4) a = Some x" "pid x = 1" "status x = RUNNING" "cstr (pname x) = ''system_idle_process''"
      "kernel_sp x = slot stack 510" "stack_page p (drop n fs) (mem (vm k4)) stack g" "stack < available_virt_mem (vm k4)"
      "rd64 (mem (vm k4)) (slot g 510) = idle_fn" by (elim exE conjE) (rule that)
  have l: "12 \<le> length (drop n fs)" using assms(2) i(2) by simp
  from shell_made[where thread_fn = thread_fn and junk = junk and raw = raw, OF i(5) l assms(5)]
  obtain b k5 k9 y n2 where
    s: "get_new_pcb raw junk k4 = Inr (b, k5)" "b \<noteq> 0" "kmalloc_end (vm k4) \<le> unat b"
      "bindr (set_pname b (lit ''/bin/sbush'') k5) (\<lambda>k. bindr (set_wd b (lit ''/'') 50 k) (\<lambda>k.
        bindr (upd_pcb b (\<lambda>x. x\<lparr>status := READY\<rparr>) k) (\<lambda>k.
        bindr (push_kernel b thread_fn k) (push_kernel b 0)))) = Inr k9"
      "kmem_ok p (drop n2 (drop n fs)) r k9"
      "sched_of k9 = (put_pcb b y (sched_of k4))\<lparr>prev_pid := prev_pid (sched_of k4) + 1\<rparr>"
      "pid y = prev_pid (sched_of k4) + 1" "status y = READY" "cstr (pname y) = ''/bin/sbush''" "cstr (wd y) = ''/''"
      "vrd64 (Paged (pml4 y)) (kernel_sp y) (mem (vm k9)) = Inr 0"
      "vrd64 (Paged (pml4 y)) (kernel_sp y + 8) (mem (vm k9)) = Inr thread_fn"
      "\<And>v g. stack_page p (drop n fs) (mem (vm k4)) v g \<Longrightarrow> v < available_virt_mem (vm k4) \<Longrightarrow>
         stack_page p (drop n2 (drop n fs)) (mem (vm k9)) v g \<and>
         (\<forall>i<512. rd64 (mem (vm k9)) (slot g i) = rd64 (mem (vm k4)) (slot g i))" by (elim exE conjE) (rule that; blast)
  have ab: "a \<noteq> b" using i(7) s(3) by auto
  have at: "pcbs (sched_of k9) a = Some x" "pcbs (sched_of k9) b = Some y" unfolding s(6) using ab i(9) by simp_all
  have q: "processq (sched_of k9) = (replicate 100 0, 0, 0)" unfolding s(6) using i(8) assms(4) by simp
  let ?arr = "(replicate 100 0)[0 := a, 1 := b]"
  let ?s = "(sched_of k9)\<lparr>active_pcb := a, processq := (?arr, 1, 2)\<rparr>"
  let ?k = "set_sched ?s k9"
  have st: "stack_page p (drop n2 (drop n fs)) (mem (vm k9)) stack g" "rd64 (mem (vm k9)) (slot g 510) = idle_fn"
    using s(13)[OF i(14,15)] i(16) by simp_all
  have "vrd64 (Paged p) (kernel_sp x) (mem (vm k9)) = Inr idle_fn"
    using stack_read(1)[OF kmem_okD(3)[OF s(5)] st(1), of 510] st(2) i(13) by simp
  moreover have "sched_ok ?s [b]"
    using ab at i(3) s(2) by (simp add: sched_ok_def ring_repr_def blocks_ok_def)
  ultimately have booted: "booted p idle_fn thread_fn (kernel_sp x) a x b y ?k"
    unfolding booted_def using at i(6,10-12) s(7-12) by simp
  have f: "status x \<noteq> FINISHED" "status y \<noteq> FINISHED" using i(11) s(8) by simp_all
  have p1: "ring_push a (replicate 100 0, 0, 0) = ((replicate 100 0)[0 := a], 0, 1)"
    "ring_push b ((replicate 100 0)[0 := a], 0, 1) = (?arr, 0, 2)" by (simp_all add: ring_push_def)
  have e1: "enqueue_process a (sched_of k9) = Inr ((sched_of k9)\<lparr>processq := ((replicate 100 0)[0 := a], 0, 1)\<rparr>)"
    using at(1) i(3) f(1) p1(1) q by (simp add: enqueue_process_def deref_def)
  have e2: "enqueue_process b ((sched_of k9)\<lparr>processq := ((replicate 100 0)[0 := a], 0, 1)\<rparr>) =
      Inr ((sched_of k9)\<lparr>processq := (?arr, 0, 2)\<rparr>)"
    using at(2) s(2) f(2) p1(2) by (simp add: enqueue_process_def deref_def)
  from i(4) obtain ka kb where c1: "set_pname a (lit ''system_idle_process'') k1 = Inr ka"
    "upd_pcb a (\<lambda>x. x\<lparr>status := RUNNING\<rparr>) ka = Inr kb" "push_kernel a idle_fn kb = Inr k4" by blast
  from s(4) obtain kc kd ke kf where c2: "set_pname b (lit ''/bin/sbush'') k5 = Inr kc" "set_wd b (lit ''/'') 50 kc = Inr kd"
    "upd_pcb b (\<lambda>x. x\<lparr>status := READY\<rparr>) kd = Inr ke" "push_kernel b thread_fn ke = Inr kf" "push_kernel b 0 kf = Inr k9"
    by blast
  have "init raw junk idle_fn thread_fn k = Inr (kernel_sp x, ?k)"
    unfolding init_def i(1) bindr_Inr case_prod_conv c1 s(1) c2 e1 e2
    using at(1) i(3) by (simp add: deref_def Let_def)
  with booted show ?thesis by blast
qed

lemma booted_rotation:
  assumes "booted p idle_fn thread_fn rsp idle x shell y k"
  shows "rotation (sched_of k) [shell] = Some (shell, [idle])"
  using assms
  by (auto simp: booted_def rotation_def candidates_def has_status_def sched_ok_def blocks_ok_def)

text \<open>C7: \<^verbatim>\<open>init\<close> boots: it returns with the idle process (pid 1) running and the shell (pid 2, \<^verbatim>\<open>/bin/sbush\<close>,
  directory \<^verbatim>\<open>/\<close>) in the run queue, the word on top of the stack it returns to is the entry of the idle
  loop, and the loop's first call of \<^verbatim>\<open>schedule\<close> gives the processor to the shell, whose stack, read through
  its own page table, leads to \<^verbatim>\<open>k_thread_kernel\<close>.\<close>

theorem init_boots_shell:
  assumes "kmem_ok p fs (r + 6) k" and "24 \<le> length fs" and "prev_pid (sched_of k) = 0"
    and "processq (sched_of k) = (replicate 100 0, 0, 0)" and "\<And>a. length (pname (raw a)) = 50 \<and> length (wd (raw a)) = 50"
  shows "\<exists>rsp k' idle x shell y. init raw junk idle_fn thread_fn k = Inr (rsp, k') \<and>
    booted p idle_fn thread_fn rsp idle x shell y k' \<and>
    (\<forall>sp. \<exists>s'. schedule sp (sched_of k') = Some (Inr (kernel_sp y, s')) \<and> active_pcb s' = shell \<and>
       cpu_cr3 s' = pml4 y \<and> tss_rsp0 s' = kernel_stack y + PAGESIZE \<and> sched_ok s' [idle])"
proof -
  from init_makes[where raw = raw and junk = junk and idle_fn = idle_fn and thread_fn = thread_fn, OF assms] obtain rsp k' idle x shell y where
    i: "init raw junk idle_fn thread_fn k = Inr (rsp, k')" "booted p idle_fn thread_fn rsp idle x shell y k'" by blast
  have ok: "sched_ok (sched_of k') [shell]" "idle \<noteq> shell" "pcbs (sched_of k') shell = Some y" "active_pcb (sched_of k') = idle"
    using i(2) by (auto simp: booted_def sched_ok_def blocks_ok_def)
  have "\<exists>s'. schedule sp (sched_of k') = Some (Inr (kernel_sp y, s')) \<and> active_pcb s' = shell \<and>
      cpu_cr3 s' = pml4 y \<and> tss_rsp0 s' = kernel_stack y + PAGESIZE \<and> sched_ok s' [idle]" for sp
  proof -
    from schedule_simulates_rotation[OF ok(1) booted_rotation[OF i(2)], of sp] obtain z s' where
      z: "schedule sp (sched_of k') = Some (Inr (kernel_sp z, s'))" "sched_ok s' [idle]" "pcbs s' = pcbs (saved sp (sched_of k'))"
        "active_pcb s' = shell" "pcbs s' shell = Some z" "cpu_cr3 s' = pml4 z" "tss_rsp0 s' = kernel_stack z + PAGESIZE" by blast
    have "z = y" using z(3,5) ok by (auto simp: saved_def put_pcb_def split: option.splits)
    then show ?thesis using z by blast
  qed
  with i show ?thesis by blast
qed

text \<open>The state before \<^verbatim>\<open>init\<close> for the examples: 24 free pages and no process.\<close>

definition before_init :: kernel where
  "before_init = set_sched (process_init ((fork_sched 1)\<lparr>pcbs := Map.empty, active_pcb := 0, cpu_cr3 := 0x1000\<rparr>))
     (demo_kernel\<lparr>vm := (boot_mm (\<lambda>_. 0))\<lparr>lists := boot_pool\<rparr>\<rparr>)"

lemma before_init_ok: "kmem_ok 0x1000 boot_pages 6 before_init" "processes_ok before_init" "length boot_pages = 24"
  "processq (sched_of before_init) = (replicate 100 0, 0, 0)" "prev_pid (sched_of before_init) = 0"
proof -
  have "tables_ok (boot_ram 0x1000 (\<lambda>_. 0)) 0x1000 boot_pages"
    by (rule boot_tables) (auto simp: boot_pages_def is_frame_iff)
  moreover have "free_frames ((boot_mm (\<lambda>_. 0))\<lparr>lists := boot_pool\<rparr>) boot_pages"
    using boot_pool_free by (simp add: free_frames_def before_paging_def)
  moreover have "kmalloc_ok 0x1000 ((boot_mm (\<lambda>_. 0))\<lparr>lists := boot_pool\<rparr>)" by (simp add: kmalloc_ok_def boot_mm_def)
  ultimately show "kmem_ok 0x1000 boot_pages 6 before_init"
    by (simp add: kmem_ok_def before_init_def process_init_def) (simp add: boot_mm_def)
  show "processes_ok before_init" by (simp add: processes_ok_def before_init_def process_init_def)
qed (simp_all add: boot_pages_def before_init_def process_init_def)

theorem new_process_separate_witness:
  "\<exists>a k' stack table. get_new_pcb (\<lambda>_. blank_pcb) 0 before_init = Inr (a, k') \<and>
     pcbs (sched_of k') a = Some (fresh_pcb blank_pcb 1 stack table) \<and> processes_ok k'"
proof -
  have h: "kmem_ok 0x1000 boot_pages (3 + 3) before_init" "12 \<le> length boot_pages"
    "unat (prev_pid (sched_of before_init)) + 1 < 2 ^ 32" using before_init_ok by simp_all
  have t: "tables_apart boot_pages before_init" by (simp add: tables_apart_def before_init_def process_init_def)
  from new_process_separate[OF h(1,2) before_init_ok(2) t h(3), of "\<lambda>_. blank_pcb" 0] obtain a k' stack g table n where
    n: "get_new_pcb (\<lambda>_. blank_pcb) 0 before_init = Inr (a, k')"
      "pcb_made 0x1000 boot_pages 3 (\<lambda>_. blank_pcb) before_init a k' stack g table (drop n boot_pages)" "processes_ok k'" by blast
  have "sched_of k' = (put_pcb a (fresh_pcb blank_pcb (prev_pid (sched_of before_init) + 1) stack table) (sched_of before_init))
      \<lparr>prev_pid := prev_pid (sched_of before_init) + 1\<rparr>"
    using n(2) set_sched_simps(1) unfolding pcb_made_def by metis
  with n(1,3) before_init_ok(5) show ?thesis by (intro exI[of _ a] exI[of _ k'] exI[of _ stack] exI[of _ table]) simp
qed

theorem init_boots_shell_witness:
  "\<exists>rsp k' s' (y :: pcb). init (\<lambda>_. blank_pcb) 0 0x200100 0x200200 before_init = Inr (rsp, k') \<and>
     schedule 0 (sched_of k') = Some (Inr (kernel_sp y, s')) \<and> pid y = 2 \<and>
     vrd64 (Paged (cpu_cr3 s')) (kernel_sp y + 8) (mem (vm k')) = Inr 0x200200"
proof -
  have h: "kmem_ok 0x1000 boot_pages (0 + 6) before_init" "24 \<le> length boot_pages"
    "\<And>a :: u64. length (pname ((\<lambda>_. blank_pcb) a)) = 50 \<and> length (wd ((\<lambda>_. blank_pcb) a)) = 50"
    using before_init_ok by (simp_all add: blank_pcb_def)
  from init_boots_shell[where raw = "\<lambda>_. blank_pcb" and junk = 0 and idle_fn = "0x200100" and thread_fn = "0x200200",
      OF h(1,2) before_init_ok(5,4) h(3)] obtain rsp k' idle x shell y where
    b: "init (\<lambda>_. blank_pcb) 0 0x200100 0x200200 before_init = Inr (rsp, k')"
      "booted 0x1000 0x200100 0x200200 rsp idle x shell y k'"
      "\<And>sp. \<exists>s'. schedule sp (sched_of k') = Some (Inr (kernel_sp y, s')) \<and> active_pcb s' = shell \<and>
         cpu_cr3 s' = pml4 y \<and> tss_rsp0 s' = kernel_stack y + PAGESIZE \<and> sched_ok s' [idle]" by (elim exE conjE) (rule that; blast)
  from b(3)[of 0] obtain s' where s': "schedule 0 (sched_of k') = Some (Inr (kernel_sp y, s'))" "cpu_cr3 s' = pml4 y" by blast
  from b(2) have "pid y = 2" "vrd64 (Paged (pml4 y)) (kernel_sp y + 8) (mem (vm k')) = Inr 0x200200"
    by (simp_all only: booted_def)
  then show ?thesis using b(1) s'
    by (intro exI[of _ rsp] exI[of _ k'] exI[of _ s'] exI[of _ y]) (simp only: simp_thms)
qed

end
