(* ===== verification/Syscall.thy ===== *)
theory Syscall
  imports Process_Create
begin

text \<open>
  The system calls, \<^verbatim>\<open>sys/systemcall.c\<close>. A call that waits leaves its handler in the middle, in
  \<^verbatim>\<open>schedule\<close>: a handler here returns either the result of the call or, before the call of \<^verbatim>\<open>schedule\<close>, the
  place where it goes on when the process gets the processor back.
\<close>

section \<open>Arguments and results\<close>

text \<open>
  An argument is a word; if it points to a buffer or a string of the program it comes with what the
  memory there holds (the faults on the way to it are those of \<open>Interrupts\<close> and \<open>Loader\<close>); a plain word points
  to nothing, and the first access through it is out of bounds.
\<close>

datatype uarg = Word u64 | Chars u64 "char list" | Dirents u64 "dirent list" | Procs u64 "pspcb list"

fun addr_of :: "uarg \<Rightarrow> u64" where
  "addr_of (Word a) = a"
| "addr_of (Chars a _) = a"
| "addr_of (Dirents a _) = a"
| "addr_of (Procs a _) = a"

fun chars_of :: "uarg \<Rightarrow> char list" where
  "chars_of (Chars _ s) = s"
| "chars_of _ = []"

fun dirents_of :: "uarg \<Rightarrow> dirent list" where
  "dirents_of (Dirents _ s) = s"
| "dirents_of _ = []"

fun procs_of :: "uarg \<Rightarrow> pspcb list" where
  "procs_of (Procs _ s) = s"
| "procs_of _ = []"

text \<open>Where a handler is suspended; \<open>In_Timer\<close> is the timer interrupt behind \<^verbatim>\<open>preempt\<close>.\<close>

datatype kont = In_Read uarg u64 | In_Wait | In_Alarm | In_Exec | In_Exit | In_Yield | In_Timer

text \<open>The value returned, with the caller's buffer as the call leaves it.\<close>

datatype sysres = Ret u64 uarg | Sched kont

type_synonym outcome = "(sysres \<times> kernel) result"

text \<open>A 64-bit argument that is passed on as an \<^verbatim>\<open>int\<close>.\<close>

definition int_arg :: "u64 \<Rightarrow> int" where
  "int_arg a = sint (ucast a :: i32)"

text \<open>Sequencing of what need not return.\<close>

definition bindo :: "'a result option \<Rightarrow> ('a \<Rightarrow> 'b result option) \<Rightarrow> 'b result option" where
  "bindo m f = (case m of None \<Rightarrow> None | Some (Inl e) \<Rightarrow> Some (Inl e) | Some (Inr x) \<Rightarrow> f x)"

lemma bindo_simps [simp]:
  "bindo None f = None" "bindo (Some (Inl e)) f = Some (Inl e)" "bindo (Some (Inr x)) f = f x"
  by (simp_all add: bindo_def)

lemma bindo_eq_SomeE [elim!]:
  assumes "bindo m f = Some (Inr y)"
  obtains x where "m = Some (Inr x)" and "f x = Some (Inr y)"
  using assms by (auto simp: bindo_def split: option.splits sum.splits)

definition active_blk :: "kernel \<Rightarrow> pcb result" where
  "active_blk k = deref (sched_of k) (active_pcb (sched_of k))"

definition upd_active :: "(pcb \<Rightarrow> pcb) \<Rightarrow> kernel \<Rightarrow> kernel result" where
  "upd_active f k = upd_pcb (active_pcb (sched_of k)) f k"

section \<open>Memory and directories\<close>

abbreviation (input) HEAP_TOP :: u64 where "HEAP_TOP \<equiv> 0x0000770000000000"

definition do_break :: "u64 \<Rightarrow> kernel \<Rightarrow> outcome" where
  "do_break arg1 k =
     bindr (active_blk k) (\<lambda>proc.
       if arg1 = 0 then Inr (Ret (user_brk_point proc) (Word 0), k)
       else if arg1 \<ge> HEAP_TOP then Inr (Ret (- 1) (Word 0), k)
       else bindr (upd_active (\<lambda>x. x\<lparr>user_brk_point := arg1\<rparr>) k) (\<lambda>k1.
            bindr (active_blk k1) (\<lambda>proc. Inr (Ret (user_brk_point proc) (Word 0), k1))))"

definition do_getcwd :: "uarg \<Rightarrow> u64 \<Rightarrow> kernel \<Rightarrow> outcome" where
  "do_getcwd buffer sz k =
     bindr (active_blk k) (\<lambda>proc.
     bindr (kstrcpy (chars_of buffer) 0 (wd proc) (int_arg sz)) (\<lambda>(i, d).
       Inr (Ret (if i = - 1 then 0 else addr_of buffer) (Chars (addr_of buffer) d), k)))"

text \<open>\<^verbatim>\<open>path_merge(proc->wd, path, abspath, 100)\<close> on the two global buffers.\<close>

definition merge_path :: "uarg \<Rightarrow> kernel \<Rightarrow> kernel result option" where
  "merge_path path k =
     bindo (Some (active_blk k)) (\<lambda>proc.
     bindo (path_merge (wd proc) (chars_of path) (Interrupts.abspath k) 100 (path_temp k)) (\<lambda>(b, t).
       Some (Inr (k\<lparr>abspath := b, path_temp := t\<rparr>))))"

text \<open>\<^verbatim>\<open>abspath[l] = '/'; abspath[l+1] = 0;\<close>\<close>

definition add_slash :: "nat \<Rightarrow> kernel \<Rightarrow> kernel result" where
  "add_slash l k =
     bindr (wr (Interrupts.abspath k) l (CHR ''/'')) (\<lambda>b.
     bindr (wr b (l + 1) NUL) (\<lambda>b'. Inr (k\<lparr>abspath := b'\<rparr>)))"

text \<open>\<^verbatim>\<open>kstrcmp(abspath, "/")==0 || search_for_dir(abspath)\<close>\<close>

definition is_dir :: "kernel \<Rightarrow> bool result option" where
  "is_dir k =
     bindo (Some (kstrcmp (Interrupts.abspath k) (lit ''/''))) (\<lambda>c.
       if c = 0 then Some (Inr True)
       else bindo (search_for_dir (files k) (Interrupts.abspath k)) (\<lambda>(r, _). Some (Inr (r \<noteq> 0))))"

definition do_chdir :: "uarg \<Rightarrow> kernel \<Rightarrow> outcome option" where
  "do_chdir dirname k =
     bindo (merge_path dirname k) (\<lambda>k1.
     bindo (Some (bindr (kstrlen (Interrupts.abspath k1)) (\<lambda>l. add_slash l k1))) (\<lambda>k2.
     bindo (is_dir k2) (\<lambda>d.
       if d then bindo (Some (set_wd (active_pcb (sched_of k2)) (Interrupts.abspath k2) 100 k2)) (\<lambda>k3.
                   Some (Inr (Ret 0 (Word 0), k3)))
       else Some (Inr (Ret 1 (Word 0), k2)))))"

section \<open>Input and output\<close>

function write_loop :: "nat \<Rightarrow> u64 \<Rightarrow> char list \<Rightarrow> console \<Rightarrow> (nat \<times> console) result" where
  "write_loop i sz str scr =
     (if of_nat i < sz
      then if i < length str
           then if str ! i = NUL then Inr (i, scr)
                else bindr (write_k (str ! i) scr) (write_loop (Suc i) sz str)
           else Inl Out_Of_Bounds
      else Inr (i, scr))"
  by pat_completeness auto
termination by (relation "measure (\<lambda>(i, sz, str, scr). length str - i)") auto

declare write_loop.simps [simp del]

definition do_write :: "u64 \<Rightarrow> uarg \<Rightarrow> u64 \<Rightarrow> kernel \<Rightarrow> outcome" where
  "do_write fd buffer sz k =
     (if fd = 1
      then bindr (write_loop 0 sz (chars_of buffer) (screen (io k))) (\<lambda>(i, scr).
             Inr (Ret (of_nat i) (Word 0), k\<lparr>io := (io k)\<lparr>screen := scr\<rparr>\<rparr>))
      else Inr (Ret 0 (Word 0), k))"

text \<open>The loop around \<^verbatim>\<open>schedule\<close>: the test is made again whenever the process runs again.\<close>

definition read_stdin :: "uarg \<Rightarrow> u64 \<Rightarrow> kernel \<Rightarrow> outcome" where
  "read_stdin buffer sz k =
     (if buffer_is_ready (inp (io k))
      then bindr (copy_input (chars_of buffer) (int_arg sz) (inp (io k))) (\<lambda>(r, s, d).
             Inr (Ret (of_int r) (Chars (addr_of buffer) d), k\<lparr>io := (io k)\<lparr>inp := s\<rparr>\<rparr>))
      else bindr (upd_active (\<lambda>x. x\<lparr>status := WAITING, waiting_on_stdin := True\<rparr>) k) (\<lambda>k1.
             Inr (Sched (In_Read buffer sz), k1)))"

definition fd_entry :: "pcb \<Rightarrow> u64 \<Rightarrow> fd_t result" where
  "fd_entry proc fd = (if unat fd < length (fd_table proc) then Inr (fd_table proc ! unat fd) else Inl Out_Of_Bounds)"

definition do_read :: "u64 \<Rightarrow> uarg \<Rightarrow> u64 \<Rightarrow> kernel \<Rightarrow> outcome" where
  "do_read fd buffer sz k =
     bindr (active_blk k) (\<lambda>proc.
     bindr (fd_entry proc fd) (\<lambda>d.
       if fd = 0 \<and> file_start_address d = 0 then read_stdin buffer sz k
       else bindr (read_to_buffer (files k) d (chars_of buffer) sz) (\<lambda>(r, d', b').
            bindr (upd_active (\<lambda>x. x\<lparr>fd_table := (fd_table x)[unat fd := d']\<rparr>) k) (\<lambda>k1.
              Inr (Ret r (Chars (addr_of buffer) b'), k1)))))"

text \<open>\<^verbatim>\<open>int\<close> results are sign-extended.\<close>

definition do_open :: "uarg \<Rightarrow> u64 \<Rightarrow> kernel \<Rightarrow> outcome option" where
  "do_open path mode k =
     bindo (merge_path path k) (\<lambda>k1.
       let opened = (\<lambda>open k. bindo (Some (active_blk k)) (\<lambda>proc.
             bindo (open (files k) (Interrupts.abspath k) proc) (\<lambda>(fd, proc').
             bindo (Some (upd_active (\<lambda>_. proc') k)) (\<lambda>k'. Some (Inr (Ret (of_int fd) (Word 0), k'))))))
       in if mode = 0
          then bindo (search_file_open (files k1) (Interrupts.abspath k1)) (\<lambda>(r, _).
                 if r \<noteq> 0 then opened do_open_file k1 else Some (Inr (Ret (- 1) (Word 0), k1)))
          else if mode = 0x10000
          then bindo (Some (bindr (kstrlen (Interrupts.abspath k1)) (\<lambda>l.
                 if l = 0 then Inl Out_Of_Bounds
                 else if Interrupts.abspath k1 ! (l - 1) \<noteq> CHR ''/'' then add_slash l k1 else Inr k1))) (\<lambda>k2.
               bindo (is_dir k2) (\<lambda>d.
                 if d then opened do_open_dir k2 else Some (Inr (Ret (- 1) (Word 0), k2))))
          else Some (bindr (kprintf (''OPEN MODE NOT SUPPORTED: %x'' @ [LF]) [Slot mode] k1) (\<lambda>_. Inl Panic)))"

definition do_getdents :: "u64 \<Rightarrow> uarg \<Rightarrow> u64 \<Rightarrow> kernel \<Rightarrow> outcome option" where
  "do_getdents fd buffer sz k =
     bindo (Some (bindr (active_blk k) (\<lambda>proc. bindr (fd_entry proc fd) (\<lambda>d. Inr (file_start_address d))))) (\<lambda>start.
     bindo (fill_dents (files k) start (dirents_of buffer) (unat sz)) (\<lambda>b'.
       Some (Inr (Ret 0 (Dirents (addr_of buffer) b'), k))))"

definition do_close :: "u64 \<Rightarrow> kernel \<Rightarrow> outcome" where
  "do_close fd k =
     bindr (active_blk k) (\<lambda>proc.
     bindr (fd_entry proc fd) (\<lambda>_.
     bindr (upd_active (\<lambda>x. x\<lparr>fd_table := (fd_table x)[unat fd :=
              \<lparr>file_start_address = 0, file_size = 0, file_offset = 0\<rparr>]\<rparr>) k) (\<lambda>k1.
       Inr (Ret 0 (Word 0), k1))))"

section \<open>Processes\<close>

text \<open>
  What the handlers need from outside the C code: the content of fresh memory, the garbage argument, the
  addresses of \<^verbatim>\<open>fork_return_from_child\<close> and \<^verbatim>\<open>k_thread_kernel\<close>, and the stack pointer that \<^verbatim>\<open>do_fork\<close> reads.
\<close>

record env =
  env_raw :: "u64 \<Rightarrow> pcb"
  env_junk :: i32
  env_fork_return :: u64
  env_thread :: u64
  env_rsp :: u64

definition kload8 :: "u64 \<Rightarrow> kernel \<Rightarrow> (u8 \<times> kernel) result" where
  "kload8 a k =
     (let again = (\<lambda>k. bindr (vrd8 (space_of k) a (mem (vm k))) (\<lambda>b. Inr (b, k)))
      in case again k of
           Inl (Page_Fault v) \<Rightarrow> bindr (int_pgflt_srv a 0 k) again
         | r \<Rightarrow> r)"

definition copy_stack :: "u64 \<Rightarrow> u64 \<Rightarrow> kernel \<Rightarrow> kernel result" where
  "copy_stack from to k =
     for_up 0 4096 (\<lambda>i k. bindr (kload8 (from + of_nat i) k) (\<lambda>(b, k1). kstore8 (to + of_nat i) b k1)) k"

definition do_fork :: "env \<Rightarrow> kernel \<Rightarrow> outcome" where
  "do_fork e k =
     (let proc = active_pcb (sched_of k)
      in bindr (get_forked_pcb (env_raw e) (env_junk e) proc k) (\<lambda>(child, k1).
         bindr (deref (sched_of k1) proc) (\<lambda>px.
         bindr (deref (sched_of k1) child) (\<lambda>cx.
         bindr (copy_stack (kernel_stack px) (kernel_stack cx) k1) (\<lambda>k2.
         bindr (upd_pcb child (\<lambda>x. x\<lparr>kernel_sp := kernel_stack x + env_rsp e - kernel_stack px + 64\<rparr>) k2) (\<lambda>k3.
         bindr (push_kernel child (env_fork_return e) k3) (\<lambda>k4.
         bindr (push_kernel child 0 k4) (\<lambda>k5.
         bindr (process_run child (sched_of k5)) (\<lambda>s.
         bindr (deref s proc) (\<lambda>py.
         bindr (deref s child) (\<lambda>cy.
           Inr (Ret (scast (pid cy)) (Word 0), set_cr3 (pml4 py) (set_sched s k5)))))))))))))"

definition do_waitpid :: "u64 \<Rightarrow> u64 \<Rightarrow> u64 \<Rightarrow> kernel \<Rightarrow> outcome" where
  "do_waitpid pid0 status_ret options k =
     bindr (upd_active (\<lambda>x. x\<lparr>waiting_on_pid := ucast pid0, status := WAITING, status_return := status_ret\<rparr>) k)
       (\<lambda>k1. Inr (Sched In_Wait, k1))"

definition do_alarm :: "u64 \<Rightarrow> kernel \<Rightarrow> outcome" where
  "do_alarm seconds k =
     bindr (upd_active (\<lambda>x. x\<lparr>waiting_on_clock := timer_get_clock (clock k) + PRINT_TICK_DIVIDE * seconds,
              status := WAITING\<rparr>) k) (\<lambda>k1. Inr (Sched In_Alarm, k1))"

definition do_execve :: "env \<Rightarrow> uarg \<Rightarrow> u64 \<Rightarrow> u64 \<Rightarrow> kernel \<Rightarrow> outcome option" where
  "do_execve e filename argv envp k =
     bindo (merge_path filename k) (\<lambda>k1.
     bindo (search_file_for_exec (files k1) (Interrupts.abspath k1)) (\<lambda>(r, _).
       if r \<noteq> 0
       then bindo (Some (kstore64 ACTIVE_PML4 0 k1)) (\<lambda>k2.
            bindo (process_exec (env_thread e) (active_pcb (sched_of k2)) (Interrupts.abspath k2) argv envp k2) (\<lambda>k3.
              Some (Inr (Sched In_Exec, k3))))
       else Some (Inr (Ret 1 (Word 0), k1))))"

definition do_exit :: "u64 \<Rightarrow> kernel \<Rightarrow> outcome" where
  "do_exit st k =
     bindr (upd_active (\<lambda>x. x\<lparr>status := FINISHED\<rparr>) k) (\<lambda>k1.
     bindr (active_blk k1) (\<lambda>proc.
     bindr (notify_exit_pid (pid proc) st (sched_of k1)) (\<lambda>s.
       Inr (Sched In_Exit, set_sched s (k1\<lparr>vm := vma_free_pages (pid proc) (vm k1)\<rparr>)))))"

definition do_getps :: "uarg \<Rightarrow> u64 \<Rightarrow> kernel \<Rightarrow> outcome" where
  "do_getps buffer sz k =
     bindr (get_process_info (sched_of k) (procs_of buffer) (int_arg sz)) (\<lambda>(n, b).
       Inr (Ret (of_nat n) (Procs (addr_of buffer) b), k))"

definition do_kill :: "u64 \<Rightarrow> u64 \<Rightarrow> kernel \<Rightarrow> outcome" where
  "do_kill pid0 sig k =
     bindr (kill_pid pid0 (sched_of k)) (\<lambda>(r, s).
       if r \<noteq> 0 then Inr (Ret (- 1) (Word 0), set_sched s k)
       else bindr (notify_exit_pid (ucast pid0) sig s) (\<lambda>s1.
            Inr (Ret 0 (Word 0), set_sched s1 (k\<lparr>vm := vma_free_pages (ucast pid0) (vm k)\<rparr>))))"

definition do_yield :: "kernel \<Rightarrow> outcome" where
  "do_yield k = Inr (Sched In_Yield, k)"

section \<open>Dispatch\<close>

definition do_system_call :: "env \<Rightarrow> u64 \<Rightarrow> uarg \<Rightarrow> uarg \<Rightarrow> uarg \<Rightarrow> kernel \<Rightarrow> outcome option" where
  "do_system_call e code arg1 arg2 arg3 k =
     (if code = 12 then Some (do_break (addr_of arg1) k)
      else if code = 79 then Some (do_getcwd arg1 (addr_of arg2) k)
      else if code = 1 then Some (do_write (addr_of arg1) arg2 (addr_of arg3) k)
      else if code = 0 then Some (do_read (addr_of arg1) arg2 (addr_of arg3) k)
      else if code = 57 then Some (do_fork e k)
      else if code = 61 then Some (do_waitpid (addr_of arg1) (addr_of arg2) (addr_of arg3) k)
      else if code = 59 then do_execve e arg1 (addr_of arg2) (addr_of arg3) k
      else if code = 60 then Some (do_exit (addr_of arg1) k)
      else if code = 80 then do_chdir arg1 k
      else if code = 2 then do_open arg1 (addr_of arg2) k
      else if code = 78 then do_getdents (addr_of arg1) arg2 (addr_of arg2) k
      else if code = 3 then Some (do_close (addr_of arg1) k)
      else if code = 37 then Some (do_alarm (addr_of arg1) k)
      else if code = 100 then Some (do_getps arg1 (addr_of arg2) k)
      else if code = 62 then Some (do_kill (addr_of arg1) (addr_of arg2) k)
      else if code = 24 then Some (do_yield k)
      else Some (bindr (kprintf (''SYSCALL NOT IMPLEMENTED: %d, 0x%x'' @ [LF] @ '' (0x%x, 0x%x, 0x%x)'')
                   [Slot code, Slot code, Slot (addr_of arg1), Slot (addr_of arg2), Slot (addr_of arg3)] k)
                   (\<lambda>_. Inl Panic)))"

text \<open>
  \<^verbatim>\<open>int_syscall_srv\<close>: the registers as the assembly stub saved them; \<open>mem_at\<close> is what the memory holds at an
  argument. The result goes into the saved \<^verbatim>\<open>rax\<close>.
\<close>

definition int_syscall_srv :: "env \<Rightarrow> (u64 \<Rightarrow> uarg) \<Rightarrow> u64 list \<Rightarrow> kernel \<Rightarrow> outcome option" where
  "int_syscall_srv e mem_at rsp k =
     (if length rsp < 6 then Some (Inl Out_Of_Bounds)
      else do_system_call e (rsp ! 5) (mem_at (rsp ! 4)) (mem_at (rsp ! 3)) (mem_at (rsp ! 2)) k)"

definition syscall_result :: "u64 \<Rightarrow> u64 list \<Rightarrow> u64 list" where
  "syscall_result res rsp = rsp[5 := res]"

section \<open>Going on after \<^verbatim>\<open>schedule\<close>\<close>

text \<open>\<^verbatim>\<open>*((int*) a) = w\<close>\<close>

definition kstore32 :: "u64 \<Rightarrow> u64 \<Rightarrow> kernel \<Rightarrow> kernel result" where
  "kstore32 a w k = for_up 0 4 (\<lambda>i. kstore8 (a + of_nat i) (ucast (drop_bit (8 * i) w))) k"

fun resume :: "kont \<Rightarrow> kernel \<Rightarrow> outcome" where
  "resume (In_Read buffer sz) k = read_stdin buffer sz k"
| "resume In_Wait k =
     bindr (active_blk k) (\<lambda>proc.
     bindr (kstore32 (status_return proc) (exit_notify_status proc) k) (\<lambda>k1. Inr (Ret 0 (Word 0), k1)))"
| "resume In_Alarm k = Inr (Ret 0 (Word 0), k)"
| "resume In_Yield k = Inr (Ret 0 (Word 0), k)"
| "resume In_Exec k = Inr (Ret (- 1) (Word 0), k)"
| "resume In_Exit k = Inr (Ret (- 1) (Word 0), k)"
| "resume In_Timer k = Inr (Ret 0 (Word 0), int_tmr_end k)"

section \<open>Writing\<close>

lemma write_loop_prints:
  assumes "console_ok scr" and "i \<le> n" and "n - i \<le> length str - i \<or> NUL \<in> set (drop i str)" and "n < 2 ^ 64"
  shows "\<exists>scr'. write_loop i (of_nat n) str scr =
      Inr (i + length (takeWhile (\<lambda>c. c \<noteq> NUL) (take (n - i) (drop i str))), scr') \<and> console_ok scr' \<and>
    view scr' = fold write_spec (takeWhile (\<lambda>c. c \<noteq> NUL) (take (n - i) (drop i str))) (view scr) \<and> below scr' = below scr"
  using assms
proof (induction "n - i" arbitrary: i scr)
  case 0
  then show ?case by (subst write_loop.simps) simp
next
  case (Suc m)
  have lt: "(of_nat i :: u64) < of_nat n" using Suc.hyps(2) Suc.prems(4) by (simp add: word_less_nat_alt unat_of_nat64)
  have il: "i < length str" using Suc.prems(3) Suc.hyps(2) by (cases "i < length str") auto
  then have d: "drop i str = str ! i # drop (Suc i) str" by (simp add: Cons_nth_drop_Suc)
  have nm: "n - i = Suc (n - Suc i)" using Suc.hyps(2) by arith
  have t: "take (n - i) (drop i str) = str ! i # take (n - Suc i) (drop (Suc i) str)"
    unfolding d nm by simp
  show ?case
  proof (cases "str ! i = NUL")
    case True
    then show ?thesis unfolding t using lt il Suc.prems(1) by (subst write_loop.simps) simp
  next
    case False
    from write_k_spec[OF Suc.prems(1), of "str ! i"] obtain s1 where
      s1: "write_k (str ! i) scr = Inr s1" "console_ok s1" "view s1 = write_spec (str ! i) (view scr)" "below s1 = below scr" by blast
    have "m = n - Suc i" "Suc i \<le> n" "n - Suc i \<le> length str - Suc i \<or> NUL \<in> set (drop (Suc i) str)"
      using Suc.hyps(2) Suc.prems(3) il False d by auto
    from Suc.hyps(1)[OF this(1) s1(2) this(2,3) Suc.prems(4)] s1 show ?thesis
      unfolding t using lt il False by (subst write_loop.simps) auto
  qed
qed

text \<open>Writing to descriptor 1 prints the characters of the buffer up to \<^verbatim>\<open>size\<close> or its first zero and returns
  their number; only the screen changes.\<close>

theorem do_write_prints:
  assumes "console_ok (screen (io k))" and "unat sz \<le> length str \<or> NUL \<in> set str" and "unat sz < 2 ^ 31"
  shows "let t = takeWhile (\<lambda>c. c \<noteq> NUL) (take (unat sz) str) in
    \<exists>scr. do_write 1 (Chars a str) sz k = Inr (Ret (of_nat (length t)) (Word 0), k\<lparr>io := (io k)\<lparr>screen := scr\<rparr>\<rparr>) \<and>
      console_ok scr \<and> view scr = fold write_spec t (view (screen (io k))) \<and> below scr = below (screen (io k))"
proof -
  have h: "0 \<le> unat sz" "unat sz - 0 \<le> length str - 0 \<or> NUL \<in> set (drop 0 str)" "unat sz < 2 ^ 64"
    using assms(2,3) by simp_all
  from write_loop_prints[OF assms(1) h] obtain scr where
    "write_loop 0 sz str (screen (io k)) = Inr (length (takeWhile (\<lambda>c. c \<noteq> NUL) (take (unat sz) str)), scr)" "console_ok scr"
    "view scr = fold write_spec (takeWhile (\<lambda>c. c \<noteq> NUL) (take (unat sz) str)) (view (screen (io k)))"
    "below scr = below (screen (io k))" by auto
  then show ?thesis unfolding Let_def do_write_def by (intro exI[of _ scr]) simp
qed

theorem do_write_prints_witness:
  "\<exists>k'. do_write 1 (Chars 0x400000 (lit ''ok'')) 9 demo_kernel = Inr (Ret 2 (Word 0), k') \<and> console_ok (screen (io k'))"
proof -
  have h: "console_ok (screen (io demo_kernel))" "unat (9 :: u64) \<le> length (lit ''ok'') \<or> NUL \<in> set (lit ''ok'')"
    "unat (9 :: u64) < 2 ^ 31" using blank_console_ok by (simp_all add: demo_kernel_def lit_def)
  from do_write_prints[OF h, of "0x400000"] show ?thesis by (auto simp: Let_def lit_def)
qed

section \<open>The working directory\<close>

lemma active_blk_run:
  "active_pcb (sched_of k) \<noteq> 0 \<Longrightarrow> pcbs (sched_of k) (active_pcb (sched_of k)) = Some x \<Longrightarrow> active_blk k = Inr x"
  by (simp add: active_blk_def deref_def)

lemma active_blkE:
  assumes "active_blk k = Inr x"
  obtains "active_pcb (sched_of k) \<noteq> 0" and "pcbs (sched_of k) (active_pcb (sched_of k)) = Some x"
  using assms by (auto simp: active_blk_def deref_def split: if_splits option.splits)

lemma upd_active_run:
  assumes "active_blk k = Inr x"
  shows "upd_active f k = Inr (set_sched (put_pcb (active_pcb (sched_of k)) (f x) (sched_of k)) k)"
  using assms by (elim active_blkE) (simp add: upd_active_def upd_run)

lemma slash_added:
  assumes "terminated b" and "Suc (clen b) < length b"
  shows "terminated (b[clen b := CHR ''/'', Suc (clen b) := NUL])"
    and "cstr (b[clen b := CHR ''/'', Suc (clen b) := NUL]) = cstr b @ ''/''"
proof -
  from assms(1) obtain t r where b: "b = t @ NUL # r" "NUL \<notin> set t" "cstr b = t" "clen b = length t"
    by (elim terminatedE) auto
  obtain c r' where r: "r = c # r'" using assms(2) b(1,4) by (cases r) auto
  have "b[clen b := CHR ''/'', Suc (clen b) := NUL] = (t @ ''/'') @ NUL # r'"
    unfolding b(4) by (simp add: b(1) r list_update_append)
  then show "terminated (b[clen b := CHR ''/'', Suc (clen b) := NUL])"
    and "cstr (b[clen b := CHR ''/'', Suc (clen b) := NUL]) = cstr b @ ''/''"
    using b(2,3) by (simp_all del: append_assoc)
qed

lemma kernel_path_fields [simp]:
  fixes k :: kernel
  shows "sched_of (k\<lparr>abspath := b\<rparr>) = sched_of k" "sched_of (k\<lparr>path_temp := b\<rparr>) = sched_of k"
    "active_blk (k\<lparr>abspath := b\<rparr>) = active_blk k" "active_blk (k\<lparr>path_temp := b\<rparr>) = active_blk k"
  by (simp_all add: active_blk_def)

text \<open>The directory part of the file system that a path names; the root is one without an entry.\<close>

definition names_dir :: "tar_file list \<Rightarrow> string \<Rightarrow> bool" where
  "names_dir es d = (d = ''/'' \<or> (\<exists>q. locate 0 es (drop 1 d) = Some (q, [])))"

lemma drop1_terminated:
  assumes "terminated b" and "cstr b = c # d"
  shows "terminated (drop 1 b)" and "cstr (drop 1 b) = d"
proof -
  from assms obtain r where "b = c # d @ NUL # r" "NUL \<notin> set (c # d)" by (elim terminatedE) auto
  then show "terminated (drop 1 b)" and "cstr (drop 1 b) = d" by simp_all
qed

lemma is_dir_decides:
  assumes "terminated (Interrupts.abspath k)" and "cstr (Interrupts.abspath k) = CHR ''/'' # d"
    and "fs_ok (files k) es" and "sizes_ok es"
  shows "is_dir k = Some (Inr (names_dir es (CHR ''/'' # d)))"
proof -
  note d = drop1_terminated[OF assms(1,2)]
  from kstrcmp_equal[OF assms(1) terminated_lit, of "''/''"] obtain r where
    r: "kstrcmp (Interrupts.abspath k) (lit ''/'') = Inr r" "r = 0 \<longleftrightarrow> d = []" using assms(2) by auto
  have "search_for_dir (files k) (Interrupts.abspath k) = Some (Inr
      (case locate 0 es d of None \<Rightarrow> 0 | Some (q, x) \<Rightarrow> if x = [] then 1 else 0, ()))"
    unfolding search_for_dir_def tar_search_locate[OF assms(3,4) d(1)] d(2)
    by (auto split: option.splits dest: locate_room[OF assms(3)])
  with r show ?thesis
    by (auto simp: is_dir_def names_dir_def split: option.splits)
qed

lemma merge_path_run:
  assumes "active_blk k = Inr x" and "length (Interrupts.abspath k) = 100" and "length (path_temp k) = 100"
    and "terminated (wd x)" and "cstr (wd x) = CHR ''/'' # b" and "terminated (chars_of path)"
    and "t = merged (cstr (wd x)) (cstr (chars_of path))" and "length t < 100" and "length (split_slash t) \<le> 14"
  obtains ab tmp where "merge_path path k = Some (Inr (k\<lparr>abspath := ab, path_temp := tmp\<rparr>))"
    and "length ab = 100" and "length tmp = 100" and "terminated ab" and "cstr ab = (if t = ''/'' then ''/'' else clean t)"
proof -
  from path_merge_clean[OF assms(2-9)] obtain ab tmp where
    r: "path_merge (wd x) (chars_of path) (Interrupts.abspath k) 100 (path_temp k) = Some (Inr (ab, tmp))"
    "length ab = 100" "length tmp = 100" "terminated ab" "cstr ab = (if t = ''/'' then ''/'' else clean t)"
    by (elim exE conjE) (rule that)
  have "merge_path path k = Some (Inr (k\<lparr>abspath := ab, path_temp := tmp\<rparr>))"
    by (simp add: merge_path_def assms(1) r(1))
  from that[OF this r(2-5)] show thesis .
qed

lemma clean_slash: "clean t = [] \<or> (\<exists>u. clean t = CHR ''/'' # u)"
  by (cases "norm_parts [] (split_slash t)") (auto simp: clean_def join_parts_def)

text \<open>The path with a slash behind it, as \<^verbatim>\<open>do_chdir\<close> looks for it.\<close>

definition dir_path :: "string \<Rightarrow> string" where
  "dir_path t = (if t = ''/'' then ''/'' else clean t) @ ''/''"

lemma dir_path_slash: "\<exists>d. dir_path t = CHR ''/'' # d"
  using clean_slash[of t] by (auto simp: dir_path_def)

lemma chdir_run:
  assumes "active_blk k = Inr x" and "length (Interrupts.abspath k) = 100" and "length (path_temp k) = 100"
    and "terminated (wd x)" and "cstr (wd x) = CHR ''/'' # b" and "terminated path"
    and "t = merged (cstr (wd x)) (cstr path)" and "length t < 99" and "length (split_slash t) \<le> 14"
    and "fs_ok (files k) es" and "sizes_ok es" and "length (wd x) = 50" and "length (dir_path t) < 50"
  obtains ab tmp where "do_chdir (Chars a path) k = Some (Inr (if names_dir es (dir_path t)
      then (Ret 0 (Word 0), set_sched (put_pcb (active_pcb (sched_of k)) (x\<lparr>wd := named (wd x) (dir_path t)\<rparr>) (sched_of k))
              (k\<lparr>abspath := ab, path_temp := tmp\<rparr>))
      else (Ret 1 (Word 0), k\<lparr>abspath := ab, path_temp := tmp\<rparr>)))"
    and "length ab = 100" and "length tmp = 100" and "cstr ab = dir_path t"
proof -
  have p: "terminated (chars_of (Chars a path))" "t = merged (cstr (wd x)) (cstr (chars_of (Chars a path)))" "length t < 100"
    using assms(6-8) by simp_all
  obtain ab tmp where
    m: "merge_path (Chars a path) k = Some (Inr (k\<lparr>abspath := ab, path_temp := tmp\<rparr>))"
    "length ab = 100" "length tmp = 100" "terminated ab" "cstr ab = (if t = ''/'' then ''/'' else clean t)"
    by (rule merge_path_run[OF assms(1-5) p assms(9)])
  note m = m(1-4) m(5)[THEN arg_cong, of "\<lambda>s. s @ ''/''", folded dir_path_def]
  let ?ab = "ab[clen ab := CHR ''/'', Suc (clen ab) := NUL]"
  have l: "Suc (clen ab) = length (dir_path t)" unfolding m(5)[symmetric] by (simp add: clen_def)
  have room: "Suc (clen ab) < length ab" using l assms(13) m(2) by simp
  note s = slash_added[OF m(4) room, unfolded m(5)]
  let ?k = "k\<lparr>abspath := ?ab, path_temp := tmp\<rparr>"
  have add: "add_slash (clen ab) (k\<lparr>abspath := ab, path_temp := tmp\<rparr>) = Inr ?k"
    using room by (simp add: add_slash_def wr_def)
  obtain d where d: "dir_path t = CHR ''/'' # d" using dir_path_slash[of t] by (elim exE)
  have dir: "is_dir ?k = Some (Inr (names_dir es (dir_path t)))"
    using is_dir_decides[of ?k d es] s d assms(10,11) by simp
  have "kstrcpy (wd x) 0 ?ab 100 = Inr (int (clen ?ab), named (wd x) (dir_path t))"
    using kstrcpy_copies[OF s(1), of 100 0 "wd x"] s(2) assms(12,13) by (simp add: clen_def named_def)
  then have set: "set_wd (active_pcb (sched_of k)) ?ab 100 ?k =
      Inr (set_sched (put_pcb (active_pcb (sched_of k)) (x\<lparr>wd := named (wd x) (dir_path t)\<rparr>) (sched_of k)) ?k)"
    using assms(1) by (elim active_blkE) (simp add: set_wd_def upd_run deref_def)
  show thesis
  proof (rule that)
    show "do_chdir (Chars a path) k = Some (Inr (if names_dir es (dir_path t)
      then (Ret 0 (Word 0), set_sched (put_pcb (active_pcb (sched_of k)) (x\<lparr>wd := named (wd x) (dir_path t)\<rparr>) (sched_of k)) ?k)
      else (Ret 1 (Word 0), ?k)))"
      using m(4) dir set by (simp add: do_chdir_def m(1) add)
  qed (use m s in simp_all)
qed

lemma getcwd_run:
  assumes "active_blk k = Inr x" and "terminated (wd x)" and "clen (wd x) < length buf"
    and "int (clen (wd x)) \<le> int_arg sz"
  shows "\<exists>buf'. do_getcwd (Chars b buf) sz k = Inr (Ret b (Chars b buf'), k) \<and> terminated buf' \<and> cstr buf' = cstr (wd x) \<and>
    length buf' = length buf"
proof -
  have "kstrcpy buf 0 (wd x) (int_arg sz) = Inr (int (clen (wd x)), splice buf 0 (cstr (wd x) @ [NUL]))"
    using assms(2-4) by (intro kstrcpy_copies) simp_all
  then show ?thesis
    using assms(3) by (auto simp: do_getcwd_def assms(1) cstr_splice0 terminated_splice0 clen_def)
qed

text \<open>C18: \<^verbatim>\<open>chdir\<close> succeeds exactly if the normal form of the path names a directory of the archive, and then
  \<^verbatim>\<open>getcwd\<close> returns that normal form with a slash behind it; otherwise it returns 1 and the process keeps its
  directory. (The path \<^verbatim>\<open>/\<close> itself becomes \<^verbatim>\<open>//\<close>, which is no directory.)\<close>

theorem chdir_getcwd_round_trip:
  assumes "active_blk k = Inr x" and "length (Interrupts.abspath k) = 100" and "length (path_temp k) = 100"
    and "terminated (wd x)" and "cstr (wd x) = CHR ''/'' # b" and "terminated path"
    and "t = merged (cstr (wd x)) (cstr path)" and "length t < 99" and "length (split_slash t) \<le> 14"
    and "fs_ok (files k) es" and "sizes_ok es" and "length (wd x) = 50" and "length (dir_path t) < 50"
  shows "if names_dir es (dir_path t)
    then \<exists>k'. do_chdir (Chars a path) k = Some (Inr (Ret 0 (Word 0), k')) \<and>
      (\<forall>c buf sz. length (dir_path t) < length buf \<and> int (length (dir_path t)) \<le> int_arg sz \<longrightarrow>
        (\<exists>buf'. do_getcwd (Chars c buf) sz k' = Inr (Ret c (Chars c buf'), k') \<and> cstr buf' = dir_path t))
    else \<exists>k'. do_chdir (Chars a path) k = Some (Inr (Ret 1 (Word 0), k')) \<and> sched_of k' = sched_of k \<and> vm k' = vm k"
proof -
  obtain ab tmp where
    r: "do_chdir (Chars a path) k = Some (Inr (if names_dir es (dir_path t)
      then (Ret 0 (Word 0), set_sched (put_pcb (active_pcb (sched_of k)) (x\<lparr>wd := named (wd x) (dir_path t)\<rparr>) (sched_of k))
              (k\<lparr>abspath := ab, path_temp := tmp\<rparr>))
      else (Ret 1 (Word 0), k\<lparr>abspath := ab, path_temp := tmp\<rparr>)))"
    and ab: "cstr ab = dir_path t" by (rule chdir_run[OF assms])
  have n: "NUL \<notin> set (dir_path t)" unfolding ab[symmetric] by simp
  show ?thesis
  proof (cases "names_dir es (dir_path t)")
    case True
    let ?y = "x\<lparr>wd := named (wd x) (dir_path t)\<rparr>"
    let ?k = "set_sched (put_pcb (active_pcb (sched_of k)) ?y (sched_of k)) (k\<lparr>abspath := ab, path_temp := tmp\<rparr>)"
    have y: "active_blk ?k = Inr ?y" using assms(1) by (elim active_blkE) (simp add: active_blk_def deref_def)
    have w: "terminated (wd ?y)" "cstr (wd ?y) = dir_path t" "clen (wd ?y) = length (dir_path t)"
      using n by (simp_all add: cstr_named clen_def) (simp add: named_def terminated_splice0)
    have "do_chdir (Chars a path) k = Some (Inr (Ret 0 (Word 0), ?k))" using r True by simp
    moreover have "\<exists>buf'. do_getcwd (Chars c buf) sz ?k = Inr (Ret c (Chars c buf'), ?k) \<and> cstr buf' = dir_path t"
      if "length (dir_path t) < length buf \<and> int (length (dir_path t)) \<le> int_arg sz" for c buf sz
      using getcwd_run[OF y w(1), of buf sz c] that unfolding w by blast
    ultimately show ?thesis using True by (simp only: if_True) blast
  next
    case False
    then show ?thesis using r by simp
  qed
qed

text \<open>The demonstration kernel, whose process is in the root directory.\<close>

definition shell_block :: pcb where
  "shell_block = blank_pcb\<lparr>pid := 1, pml4 := 0x1000, wd := named (replicate 50 NUL) ''/''\<rparr>"

definition root_kernel :: kernel where
  "root_kernel = set_sched (put_pcb 0x1000 shell_block (sched_of demo_kernel)) demo_kernel"

lemma root_kernel_fields:
  "active_pcb (sched_of root_kernel) = 0x1000" "active_blk root_kernel = Inr shell_block"
  "files root_kernel = fs_of demo" "Interrupts.abspath root_kernel = replicate 100 NUL"
  "path_temp root_kernel = replicate 100 NUL" "inp (io root_kernel) = empty_stdin"
  by (simp_all add: active_blk_def deref_def root_kernel_def demo_kernel_def fork_sched_def two_blocks_def set_sched_def put_pcb_def)

lemma shell_block_fields:
  "cstr (wd shell_block) = ''/''" "terminated (wd shell_block)" "length (wd shell_block) = 50"
  using terminated_splice0[of "replicate 50 NUL" "''/''"]
  by (simp_all add: shell_block_def cstr_named) (simp_all add: named_def)

theorem chdir_getcwd_round_trip_witness:
  "(\<exists>k'. do_chdir (Chars 0 (lit ''/etc/../bin'')) root_kernel = Some (Inr (Ret 0 (Word 0), k')) \<and>
     (\<exists>buf'. do_getcwd (Chars 0x500000 (replicate 20 NUL)) 20 k' = Inr (Ret 0x500000 (Chars 0x500000 buf'), k') \<and>
       cstr buf' = ''/bin/'')) \<and>
   (\<exists>k'. do_chdir (Chars 0 (lit ''/'')) root_kernel = Some (Inr (Ret 1 (Word 0), k')))"
proof
  note f = root_kernel_fields shell_block_fields
  have d: "fs_ok (files root_kernel) demo" "sizes_ok demo" using demo_ok by (simp_all add: f)
  have l: "length (Interrupts.abspath root_kernel) = 100" "length (path_temp root_kernel) = 100" by (simp_all add: f)
  have t: "terminated (wd shell_block)" "cstr (wd shell_block) = CHR ''/'' # []" "terminated (lit ''/etc/../bin'')"
    "''/etc/../bin'' = merged (cstr (wd shell_block)) (cstr (lit ''/etc/../bin''))" "length ''/etc/../bin'' < 99"
    "length (split_slash ''/etc/../bin'') \<le> 14" by (simp_all add: f merged_def)
  have p: "dir_path ''/etc/../bin'' = ''/bin/''" by (simp add: dir_path_def clean_def join_parts_def)
  have n: "names_dir demo ''/bin/''" by (simp add: names_dir_def demo_def)
  have x: "length (wd shell_block) = 50" "length (dir_path ''/etc/../bin'') < 50" by (simp_all add: f p)
  have "length ''/bin/'' < length (replicate 20 NUL) \<and> int (length ''/bin/'') \<le> int_arg 20" by (simp add: int_arg_def)
  with chdir_getcwd_round_trip[OF f(2) l t d x, of 0] show
    "\<exists>k'. do_chdir (Chars 0 (lit ''/etc/../bin'')) root_kernel = Some (Inr (Ret 0 (Word 0), k')) \<and>
     (\<exists>buf'. do_getcwd (Chars 0x500000 (replicate 20 NUL)) 20 k' = Inr (Ret 0x500000 (Chars 0x500000 buf'), k') \<and>
       cstr buf' = ''/bin/'')"
    unfolding p using n by (simp only: if_True) blast
  have t': "terminated (wd shell_block)" "cstr (wd shell_block) = CHR ''/'' # []" "terminated (lit ''/'')"
    "''/'' = merged (cstr (wd shell_block)) (cstr (lit ''/''))" "length ''/'' < 99"
    "length (split_slash ''/'') \<le> 14" by (simp_all add: f merged_def)
  have p': "dir_path ''/'' = ''//''" by (simp add: dir_path_def)
  have n': "\<not> names_dir demo ''//''" by (simp add: names_dir_def demo_def)
  have x': "length (wd shell_block) = 50" "length (dir_path ''/'') < 50" by (simp_all add: f p')
  from chdir_getcwd_round_trip[OF f(2) l t' d x', of 0] show
    "\<exists>k'. do_chdir (Chars 0 (lit ''/'')) root_kernel = Some (Inr (Ret 1 (Word 0), k'))"
    unfolding p' using n' by (simp only: if_False) blast
qed

section \<open>Blocking calls\<close>

text \<open>A process that waits gives up the processor if another one can run, and stays in the queue.\<close>

lemma gives_up:
  assumes "sched_ok s q" and "pcbs s (active_pcb s) = Some x" and "status x = WAITING"
    and "r \<in> set q" and "runnable s r"
  obtains sp t q' where "schedule rsp s = Some (Inr (sp, t))" and "sched_ok t q'" and "active_pcb t \<in> set q"
    and "active_pcb s \<in> set q'" and "pcbs t = pcbs (saved rsp s)" and "active_pcb t \<noteq> active_pcb s"
proof -
  let ?p = "active_pcb s"
  have c: "candidates s q = q @ [?p]" using assms(2,3) by (simp add: candidates_def has_status_def)
  have np: "\<not> runnable s ?p" using assms(2,3) by (simp add: has_status_def)
  from first_runnable[of r q "runnable s", OF assms(4,5)] obtain pre r1 post where
    q: "q = pre @ r1 # post" "\<forall>y\<in>set pre. \<not> runnable s y" "runnable s r1" by (elim exE conjE)
  have rot: "rotation s q = Some (r1, (post @ [?p]) @ filter (alive s) pre)"
    unfolding rotation_split c using q by (intro exI[of _ pre] exI[of _ "post @ [?p]"]) simp
  from schedule_simulates_rotation[OF assms(1) rot, of rsp] obtain y :: pcb and t where
    t: "schedule rsp s = Some (Inr (kernel_sp y, t))" "sched_ok t ((post @ [?p]) @ filter (alive s) pre)"
    "pcbs t = pcbs (saved rsp s)" "active_pcb t = r1" by (elim exE conjE) (rule that)
  have "r1 \<noteq> ?p" using np q(3) by auto
  with q t show thesis by (intro that[OF t(1,2) _ _ t(3)]) simp_all
qed

lemma saved_active: "pcbs s (active_pcb s) = Some x \<Longrightarrow> pcbs (saved rsp s) (active_pcb s) = Some (x\<lparr>kernel_sp := rsp\<rparr>)"
  by (simp add: saved_def)

lemma upd_active_blocks:
  assumes "active_blk k = Inr x" and "sched_ok (sched_of k) q" and "r \<in> set q" and "runnable (sched_of k) r"
    and "status (f x) = WAITING"
  obtains k1 sp t q' where "upd_active f k = Inr k1" and "k1 = set_sched (put_pcb (active_pcb (sched_of k)) (f x) (sched_of k)) k"
    and "schedule rsp (sched_of k1) = Some (Inr (sp, t))"
    and "sched_ok t q'" and "active_pcb t \<noteq> active_pcb (sched_of k)" and "active_pcb (sched_of k) \<in> set q'"
    and "pcbs t (active_pcb (sched_of k)) = Some ((f x)\<lparr>kernel_sp := rsp\<rparr>)"
    and "\<And>p. p \<noteq> active_pcb (sched_of k) \<Longrightarrow> pcbs t p = pcbs (sched_of k) p" and "active_pcb t \<in> set q"
proof -
  let ?p = "active_pcb (sched_of k)"
  let ?s = "put_pcb ?p (f x) (sched_of k)"
  have ok: "sched_ok ?s q" by (rule sched_ok_put[OF assms(2)])
  have a: "pcbs ?s (active_pcb ?s) = Some (f x)" by simp
  have "r \<noteq> ?p" using assms(2,3) by (auto simp: sched_ok_def blocks_ok_def)
  then have r: "runnable ?s r" using assms(4) by (simp add: has_status_def)
  obtain sp t q' where t: "schedule rsp ?s = Some (Inr (sp, t))" "sched_ok t q'" "active_pcb t \<in> set q"
    "active_pcb ?s \<in> set q'" "pcbs t = pcbs (saved rsp ?s)" "active_pcb t \<noteq> active_pcb ?s"
    by (rule gives_up[OF ok a assms(5,3) r])
  have u: "upd_active f k = Inr (set_sched ?s k)" by (rule upd_active_run[OF assms(1)])
  show thesis
  proof (rule that[OF u refl])
    show "schedule rsp (sched_of (set_sched ?s k)) = Some (Inr (sp, t))" using t(1) by simp
    show "pcbs t ?p = Some ((f x)\<lparr>kernel_sp := rsp\<rparr>)" using t(5) saved_active[OF a] by simp
    show "pcbs t p = pcbs (sched_of k) p" if "p \<noteq> ?p" for p
      unfolding t(5) using that by (simp add: saved_def)
  qed (use t in simp_all)
qed

text \<open>C16: A read from the keyboard with nothing typed parks the process and gives the processor away. When a
  line is typed, whatever runs meanwhile, the process is woken, and going on in \<^verbatim>\<open>do_read\<close> it gets the edited
  line; the buffer is empty again.\<close>

theorem read_waits_for_line:
  assumes "active_blk k = Inr x" and "sched_ok (sched_of k) q" and "r \<in> set q" and "runnable (sched_of k) r"
    and "fd_table x = d # ds" and "file_start_address d = 0"
    and "typed (inp (io k)) []" and "input_count (inp (io k)) = 0"
    and "set cs \<inter> {LF, EOT} = {}" and "start_point (inp (io k)) + int (length cs) < 255"
    and "l = edited [] cs" and "length l + 2 \<le> length buf" and "int (length l) < int_arg sz"
  shows "\<exists>k1 sp t i t1. do_read 0 (Chars a buf) sz k = Inr (Sched (In_Read (Chars a buf) sz), k1) \<and>
    schedule rsp (sched_of k1) = Some (Inr (sp, t)) \<and> active_pcb t \<noteq> active_pcb (sched_of k) \<and>
    \<not> runnable t (active_pcb (sched_of k)) \<and>
    add_chars (cs @ [LF]) (inp (io k1), t) = Inr (i, t1) \<and> runnable t1 (active_pcb (sched_of k)) \<and>
    (\<forall>k2. inp (io k2) = i \<longrightarrow> (\<exists>k3. resume (In_Read (Chars a buf) sz) k2 =
       Inr (Ret (of_nat (length l + 1)) (Chars a (splice buf 0 (l @ [LF, NUL]))), k3) \<and> typed (inp (io k3)) []))"
proof -
  let ?p = "active_pcb (sched_of k)"
  let ?f = "\<lambda>x. x\<lparr>status := WAITING, waiting_on_stdin := True\<rparr>"
  have w: "status (?f x) = WAITING" by simp
  obtain k1 sp t q' where
    k1: "upd_active ?f k = Inr k1" "k1 = set_sched (put_pcb ?p (?f x) (sched_of k)) k"
    "schedule rsp (sched_of k1) = Some (Inr (sp, t))" and t: "sched_ok t q'" "active_pcb t \<noteq> ?p" "?p \<in> set q'"
    "pcbs t ?p = Some ((?f x)\<lparr>kernel_sp := rsp\<rparr>)"
    by (rule upd_active_blocks[where f = ?f, OF assms(1-4) w])
  have i: "inp (io k1) = inp (io k)" unfolding k1(2) by (simp add: set_sched_def)
  have read: "do_read 0 (Chars a buf) sz k = Inr (Sched (In_Read (Chars a buf) sz), k1)"
    using assms(5,6,8) k1(1) by (simp add: do_read_def assms(1) fd_entry_def read_stdin_def buffer_is_ready_def)
  have none: "set [] \<inter> {LF, EOT, BS} = {}" "length cs + length ([] :: string) < 255"
    using assms(7,10) by (simp_all add: typed_def)
  from typed_line_read[OF assms(7,8) t(1) assms(9) none(1) assms(10) none(2) assms(11-13), unfolded append_Nil2] obtain s1 s2 t1 where
    s1: "add_chars (cs @ [LF]) (inp (io k), t) = Inr (s1, t1)" "buffer_is_ready s1"
    "t1 = wake (\<lambda>x. status x = WAITING \<and> waiting_on_stdin x)
      (\<lambda>x. x\<lparr>waiting_on_stdin := False, status := RUNNING\<rparr>) q' t"
    "copy_input buf (int_arg sz) s1 = Inr (int (length l) + 1, s2, splice buf 0 (l @ [LF, NUL]))" "typed s2 []"
    by (elim exE conjE)
  have "runnable t1 ?p" unfolding s1(3) using t(3,4) by (simp add: wake_def has_status_def)
  moreover have "\<not> runnable t ?p" using t(4) by (simp add: has_status_def)
  moreover have "\<exists>k3. resume (In_Read (Chars a buf) sz) k2 =
       Inr (Ret (of_nat (length l + 1)) (Chars a (splice buf 0 (l @ [LF, NUL]))), k3) \<and> typed (inp (io k3)) []"
    if "inp (io k2) = s1" for k2
    using s1(2,4,5) that by (simp add: read_stdin_def)
  ultimately show ?thesis using read k1(3) t(2) s1(1) i by (intro exI[of _ k1] exI[of _ sp] exI[of _ t]) auto
qed

definition pair_kernel :: "process_status \<Rightarrow> kernel" where
  "pair_kernel st = set_sched (two_blocks st) root_kernel"

lemma pair_kernel_fields:
  "sched_of (pair_kernel st) = two_blocks st" "active_blk (pair_kernel st) = Inr (blank_pcb\<lparr>pid := 1\<rparr>)"
  "inp (io (pair_kernel st)) = empty_stdin"
  by (simp_all add: pair_kernel_def active_blk_def deref_def root_kernel_fields two_blocks_def)

lemma pair_runnable: "0x2000 \<in> set [0x2000 :: u64] \<and> runnable (two_blocks READY) 0x2000"
  by (simp add: two_blocks_status)

theorem read_waits_for_line_witness:
  "\<exists>k1. do_read 0 (Chars 0x500000 (replicate 80 NUL)) 80 (pair_kernel READY) =
     Inr (Sched (In_Read (Chars 0x500000 (replicate 80 NUL)) 80), k1)"
proof -
  have q: "sched_ok (sched_of (pair_kernel READY)) [0x2000]" "0x2000 \<in> set [0x2000 :: u64]"
    "runnable (sched_of (pair_kernel READY)) 0x2000"
    using two_blocks_ok pair_runnable by (simp_all only: pair_kernel_fields)
  have f: "fd_table (blank_pcb\<lparr>pid := 1\<rparr>) = \<lparr>file_start_address = 0, file_size = 0, file_offset = 0\<rparr> #
      replicate 14 \<lparr>file_start_address = 0, file_size = 0, file_offset = 0\<rparr>"
    "file_start_address \<lparr>file_start_address = 0, file_size = 0, file_offset = 0\<rparr> = 0"
    by (simp_all add: blank_pcb_def numeral_eq_Suc)
  have t: "typed (inp (io (pair_kernel READY))) []" "input_count (inp (io (pair_kernel READY))) = 0"
    "set ''ls'' \<inter> {LF, EOT} = {}" "start_point (inp (io (pair_kernel READY))) + int (length ''ls'') < 255"
    "''ls'' = edited [] ''ls''" "length ''ls'' + 2 \<le> length (replicate 80 NUL)" "int (length ''ls'') < int_arg 80"
    using empty_stdin_typed by (simp_all add: pair_kernel_fields) (simp_all add: empty_stdin_def edited_def edit_step_def int_arg_def)
  from read_waits_for_line[OF pair_kernel_fields(2) q f t] show ?thesis by blast
qed

section \<open>Waiting for another process\<close>

definition waiting_for :: "sched \<Rightarrow> u64 \<Rightarrow> i32 \<Rightarrow> u64 \<Rightarrow> bool" where
  "waiting_for s p c sret =
     (\<exists>x. pcbs s p = Some x \<and> status x = WAITING \<and> waiting_on_pid x = c \<and> status_return x = sret)"

definition told :: "sched \<Rightarrow> u64 \<Rightarrow> u64 \<Rightarrow> u64 \<Rightarrow> bool" where
  "told s p st sret =
     (\<exists>x. pcbs s p = Some x \<and> status x = RUNNING \<and> exit_notify_status x = st \<and> status_return x = sret)"

lemma kstore32_writes:
  assumes "user_ok k p fs S" and "\<And>i. i < 4 \<Longrightarrow> a + of_nat i \<in> S" and "4 * card (unmapped k p S) \<le> length fs"
  obtains k' fs' where "kstore32 a w k = Inr k'"
    and "\<forall>i<4. user_byte k' p (a + of_nat i) = Some (ucast (drop_bit (8 * i) w))" and "user_ok k' p fs' S"
proof -
  have l: "loaded k p fs S a (\<lambda>i. ucast (drop_bit (8 * i) w)) 0 k"
    using assms(1,3) by (auto simp: loaded_def intro: exI[of _ 0])
  from store_range[OF assms(2) _ _ l, of 4 "\<lambda>i. kstore8 (a + of_nat i) (ucast (drop_bit (8 * i) w))"] obtain k' where
    k': "kstore32 a w k = Inr k'" "loaded k p fs S a (\<lambda>i. ucast (drop_bit (8 * i) w)) 4 k'"
    by (auto simp: kstore32_def)
  from k'(2) that[OF k'(1)] show thesis by (auto simp: loaded_def)
qed

lemma resume_wait_user:
  assumes "told (sched_of k) (active_pcb (sched_of k)) st sret" and "active_pcb (sched_of k) \<noteq> 0"
    and "user_ok k p fs S" and "\<And>i. i < 4 \<Longrightarrow> sret + of_nat i \<in> S" and "4 * card (unmapped k p S) \<le> length fs"
  obtains k' fs' where "resume In_Wait k = Inr (Ret 0 (Word 0), k')" and "user_ok k' p fs' S"
    and "\<forall>i<4. user_byte k' p (sret + of_nat i) = Some (ucast (drop_bit (8 * i) st))"
proof -
  from assms(1) obtain x where x: "active_blk k = Inr x" "exit_notify_status x = st" "status_return x = sret"
    using assms(2) by (auto simp: told_def active_blk_run)
  obtain k' fs' where "kstore32 sret st k = Inr k'" "user_ok k' p fs' S"
    "\<forall>i<4. user_byte k' p (sret + of_nat i) = Some (ucast (drop_bit (8 * i) st))"
    by (rule kstore32_writes[where w = st, OF assms(3-5)])
  then show thesis by (intro that[of k' fs']) (simp_all add: x)
qed

lemma resume_wait_stores:
  assumes "told (sched_of k) (active_pcb (sched_of k)) st sret" and "active_pcb (sched_of k) \<noteq> 0"
    and "user_ok k p fs S" and "\<And>i. i < 4 \<Longrightarrow> sret + of_nat i \<in> S" and "4 * card (unmapped k p S) \<le> length fs"
  shows "\<exists>k'. resume In_Wait k = Inr (Ret 0 (Word 0), k') \<and>
    (\<forall>i<4. user_byte k' p (sret + of_nat i) = Some (ucast (drop_bit (8 * i) st)))"
  using resume_wait_user[OF assms] by blast

lemma exit_run:
  assumes "active_blk k = Inr y" and "sched_ok (sched_of k) q"
  shows "do_exit st k = Inr (Sched In_Exit, set_sched
    (wake (\<lambda>x. status x = WAITING \<and> waiting_on_pid x = pid y)
      (\<lambda>x. x\<lparr>waiting_on_pid := 0, exit_notify_status := st, status := RUNNING\<rparr>) q
      (put_pcb (active_pcb (sched_of k)) (y\<lparr>status := FINISHED\<rparr>) (sched_of k))) k)"
proof -
  let ?p = "active_pcb (sched_of k)"
  let ?s = "put_pcb ?p (y\<lparr>status := FINISHED\<rparr>) (sched_of k)"
  note u = upd_active_run[OF assms(1), of "\<lambda>x. x\<lparr>status := FINISHED\<rparr>"]
  have a: "active_blk (set_sched ?s k) = Inr (y\<lparr>status := FINISHED\<rparr>)"
    using assms(1) by (elim active_blkE) (simp add: active_blk_def deref_def)
  show ?thesis
    using notify_wakes(2)[OF sched_ok_put[OF assms(2)], of "pid y" st ?p "y\<lparr>status := FINISHED\<rparr>"]
    by (simp add: do_exit_def u a vma_free_pages_def)
qed

lemma active_not_queued: "sched_ok s q \<Longrightarrow> p \<in> set q \<Longrightarrow> p \<noteq> active_pcb s \<and> p \<noteq> 0"
  by (auto simp: sched_ok_def blocks_ok_def)

text \<open>C17: \<^verbatim>\<open>waitpid\<close> parks the caller until the process it names exits; that exit wakes it, and going on it
  stores the low 32 bits of the exit status where the caller wanted them and returns 0.\<close>

theorem wait_returns_status:
  assumes "active_blk k = Inr x" and "sched_ok (sched_of k) q" and "r \<in> set q" and "runnable (sched_of k) r"
    and "p = active_pcb (sched_of k)"
  shows "(\<exists>k1 sp t. do_waitpid c sret opts k = Inr (Sched In_Wait, k1) \<and> schedule rsp (sched_of k1) = Some (Inr (sp, t)) \<and>
      active_pcb t \<noteq> p \<and> waiting_for t p (ucast c) sret) \<and>
    (\<forall>kc y qc. sched_ok (sched_of kc) qc \<and> p \<in> set qc \<and> waiting_for (sched_of kc) p (ucast c) sret \<and>
        active_blk kc = Inr y \<and> pid y = ucast c \<longrightarrow>
      (\<exists>kc'. do_exit st kc = Inr (Sched In_Exit, kc') \<and> \<not> alive (sched_of kc') (active_pcb (sched_of kc')) \<and>
        sched_ok (sched_of kc') qc \<and> told (sched_of kc') p st sret)) \<and>
    (\<forall>k2 g fs S. active_pcb (sched_of k2) = p \<and> told (sched_of k2) p st sret \<and> user_ok k2 g fs S \<and>
        (\<forall>i<4. sret + of_nat i \<in> S) \<and> 4 * card (unmapped k2 g S) \<le> length fs \<longrightarrow>
      (\<exists>k3. resume In_Wait k2 = Inr (Ret 0 (Word 0), k3) \<and>
        (\<forall>i<4. user_byte k3 g (sret + of_nat i) = Some (ucast (drop_bit (8 * i) st)))))"
proof (intro conjI allI impI; (elim conjE)?)
  let ?f = "\<lambda>x. x\<lparr>waiting_on_pid := ucast c, status := WAITING, status_return := sret\<rparr>"
  have w: "status (?f x) = WAITING" by simp
  obtain k1 sp t q' where
    k1: "upd_active ?f k = Inr k1" "k1 = set_sched (put_pcb p (?f x) (sched_of k)) k"
    "schedule rsp (sched_of k1) = Some (Inr (sp, t))" and t: "active_pcb t \<noteq> p" "pcbs t p = Some ((?f x)\<lparr>kernel_sp := rsp\<rparr>)"
    unfolding assms(5) by (rule upd_active_blocks[where f = ?f, OF assms(1-4) w])
  have "do_waitpid c sret opts k = Inr (Sched In_Wait, k1)" by (simp add: do_waitpid_def k1(1))
  with k1(3) t show "\<exists>k1 sp t. do_waitpid c sret opts k = Inr (Sched In_Wait, k1) \<and>
      schedule rsp (sched_of k1) = Some (Inr (sp, t)) \<and> active_pcb t \<noteq> p \<and> waiting_for t p (ucast c) sret"
    by (intro exI[of _ k1] exI[of _ sp] exI[of _ t]) (simp add: waiting_for_def)
next
  fix kc y qc
  assume a: "sched_ok (sched_of kc) qc" "p \<in> set qc" "waiting_for (sched_of kc) p (ucast c) sret"
    "active_blk kc = Inr y" "pid y = ucast c"
  let ?a = "active_pcb (sched_of kc)"
  have n: "p \<noteq> ?a" "?a \<notin> set qc" using active_not_queued[OF a(1)] a(2) by blast+
  let ?s = "wake (\<lambda>x. status x = WAITING \<and> waiting_on_pid x = pid y)
      (\<lambda>x. x\<lparr>waiting_on_pid := 0, exit_notify_status := st, status := RUNNING\<rparr>) qc
      (put_pcb ?a (y\<lparr>status := FINISHED\<rparr>) (sched_of kc))"
  have ok: "sched_ok ?s qc" by (intro wake_ok sched_ok_put a(1))
  have "told ?s p st sret"
    using a(2,3,5) n(1) by (auto simp: told_def waiting_for_def wake_def)
  moreover have "\<not> alive ?s ?a" using n(2) by (simp add: has_status_def wake_def)
  ultimately show "\<exists>kc'. do_exit st kc = Inr (Sched In_Exit, kc') \<and> \<not> alive (sched_of kc') (active_pcb (sched_of kc')) \<and>
      sched_ok (sched_of kc') qc \<and> told (sched_of kc') p st sret"
    using exit_run[OF a(4,1), of st] ok by (intro exI[of _ "set_sched ?s kc"]) simp
next
  fix k2 g fs S
  assume a: "active_pcb (sched_of k2) = p" "told (sched_of k2) p st sret" "user_ok k2 g fs S"
    "\<forall>i<4. sret + of_nat i \<in> S" "4 * card (unmapped k2 g S) \<le> length fs"
  have "p \<noteq> 0" using assms(2,5) by (auto simp: sched_ok_def blocks_ok_def)
  then show "\<exists>k3. resume In_Wait k2 = Inr (Ret 0 (Word 0), k3) \<and>
      (\<forall>i<4. user_byte k3 g (sret + of_nat i) = Some (ucast (drop_bit (8 * i) st)))"
    using a by (intro resume_wait_stores) auto
qed

theorem wait_returns_status_witness:
  "\<exists>k1. do_waitpid 7 0x500000 0 (pair_kernel READY) = Inr (Sched In_Wait, k1)"
proof -
  have q: "sched_ok (sched_of (pair_kernel READY)) [0x2000]" "0x2000 \<in> set [0x2000 :: u64]"
    "runnable (sched_of (pair_kernel READY)) 0x2000"
    using two_blocks_ok pair_runnable by (simp_all only: pair_kernel_fields)
  from wait_returns_status[OF pair_kernel_fields(2) q refl, of 7 "0x500000" 0] show ?thesis by blast
qed

lemma wait_is_deaf:
  assumes "active_pcb (sched_of k) = p" and "active_blk k = Inr x" and "sched_ok (sched_of k) q" and "r \<in> set q"
    and "runnable (sched_of k) r" and "\<not> waiting_on_stdin x" and "waiting_on_clock x = 0"
  shows "\<exists>k1 sp t. do_waitpid c sret opts k = Inr (Sched In_Wait, k1) \<and> schedule rsp (sched_of k1) = Some (Inr (sp, t)) \<and>
    \<not> runnable t p \<and> (\<forall>s. notify_stdin t = Inr s \<or> (\<exists>clk. notify_alarm clk t = Inr s) \<or>
      (\<exists>c' st'. c' \<noteq> ucast c \<and> notify_exit_pid c' st' t = Inr s) \<longrightarrow> pcbs s p = pcbs t p)"
proof -
  let ?f = "\<lambda>x. x\<lparr>waiting_on_pid := ucast c, status := WAITING, status_return := sret\<rparr>"
  have w: "status (?f x) = WAITING" by simp
  obtain k1 sp t q' where
    k1: "upd_active ?f k = Inr k1" "schedule rsp (sched_of k1) = Some (Inr (sp, t))"
    and t: "sched_ok t q'" "p \<in> set q'" "pcbs t p = Some ((?f x)\<lparr>kernel_sp := rsp\<rparr>)"
    unfolding assms(1)[symmetric] by (rule upd_active_blocks[where f = ?f, OF assms(2-5) w])
  have d: "do_waitpid c sret opts k = Inr (Sched In_Wait, k1)" by (simp add: do_waitpid_def k1(1))
  have n: "\<not> runnable t p" using t(3) by (simp add: has_status_def)
  have "pcbs s p = pcbs t p" if "notify_stdin t = Inr s \<or> (\<exists>clk. notify_alarm clk t = Inr s) \<or>
      (\<exists>c' st'. c' \<noteq> ucast c \<and> notify_exit_pid c' st' t = Inr s)" for s
    using that t(2,3) assms(6,7) unfolding notify_wakes[OF t(1)] by (auto simp: wake_def)
  with d k1(2) n show ?thesis by (intro exI[of _ k1] exI[of _ sp] exI[of _ t]) blast
qed

text \<open>C31: An exit is announced only to processes that already wait. If the child exits first, the parent's block
  is untouched, and when the parent then calls \<^verbatim>\<open>waitpid\<close> it is parked and nothing wakes it: no
  key, no alarm and no exit of a process with another number.\<close>

theorem exit_before_wait_is_lost:
  assumes "active_blk kc = Inr y" and "sched_ok (sched_of kc) q" and "p \<in> set q" and "pcbs (sched_of kc) p = Some x"
    and "status x \<noteq> WAITING" and "\<not> waiting_on_stdin x" and "waiting_on_clock x = 0"
  shows "\<exists>kc'. do_exit st kc = Inr (Sched In_Exit, kc') \<and> pcbs (sched_of kc') p = Some x \<and>
    (\<forall>k qk r. active_pcb (sched_of k) = p \<and> active_blk k = Inr x \<and> sched_ok (sched_of k) qk \<and> r \<in> set qk \<and>
        runnable (sched_of k) r \<longrightarrow>
      (\<exists>k1 sp t. do_waitpid c sret opts k = Inr (Sched In_Wait, k1) \<and> schedule rsp (sched_of k1) = Some (Inr (sp, t)) \<and>
        \<not> runnable t p \<and> (\<forall>s. notify_stdin t = Inr s \<or> (\<exists>clk. notify_alarm clk t = Inr s) \<or>
          (\<exists>c' st'. c' \<noteq> ucast c \<and> notify_exit_pid c' st' t = Inr s) \<longrightarrow> pcbs s p = pcbs t p)))"
proof -
  let ?a = "active_pcb (sched_of kc)"
  let ?s = "wake (\<lambda>x. status x = WAITING \<and> waiting_on_pid x = pid y)
      (\<lambda>x. x\<lparr>waiting_on_pid := 0, exit_notify_status := st, status := RUNNING\<rparr>) q
      (put_pcb ?a (y\<lparr>status := FINISHED\<rparr>) (sched_of kc))"
  have "p \<noteq> ?a" using active_not_queued[OF assms(2,3)] by simp
  then have u: "pcbs (sched_of (set_sched ?s kc)) p = Some x" using assms(3-5) by (simp add: wake_def)
  show ?thesis
  proof (rule exI[of _ "set_sched ?s kc"], intro conjI allI impI)
    show "do_exit st kc = Inr (Sched In_Exit, set_sched ?s kc)" by (rule exit_run[OF assms(1,2)])
    show "pcbs (sched_of (set_sched ?s kc)) p = Some x" by (rule u)
  qed (elim conjE, rule wait_is_deaf[OF _ _ _ _ _ assms(6,7)])
qed

theorem exit_before_wait_is_lost_witness:
  "\<exists>kc'. do_exit 3 (pair_kernel READY) = Inr (Sched In_Exit, kc') \<and>
     pcbs (sched_of kc') 0x2000 = pcbs (two_blocks READY) 0x2000"
proof -
  have q: "sched_ok (sched_of (pair_kernel READY)) [0x2000]" "0x2000 \<in> set [0x2000 :: u64]"
    "pcbs (sched_of (pair_kernel READY)) 0x2000 =
      Some (blank_pcb\<lparr>pid := 2, status := READY, waiting_on_pid := 7, kernel_sp := 0x3000\<rparr>)"
    using two_blocks_ok two_blocks_pcbs by (simp_all only: pair_kernel_fields) simp
  have b: "status (blank_pcb\<lparr>pid := 2, status := READY, waiting_on_pid := 7, kernel_sp := 0x3000\<rparr>) \<noteq> WAITING"
    "\<not> waiting_on_stdin (blank_pcb\<lparr>pid := 2, status := READY, waiting_on_pid := 7, kernel_sp := 0x3000\<rparr>)"
    "waiting_on_clock (blank_pcb\<lparr>pid := 2, status := READY, waiting_on_pid := 7, kernel_sp := 0x3000\<rparr>) = 0"
    by (simp_all add: blank_pcb_def)
  from exit_before_wait_is_lost[OF pair_kernel_fields(2) q b, of 3] show ?thesis
    unfolding two_blocks_pcbs(2) by blast
qed

section \<open>Descriptors\<close>

lemma open_run:
  assumes "active_blk k = Inr x" and "length (Interrupts.abspath k) = 100" and "length (path_temp k) = 100"
    and "terminated (wd x)" and "cstr (wd x) = CHR ''/'' # b" and "terminated path"
    and "t = merged (cstr (wd x)) (cstr path)" and "length t < 100" and "length (split_slash t) \<le> 14"
    and "fs_ok (files k) es" and "sizes_ok es" and "clean t = CHR ''/'' # n" and "locate 0 es n = Some (q, d)" and "d \<noteq> []"
  obtains ab tmp where "do_open (Chars a path) 0 k =
      bindo (Some (alloc_fd (tar_start (files k) + of_nat q + HEADER_SIZE) (of_nat (length d)) x)) (\<lambda>(fd, y).
        Some (Inr (Ret (of_int fd) (Word 0), set_sched (put_pcb (active_pcb (sched_of k)) y (sched_of k))
          (k\<lparr>abspath := ab, path_temp := tmp\<rparr>))))"
proof -
  have p: "terminated (chars_of (Chars a path))" "t = merged (cstr (wd x)) (cstr (chars_of (Chars a path)))"
    using assms(6,7) by simp_all
  obtain ab tmp where
    m: "merge_path (Chars a path) k = Some (Inr (k\<lparr>abspath := ab, path_temp := tmp\<rparr>))"
    "length ab = 100" "length tmp = 100" "terminated ab" "cstr ab = (if t = ''/'' then ''/'' else clean t)"
    by (rule merge_path_run[OF assms(1-5) p assms(8,9)])
  have "t \<noteq> ''/''"
  proof
    assume "t = ''/''"
    then have "clean t = []" by (simp add: clean_def join_parts_def)
    then show False using assms(12) by simp
  qed
  then have ab: "cstr ab = CHR ''/'' # n" using m(5) assms(12) by simp
  note d1 = drop1_terminated[OF m(4) ab]
  let ?k = "k\<lparr>abspath := ab, path_temp := tmp\<rparr>"
  have ts: "tar_search (files k) ab none found st = Some (found (tar_start (files k) + of_nat q) (of_nat (length d)) st)"
    for none :: int and found and st :: 's
    unfolding tar_search_locate[OF assms(10,11) d1(1)] d1(2) assms(13) by simp
  have s: "search_file_open (files ?k) ab = Some (Inr (1, ()))"
    using assms(14) locate_room(3)[OF assms(10,13)] by (simp add: search_file_open_def ts)
  have o': "do_open_file (files ?k) ab x = Some (alloc_fd (tar_start (files k) + of_nat q + HEADER_SIZE) (of_nat (length d)) x)"
    by (simp add: do_open_file_def ts)
  have u: "upd_active (\<lambda>_. y) ?k = Inr (set_sched (put_pcb (active_pcb (sched_of k)) y (sched_of k)) ?k)" for y
    using upd_active_run[of ?k x "\<lambda>_. y"] assms(1) by simp
  show thesis
    by (rule that[of tmp ab]) (use s o' assms(1) in \<open>simp add: do_open_def m(1) u bindo_def split: sum.splits\<close>)
qed

text \<open>C39: Opening a file gives the next descriptor, and closing it clears the entry of the table, but
  the descriptor is not given out again: the process can open 12 files in its life, and the next one is
  recorded behind the table.\<close>

theorem close_never_frees:
  assumes "active_blk k = Inr x" and "length (Interrupts.abspath k) = 100" and "length (path_temp k) = 100"
    and "terminated (wd x)" and "cstr (wd x) = CHR ''/'' # b" and "terminated path"
    and "t = merged (cstr (wd x)) (cstr path)" and "length t < 100" and "length (split_slash t) \<le> 14"
    and "fs_ok (files k) es" and "sizes_ok es" and "clean t = CHR ''/'' # n" and "locate 0 es n = Some (q, d)" and "d \<noteq> []"
    and "length (fd_table x) = 15"
  shows "if next_fd x < 15
    then \<exists>k1 k2 y. do_open (Chars a path) 0 k = Some (Inr (Ret (of_nat (next_fd x)) (Word 0), k1)) \<and>
      do_close (of_nat (next_fd x)) k1 = Inr (Ret 0 (Word 0), k2) \<and> active_blk k2 = Inr y \<and>
      next_fd y = next_fd x + 1 \<and>
      fd_table y = (fd_table x)[next_fd x := \<lparr>file_start_address = 0, file_size = 0, file_offset = 0\<rparr>]
    else do_open (Chars a path) 0 k = Some (Inl Out_Of_Bounds)"
proof -
  obtain ab tmp where o': "do_open (Chars a path) 0 k =
      bindo (Some (alloc_fd (tar_start (files k) + of_nat q + HEADER_SIZE) (of_nat (length d)) x)) (\<lambda>(fd, y).
        Some (Inr (Ret (of_int fd) (Word 0), set_sched (put_pcb (active_pcb (sched_of k)) y (sched_of k))
          (k\<lparr>abspath := ab, path_temp := tmp\<rparr>))))"
    by (rule open_run[OF assms(1-14)])
  show ?thesis
  proof (cases "next_fd x < 15")
    case True
    let ?e = "\<lparr>file_start_address = tar_start (files k) + of_nat q + HEADER_SIZE, file_size = of_nat (length d), file_offset = 0\<rparr>"
    let ?x = "x\<lparr>next_fd := next_fd x + 1, fd_table := (fd_table x)[next_fd x := ?e]\<rparr>"
    let ?k = "set_sched (put_pcb (active_pcb (sched_of k)) ?x (sched_of k)) (k\<lparr>abspath := ab, path_temp := tmp\<rparr>)"
    have f: "unat (of_nat (next_fd x) :: u64) = next_fd x" using True by (simp add: unat_of_nat64)
    have r: "do_open (Chars a path) 0 k = Some (Inr (Ret (of_nat (next_fd x)) (Word 0), ?k))"
      unfolding o' using True assms(15) by (simp add: alloc_fd_def Let_def)
    have a: "active_blk ?k = Inr ?x" using assms(1) by (elim active_blkE) (simp add: active_blk_def deref_def)
    let ?z = "\<lparr>file_start_address = 0, file_size = 0, file_offset = 0\<rparr> :: fd_t"
    let ?y = "?x\<lparr>fd_table := (fd_table ?x)[next_fd x := ?z]\<rparr>"
    let ?k2 = "set_sched (put_pcb (active_pcb (sched_of ?k)) ?y (sched_of ?k)) ?k"
    have c: "do_close (of_nat (next_fd x)) ?k = Inr (Ret 0 (Word 0), ?k2)"
      unfolding do_close_def a upd_active_run[OF a] f using True assms(15) by (simp add: fd_entry_def f)
    have a2: "active_blk ?k2 = Inr ?y" using assms(1) by (elim active_blkE) (simp add: active_blk_def deref_def)
    from True r c a2 show ?thesis
      by (simp only: if_True) (intro exI[of _ ?k] exI[of _ ?k2] exI[of _ ?y], simp)
  next
    case False
    then show ?thesis unfolding o' using assms(15) by (simp add: alloc_fd_def Let_def)
  qed
qed

theorem close_never_frees_witness:
  "\<exists>k1 k2 y. do_open (Chars 0 (lit ''etc/x'')) 0 root_kernel = Some (Inr (Ret 3 (Word 0), k1)) \<and>
     do_close 3 k1 = Inr (Ret 0 (Word 0), k2) \<and> active_blk k2 = Inr (y :: pcb) \<and> next_fd y = 4"
proof -
  note f = root_kernel_fields shell_block_fields
  have d: "fs_ok (files root_kernel) demo" "sizes_ok demo" using demo_ok by (simp_all add: f)
  have l: "length (Interrupts.abspath root_kernel) = 100" "length (path_temp root_kernel) = 100" by (simp_all add: f)
  have t: "terminated (wd shell_block)" "cstr (wd shell_block) = CHR ''/'' # []" "terminated (lit ''etc/x'')"
    "''/etc/x'' = merged (cstr (wd shell_block)) (cstr (lit ''etc/x''))" "length ''/etc/x'' < 100"
    "length (split_slash ''/etc/x'') \<le> 14" by (simp_all add: f merged_def)
  have c: "clean ''/etc/x'' = CHR ''/'' # ''etc/x''" by (simp add: clean_def join_parts_def)
  obtain q d' where q: "locate 0 demo ''etc/x'' = Some (q, d')" "d' \<noteq> []" by (simp add: demo_def)
  have x: "length (fd_table shell_block) = 15" "next_fd shell_block = 3" by (simp_all add: shell_block_def blank_pcb_def)
  have lt: "(3 :: nat) < 15" by simp
  from close_never_frees[OF f(2) l t d c q x(1), of 0, unfolded x(2) if_P[OF lt]] show ?thesis
    unfolding of_nat_numeral by (elim exE conjE) (intro exI conjI, assumption+, simp)
qed

end
