(* ===== verification/User_String.thy ===== *)
theory User_String
  imports Printf Stdin "HOL-Library.Stream"
begin

text \<open>
  The string functions of the shell, \<^verbatim>\<open>bin/sbush/strutil.c\<close>, on arrays as in \<open>Kstring\<close>. The content of
  memory that \<^verbatim>\<open>malloc\<close> hands out and nobody has written is a stream of bytes that is a parameter.
\<close>

abbreviation (input) MAX_STR_LEN :: nat where "MAX_STR_LEN \<equiv> 2040"

section \<open>Operations\<close>

definition take_block :: "nat \<Rightarrow> char stream \<Rightarrow> char list \<times> char stream" where
  "take_block n raw = (stake n raw, sdrop n raw)"

function strlen_loop :: "char list \<Rightarrow> nat \<Rightarrow> int result" where
  "strlen_loop s i =
     (if i < MAX_STR_LEN
      then if i < length s then if s ! i = NUL then Inr (int i) else strlen_loop s (Suc i) else Inl Out_Of_Bounds
      else Inr (- 1))"
  by pat_completeness auto
termination by (relation "measure (\<lambda>(s, i). length s - i)") auto

definition strlen :: "char list \<Rightarrow> int result" where
  "strlen s = strlen_loop s 0"

text \<open>\<^verbatim>\<open>strcpy(s, t + d)\<close>: the first argument is the source, and the test is made behind the character
  that has been copied.\<close>

function strcpy_loop :: "nat \<Rightarrow> char list \<Rightarrow> nat \<Rightarrow> char list \<Rightarrow> (nat \<times> char list) result" where
  "strcpy_loop d s l t =
     (if l < length s
      then bindr (wr t (d + l) (s ! l)) (\<lambda>t1.
           bindr (rd s (Suc l)) (\<lambda>c.
             if c \<noteq> NUL \<and> Suc l < MAX_STR_LEN then strcpy_loop d s (Suc l) t1 else Inr (Suc l, t1)))
      else Inl Out_Of_Bounds)"
  by pat_completeness auto
termination by (relation "measure (\<lambda>(d, s, l, t). length s - l)") auto

definition strcpy :: "char list \<Rightarrow> nat \<Rightarrow> char list \<Rightarrow> (nat \<times> char list) result" where
  "strcpy s d t = strcpy_loop d s 0 t"

definition strcpy_fr_to :: "char list \<Rightarrow> char list \<Rightarrow> int \<Rightarrow> int \<Rightarrow> (int \<times> char list) result" where
  "strcpy_fr_to s t st en =
     (let l = en - st
      in bindr (for_up 0 (nat l) (\<lambda>i t. bindr (rdi s (int i + st)) (\<lambda>c. wr t i c)) t) (\<lambda>t1.
         bindr (wri t1 l NUL) (\<lambda>t2. Inr (l, t2))))"

definition strcpy_from :: "char list \<Rightarrow> char list \<Rightarrow> int \<Rightarrow> (int \<times> char list) result" where
  "strcpy_from s t st =
     bindr (strlen s) (\<lambda>l.
     bindr (for_up 0 (nat (l + 1)) (\<lambda>i t. bindr (rd s i) (\<lambda>c. wri t (st + int i) c)) t) (\<lambda>t1. Inr (st + l, t1)))"

function search_loop :: "char list \<Rightarrow> char \<Rightarrow> int \<Rightarrow> nat \<Rightarrow> int result" where
  "search_loop s c l i =
     (if int i < l
      then bindr (rd s i) (\<lambda>x. if x = c then Inr (int i) else search_loop s c l (Suc i))
      else Inr (- 1))"
  by pat_completeness auto
termination by (relation "measure (\<lambda>(s, c, l, i). nat l - i)") auto

definition strsearch :: "char list \<Rightarrow> char \<Rightarrow> int result" where
  "strsearch s c = bindr (strlen s) (\<lambda>l. search_loop s c l 0)"

function prefix_loop :: "char list \<Rightarrow> char list \<Rightarrow> int \<Rightarrow> nat \<Rightarrow> int result" where
  "prefix_loop pref str l i =
     (if int i < l
      then bindr (rd pref i) (\<lambda>a. bindr (rd str i) (\<lambda>b. if a \<noteq> b then Inr 0 else prefix_loop pref str l (Suc i)))
      else Inr (- 1))"
  by pat_completeness auto
termination by (relation "measure (\<lambda>(pref, str, l, i). nat l - i)") auto

definition strprefix :: "char list \<Rightarrow> char list \<Rightarrow> int result" where
  "strprefix pref str = bindr (strlen pref) (\<lambda>l. prefix_loop pref str l 0)"

function comp_loop :: "char list \<Rightarrow> char list \<Rightarrow> int \<Rightarrow> nat \<Rightarrow> int result" where
  "comp_loop str1 str2 l i =
     (if int i < l
      then bindr (rd str1 i) (\<lambda>a. bindr (rd str2 i) (\<lambda>b.
             let d = schar a - schar b in if d \<noteq> 0 then Inr d else comp_loop str1 str2 l (Suc i)))
      else Inr 0)"
  by pat_completeness auto
termination by (relation "measure (\<lambda>(str1, str2, l, i). nat l - i)") auto

definition strcomp :: "char list \<Rightarrow> char list \<Rightarrow> int result" where
  "strcomp str1 str2 =
     bindr (strlen str1) (\<lambda>l1. bindr (strlen str2) (\<lambda>l2.
       if l1 - l2 \<noteq> 0 then Inr (l1 - l2) else comp_loop str1 str2 l1 0))"

text \<open>
  \<^verbatim>\<open>strsplit\<close>: the first loop counts the delimiters, the second makes the parts. The result is the list of the
  parts in front of the terminating \<^verbatim>\<open>NULL\<close>; the array of pointers takes 8 bytes for each of them and the \<^verbatim>\<open>NULL\<close>.
\<close>

function count_loop :: "char list \<Rightarrow> char \<Rightarrow> nat \<Rightarrow> nat \<Rightarrow> nat result" where
  "count_loop str delim i n =
     bindr (strlen str) (\<lambda>k.
       if int i < k
       then bindr (rd str i) (\<lambda>c. count_loop str delim (Suc i) (if c = delim then Suc n else n))
       else Inr n)"
  by pat_completeness auto
termination by (relation "measure (\<lambda>(str, delim, i, n). length str - i)") (auto simp: rd_def split: if_splits)

function parts_loop ::
  "char list \<Rightarrow> char \<Rightarrow> nat \<Rightarrow> nat \<Rightarrow> int \<Rightarrow> char list list \<Rightarrow> char stream \<Rightarrow> (char list list \<times> char stream) result" where
  "parts_loop str delim room i l res raw =
     bindr (strlen str) (\<lambda>k.
       if int i \<le> k
       then bindr (rd str i) (\<lambda>c.
              if c = delim \<or> c = NUL
              then let (arg, raw1) = take_block (nat (int i - l + 1)) raw
                   in bindr (strcpy_fr_to str arg (l + 1) (int i)) (\<lambda>(_, arg1).
                      if length res < room
                      then parts_loop str delim room (Suc i) (int i) (res @ [arg1]) raw1 else Inl Out_Of_Bounds)
              else parts_loop str delim room (Suc i) l res raw)
       else if length res < room then Inr (res, raw) else Inl Out_Of_Bounds)"
  by pat_completeness auto
termination
  by (relation "measure (\<lambda>(str, delim, room, i, l, res, raw). length str - i)") (auto simp: rd_def split: if_splits)

definition strsplit :: "char list \<Rightarrow> char \<Rightarrow> char stream \<Rightarrow> (char list list \<times> char stream) result" where
  "strsplit str delim raw =
     bindr (count_loop str delim 0 0) (\<lambda>n. parts_loop str delim (n + 2) 0 (- 1) [] (sdrop (8 * (n + 2)) raw))"

definition swap_chars :: "int \<Rightarrow> int \<Rightarrow> char list \<Rightarrow> char list result" where
  "swap_chars a b str =
     bindr (rdi str a) (\<lambda>temp. bindr (rdi str b) (\<lambda>c. bindr (wri str a c) (\<lambda>str1. wri str1 b temp)))"

definition strreverse :: "char list \<Rightarrow> (int \<times> char list) result" where
  "strreverse str =
     bindr (strlen str) (\<lambda>l.
     bindr (for_up 0 (nat ((l - 1) sdiv 2 + 1)) (\<lambda>i. swap_chars (l - 1 - int i) (int i)) str) (\<lambda>str1. Inr (0, str1)))"

definition digit_char :: "int \<Rightarrow> char" where
  "digit_char d = char_of (nat ((48 + d) mod 256))"

function itoa_r :: "char list \<Rightarrow> nat \<Rightarrow> int \<Rightarrow> char list result" where
  "itoa_r buf p i =
     (if i = 0 then wr buf p NUL
      else bindr (wr buf p (digit_char (i smod 10))) (\<lambda>b. itoa_r b (Suc p) (i sdiv 10)))"
  by pat_completeness auto
termination
proof (relation "measure (\<lambda>(buf, p, i). nat \<bar>i\<bar>)")
  fix buf :: "char list" and p :: nat and i :: int and b :: "char list"
  assume "i \<noteq> 0"
  then show "((b, Suc p, i sdiv 10), buf, p, i) \<in> measure (\<lambda>(buf, p, i). nat \<bar>i\<bar>)"
    by (auto simp: signed_divide_int_def abs_mult)
qed simp

definition itoa :: "char list \<Rightarrow> int \<Rightarrow> (int \<times> char list) result" where
  "itoa buf i =
     (if i = 0 then bindr (wr buf 0 (CHR ''0'')) (\<lambda>b. bindr (wr b 1 NUL) (\<lambda>b1. Inr (0, b1)))
      else bindr (itoa_r buf 0 i) strreverse)"

text \<open>
  \<^verbatim>\<open>strcat(prefix, suffix, buffer, buffer_size)\<close>; \<open>None\<close> as the prefix is the buffer itself. The suffix is
  another array than the buffer (otherwise the function prints a message and returns -1).
\<close>

definition strcat :: "char list option \<Rightarrow> char list \<Rightarrow> char list \<Rightarrow> int \<Rightarrow> (int \<times> char list) result" where
  "strcat pref suf buffer buffer_size =
     (let pre = (case pref of None \<Rightarrow> buffer | Some p \<Rightarrow> p)
      in bindr (strlen pre) (\<lambda>pref_l. bindr (strlen suf) (\<lambda>suf_l.
         if pref_l + suf_l + 1 \<ge> buffer_size then Inr (- 1, buffer)
         else bindr (for_up 0 (nat pref_l) (\<lambda>i b. bindr (rd pre i) (\<lambda>c. wr b i c)) buffer) (\<lambda>b1.
              let i = nat (max 0 pref_l)
              in bindr (for_up i (nat (pref_l + suf_l)) (\<lambda>i b. bindr (rdi suf (int i - pref_l)) (\<lambda>c. wr b i c)) b1) (\<lambda>b2.
                 bindr (wr b2 (max i (nat (pref_l + suf_l))) NUL) (\<lambda>b3. Inr (0, b3)))))))"

definition str_split_line :: "char list \<Rightarrow> int \<Rightarrow> char stream \<Rightarrow> ((char list \<times> char list) \<times> char stream) result" where
  "str_split_line line pos raw =
     (let (first, raw1) = take_block (nat (pos + 1)) raw
      in bindr (strcpy_fr_to line first 0 pos) (\<lambda>(_, first_half).
         bindr (strlen line) (\<lambda>l.
         let (second, raw2) = take_block (nat (l - pos)) raw1
         in bindr (strcpy_fr_to line second (pos + 1) l) (\<lambda>(_, second_half). Inr ((first_half, second_half), raw2)))))"

fun strcount :: "char list \<Rightarrow> char \<Rightarrow> nat result" where
  "strcount [] q = Inl Out_Of_Bounds"
| "strcount (t # ts) q =
     (if t = NUL then Inr 0 else bindr (strcount ts q) (\<lambda>n. Inr (if t = q then Suc n else n)))"

text \<open>The reading index runs in front of the writing one, and the test is made at the writing one.\<close>

function remove_loop :: "char \<Rightarrow> nat \<Rightarrow> nat \<Rightarrow> char list \<Rightarrow> (nat \<times> char list) result" where
  "remove_loop q i j str =
     bindr (rd str j) (\<lambda>c.
       if c = NUL then Inr (j, str)
       else if i < length str
       then bindr (wr str j (str ! i)) (\<lambda>str1. remove_loop q (Suc i) (if str ! i \<noteq> q then Suc j else j) str1)
       else Inl Out_Of_Bounds)"
  by pat_completeness auto
termination by (relation "measure (\<lambda>(q, i, j, str). length str - i)") (auto simp: wr_def split: if_splits)

definition strremove :: "char list \<Rightarrow> char \<Rightarrow> (nat \<times> char list) result" where
  "strremove str q = remove_loop q 0 0 str"

declare strlen_loop.simps [simp del] strcpy_loop.simps [simp del] search_loop.simps [simp del] prefix_loop.simps [simp del]
  comp_loop.simps [simp del] count_loop.simps [simp del] parts_loop.simps [simp del] itoa_r.simps [simp del]
  remove_loop.simps [simp del]

section \<open>What they compute\<close>

lemma strlen_loop_clen:
  assumes "terminated s" and "clen s < MAX_STR_LEN" and "i \<le> clen s"
  shows "strlen_loop s i = Inr (int (clen s))"
proof -
  from assms(1) obtain t r where s: "s = t @ NUL # r" "NUL \<notin> set t" "clen s = length t" by (elim terminatedE)
  from assms(2,3) show ?thesis
    unfolding s(3)
  proof (induction "length t - i" arbitrary: i)
    case 0
    then show ?case by (subst strlen_loop.simps) (simp add: s(1) nth_append)
  next
    case (Suc m)
    then have "i < length t" by simp
    then have "t ! i \<noteq> NUL" using s(2) by (metis nth_mem)
    then have "s ! i \<noteq> NUL" "i < length s" using s \<open>i < length t\<close> by (auto simp: nth_append)
    moreover have "strlen_loop s (Suc i) = Inr (int (length t))" using Suc.hyps(2) Suc.prems by (intro Suc.hyps(1)) simp_all
    ultimately show ?case using Suc.prems by (subst strlen_loop.simps) simp
  qed
qed

lemma strlen_clen [simp]: "terminated s \<Longrightarrow> clen s < MAX_STR_LEN \<Longrightarrow> strlen s = Inr (int (clen s))"
  by (simp add: strlen_def strlen_loop_clen)

lemma rd_at [simp]: "i < length s \<Longrightarrow> rd s i = Inr (s ! i)"
  by (simp add: rd_def)

lemma rdi_at [simp]: "rdi s (int i) = rd s i"
  by (simp add: rdi_def)

lemma wri_at [simp]: "wri s (int i) c = wr s i c"
  by (simp add: wri_def)

lemma nth_cstr: "terminated s \<Longrightarrow> i < clen s \<Longrightarrow> s ! i = cstr s ! i" "terminated s \<Longrightarrow> s ! clen s = NUL"
  by (auto elim!: terminatedE simp: nth_append)

subsection \<open>\<^verbatim>\<open>strcpy\<close>\<close>

lemma splice_snoc:
  assumes "d + length xs < length t"
  shows "(splice t d xs)[d + length xs := c] = splice t d (xs @ [c])"
proof -
  have "drop (d + length xs) t = t ! (d + length xs) # drop (Suc (d + length xs)) t" using assms by (simp add: Cons_nth_drop_Suc)
  then show ?thesis using assms by (simp add: splice_def list_update_append min_def)
qed

lemma strcpy_loop_text:
  assumes "s = x @ NUL # r" and "NUL \<notin> set x" and "l < length x" and "length x \<le> MAX_STR_LEN"
    and "d + length x \<le> length t"
  shows "strcpy_loop d s l (splice t d (take l x)) = Inr (length x, splice t d x)"
  using assms(3)
proof (induction "length x - l" arbitrary: l)
  case 0
  then show ?case by simp
next
  case (Suc m)
  have sl: "s ! l = x ! l" "l < length s" "rd s (Suc l) = Inr (if Suc l < length x then x ! Suc l else NUL)"
    using Suc.prems assms(1) by (auto simp: nth_append rd_def)
  have len: "d + l < length (splice t d (take l x))" using Suc.prems assms(5) by (simp add: splice_def)
  have "(splice t d (take l x))[d + l := x ! l] = splice t d (take (Suc l) x)"
    using splice_snoc[of d "take l x" t "x ! l"] Suc.prems assms(5) by (simp add: take_Suc_conv_app_nth)
  with len have w: "wr (splice t d (take l x)) (d + l) (x ! l) = Inr (splice t d (take (Suc l) x))" by (simp add: wr_def)
  show ?case
  proof (cases "Suc l < length x")
    case True
    then have "x ! Suc l \<noteq> NUL" using assms(2) by (metis nth_mem)
    moreover have "strcpy_loop d s (Suc l) (splice t d (take (Suc l) x)) = Inr (length x, splice t d x)"
      using Suc.hyps(2) True by (intro Suc.hyps(1)) simp_all
    ultimately show ?thesis using True sl w assms(4) by (subst strcpy_loop.simps) simp
  next
    case False
    then have "length x = Suc l" using Suc.prems by simp
    then show ?thesis using sl w by (subst strcpy_loop.simps) simp
  qed
qed

lemma strcpy_text:
  assumes "terminated s" and "cstr s \<noteq> []" and "clen s \<le> MAX_STR_LEN" and "d + clen s \<le> length t"
  shows "strcpy s d t = Inr (clen s, splice t d (cstr s))"
proof -
  from assms(1) obtain x r where s: "s = x @ NUL # r" "NUL \<notin> set x" "cstr s = x" "clen s = length x" by (elim terminatedE)
  have "strcpy_loop d s 0 (splice t d (take 0 x)) = Inr (length x, splice t d x)"
    using assms s by (intro strcpy_loop_text[OF s(1,2)]) simp_all
  then show ?thesis using s by (simp add: strcpy_def)
qed

lemma cstr_append: "NUL \<notin> set x \<Longrightarrow> cstr (x @ y) = x @ cstr y"
  by (simp add: cstr_def takeWhile_append)

text \<open>The shell's \<^verbatim>\<open>strcpy\<close> copies no terminator: the text that the target holds afterwards is the source
  followed by whatever text stood behind it. On the empty string, which is a single zero, it reads
  behind its argument.\<close>

theorem strcpy_keeps_tail:
  assumes "terminated s" and "cstr s \<noteq> []" and "clen s \<le> MAX_STR_LEN" and "clen s \<le> length t"
  shows "(\<exists>t'. strcpy s 0 t = Inr (clen s, t') \<and> length t' = length t \<and> cstr t' = cstr s @ cstr (drop (clen s) t)) \<and>
    strcpy (lit []) 0 (c # u) = Inl Out_Of_Bounds"
proof
  from assms(1) have n: "NUL \<notin> set (cstr s)" by (auto elim: terminatedE)
  have l: "length (splice t 0 (cstr s)) = length t" using assms(4) by (simp add: splice_def clen_def)
  have "splice t 0 (cstr s) = cstr s @ drop (clen s) t" by (simp add: splice_def clen_def)
  then have "cstr (splice t 0 (cstr s)) = cstr s @ cstr (drop (clen s) t)" using cstr_append[OF n] by simp
  with strcpy_text[OF assms(1-3), of 0 t] assms(4) l
  show "\<exists>t'. strcpy s 0 t = Inr (clen s, t') \<and> length t' = length t \<and> cstr t' = cstr s @ cstr (drop (clen s) t)" by simp
  show "strcpy (lit []) 0 (c # u) = Inl Out_Of_Bounds"
    by (simp add: strcpy_def lit_def) (subst strcpy_loop.simps, simp add: wr_def rd_def)
qed

theorem strcpy_keeps_tail_witness:
  "\<exists>t'. strcpy (lit ''ab'') 0 (lit ''wxyz'') = Inr (2, t') \<and> cstr t' = ''abyz''"
proof -
  have c: "clen (lit ''ab'') = 2" "clen (lit ''ab'') \<le> MAX_STR_LEN" "clen (lit ''ab'') \<le> length (lit ''wxyz'')"
    "cstr (drop 2 (lit ''wxyz'')) = ''yz''" "cstr (lit ''ab'') \<noteq> []"
    by (simp_all add: clen_def) (simp_all add: lit_def cstr_def)
  from strcpy_keeps_tail[OF terminated_lit c(5,2,3)] c show ?thesis by auto
qed

subsection \<open>\<^verbatim>\<open>strsplit\<close>\<close>

fun split_on :: "char \<Rightarrow> string \<Rightarrow> string list" where
  "split_on d [] = [[]]"
| "split_on d (c # cs) =
     (if c = d then [] # split_on d cs
      else (case split_on d cs of [] \<Rightarrow> [[c]] | w # ws \<Rightarrow> (c # w) # ws))"

lemma split_on_word: "d \<notin> set w \<Longrightarrow> split_on d w = [w]"
  by (induction w) auto

lemma split_on_step: "d \<notin> set w \<Longrightarrow> split_on d (w @ d # r) = w # split_on d r"
  by (induction w) auto

lemma length_split_on: "length (split_on d t) = Suc (length (filter (\<lambda>c. c = d) t))"
  by (induction t) (auto split: list.splits)

lemma count_loop_spec:
  assumes "terminated str" and "clen str < MAX_STR_LEN" and "i \<le> clen str"
  shows "count_loop str d i n = Inr (n + length (filter (\<lambda>c. c = d) (drop i (cstr str))))"
  using assms(3)
proof (induction "clen str - i" arbitrary: i n)
  case 0
  then show ?case using assms by (subst count_loop.simps) (simp add: clen_def)
next
  case (Suc m)
  then have i: "i < clen str" by simp
  have "drop i (cstr str) = cstr str ! i # drop (Suc i) (cstr str)" using i by (simp add: Cons_nth_drop_Suc clen_def)
  moreover have "count_loop str d (Suc i) n' = Inr (n' + length (filter (\<lambda>c. c = d) (drop (Suc i) (cstr str))))" for n'
    using Suc.hyps(2) i by (intro Suc.hyps(1)) simp_all
  moreover have "i < length str" "str ! i = cstr str ! i" using i clen_less[OF assms(1)] nth_cstr(1)[OF assms(1)] by simp_all
  ultimately show ?case using assms(1,2) i by (subst count_loop.simps) simp
qed

lemma copy_range:
  assumes "m + n \<le> length s" and "n < length t"
  shows "strcpy_fr_to s t (int m) (int (m + n)) = Inr (int n, splice t 0 (take n (drop m s) @ [NUL]))"
proof -
  let ?P = "\<lambda>i u. u = splice t 0 (take i (drop m s))"
  have "\<exists>u. for_up 0 n (\<lambda>i u. bindr (rdi s (int i + int m)) (\<lambda>c. wr u i c)) t = Inr u \<and> ?P n u"
  proof (rule for_up_inv)
    fix i u
    assume i: "i < n" "?P i u"
    have "rdi s (int i + int m) = Inr (s ! (m + i))"
      using rdi_at[of s "i + m"] i(1) assms(1) by (simp add: add.commute)
    moreover have "take (Suc i) (drop m s) = take i (drop m s) @ [s ! (m + i)]"
      using i(1) assms(1) by (simp add: take_Suc_conv_app_nth)
    moreover have "wr u i (s ! (m + i)) = Inr (splice t 0 (take i (drop m s) @ [s ! (m + i)]))"
      using splice_snoc[of 0 "take i (drop m s)" t] i assms by (simp add: wr_def splice_def)
    ultimately show "\<exists>u'. bindr (rdi s (int i + int m)) (\<lambda>c. wr u i c) = Inr u' \<and> ?P (Suc i) u'" by simp
  qed simp_all
  then have "for_up 0 n (\<lambda>i u. bindr (rdi s (int i + int m)) (\<lambda>c. wr u i c)) t = Inr (splice t 0 (take n (drop m s)))" by blast
  moreover have "wri (splice t 0 (take n (drop m s))) (int n) NUL = Inr (splice t 0 (take n (drop m s) @ [NUL]))"
    using splice_snoc[of 0 "take n (drop m s)" t NUL] assms by (simp add: wri_def wr_def splice_def)
  ultimately show ?thesis by (simp add: strcpy_fr_to_def)
qed

lemma parts_loop_spec:
  assumes "terminated str" and "clen str < MAX_STR_LEN" and "d \<noteq> NUL" and "i \<le> clen str" and "m \<le> i"
    and "d \<notin> set (take (i - m) (drop m (cstr str)))"
    and "length res + length (split_on d (drop m (cstr str))) < room"
  shows "\<exists>ps raw'. parts_loop str d room i (int m - 1) res raw = Inr (res @ ps, raw') \<and>
    map cstr ps = split_on d (drop m (cstr str)) \<and> (\<forall>p\<in>set ps. terminated p)"
  using assms(4-7)
proof (induction "clen str - i" arbitrary: i m res raw)
  case 0
  let ?t = "cstr str"
  have i: "i = clen str" using 0 by simp
  have w: "take (i - m) (drop m ?t) = drop m ?t" using i by (simp add: clen_def)
  have ln: "nat (int i - (int m - 1) + 1) = i - m + 2" using 0(3) by linarith
  let ?b = "splice (stake (i - m + 2) raw) 0 (drop m ?t @ [NUL])"
  have c: "strcpy_fr_to str (stake (i - m + 2) raw) (int m - 1 + 1) (int i) = Inr (int (i - m), ?b)"
  proof -
    have "take (i - m) (drop m str) = drop m ?t"
      using assms(1) i by (auto elim!: terminatedE)
    then show ?thesis using copy_range[of m "i - m" str "stake (i - m + 2) raw"] 0(3) i clen_less[OF assms(1)] by simp
  qed
  have end': "parts_loop str d room (Suc i) (int i) (res @ [?b]) raw' = Inr (res @ [?b], raw')" for raw'
    using assms(1,2) i 0(5) by (subst parts_loop.simps) (simp add: split_on_word 0(4)[unfolded w])
  have "str ! i = NUL" "i < length str" using i nth_cstr(2)[OF assms(1)] clen_less[OF assms(1)] by simp_all
  then have "parts_loop str d room i (int m - 1) res raw = Inr (res @ [?b], sdrop (i - m + 2) raw)"
    using assms(1,2) i 0(5) ln c end' by (subst parts_loop.simps) (simp add: take_block_def)
  moreover have "NUL \<notin> set (drop m ?t)" using assms(1) by (auto elim!: terminatedE dest: in_set_dropD)
  then have "cstr ?b = drop m ?t" by (simp add: cstr_splice0)
  moreover have "split_on d (drop m ?t) = [drop m ?t]" using split_on_word 0(4) unfolding w by simp
  ultimately show ?case by (intro exI[of _ "[?b]"] exI[of _ "sdrop (i - m + 2) raw"]) simp
next
  case (Suc k)
  let ?t = "cstr str"
  have i: "i < clen str" using Suc(2) by simp
  have si: "str ! i = ?t ! i" "?t ! i \<noteq> NUL" "i < length str"
  proof -
    show "str ! i = ?t ! i" "i < length str" using i nth_cstr(1)[OF assms(1)] clen_less[OF assms(1)] by simp_all
    have "NUL \<notin> set ?t" using assms(1) by (auto elim: terminatedE)
    then show "?t ! i \<noteq> NUL" using i by (metis clen_def nth_mem)
  qed
  have tk: "take (Suc i - m) (drop m ?t) = take (i - m) (drop m ?t) @ [?t ! i]"
    using Suc.prems(2) i by (simp add: Suc_diff_le take_Suc_conv_app_nth clen_def)
  show ?case
  proof (cases "?t ! i = d")
    case True
    let ?w = "take (i - m) (drop m ?t)"
    let ?b = "splice (stake (i - m + 2) raw) 0 (?w @ [NUL])"
    have ln: "nat (int i - (int m - 1) + 1) = i - m + 2" using Suc.prems(2) by linarith
    have "take (i - m) (drop m str) = ?w"
      using assms(1) i by (auto elim!: terminatedE)
    then have c: "strcpy_fr_to str (stake (i - m + 2) raw) (int m - 1 + 1) (int i) = Inr (int (i - m), ?b)"
      using copy_range[of m "i - m" str "stake (i - m + 2) raw"] Suc.prems(2) si(3) by simp
    have sp: "drop m ?t = ?w @ d # drop (Suc i) ?t"
    proof -
      have "drop (i - m) (drop m ?t) = d # drop (Suc i) ?t"
        using Cons_nth_drop_Suc[of i ?t] True i Suc.prems(2) by (simp add: clen_def)
      then show ?thesis by (metis append_take_drop_id)
    qed
    then have s: "split_on d (drop m ?t) = ?w # split_on d (drop (Suc i) ?t)"
      using split_on_step[OF Suc.prems(3), of "drop (Suc i) ?t"] by simp
    have "\<exists>ps raw'. parts_loop str d room (Suc i) (int (Suc i) - 1) (res @ [?b]) (sdrop (i - m + 2) raw) =
        Inr ((res @ [?b]) @ ps, raw') \<and> map cstr ps = split_on d (drop (Suc i) ?t) \<and> (\<forall>p\<in>set ps. terminated p)"
      using Suc.hyps(2) i Suc.prems(4) s by (intro Suc.hyps(1)) simp_all
    then obtain ps raw' where ps: "parts_loop str d room (Suc i) (int i) (res @ [?b]) (sdrop (i - m + 2) raw) =
        Inr (res @ ?b # ps, raw')" "map cstr ps = split_on d (drop (Suc i) ?t)" "\<forall>p\<in>set ps. terminated p" by auto
    have "NUL \<notin> set ?w" using assms(1) by (auto elim!: terminatedE dest: in_set_takeD in_set_dropD)
    then have "cstr ?b = ?w" by (simp add: cstr_splice0)
    moreover have "parts_loop str d room i (int m - 1) res raw = Inr (res @ ?b # ps, raw')"
      using assms(1,2) i si True ln c ps(1) Suc.prems(4) by (subst parts_loop.simps) (simp add: take_block_def)
    ultimately show ?thesis using ps s by (intro exI[of _ "?b # ps"] exI[of _ raw']) simp
  next
    case False
    then have "d \<notin> set (take (Suc i - m) (drop m ?t))" using Suc.prems(3) tk by simp
    then have "\<exists>ps raw'. parts_loop str d room (Suc i) (int m - 1) res raw = Inr (res @ ps, raw') \<and>
        map cstr ps = split_on d (drop m ?t) \<and> (\<forall>p\<in>set ps. terminated p)"
      using Suc.hyps(2) i Suc.prems by (intro Suc.hyps(1)) simp_all
    moreover have "parts_loop str d room i (int m - 1) res raw = parts_loop str d room (Suc i) (int m - 1) res raw"
      using assms(1,2) i si False by (subst parts_loop.simps) simp
    ultimately show ?thesis by simp
  qed
qed

lemma split_on_le: "w \<in> set (split_on d t) \<Longrightarrow> length w \<le> length t"
proof (induction t arbitrary: w)
  case (Cons c t)
  then show ?case
    by (cases "split_on d t") (fastforce split: if_splits)+
qed simp

lemma strsplit_runs:
  assumes "terminated str" and "clen str < MAX_STR_LEN" and "d \<noteq> NUL"
  shows "\<exists>ps raw'. strsplit str d raw = Inr (ps, raw') \<and> map cstr ps = split_on d (cstr str) \<and> (\<forall>p\<in>set ps. terminated p)"
proof -
  let ?n = "length (filter (\<lambda>c. c = d) (cstr str))"
  have "count_loop str d 0 0 = Inr ?n" using count_loop_spec[OF assms(1,2), of 0 d 0] by simp
  moreover have "\<exists>ps raw'. parts_loop str d (?n + 2) 0 (int 0 - 1) [] (sdrop (8 * (?n + 2)) raw) = Inr ([] @ ps, raw') \<and>
      map cstr ps = split_on d (drop 0 (cstr str)) \<and> (\<forall>p\<in>set ps. terminated p)"
    by (rule parts_loop_spec[OF assms]) (simp_all add: length_split_on)
  ultimately show ?thesis by (simp add: strsplit_def)
qed

text \<open>\<^verbatim>\<open>strsplit\<close> returns, in fresh blocks, the parts of its argument between the delimiters, empty ones
  too, and their array has room for them and the \<^verbatim>\<open>NULL\<close> behind.\<close>

theorem strsplit_splits:
  assumes "terminated str" and "clen str < MAX_STR_LEN" and "d \<noteq> NUL"
  shows "\<exists>ps raw'. strsplit str d raw = Inr (ps, raw') \<and> map cstr ps = split_on d (cstr str) \<and> (\<forall>p\<in>set ps. terminated p)"
  by (rule strsplit_runs[OF assms])

theorem strsplit_splits_witness:
  "\<exists>ps raw'. strsplit (lit ''ls -l'') (CHR '' '') (sconst NUL) = Inr (ps, raw') \<and> map cstr ps = [''ls'', ''-l'']"
proof -
  have c: "clen (lit ''ls -l'') < MAX_STR_LEN" "CHR '' '' \<noteq> NUL" "split_on (CHR '' '') (cstr (lit ''ls -l'')) = [''ls'', ''-l'']"
    by (simp_all add: clen_def)
  from strsplit_splits[OF terminated_lit c(1,2), of "sconst NUL"] show ?thesis
    unfolding c(3) by (elim exE conjE) (intro exI conjI)
qed

subsection \<open>\<^verbatim>\<open>strremove\<close>\<close>

definition removed :: "char \<Rightarrow> string \<Rightarrow> (nat \<times> char list) result" where
  "removed q t =
     (let kept = filter (\<lambda>c. c \<noteq> q) t
      in if length kept = length t then Inr (length t, t @ [NUL])
         else if Suc (length kept) = length t then Inr (length t, kept @ [NUL, NUL]) else Inl Out_Of_Bounds)"

lemma remove_loop_spec:
  assumes "NUL \<notin> set t" and "q \<noteq> NUL" and "i \<le> length t" and "j = length (filter (\<lambda>c. c \<noteq> q) (take i t))"
    and "length str = Suc (length t)" and "take j str = filter (\<lambda>c. c \<noteq> q) (take i t)"
    and "\<And>p. j < p \<Longrightarrow> p \<le> length t \<Longrightarrow> str ! p = (t @ [NUL]) ! p"
    and "j < length t \<Longrightarrow> str ! j \<noteq> NUL" and "i = j \<Longrightarrow> str ! j = (t @ [NUL]) ! j"
  shows "remove_loop q i j str = removed q t"
  using assms(3-9)
proof (induction "length t - i" arbitrary: i j str)
  case 0
  let ?n = "length t"
  have i: "i = ?n" using 0(1,2) by simp
  have j: "j = length (filter (\<lambda>c. c \<noteq> q) t)" "j \<le> ?n" and tk: "take j str = filter (\<lambda>c. c \<noteq> q) t"
    using 0(3,5) i by simp_all
  consider "j = ?n" | "j < ?n" "Suc j = ?n" | "Suc j < ?n" using j(2) by linarith
  then show ?case
  proof cases
    case 1
    then have s: "str ! ?n = NUL" using 0(8) i by simp
    have "filter (\<lambda>c. c \<noteq> q) t = t" using 1 j(1) by (metis filter_id_conv length_filter_less nat_neq_iff)
    then have "str = t @ [NUL]"
      using tk s 1 0(4) by (metis append_take_drop_id Cons_nth_drop_Suc drop_all le_refl lessI)
    with 1 s j(1) show ?thesis by (subst remove_loop.simps) (simp add: removed_def 0(4))
  next
    case 2
    have sn: "str ! ?n = NUL" using 0(6)[of ?n] 2 by simp
    have jj: "str ! j \<noteq> NUL" using 0(7) 2 by simp
    have "drop j str = [str ! j, str ! ?n]"
      using 2 0(4) by (simp add: Cons_nth_drop_Suc[symmetric])
    then have "str[j := NUL] = filter (\<lambda>c. c \<noteq> q) t @ [NUL, NUL]"
      using tk sn 2 0(4) by (simp add: upd_conv_take_nth_drop Cons_nth_drop_Suc[symmetric])
    moreover have "remove_loop q (Suc ?n) ?n (str[j := NUL]) = Inr (?n, str[j := NUL])"
      using sn 2 0(4) by (subst remove_loop.simps) simp
    moreover have "remove_loop q ?n j str = remove_loop q (Suc ?n) ?n (str[j := NUL])"
      using jj sn 2 0(4) assms(2) by (subst remove_loop.simps) (simp add: wr_def)
    ultimately show ?thesis using 2 j(1) i by (simp add: removed_def)
  next
    case 3
    have sn: "str ! ?n = NUL" and sj: "str ! Suc j = t ! Suc j" using 0(6)[of ?n] 0(6)[of "Suc j"] 3 by (simp_all add: nth_append)
    have tj: "t ! Suc j \<noteq> NUL" using assms(1) 3 by (metis nth_mem)
    have jj: "str ! j \<noteq> NUL" using 0(7) 3 by simp
    have "remove_loop q (Suc ?n) (Suc j) (str[j := NUL]) = Inl Out_Of_Bounds"
      using sj tj 3 0(4) by (subst remove_loop.simps) simp
    moreover have "remove_loop q ?n j str = remove_loop q (Suc ?n) (Suc j) (str[j := NUL])"
      using jj sn 3 0(4) assms(2) by (subst remove_loop.simps) (simp add: wr_def)
    ultimately show ?thesis using 3 j(1) i by (simp add: removed_def)
  qed
next
  case (Suc k)
  let ?n = "length t"
  let ?f = "filter (\<lambda>c. c \<noteq> q)"
  have i: "i < ?n" using Suc(2) by simp
  have ji: "j \<le> i" using Suc.prems(2) length_filter_le[of "\<lambda>c. c \<noteq> q" "take i t"] i by simp
  have si: "str ! i = t ! i" using Suc.prems(5)[of i] Suc.prems(7) i ji by (cases "i = j") (simp_all add: nth_append)
  have jj: "str ! j \<noteq> NUL" "j < length str" using Suc.prems(3,6) i ji by simp_all
  have tk: "take (Suc i) t = take i t @ [t ! i]" using i by (simp add: take_Suc_conv_app_nth)
  have step: "remove_loop q i j str = remove_loop q (Suc i) (if t ! i \<noteq> q then Suc j else j) (str[j := t ! i])"
    using jj si i Suc.prems(3) by (subst remove_loop.simps) (simp add: wr_def)
  show ?case
  proof (cases "t ! i = q")
    case True
    have "remove_loop q (Suc i) j (str[j := t ! i]) = removed q t"
    proof (rule Suc.hyps(1))
      show "str[j := t ! i] ! j \<noteq> NUL" if "j < ?n" using True assms(2) jj by simp
    qed (use Suc.hyps(2) Suc.prems True tk i ji in simp_all)
    then show ?thesis using step True by simp
  next
    case False
    have tn: "t ! x \<noteq> NUL" if "x < ?n" for x using assms(1) that by (metis nth_mem)
    have o': "str ! p = (t @ [NUL]) ! p" if "j < p" "p \<le> ?n" for p by (rule Suc.prems(5)[OF that])
    have "remove_loop q (Suc i) (Suc j) (str[j := t ! i]) = removed q t"
    proof (rule Suc.hyps(1))
      show "str[j := t ! i] ! Suc j \<noteq> NUL" if "Suc j < ?n" using o'[of "Suc j"] that tn by (simp add: nth_append)
      show "str[j := t ! i] ! Suc j = (t @ [NUL]) ! Suc j" if "Suc i = Suc j" using o'[of "Suc j"] i ji by simp
      show "take (Suc j) (str[j := t ! i]) = ?f (take (Suc i) t)"
        using False tk Suc.prems(4) jj(2) by (simp add: take_Suc_conv_app_nth)
    qed (use Suc.hyps(2) Suc.prems(2,3) False tk i o' in simp_all)
    then show ?thesis using step False by simp
  qed
qed

text \<open>\<^verbatim>\<open>strremove\<close> works for at most one occurrence of the character; with two or more it goes on behind the
  terminator of its argument.\<close>

theorem strremove_overruns:
  assumes "NUL \<notin> set t" and "q \<noteq> NUL"
  shows "case length (filter (\<lambda>c. c = q) t) of
      0 \<Rightarrow> strremove (lit t) q = Inr (length t, lit t)
    | Suc 0 \<Rightarrow> strremove (lit t) q = Inr (length t, filter (\<lambda>c. c \<noteq> q) t @ [NUL, NUL])
    | _ \<Rightarrow> strremove (lit t) q = Inl Out_Of_Bounds"
proof -
  have t0: "t ! 0 \<noteq> NUL" if "0 < length t" using assms(1) that by (metis nth_mem)
  have r: "strremove (lit t) q = removed q t"
    unfolding strremove_def lit_def
    by (rule remove_loop_spec) (use assms t0 in \<open>simp_all add: nth_append\<close>)
  have "length (filter (\<lambda>c. c \<noteq> q) t) + length (filter (\<lambda>c. c = q) t) = length t"
    using sum_length_filter_compl[of "\<lambda>c. c = q" t] by simp
  then show ?thesis
    by (auto simp: r[unfolded lit_def] removed_def lit_def split: nat.splits)
qed

theorem strremove_overruns_witness:
  "strremove (lit ''a\"'') (CHR 0x22) = Inr (2, ''a'' @ [NUL, NUL]) \<and> strremove (lit ''\"a\"'') (CHR 0x22) = Inl Out_Of_Bounds"
  using strremove_overruns[of "''a\"''" "CHR 0x22"] strremove_overruns[of "''\"a\"''" "CHR 0x22"] by simp

subsection \<open>\<^verbatim>\<open>itoa\<close>\<close>

lemma sdiv_nat [simp]: "int m sdiv int k = int (m div k)"
  by (cases "m = 0"; cases "k = 0") (simp_all add: signed_divide_int_def zdiv_int)

lemma smod_nat [simp]: "int m smod int k = int (m mod k)"
  by (cases "m = 0") (simp_all add: signed_modulo_int_def zmod_int)

text \<open>The first \<open>k\<close> and the last \<open>k\<close> characters of the text are exchanged.\<close>

definition mirrored :: "nat \<Rightarrow> nat \<Rightarrow> char list \<Rightarrow> char list \<Rightarrow> bool" where
  "mirrored n k str u =
     (length u = length str \<and>
      (\<forall>p<length str. u ! p = (if p < n \<and> (p < k \<or> n - k \<le> p) then str ! (n - 1 - p) else str ! p)))"

lemma swap_mirrored:
  assumes "mirrored n k str u" and "n < length str" and "k \<le> (n - 1) div 2" and "0 < n"
  shows "\<exists>u'. swap_chars (int n - 1 - int k) (int k) u = Inr u' \<and> mirrored n (Suc k) str u'"
proof -
  let ?a = "n - 1 - k"
  have k: "k \<le> ?a" "k < n" using assms(3,4) by linarith+
  have ai: "int n - 1 - int k = int ?a" using k assms(4) by linarith
  have lu: "length u = length str" and u: "\<And>p. p < length str \<Longrightarrow>
      u ! p = (if p < n \<and> (p < k \<or> n - k \<le> p) then str ! (n - 1 - p) else str ! p)"
    using assms(1) by (auto simp: mirrored_def)
  have r: "rdi u (int ?a) = Inr (u ! ?a)" "rdi u (int k) = Inr (u ! k)" unfolding rdi_at using k assms(2) lu by (simp_all add: rd_def)
  have w: "wri u (int ?a) c = Inr (u[?a := c])" "wri (u[?a := c]) (int k) c' = Inr (u[?a := c, k := c'])" for c c'
    unfolding wri_at using k assms(2) lu by (simp_all add: wr_def)
  have s: "swap_chars (int n - 1 - int k) (int k) u = Inr (u[?a := u ! k, k := u ! ?a])"
    unfolding ai swap_chars_def r w bindr_Inr by (rule refl)
  have "mirrored n (Suc k) str (u[?a := u ! k, k := u ! ?a])"
    unfolding mirrored_def
  proof (intro conjI allI impI)
    show "length (u[?a := u ! k, k := u ! ?a]) = length str" using lu by simp
    fix p
    assume p: "p < length str"
    have ua: "u ! ?a = str ! ?a" using u[of ?a] k assms(2,4) by (cases "n - k \<le> ?a") auto
    have uk: "u ! k = str ! k" using u[of k] k assms(2,4) by (cases "n - k \<le> k") auto
    have nk: "n - 1 - ?a = k" using k assms(4) by linarith
    have pn: "n - Suc k \<le> p \<longleftrightarrow> n - k \<le> p \<or> p = ?a" if "p < n" using that k by linarith
    show "u[?a := u ! k, k := u ! ?a] ! p =
        (if p < n \<and> (p < Suc k \<or> n - Suc k \<le> p) then str ! (n - 1 - p) else str ! p)"
      using p k lu assms(2) ua uk nk u[OF p] pn
      by (auto simp: nth_list_update)
  qed
  with s show ?thesis by blast
qed

lemma strreverse_text:
  assumes "terminated str" and "0 < clen str" and "clen str < MAX_STR_LEN"
  shows "\<exists>u. strreverse str = Inr (0, u) \<and> terminated u \<and> cstr u = rev (cstr str) \<and> length u = length str"
proof -
  let ?n = "clen str"
  have cl: "?n < length str" by (rule clen_less[OF assms(1)])
  have cnt: "nat ((int ?n - 1) sdiv 2 + 1) = Suc ((?n - 1) div 2)"
    using sdiv_nat[of "?n - 1" 2] assms(2) by (simp add: of_nat_diff)
  have "\<exists>u. for_up 0 (Suc ((?n - 1) div 2)) (\<lambda>i. swap_chars (int ?n - 1 - int i) (int i)) str = Inr u \<and>
      mirrored ?n (Suc ((?n - 1) div 2)) str u"
  proof (rule for_up_inv[where P = "\<lambda>k u. mirrored ?n k str u"])
    show "mirrored ?n 0 str str" by (auto simp: mirrored_def)
  qed (use swap_mirrored[OF _ cl _ assms(2)] in auto)
  then obtain u where u: "for_up 0 (Suc ((?n - 1) div 2)) (\<lambda>i. swap_chars (int ?n - 1 - int i) (int i)) str = Inr u"
    "mirrored ?n (Suc ((?n - 1) div 2)) str u" by blast
  have lu: "length u = length str" using u(2) by (simp add: mirrored_def)
  have x: "u ! p = str ! (?n - 1 - p)" if "p < ?n" for p
  proof -
    have "p < Suc ((?n - 1) div 2) \<or> ?n - Suc ((?n - 1) div 2) \<le> p" by linarith
    then show ?thesis using u(2) that cl by (auto simp: mirrored_def)
  qed
  have "u ! ?n = str ! ?n" using u(2) cl by (simp add: mirrored_def)
  then have z: "u ! ?n = NUL" using nth_cstr(2)[OF assms(1)] by simp
  have tk: "take ?n u = rev (cstr str)"
  proof (rule nth_equalityI)
    show "length (take ?n u) = length (rev (cstr str))" using lu cl by (simp add: clen_def)
    fix p
    assume "p < length (take ?n u)"
    then have p: "p < ?n" by simp
    then show "take ?n u ! p = rev (cstr str) ! p"
      using x[OF p] nth_cstr(1)[OF assms(1), of "?n - 1 - p"] by (simp add: rev_nth clen_def)
  qed
  have "u = take ?n u @ NUL # drop (Suc ?n) u" using z lu cl by (metis id_take_nth_drop)
  moreover have "NUL \<notin> set (rev (cstr str))" using assms(1) by (auto elim: terminatedE)
  ultimately have "terminated u" "cstr u = rev (cstr str)" unfolding tk by (metis terminated_append_NUL, metis cstr_append_NUL)
  with u(1) cnt lu assms(1,3) show ?thesis by (simp add: strreverse_def)
qed

lemma digit_char_digit: "k < 10 \<Longrightarrow> digit_char (int k) = digit k"
  by (simp add: digit_char_def digit_def chr_of_def nat_mod_distrib nat_add_distrib)

lemma itoa_r_digits:
  assumes "p + length (digits 10 n) < length buf"
  shows "itoa_r buf p (int n) = Inr (splice buf p (rev (digits 10 n) @ [NUL]))"
  using assms
proof (induction n arbitrary: p buf rule: less_induct)
  case (less n)
  show ?case
  proof (cases "n = 0")
    case True
    then show ?thesis using less.prems by (subst itoa_r.simps) (simp add: wr_def splice_def upd_conv_take_nth_drop)
  next
    case False
    have d: "digits 10 n = digits 10 (n div 10) @ [digit (n mod 10)]" using False by (intro digits_rec) simp_all
    let ?b = "buf[p := digit (n mod 10)]"
    have "itoa_r ?b (Suc p) (int (n div 10)) = Inr (splice ?b (Suc p) (rev (digits 10 (n div 10)) @ [NUL]))"
      using False less.prems d by (intro less.IH) simp_all
    moreover have "splice ?b (Suc p) (rev (digits 10 (n div 10)) @ [NUL]) = splice buf p (rev (digits 10 n) @ [NUL])"
      using less.prems unfolding d by (simp add: splice_def take_Suc_conv_app_nth)
    moreover have "wr buf p (digit_char (int n smod 10)) = Inr ?b"
      using smod_nat[of n 10] digit_char_digit[of "n mod 10"] less.prems d by (simp add: wr_def)
    moreover have "int n sdiv 10 = int (n div 10)" using sdiv_nat[of n 10] by simp
    ultimately show ?thesis using False by (subst itoa_r.simps) simp
  qed
qed

text \<open>
  The remainder of a negative number is negative, so its digits are the characters at the same distance below \<^verbatim>\<open>'0'\<close>; -1 is
  shown as \<^verbatim>\<open>/\<close>.
\<close>

definition below_zero :: "char \<Rightarrow> char" where
  "below_zero c = char_of (96 - of_char c :: nat)"

definition status_text :: "int \<Rightarrow> string" where
  "status_text i = (if i < 0 then map below_zero (number_text 10 (nat (- i))) else number_text 10 (nat i))"

lemma digit_char_below: "k < 10 \<Longrightarrow> digit_char (- int k) = below_zero (digit k)"
proof -
  assume k: "k < 10"
  then have "nat ((48 - int k) mod 256) = 48 - k" by simp
  then show ?thesis using k by (simp add: digit_char_def digit_def chr_of_def below_zero_def)
qed

lemma below_zero_digits: "NUL \<notin> set (map below_zero (digits 10 n))"
proof (induction n rule: less_induct)
  case (less n)
  show ?case
  proof (cases "n = 0")
    case False
    have "below_zero (digit k) \<noteq> NUL" if k: "k < 10" for k
    proof
      assume "below_zero (digit k) = NUL"
      then have "of_char (char_of (48 - k) :: char) = (0 :: nat)" using k by (simp add: digit_def chr_of_def below_zero_def)
      then show False using k by simp
    qed
    from this[of "n mod 10"] less.IH[of "n div 10"] False show ?thesis by (auto simp: digits_rec[of n 10])
  qed simp
qed

lemma sdiv_minus: "(- int m) sdiv int k = - int (m div k)"
  by (cases "m = 0"; cases "k = 0") (simp_all add: signed_divide_int_def zdiv_int)

lemma smod_minus: "(- int m) smod int k = - int (m mod k)"
  by (cases "m = 0"; cases "k = 0") (simp_all add: signed_modulo_int_def zmod_int)

lemma itoa_r_below:
  assumes "p + length (digits 10 n) < length buf"
  shows "itoa_r buf p (- int n) = Inr (splice buf p (rev (map below_zero (digits 10 n)) @ [NUL]))"
  using assms
proof (induction n arbitrary: p buf rule: less_induct)
  case (less n)
  show ?case
  proof (cases "n = 0")
    case True
    then show ?thesis using less.prems by (subst itoa_r.simps) (simp add: wr_def splice_def upd_conv_take_nth_drop)
  next
    case False
    have d: "digits 10 n = digits 10 (n div 10) @ [digit (n mod 10)]" using False by (intro digits_rec) simp_all
    let ?b = "buf[p := below_zero (digit (n mod 10))]"
    have "itoa_r ?b (Suc p) (- int (n div 10)) = Inr (splice ?b (Suc p) (rev (map below_zero (digits 10 (n div 10))) @ [NUL]))"
      using False less.prems d by (intro less.IH) simp_all
    moreover have "splice ?b (Suc p) (rev (map below_zero (digits 10 (n div 10))) @ [NUL]) =
        splice buf p (rev (map below_zero (digits 10 n)) @ [NUL])"
      using less.prems unfolding d by (simp add: splice_def take_Suc_conv_app_nth)
    moreover have "wr buf p (digit_char ((- int n) smod 10)) = Inr ?b"
      using smod_minus[of n 10] digit_char_below[of "n mod 10"] less.prems d by (simp add: wr_def)
    moreover have "(- int n) sdiv 10 = - int (n div 10)" using sdiv_minus[of n 10] by simp
    ultimately show ?thesis using False by (subst itoa_r.simps) simp
  qed
qed

lemma itoa_reversed:
  assumes "itoa_r buf 0 i = Inr (splice buf 0 (rev t @ [NUL]))" and "i \<noteq> 0" and "NUL \<notin> set t" and "t \<noteq> []"
    and "length t \<le> 10" and "12 \<le> length buf"
  shows "\<exists>buf'. itoa buf i = Inr (0, buf') \<and> terminated buf' \<and> length buf' = length buf \<and> cstr buf' = t"
proof -
  let ?b = "splice buf 0 (rev t @ [NUL])"
  have "NUL \<notin> set (rev t)" using assms(3) by simp
  then have c: "cstr ?b = rev t" by (rule cstr_splice0)
  have cl: "clen ?b = length t" by (simp add: clen_def c)
  have "\<exists>u. strreverse ?b = Inr (0, u) \<and> terminated u \<and> cstr u = rev (cstr ?b) \<and> length u = length ?b"
    using assms(4,5) by (intro strreverse_text) (simp_all add: cl)
  then obtain u where u: "strreverse ?b = Inr (0, u)" "terminated u" "cstr u = t" "length u = length ?b"
    unfolding c by auto
  have "length ?b = length buf" using assms(5,6) by (simp add: splice_def)
  moreover have "itoa buf i = Inr (0, u)" using assms(1,2) u(1) by (simp add: itoa_def)
  ultimately show ?thesis using u by simp
qed

lemma itoa_writes_status:
  assumes "- (2 ^ 31) \<le> i" and "i < 2 ^ 31" and "12 \<le> length buf"
  shows "\<exists>buf'. itoa buf i = Inr (0, buf') \<and> terminated buf' \<and> length buf' = length buf \<and> cstr buf' = status_text i"
proof (cases "i = 0")
  case True
  obtain a b r where buf: "buf = a # b # r" using assms(3) by (cases buf; cases "tl buf") auto
  have z: "itoa buf i = Inr (0, CHR ''0'' # NUL # r)" using True by (simp add: itoa_def buf wr_def)
  have c: "cstr (CHR ''0'' # NUL # r) = ''0''" by (simp add: cstr_def)
  have t: "terminated (CHR ''0'' # NUL # r)" by (simp add: terminated_def)
  have "status_text i = ''0''" using True by (simp add: status_text_def number_text_def)
  with z c t buf show ?thesis by simp
next
  case False
  let ?n = "nat \<bar>i\<bar>"
  have n: "0 < ?n" "?n \<le> 2 ^ 31" using assms(1,2) False by auto
  then have l: "length (digits 10 ?n) \<le> 10" by (intro length_digits) simp_all
  have nt: "number_text 10 ?n = digits 10 ?n" "digits 10 ?n \<noteq> []" using n(1) by (simp_all add: number_text_def digits_rec)
  have r: "0 + length (digits 10 ?n) < length buf" using l assms(3) by simp
  show ?thesis
  proof (cases "i < 0")
    case True
    then have e: "i = - int ?n" "status_text i = map below_zero (digits 10 ?n)" using nt(1) by (simp_all add: status_text_def)
    have "itoa_r buf 0 i = Inr (splice buf 0 (rev (map below_zero (digits 10 ?n)) @ [NUL]))"
      using itoa_r_below[OF r] e(1) by simp
    from itoa_reversed[OF this False below_zero_digits _ _ assms(3)] l nt(2) show ?thesis unfolding e(2) by simp
  next
    case f: False
    then have e: "i = int ?n" "status_text i = digits 10 ?n" using nt(1) by (simp_all add: status_text_def)
    have "itoa_r buf 0 i = Inr (splice buf 0 (rev (digits 10 ?n) @ [NUL]))" using itoa_r_digits[OF r] e(1) by simp
    moreover have "NUL \<notin> set (digits 10 ?n)" using digits_plain[of 10 ?n] by auto
    ultimately show ?thesis unfolding e(2) using False nt(2) l assms(3) by (intro itoa_reversed) simp_all
  qed
qed

lemma itoa_writes:
  assumes "n < 2 ^ 31" and "12 \<le> length buf"
  shows "\<exists>buf'. itoa buf (int n) = Inr (0, buf') \<and> terminated buf' \<and> length buf' = length buf \<and>
    cstr buf' = number_text 10 n"
proof -
  have "int n < 2 ^ 31" using assms(1) by simp
  from itoa_writes_status[OF _ this assms(2)] show ?thesis by (simp add: status_text_def)
qed

text \<open>\<^verbatim>\<open>itoa\<close> stores the decimal digits of a number that is not negative, and reading them gives the number back.\<close>

theorem itoa_round_trip:
  assumes "n < 2 ^ 31" and "12 \<le> length buf"
  shows "\<exists>buf'. itoa buf (int n) = Inr (0, buf') \<and> terminated buf' \<and> length buf' = length buf \<and>
    cstr buf' = number_text 10 n \<and> read_number 10 (cstr buf') = n"
proof -
  from itoa_writes[OF assms] obtain buf' where
    "itoa buf (int n) = Inr (0, buf')" "terminated buf'" "length buf' = length buf" "cstr buf' = number_text 10 n" by blast
  with read_number_text[of 10 n] show ?thesis by simp
qed

theorem itoa_round_trip_witness:
  "\<exists>buf'. itoa (replicate 15 NUL) 256 = Inr (0, buf') \<and> cstr buf' = ''256''"
proof -
  have p: "(256 :: nat) < 2 ^ 31" "12 \<le> length (replicate 15 NUL)" by simp_all
  have "number_text 10 256 = ''256''" by code_simp
  with itoa_round_trip[OF p] show ?thesis by auto
qed

end
