(* ===== verification/User_Lib.thy ===== *)
theory User_Lib
  imports Syscall User_String
begin

text \<open>
  The C library of the user programs, \<^verbatim>\<open>libc/stdlib.c\<close>. A program is a tree: it is done, or it makes a system
  call and goes on with the result. \<open>run\<close> answers the calls by the kernel's dispatcher.
\<close>

section \<open>Programs\<close>

text \<open>
  The answer to a call is what \<^verbatim>\<open>rax\<close> holds and the caller's buffer as the kernel left it. \<open>Load\<close> reads an \<^verbatim>\<open>int\<close>
  that the kernel has stored into the memory of the program.
\<close>

datatype 'a prog = Done "'a result" | Call u64 uarg uarg uarg "u64 \<times> uarg \<Rightarrow> 'a prog" | Load u64 "u32 \<Rightarrow> 'a prog"

primrec bindp :: "'a prog \<Rightarrow> ('a \<Rightarrow> 'b prog) \<Rightarrow> 'b prog" where
  "bindp (Done r) f = (case r of Inl e \<Rightarrow> Done (Inl e) | Inr x \<Rightarrow> f x)"
| "bindp (Call n a b c g) f = Call n a b c (\<lambda>r. bindp (g r) f)"
| "bindp (Load a g) f = Load a (\<lambda>w. bindp (g w) f)"

abbreviation (input) ret :: "'a \<Rightarrow> 'a prog" where "ret x \<equiv> Done (Inr x)"

datatype 'a ran = Finished 'a kernel | Blocked kont "u64 \<times> uarg \<Rightarrow> 'a prog" kernel | Failed fault | Diverges

definition kload32 :: "u64 \<Rightarrow> kernel \<Rightarrow> (u32 \<times> kernel) result" where
  "kload32 a k =
     for_up 0 4 (\<lambda>i (w, k). bindr (kload8 (a + of_nat i) k) (\<lambda>(b, k1). Inr (w OR push_bit (8 * i) (ucast b), k1))) (0, k)"

primrec run :: "env \<Rightarrow> 'a prog \<Rightarrow> kernel \<Rightarrow> 'a ran" where
  "run e (Done r) k = (case r of Inl f \<Rightarrow> Failed f | Inr x \<Rightarrow> Finished x k)"
| "run e (Call n a b c g) k =
     (case do_system_call e n a b c k of
        None \<Rightarrow> Diverges
      | Some (Inl f) \<Rightarrow> Failed f
      | Some (Inr (Ret r buf, k')) \<Rightarrow> run e (g (r, buf)) k'
      | Some (Inr (Sched s, k')) \<Rightarrow> Blocked s g k')"
| "run e (Load a g) k = (case kload32 a k of Inl f \<Rightarrow> Failed f | Inr (w, k') \<Rightarrow> run e (g w) k')"

lemma run_bindp:
  "run e (bindp p f) k = (case run e p k of
     Finished x k' \<Rightarrow> run e (f x) k' | Blocked s g k' \<Rightarrow> Blocked s (\<lambda>r. bindp (g r) f) k'
   | Failed x \<Rightarrow> Failed x | Diverges \<Rightarrow> Diverges)"
  by (induction p arbitrary: k) (auto split: sum.splits option.splits sysres.splits prod.splits)

lemma run_bindp_Finished: "run e p k = Finished x k' \<Longrightarrow> run e (bindp p f) k = run e (f x) k'"
  by (simp add: run_bindp)

text \<open>The system calls that a program makes, in order: their numbers and first arguments.\<close>

primrec call_log :: "env \<Rightarrow> 'a prog \<Rightarrow> kernel \<Rightarrow> (u64 \<times> uarg) list" where
  "call_log e (Done r) k = []"
| "call_log e (Call n a b c g) k =
     (n, a) # (case do_system_call e n a b c k of Some (Inr (Ret r buf, k')) \<Rightarrow> call_log e (g (r, buf)) k' | _ \<Rightarrow> [])"
| "call_log e (Load a g) k = (case kload32 a k of Inl f \<Rightarrow> [] | Inr (w, k') \<Rightarrow> call_log e (g w) k')"

lemma call_log_bindp:
  "call_log e (bindp p f) k = call_log e p k @ (case run e p k of Finished x k' \<Rightarrow> call_log e (f x) k' | _ \<Rightarrow> [])"
  by (induction p arbitrary: k) (auto split: sum.splits option.splits sysres.splits prod.splits)

text \<open>Reading an \<^verbatim>\<open>int\<close> of which the four bytes are known.\<close>

lemma bytes_join:
  fixes w :: u64
  shows "(((push_bit 0 (ucast (ucast w :: u8)) OR push_bit 8 (ucast (ucast (drop_bit 8 w) :: u8))) OR
    push_bit 16 (ucast (ucast (drop_bit 16 w) :: u8))) OR push_bit 24 (ucast (ucast (drop_bit 24 w) :: u8)) :: u32) = ucast w"
proof (rule bit_word_eqI)
  fix n
  assume n: "n < LENGTH(32)"
  show "bit (((push_bit 0 (ucast (ucast w :: u8)) OR push_bit 8 (ucast (ucast (drop_bit 8 w) :: u8))) OR
    push_bit 16 (ucast (ucast (drop_bit 16 w) :: u8))) OR push_bit 24 (ucast (ucast (drop_bit 24 w) :: u8)) :: u32) n =
    bit (ucast w :: u32) n"
    using n by (cases "n < 24"; cases "n < 16") (auto simp: bit_simps)
qed

lemma kload8_byte:
  assumes "user_ok k p fs S" and "user_byte k p a = Some b"
  shows "kload8 a k = Inr (b, k)"
proof -
  have "cpu_cr3 (sched_of k) = p" using user_okD(1)[OF assms(1)] by (auto simp: vm_ok_def)
  moreover obtain t where "translate (mem (vm k)) p a = Some t" "mem (vm k) t = b"
    using assms(2) by (auto simp: user_byte_def)
  ultimately show ?thesis by (simp add: kload8_def vrd8_def phys_of_def space_of_def)
qed

lemma kload32_bytes:
  assumes "user_ok k p fs S" and "\<forall>i<4. user_byte k p (a + of_nat i) = Some (ucast (drop_bit (8 * i) (w :: u64)))"
  shows "kload32 a k = Inr (ucast w, k)"
proof -
  have b: "kload8 (a + of_nat i) k = Inr (ucast (drop_bit (8 * i) w), k)" if "i < 4" for i
    using kload8_byte[OF assms(1)] assms(2) that by blast
  have "kload8 a k = Inr (ucast w, k)" "kload8 (a + 1) k = Inr (ucast (drop_bit 8 w), k)"
    "kload8 (a + 2) k = Inr (ucast (drop_bit 16 w), k)" "kload8 (a + 3) k = Inr (ucast (drop_bit 24 w), k)"
    using b[of 0] b[of 1] b[of 2] b[of 3] by simp_all
  then show ?thesis using bytes_join[of w] by (simp add: kload32_def for_up_step)
qed

section \<open>System calls\<close>

text \<open>\<^verbatim>\<open>include/syscall.h\<close>; the registers of the arguments that are not passed are 0 here, the handlers do not use them.\<close>

definition syscall_3 :: "u64 \<Rightarrow> uarg \<Rightarrow> uarg \<Rightarrow> uarg \<Rightarrow> (u64 \<times> uarg) prog" where
  "syscall_3 n a1 a2 a3 = Call n a1 a2 a3 ret"

definition syscall_2 :: "u64 \<Rightarrow> uarg \<Rightarrow> uarg \<Rightarrow> (u64 \<times> uarg) prog" where
  "syscall_2 n a1 a2 = syscall_3 n a1 a2 (Word 0)"

definition syscall_1 :: "u64 \<Rightarrow> uarg \<Rightarrow> (u64 \<times> uarg) prog" where
  "syscall_1 n a1 = syscall_3 n a1 (Word 0) (Word 0)"

definition syscall_0 :: "u64 \<Rightarrow> (u64 \<times> uarg) prog" where
  "syscall_0 n = syscall_3 n (Word 0) (Word 0) (Word 0)"

text \<open>A result as an \<^verbatim>\<open>int\<close>.\<close>

abbreviation (input) to_int :: "u64 \<Rightarrow> int" where "to_int r \<equiv> int_arg r"

definition exit_sys :: "int \<Rightarrow> unit prog" where
  "exit_sys st = bindp (syscall_1 60 (Word (of_int st))) (\<lambda>_. ret ())"

definition yield_sys :: "unit prog" where
  "yield_sys = bindp (syscall_0 24) (\<lambda>_. ret ())"

definition sleep :: "u32 \<Rightarrow> u32 prog" where
  "sleep seconds = bindp (syscall_1 37 (Word (ucast seconds))) (\<lambda>(r, _). ret (ucast r))"

definition sbrk :: "int \<Rightarrow> u64 prog" where
  "sbrk inc =
     bindp (syscall_1 12 (Word 0)) (\<lambda>(break_point, _).
       if break_point = - 1 then ret (- 1)
       else bindp (syscall_1 12 (Word (break_point + of_int inc))) (\<lambda>(end_point, _).
              if end_point = 0 then ret (- 1) else ret break_point))"

definition malloc :: "u64 \<Rightarrow> u64 prog" where
  "malloc sz = bindp (sbrk (int_arg sz)) (\<lambda>p. if p = - 1 then ret 0 else ret p)"

definition fork :: "u32 prog" where
  "fork = bindp (syscall_0 57) (\<lambda>(res, _). ret (ucast res))"

definition getpid :: "u32 prog" where
  "getpid = bindp (syscall_0 39) (\<lambda>(res, _). ret (ucast res))"

definition getppid :: "u32 prog" where
  "getppid = bindp (syscall_0 110) (\<lambda>(res, _). ret (ucast res))"

text \<open>\<^verbatim>\<open>execve\<close> returns -1 and \<^verbatim>\<open>errno\<close>.\<close>

definition execve :: "uarg \<Rightarrow> uarg \<Rightarrow> uarg \<Rightarrow> (int \<times> int) prog" where
  "execve filename argv envp = bindp (syscall_3 59 filename argv envp) (\<lambda>(r, _). ret (- 1, - to_int r))"

definition waitpid :: "u32 \<Rightarrow> uarg \<Rightarrow> int \<Rightarrow> u32 prog" where
  "waitpid pid0 st options =
     bindp (syscall_3 61 (Word (ucast pid0)) st (Word (of_int options))) (\<lambda>(r, _). ret (ucast r))"

definition kill :: "u32 \<Rightarrow> int \<Rightarrow> int prog" where
  "kill pid0 sig = bindp (syscall_2 62 (Word (ucast pid0)) (Word (of_int sig))) (\<lambda>(r, _). ret (to_int r))"

definition alarm :: "u32 \<Rightarrow> u32 prog" where
  "alarm seconds = bindp (syscall_1 37 (Word (ucast seconds))) (\<lambda>(r, _). ret (ucast r))"

definition getcwd :: "uarg \<Rightarrow> u64 \<Rightarrow> (u64 \<times> uarg) prog" where
  "getcwd buf sz = syscall_2 79 buf (Word sz)"

definition chdir :: "uarg \<Rightarrow> int prog" where
  "chdir path = bindp (syscall_1 80 path) (\<lambda>(r, _). ret (to_int r))"

definition open_file :: "uarg \<Rightarrow> int \<Rightarrow> int prog" where
  "open_file pathname flags = bindp (syscall_2 2 pathname (Word (of_int flags))) (\<lambda>(r, _). ret (to_int r))"

definition read_fd :: "int \<Rightarrow> uarg \<Rightarrow> u64 \<Rightarrow> (u64 \<times> uarg) prog" where
  "read_fd fd buf count = syscall_3 0 (Word (of_int fd)) buf (Word count)"

definition write_fd :: "int \<Rightarrow> uarg \<Rightarrow> u64 \<Rightarrow> u64 prog" where
  "write_fd fd buf count = bindp (syscall_3 1 (Word (of_int fd)) buf (Word count)) (\<lambda>(r, _). ret r)"

definition lseek :: "int \<Rightarrow> u64 \<Rightarrow> int \<Rightarrow> u64 prog" where
  "lseek fildes off whence = bindp (syscall_3 8 (Word (of_int fildes)) (Word off) (Word (of_int whence))) (\<lambda>(r, _). ret r)"

definition close_fd :: "int \<Rightarrow> int prog" where
  "close_fd fd = bindp (syscall_1 3 (Word (of_int fd))) (\<lambda>(r, _). ret (to_int r))"

definition dup :: "int \<Rightarrow> int prog" where
  "dup oldfd = bindp (syscall_1 32 (Word (of_int oldfd))) (\<lambda>(r, _). ret (to_int r))"

definition dup2 :: "int \<Rightarrow> int \<Rightarrow> int prog" where
  "dup2 oldfd newfd = bindp (syscall_2 33 (Word (of_int oldfd)) (Word (of_int newfd))) (\<lambda>(r, _). ret (to_int r))"

definition get_ps :: "uarg \<Rightarrow> int \<Rightarrow> (int \<times> uarg) prog" where
  "get_ps buffer sz = bindp (syscall_2 100 buffer (Word (of_int sz))) (\<lambda>(r, b). ret (to_int r, b))"

section \<open>Directories\<close>

text \<open>\<^verbatim>\<open>DIR\<close>; the entries are those of the block at \<open>dir_at\<close>, of 280 bytes each.\<close>

record DIR =
  dir_fd :: u64
  dir_at :: u64
  dents :: "dirent list"
  dir_offset :: u64

text \<open>\<open>raw\<close> is what the memory for the entries holds. \<open>None\<close> is \<^verbatim>\<open>NULL\<close>; the second component is \<^verbatim>\<open>errno\<close>.\<close>

definition opendir :: "(u64 \<Rightarrow> dirent list) \<Rightarrow> uarg \<Rightarrow> (DIR option \<times> int) prog" where
  "opendir raw name =
     bindp (malloc (2048 * 280)) (\<lambda>p.
     bindp (open_file name 0x10000) (\<lambda>dd.
     bindp (syscall_3 78 (Word (of_int dd)) (Dirents p (raw p)) (Word 2048)) (\<lambda>(r, b).
       if to_int r < 0 then ret (None, - to_int r)
       else bindp (malloc 24) (\<lambda>_.
              ret (Some \<lparr>dir_fd = of_int dd, dir_at = p, dents = dirents_of b, dir_offset = 0\<rparr>, 0)))))"

definition readdir :: "DIR \<Rightarrow> (dirent option \<times> DIR) result" where
  "readdir d =
     (let i = unat (dir_offset d) div 280
      in if unat (dir_offset d) mod 280 = 0 \<and> i < length (dents d)
         then let r = dents d ! i
              in if d_ino r = 0 then Inr (None, d)
                 else Inr (Some r, d\<lparr>dir_offset := dir_offset d + of_nat (d_reclen r)\<rparr>)
         else Inl Out_Of_Bounds)"

definition closedir :: "DIR \<Rightarrow> int prog" where
  "closedir d = bindp (close_fd (to_int (dir_fd d))) (\<lambda>_. ret 0)"

section \<open>The heap\<close>

lemma syscall_brk:
  "run e (syscall_1 12 a) k = (case do_break (addr_of a) k of
     Inl f \<Rightarrow> Failed f | Inr (Ret r b, k') \<Rightarrow> Finished (r, b) k' | Inr (Sched s, k') \<Rightarrow> Blocked s ret k')"
  by (simp add: syscall_1_def syscall_3_def do_system_call_def split: sum.splits prod.splits sysres.splits)

definition brk_set :: "u64 \<Rightarrow> kernel \<Rightarrow> kernel" where
  "brk_set b k = (case active_blk k of
     Inl _ \<Rightarrow> k | Inr x \<Rightarrow> set_sched (put_pcb (active_pcb (sched_of k)) (x\<lparr>user_brk_point := b\<rparr>) (sched_of k)) k)"

lemma active_blk_put: "active_blk k = Inr x \<Longrightarrow>
    active_blk (set_sched (put_pcb (active_pcb (sched_of k)) y (sched_of k)) k) = Inr y"
  by (elim active_blkE) (simp add: active_blk_def deref_def)

lemma malloc_run:
  assumes "active_blk k = Inr x" and "b = user_brk_point x" and "b \<noteq> - 1" and "0 < unat n" and "unat n < 2 ^ 31"
    and "unat b + unat n < 2 ^ 64"
  shows "run e (malloc n) k = Finished b (if b + n < HEAP_TOP then brk_set (b + n) k else k)"
proof -
  have i: "of_int (int_arg n) = n"
    using assms(5) by (simp add: int_arg_def sint_low_word)
  have u: "unat (b + n) = unat b + unat n" using unat_add_of_nat64[of b "unat n"] assms(6) by simp
  have nz: "b + n \<noteq> 0"
  proof
    assume "b + n = 0"
    then have "unat (b + n) = 0" by (simp only: unat_0)
    then show False using u assms(4) by simp
  qed
  have 1: "run e (syscall_1 12 (Word 0)) k = Finished (b, Word 0) k"
    using assms(1,2) by (simp add: syscall_brk do_break_def)
  have 2: "run e (syscall_1 12 (Word (b + n))) k = Finished (if b + n < HEAP_TOP then b + n else - 1, Word 0)
      (if b + n < HEAP_TOP then brk_set (b + n) k else k)"
    using nz assms(1) linorder_not_less[of "b + n" HEAP_TOP]
    by (cases "b + n < HEAP_TOP") (simp_all add: syscall_brk do_break_def upd_active_run active_blk_put brk_set_def)
  have s: "run e (sbrk (int_arg n)) k = Finished b (if b + n < HEAP_TOP then brk_set (b + n) k else k)"
    using nz assms(3) unfolding sbrk_def i by (simp add: run_bindp 1 2 i)
  show ?thesis using assms(3) by (simp add: malloc_def run_bindp s)
qed

lemma unat_all_ones: "unat (- 1 :: u64) = 2 ^ 64 - 1"
  by (simp add: unsigned_minus_1_eq_mask mask_eq_exp_minus_1)

lemma brk_set_active: "active_blk k = Inr x \<Longrightarrow> active_blk (brk_set b k) = Inr (x\<lparr>user_brk_point := b\<rparr>)"
  by (simp add: brk_set_def active_blk_put)

text \<open>C29: Two calls of \<^verbatim>\<open>malloc\<close> in a row, with sizes between 1 and 2^31 - 1. If the end \<open>b\<close> of the heap and the
  first size stay below the limit \<open>HEAP_TOP\<close>, the first call returns \<open>b\<close> and the second one \<open>b + n\<close>, behind the first block, and the end is moved behind
  the second block if the limit allows it. A refusal is not noticed (\<^verbatim>\<open>sbrk\<close> compares the answer with 0, and the kernel answers
  -1): the second call returns \<open>b + n\<close> also if the end is not moved, and if already the first size does not fit, both calls return the same
  address \<open>b\<close>.\<close>

theorem malloc_blocks:
  assumes "active_blk k = Inr x" and "b = user_brk_point x" and "0 < unat n" and "unat n < 2 ^ 31"
    and "0 < unat m" and "unat m < 2 ^ 31" and "unat b + unat n + unat m < 2 ^ 64"
  shows "if b + n < HEAP_TOP
    then \<exists>k' k''. run e (malloc n) k = Finished b k' \<and> run e (malloc m) k' = Finished (b + n) k'' \<and> unat (b + n) = unat b + unat n \<and>
      active_blk k'' = Inr (x\<lparr>user_brk_point := (if b + n + m < HEAP_TOP then b + n + m else b + n)\<rparr>)
    else run e (malloc n) k = Finished b k \<and> (\<exists>k'. run e (malloc m) k = Finished b k')"
proof -
  have b1: "b \<noteq> - 1"
  proof
    assume "b = - 1"
    then have "unat b = 2 ^ 64 - 1" by (simp add: unat_all_ones)
    then show False using assms(3,7) by simp
  qed
  have s: "unat b + unat n < 2 ^ 64" "unat b + unat m < 2 ^ 64" using assms(7) by simp_all
  have u: "unat (b + n) = unat b + unat n" using unat_add_of_nat64[of b "unat n"] s(1) by simp
  note 1 = malloc_run[OF assms(1,2) b1 assms(3,4) s(1), where e = e]
  show ?thesis
  proof (cases "b + n < HEAP_TOP")
    case True
    have n1: "b + n \<noteq> - 1" using True by (auto simp: word_less_nat_alt unat_all_ones)
    have "unat (b + n) + unat m < 2 ^ 64" using u assms(7) by simp
    note 2 = malloc_run[OF brk_set_active[OF assms(1)] _ n1 assms(5,6) this, where e = e]
    let ?k = "if b + n + m < HEAP_TOP then brk_set (b + n + m) (brk_set (b + n) k) else brk_set (b + n) k"
    have "active_blk ?k = Inr (x\<lparr>user_brk_point := (if b + n + m < HEAP_TOP then b + n + m else b + n)\<rparr>)"
      using brk_set_active[OF brk_set_active[OF assms(1)], of "b + n + m" "b + n"] brk_set_active[OF assms(1), of "b + n"] by simp
    moreover have "run e (malloc n) k = Finished b (brk_set (b + n) k)" using 1 True by simp
    moreover have "run e (malloc m) (brk_set (b + n) k) = Finished (b + n) ?k" using 2 by simp
    ultimately show ?thesis using True u by (simp only: if_True) blast
  next
    case False
    then show ?thesis using 1 malloc_run[OF assms(1,2) b1 assms(5,6) s(2), where e = e] by auto
  qed
qed

definition demo_env :: env where
  "demo_env = \<lparr>env_raw = \<lambda>_. blank_pcb, env_junk = 0, env_fork_return = 0, env_thread = 0, env_rsp = 0\<rparr>"

theorem malloc_blocks_witness:
  "\<exists>k'. run demo_env (malloc 16) root_kernel = Finished 0 k' \<and> (\<exists>k''. run demo_env (malloc 8) k' = Finished 16 k'')"
proof -
  have h: "user_brk_point shell_block = 0" by (simp add: shell_block_def blank_pcb_def)
  have n: "0 < unat (16 :: u64)" "unat (16 :: u64) < 2 ^ 31" "0 < unat (8 :: u64)" "unat (8 :: u64) < 2 ^ 31"
    "unat (0 :: u64) + unat (16 :: u64) + unat (8 :: u64) < 2 ^ 64" by simp_all
  from malloc_blocks[OF root_kernel_fields(2) h[symmetric] n, where e = demo_env] show ?thesis by auto
qed

end
