(* ===== verification/User_Printf.thy ===== *)
theory User_Printf
  imports User_Lib
begin

text \<open>
  The library's \<^verbatim>\<open>printf\<close>, \<^verbatim>\<open>libc/printf.c\<close>: it writes every character by a system call of its own.
  \<open>base\<close> is the address of what is written, which the kernel only reads through.
\<close>

section \<open>Operations\<close>

text \<open>The library has copies of the two conversions of the kernel, word for word.\<close>

definition u_itoh_printf :: "char list \<Rightarrow> nat \<Rightarrow> u64 \<Rightarrow> char list result" where
  "u_itoh_printf = itoh_printf"

definition u_itoa_printf :: "char list \<Rightarrow> nat \<Rightarrow> u64 \<Rightarrow> char list result" where
  "u_itoa_printf = itoa_printf"

text \<open>\<^verbatim>\<open>while(*strArray) { write(1, strArray, 1); strArray++; printed++; }\<close>; the pointer is not set back.\<close>

function put_array :: "u64 \<Rightarrow> char list \<Rightarrow> nat \<Rightarrow> nat \<Rightarrow> (nat \<times> nat) prog" where
  "put_array base buf sp printed =
     (if sp < length buf
      then if buf ! sp = NUL then ret (sp, printed)
           else bindp (write_fd 1 (Chars base (drop sp buf)) 1) (\<lambda>_. put_array base buf (Suc sp) (Suc printed))
      else Done (Inl Out_Of_Bounds))"
  by pat_completeness auto
termination by (relation "measure (\<lambda>(base, buf, sp, printed). length buf - sp)") auto

declare put_array.simps [simp del]

fun put_text :: "u64 \<Rightarrow> char list \<Rightarrow> char list \<Rightarrow> nat \<Rightarrow> (char list \<times> nat) prog" where
  "put_text base [] buf printed = Done (Inl Out_Of_Bounds)"
| "put_text base (c # cs) buf printed =
     (if c = NUL then ret (buf, printed)
      else case wr buf 0 c of
             Inl e \<Rightarrow> Done (Inl e)
           | Inr b \<Rightarrow> bindp (write_fd 1 (Chars base b) 1) (\<lambda>_. put_text base cs b (Suc printed)))"

text \<open>One directive: the arguments, \<^verbatim>\<open>_buffer\<close>, the position of \<^verbatim>\<open>strArray\<close> in it and the count.\<close>

definition u_directive ::
  "u64 \<Rightarrow> char \<Rightarrow> varg list \<Rightarrow> char list \<Rightarrow> nat \<Rightarrow> nat \<Rightarrow> (varg list \<times> char list \<times> nat \<times> nat) prog" where
  "u_directive base c args buf sp printed =
     (if c = CHR ''c'' then
        (case args of
           Slot w # rest \<Rightarrow>
             (case bindr (wr buf 0 (chr_of (unat (ucast w :: 8 word)))) (\<lambda>b. wr b 1 NUL) of
                Inl e \<Rightarrow> Done (Inl e)
              | Inr b \<Rightarrow> bindp (write_fd 1 (Chars base b) 1) (\<lambda>_. ret (rest, b, sp, Suc printed)))
         | _ \<Rightarrow> Done (Inl Out_Of_Bounds))
      else if c = CHR ''d'' then
        (case args of
           Slot w # rest \<Rightarrow>
             (let number = (ucast w :: i32)
              in case (if sint number < 0
                       then bindr (wr buf sp (CHR ''-'')) (\<lambda>b. u_itoa_printf b (sp + 1) (scast (- number)))
                       else u_itoa_printf buf sp (scast number)) of
                   Inl e \<Rightarrow> Done (Inl e)
                 | Inr b \<Rightarrow> bindp (put_array base b sp printed) (\<lambda>(sp', n). ret (rest, b, sp', n)))
         | _ \<Rightarrow> Done (Inl Out_Of_Bounds))
      else if c = CHR ''x'' then
        (case args of
           Slot w # rest \<Rightarrow>
             (case u_itoh_printf buf sp (scast (ucast w :: i32)) of
                Inl e \<Rightarrow> Done (Inl e)
              | Inr b \<Rightarrow> bindp (put_array base b sp printed) (\<lambda>(sp', n). ret (rest, b, sp', n)))
         | _ \<Rightarrow> Done (Inl Out_Of_Bounds))
      else if c = CHR ''s'' then
        (case args of
           Text t # rest \<Rightarrow>
             (case wr buf 1 NUL of
                Inl e \<Rightarrow> Done (Inl e)
              | Inr b \<Rightarrow> bindp (put_text base t b printed) (\<lambda>(b', n). ret (rest, b', sp, n)))
         | _ \<Rightarrow> Done (Inl Out_Of_Bounds))
      else ret (args, buf, sp, printed))"

fun u_printf_loop :: "u64 \<Rightarrow> char list \<Rightarrow> varg list \<Rightarrow> char list \<Rightarrow> nat \<Rightarrow> nat \<Rightarrow> (nat \<times> char list) prog" where
  "u_printf_loop base [] args buf sp printed = Done (Inl Out_Of_Bounds)"
| "u_printf_loop base [c] args buf sp printed =
     (if c = NUL then ret (printed, buf) else if c = CHR ''%'' then Done (Inl Out_Of_Bounds)
      else bindp (write_fd 1 (Chars base [c]) 1) (\<lambda>_. Done (Inl Out_Of_Bounds)))"
| "u_printf_loop base (c # d # fmt) args buf sp printed =
     (if c = NUL then ret (printed, buf)
      else if c = CHR ''%''
      then bindp (u_directive base d args buf sp printed) (\<lambda>(args', b, sp', n). u_printf_loop base fmt args' b sp' n)
      else bindp (write_fd 1 (Chars base (c # d # fmt)) 1) (\<lambda>_. u_printf_loop base (d # fmt) args buf sp (Suc printed)))"

text \<open>The result is the number of characters and \<^verbatim>\<open>_buffer\<close>, which is kept between calls.\<close>

definition u_printf :: "u64 \<Rightarrow> char list \<Rightarrow> varg list \<Rightarrow> char list \<Rightarrow> (nat \<times> char list) prog" where
  "u_printf base fmt args buf = u_printf_loop base fmt args buf 0 0"

section \<open>What reaches the screen\<close>

text \<open>The kernel with another screen.\<close>

definition on_screen :: "console \<Rightarrow> kernel \<Rightarrow> kernel" where
  "on_screen scr k = k\<lparr>io := (io k)\<lparr>screen := scr\<rparr>\<rparr>"

lemma on_screen_simps [simp]:
  fixes k :: kernel
  shows "screen (io (on_screen scr k)) = scr" "on_screen scr (on_screen scr' k) = on_screen scr k"
  "on_screen (screen (io k)) k = k"
  by (simp_all add: on_screen_def)

lemma write_char:
  fixes k :: kernel
  assumes "c \<noteq> NUL" and "write_k c (screen (io k)) = Inr scr"
  shows "run e (write_fd 1 (Chars base (c # s)) 1) k = Finished 1 (on_screen scr k)"
proof -
  have "write_loop 0 1 (c # s) (screen (io k)) = Inr (1, scr)"
    using assms by (simp add: write_loop.simps)
  then show ?thesis by (simp add: write_fd_def syscall_3_def do_system_call_def do_write_def on_screen_def)
qed

text \<open>\<open>p\<close> prints \<open>t\<close> and then has the value \<open>x\<close>.\<close>

definition prints :: "env \<Rightarrow> 'a prog \<Rightarrow> string \<Rightarrow> 'a \<Rightarrow> bool" where
  "prints e p t x = (\<forall>k :: kernel. console_ok (screen (io k)) \<longrightarrow>
     (\<exists>scr. write_all t (screen (io k)) = Inr scr \<and> console_ok scr \<and> run e p k = Finished x (on_screen scr k)))"

lemma prints_ret: "prints e (ret x) [] x"
  by (auto simp: prints_def)

lemma prints_run:
  fixes k :: kernel
  assumes "prints e p t x" and "console_ok (screen (io k))"
  obtains scr where "write_all t (screen (io k)) = Inr scr" and "console_ok scr" and "run e p k = Finished x (on_screen scr k)"
  using assms unfolding prints_def by blast

lemma prints_bind:
  assumes "prints e p t x" and "prints e (f x) u y"
  shows "prints e (bindp p f) (t @ u) y"
  unfolding prints_def
proof (intro allI impI)
  fix k :: kernel
  assume ok: "console_ok (screen (io k))"
  from assms(1) ok obtain s1 where
    1: "write_all t (screen (io k)) = Inr s1" "console_ok s1" "run e p k = Finished x (on_screen s1 k)"
    by (auto simp: prints_def)
  from assms(2) 1(2) obtain s2 where
    2: "write_all u s1 = Inr s2" "console_ok s2" "run e (f x) (on_screen s1 k) = Finished y (on_screen s2 (on_screen s1 k))"
    unfolding prints_def by (metis on_screen_simps(1))
  show "\<exists>scr. write_all (t @ u) (screen (io k)) = Inr scr \<and> console_ok scr \<and> run e (bindp p f) k = Finished y (on_screen scr k)"
    using 1 2 by (intro exI[of _ s2]) (simp add: write_all_append run_bindp)
qed

lemma prints_char:
  assumes "c \<noteq> NUL"
  shows "prints e (write_fd 1 (Chars base (c # s)) 1) [c] 1"
  unfolding prints_def
proof (intro allI impI)
  fix k :: kernel
  assume "console_ok (screen (io k))"
  from write_k_spec[OF this, of c] obtain scr where "write_k c (screen (io k)) = Inr scr" "console_ok scr" by blast
  with write_char[OF assms this(1)] show "\<exists>scr. write_all [c] (screen (io k)) = Inr scr \<and> console_ok scr \<and>
      run e (write_fd 1 (Chars base (c # s)) 1) k = Finished 1 (on_screen scr k)" by auto
qed

lemma prints_char_then:
  assumes "c \<noteq> NUL" and "prints e q u y"
  shows "prints e (bindp (write_fd 1 (Chars base (c # s)) 1) (\<lambda>_. q)) (c # u) y"
  using prints_bind[OF prints_char[OF assms(1)], of e "\<lambda>_. q" u y base s] assms(2) by simp

lemma prints_array:
  assumes "NUL \<notin> set t" and "b = pre @ t @ NUL # r" and "sp = length pre"
  shows "prints e (put_array base b sp n) t (sp + length t, n + length t)"
  using assms
proof (induction t arbitrary: pre sp n)
  case Nil
  then show ?case by (subst put_array.simps) (simp add: nth_append prints_ret)
next
  case (Cons c t)
  have d: "drop sp b = c # t @ NUL # r" "sp < length b" "b ! sp = c" using Cons.prems by (simp_all add: nth_append)
  have "prints e (put_array base b (Suc sp) (Suc n)) t (Suc sp + length t, Suc n + length t)"
    using Cons.prems by (intro Cons.IH[of "pre @ [c]"]) simp_all
  then have "prints e (bindp (write_fd 1 (Chars base (drop sp b)) 1) (\<lambda>_. put_array base b (Suc sp) (Suc n))) (c # t)
      (Suc sp + length t, Suc n + length t)"
    unfolding d(1) using Cons.prems(1) by (intro prints_char_then) auto
  then show ?case using d Cons.prems(1) by (subst put_array.simps) auto
qed

lemma prints_text:
  assumes "terminated t" and "b \<noteq> []"
  shows "\<exists>b'. prints e (put_text base t b n) (cstr t) (b', n + clen t) \<and> length b' = length b"
  using assms
proof (induction t arbitrary: b n)
  case Nil
  then show ?case by (simp add: terminated_def)
next
  case (Cons c t)
  show ?case
  proof (cases "c = NUL")
    case True
    then show ?thesis using prints_ret[of e "(b, n)"] by (auto simp: cstr_def clen_def)
  next
    case False
    obtain b0 bs where b: "b = b0 # bs" using Cons.prems(2) by (cases b) auto
    have "terminated t" using Cons.prems(1) False by (simp add: terminated_def)
    from Cons.IH[OF this, of "c # bs" "Suc n"] obtain b' where
      b': "prints e (put_text base t (c # bs) (Suc n)) (cstr t) (b', Suc n + clen t)" "length b' = length b" by (auto simp: b)
    from prints_char_then[OF False b'(1)] b'(2) False show ?thesis
      by (intro exI[of _ b']) (simp add: b wr_def cstr_def clen_def)
  qed
qed

text \<open>What a format prints, with the position that its numbers take in \<^verbatim>\<open>_buffer\<close>; \<open>None\<close> if they run out of room
  there. \<^verbatim>\<open>%x\<close> takes an \<^verbatim>\<open>int\<close>.\<close>

fun u_render :: "string \<Rightarrow> varg list \<Rightarrow> nat \<Rightarrow> string option" where
  "u_render [] args sp = Some []"
| "u_render [c] args sp = (if c = CHR ''%'' then None else Some [c])"
| "u_render (c # d # fmt) args sp =
     (if c \<noteq> CHR ''%'' then map_option (\<lambda>t. c # t) (u_render (d # fmt) args sp)
      else if d = CHR ''c'' then
        (case args of Slot w # rest \<Rightarrow>
           (let ch = chr_of (unat (ucast w :: 8 word))
            in if ch = NUL then None else map_option (\<lambda>t. ch # t) (u_render fmt rest sp)) | _ \<Rightarrow> None)
      else if d = CHR ''d'' then
        (case args of Slot w # rest \<Rightarrow>
           (let i = sint (ucast w :: i32); t = (if i < 0 then ''-'' else []) @ number_text 10 (nat \<bar>i\<bar>)
            in if i = - (2 ^ 31) \<or> 30 < sp + 12 then None
               else map_option (\<lambda>u. t @ u) (u_render fmt rest (sp + length t))) | _ \<Rightarrow> None)
      else if d = CHR ''x'' then
        (case args of Slot w # rest \<Rightarrow>
           (let t = number_text 16 (unat (scast (ucast w :: i32) :: u64))
            in if 30 < sp + 17 then None else map_option (\<lambda>u. t @ u) (u_render fmt rest (sp + length t))) | _ \<Rightarrow> None)
      else if d = CHR ''s'' then
        (case args of Text s # rest \<Rightarrow>
           if terminated s then map_option (\<lambda>u. cstr s @ u) (u_render fmt rest sp) else None | _ \<Rightarrow> None)
      else u_render fmt args sp)"

lemma splice_split: "d \<le> length buf \<Longrightarrow> splice buf d (t @ [NUL]) = take d buf @ t @ NUL # drop (d + Suc (length t)) buf"
  by (simp add: splice_def)

lemma prints_number:
  assumes "NUL \<notin> set t" and "b = pre @ t @ NUL # r" and "sp = length pre" and "length b = 30"
  shows "prints e (bindp (put_array base b sp n) (\<lambda>(sp', m). ret (rest, b, sp', m))) t (rest, b, sp + length t, n + length t)"
proof -
  have "prints e (bindp (put_array base b sp n) (\<lambda>(sp', m). ret (rest, b, sp', m))) (t @ [])
      (rest, b, sp + length t, n + length t)"
    by (rule prints_bind[OF prints_array[OF assms(1-3)]]) (simp add: prints_ret)
  then show ?thesis by simp
qed

lemma u_directive_d:
  assumes "length buf = 30" and "i = sint (ucast w :: i32)" and "i \<noteq> - (2 ^ 31)" and "sp + 12 \<le> 30"
    and "t = (if i < 0 then ''-'' else []) @ number_text 10 (nat \<bar>i\<bar>)"
  shows "\<exists>b. prints e (u_directive base (CHR ''d'') (Slot w # rest) buf sp n) t (rest, b, sp + length t, n + length t) \<and> length b = 30"
proof -
  let ?w = "ucast w :: i32" and ?t = "number_text 10 (nat \<bar>i\<bar>)"
  have i: "- (2 ^ 31) < i" "i < 2 ^ 31" using assms(2,3) sint_ge[of ?w] sint_lt[of ?w] by auto
  then have m: "nat \<bar>i\<bar> < 2 ^ 31" by (auto simp: nat_less_iff)
  then have "nat \<bar>i\<bar> < 10 ^ 10" by simp
  then have l: "length ?t \<le> 10" by (rule length_number_text) simp_all
  let ?buf = "if i < 0 then buf[sp := CHR ''-''] else buf" and ?d = "if i < 0 then sp + 1 else sp"
  let ?n = "if i < 0 then scast (- ?w) else scast ?w :: u64"
  have nn: "unat ?n = nat \<bar>i\<bar>" using assms(2) i by (rule unat_scast_abs)
  let ?b = "splice ?buf ?d (?t @ [NUL])"
  have c: "itoa_printf ?buf ?d ?n = Inr ?b"
    using itoa_text[of ?d ?buf ?n] nn m assms(1,4) by auto
  have nt: "NUL \<notin> set t" unfolding assms(5) using number_text_plain[of 10 "nat \<bar>i\<bar>"] by auto
  have b: "?b = take sp buf @ t @ NUL # drop (sp + Suc (length t)) buf"
    unfolding assms(5) using assms(1,4) by (simp add: splice_split take_Suc_conv_app_nth)
  have lb: "length ?b = 30" using assms(1,4) l by (subst length_splice) auto
  have "prints e (bindp (put_array base ?b sp n) (\<lambda>(sp', m). ret (rest, ?b, sp', m))) t (rest, ?b, sp + length t, n + length t)"
    using assms(1,4) by (intro prints_number[OF nt b _ lb]) simp
  moreover have "u_directive base (CHR ''d'') (Slot w # rest) buf sp n =
      bindp (put_array base ?b sp n) (\<lambda>(sp', m). ret (rest, ?b, sp', m))"
    using c assms(1,2,4) by (auto simp: u_directive_def wr_def Let_def u_itoa_printf_def)
  ultimately show ?thesis using lb by (intro exI[of _ ?b]) simp
qed

lemma u_directive_x:
  assumes "length buf = 30" and "sp + 17 \<le> 30" and "t = number_text 16 (unat (scast (ucast w :: i32) :: u64))"
  shows "\<exists>b. prints e (u_directive base (CHR ''x'') (Slot w # rest) buf sp n) t (rest, b, sp + length t, n + length t) \<and> length b = 30"
proof -
  let ?n = "scast (ucast w :: i32) :: u64"
  let ?b = "splice buf sp (t @ [NUL])"
  have c: "itoh_printf buf sp ?n = Inr ?b" unfolding assms(3) using assms(1,2) by (intro itoh_text) simp
  have "unat ?n < 16 ^ 16" using unat64_lt[of ?n] by simp
  then have l: "length t \<le> 16" unfolding assms(3) by (rule length_number_text) simp_all
  have nt: "NUL \<notin> set t" unfolding assms(3) using number_text_plain[of 16 "unat ?n"] by auto
  have b: "?b = take sp buf @ t @ NUL # drop (sp + Suc (length t)) buf" using assms(1,2) by (simp add: splice_split)
  have lb: "length ?b = 30" using assms(1,2) l by (simp add: splice_def)
  have "prints e (bindp (put_array base ?b sp n) (\<lambda>(sp', m). ret (rest, ?b, sp', m))) t (rest, ?b, sp + length t, n + length t)"
    using assms(1,2) by (intro prints_number[OF nt b _ lb]) simp
  moreover have "u_directive base (CHR ''x'') (Slot w # rest) buf sp n =
      bindp (put_array base ?b sp n) (\<lambda>(sp', m). ret (rest, ?b, sp', m))"
    using c by (simp add: u_directive_def u_itoh_printf_def)
  ultimately show ?thesis using lb by (intro exI[of _ ?b]) simp
qed

lemma u_directive_s:
  assumes "length buf = 30" and "terminated t"
  shows "\<exists>b. prints e (u_directive base (CHR ''s'') (Text t # rest) buf sp n) (cstr t) (rest, b, sp, n + clen t) \<and> length b = 30"
proof -
  have "buf[1 := NUL] \<noteq> []" using assms(1) by auto
  from prints_text[OF assms(2) this, of e base n] obtain b where
    b: "prints e (put_text base t (buf[1 := NUL]) n) (cstr t) (b, n + clen t)" "length b = 30" using assms(1) by auto
  have "prints e (bindp (put_text base t (buf[1 := NUL]) n) (\<lambda>(b', n). ret (rest, b', sp, n))) (cstr t @ []) (rest, b, sp, n + clen t)"
    by (rule prints_bind[OF b(1)]) (simp add: prints_ret)
  then show ?thesis using b(2) assms(1) by (intro exI[of _ b]) (simp add: u_directive_def wr_def)
qed

lemma u_directive_c:
  assumes "length buf = 30" and "ch = chr_of (unat (ucast w :: 8 word))" and "ch \<noteq> NUL"
  shows "\<exists>b. prints e (u_directive base (CHR ''c'') (Slot w # rest) buf sp n) [ch] (rest, b, sp, Suc n) \<and> length b = 30"
proof -
  obtain b0 b1 bs where b: "buf = b0 # b1 # bs" using assms(1) by (cases buf; cases "tl buf") auto
  have "prints e (bindp (write_fd 1 (Chars base (ch # NUL # bs)) 1) (\<lambda>_. ret (rest, ch # NUL # bs, sp, Suc n))) [ch]
      (rest, ch # NUL # bs, sp, Suc n)"
    by (rule prints_char_then[OF assms(3) prints_ret])
  then show ?thesis
    using assms(1,2) by (intro exI[of _ "ch # NUL # bs"]) (simp add: u_directive_def wr_def b)
qed

lemma u_printf_renders:
  assumes "NUL \<notin> set fmt" and "length buf = 30" and "u_render fmt args sp = Some out"
  shows "\<exists>b. prints e (u_printf_loop base (fmt @ NUL # r) args buf sp n) out (n + length out, b) \<and> length b = 30"
  using assms
proof (induction fmt args sp arbitrary: buf n out rule: u_render.induct)
  case (1 args sp)
  then show ?case using prints_ret[of e "(n, buf)"] by (cases r) auto
next
  case (2 c args sp)
  then have c: "c \<noteq> NUL" "c \<noteq> CHR ''%''" "out = [c]" by (auto split: if_splits)
  have "prints e (u_printf_loop base (NUL # r) args buf sp (Suc n)) [] (Suc n, buf)" using prints_ret by (cases r) auto
  then have "prints e (bindp (write_fd 1 (Chars base (c # NUL # r)) 1) (\<lambda>_. u_printf_loop base (NUL # r) args buf sp (Suc n)))
      [c] (Suc n, buf)" by (rule prints_char_then[OF c(1)])
  with c 2(2) show ?case by (intro exI[of _ buf]) simp
next
  case (3 c d fmt args sp)
  have nul: "c \<noteq> NUL" "NUL \<notin> set (d # fmt)" "NUL \<notin> set fmt" using "3.prems"(1) by auto
  have go: "\<exists>b. prints e (u_printf_loop base ((CHR ''%'' # d # fmt) @ NUL # r) args buf sp n) (t @ u) (n + length (t @ u), b) \<and> length b = 30"
    if dir: "\<exists>b. prints e (u_directive base d args buf sp n) t (args', b, sp', n + length t) \<and> length b = 30"
      and IH: "\<And>b m. length b = 30 \<Longrightarrow> \<exists>b'. prints e (u_printf_loop base (fmt @ NUL # r) args' b sp' m) u (m + length u, b') \<and> length b' = 30"
    for t u args' sp'
  proof -
    from dir obtain b where b: "prints e (u_directive base d args buf sp n) t (args', b, sp', n + length t)" "length b = 30" by blast
    from IH[OF b(2), of "n + length t"] obtain b' where
      b': "prints e (u_printf_loop base (fmt @ NUL # r) args' b sp' (n + length t)) u (n + length t + length u, b')" "length b' = 30" by blast
    have "prints e (bindp (u_directive base d args buf sp n) (\<lambda>(args', b, sp', n). u_printf_loop base (fmt @ NUL # r) args' b sp' n))
        (t @ u) (n + length t + length u, b')"
      by (rule prints_bind[OF b(1)]) (simp add: b'(1))
    with b'(2) show ?thesis by (intro exI[of _ b']) (simp add: add.assoc)
  qed
  consider "c \<noteq> CHR ''%''" | "c = CHR ''%''" "d = CHR ''c''" | "c = CHR ''%''" "d = CHR ''d''" | "c = CHR ''%''" "d = CHR ''x''"
    | "c = CHR ''%''" "d = CHR ''s''" | "c = CHR ''%''" "d \<notin> {CHR ''c'', CHR ''d'', CHR ''x'', CHR ''s''}" by blast
  then show ?case
  proof cases
    case 1
    with "3.prems"(3) obtain u where u: "u_render (d # fmt) args sp = Some u" "out = c # u" by auto
    from "3.IH"(1)[OF 1 nul(2) "3.prems"(2) u(1), of "Suc n"] obtain b where
      b: "prints e (u_printf_loop base ((d # fmt) @ NUL # r) args buf sp (Suc n)) u (Suc n + length u, b)" "length b = 30" by blast
    from prints_char_then[OF nul(1) b(1), of base "(d # fmt) @ NUL # r"] 1 nul(1) u(2) b(2) show ?thesis
      by (intro exI[of _ b]) simp
  next
    case 2
    with "3.prems"(3) obtain w rest u where a: "args = Slot w # rest" "chr_of (unat (ucast w :: 8 word)) \<noteq> NUL"
      "u_render fmt rest sp = Some u" "out = [chr_of (unat (ucast w :: 8 word))] @ u"
      by (auto simp: Let_def split: list.splits varg.splits if_splits)
    show ?thesis unfolding 2(1) a(4)
    proof (rule go)
      show "\<exists>b. prints e (u_directive base d args buf sp n) [chr_of (unat (ucast w :: 8 word))]
          (rest, b, sp, n + length [chr_of (unat (ucast w :: 8 word))]) \<and> length b = 30"
        using u_directive_c[OF "3.prems"(2) refl a(2), of e base rest sp n] by (simp add: 2(2) a(1))
    qed (rule "3.IH"(2)[OF _ 2(2) a(1) refl refl a(2)], use 2 a nul in simp_all)
  next
    case 3
    define t where "t = (if sint (ucast (case args of Slot w # _ \<Rightarrow> w) :: i32) < 0 then ''-'' else []) @
        number_text 10 (nat \<bar>sint (ucast (case args of Slot w # _ \<Rightarrow> w) :: i32)\<bar>)"
    with 3 "3.prems"(3) obtain w rest u where a: "args = Slot w # rest" "sint (ucast w :: i32) \<noteq> - (2 ^ 31)" "sp + 12 \<le> 30"
      "u_render fmt rest (sp + length t) = Some u" "out = t @ u"
      by (auto simp: Let_def split: list.splits varg.splits if_splits)
    have t: "t = (if sint (ucast w :: i32) < 0 then ''-'' else []) @ number_text 10 (nat \<bar>sint (ucast w :: i32)\<bar>)"
      by (simp add: t_def a(1))
    show ?thesis unfolding 3(1) a(5)
    proof (rule go)
      show "\<exists>b. prints e (u_directive base d args buf sp n) t (rest, b, sp + length t, n + length t) \<and> length b = 30"
        using u_directive_d[OF "3.prems"(2) refl a(2,3) t] by (simp add: 3(2) a(1))
    qed (rule "3.IH"(3)[OF _ _ 3(2) a(1) refl refl t], use 3 a nul t in simp_all)
  next
    case 4
    define t where "t = number_text 16 (unat (scast (ucast (case args of Slot w # _ \<Rightarrow> w) :: i32) :: u64))"
    with 4 "3.prems"(3) obtain w rest u where a: "args = Slot w # rest" "sp + 17 \<le> 30"
      "u_render fmt rest (sp + length t) = Some u" "out = t @ u"
      by (auto simp: Let_def split: list.splits varg.splits if_splits)
    have t: "t = number_text 16 (unat (scast (ucast w :: i32) :: u64))" by (simp add: t_def a(1))
    show ?thesis unfolding 4(1) a(4)
    proof (rule go)
      show "\<exists>b. prints e (u_directive base d args buf sp n) t (rest, b, sp + length t, n + length t) \<and> length b = 30"
        using u_directive_x[OF "3.prems"(2) a(2) t] by (simp add: 4(2) a(1))
    qed (rule "3.IH"(4)[OF _ _ _ 4(2) a(1) refl t], use 4 a nul t in simp_all)
  next
    case 5
    with "3.prems"(3) obtain t rest u where a: "args = Text t # rest" "terminated t" "u_render fmt rest sp = Some u" "out = cstr t @ u"
      by (auto split: list.splits varg.splits if_splits)
    show ?thesis unfolding 5(1) a(4)
    proof (rule go)
      show "\<exists>b. prints e (u_directive base d args buf sp n) (cstr t) (rest, b, sp, n + length (cstr t)) \<and> length b = 30"
        using u_directive_s[OF "3.prems"(2) a(2), of e base rest sp n] by (simp add: 5(2) a(1) clen_def)
    qed (rule "3.IH"(5)[OF _ _ _ _ 5(2) a(1) refl a(2)], use 5 a nul in simp_all)
  next
    case 6
    with "3.prems"(3) have u: "u_render fmt args sp = Some out" by auto
    have "u_directive base d args buf sp n = ret (args, buf, sp, n)" using 6(2) by (auto simp: u_directive_def)
    moreover have "\<exists>b. prints e (u_printf_loop base (fmt @ NUL # r) args buf sp n) out (n + length out, b) \<and> length b = 30"
      by (rule "3.IH"(6)) (use 6 nul "3.prems"(2) u in auto)
    ultimately show ?thesis using 6(1) by simp
  qed
qed

section \<open>Properties\<close>

text \<open>C30: The library's \<^verbatim>\<open>printf\<close>, run against the kernel, puts on the screen exactly the text that its format and
  arguments denote, one system call for each character, changes nothing else in the kernel, and
  returns the number of characters. (Its numbers must fit into \<^verbatim>\<open>_buffer\<close> one behind the other, since the
  pointer into it is never set back.)\<close>

theorem user_printf_reaches_screen:
  assumes "console_ok (screen (io k))" and "NUL \<notin> set fmt" and "length buf = 30" and "u_render fmt args 0 = Some out"
  shows "\<exists>scr buf'. run e (u_printf base (lit fmt) args buf) k =
      Finished (length out, buf') (k\<lparr>io := (io k)\<lparr>screen := scr\<rparr>\<rparr>) \<and>
    write_all out (screen (io k)) = Inr scr \<and> console_ok scr \<and> length buf' = 30"
proof -
  from u_printf_renders[OF assms(2-4), of e base "[]" 0] obtain b where
    b: "prints e (u_printf base (lit fmt) args buf) out (length out, b)" "length b = 30"
    by (auto simp: u_printf_def lit_def)
  from b(1) assms(1) obtain scr where "write_all out (screen (io k)) = Inr scr" "console_ok scr"
    "run e (u_printf base (lit fmt) args buf) k = Finished (length out, b) (on_screen scr k)"
    by (auto simp: prints_def)
  with b(2) show ?thesis by (intro exI[of _ scr] exI[of _ b]) (simp add: on_screen_def)
qed

theorem user_printf_reaches_screen_witness:
  "\<exists>k' buf'. run demo_env (u_printf 0x601000 (lit ''%d:%s'') [Slot 7, Text (lit ''ps'')] (replicate 30 NUL)) root_kernel =
     Finished (4, buf') k' \<and> write_all ''7:ps'' (screen (io root_kernel)) = Inr (screen (io k'))"
proof -
  have c: "console_ok (screen (io root_kernel))" by (simp add: root_kernel_def demo_kernel_def blank_console_ok)
  have n: "NUL \<notin> set ''%d:%s''" "length (replicate 30 NUL) = 30" by simp_all
  have t: "number_text 10 7 = ''7''" by code_simp
  have u: "u_render ''%d:%s'' [Slot 7, Text (lit ''ps'')] 0 = Some ''7:ps''" by (simp add: t)
  from user_printf_reaches_screen[OF c n u, of demo_env "0x601000"] show ?thesis by auto
qed

end
