(* ===== verification/User_Env.thy ===== *)
theory User_Env
  imports User_String
begin

text \<open>
  The variables of the shell, \<^verbatim>\<open>bin/sbush/envutil.c\<close>. The linked list behind its head is the list of the names and
  values; \<open>heap\<close> is the content of the memory that \<^verbatim>\<open>malloc\<close> has not handed out. A list node is 24 bytes.
\<close>

section \<open>Operations\<close>

type_synonym var = "char list \<times> char list"

record ushell =
  vars :: "var list"
  heap :: "char stream"
  envp_copy :: "char list option list"

definition var_init :: "ushell \<Rightarrow> ushell result" where
  "var_init u =
     (let (x, raw) = take_block 15 (heap u)
      in bindr (wr x 0 (CHR ''c'')) (\<lambda>_. Inr (u\<lparr>vars := [], heap := sdrop 24 raw\<rparr>)))"

definition var_add :: "char list \<Rightarrow> char list \<Rightarrow> ushell \<Rightarrow> ushell" where
  "var_add varname varval u = u\<lparr>vars := vars u @ [(varname, varval)], heap := sdrop 24 (heap u)\<rparr>"

definition var_count :: "ushell \<Rightarrow> nat" where
  "var_count u = length (vars u)"

text \<open>The index of the node; \<open>None\<close> is \<^verbatim>\<open>NULL\<close>.\<close>

fun find_loop :: "char list \<Rightarrow> nat \<Rightarrow> var list \<Rightarrow> nat option result" where
  "find_loop varname i [] = Inr None"
| "find_loop varname i ((nm, vl) # vs) =
     bindr (strcomp nm varname) (\<lambda>d. if d = 0 then Inr (Some i) else find_loop varname (Suc i) vs)"

definition var_find :: "char list \<Rightarrow> ushell \<Rightarrow> nat option result" where
  "var_find varname u = find_loop varname 0 (vars u)"

text \<open>\<^verbatim>\<open>var_find(varname)->varval\<close>\<close>

definition val_of :: "char list \<Rightarrow> ushell \<Rightarrow> char list result" where
  "val_of varname u =
     bindr (var_find varname u) (\<lambda>r. case r of None \<Rightarrow> Inl Null_Deref | Some i \<Rightarrow> Inr (snd (vars u ! i)))"

definition process_val :: "char list \<Rightarrow> char list" where
  "process_val val = val"

text \<open>\<^verbatim>\<open>p = malloc(strlen(s) + 1); strcpy(s, p);\<close>\<close>

definition dup_string :: "char list \<Rightarrow> char stream \<Rightarrow> (char list \<times> char stream) result" where
  "dup_string s raw =
     bindr (strlen s) (\<lambda>l.
       let (p, raw1) = take_block (nat (l + 1)) raw
       in bindr (strcpy s 0 p) (\<lambda>(_, p1). Inr (p1, raw1)))"

definition var_set :: "char list \<Rightarrow> char list \<Rightarrow> ushell \<Rightarrow> ushell result" where
  "var_set varname varval0 u =
     (let varval = process_val varval0
      in bindr (var_find varname u) (\<lambda>target.
         case target of
           Some i \<Rightarrow>
             bindr (dup_string varval (heap u)) (\<lambda>(v, raw).
               Inr (u\<lparr>vars := (vars u)[i := (fst (vars u ! i), v)], heap := raw\<rparr>))
         | None \<Rightarrow>
             bindr (strlen varval) (\<lambda>_.
             bindr (dup_string varname (heap u)) (\<lambda>(my_varname, raw1).
             bindr (dup_string varval raw1) (\<lambda>(my_varval, raw2).
               Inr (var_add my_varname my_varval (u\<lparr>heap := raw2\<rparr>)))))))"

fun parse_loop :: "char list list \<Rightarrow> ushell \<Rightarrow> ushell result" where
  "parse_loop [] u = Inr u"
| "parse_loop (s # ss) u =
     bindr (strsearch s (CHR ''='')) (\<lambda>assign_index.
       if assign_index = - 1 then parse_loop ss u
       else bindr (str_split_line s assign_index (heap u)) (\<lambda>((nm, vl), raw).
              parse_loop ss (var_add nm vl (u\<lparr>heap := raw\<rparr>))))"

text \<open>A variable that is missing gets a default, in blocks of fixed sizes.\<close>

definition add_default :: "string \<Rightarrow> nat \<Rightarrow> string \<Rightarrow> ushell \<Rightarrow> ushell result" where
  "add_default nm n vl u =
     bindr (var_find (lit nm) u) (\<lambda>r.
       if r = None
       then let (varname, raw1) = take_block n (heap u); (varval, raw2) = take_block 20 raw1
            in bindr (strcpy (lit nm) 0 varname) (\<lambda>(_, varname1).
               bindr (strcpy (lit vl) 0 varval) (\<lambda>(_, varval1).
                 Inr (var_add varname1 varval1 (u\<lparr>heap := raw2\<rparr>))))
       else Inr u)"

definition default_prompt :: string where
  "default_prompt = [CHR 0x5C] @ ''u@sbush:'' @ [CHR 0x5C] @ ''d-('' @ [CHR 0x5C] @ ''S)->''"

definition parse_envp :: "char list list \<Rightarrow> ushell \<Rightarrow> ushell result" where
  "parse_envp envp u =
     bindr (var_init u) (\<lambda>u1.
     bindr (parse_loop envp u1) (\<lambda>u2.
     bindr (add_default ''PS1'' 4 default_prompt u2) (\<lambda>u3.
     bindr (add_default ''PATH'' 6 ''/bin'' u3) (add_default ''USER'' 6 ''abanitalebid''))))"

definition getusrnm :: "char list \<Rightarrow> int \<Rightarrow> ushell \<Rightarrow> (int \<times> char list) result" where
  "getusrnm buffer sz u =
     bindr (val_of (lit ''USER'') u) (\<lambda>v. bindr (strcpy v 0 buffer) (\<lambda>(_, b). Inr (- 1, b)))"

definition get_path :: "ushell \<Rightarrow> char list result" where
  "get_path u = val_of (lit ''PATH'') u"

fun envp_loop :: "nat \<Rightarrow> var list \<Rightarrow> char list option list \<Rightarrow> char stream \<Rightarrow> (char list option list \<times> char stream) result" where
  "envp_loop i [] copy raw = Inr (copy, raw)"
| "envp_loop i ((nm, vl) # vs) copy raw =
     (let (b, raw1) = take_block 100 raw
      in if i < length copy
         then bindr (strcpy nm 0 b) (\<lambda>(_, b1).
              bindr (strlen nm) (\<lambda>l.
              bindr (wri b1 l (CHR ''='')) (\<lambda>b2.
              bindr (strcpy vl (nat (l + 1)) b2) (\<lambda>(_, b3).
                envp_loop (Suc i) vs (copy[i := Some b3]) raw1))))
         else Inl Out_Of_Bounds)"

definition get_envp :: "ushell \<Rightarrow> ushell result" where
  "get_envp u =
     bindr (envp_loop 0 (vars u) (replicate 15 None) (heap u)) (\<lambda>(copy, raw).
       Inr (u\<lparr>envp_copy := copy, heap := raw\<rparr>))"

definition var_get_val :: "char list \<Rightarrow> ushell \<Rightarrow> (char list \<times> ushell) result" where
  "var_get_val varname u =
     bindr (var_find varname u) (\<lambda>r.
       case r of
         Some i \<Rightarrow> bindr (dup_string (snd (vars u ! i)) (heap u)) (\<lambda>(v, raw). Inr (v, u\<lparr>heap := raw\<rparr>))
       | None \<Rightarrow> (let (b, raw) = take_block 1 (heap u) in bindr (wr b 0 NUL) (\<lambda>b1. Inr (b1, u\<lparr>heap := raw\<rparr>))))"

text \<open>
  \<^verbatim>\<open>process_argv\<close>: the first loop joins the words between two quotes, the second drops the empty ones and replaces
  variables. \<open>i1\<close> is the word with the open quote. (The shell does not call it.)
\<close>

definition strip_quotes :: "nat \<Rightarrow> nat \<times> char list list \<Rightarrow> (nat \<times> char list list) result" where
  "strip_quotes j st =
     (case st of (merge_len, argv) \<Rightarrow>
        bindr (strremove (argv ! j) (CHR 0x22)) (\<lambda>(_, s).
        bindr (strlen s) (\<lambda>l. Inr (nat (int merge_len + l), argv[j := s]))))"

definition join_word :: "nat \<Rightarrow> char list list \<Rightarrow> nat \<Rightarrow> nat \<times> char list \<Rightarrow> (nat \<times> char list) result" where
  "join_word i1 argv j st =
     (case st of (l, b) \<Rightarrow>
        bindr (if j > i1 then bindr (strcpy (lit '' '') l b) (\<lambda>(n, b1). Inr (l + n, b1)) else Inr (l, b)) (\<lambda>(l1, b1).
        bindr (strcpy (argv ! j) l1 b1) (\<lambda>(n, b2). Inr (l1 + n, b2))))"

definition merge_words :: "nat \<Rightarrow> nat \<Rightarrow> char list list \<Rightarrow> char stream \<Rightarrow> (char list list \<times> char stream) result" where
  "merge_words i1 i2 argv raw =
     bindr (for_up i1 (Suc i2) strip_quotes (0, argv)) (\<lambda>(merge_len, argv1).
       let (b, raw1) = take_block (merge_len + 1) raw
       in bindr (for_up i1 (Suc i2) (join_word i1 argv1) (0, b)) (\<lambda>(_, b1).
          bindr (for_up (Suc i1) (Suc i2) (\<lambda>j argv. bindr (wr (argv ! j) 0 NUL) (\<lambda>s. Inr (argv[j := s]))) (argv1[i1 := b1]))
            (\<lambda>argv2. Inr (argv2, raw1))))"

definition quote_step :: "nat \<Rightarrow> nat option \<times> char list list \<times> char stream \<Rightarrow> (nat option \<times> char list list \<times> char stream) result" where
  "quote_step i st =
     (case st of (i1, argv, raw) \<Rightarrow>
        bindr (strcount (argv ! i) (CHR 0x22)) (\<lambda>count.
          if odd count
          then case i1 of
                 None \<Rightarrow> Inr (Some i, argv, raw)
               | Some k \<Rightarrow> bindr (merge_words k i argv raw) (\<lambda>(argv1, raw1). Inr (None, argv1, raw1))
          else bindr (strremove (argv ! i) (CHR 0x22)) (\<lambda>(_, s). Inr (i1, argv[i := s], raw))))"

text \<open>The test for \<^verbatim>\<open>$\<close> is made at the decremented index when a word has been dropped.\<close>

definition drop_word :: "nat \<Rightarrow> char list list \<Rightarrow> char list list" where
  "drop_word i argv = take i argv @ drop (Suc i) argv"

definition expand_word :: "int \<Rightarrow> char list list \<times> ushell \<Rightarrow> (char list list \<times> ushell) result" where
  "expand_word i st =
     (case st of (argv, u) \<Rightarrow>
        if i < 0 \<or> nat i \<ge> length argv then Inl Out_Of_Bounds
        else bindr (rd (argv ! nat i) 0) (\<lambda>c.
               if c = CHR ''$''
               then bindr (var_get_val (drop 1 (argv ! nat i)) u) (\<lambda>(v, u1). Inr (argv[nat i := v], u1))
               else Inr (argv, u)))"

lemma expand_word_length: "expand_word i (argv, u) = Inr (argv1, u1) \<Longrightarrow> length argv1 = length argv"
  by (auto simp: expand_word_def split: if_splits)

function words_loop :: "nat \<Rightarrow> char list list \<Rightarrow> ushell \<Rightarrow> (char list list \<times> ushell) result" where
  "words_loop i argv u =
     (if i < length argv
      then bindr (rd (argv ! i) 0) (\<lambda>c.
             if c = NUL
             then bindr (expand_word (int i - 1) (drop_word i argv, u)) (\<lambda>(argv1, u1). words_loop i argv1 u1)
             else bindr (expand_word (int i) (argv, u)) (\<lambda>(argv1, u1). words_loop (Suc i) argv1 u1))
      else Inr (argv, u))"
  by pat_completeness auto
termination
  by (relation "measure (\<lambda>(i, argv, u). 2 * length argv - i)") (auto dest!: expand_word_length simp: drop_word_def)

declare words_loop.simps [simp del]

definition process_argv :: "char list list \<Rightarrow> ushell \<Rightarrow> (char list list \<times> ushell) result" where
  "process_argv argv u =
     bindr (for_up 0 (length argv) quote_step (None, argv, heap u)) (\<lambda>(_, argv1, raw). words_loop 0 argv1 (u\<lparr>heap := raw\<rparr>))"

section \<open>The variables as a map\<close>

definition short :: "char list \<Rightarrow> bool" where
  "short s \<longleftrightarrow> terminated s \<and> clen s < MAX_STR_LEN"

definition texts :: "ushell \<Rightarrow> (string \<times> string) list" where
  "texts u = map (\<lambda>(n, v). (cstr n, cstr v)) (vars u)"

definition vars_ok :: "ushell \<Rightarrow> bool" where
  "vars_ok u \<longleftrightarrow> (\<forall>(n, v)\<in>set (vars u). short n \<and> short v)"

lemma stake_zero: "stake n (sconst x) = replicate n x"
proof (induction n)
  case (Suc n)
  have "((\<lambda>a. a) ^^ n) x = x" by (induction n) simp_all
  with Suc show ?case by (simp add: replicate_append_same)
qed simp

lemma sdrop_zero: "sdrop n (sconst x) = sconst x"
  by (induction n) simp_all

text \<open>Memory that has never been used is zero.\<close>

definition zeros :: "char stream" where
  "zeros = sconst NUL"

lemma take_block_zero [simp]: "take_block n zeros = (replicate n NUL, zeros)" "sdrop n zeros = zeros"
  unfolding zeros_def by (simp_all only: take_block_def stake_zero sdrop_zero)

lemma short_lit [simp]: "NUL \<notin> set t \<Longrightarrow> length t < MAX_STR_LEN \<Longrightarrow> short (lit t)"
  by (simp add: short_def clen_def)

lemma comp_loop_spec:
  assumes "terminated s" and "terminated t" and "clen s = n" and "clen t = n" and "i \<le> n"
    and "take i (cstr s) = take i (cstr t)"
  shows "\<exists>d. comp_loop s t (int n) i = Inr d \<and> (d = 0 \<longleftrightarrow> cstr s = cstr t)"
  using assms(5,6)
proof (induction "n - i" arbitrary: i)
  case 0
  then have "cstr s = cstr t" using assms(3,4) by (simp add: clen_def)
  then show ?case using 0 by (subst comp_loop.simps) simp
next
  case (Suc m)
  then have i: "i < n" by simp
  have s: "s ! i = cstr s ! i" "i < length s" using i assms(3) nth_cstr(1)[OF assms(1)] clen_less[OF assms(1)] by simp_all
  have t: "t ! i = cstr t ! i" "i < length t" using i assms(4) nth_cstr(1)[OF assms(2)] clen_less[OF assms(2)] by simp_all
  show ?case
  proof (cases "cstr s ! i = cstr t ! i")
    case True
    then have "take (Suc i) (cstr s) = take (Suc i) (cstr t)"
      using Suc.prems i assms(3,4) by (simp add: take_Suc_conv_app_nth clen_def)
    then have "\<exists>d. comp_loop s t (int n) (Suc i) = Inr d \<and> (d = 0 \<longleftrightarrow> cstr s = cstr t)"
      using Suc.hyps(2) i by (intro Suc.hyps(1)) simp_all
    then show ?thesis using i s t True by (subst comp_loop.simps) simp
  next
    case False
    then show ?thesis using i s t by (subst comp_loop.simps) (auto simp: schar_eq_iff)
  qed
qed

lemma strcomp_zero:
  assumes "short s" and "short t"
  obtains d where "strcomp s t = Inr d" and "d = 0 \<longleftrightarrow> cstr s = cstr t"
proof (cases "clen s = clen t")
  case True
  with assms comp_loop_spec[OF _ _ True refl, of 0] obtain d where
    "comp_loop s t (int (clen t)) 0 = Inr d" "d = 0 \<longleftrightarrow> cstr s = cstr t" by (auto simp: short_def)
  then show thesis using assms True by (intro that[of d]) (simp_all add: strcomp_def short_def)
next
  case False
  then have "cstr s \<noteq> cstr t" by (auto simp: clen_def)
  then show thesis using assms False by (intro that[of "int (clen s) - int (clen t)"]) (simp_all add: strcomp_def short_def)
qed

lemma find_loop_spec:
  assumes "short x" and "\<forall>(n, v)\<in>set vs. short n \<and> short v"
  shows "find_loop x i vs = Inr (if cstr x \<in> (cstr \<circ> fst) ` set vs
     then Some (i + length (takeWhile (\<lambda>(n, v). cstr n \<noteq> cstr x) vs)) else None)"
  using assms(2)
proof (induction vs arbitrary: i)
  case (Cons p vs)
  obtain n v where p: "p = (n, v)" by (cases p)
  with Cons.prems have "short n" by simp
  then obtain d where "strcomp n x = Inr d" "d = 0 \<longleftrightarrow> cstr n = cstr x" using assms(1) by (rule strcomp_zero)
  then show ?case using Cons by (auto simp: p)
qed simp

lemma map_of_update_first:
  assumes "k \<in> fst ` set xs" and "i = length (takeWhile (\<lambda>(n, v). n \<noteq> k) xs)"
  shows "i < length xs" and "fst (xs ! i) = k" and "map_of xs k = Some (snd (xs ! i))"
    and "map_of (xs[i := (k, w)]) = (map_of xs)(k \<mapsto> w)"
proof -
  have "i < length xs \<and> fst (xs ! i) = k \<and> map_of xs k = Some (snd (xs ! i)) \<and> map_of (xs[i := (k, w)]) = (map_of xs)(k \<mapsto> w)"
    using assms
  proof (induction xs arbitrary: i)
    case (Cons p xs)
    obtain a b where p: "p = (a, b)" by (cases p)
    show ?case
    proof (cases "a = k")
      case False
      then have "k \<in> fst ` set xs" using Cons.prems(1) p by auto
      from Cons.IH[OF this refl] False show ?thesis by (auto simp: p Cons.prems(2) fun_eq_iff)
    qed (simp add: p Cons.prems(2) fun_eq_iff)
  qed simp
  then show "i < length xs" "fst (xs ! i) = k" "map_of xs k = Some (snd (xs ! i))"
    "map_of (xs[i := (k, w)]) = (map_of xs)(k \<mapsto> w)" by auto
qed

lemma var_find_spec:
  assumes "short x" and "vars_ok u"
  shows "case map_of (texts u) (cstr x) of
      None \<Rightarrow> var_find x u = Inr None
    | Some t \<Rightarrow> \<exists>i. var_find x u = Inr (Some i) \<and> i < length (vars u) \<and> cstr (fst (vars u ! i)) = cstr x \<and>
        cstr (snd (vars u ! i)) = t \<and> (\<forall>w. map_of ((texts u)[i := (cstr x, w)]) = (map_of (texts u))(cstr x \<mapsto> w))"
proof -
  have f: "var_find x u = Inr (if cstr x \<in> (cstr \<circ> fst) ` set (vars u)
     then Some (length (takeWhile (\<lambda>(n, v). cstr n \<noteq> cstr x) (vars u))) else None)"
    using find_loop_spec[OF assms(1), of "vars u" 0] assms(2) by (simp add: var_find_def vars_ok_def)
  have d: "(cstr \<circ> fst) ` set (vars u) = fst ` set (texts u)" by (force simp: texts_def image_image)
  have l: "length (takeWhile (\<lambda>(n, v). cstr n \<noteq> cstr x) (vars u)) = length (takeWhile (\<lambda>(n, v). n \<noteq> cstr x) (texts u))"
    unfolding texts_def takeWhile_map by (simp add: case_prod_unfold comp_def)
  show ?thesis
  proof (cases "cstr x \<in> fst ` set (texts u)")
    case True
    note m = map_of_update_first[OF True l]
    let ?i = "length (takeWhile (\<lambda>(n, v). cstr n \<noteq> cstr x) (vars u))"
    have "?i < length (vars u)" using m(1) by (simp add: texts_def)
    then have "cstr (fst (vars u ! ?i)) = cstr x" "map_of (texts u) (cstr x) = Some (cstr (snd (vars u ! ?i)))"
      using m(2,3) by (simp_all add: texts_def case_prod_unfold)
    then show ?thesis using f True d m(4) \<open>?i < length (vars u)\<close> by simp
  next
    case False
    then have "map_of (texts u) (cstr x) = None" by (simp add: map_of_eq_None_iff)
    then show ?thesis using f False d by simp
  qed
qed

subsection \<open>Setting a variable\<close>

lemma strcpy_zero:
  assumes "terminated s" and "cstr s \<noteq> []" and "clen s \<le> MAX_STR_LEN" and "clen s < n"
  shows "strcpy s 0 (replicate n NUL) = Inr (clen s, cstr s @ NUL # replicate (n - Suc (clen s)) NUL)"
proof -
  have "replicate (n - clen s) NUL = NUL # replicate (n - Suc (clen s)) NUL"
    using assms(4) by (metis Suc_diff_Suc replicate_Suc)
  then show ?thesis using strcpy_text[OF assms(1-3), of 0 "replicate n NUL"] assms(4) by (simp add: splice_def clen_def)
qed

lemma dup_string_zero:
  assumes "short s" and "cstr s \<noteq> []"
  shows "dup_string s (zeros) = Inr (cstr s @ [NUL], zeros)"
  using assms strcpy_zero[of s "Suc (clen s)"] by (simp add: dup_string_def short_def nat_add_distrib)

lemma short_plain: "short s \<Longrightarrow> short (cstr s @ [NUL])"
  by (simp add: short_def clen_def)

lemma var_set_map:
  assumes "vars_ok u" and "heap u = zeros" and "short nm" and "short vl" and "cstr nm \<noteq> []" and "cstr vl \<noteq> []"
  shows "\<exists>u'. var_set nm vl u = Inr u' \<and> map_of (texts u') = (map_of (texts u))(cstr nm \<mapsto> cstr vl) \<and> vars_ok u' \<and> heap u' = zeros"
proof (cases "map_of (texts u) (cstr nm)")
  case None
  then have "var_find nm u = Inr None" using var_find_spec[OF assms(3,1)] by simp
  moreover have "strlen vl = Inr (int (clen vl))" using assms(4) by (simp add: short_def)
  ultimately have r: "var_set nm vl u = Inr (var_add (cstr nm @ [NUL]) (cstr vl @ [NUL]) u)"
    using assms by (simp add: var_set_def process_val_def dup_string_zero var_add_def)
  have "texts (var_add (cstr nm @ [NUL]) (cstr vl @ [NUL]) u) = texts u @ [(cstr nm, cstr vl)]"
    by (simp add: texts_def var_add_def)
  moreover have "map_of (xs @ [(k, w)]) = (map_of xs)(k \<mapsto> w)" if "map_of xs k = None" for xs and k w :: string
    using that by (auto simp: map_add_def split: option.splits)
  ultimately show ?thesis
    using r None assms short_plain by (simp add: vars_ok_def var_add_def)
next
  case (Some t)
  then obtain i where i: "var_find nm u = Inr (Some i)" "i < length (vars u)" "cstr (fst (vars u ! i)) = cstr nm"
    "\<forall>w. map_of ((texts u)[i := (cstr nm, w)]) = (map_of (texts u))(cstr nm \<mapsto> w)"
    using var_find_spec[OF assms(3,1)] by auto
  let ?u = "u\<lparr>vars := (vars u)[i := (fst (vars u ! i), cstr vl @ [NUL])], heap := zeros\<rparr>"
  have r: "var_set nm vl u = Inr ?u" using i(1) assms by (simp add: var_set_def process_val_def dup_string_zero)
  have "texts ?u = (texts u)[i := (cstr nm, cstr vl)]" using i(2,3) by (simp add: texts_def map_update)
  moreover have "vars_ok ?u"
  proof -
    have "vars u ! i \<in> set (vars u)" using i(2) by simp
    then have "short (fst (vars u ! i))" using assms(1) by (auto simp: vars_ok_def)
    then show ?thesis using assms(1,4) short_plain set_update_subset_insert[of "vars u" i]
      by (fastforce simp: vars_ok_def)
  qed
  ultimately show ?thesis using r i(4) by simp
qed

text \<open>C28: On fresh memory setting a variable updates the map of the variables at its name, whether it was there or
  not, for a name and a value that are not empty; looking it up then gives the value, and the other variables are as
  before.\<close>

theorem var_set_updates:
  assumes "vars_ok u" and "heap u = zeros" and "short nm" and "short vl" and "cstr nm \<noteq> []" and "cstr vl \<noteq> []"
  shows "\<exists>u'. var_set nm vl u = Inr u' \<and> map_of (texts u') = (map_of (texts u))(cstr nm \<mapsto> cstr vl) \<and>
    vars_ok u' \<and> heap u' = zeros \<and> (\<exists>v. val_of nm u' = Inr v \<and> cstr v = cstr vl)"
proof -
  from var_set_map[OF assms] obtain u' where u': "var_set nm vl u = Inr u'" "map_of (texts u') = (map_of (texts u))(cstr nm \<mapsto> cstr vl)"
    "vars_ok u'" "heap u' = zeros" by blast
  then obtain i where "var_find nm u' = Inr (Some i)" "cstr (snd (vars u' ! i)) = cstr vl"
    using var_find_spec[OF assms(3) u'(3)] by auto
  then have "\<exists>v. val_of nm u' = Inr v \<and> cstr v = cstr vl" by (simp add: val_of_def)
  with u' show ?thesis by blast
qed

theorem var_set_updates_witness:
  "\<exists>u'. var_set (lit ''A'') (lit ''1'') \<lparr>vars = [(lit ''A'', lit ''0'')], heap = zeros, envp_copy = []\<rparr> = Inr u' \<and>
     map_of (texts u') ''A'' = Some ''1''"
proof -
  let ?u = "\<lparr>vars = [(lit ''A'', lit ''0'')], heap = zeros, envp_copy = []\<rparr>"
  have h: "vars_ok ?u" "heap ?u = zeros" "short (lit ''A'')" "short (lit ''1'')" "cstr (lit ''A'') \<noteq> []" "cstr (lit ''1'') \<noteq> []"
    by (simp_all add: vars_ok_def)
  from var_set_updates[OF h] show ?thesis by auto
qed

subsection \<open>The environment of a child\<close>

lemma search_loop_spec:
  assumes "terminated s" and "i \<le> clen s"
  shows "search_loop s c (int (clen s)) i =
    Inr (if c \<in> set (drop i (cstr s)) then int (i + length (takeWhile (\<lambda>x. x \<noteq> c) (drop i (cstr s)))) else - 1)"
  using assms(2)
proof (induction "clen s - i" arbitrary: i)
  case 0
  then show ?case by (subst search_loop.simps) (simp add: clen_def)
next
  case (Suc m)
  then have i: "i < clen s" by simp
  have d: "drop i (cstr s) = s ! i # drop (Suc i) (cstr s)"
    using i nth_cstr(1)[OF assms(1) i] by (simp add: Cons_nth_drop_Suc clen_def)
  have "i < length s" using i clen_less[OF assms(1)] by simp
  moreover have "search_loop s c (int (clen s)) (Suc i) = Inr (if c \<in> set (drop (Suc i) (cstr s))
      then int (Suc i + length (takeWhile (\<lambda>x. x \<noteq> c) (drop (Suc i) (cstr s)))) else - 1)"
    using Suc.hyps(2) i by (intro Suc.hyps(1)) simp_all
  ultimately show ?case using i unfolding d by (subst search_loop.simps) auto
qed

lemma strsearch_spec:
  "short s \<Longrightarrow> strsearch s c =
    Inr (if c \<in> set (cstr s) then int (length (takeWhile (\<lambda>x. x \<noteq> c) (cstr s))) else - 1)"
  using search_loop_spec[of s 0 c] by (simp add: strsearch_def short_def)

lemma str_split_line_spec:
  assumes "short s" and "cstr s = a @ c # b"
  shows "\<exists>x y. str_split_line s (int (length a)) (zeros) = Inr ((x, y), zeros) \<and>
    short x \<and> cstr x = a \<and> short y \<and> cstr y = b"
proof -
  from assms obtain r where s: "s = (a @ c # b) @ NUL # r" "NUL \<notin> set (a @ c # b)" "clen s = length (a @ c # b)"
    unfolding short_def by (metis terminatedE)
  let ?x = "splice (replicate (Suc (length a)) NUL) 0 (a @ [NUL])" and ?y = "splice (replicate (Suc (length b)) NUL) 0 (b @ [NUL])"
  have x: "strcpy_fr_to s (replicate (Suc (length a)) NUL) 0 (int (length a)) = Inr (int (length a), ?x)"
    using copy_range[of 0 "length a" s "replicate (Suc (length a)) NUL"] s(1) by simp
  have y: "strcpy_fr_to s (replicate (Suc (length b)) NUL) (int (length a) + 1) (int (clen s)) = Inr (int (length b), ?y)"
    using copy_range[of "Suc (length a)" "length b" s "replicate (Suc (length b)) NUL"] s by (simp add: algebra_simps)
  have n: "nat (int (clen s) - int (length a)) = Suc (length b)" "nat (int (length a) + 1) = Suc (length a)" using s(3) by simp_all
  have "str_split_line s (int (length a)) (zeros) = Inr ((?x, ?y), zeros)"
    using assms(1) x y unfolding str_split_line_def short_def n take_block_zero by (simp add: n)
  moreover have "cstr ?x = a" "cstr ?y = b" using s(2) by (simp_all add: cstr_splice0)
  moreover have "short ?x" "short ?y" using calculation(2,3) assms(1) s(3) by (simp_all add: short_def clen_def)
  ultimately show ?thesis by blast
qed

text \<open>What an entry of the environment says.\<close>

definition assigns :: "string \<Rightarrow> (string \<times> string) list" where
  "assigns t = (if CHR ''='' \<in> set t then [(takeWhile (\<lambda>c. c \<noteq> CHR ''='') t, tl (dropWhile (\<lambda>c. c \<noteq> CHR ''='') t))] else [])"

lemma parse_loop_spec:
  assumes "\<forall>s\<in>set ss. short s" and "vars_ok u" and "heap u = zeros"
  shows "\<exists>u'. parse_loop ss u = Inr u' \<and> texts u' = texts u @ concat (map (\<lambda>s. assigns (cstr s)) ss) \<and>
    vars_ok u' \<and> heap u' = zeros"
  using assms
proof (induction ss arbitrary: u)
  case (Cons s ss)
  have s: "short s" using Cons.prems(1) by simp
  note f = strsearch_spec[OF s, of "CHR ''=''"]
  show ?case
  proof (cases "CHR ''='' \<in> set (cstr s)")
    case False
    from Cons.IH[of u] Cons.prems f False show ?thesis by (simp add: assigns_def)
  next
    case True
    let ?a = "takeWhile (\<lambda>c. c \<noteq> CHR ''='') (cstr s)" and ?b = "tl (dropWhile (\<lambda>c. c \<noteq> CHR ''='') (cstr s))"
    obtain ys zs where c: "cstr s = ys @ CHR ''='' # zs" "CHR ''='' \<notin> set ys" using split_list_first[OF True] by blast
    have "takeWhile (\<lambda>c. c \<noteq> CHR ''='') ys = ys" using c(2) by (auto intro!: takeWhile_eq_all_conv[THEN iffD2])
    moreover have "dropWhile (\<lambda>c. c \<noteq> CHR ''='') ys = []" using c(2) by auto
    ultimately have "cstr s = ?a @ CHR ''='' # ?b" using c(2) unfolding c(1)
      by (simp add: takeWhile_append dropWhile_append)
    from str_split_line_spec[OF s this] obtain x y where
      xy: "str_split_line s (int (length ?a)) (zeros) = Inr ((x, y), zeros)" "short x" "cstr x = ?a" "short y" "cstr y = ?b"
      by blast
    let ?u = "var_add x y (u\<lparr>heap := zeros\<rparr>)"
    have u: "vars_ok ?u" "heap ?u = zeros" "texts ?u = texts u @ assigns (cstr s)"
      using Cons.prems(2) xy True by (simp_all add: vars_ok_def var_add_def texts_def assigns_def)
    have "\<forall>s\<in>set ss. short s" using Cons.prems(1) by simp
    from Cons.IH[OF this u(1,2)] obtain u' where
      "parse_loop ss ?u = Inr u'" "texts u' = texts ?u @ concat (map (\<lambda>s. assigns (cstr s)) ss)" "vars_ok u'" "heap u' = zeros"
      by blast
    with f True xy(1) Cons.prems(3) u(3) show ?thesis by simp
  qed
qed simp

definition with_default :: "string \<times> string \<Rightarrow> (string \<times> string) list \<Rightarrow> (string \<times> string) list" where
  "with_default d xs = (if fst d \<in> fst ` set xs then xs else xs @ [d])"

lemma add_default_spec:
  assumes "vars_ok u" and "heap u = zeros" and "nm \<noteq> []" and "NUL \<notin> set nm" and "length nm < n"
    and "vl \<noteq> []" and "NUL \<notin> set vl" and "length vl < 20" and "n \<le> 20"
  shows "\<exists>u'. add_default nm n vl u = Inr u' \<and> texts u' = with_default (nm, vl) (texts u) \<and> vars_ok u' \<and> heap u' = zeros"
proof (cases "map_of (texts u) nm")
  case None
  have s: "short (lit nm)" using assms by simp
  have v: "var_find (lit nm) u = Inr None" using var_find_spec[OF s assms(1)] None assms(4) by simp
  have c: "strcpy (lit nm) 0 (replicate n NUL) = Inr (length nm, nm @ NUL # replicate (n - Suc (length nm)) NUL)"
    "strcpy (lit vl) 0 (replicate 20 NUL) = Inr (length vl, vl @ NUL # replicate (20 - Suc (length vl)) NUL)"
    using strcpy_zero[of "lit nm" n] strcpy_zero[of "lit vl" 20] assms by (simp_all add: clen_def)
  have d: "nm \<notin> fst ` set (texts u)" using None by (simp add: map_of_eq_None_iff)
  let ?u = "var_add (nm @ NUL # replicate (n - Suc (length nm)) NUL) (vl @ NUL # replicate (20 - Suc (length vl)) NUL)
    (u\<lparr>heap := zeros\<rparr>)"
  have "add_default nm n vl u = Inr ?u" unfolding add_default_def assms(2) by (simp add: v c)
  moreover have "texts ?u = with_default (nm, vl) (texts u)"
    using d assms(4,7) by (simp add: with_default_def) (simp add: texts_def var_add_def)
  moreover have "vars_ok ?u" "heap ?u = zeros"
    using assms(1,4,5,7-9) by (simp_all add: vars_ok_def var_add_def short_def clen_def)
  ultimately show ?thesis by blast
next
  case (Some t)
  have s: "short (lit nm)" using assms by simp
  obtain i where "var_find (lit nm) u = Inr (Some i)" using var_find_spec[OF s assms(1)] Some assms(4) by auto
  moreover have "nm \<in> fst ` set (texts u)" using Some by (force dest: map_of_SomeD)
  ultimately show ?thesis using assms(1,2) by (simp add: add_default_def with_default_def)
qed

definition with_defaults :: "(string \<times> string) list \<Rightarrow> (string \<times> string) list" where
  "with_defaults xs =
     with_default (''USER'', ''abanitalebid'') (with_default (''PATH'', ''/bin'') (with_default (''PS1'', default_prompt) xs))"

lemma parse_envp_spec:
  assumes "\<forall>s\<in>set ss. short s" and "heap u = zeros"
  shows "\<exists>u'. parse_envp ss u = Inr u' \<and> texts u' = with_defaults (concat (map (\<lambda>s. assigns (cstr s)) ss)) \<and>
    vars_ok u' \<and> heap u' = zeros"
proof -
  let ?u = "u\<lparr>vars := [], heap := zeros\<rparr>"
  have u: "vars_ok ?u" "heap ?u = zeros" "texts ?u = []" by (simp_all add: vars_ok_def texts_def)
  have i: "var_init u = Inr ?u" by (simp add: var_init_def assms(2) wr_def)
  from parse_loop_spec[OF assms(1) u(1,2)] obtain u2 where
    u2: "parse_loop ss ?u = Inr u2" "texts u2 = concat (map (\<lambda>s. assigns (cstr s)) ss)" "vars_ok u2" "heap u2 = zeros"
    unfolding u(3) by auto
  have p: "default_prompt \<noteq> []" "NUL \<notin> set default_prompt" "length default_prompt < 20" by (simp_all add: default_prompt_def)
  from add_default_spec[OF u2(3,4) _ _ _ p, of "''PS1''" 4] obtain u3 where
    u3: "add_default ''PS1'' 4 default_prompt u2 = Inr u3" "texts u3 = with_default (''PS1'', default_prompt) (texts u2)"
      "vars_ok u3" "heap u3 = zeros" by auto
  from add_default_spec[OF u3(3,4), of "''PATH''" 6 "''/bin''"] obtain u4 where
    u4: "add_default ''PATH'' 6 ''/bin'' u3 = Inr u4" "texts u4 = with_default (''PATH'', ''/bin'') (texts u3)"
      "vars_ok u4" "heap u4 = zeros" by auto
  from add_default_spec[OF u4(3,4), of "''USER''" 6 "''abanitalebid''"] obtain u5 where
    u5: "add_default ''USER'' 6 ''abanitalebid'' u4 = Inr u5" "texts u5 = with_default (''USER'', ''abanitalebid'') (texts u4)"
      "vars_ok u5" "heap u5 = zeros" by auto
  have "parse_envp ss u = Inr u5" by (simp add: parse_envp_def i u2(1) u3(1) u4(1) u5(1))
  with u5 u4(2) u3(2) u2(2) show ?thesis by (simp add: with_defaults_def)
qed

text \<open>A variable that fits into an entry of 100 bytes, and its entry.\<close>

definition fits :: "var \<Rightarrow> bool" where
  "fits x \<longleftrightarrow> (case x of (n, v) \<Rightarrow> terminated n \<and> terminated v \<and> cstr n \<noteq> [] \<and> cstr v \<noteq> [] \<and>
     CHR ''='' \<notin> set (cstr n) \<and> clen n + clen v + 2 \<le> 100)"

definition entry :: "var \<Rightarrow> char list" where
  "entry x = (case x of (n, v) \<Rightarrow> cstr n @ CHR ''='' # cstr v @ replicate (99 - clen n - clen v) NUL)"

lemma entry_text:
  assumes "fits x"
  shows "terminated (entry x)" and "cstr (entry x) = cstr (fst x) @ CHR ''='' # cstr (snd x)"
    and "assigns (cstr (entry x)) = [(cstr (fst x), cstr (snd x))]" and "short (entry x)"
proof -
  obtain n v where x: "x = (n, v)" by (cases x)
  then have f: "CHR ''='' \<notin> set (cstr n)" "clen n + clen v + 2 \<le> 100" using assms by (simp_all add: fits_def)
  have "99 - clen n - clen v = Suc (98 - clen n - clen v)" using f(2) by simp
  then have "replicate (99 - clen n - clen v) NUL = NUL # replicate (98 - clen n - clen v) NUL" by (simp only: replicate_Suc)
  then have e: "entry x = (cstr n @ CHR ''='' # cstr v) @ NUL # replicate (98 - clen n - clen v) NUL" by (simp add: entry_def x)
  have "NUL \<notin> set (cstr n @ CHR ''='' # cstr v)" by simp
  from cstr_append_NUL[OF this] have "cstr (entry x) = cstr n @ CHR ''='' # cstr v" unfolding e .
  then show c: "terminated (entry x)" "cstr (entry x) = cstr (fst x) @ CHR ''='' # cstr (snd x)"
    by (simp_all only: x fst_conv snd_conv) (simp only: e terminated_append_NUL x[symmetric])
  show "assigns (cstr (entry x)) = [(cstr (fst x), cstr (snd x))]"
  proof -
    have "takeWhile (\<lambda>c. c \<noteq> CHR ''='') (cstr n) = cstr n" using f(1) by (auto intro!: takeWhile_eq_all_conv[THEN iffD2])
    moreover have "dropWhile (\<lambda>c. c \<noteq> CHR ''='') (cstr n) = []" using f(1) by auto
    ultimately show ?thesis using f(1) unfolding c by (simp add: x assigns_def takeWhile_append dropWhile_append)
  qed
  show "short (entry x)" using c f(2) by (simp add: short_def clen_def x)
qed

lemma envp_step:
  assumes "fits x" and "i < length copy"
  shows "envp_loop i (x # vs) copy zeros = envp_loop (Suc i) vs (copy[i := Some (entry x)]) zeros"
proof -
  obtain n v where x: "x = (n, v)" by (cases x)
  have f: "terminated n" "terminated v" "cstr n \<noteq> []" "cstr v \<noteq> []" "clen n + clen v + 2 \<le> 100"
    using assms(1) by (simp_all add: fits_def x)
  let ?b = "cstr n @ CHR ''='' # replicate (99 - clen n) NUL"
  have 1: "strcpy n 0 (replicate 100 NUL) = Inr (clen n, cstr n @ NUL # replicate (99 - clen n) NUL)"
    using strcpy_zero[of n 100] f by simp
  have 2: "wri (cstr n @ NUL # replicate (99 - clen n) NUL) (int (clen n)) (CHR ''='') = Inr ?b"
    by (simp add: wr_def clen_def)
  have 3: "strcpy v (Suc (clen n)) ?b = Inr (clen v, entry x)"
    using strcpy_text[of v "Suc (clen n)" ?b] f by (simp add: splice_def entry_def x clen_def)
  have "nat (int (clen n) + 1) = Suc (clen n)" "strlen n = Inr (int (clen n))" using f by simp_all
  with 1 2 3 assms(2) show ?thesis by (simp add: x)
qed

lemma envp_loop_spec:
  assumes "\<forall>x\<in>set vs. fits x" and "i + length vs \<le> length copy"
  shows "envp_loop i vs copy zeros = Inr (take i copy @ map (\<lambda>x. Some (entry x)) vs @ drop (i + length vs) copy, zeros)"
  using assms
proof (induction vs arbitrary: i copy)
  case (Cons x vs)
  then have i: "i < length copy" "fits x" by simp_all
  have "envp_loop (Suc i) vs (copy[i := Some (entry x)]) zeros =
      Inr (take (Suc i) (copy[i := Some (entry x)]) @ map (\<lambda>x. Some (entry x)) vs @ drop (Suc i + length vs) (copy[i := Some (entry x)]), zeros)"
    using Cons.prems by (intro Cons.IH) simp_all
  then show ?case using envp_step[OF i(2,1)] i(1) by (simp add: take_Suc_conv_app_nth[of i "copy[i := Some (entry x)]"])
qed simp

lemma envp_loop_overflow:
  assumes "\<forall>x\<in>set vs. fits x" and "i \<le> length copy" and "length copy < i + length vs"
  shows "envp_loop i vs copy zeros = Inl Out_Of_Bounds"
  using assms
proof (induction vs arbitrary: i copy)
  case (Cons x vs)
  then have f: "fits x" by simp
  show ?case
  proof (cases "i < length copy")
    case True
    have "envp_loop (Suc i) vs (copy[i := Some (entry x)]) zeros = Inl Out_Of_Bounds"
      using Cons.prems True by (intro Cons.IH) simp_all
    then show ?thesis using envp_step[OF f True] by simp
  next
    case False
    then show ?thesis by (cases x) simp
  qed
qed simp

text \<open>What a child finds in the array: the entries in front of the \<^verbatim>\<open>NULL\<close>.\<close>

definition envp_list :: "ushell \<Rightarrow> char list list" where
  "envp_list u = map the (takeWhile (\<lambda>p. p \<noteq> None) (envp_copy u))"

text \<open>C27: The environment that a shell with at most 14 variables hands to its children is read back by
  \<^verbatim>\<open>parse_envp\<close> of a shell among them as the same variables, in the same order, with the three defaults behind
  when they are missing. With more than 15 variables \<^verbatim>\<open>get_envp\<close> writes behind its array.\<close>

theorem environment_round_trip:
  assumes "\<forall>x\<in>set (vars u). fits x" and "heap u = zeros" and "heap child0 = zeros"
  shows "(length (vars u) \<le> 14 \<longrightarrow> (\<exists>u1 u2. get_envp u = Inr u1 \<and> parse_envp (envp_list u1) child0 = Inr u2 \<and>
      texts u2 = with_defaults (texts u) \<and> texts u1 = texts u)) \<and>
    (15 < length (vars u) \<longrightarrow> get_envp u = Inl Out_Of_Bounds)"
proof (intro conjI impI)
  assume l: "length (vars u) \<le> 14"
  let ?es = "map entry (vars u)"
  let ?u1 = "u\<lparr>envp_copy := map Some ?es @ replicate (15 - length (vars u)) None, heap := zeros\<rparr>"
  have g: "get_envp u = Inr ?u1"
    using envp_loop_spec[OF assms(1), of 0 "replicate 15 None"] l assms(2) by (simp add: get_envp_def comp_def)
  have "takeWhile (\<lambda>p. p \<noteq> None) (map Some ?es @ replicate (15 - length (vars u)) None) = map Some ?es"
    using l by (subst takeWhile_append2) (auto simp: takeWhile_replicate)
  then have e: "envp_list ?u1 = ?es" by (simp add: envp_list_def comp_def)
  have s: "\<forall>s\<in>set ?es. short s" using assms(1) entry_text(4) by auto
  have "concat (map (\<lambda>s. assigns (cstr s)) ?es) = texts u"
  proof -
    have "map (\<lambda>s. assigns (cstr s)) ?es = map (\<lambda>x. [(cstr (fst x), cstr (snd x))]) (vars u)"
      using assms(1) entry_text(3) by simp
    then show ?thesis by (simp only:) (simp add: texts_def case_prod_unfold)
  qed
  with parse_envp_spec[OF s assms(3)] obtain u2 where "parse_envp ?es child0 = Inr u2" "texts u2 = with_defaults (texts u)" by auto
  with g e show "\<exists>u1 u2. get_envp u = Inr u1 \<and> parse_envp (envp_list u1) child0 = Inr u2 \<and>
      texts u2 = with_defaults (texts u) \<and> texts u1 = texts u"
    by (intro exI[of _ ?u1] exI[of _ u2]) (simp add: texts_def)
next
  assume "15 < length (vars u)"
  with envp_loop_overflow[OF assms(1), of 0 "replicate 15 None"] show "get_envp u = Inl Out_Of_Bounds"
    by (simp add: get_envp_def assms(2))
qed

theorem environment_round_trip_witness:
  "\<exists>u1 u2. get_envp \<lparr>vars = [(lit ''A'', lit ''1'')], heap = zeros, envp_copy = []\<rparr> = Inr u1 \<and>
     parse_envp (envp_list u1) \<lparr>vars = [], heap = zeros, envp_copy = []\<rparr> = Inr u2 \<and>
     texts u2 = [(''A'', ''1''), (''PS1'', default_prompt), (''PATH'', ''/bin''), (''USER'', ''abanitalebid'')]"
proof -
  let ?u = "\<lparr>vars = [(lit ''A'', lit ''1'')], heap = zeros, envp_copy = []\<rparr>"
  have h: "\<forall>x\<in>set (vars ?u). fits x" "heap ?u = zeros" "heap \<lparr>vars = [], heap = zeros, envp_copy = []\<rparr> = zeros"
    "length (vars ?u) \<le> 14" by (simp_all add: fits_def clen_def)
  have "with_defaults (texts ?u) = [(''A'', ''1''), (''PS1'', default_prompt), (''PATH'', ''/bin''), (''USER'', ''abanitalebid'')]"
    by (simp add: texts_def with_defaults_def with_default_def)
  with environment_round_trip[OF h(1-3)] h(4) show ?thesis by auto
qed

end
