(* ===== verification/Shell.thy ===== *)
theory Shell
  imports User_Printf User_Env
begin

text \<open>
  The shell, \<^verbatim>\<open>bin/sbush/sbushell.c\<close> and \<^verbatim>\<open>ioutil.c\<close>. Its functions are programs in the sense of \<open>User_Lib\<close>: what they
  ask of the kernel is a call, the rest computes on the global variables, which are the record below.
\<close>

section \<open>The state\<close>

text \<open>
  \<open>env\<close> holds the list of the variables and the memory that \<^verbatim>\<open>malloc\<close> has not handed out; \<open>print_buffer\<close> is
  \<^verbatim>\<open>_buffer\<close> of the library's \<^verbatim>\<open>printf\<close>, \<open>line_buffer\<close> is \<^verbatim>\<open>buffer\<close>.
\<close>

record shell =
  exit_yet :: bool
  exit_status :: int
  prompt :: "char list"
  line_buffer :: "char list"
  shell_cwd :: "char list"
  joined_filename :: "char list"
  last_command_status :: int
  status_str :: "char list"
  user_name_str :: "char list"
  sh_vars :: ushell
  print_buffer :: "char list"

text \<open>The addresses of the variables that the kernel reads or writes through.\<close>

record layout =
  at_prompt :: u64
  at_buffer :: u64
  at_cwd :: u64
  at_joined :: u64
  at_status :: u64
  at_text :: u64
  at_word :: u64
  at_argv :: u64
  at_envp :: u64

abbreviation (input) BUFFERSIZE :: u64 where "BUFFERSIZE \<equiv> 250"
abbreviation (input) DIR_NAME_LEN :: u64 where "DIR_NAME_LEN \<equiv> 250"

definition say :: "layout \<Rightarrow> string \<Rightarrow> varg list \<Rightarrow> shell \<Rightarrow> shell prog" where
  "say L fmt args sh =
     bindp (u_printf (at_text L) (lit fmt) args (print_buffer sh)) (\<lambda>(_, b). ret (sh\<lparr>print_buffer := b\<rparr>))"

section \<open>The prompt\<close>

definition insert_text :: "char list \<Rightarrow> nat \<times> char list \<Rightarrow> (nat \<times> char list) result" where
  "insert_text format_with st =
     bindr (strlen format_with) (\<lambda>l.
       for_up 0 (nat l) (\<lambda>i (j, p). bindr (rd format_with i) (\<lambda>c. bindr (wr p j c) (\<lambda>p1. Inr (Suc j, p1)))) st)"

text \<open>\<open>i\<close> is \<^verbatim>\<open>format_index\<close>, \<open>j\<close> is \<^verbatim>\<open>buffer_index\<close>.\<close>

function prompt_loop :: "shell \<Rightarrow> char list \<Rightarrow> nat \<Rightarrow> nat \<Rightarrow> char list \<Rightarrow> (nat \<times> char list) result" where
  "prompt_loop sh ps1 i j p =
     bindr (strlen ps1) (\<lambda>l.
       if int i < l
       then bindr (rd ps1 i) (\<lambda>c.
            bindr (if c = CHR 0x5C
                   then bindr (rd ps1 (Suc i)) (\<lambda>d.
                          Inr (if d = CHR ''u'' then Some (user_name_str sh)
                               else if d = CHR ''d'' then Some (shell_cwd sh)
                               else if d = CHR ''S'' then Some (status_str sh)
                               else None))
                   else Inr None) (\<lambda>format_with.
              case format_with of
                Some w \<Rightarrow> bindr (insert_text w (j, p)) (\<lambda>(j1, p1). prompt_loop sh ps1 (i + 2) j1 p1)
              | None \<Rightarrow> bindr (wr p j c) (\<lambda>p1. prompt_loop sh ps1 (Suc i) (Suc j) p1)))
       else Inr (j, p))"
  by pat_completeness auto
termination
  by (relation "measure (\<lambda>(sh, ps1, i, j, p). length ps1 - i)") (auto simp: rd_def split: if_splits)

declare prompt_loop.simps [simp del]

definition get_formatted_prompt :: "shell \<Rightarrow> shell result" where
  "get_formatted_prompt sh =
     bindr (val_of (lit ''PS1'') (sh_vars sh)) (\<lambda>ps1.
     bindr (prompt_loop sh ps1 0 0 (prompt sh)) (\<lambda>(j, p).
     bindr (wr p j NUL) (\<lambda>p1. Inr (sh\<lparr>prompt := p1\<rparr>))))"

definition make_prompt :: "layout \<Rightarrow> shell \<Rightarrow> shell prog" where
  "make_prompt L sh =
     bindp (getcwd (Chars (at_cwd L) (shell_cwd sh)) DIR_NAME_LEN) (\<lambda>(_, b).
     bindp (Done (itoa (status_str sh) (last_command_status sh))) (\<lambda>(_, t).
     bindp (Done (getusrnm (user_name_str sh) 30 (sh_vars sh))) (\<lambda>(_, u).
       Done (get_formatted_prompt (sh\<lparr>shell_cwd := chars_of b, status_str := t, user_name_str := u\<rparr>)))))"

section \<open>Commands\<close>

definition readline :: "layout \<Rightarrow> shell \<Rightarrow> (u64 \<times> shell) prog" where
  "readline L sh =
     bindp (Done (strlen (prompt sh))) (\<lambda>l.
     bindp (write_fd 1 (Chars (at_prompt L) (prompt sh)) (of_int l)) (\<lambda>_.
     bindp (read_fd 0 (Chars (at_buffer L) (line_buffer sh)) BUFFERSIZE) (\<lambda>(r, b).
       ret (r, sh\<lparr>line_buffer := chars_of b\<rparr>))))"

definition process_command :: "char list \<Rightarrow> (int \<times> char list) result" where
  "process_command command =
     bindr (strsearch command LF) (\<lambda>newlind.
       if newlind < 0 then Inr (- 1, command)
       else bindr (wri command newlind NUL) (\<lambda>c. Inr (0, c)))"

text \<open>The parts of \<^verbatim>\<open>do_command\<close>: \<^verbatim>\<open>cd\<close>, the \<^verbatim>\<open>&\<close> at the end, an assignment, and the child.\<close>

definition do_cd :: "layout \<Rightarrow> shell \<Rightarrow> (int \<times> shell) prog" where
  "do_cd L sh =
     (let dir = drop 3 (line_buffer sh)
      in bindp (chdir (Chars (at_buffer L + 3) dir)) (\<lambda>r.
           if r \<noteq> 0
           then bindp (say L (''Directory '' @ [CHR 0x27] @ ''%s'' @ [CHR 0x27] @ '' not found!'' @ [LF]) [Text dir] sh)
                  (\<lambda>sh1. ret (- 1, sh1))
           else ret (0, sh)))"

definition background :: "char list \<Rightarrow> (bool \<times> char list) result" where
  "background command =
     bindr (strlen command) (\<lambda>l.
     bindr (rdi command (l - 1)) (\<lambda>c.
       if c = CHR ''&'' then bindr (wri command (l - 1) NUL) (\<lambda>c1. Inr (True, c1)) else Inr (False, command)))"

definition assign_var :: "char list \<Rightarrow> int \<Rightarrow> ushell \<Rightarrow> ushell result" where
  "assign_var word pos u =
     bindr (str_split_line word pos (heap u)) (\<lambda>((n, v), raw). var_set n v (u\<lparr>heap := raw\<rparr>))"

definition not_found :: string where
  "not_found = ''No command or binary found: '' @ [CHR 0x27] @ ''%s'' @ [CHR 0x27] @ [LF]"

fun try_paths :: "layout \<Rightarrow> char list \<Rightarrow> char list list \<Rightarrow> shell \<Rightarrow> shell prog" where
  "try_paths L word [] sh = ret sh"
| "try_paths L word (path_elem # ps) sh =
     bindp (Done (strcat (Some path_elem) (lit ''/'') (joined_filename sh) 250)) (\<lambda>(_, j).
     bindp (Done (strcat None word j 250)) (\<lambda>(_, j1).
     bindp (execve (Chars (at_joined L) j1) (Word (at_argv L)) (Word (at_envp L))) (\<lambda>_.
       try_paths L word ps (sh\<lparr>joined_filename := j1\<rparr>))))"

definition run_child :: "layout \<Rightarrow> char list list \<Rightarrow> shell \<Rightarrow> (int \<times> shell) prog" where
  "run_child L argv sh =
     bindp (Done (rd (line_buffer sh) 0)) (\<lambda>c.
       if c = CHR ''.'' \<or> c = CHR ''/''
       then bindp (execve (Chars (at_word L) (argv ! 0)) (Word (at_argv L)) (Word (at_envp L))) (\<lambda>_.
            bindp (say L not_found [Text (argv ! 0)] sh) (\<lambda>sh1.
            bindp (exit_sys 1) (\<lambda>_. ret (0, sh1))))
       else bindp (Done (get_path (sh_vars sh))) (\<lambda>path.
            bindp (Done (strsplit path (CHR '':'') (heap (sh_vars sh)))) (\<lambda>(path_list, raw).
            bindp (try_paths L (argv ! 0) path_list (sh\<lparr>sh_vars := (sh_vars sh)\<lparr>heap := raw\<rparr>\<rparr>)) (\<lambda>sh1.
            bindp (say L not_found [Text (argv ! 0)] sh1) (\<lambda>sh2.
            bindp (exit_sys 1) (\<lambda>_. ret (0, sh2)))))))"

definition wait_child :: "layout \<Rightarrow> bool \<Rightarrow> u32 \<Rightarrow> shell \<Rightarrow> (int \<times> shell) prog" where
  "wait_child L bg pid0 sh =
     (if bg then ret (0, sh)
      else bindp (waitpid pid0 (Word (at_status L)) 0) (\<lambda>_.
           Load (at_status L) (\<lambda>w. ret (sint w, sh\<lparr>last_command_status := sint w\<rparr>))))"

definition do_command :: "layout \<Rightarrow> shell \<Rightarrow> (int \<times> shell) prog" where
  "do_command L sh =
     bindp (Done (strprefix (lit ''cd '') (line_buffer sh))) (\<lambda>is_cd.
       if is_cd \<noteq> 0 then do_cd L sh
       else bindp (Done (strcomp (lit ''exit'') (line_buffer sh))) (\<lambda>d.
       if d = 0 then ret (0, sh\<lparr>exit_yet := True, exit_status := 0\<rparr>)
       else bindp (Done (background (line_buffer sh))) (\<lambda>(bg, command).
            bindp (Done (strsplit command (CHR '' '') (heap (sh_vars sh)))) (\<lambda>(argv, raw).
            let sh1 = sh\<lparr>line_buffer := command, sh_vars := (sh_vars sh)\<lparr>heap := raw\<rparr>\<rparr>
            in bindp (Done (strsearch (argv ! 0) (CHR ''=''))) (\<lambda>pos.
                 if pos \<noteq> - 1
                 then bindp (Done (assign_var (argv ! 0) pos (sh_vars sh1))) (\<lambda>u. ret (0, sh1\<lparr>sh_vars := u\<rparr>))
                 else bindp (Done (get_envp (sh_vars sh1))) (\<lambda>u.
                      let sh2 = sh1\<lparr>sh_vars := u\<rparr>
                      in bindp fork (\<lambda>pid0.
                           if pid0 \<noteq> 0 then wait_child L bg pid0 sh2 else run_child L argv sh2)))))))"

section \<open>The main loop\<close>

text \<open>At most \<open>n\<close> rounds; the answer is \<open>None\<close> when the shell has not ended by then.\<close>

fun shell_loop :: "layout \<Rightarrow> nat \<Rightarrow> shell \<Rightarrow> (int option \<times> shell) prog" where
  "shell_loop L 0 sh = ret (None, sh)"
| "shell_loop L (Suc n) sh =
     (if exit_yet sh then ret (Some (exit_status sh), sh)
      else bindp (make_prompt L sh) (\<lambda>sh1.
           bindp (readline L sh1) (\<lambda>(_, sh2).
           bindp (Done (process_command (line_buffer sh2))) (\<lambda>(r, b).
             if r \<noteq> 0 then bindp (say L (''^D'' @ [LF]) [] (sh2\<lparr>line_buffer := b\<rparr>)) (\<lambda>sh3. ret (Some 0, sh3))
             else bindp (do_command L (sh2\<lparr>line_buffer := b\<rparr>)) (\<lambda>(st, sh3).
                    shell_loop L n (sh3\<lparr>last_command_status := st\<rparr>))))))"

definition shell_main :: "layout \<Rightarrow> nat \<Rightarrow> char list list \<Rightarrow> shell \<Rightarrow> (int option \<times> shell) prog" where
  "shell_main L n envp sh = bindp (Done (parse_envp envp (sh_vars sh))) (\<lambda>u. shell_loop L n (sh\<lparr>sh_vars := u\<rparr>))"

section \<open>The prompt shows where the shell is\<close>

lemma splice_Cons: "j < length p \<Longrightarrow> splice (p[j := c]) (Suc j) xs = splice p j (c # xs)"
  by (simp add: splice_def take_Suc_conv_app_nth)

lemma splice_append: "j + length xs \<le> length p \<Longrightarrow> splice (splice p j xs) (j + length xs) ys = splice p j (xs @ ys)"
  by (simp add: splice_def ac_simps)

lemma insert_loop:
  assumes "i \<le> clen w" and "terminated w" and "j \<le> length p"
  shows "for_up i (clen w) (\<lambda>i (j, p). bindr (rd w i) (\<lambda>c. bindr (wr p j c) (\<lambda>p1. Inr (Suc j, p1)))) (j, p) =
    (if j + (clen w - i) \<le> length p then Inr (j + (clen w - i), splice p j (drop i (cstr w))) else Inl Out_Of_Bounds)"
  using assms
proof (induction "clen w - i" arbitrary: i j p)
  case 0
  then show ?case by (simp add: clen_def)
next
  case (Suc m)
  then have i: "i < clen w" by simp
  have w: "rd w i = Inr (cstr w ! i)" using i nth_cstr(1)[OF Suc.prems(2) i] clen_less[OF Suc.prems(2)] by simp
  have d: "drop i (cstr w) = cstr w ! i # drop (Suc i) (cstr w)" using i by (simp add: Cons_nth_drop_Suc clen_def)
  show ?case
  proof (cases "j < length p")
    case True
    have "for_up (Suc i) (clen w) (\<lambda>i (j, p). bindr (rd w i) (\<lambda>c. bindr (wr p j c) (\<lambda>p1. Inr (Suc j, p1)))) (Suc j, p[j := cstr w ! i]) =
        (if Suc j + (clen w - Suc i) \<le> length (p[j := cstr w ! i])
         then Inr (Suc j + (clen w - Suc i), splice (p[j := cstr w ! i]) (Suc j) (drop (Suc i) (cstr w))) else Inl Out_Of_Bounds)"
      using Suc.hyps(2) Suc.prems True i by (intro Suc.hyps(1)) simp_all
    with True i w show ?thesis unfolding d by (subst for_up_step) (auto simp: wr_def splice_Cons)
  next
    case False
    with i w Suc.prems(3) show ?thesis by (subst for_up_step) (auto simp: wr_def)
  qed
qed

lemma insert_text_spec:
  assumes "short w" and "j \<le> length p"
  shows "insert_text w (j, p) =
    (if j + clen w \<le> length p then Inr (j + clen w, splice p j (cstr w)) else Inl Out_Of_Bounds)"
  using assms insert_loop[of 0 w j p] by (simp add: insert_text_def short_def)

text \<open>What a prompt says: a backslash and \<open>u\<close>, \<open>d\<close> or \<open>S\<close> stand for the name, the directory and the status.\<close>

fun expand :: "string \<Rightarrow> string \<Rightarrow> string \<Rightarrow> string \<Rightarrow> string" where
  "expand u d st [] = []"
| "expand u d st [c] = [c]"
| "expand u d st (c # x # cs) =
     (if c = CHR 0x5C \<and> x = CHR ''u'' then u @ expand u d st cs
      else if c = CHR 0x5C \<and> x = CHR ''d'' then d @ expand u d st cs
      else if c = CHR 0x5C \<and> x = CHR ''S'' then st @ expand u d st cs
      else c # expand u d st (x # cs))"

lemma expand_plain:
  "NUL \<notin> set u \<Longrightarrow> NUL \<notin> set d \<Longrightarrow> NUL \<notin> set st \<Longrightarrow> NUL \<notin> set t \<Longrightarrow> NUL \<notin> set (expand u d st t)"
  by (induction u d st t rule: expand.induct) auto

abbreviation (input) shown :: "shell \<Rightarrow> string \<Rightarrow> string" where
  "shown sh t \<equiv> expand (cstr (user_name_str sh)) (cstr (shell_cwd sh)) (cstr (status_str sh)) t"

lemma prompt_loop_spec:
  assumes "short ps1" and "short (user_name_str sh)" and "short (shell_cwd sh)" and "short (status_str sh)"
    and "i \<le> clen ps1" and "j \<le> length p" and "t = drop i (cstr ps1)"
  shows "prompt_loop sh ps1 i j p =
    (if j + length (shown sh t) \<le> length p then Inr (j + length (shown sh t), splice p j (shown sh t)) else Inl Out_Of_Bounds)"
  using assms(5-7)
proof (induction "clen ps1 - i" arbitrary: i j p t rule: less_induct)
  case less
  have tm: "terminated ps1" and l: "strlen ps1 = Inr (int (clen ps1))" using assms(1) by (simp_all add: short_def)
  show ?case
  proof (cases "i < clen ps1")
    case False
    then show ?thesis using less.prems l by (subst prompt_loop.simps) (simp add: clen_def)
  next
    case True
    let ?c = "cstr ps1 ! i"
    have c: "rd ps1 i = Inr ?c" using True nth_cstr(1)[OF tm True] clen_less[OF tm] by simp
    have d: "drop i (cstr ps1) = ?c # drop (Suc i) (cstr ps1)" using True by (simp add: Cons_nth_drop_Suc clen_def)
    have x: "rd ps1 (Suc i) = Inr (if Suc i < clen ps1 then cstr ps1 ! Suc i else NUL)"
    proof (cases "Suc i < clen ps1")
      case False
      then have "Suc i = clen ps1" using True by simp
      then show ?thesis using clen_less[OF tm] nth_cstr(2)[OF tm] by simp
    qed (use nth_cstr(1)[OF tm, of "Suc i"] clen_less[OF tm] in simp)
    have plain: ?thesis if "prompt_loop sh ps1 i j p = bindr (wr p j ?c) (\<lambda>p1. prompt_loop sh ps1 (Suc i) (Suc j) p1)"
      and "shown sh t = ?c # shown sh (drop (Suc i) (cstr ps1))"
    proof (cases "j < length p")
      case False
      then show ?thesis using that by (simp add: wr_def)
    next
      case j: True
      have "prompt_loop sh ps1 (Suc i) (Suc j) (p[j := ?c]) = (let u = shown sh (drop (Suc i) (cstr ps1)) in
          if Suc j + length u \<le> length p then Inr (Suc j + length u, splice (p[j := ?c]) (Suc j) u) else Inl Out_Of_Bounds)"
        using less.hyps[of "Suc i" "Suc j" "p[j := ?c]", OF _ _ _ refl] True j by (simp add: Let_def)
      then show ?thesis using that j by (simp add: wr_def Let_def splice_Cons)
    qed
    have inserted: ?thesis if "prompt_loop sh ps1 i j p = bindr (insert_text w (j, p)) (\<lambda>(j1, p1). prompt_loop sh ps1 (i + 2) j1 p1)"
      and "Suc i < clen ps1" and "shown sh t = cstr w @ shown sh (drop (i + 2) (cstr ps1))" and "short w" for w
    proof (cases "j + clen w \<le> length p")
      case False
      then show ?thesis using that less.prems(2) by (simp add: insert_text_spec clen_def)
    next
      case j: True
      have "prompt_loop sh ps1 (i + 2) (j + clen w) (splice p j (cstr w)) = (let u = shown sh (drop (i + 2) (cstr ps1)) in
          if j + clen w + length u \<le> length p then Inr (j + clen w + length u, splice (splice p j (cstr w)) (j + clen w) u)
          else Inl Out_Of_Bounds)"
        using less.hyps[of "i + 2" "j + clen w" "splice p j (cstr w)", OF _ _ _ refl] that(2) j by (simp add: Let_def clen_def)
      then show ?thesis using that j less.prems(2) splice_append[of j "cstr w" p]
        by (simp add: insert_text_spec Let_def clen_def add.assoc)
    qed
    show ?thesis
    proof (cases "?c = CHR 0x5C \<and> Suc i < clen ps1")
      case True
      then have d2: "drop (Suc i) (cstr ps1) = cstr ps1 ! Suc i # drop (i + 2) (cstr ps1)"
        by (simp add: Cons_nth_drop_Suc clen_def)
      consider "cstr ps1 ! Suc i = CHR ''u''" | "cstr ps1 ! Suc i = CHR ''d''" | "cstr ps1 ! Suc i = CHR ''S''"
        | "cstr ps1 ! Suc i \<notin> {CHR ''u'', CHR ''d'', CHR ''S''}" by blast
      then show ?thesis
      proof cases
        case 1
        show ?thesis using True 1 less.prems(3) \<open>i < clen ps1\<close> l c x assms(2) unfolding d d2
          by (intro inserted[of "user_name_str sh"]) (simp_all add: prompt_loop.simps[of sh ps1 i])
      next
        case 2
        show ?thesis using True 2 less.prems(3) \<open>i < clen ps1\<close> l c x assms(3) unfolding d d2
          by (intro inserted[of "shell_cwd sh"]) (simp_all add: prompt_loop.simps[of sh ps1 i])
      next
        case 3
        show ?thesis using True 3 less.prems(3) \<open>i < clen ps1\<close> l c x assms(4) unfolding d d2
          by (intro inserted[of "status_str sh"]) (simp_all add: prompt_loop.simps[of sh ps1 i])
      next
        case 4
        show ?thesis using True 4 less.prems(3) \<open>i < clen ps1\<close> l c x unfolding d d2
          by (intro plain) (auto simp: prompt_loop.simps[of sh ps1 i] d2)
      qed
    next
      case False
      have "shown sh t = ?c # shown sh (drop (Suc i) (cstr ps1))"
      proof (cases "Suc i < clen ps1")
        case True
        then have "drop (Suc i) (cstr ps1) = cstr ps1 ! Suc i # drop (Suc (Suc i)) (cstr ps1)"
          by (simp add: Cons_nth_drop_Suc clen_def)
        then show ?thesis using False True less.prems(3) unfolding d by simp
      next
        case f: False
        then show ?thesis using less.prems(3) unfolding d by (simp add: clen_def)
      qed
      moreover have "prompt_loop sh ps1 i j p = bindr (wr p j ?c) (\<lambda>p1. prompt_loop sh ps1 (Suc i) (Suc j) p1)"
        using False l c x \<open>i < clen ps1\<close> by (auto simp: prompt_loop.simps[of sh ps1 i])
      ultimately show ?thesis by (intro plain)
    qed
  qed
qed

lemma named_ends: "length t < length p \<Longrightarrow> terminated (named p t) \<and> length (named p t) = length p"
  by (simp add: named_def)

lemma get_formatted_prompt_spec:
  assumes "val_of (lit ''PS1'') (sh_vars sh) = Inr ps1" and "short ps1" and "short (user_name_str sh)"
    and "short (shell_cwd sh)" and "short (status_str sh)"
  shows "get_formatted_prompt sh = (if length (shown sh (cstr ps1)) < length (prompt sh)
     then Inr (sh\<lparr>prompt := named (prompt sh) (shown sh (cstr ps1))\<rparr>) else Inl Out_Of_Bounds)"
proof -
  have "prompt_loop sh ps1 0 0 (prompt sh) = (let u = shown sh (cstr ps1) in
      if length u \<le> length (prompt sh) then Inr (length u, splice (prompt sh) 0 u) else Inl Out_Of_Bounds)"
    using prompt_loop_spec[OF assms(2-5), of 0 0 "prompt sh" "cstr ps1"] by (simp add: Let_def)
  then show ?thesis using assms(1) splice_snoc[of 0 "shown sh (cstr ps1)" "prompt sh" NUL]
    by (auto simp: get_formatted_prompt_def Let_def wr_def named_def)
qed

lemma getusrnm_spec:
  assumes "val_of (lit ''USER'') u = Inr v" and "short v" and "cstr v \<noteq> []" and "clen v < length b"
    and "terminated (drop (clen v) b)"
  obtains b' where "getusrnm b n u = Inr (- 1, b')" and "terminated b'" and "cstr b' = cstr v @ cstr (drop (clen v) b)"
    and "length b' = length b"
proof -
  have "strcpy v 0 b = Inr (clen v, splice b 0 (cstr v))" using assms by (intro strcpy_text) (simp_all add: short_def)
  then have g: "getusrnm b n u = Inr (- 1, cstr v @ drop (clen v) b)"
    using assms(1) by (simp add: getusrnm_def splice_def clen_def)
  have t: "terminated (cstr v @ drop (clen v) b)" using assms(5) by (simp add: terminated_def)
  show thesis using assms(4) by (intro that[OF g t]) (simp_all add: cstr_append clen_def)
qed

lemma status_text_plain:
  assumes "- (2 ^ 31) \<le> i" and "i < 2 ^ 31"
  shows "NUL \<notin> set (status_text i)" and "length (status_text i) \<le> 10"
proof -
  have "number_text 10 n = digits 10 n \<or> n = 0" for n by (simp add: number_text_def)
  then show "NUL \<notin> set (status_text i)"
    using below_zero_digits[of "nat (- i)"] number_text_plain[of 10 "nat i"] by (auto simp: status_text_def number_text_def)
  have "length (number_text 10 (nat (- i))) \<le> 10" "length (number_text 10 (nat i)) \<le> 10"
    using assms by (auto intro!: length_number_text)
  then show "length (status_text i) \<le> 10" by (simp add: status_text_def)
qed

text \<open>C26: The prompt that \<^verbatim>\<open>make_prompt\<close> builds is \<^verbatim>\<open>PS1\<close> with its three directives replaced by the name of the user (and
  what is left of a longer one), the working directory that the kernel keeps for the process, and \<open>status_text\<close> of the status of the
  last command: its decimal digits, or, if it is negative, the characters at the same distance below \<^verbatim>\<open>'0'\<close> and no sign, so that
  the status -1 of a \<^verbatim>\<open>cd\<close> that failed is a slash. A prompt of 250 characters or more is written behind its array. (\<^verbatim>\<open>USER\<close> is set to a text
  that is shorter than its buffer, and the working directory has at most 250 characters.)\<close>

theorem make_prompt_expands:
  assumes "active_blk k = Inr x" and "terminated (wd x)" and "clen (wd x) < length (shell_cwd sh)" and "clen (wd x) \<le> 250"
    and "- (2 ^ 31) \<le> last_command_status sh" and "last_command_status sh < 2 ^ 31" and "12 \<le> length (status_str sh)"
    and "val_of (lit ''USER'') (sh_vars sh) = Inr v" and "short v" and "cstr v \<noteq> []" and "clen v < length (user_name_str sh)"
    and "terminated (drop (clen v) (user_name_str sh))" and "length (user_name_str sh) = 30"
    and "val_of (lit ''PS1'') (sh_vars sh) = Inr ps1" and "short ps1"
  shows "let t = expand (cstr v @ cstr (drop (clen v) (user_name_str sh))) (cstr (wd x)) (status_text (last_command_status sh)) (cstr ps1) in
    if length t < length (prompt sh)
    then \<exists>sh'. run e (make_prompt L sh) k = Finished sh' k \<and> cstr (prompt sh') = t \<and> terminated (prompt sh') \<and>
      sh_vars sh' = sh_vars sh \<and> line_buffer sh' = line_buffer sh \<and> length (prompt sh') = length (prompt sh)
    else run e (make_prompt L sh) k = Failed Out_Of_Bounds"
proof -
  have "int (clen (wd x)) \<le> int_arg 250" using assms(4) by (simp add: int_arg_def)
  from getcwd_run[OF assms(1-3) this, of "at_cwd L"] obtain c where
    c: "do_getcwd (Chars (at_cwd L) (shell_cwd sh)) 250 k = Inr (Ret (at_cwd L) (Chars (at_cwd L) c), k)" "terminated c"
    "cstr c = cstr (wd x)" by blast
  then have g: "run e (getcwd (Chars (at_cwd L) (shell_cwd sh)) 250) k = Finished (at_cwd L, Chars (at_cwd L) c) k"
    by (simp add: getcwd_def syscall_2_def syscall_3_def do_system_call_def)
  from itoa_writes_status[OF assms(5-7)] obtain s where
    s: "itoa (status_str sh) (last_command_status sh) = Inr (0, s)" "terminated s" "cstr s = status_text (last_command_status sh)" by blast
  obtain b where b: "getusrnm (user_name_str sh) 30 (sh_vars sh) = Inr (- 1, b)" "terminated b"
    "cstr b = cstr v @ cstr (drop (clen v) (user_name_str sh))" "length b = length (user_name_str sh)"
    by (rule getusrnm_spec[OF assms(8-12)])
  let ?sh = "sh\<lparr>shell_cwd := c, status_str := s, user_name_str := b\<rparr>"
  have r: "run e (make_prompt L sh) k = run e (Done (get_formatted_prompt ?sh)) k"
    unfolding make_prompt_def by (simp add: run_bindp_Finished[OF g] s(1) b(1))
  note st = status_text_plain[OF assms(5,6)]
  have sh: "short (user_name_str ?sh)" "short (shell_cwd ?sh)" "short (status_str ?sh)"
    using b c s assms(4,13) clen_less[OF b(2)] st(2) by (simp_all add: short_def clen_def)
  have p: "val_of (lit ''PS1'') (sh_vars ?sh) = Inr ps1" using assms(14) by simp
  note f = get_formatted_prompt_spec[OF p assms(15) sh]
  let ?t = "expand (cstr v @ cstr (drop (clen v) (user_name_str sh))) (cstr (wd x)) (status_text (last_command_status sh)) (cstr ps1)"
  have t: "shown ?sh (cstr ps1) = ?t" using b(3) c(3) s(3) by simp
  show ?thesis
  proof (cases "length ?t < length (prompt sh)")
    case True
    have "NUL \<notin> set ?t" using st(1) by (intro expand_plain) simp_all
    then show ?thesis using True r f t named_ends[OF True] by (simp add: Let_def cstr_named)
  next
    case False
    then show ?thesis using r f t by (simp add: Let_def)
  qed
qed

definition demo_shell :: shell where
  "demo_shell = \<lparr>exit_yet = False, exit_status = 0, prompt = replicate 250 NUL, line_buffer = replicate 250 NUL,
     shell_cwd = replicate 250 NUL, joined_filename = replicate 250 NUL, last_command_status = 0,
     status_str = replicate 15 NUL, user_name_str = replicate 30 NUL,
     sh_vars = \<lparr>vars = [(lit ''PS1'', lit default_prompt), (lit ''PATH'', lit ''/bin''), (lit ''USER'', lit ''root'')],
       heap = zeros, envp_copy = replicate 15 None\<rparr>,
     print_buffer = replicate 30 NUL\<rparr>"

definition demo_layout :: layout where
  "demo_layout = \<lparr>at_prompt = 0x601000, at_buffer = 0x602000, at_cwd = 0x603000, at_joined = 0x604000, at_status = 0x605000,
     at_text = 0x606000, at_word = 0x607000, at_argv = 0x608000, at_envp = 0x609000\<rparr>"

lemma demo_vars:
  "vars_ok (sh_vars demo_shell)" "val_of (lit ''PS1'') (sh_vars demo_shell) = Inr (lit default_prompt)"
  "val_of (lit ''USER'') (sh_vars demo_shell) = Inr (lit ''root'')" "heap (sh_vars demo_shell) = zeros"
proof -
  show v: "vars_ok (sh_vars demo_shell)" by (simp add: vars_ok_def demo_shell_def default_prompt_def)
  have f: "var_find (lit nm) (sh_vars demo_shell) = Inr (Some i)" if
    "nm = ''PS1'' \<and> i = 0 \<or> nm = ''USER'' \<and> i = 2" for nm i
    using that v find_loop_spec[of "lit nm" "vars (sh_vars demo_shell)" 0]
    by (auto simp: var_find_def vars_ok_def demo_shell_def)
  show "val_of (lit ''PS1'') (sh_vars demo_shell) = Inr (lit default_prompt)" "val_of (lit ''USER'') (sh_vars demo_shell) = Inr (lit ''root'')"
    by (simp_all add: val_of_def f) (simp_all add: demo_shell_def)
  show "heap (sh_vars demo_shell) = zeros" by (simp add: demo_shell_def)
qed

theorem make_prompt_expands_witness:
  "(\<exists>sh'. run demo_env (make_prompt demo_layout demo_shell) root_kernel = Finished sh' root_kernel \<and>
      cstr (prompt sh') = ''root@sbush:/-(0)->'') \<and>
   (\<exists>sh'. run demo_env (make_prompt demo_layout (demo_shell\<lparr>last_command_status := - 1\<rparr>)) root_kernel = Finished sh' root_kernel \<and>
      cstr (prompt sh') = ''root@sbush:/-(/)->'')"
proof -
  have built: "\<exists>sh'. run demo_env (make_prompt demo_layout (demo_shell\<lparr>last_command_status := i\<rparr>)) root_kernel = Finished sh' root_kernel \<and>
      cstr (prompt sh') = ''root@sbush:/-('' @ status_text i @ '')->''"
    if i: "- (2 ^ 31) \<le> i" "i < 2 ^ 31" "length (status_text i) = 1" for i
  proof -
    let ?sh = "demo_shell\<lparr>last_command_status := i\<rparr>"
    note f = root_kernel_fields shell_block_fields
    have l: "clen (wd shell_block) < length (shell_cwd ?sh)" "clen (wd shell_block) \<le> 250"
      "- (2 ^ 31) \<le> last_command_status ?sh" "last_command_status ?sh < 2 ^ 31" "12 \<le> length (status_str ?sh)"
      using i by (simp_all add: f clen_def demo_shell_def)
    have u: "short (lit ''root'')" "cstr (lit ''root'') \<noteq> []" "clen (lit ''root'') < length (user_name_str ?sh)"
      "terminated (drop (clen (lit ''root'')) (user_name_str ?sh))" "length (user_name_str ?sh) = 30"
      by (simp_all add: demo_shell_def clen_def terminated_def)
    have v: "val_of (lit ''USER'') (sh_vars ?sh) = Inr (lit ''root'')" "val_of (lit ''PS1'') (sh_vars ?sh) = Inr (lit default_prompt)"
      using demo_vars by simp_all
    have p: "short (lit default_prompt)" by (simp add: default_prompt_def)
    have d: "cstr (drop (clen (lit ''root'')) (user_name_str ?sh)) = []" by (simp add: demo_shell_def clen_def cstr_def)
    have e: "expand (cstr (lit ''root'') @ cstr (drop (clen (lit ''root'')) (user_name_str ?sh))) (cstr (wd shell_block))
        (status_text (last_command_status ?sh)) (cstr (lit default_prompt)) = ''root@sbush:/-('' @ status_text i @ '')->''"
      unfolding d by (simp add: f default_prompt_def)
    have "length (''root@sbush:/-('' @ status_text i @ '')->'') < length (prompt ?sh)" using i(3) by (simp add: demo_shell_def)
    with make_prompt_expands[OF f(2) f(8) l v(1) u v(2) p, where e = demo_env and L = demo_layout]
    show ?thesis unfolding e Let_def by (simp only: if_True) blast
  qed
  have z: "status_text 0 = ''0''" "status_text (- 1) = ''/''" by code_simp+
  have s0: "demo_shell\<lparr>last_command_status := 0\<rparr> = demo_shell" by (simp add: demo_shell_def)
  show ?thesis using built[of 0] built[of "- 1"] unfolding z s0 by simp
qed

section \<open>Commands\<close>

lemma prefix_loop_spec:
  assumes "terminated pre" and "terminated str" and "i \<le> clen pre" and "i \<le> clen str" and "take i (cstr pre) = take i (cstr str)"
  shows "prefix_loop pre str (int (clen pre)) i = Inr (if take (clen pre) (cstr str) = cstr pre then - 1 else 0)"
  using assms(3-5)
proof (induction "clen pre - i" arbitrary: i)
  case 0
  then have "take (clen pre) (cstr str) = cstr pre" by (simp add: clen_def)
  then show ?case using 0 by (subst prefix_loop.simps) simp
next
  case (Suc m)
  then have i: "i < clen pre" by simp
  have p: "rd pre i = Inr (cstr pre ! i)" "cstr pre ! i \<noteq> NUL"
    using i nth_cstr(1)[OF assms(1) i] clen_less[OF assms(1)] by simp (metis NUL_notin_cstr clen_def i nth_mem)
  show ?case
  proof (cases "i < clen str \<and> cstr str ! i = cstr pre ! i")
    case True
    then have s: "rd str i = Inr (cstr pre ! i)" using nth_cstr(1)[OF assms(2)] clen_less[OF assms(2)] by simp
    have "take (Suc i) (cstr pre) = take (Suc i) (cstr str)" using True i Suc.prems(3) by (simp add: take_Suc_conv_app_nth clen_def)
    then have "prefix_loop pre str (int (clen pre)) (Suc i) = Inr (if take (clen pre) (cstr str) = cstr pre then - 1 else 0)"
      using Suc.hyps(2) True i by (intro Suc.hyps(1)) simp_all
    then show ?thesis using i p s by (subst prefix_loop.simps) simp
  next
    case False
    have "rd str i = Inr (if i < clen str then cstr str ! i else NUL)"
    proof (cases "i < clen str")
      case False
      then have "i = clen str" using Suc.prems(2) by simp
      then show ?thesis using clen_less[OF assms(2)] nth_cstr(2)[OF assms(2)] by simp
    qed (use nth_cstr(1)[OF assms(2)] clen_less[OF assms(2)] in simp)
    moreover have "take (clen pre) (cstr str) \<noteq> cstr pre"
    proof
      assume t: "take (clen pre) (cstr str) = cstr pre"
      then have "length (take (clen pre) (cstr str)) = clen pre" by (simp add: clen_def)
      then have l: "i < clen str" using i by (simp add: clen_def)
      have "cstr pre ! i = cstr str ! i" using t i by (metis nth_take)
      then show False using l False by simp
    qed
    ultimately show ?thesis using i p False by (subst prefix_loop.simps) auto
  qed
qed

lemma strprefix_spec:
  "short pre \<Longrightarrow> terminated str \<Longrightarrow> strprefix pre str = Inr (if take (clen pre) (cstr str) = cstr pre then - 1 else 0)"
  using prefix_loop_spec[of pre str 0] by (simp add: strprefix_def short_def)

lemma say_prints:
  assumes "length (print_buffer sh) = 30" and "NUL \<notin> set fmt" and "u_render fmt args 0 = Some out"
  obtains b where "prints e (say L fmt args sh) out (sh\<lparr>print_buffer := b\<rparr>)" and "length b = 30"
proof -
  from u_printf_renders[OF assms(2,1,3), of e "at_text L" "[]" 0] obtain b where
    b: "prints e (u_printf (at_text L) (lit fmt) args (print_buffer sh)) out (length out, b)" "length b = 30"
    by (auto simp: u_printf_def lit_def)
  have "prints e (say L fmt args sh) (out @ []) (sh\<lparr>print_buffer := b\<rparr>)"
    unfolding say_def by (rule prints_bind[OF b(1)]) (simp add: prints_ret)
  then show thesis using b(2) by (intro that[of b]) simp_all
qed

lemma on_screen_kernel [simp]:
  fixes k :: kernel
  shows "sched_of (on_screen scr k) = sched_of k" and "active_blk (on_screen scr k) = active_blk k"
  by (simp_all add: on_screen_def active_blk_def)

text \<open>C25: \<^verbatim>\<open>cd\<close> with a path changes the working directory of the process to its normal form when that is a directory of
  the archive and returns 0; otherwise it prints a message, returns -1 and the process stays where it is.\<close>

theorem cd_command:
  assumes "terminated (line_buffer sh)" and "cstr (line_buffer sh) = ''cd '' @ p" and "length (print_buffer sh) = 30"
    and "console_ok (screen (io k))"
    and "active_blk k = Inr x" and "length (Interrupts.abspath k) = 100" and "length (path_temp k) = 100"
    and "terminated (wd x)" and "cstr (wd x) = CHR ''/'' # w"
    and "t = merged (cstr (wd x)) p" and "length t < 99" and "length (split_slash t) \<le> 14"
    and "fs_ok (files k) es" and "sizes_ok es" and "length (wd x) = 50" and "length (dir_path t) < 50"
  shows "if names_dir es (dir_path t)
    then \<exists>k' y. run e (do_command L sh) k = Finished (0, sh) k' \<and> active_blk k' = Inr y \<and> cstr (wd y) = dir_path t
    else \<exists>k' b. run e (do_command L sh) k = Finished (- 1, sh\<lparr>print_buffer := b\<rparr>) k' \<and> active_blk k' = Inr x \<and>
      write_all (''Directory '' @ [CHR 0x27] @ p @ [CHR 0x27] @ '' not found!'' @ [LF]) (screen (io k)) = Inr (screen (io k'))"
proof -
  let ?d = "drop 3 (line_buffer sh)"
  obtain r where l: "line_buffer sh = (''cd '' @ p) @ NUL # r" "NUL \<notin> set (''cd '' @ p)"
    using assms(1,2) by (metis terminatedE)
  have d: "terminated ?d" "cstr ?d = p" using l by simp_all
  have pre: "strprefix (lit ''cd '') (line_buffer sh) = Inr (- 1)"
    using strprefix_spec[of "lit ''cd ''" "line_buffer sh"] assms(1,2) by (simp add: clen_def)
  have t: "t = merged (cstr (wd x)) (cstr ?d)" using assms(10) d(2) by simp
  obtain ab tmp where c: "do_chdir (Chars (at_buffer L + 3) ?d) k = Some (Inr (if names_dir es (dir_path t)
      then (Ret 0 (Word 0), set_sched (put_pcb (active_pcb (sched_of k)) (x\<lparr>wd := named (wd x) (dir_path t)\<rparr>) (sched_of k))
              (k\<lparr>abspath := ab, path_temp := tmp\<rparr>))
      else (Ret 1 (Word 0), k\<lparr>abspath := ab, path_temp := tmp\<rparr>)))" "cstr ab = dir_path t"
    by (rule chdir_run[OF assms(5-9) d(1) t assms(11-16)])
  have n: "NUL \<notin> set (dir_path t)" unfolding c(2)[symmetric] by simp
  note defs = do_command_def pre do_cd_def chdir_def syscall_1_def syscall_3_def do_system_call_def c(1) run_bindp int_arg_def Let_def
  show ?thesis
  proof (cases "names_dir es (dir_path t)")
    case True
    let ?y = "x\<lparr>wd := named (wd x) (dir_path t)\<rparr>"
    let ?k = "set_sched (put_pcb (active_pcb (sched_of k)) ?y (sched_of k)) (k\<lparr>abspath := ab, path_temp := tmp\<rparr>)"
    have "active_blk ?k = Inr ?y" using assms(5) by (elim active_blkE) (simp add: active_blk_def deref_def)
    moreover have "run e (do_command L sh) k = Finished (0, sh) ?k" using True by (simp add: defs)
    ultimately show ?thesis using True cstr_named[OF n] by (simp only: if_True) auto
  next
    case False
    let ?k = "k\<lparr>abspath := ab, path_temp := tmp\<rparr>"
    let ?fmt = "''Directory '' @ [CHR 0x27] @ ''%s'' @ [CHR 0x27] @ '' not found!'' @ [LF]"
    have u: "u_render ?fmt [Text ?d] 0 = Some (''Directory '' @ [CHR 0x27] @ p @ [CHR 0x27] @ '' not found!'' @ [LF])"
      using d by simp
    have nf: "NUL \<notin> set ?fmt" by simp
    obtain b where b: "prints e (say L ?fmt [Text ?d] sh) (''Directory '' @ [CHR 0x27] @ p @ [CHR 0x27] @ '' not found!'' @ [LF])
        (sh\<lparr>print_buffer := b\<rparr>)" by (rule say_prints[OF assms(3) nf u])
    have ok: "console_ok (screen (io ?k))" using assms(4) by simp
    obtain scr where s: "write_all (''Directory '' @ [CHR 0x27] @ p @ [CHR 0x27] @ '' not found!'' @ [LF]) (screen (io ?k)) = Inr scr"
      "run e (say L ?fmt [Text ?d] sh) ?k = Finished (sh\<lparr>print_buffer := b\<rparr>) (on_screen scr ?k)"
      by (rule prints_run[OF b ok])
    have "run e (do_command L sh) k = Finished (- 1, sh\<lparr>print_buffer := b\<rparr>) (on_screen scr ?k)"
      using False s(2) by (simp add: defs)
    moreover have "active_blk (on_screen scr ?k) = Inr x" using assms(5) by (simp add: active_blk_def)
    ultimately show ?thesis using False s(1) by (simp only: if_False) auto
  qed
qed

subsection \<open>Words of a line\<close>

lemma parts_loop_zeros: "parts_loop str d room i l res zeros = Inr (ps, raw) \<Longrightarrow> raw = zeros"
proof (induction "length str - i" arbitrary: i l res d rule: less_induct)
  case less
  show ?case
    using less.prems
    by (subst (asm) parts_loop.simps)
      (auto simp: rd_def Let_def split: if_splits dest!: less.hyps[of "Suc i", rotated])
qed

lemma strsplit_zeros:
  assumes "strsplit s d zeros = Inr (ps, raw)"
  shows "raw = zeros"
  using assms parts_loop_zeros by (auto simp: strsplit_def)

lemma strsplit_words:
  assumes "short s" and "d \<noteq> NUL"
  obtains ps where "strsplit s d zeros = Inr (ps, zeros)" and "map cstr ps = split_on d (cstr s)" and "\<forall>p\<in>set ps. short p"
proof -
  have t: "terminated s" "clen s < MAX_STR_LEN" using assms(1) by (simp_all add: short_def)
  from strsplit_runs[OF t assms(2), of zeros] obtain ps raw where
    ps: "strsplit s d zeros = Inr (ps, raw)" "map cstr ps = split_on d (cstr s)" "\<forall>p\<in>set ps. terminated p" by blast
  have "clen p < MAX_STR_LEN" if "p \<in> set ps" for p
  proof -
    have "cstr p \<in> set (split_on d (cstr s))" using that ps(2) by (metis image_eqI set_map)
    then have "length (cstr p) \<le> length (cstr s)" by (rule split_on_le)
    then show ?thesis using t(2) by (simp add: clen_def)
  qed
  then show thesis using ps strsplit_zeros[OF ps(1)] that by (auto simp: short_def)
qed

lemma background_spec:
  assumes "short line" and "cstr line = c @ (if bg then ''&'' else [])" and "\<not> bg \<Longrightarrow> c \<noteq> [] \<and> last c \<noteq> CHR ''&''"
  obtains line' where "background line = Inr (bg, line')" and "short line'" and "cstr line' = c"
proof -
  obtain r where l: "line = cstr line @ NUL # r" using assms(1) by (auto simp: short_def terminated_split)
  have n: "NUL \<notin> set c" using NUL_notin_cstr[of line] unfolding assms(2) by simp
  have sl: "strlen line = Inr (int (clen line))" using assms(1) by (simp add: short_def)
  show thesis
  proof (cases bg)
    case True
    then have lc: "line = c @ CHR ''&'' # NUL # r" "clen line = Suc (length c)" using l assms(2) by (simp_all add: clen_def)
    have i: "int (clen line) - 1 = int (length c)" using lc(2) by simp
    have "rdi line (int (length c)) = Inr (CHR ''&'')" "wri line (int (length c)) NUL = Inr (c @ NUL # NUL # r)"
      unfolding rdi_at wri_at lc(1) by (simp_all add: wr_def nth_append)
    then have "background line = Inr (True, c @ NUL # NUL # r)" using sl by (simp add: background_def i)
    then show thesis using True n assms(1) lc(2) by (intro that[of "c @ NUL # NUL # r"]) (simp_all add: short_def clen_def)
  next
    case False
    then have c: "c \<noteq> []" "last c \<noteq> CHR ''&''" "line = c @ NUL # r" "clen line = length c" using l assms(2,3) by (simp_all add: clen_def)
    have "rdi line (int (length c) - 1) = Inr (last c)"
    proof -
      have "int (length c) - 1 = int (length c - 1)" using c(1) by (cases c) simp_all
      then have "rdi line (int (length c) - 1) = rd line (length c - 1)" by (simp only: rdi_at)
      also have "\<dots> = Inr (last c)" using c(1) unfolding c(3) by (simp add: rd_def nth_append last_conv_nth)
      finally show ?thesis .
    qed
    then have "background line = Inr (False, line)" using sl c(2,4) by (simp add: background_def)
    then show thesis using False assms(1,2) by (intro that[of line]) simp_all
  qed
qed

text \<open>
  A line that runs a program: not \<^verbatim>\<open>cd\<close>, not \<^verbatim>\<open>exit\<close>, no assignment in its first word, and variables that fit into
  the environment. \<open>c\<close> is the line without the \<^verbatim>\<open>&\<close>.
\<close>

definition runs_program :: "shell \<Rightarrow> string \<Rightarrow> bool \<Rightarrow> bool" where
  "runs_program sh c bg =
     (short (line_buffer sh) \<and> cstr (line_buffer sh) = c @ (if bg then ''&'' else []) \<and>
      (bg \<or> c \<noteq> [] \<and> last c \<noteq> CHR ''&'') \<and>
      take 3 (cstr (line_buffer sh)) \<noteq> ''cd '' \<and> cstr (line_buffer sh) \<noteq> ''exit'' \<and>
      CHR ''='' \<notin> set (hd (split_on (CHR '' '') c)) \<and>
      heap (sh_vars sh) = zeros \<and> length (vars (sh_vars sh)) \<le> 15 \<and> (\<forall>x\<in>set (vars (sh_vars sh)). fits x))"

lemma do_command_forks:
  assumes "runs_program sh c bg"
  obtains argv line' u where "do_command L sh = (let sh' = sh\<lparr>line_buffer := line', sh_vars := u\<rparr>
      in bindp fork (\<lambda>pid0. if pid0 \<noteq> 0 then wait_child L bg pid0 sh' else run_child L argv sh'))"
    and "map cstr argv = split_on (CHR '' '') c" and "\<forall>p\<in>set argv. short p" and "cstr line' = c" and "short line'"
    and "vars u = vars (sh_vars sh)" and "heap u = zeros"
proof -
  note a = assms[unfolded runs_program_def]
  let ?u = "(sh_vars sh)\<lparr>envp_copy := map (\<lambda>x. Some (entry x)) (vars (sh_vars sh)) @ drop (length (vars (sh_vars sh))) (replicate 15 None),
    heap := zeros\<rparr>"
  have t: "terminated (line_buffer sh)" "short (line_buffer sh)" using a by (simp_all add: short_def)
  have cd: "strprefix (lit ''cd '') (line_buffer sh) = Inr 0"
  proof -
    have "take 3 (cstr (line_buffer sh)) \<noteq> ''cd ''" using a by blast
    then have "take (clen (lit ''cd '')) (cstr (line_buffer sh)) \<noteq> cstr (lit ''cd '')" by (simp add: clen_def numeral_3_eq_3)
    then show ?thesis using strprefix_spec[of "lit ''cd ''" "line_buffer sh"] t(1) by simp
  qed
  have ex: "short (lit ''exit'')" by simp
  obtain d where d: "strcomp (lit ''exit'') (line_buffer sh) = Inr d" "d = 0 \<longleftrightarrow> cstr (lit ''exit'') = cstr (line_buffer sh)"
    by (rule strcomp_zero[OF ex t(2)])
  then have d0: "d \<noteq> 0" using a by auto
  have c: "cstr (line_buffer sh) = c @ (if bg then ''&'' else [])" "\<not> bg \<Longrightarrow> c \<noteq> [] \<and> last c \<noteq> CHR ''&''" using a by blast+
  obtain line' where l: "background (line_buffer sh) = Inr (bg, line')" "short line'" "cstr line' = c"
    by (rule background_spec[OF t(2) c])
  have sp: "CHR '' '' \<noteq> NUL" by simp
  obtain argv where ps: "strsplit line' (CHR '' '') zeros = Inr (argv, zeros)" "map cstr argv = split_on (CHR '' '') (cstr line')"
    "\<forall>p\<in>set argv. short p" by (rule strsplit_words[OF l(2) sp])
  have "split_on (CHR '' '') c \<noteq> []" using length_split_on[of "CHR '' ''" c] by (metis length_0_conv nat.distinct(1))
  then have ne: "argv \<noteq> []" using ps(2) l(3) by auto
  then have h: "cstr (argv ! 0) = hd (split_on (CHR '' '') c)" using ps(2) l(3) by (metis hd_conv_nth hd_map)
  have s0: "short (argv ! 0)" using ps(3) ne by simp
  have eq: "strsearch (argv ! 0) (CHR ''='') = Inr (- 1)" using strsearch_spec[OF s0, of "CHR ''=''"] h a by simp
  have g: "get_envp ((sh_vars sh)\<lparr>heap := zeros\<rparr>) = Inr ?u"
    using envp_loop_spec[of "vars (sh_vars sh)" 0 "replicate 15 None"] a by (simp add: get_envp_def)
  have z: "heap (sh_vars sh) = zeros" using a by blast
  have "do_command L sh = (let sh' = sh\<lparr>line_buffer := line', sh_vars := ?u\<rparr>
      in bindp fork (\<lambda>pid0. if pid0 \<noteq> 0 then wait_child L bg pid0 sh' else run_child L argv sh'))"
    using d0 by (simp add: do_command_def cd d(1) l(1) z ps(1) eq g Let_def)
  then show thesis using ps(2,3) l(2,3) by (intro that[where line' = line' and u = ?u and argv = argv]) simp_all
qed

lemma fork_call: "bindp fork f = Call 57 (Word 0) (Word 0) (Word 0) (\<lambda>r. f (ucast (fst r)))"
  by (auto simp: fork_def syscall_0_def syscall_3_def split: prod.splits)

text \<open>C19: A program runs in a child: after the fork the shell itself waits in \<^verbatim>\<open>waitpid\<close> for exactly this child, its
  place for the status announced to the kernel, and when the kernel lets it go on, the command returns the low 32 bits
  of the status of the child. With \<^verbatim>\<open>&\<close> at the end of the line it returns 0 at once.\<close>

theorem command_waits_for_child:
  assumes "runs_program sh c bg" and "active_blk k = Inr x"
  shows "\<exists>g h. do_command L sh = Call 57 (Word 0) (Word 0) (Word 0) g \<and>
    (\<forall>child b. (ucast child :: u32) \<noteq> 0 \<longrightarrow>
      (if bg then \<exists>sh'. run e (g (child, b)) k = Finished (0, sh') k
       else \<exists>k1. run e (g (child, b)) k = Blocked In_Wait h k1 \<and> active_blk k1 =
         Inr (x\<lparr>waiting_on_pid := ucast child, status := WAITING, status_return := at_status L\<rparr>))) \<and>
    (\<forall>k2 p fs S st. told (sched_of k2) (active_pcb (sched_of k2)) st (at_status L) \<and> active_pcb (sched_of k2) \<noteq> 0 \<and>
        user_ok k2 p fs S \<and> (\<forall>i<4. at_status L + of_nat i \<in> S) \<and> 4 * card (unmapped k2 p S) \<le> length fs \<longrightarrow>
      (\<exists>k3 sh'. resume In_Wait k2 = Inr (Ret 0 (Word 0), k3) \<and>
        run e (h (0, Word 0)) k3 = Finished (sint (ucast st :: i32), sh') k3 \<and> last_command_status sh' = sint (ucast st :: i32)))"
proof -
  obtain argv line' u where c: "do_command L sh = (let sh' = sh\<lparr>line_buffer := line', sh_vars := u\<rparr>
      in bindp fork (\<lambda>pid0. if pid0 \<noteq> 0 then wait_child L bg pid0 sh' else run_child L argv sh'))"
    by (rule do_command_forks[OF assms(1)])
  let ?sh = "sh\<lparr>line_buffer := line', sh_vars := u\<rparr>"
  let ?h = "\<lambda>r :: u64 \<times> uarg. Load (at_status L) (\<lambda>w. ret (sint w, ?sh\<lparr>last_command_status := sint w\<rparr>))"
  let ?g = "\<lambda>r :: u64 \<times> uarg. if (ucast (fst r) :: u32) \<noteq> 0 then wait_child L bg (ucast (fst r)) ?sh else run_child L argv ?sh"
  have d: "do_command L sh = Call 57 (Word 0) (Word 0) (Word 0) ?g" unfolding c Let_def fork_call ..
  have g: "if bg then \<exists>sh'. run e (?g (child, b)) k = Finished (0, sh') k
       else \<exists>k1. run e (?g (child, b)) k = Blocked In_Wait ?h k1 \<and> active_blk k1 =
         Inr (x\<lparr>waiting_on_pid := ucast child, status := WAITING, status_return := at_status L\<rparr>)"
    if "(ucast child :: u32) \<noteq> 0" for child and b :: uarg
  proof (cases bg)
    case False
    let ?x = "x\<lparr>waiting_on_pid := ucast child, status := WAITING, status_return := at_status L\<rparr>"
    let ?k = "set_sched (put_pcb (active_pcb (sched_of k)) ?x (sched_of k)) k"
    have "do_waitpid (ucast (ucast child :: u32)) (at_status L) 0 k = Inr (Sched In_Wait, ?k)"
    proof -
      have "ucast (ucast (ucast child :: u32) :: u64) = (ucast child :: u32)" by (rule bit_word_eqI) (auto simp: bit_simps)
      then show ?thesis using upd_active_run[OF assms(2)] by (simp only: do_waitpid_def bindr_Inr)
    qed
    then have "run e (wait_child L bg (ucast child) ?sh) k = Blocked In_Wait ?h ?k"
      using False by (simp add: wait_child_def waitpid_def syscall_3_def do_system_call_def case_prod_unfold)
    moreover have "active_blk ?k = Inr ?x" using assms(2) by (elim active_blkE) (simp add: active_blk_def deref_def)
    ultimately show ?thesis using that False by simp
  qed (use that in \<open>simp add: wait_child_def\<close>)
  have h: "\<exists>k3 sh'. resume In_Wait k2 = Inr (Ret 0 (Word 0), k3) \<and>
        run e (?h (0, Word 0)) k3 = Finished (sint (ucast st :: i32), sh') k3 \<and> last_command_status sh' = sint (ucast st :: i32)"
    if a: "told (sched_of k2) (active_pcb (sched_of k2)) st (at_status L)" "active_pcb (sched_of k2) \<noteq> 0"
      "user_ok k2 p fs S" "\<forall>i<4. at_status L + of_nat i \<in> S" "4 * card (unmapped k2 p S) \<le> length fs" for k2 p fs S st
  proof -
    have m: "at_status L + of_nat i \<in> S" if "i < 4" for i using a(4) that by blast
    obtain k3 fs' where k3: "resume In_Wait k2 = Inr (Ret 0 (Word 0), k3)" "user_ok k3 p fs' S"
      "\<forall>i<4. user_byte k3 p (at_status L + of_nat i) = Some (ucast (drop_bit (8 * i) st))"
      by (rule resume_wait_user[OF a(1-3) m a(5)])
    from kload32_bytes[OF k3(2,3)] k3(1) show ?thesis by (intro exI[of _ k3]) simp
  qed
  show ?thesis
    by (intro exI[of _ ?g] exI[of _ ?h] conjI allI impI; (elim conjE)?; (rule d | rule g | rule h); assumption)
qed

text \<open>The demonstration shell with a line.\<close>

definition typed_shell :: "string \<Rightarrow> shell" where
  "typed_shell t = demo_shell\<lparr>line_buffer := lit t\<rparr>"

lemma typed_shell_vars:
  "sh_vars (typed_shell t) = sh_vars demo_shell" "line_buffer (typed_shell t) = lit t"
  "length (print_buffer (typed_shell t)) = 30" "\<forall>x\<in>set (vars (sh_vars (typed_shell t))). fits x"
  "length (vars (sh_vars (typed_shell t))) \<le> 15" "length (joined_filename (typed_shell t)) = 250"
  by (simp_all add: typed_shell_def demo_shell_def fits_def clen_def default_prompt_def)

theorem command_waits_for_child_witness:
  "\<exists>g h k1. do_command demo_layout (typed_shell ''ls -l'') = Call 57 (Word 0) (Word 0) (Word 0) g \<and>
     run demo_env (g (7, Word 0)) root_kernel = Blocked In_Wait h k1 \<and>
     active_blk k1 = Inr (shell_block\<lparr>waiting_on_pid := 7, status := WAITING, status_return := 0x605000\<rparr>)"
proof -
  have r: "runs_program (typed_shell ''ls -l'') ''ls -l'' False"
    using typed_shell_vars[of "''ls -l''"] demo_vars(4) by (simp add: runs_program_def)
  from command_waits_for_child[OF r root_kernel_fields(2), of demo_layout demo_env] obtain g h where
    g: "do_command demo_layout (typed_shell ''ls -l'') = Call 57 (Word 0) (Word 0) (Word 0) g"
    "\<forall>child b. (ucast child :: u32) \<noteq> 0 \<longrightarrow>
      (if False then \<exists>sh'. run demo_env (g (child, b)) root_kernel = Finished (0, sh') root_kernel
       else \<exists>k1. run demo_env (g (child, b)) root_kernel = Blocked In_Wait h k1 \<and> active_blk k1 =
         Inr (shell_block\<lparr>waiting_on_pid := ucast child, status := WAITING, status_return := at_status demo_layout\<rparr>))"
    by (elim exE conjE) (rule that)
  have "(ucast (7 :: u64) :: u32) \<noteq> 0" by simp
  with g(2)[THEN spec, of 7, THEN spec, of "Word 0"] obtain k1 where
    "run demo_env (g (7, Word 0)) root_kernel = Blocked In_Wait h k1"
    "active_blk k1 = Inr (shell_block\<lparr>waiting_on_pid := ucast (7 :: u64), status := WAITING, status_return := at_status demo_layout\<rparr>)"
    by auto
  with g(1) show ?thesis by (intro exI[of _ g] exI[of _ h] exI[of _ k1]) (simp add: demo_layout_def)
qed

text \<open>A line whose first word has the form \<^verbatim>\<open>NAME=VALUE\<close> sets this variable and no other, without any system call.\<close>

theorem assignment_command:
  assumes "short (line_buffer sh)" and "cstr (line_buffer sh) = (n @ CHR ''='' # v) @ r" and "r = [] \<or> (\<exists>r'. r = CHR '' '' # r')"
    and "n \<noteq> []" and "v \<noteq> []" and "{CHR ''='', CHR '' ''} \<inter> set n = {}" and "CHR '' '' \<notin> set v"
    and "last (cstr (line_buffer sh)) \<noteq> CHR ''&''" and "vars_ok (sh_vars sh)" and "heap (sh_vars sh) = zeros"
  shows "\<exists>u. do_command L sh = ret (0, sh\<lparr>sh_vars := u\<rparr>) \<and> vars_ok u \<and>
    map_of (texts u) = (map_of (texts (sh_vars sh)))(n \<mapsto> v)"
proof -
  let ?t = "cstr (line_buffer sh)"
  have tm: "terminated (line_buffer sh)" using assms(1) by (simp add: short_def)
  have w: "hd (split_on (CHR '' '') ?t) = n @ CHR ''='' # v" "split_on (CHR '' '') ?t \<noteq> []"
  proof -
    have s: "CHR '' '' \<notin> set (n @ CHR ''='' # v)" using assms(6,7) by simp
    show "hd (split_on (CHR '' '') ?t) = n @ CHR ''='' # v" "split_on (CHR '' '') ?t \<noteq> []"
      using assms(3) split_on_word[OF s] split_on_step[OF s] unfolding assms(2) by auto
  qed
  have cd: "strprefix (lit ''cd '') (line_buffer sh) = Inr 0"
  proof -
    have "take 3 ?t \<noteq> ''cd ''"
    proof
      assume "take 3 ?t = ''cd ''"
      then have "?t = (''cd'' @ [CHR '' '']) @ drop 3 ?t" by (metis append_Cons append_Nil append_take_drop_id)
      then have "hd (split_on (CHR '' '') ?t) = ''cd''" using split_on_step[of "CHR '' ''" "''cd''" "drop 3 ?t"] by simp
      then have "CHR ''='' \<notin> set (hd (split_on (CHR '' '') ?t))" by simp
      then show False unfolding w(1) by simp
    qed
    then have "take (clen (lit ''cd '')) ?t \<noteq> cstr (lit ''cd '')" by (simp add: clen_def numeral_3_eq_3)
    then show ?thesis using strprefix_spec[of "lit ''cd ''" "line_buffer sh"] tm by simp
  qed
  have ex: "short (lit ''exit'')" by simp
  obtain d where d: "strcomp (lit ''exit'') (line_buffer sh) = Inr d" "d = 0 \<longleftrightarrow> cstr (lit ''exit'') = ?t"
    by (rule strcomp_zero[OF ex assms(1)])
  have "?t \<noteq> ''exit''"
  proof
    assume "?t = ''exit''"
    moreover have "CHR ''='' \<in> set ?t" unfolding assms(2) by simp
    ultimately show False by simp
  qed
  then have d0: "d \<noteq> 0" using d(2) by auto
  have bg: "?t = ?t @ (if False then ''&'' else [])" "\<not> False \<Longrightarrow> ?t \<noteq> [] \<and> last ?t \<noteq> CHR ''&''"
    using assms(8) unfolding assms(2) by simp_all
  have b: "background (line_buffer sh) = Inr (False, line_buffer sh)"
  proof -
    have "?t \<noteq> []" unfolding assms(2) by simp
    then have "int (clen (line_buffer sh)) - 1 = int (clen (line_buffer sh) - 1)" by (cases ?t) (simp_all add: clen_def)
    moreover have "clen (line_buffer sh) - 1 < clen (line_buffer sh)" using \<open>?t \<noteq> []\<close> by (simp add: clen_def)
    then have "rd (line_buffer sh) (clen (line_buffer sh) - 1) = Inr (last ?t)"
      using nth_cstr(1)[OF tm] clen_less[OF tm] \<open>?t \<noteq> []\<close> by (simp add: last_conv_nth clen_def)
    ultimately have "rdi (line_buffer sh) (int (clen (line_buffer sh)) - 1) = Inr (last ?t)" by (simp only: rdi_at)
    then show ?thesis using assms(1,8) by (simp add: background_def short_def)
  qed
  have sp: "CHR '' '' \<noteq> NUL" by simp
  obtain argv where ps: "strsplit (line_buffer sh) (CHR '' '') zeros = Inr (argv, zeros)" "map cstr argv = split_on (CHR '' '') ?t"
    "\<forall>p\<in>set argv. short p" by (rule strsplit_words[OF assms(1) sp])
  have ne: "argv \<noteq> []" using ps(2) w(2) by auto
  then have h: "cstr (argv ! 0) = n @ CHR ''='' # v" using ps(2) w(1) by (metis hd_conv_nth hd_map)
  have s0: "short (argv ! 0)" using ps(3) ne by simp
  have "takeWhile (\<lambda>c. c \<noteq> CHR ''='') (n @ CHR ''='' # v) = n" using assms(6) by (subst takeWhile_append2) auto
  then have eq: "strsearch (argv ! 0) (CHR ''='') = Inr (int (length n))"
    using strsearch_spec[OF s0, of "CHR ''=''"] unfolding h by simp
  from str_split_line_spec[OF s0 h] obtain y z where
    yz: "str_split_line (argv ! 0) (int (length n)) zeros = Inr ((y, z), zeros)" "short y" "cstr y = n" "short z" "cstr z = v" by blast
  let ?u = "(sh_vars sh)\<lparr>heap := zeros\<rparr>"
  have u: "vars_ok ?u" "heap ?u = zeros" "cstr y \<noteq> []" "cstr z \<noteq> []" using assms(4,5,9) yz by (simp_all add: vars_ok_def)
  from var_set_map[OF u(1,2) yz(2,4) u(3,4)] obtain u' where
    u': "var_set y z ?u = Inr u'" "map_of (texts u') = (map_of (texts ?u))(n \<mapsto> v)" "vars_ok u'"
    unfolding yz(3,5) by blast
  have "do_command L sh = ret (0, sh\<lparr>sh_vars := u'\<rparr>)"
    using d0 by (simp add: do_command_def cd d(1) b assms(10) ps(1) eq assign_var_def yz(1) u'(1) Let_def)
  moreover have "texts ?u = texts (sh_vars sh)" by (simp add: texts_def)
  ultimately show ?thesis using u' by auto
qed

theorem assignment_command_witness:
  "\<exists>u. do_command demo_layout (typed_shell ''HOME=/bin'') = ret (0, (typed_shell ''HOME=/bin'')\<lparr>sh_vars := u\<rparr>) \<and>
     map_of (texts u) ''HOME'' = Some ''/bin''"
proof -
  let ?sh = "typed_shell ''HOME=/bin''"
  have h: "short (line_buffer ?sh)" "cstr (line_buffer ?sh) = (''HOME'' @ CHR ''='' # ''/bin'') @ []"
    "[] = [] \<or> (\<exists>r'. [] = CHR '' '' # r')" "''HOME'' \<noteq> []" "''/bin'' \<noteq> []" "{CHR ''='', CHR '' ''} \<inter> set ''HOME'' = {}"
    "CHR '' '' \<notin> set ''/bin''" "last (cstr (line_buffer ?sh)) \<noteq> CHR ''&''" "vars_ok (sh_vars ?sh)" "heap (sh_vars ?sh) = zeros"
    using demo_vars(1,4) by (simp_all add: typed_shell_vars)
  from assignment_command[OF h, of demo_layout] show ?thesis by auto
qed

subsection \<open>The search along \<^verbatim>\<open>PATH\<close>\<close>

lemma strcat_spec:
  assumes "short pre" and "short suf" and "pre = (case pref of None \<Rightarrow> buf | Some p \<Rightarrow> p)"
    and "int (clen pre + clen suf) + 1 < n" and "n \<le> int (length buf)" and "n \<le> 2040"
  obtains b where "strcat pref suf buf n = Inr (0, b)" and "short b" and "cstr b = cstr pre @ cstr suf" and "length b = length buf"
proof -
  let ?p = "clen pre" and ?s = "clen suf"
  have len: "?p + ?s < length buf" using assms(4,5) by linarith
  have t: "terminated pre" "terminated suf" using assms(1,2) by (simp_all add: short_def)
  let ?P = "\<lambda>i b. b = splice buf 0 (take i (cstr pre))"
  have "\<exists>b. for_up 0 ?p (\<lambda>i b. bindr (rd pre i) (\<lambda>c. wr b i c)) buf = Inr b \<and> ?P ?p b"
  proof (rule for_up_inv)
    fix i b
    assume i: "i < ?p" "?P i b"
    have "rd pre i = Inr (cstr pre ! i)" using nth_cstr(1)[OF t(1) i(1)] clen_less[OF t(1)] i(1) by simp
    moreover have "take (Suc i) (cstr pre) = take i (cstr pre) @ [cstr pre ! i]"
      using i(1) by (simp add: take_Suc_conv_app_nth clen_def)
    moreover have "wr b i (cstr pre ! i) = Inr (splice buf 0 (take i (cstr pre) @ [cstr pre ! i]))"
      using splice_snoc[of 0 "take i (cstr pre)" buf "cstr pre ! i"] i len by (simp add: wr_def splice_def clen_def)
    ultimately show "\<exists>b'. bindr (rd pre i) (\<lambda>c. wr b i c) = Inr b' \<and> ?P (Suc i) b'" by simp
  qed simp_all
  then have 1: "for_up 0 ?p (\<lambda>i b. bindr (rd pre i) (\<lambda>c. wr b i c)) buf = Inr (splice buf 0 (cstr pre))" by (simp add: clen_def)
  let ?Q = "\<lambda>i b. b = splice buf 0 (cstr pre @ take (i - ?p) (cstr suf))"
  have "\<exists>b. for_up ?p (?p + ?s) (\<lambda>i b. bindr (rdi suf (int i - int ?p)) (\<lambda>c. wr b i c)) (splice buf 0 (cstr pre)) = Inr b \<and> ?Q (?p + ?s) b"
  proof (rule for_up_inv)
    fix i b
    assume i: "?p \<le> i" "i < ?p + ?s" "?Q i b"
    then have j: "i - ?p < ?s" by simp
    have "int i - int ?p = int (i - ?p)" using i(1) by simp
    then have "rdi suf (int i - int ?p) = rd suf (i - ?p)" by (simp only: rdi_at)
    also have "\<dots> = Inr (cstr suf ! (i - ?p))" using nth_cstr(1)[OF t(2) j] clen_less[OF t(2)] j by simp
    finally have r: "rdi suf (int i - int ?p) = Inr (cstr suf ! (i - ?p))" .
    have k: "take (Suc i - ?p) (cstr suf) = take (i - ?p) (cstr suf) @ [cstr suf ! (i - ?p)]"
      using i(1) j by (simp add: Suc_diff_le take_Suc_conv_app_nth clen_def)
    have l: "length (cstr pre @ take (i - ?p) (cstr suf)) = i" using i(1) j by (simp add: clen_def)
    have "wr b i (cstr suf ! (i - ?p)) = Inr (splice buf 0 ((cstr pre @ take (i - ?p) (cstr suf)) @ [cstr suf ! (i - ?p)]))"
      using splice_snoc[of 0 "cstr pre @ take (i - ?p) (cstr suf)" buf "cstr suf ! (i - ?p)"] i len l
      by (simp add: wr_def)
    with r k show "\<exists>b'. bindr (rdi suf (int i - int ?p)) (\<lambda>c. wr b i c) = Inr b' \<and> ?Q (Suc i) b'" by simp
  qed simp_all
  then have 2: "for_up ?p (?p + ?s) (\<lambda>i b. bindr (rdi suf (int i - int ?p)) (\<lambda>c. wr b i c)) (splice buf 0 (cstr pre)) =
      Inr (splice buf 0 (cstr pre @ cstr suf))" by (simp add: clen_def)
  let ?b = "splice buf 0 ((cstr pre @ cstr suf) @ [NUL])"
  have 3: "wr (splice buf 0 (cstr pre @ cstr suf)) (?p + ?s) NUL = Inr ?b"
    using splice_snoc[of 0 "cstr pre @ cstr suf" buf NUL] len by (simp add: wr_def clen_def)
  have sl: "strlen pre = Inr (int ?p)" "strlen suf = Inr (int ?s)" using assms(1,2) by (simp_all add: short_def)
  have r: "strcat pref suf buf n = Inr (0, ?b)"
  proof -
    have "nat (int ?p + int ?s) = ?p + ?s" "max ?p (?p + ?s) = ?p + ?s" "nat (max 0 (int ?p)) = ?p" by simp_all
    then show ?thesis
      using 1 2 3 sl assms(4) by (simp add: strcat_def Let_def assms(3)[symmetric])
  qed
  have c: "cstr ?b = cstr pre @ cstr suf" by (rule cstr_splice0) simp
  have "short ?b" using terminated_splice0[of buf "cstr pre @ cstr suf"] c assms(4,6) by (simp add: short_def clen_def)
  then show thesis using r c len by (intro that[of ?b]) (simp_all add: clen_def)
qed

definition missing :: "tar_file list \<Rightarrow> string \<Rightarrow> bool" where
  "missing es t = (t \<noteq> ''/'' \<and> clean t \<noteq> [] \<and> locate 0 es (drop 1 (clean t)) = None)"

text \<open>The directory \<open>d\<close> does not have the program \<open>word\<close>.\<close>

definition lookup_fails :: "tar_file list \<Rightarrow> string \<Rightarrow> string \<Rightarrow> string \<Rightarrow> bool" where
  "lookup_fails es cwd word d =
     (let t = merged cwd (d @ ''/'' @ word)
      in length (d @ ''/'' @ word) < 249 \<and> length t < 100 \<and> length (split_slash t) \<le> 14 \<and> missing es t)"

text \<open>The kernel with other contents of the two path buffers.\<close>

definition repathed :: "kernel \<Rightarrow> kernel \<Rightarrow> bool" where
  "repathed k k' = (\<exists>ab tmp. k' = k\<lparr>abspath := ab, path_temp := tmp\<rparr> \<and> length ab = 100 \<and> length tmp = 100)"

lemma repathed_fields:
  fixes k :: kernel
  assumes "repathed k k'"
  shows "length (Interrupts.abspath k') = 100" "length (path_temp k') = 100" "active_blk k' = active_blk k"
    "sched_of k' = sched_of k" "files k' = files k" "io k' = io k"
  using assms by (auto simp: repathed_def active_blk_def)

lemma repathed_trans:
  fixes k :: kernel
  assumes "repathed k k'" and "repathed k' k2"
  shows "repathed k k2"
proof -
  from assms obtain ab tmp ab2 tmp2 where "k' = k\<lparr>abspath := ab, path_temp := tmp\<rparr>"
    "k2 = k'\<lparr>abspath := ab2, path_temp := tmp2\<rparr>" "length ab2 = 100" "length tmp2 = 100"
    unfolding repathed_def by (elim exE conjE) (rule that)
  then show ?thesis unfolding repathed_def by (intro exI[of _ ab2] exI[of _ tmp2]) simp
qed

lemma execve_missing:
  assumes "active_blk k = Inr x" and "length (Interrupts.abspath k) = 100" and "length (path_temp k) = 100"
    and "terminated (wd x)" and "cstr (wd x) = CHR ''/'' # w" and "terminated path"
    and "t = merged (cstr (wd x)) (cstr path)" and "length t < 100" and "length (split_slash t) \<le> 14"
    and "fs_ok (files k) es" and "sizes_ok es" and "missing es t"
  obtains k' where "run e (execve (Chars a path) argv envp) k = Finished (- 1, - 1) k'" and "repathed k k'"
proof -
  have p: "terminated (chars_of (Chars a path))" "t = merged (cstr (wd x)) (cstr (chars_of (Chars a path)))" using assms(6,7) by simp_all
  obtain ab tmp where m: "merge_path (Chars a path) k = Some (Inr (k\<lparr>abspath := ab, path_temp := tmp\<rparr>))"
    "length ab = 100" "length tmp = 100" "terminated ab" "cstr ab = (if t = ''/'' then ''/'' else clean t)"
    by (rule merge_path_run[OF assms(1-5) p assms(8,9)])
  have ab: "cstr ab = clean t" using m(5) assms(12) by (simp add: missing_def)
  from clean_slash[of t] assms(12) obtain d where d: "clean t = CHR ''/'' # d" by (auto simp: missing_def)
  note dr = drop1_terminated[OF m(4) ab[unfolded d]]
  have "locate 0 es d = None" using assms(12) d by (simp add: missing_def)
  then have s: "search_file_for_exec (files k) ab = Some (Inr (0, ()))"
    unfolding search_file_for_exec_def tar_search_locate[OF assms(10,11) dr(1)] dr(2) by simp
  have "run e (execve (Chars a path) argv envp) k = Finished (- 1, - 1) (k\<lparr>abspath := ab, path_temp := tmp\<rparr>)"
    by (simp add: execve_def syscall_3_def do_system_call_def do_execve_def m(1) s int_arg_def)
  then show thesis using m(2,3) by (intro that) (auto simp: repathed_def)
qed

text \<open>A call of the log with its first argument as a text.\<close>

definition named_call :: "u64 \<times> uarg \<Rightarrow> u64 \<times> string" where
  "named_call c = (fst c, cstr (chars_of (snd c)))"

lemma execve_log:
  assumes "run e (execve a argv envp) k = Finished r k'"
  shows "call_log e (execve a argv envp) k = [(59, a)]"
  using assms by (auto simp: execve_def syscall_3_def call_log_bindp split: option.splits sum.splits prod.splits sysres.splits)

lemma try_paths_missing:
  assumes "active_blk k = Inr x" and "length (Interrupts.abspath k) = 100" and "length (path_temp k) = 100"
    and "terminated (wd x)" and "cstr (wd x) = CHR ''/'' # w" and "fs_ok (files k) es" and "sizes_ok es"
    and "short word" and "\<forall>p\<in>set ps. short p \<and> lookup_fails es (cstr (wd x)) (cstr word) (cstr p)"
    and "length (joined_filename sh) = 250"
  shows "\<exists>j k'. run e (try_paths L word ps sh) k = Finished (sh\<lparr>joined_filename := j\<rparr>) k' \<and> repathed k k' \<and>
    map named_call (call_log e (try_paths L word ps sh) k) = map (\<lambda>p. (59, cstr p @ ''/'' @ cstr word)) ps"
  using assms(1-3,6,9,10)
proof (induction ps arbitrary: k sh)
  case Nil
  have "sh\<lparr>joined_filename := joined_filename sh\<rparr> = sh" by simp
  moreover have "repathed k k" using Nil.prems(2,3) unfolding repathed_def
    by (intro exI[of _ "Interrupts.abspath k"] exI[of _ "path_temp k"]) simp
  ultimately show ?case by (intro exI[of _ "joined_filename sh"] exI[of _ k]) simp
next
  case (Cons p ps)
  have p: "short p" "lookup_fails es (cstr (wd x)) (cstr word) (cstr p)" using Cons.prems(5) by simp_all
  let ?t = "merged (cstr (wd x)) (cstr p @ ''/'' @ cstr word)"
  have f: "clen p + 1 + clen word < 249" "length ?t < 100" "length (split_slash ?t) \<le> 14" "missing es ?t"
    using p(2) by (simp_all add: lookup_fails_def Let_def clen_def)
  have sl: "short (lit ''/'')" "p = (case Some p of None \<Rightarrow> joined_filename sh | Some p \<Rightarrow> p)"
    "int (clen p + clen (lit ''/'')) + 1 < 250" "250 \<le> int (length (joined_filename sh))" "(250 :: int) \<le> 2040"
    using f(1) Cons.prems(6) by (simp_all add: clen_def)
  obtain j where j: "strcat (Some p) (lit ''/'') (joined_filename sh) 250 = Inr (0, j)" "short j"
    "cstr j = cstr p @ cstr (lit ''/'')" "length j = length (joined_filename sh)"
    by (rule strcat_spec[OF p(1) sl])
  have sl2: "j = (case None of None \<Rightarrow> j | Some p \<Rightarrow> p)" "int (clen j + clen word) + 1 < 250" "250 \<le> int (length j)"
    using f(1) j(3,4) Cons.prems(6) by (simp_all add: clen_def)
  obtain j1 where j1: "strcat None word j 250 = Inr (0, j1)" "short j1" "cstr j1 = cstr j @ cstr word" "length j1 = length j"
    by (rule strcat_spec[OF j(2) assms(8) sl2 sl(5)])
  have tj: "terminated j1" "?t = merged (cstr (wd x)) (cstr j1)" using j1(2,3) j(3) by (simp_all add: short_def)
  obtain k1 where k1: "run e (execve (Chars (at_joined L) j1) (Word (at_argv L)) (Word (at_envp L))) k = Finished (- 1, - 1) k1"
    "repathed k k1"
    by (rule execve_missing[OF Cons.prems(1-3) assms(4,5) tj f(2,3) Cons.prems(4) assms(7) f(4)])
  note r = repathed_fields[OF k1(2)]
  have IH: "\<exists>j k'. run e (try_paths L word ps (sh\<lparr>joined_filename := j1\<rparr>)) k1 =
      Finished (sh\<lparr>joined_filename := j1, joined_filename := j\<rparr>) k' \<and> repathed k1 k' \<and>
      map named_call (call_log e (try_paths L word ps (sh\<lparr>joined_filename := j1\<rparr>)) k1) = map (\<lambda>p. (59, cstr p @ ''/'' @ cstr word)) ps"
    using Cons.prems j(4) j1(4) r by (intro Cons.IH) simp_all
  then obtain j' k' where k': "run e (try_paths L word ps (sh\<lparr>joined_filename := j1\<rparr>)) k1 = Finished (sh\<lparr>joined_filename := j'\<rparr>) k'"
    "repathed k1 k'"
    "map named_call (call_log e (try_paths L word ps (sh\<lparr>joined_filename := j1\<rparr>)) k1) = map (\<lambda>p. (59, cstr p @ ''/'' @ cstr word)) ps"
    by auto
  have "run e (try_paths L word (p # ps) sh) k = Finished (sh\<lparr>joined_filename := j'\<rparr>) k'"
    using k'(1) by (simp add: j(1) j1(1) run_bindp_Finished[OF k1(1)])
  moreover have "map named_call (call_log e (try_paths L word (p # ps) sh) k) = map (\<lambda>p. (59, cstr p @ ''/'' @ cstr word)) (p # ps)"
    using k'(3) j(3) j1(3) by (simp add: j(1) j1(1) call_log_bindp execve_log[OF k1(1)] k1(1) named_call_def)
  ultimately show ?case using repathed_trans[OF k1(2) k'(2)] by blast
qed

lemma val_of_vars:
  assumes "vars u = vars u'"
  shows "val_of n u = val_of n u'"
  unfolding val_of_def var_find_def assms ..

lemma exit_blocks:
  assumes "active_blk k = Inr y" and "sched_ok (sched_of k) q"
  obtains h k' where "run e (bindp (exit_sys st) f) k = Blocked In_Exit h k'"
    and "\<not> alive (sched_of k') (active_pcb (sched_of k'))" and "screen (io k') = screen (io k)"
proof -
  let ?a = "active_pcb (sched_of k)"
  let ?s = "wake (\<lambda>x. status x = WAITING \<and> waiting_on_pid x = pid y)
      (\<lambda>x. x\<lparr>waiting_on_pid := 0, exit_notify_status := of_int st, status := RUNNING\<rparr>) q
      (put_pcb ?a (y\<lparr>status := FINISHED\<rparr>) (sched_of k))"
  have "?a \<notin> set q" using active_not_queued[OF assms(2)] by blast
  then have "\<not> alive ?s ?a" by (simp add: has_status_def wake_def)
  moreover have "active_pcb ?s = ?a" by (simp add: wake_def)
  moreover have "\<exists>h. run e (bindp (exit_sys st) f) k = Blocked In_Exit h (set_sched ?s k)"
    using exit_run[OF assms, of "of_int st"]
    by (simp add: exit_sys_def syscall_1_def syscall_3_def do_system_call_def)
  ultimately show thesis using that by (auto simp: set_sched_def)
qed

text \<open>C20: When no directory of \<^verbatim>\<open>PATH\<close> has the program, the first system calls of the child are one \<^verbatim>\<open>execve\<close> for each directory, in
  the order of \<^verbatim>\<open>PATH\<close> and with the name joined to the directory; then it prints the message with the name as it
  was typed, and exits. (The name does not begin with a dot or a slash, and the joined names fit the buffers.)\<close>

theorem command_not_found:
  assumes "runs_program sh c bg" and "c = ch # c'" and "ch \<noteq> CHR ''.''" and "ch \<noteq> CHR ''/''"
    and "val_of (lit ''PATH'') (sh_vars sh) = Inr pv" and "short pv"
    and "active_blk k = Inr x" and "length (Interrupts.abspath k) = 100" and "length (path_temp k) = 100"
    and "terminated (wd x)" and "cstr (wd x) = CHR ''/'' # w" and "fs_ok (files k) es" and "sizes_ok es"
    and "\<forall>d\<in>set (split_on (CHR '':'') (cstr pv)). lookup_fails es (cstr (wd x)) (hd (split_on (CHR '' '') c)) d"
    and "sched_ok (sched_of k) q" and "console_ok (screen (io k))"
    and "length (print_buffer sh) = 30" and "length (joined_filename sh) = 250"
  shows "\<exists>g. do_command L sh = Call 57 (Word 0) (Word 0) (Word 0) g \<and>
    (\<forall>b. \<exists>h k'. run e (g (0, b)) k = Blocked In_Exit h k' \<and>
      map named_call (take (length (split_on (CHR '':'') (cstr pv))) (call_log e (g (0, b)) k)) =
        map (\<lambda>d. (59, d @ ''/'' @ hd (split_on (CHR '' '') c))) (split_on (CHR '':'') (cstr pv)) \<and>
      write_all (''No command or binary found: '' @ [CHR 0x27] @ hd (split_on (CHR '' '') c) @ [CHR 0x27] @ [LF]) (screen (io k)) =
        Inr (screen (io k')) \<and> \<not> alive (sched_of k') (active_pcb (sched_of k')))"
proof -
  obtain argv line' u where c: "do_command L sh = (let sh' = sh\<lparr>line_buffer := line', sh_vars := u\<rparr>
      in bindp fork (\<lambda>pid0. if pid0 \<noteq> 0 then wait_child L bg pid0 sh' else run_child L argv sh'))"
    "map cstr argv = split_on (CHR '' '') c" "\<forall>p\<in>set argv. short p" "cstr line' = c" "short line'"
    "vars u = vars (sh_vars sh)" "heap u = zeros"
    by (rule do_command_forks[OF assms(1)])
  let ?sh = "sh\<lparr>line_buffer := line', sh_vars := u\<rparr>" and ?word = "hd (split_on (CHR '' '') c)"
  let ?g = "\<lambda>r :: u64 \<times> uarg. if (ucast (fst r) :: u32) \<noteq> 0 then wait_child L bg (ucast (fst r)) ?sh else run_child L argv ?sh"
  have d: "do_command L sh = Call 57 (Word 0) (Word 0) (Word 0) ?g" unfolding c(1) Let_def fork_call ..
  have ne: "argv \<noteq> []" using c(2) length_split_on[of "CHR '' ''" c] by auto
  then have word: "cstr (argv ! 0) = ?word" "short (argv ! 0)" using c(2,3) by (metis hd_conv_nth hd_map, simp)
  have first: "rd line' 0 = Inr ch"
  proof -
    have "terminated line'" "0 < clen line'" using c(4,5) assms(2) by (simp_all add: short_def clen_def)
    moreover from this have "0 < length line'" using clen_less[of line'] by (cases line') simp_all
    ultimately show ?thesis using nth_cstr(1)[of line' 0] c(4) assms(2) by simp
  qed
  have pv: "get_path (sh_vars ?sh) = Inr pv" using assms(5) val_of_vars[OF c(6)] by (simp add: get_path_def)
  have col: "CHR '':'' \<noteq> NUL" by simp
  obtain ps where ps: "strsplit pv (CHR '':'') zeros = Inr (ps, zeros)" "map cstr ps = split_on (CHR '':'') (cstr pv)"
    "\<forall>p\<in>set ps. short p" by (rule strsplit_words[OF assms(6) col])
  have dirs: "\<forall>p\<in>set ps. short p \<and> lookup_fails es (cstr (wd x)) (cstr (argv ! 0)) (cstr p)"
    using ps(2,3) assms(14) word(1) by (metis image_eqI list.set_map)
  let ?sh1 = "sh\<lparr>line_buffer := line', sh_vars := u\<lparr>heap := zeros\<rparr>\<rparr>"
  have jl: "length (joined_filename ?sh1) = 250" using assms(18) by simp
  from try_paths_missing[OF assms(7-13) word(2) dirs jl, of e L] obtain j k1 where
    k1: "run e (try_paths L (argv ! 0) ps ?sh1) k = Finished (?sh1\<lparr>joined_filename := j\<rparr>) k1" "repathed k k1"
    "map named_call (call_log e (try_paths L (argv ! 0) ps ?sh1) k) = map (\<lambda>p. (59, cstr p @ ''/'' @ cstr (argv ! 0))) ps" by blast
  note r = repathed_fields[OF k1(2)]
  let ?sh2 = "?sh1\<lparr>joined_filename := j\<rparr>" and ?out = "''No command or binary found: '' @ [CHR 0x27] @ ?word @ [CHR 0x27] @ [LF]"
  have pb: "length (print_buffer ?sh2) = 30" using assms(17) by simp
  have nf: "NUL \<notin> set not_found" "u_render not_found [Text (argv ! 0)] 0 = Some ?out"
    using word by (simp_all add: not_found_def short_def)
  obtain b where b: "prints e (say L not_found [Text (argv ! 0)] ?sh2) ?out (?sh2\<lparr>print_buffer := b\<rparr>)"
    by (rule say_prints[OF pb nf])
  have ok: "console_ok (screen (io k1))" using assms(16) r(6) by simp
  obtain scr where s: "write_all ?out (screen (io k1)) = Inr scr"
    "run e (say L not_found [Text (argv ! 0)] ?sh2) k1 = Finished (?sh2\<lparr>print_buffer := b\<rparr>) (on_screen scr k1)"
    by (rule prints_run[OF b ok])
  have a: "active_blk (on_screen scr k1) = Inr x" "sched_ok (sched_of (on_screen scr k1)) q"
    using assms(7,15) r(3,4) by simp_all
  obtain h k2 where k2: "run e (bindp (exit_sys 1) (\<lambda>_. ret (0 :: int, ?sh2\<lparr>print_buffer := b\<rparr>))) (on_screen scr k1) = Blocked In_Exit h k2"
    "\<not> alive (sched_of k2) (active_pcb (sched_of k2))" "screen (io k2) = screen (io (on_screen scr k1))"
    by (rule exit_blocks[OF a])
  have z: "heap (sh_vars ?sh) = zeros" using c(7) by simp
  have "run e (run_child L argv ?sh) k = Blocked In_Exit h k2"
    unfolding run_child_def z using first assms(3,4) pv ps(1)
    by (simp add: run_bindp_Finished[OF k1(1)] run_bindp_Finished[OF s(2)] k2(1))
  moreover have "map named_call (take (length (split_on (CHR '':'') (cstr pv))) (call_log e (run_child L argv ?sh) k)) =
      map (\<lambda>d. (59, d @ ''/'' @ ?word)) (split_on (CHR '':'') (cstr pv))"
  proof -
    obtain r where "call_log e (run_child L argv ?sh) k = call_log e (try_paths L (argv ! 0) ps ?sh1) k @ r"
      unfolding run_child_def z using first assms(3,4) pv ps(1) by (simp add: call_log_bindp)
    moreover have len: "length (split_on (CHR '':'') (cstr pv)) = length ps" unfolding ps(2)[symmetric] by simp
    moreover have "length (call_log e (try_paths L (argv ! 0) ps ?sh1) k) = length ps" using arg_cong[OF k1(3), of length] by simp
    ultimately have "map named_call (take (length ps) (call_log e (run_child L argv ?sh) k)) = map (\<lambda>p. (59, cstr p @ ''/'' @ ?word)) ps"
      using k1(3) word(1) by simp
    then show ?thesis unfolding len ps(2)[symmetric] by (simp add: comp_def)
  qed
  ultimately have "\<forall>b. \<exists>h k'. run e (?g (0, b)) k = Blocked In_Exit h k' \<and>
      map named_call (take (length (split_on (CHR '':'') (cstr pv))) (call_log e (?g (0, b)) k)) =
        map (\<lambda>d. (59, d @ ''/'' @ ?word)) (split_on (CHR '':'') (cstr pv)) \<and>
      write_all ?out (screen (io k)) = Inr (screen (io k')) \<and>
      \<not> alive (sched_of k') (active_pcb (sched_of k'))"
    using k2(2,3) s(1) r(6) by (intro allI exI[of _ h] exI[of _ k2]) simp
  with d show ?thesis by blast
qed

definition child_kernel :: kernel where
  "child_kernel = set_sched (put_pcb 0x1000 shell_block (two_blocks READY)) root_kernel"

lemma child_kernel_fields:
  "sched_of child_kernel = put_pcb 0x1000 shell_block (two_blocks READY)" "active_blk child_kernel = Inr shell_block"
  "files child_kernel = fs_of demo" "length (Interrupts.abspath child_kernel) = 100" "length (path_temp child_kernel) = 100"
  "sched_ok (sched_of child_kernel) [0x2000]" "screen (io child_kernel) = screen (io root_kernel)"
proof -
  show s: "sched_of child_kernel = put_pcb 0x1000 shell_block (two_blocks READY)" by (simp add: child_kernel_def)
  show "sched_ok (sched_of child_kernel) [0x2000]" unfolding s by (rule sched_ok_put) (rule two_blocks_ok)
  have "active_pcb (two_blocks READY) = 0x1000" by (simp add: two_blocks_def)
  then show "active_blk child_kernel = Inr shell_block" by (simp add: active_blk_def deref_def s)
qed (simp_all add: child_kernel_def root_kernel_fields set_sched_def)

theorem command_not_found_witness:
  "\<exists>g h k'. do_command demo_layout (typed_shell ''sed x'') = Call 57 (Word 0) (Word 0) (Word 0) g \<and>
     run demo_env (g (0, Word 0)) child_kernel = Blocked In_Exit h k' \<and>
     map named_call (take 1 (call_log demo_env (g (0, Word 0)) child_kernel)) = [(59, ''/bin/sed'')] \<and>
     write_all (''No command or binary found: '' @ [CHR 0x27] @ ''sed'' @ [CHR 0x27] @ [LF]) (screen (io child_kernel)) =
       Inr (screen (io k'))"
proof -
  let ?sh = "typed_shell ''sed x''"
  note f = child_kernel_fields and b = shell_block_fields
  have r: "runs_program ?sh ''sed x'' False"
    using typed_shell_vars[of "''sed x''"] demo_vars(4) by (simp add: runs_program_def)
  have w: "split_on (CHR '' '') ''sed x'' = [''sed'', ''x'']" by simp
  have c: "''sed x'' = CHR ''s'' # ''ed x''" "CHR ''s'' \<noteq> CHR ''.''" "CHR ''s'' \<noteq> CHR ''/''" by simp_all
  have p: "val_of (lit ''PATH'') (sh_vars ?sh) = Inr (lit ''/bin'')" "short (lit ''/bin'')"
  proof -
    have "vars_ok (sh_vars demo_shell)" by (rule demo_vars(1))
    then have "var_find (lit ''PATH'') (sh_vars demo_shell) = Inr (Some 1)"
      using find_loop_spec[of "lit ''PATH''" "vars (sh_vars demo_shell)" 0]
      by (simp add: var_find_def vars_ok_def demo_shell_def)
    then show "val_of (lit ''PATH'') (sh_vars ?sh) = Inr (lit ''/bin'')"
      by (simp add: val_of_def typed_shell_vars) (simp add: demo_shell_def)
    show "short (lit ''/bin'')" by simp
  qed
  have e: "fs_ok (files child_kernel) demo" "sizes_ok demo" using demo_ok by (simp_all add: f)
  have m: "merged ''/'' ''/bin/sed'' = ''/bin/sed''" by (simp add: merged_def)
  have cl: "clean ''/bin/sed'' = ''/bin/sed''" by (simp add: clean_def join_parts_def)
  have l: "lookup_fails demo ''/'' ''sed'' ''/bin''"
    using m cl by (simp add: lookup_fails_def missing_def) (simp add: demo_def)
  have "split_on (CHR '':'') ''/bin'' = [''/bin'']" by simp
  then have d: "\<forall>d\<in>set (split_on (CHR '':'') (cstr (lit ''/bin''))). lookup_fails demo (cstr (wd shell_block)) (hd (split_on (CHR '' '') ''sed x'')) d"
    using l w b(1) by simp
  have ok: "console_ok (screen (io child_kernel))" by (simp add: f root_kernel_def demo_kernel_def blank_console_ok set_sched_def)
  from command_not_found[OF r c p f(2,4,5) b(2) b(1) e d f(6) ok typed_shell_vars(3,6), of demo_layout demo_env]
  obtain g where g: "do_command demo_layout ?sh = Call 57 (Word 0) (Word 0) (Word 0) g"
    "\<forall>b. \<exists>h k'. run demo_env (g (0, b)) child_kernel = Blocked In_Exit h k' \<and>
      map named_call (take (length (split_on (CHR '':'') (cstr (lit ''/bin'')))) (call_log demo_env (g (0, b)) child_kernel)) =
        map (\<lambda>d. (59, d @ ''/'' @ hd (split_on (CHR '' '') ''sed x''))) (split_on (CHR '':'') (cstr (lit ''/bin''))) \<and>
      write_all (''No command or binary found: '' @ [CHR 0x27] @ hd (split_on (CHR '' '') ''sed x'') @ [CHR 0x27] @ [LF]) (screen (io child_kernel)) =
        Inr (screen (io k')) \<and> \<not> alive (sched_of k') (active_pcb (sched_of k'))"
    by (elim exE conjE) (rule that)
  have s: "split_on (CHR '':'') (cstr (lit ''/bin'')) = [''/bin'']" by simp
  have l: "length [''/bin''] = 1" "map (\<lambda>d. (59 :: u64, d @ ''/'' @ ''sed'')) [''/bin''] = [(59, ''/bin/sed'')]" by simp_all
  from g(2)[THEN spec, of "Word 0"] g(1) show ?thesis unfolding w list.sel(1) s l
    by (elim exE conjE) (intro exI conjI)
qed

theorem cd_command_witness:
  "(\<exists>k' y. run demo_env (do_command demo_layout (typed_shell ''cd /etc/../bin'')) root_kernel =
       Finished (0, typed_shell ''cd /etc/../bin'') k' \<and> active_blk k' = Inr y \<and> cstr (wd y) = ''/bin/'') \<and>
   (\<exists>sh' k'. run demo_env (do_command demo_layout (typed_shell ''cd /usr'')) root_kernel = Finished (- 1, sh') k')"
proof
  note f = root_kernel_fields shell_block_fields
  have d: "fs_ok (files root_kernel) demo" "sizes_ok demo" using demo_ok by (simp_all add: f)
  have l: "length (Interrupts.abspath root_kernel) = 100" "length (path_temp root_kernel) = 100"
    "terminated (wd shell_block)" "cstr (wd shell_block) = CHR ''/'' # []" by (simp_all add: f)
  have ok: "console_ok (screen (io root_kernel))" by (simp add: root_kernel_def demo_kernel_def blank_console_ok set_sched_def)
  have t: "terminated (line_buffer (typed_shell c))" "length (print_buffer (typed_shell c)) = 30" for c
    by (simp_all add: typed_shell_vars)
  have a: "cstr (line_buffer (typed_shell ''cd /etc/../bin'')) = ''cd '' @ ''/etc/../bin''"
    "''/etc/../bin'' = merged (cstr (wd shell_block)) ''/etc/../bin''" "length ''/etc/../bin'' < 99"
    "length (split_slash ''/etc/../bin'') \<le> 14" by (simp_all add: f merged_def typed_shell_vars)
  have p: "dir_path ''/etc/../bin'' = ''/bin/''" by (simp add: dir_path_def clean_def join_parts_def)
  have x: "length (wd shell_block) = 50" "length (dir_path ''/etc/../bin'') < 50" by (simp_all add: f p)
  have "names_dir demo ''/bin/''" by (simp add: names_dir_def demo_def)
  with cd_command[OF t(1) a(1) t(2) ok f(2) l a(2-4) d x, of demo_env demo_layout]
  show "\<exists>k' y. run demo_env (do_command demo_layout (typed_shell ''cd /etc/../bin'')) root_kernel =
       Finished (0, typed_shell ''cd /etc/../bin'') k' \<and> active_blk k' = Inr y \<and> cstr (wd y) = ''/bin/''"
    unfolding p by (simp only: if_True)
  have b: "cstr (line_buffer (typed_shell ''cd /usr'')) = ''cd '' @ ''/usr''"
    "''/usr'' = merged (cstr (wd shell_block)) ''/usr''" "length ''/usr'' < 99"
    "length (split_slash ''/usr'') \<le> 14" by (simp_all add: f merged_def typed_shell_vars)
  have q: "dir_path ''/usr'' = ''/usr/''" by (simp add: dir_path_def clean_def join_parts_def)
  have y: "length (wd shell_block) = 50" "length (dir_path ''/usr'') < 50" by (simp_all add: f q)
  have "\<not> names_dir demo ''/usr/''" by (simp add: names_dir_def demo_def)
  with cd_command[OF t(1) b(1) t(2) ok f(2) l b(2-4) d y, of demo_env demo_layout]
  show "\<exists>sh' k'. run demo_env (do_command demo_layout (typed_shell ''cd /usr'')) root_kernel = Finished (- 1, sh') k'"
    unfolding q by (simp only: if_False) blast
qed

end
