(* ===== verification/User_Tools.thy ===== *)
theory User_Tools
  imports User_Printf
begin

text \<open>
  The small programs under \<^verbatim>\<open>src/bin\<close> and the entry \<^verbatim>\<open>crt/crt1.c\<close>, as programs in the sense of \<open>User_Lib\<close>. \<open>at\<close> is the
  address of the program's buffer and \<open>tx\<close> that of what \<^verbatim>\<open>printf\<close> writes; the kernel only reads and writes through
  them. \<open>pb\<close> is \<^verbatim>\<open>_buffer\<close> of \<^verbatim>\<open>printf\<close>. \<open>argv\<close> is the list of the arguments, so \<^verbatim>\<open>argc\<close> is its length.
\<close>

section \<open>The entry\<close>

text \<open>
  \<open>fp\<close> is \<^verbatim>\<open>&stack_top\<close>; \<^verbatim>\<open>argc\<close> is the low half of the word two places above it. \<^verbatim>\<open>exit\<close> does not return in
  fact; what follows it here is the value that the kernel would hand back.
\<close>

definition start_program :: "u64 \<Rightarrow> (i32 \<Rightarrow> u64 \<Rightarrow> u64 \<Rightarrow> int prog) \<Rightarrow> unit prog" where
  "start_program fp main =
     Load (fp + 16) (\<lambda>argc.
       bindp (main argc (fp + 24) (fp + 8 * (4 + scast argc))) exit_sys)"

section \<open>\<^verbatim>\<open>hello\<close> and \<^verbatim>\<open>echo\<close>\<close>

definition hello_main :: "u64 \<Rightarrow> char list \<Rightarrow> int prog" where
  "hello_main tx pb = bindp (u_printf tx (lit (''Hello World!'' @ [LF])) [] pb) (\<lambda>_. ret 0)"

fun echo_list :: "u64 \<Rightarrow> string \<Rightarrow> nat \<Rightarrow> char list list \<Rightarrow> char list \<Rightarrow> char list prog" where
  "echo_list tx name j [] pb = ret pb"
| "echo_list tx name j (a # as) pb =
     bindp (u_printf tx (lit (name @ ''[%d]: %s'' @ [LF])) [Slot (of_nat j), Text a] pb) (\<lambda>(_, pb1).
       echo_list tx name (Suc j) as pb1)"

definition echo_main :: "u64 \<Rightarrow> char list list \<Rightarrow> char list list \<Rightarrow> char list \<Rightarrow> unit prog" where
  "echo_main tx argv envp pb =
     bindp (u_printf tx (lit (''argc: -%d-'' @ [LF])) [Slot (of_nat (length argv))] pb) (\<lambda>(_, pb1).
     bindp (echo_list tx ''argv'' 0 argv pb1) (\<lambda>pb2.
     bindp (echo_list tx ''envp'' 0 envp pb2) (\<lambda>_. exit_sys 0)))"

section \<open>\<^verbatim>\<open>cat\<close>\<close>

function cat_strcpy :: "nat \<Rightarrow> char list \<Rightarrow> char list \<Rightarrow> (int \<times> char list) result" where
  "cat_strcpy i s t =
     (if i < length s
      then if s ! i = NUL then bindr (wr t i NUL) (\<lambda>t1. Inr (0, t1))
           else bindr (wr t i (s ! i)) (\<lambda>t1. if 1024 \<le> i then Inr (- 1, t1) else cat_strcpy (Suc i) s t1)
      else Inl Out_Of_Bounds)"
  by pat_completeness auto
termination by (relation "measure (\<lambda>(i, s, t). length s - i)") auto

declare cat_strcpy.simps [simp del]

text \<open>At most \<open>n\<close> rounds; \<open>False\<close> when the file has not ended by then.\<close>

fun cat_loop :: "u64 \<Rightarrow> u64 \<Rightarrow> nat \<Rightarrow> int \<Rightarrow> char list \<Rightarrow> char list \<Rightarrow> bool prog" where
  "cat_loop at tx 0 fd buffer pb = ret False"
| "cat_loop at tx (Suc n) fd buffer pb =
     bindp (read_fd fd (Chars at buffer) 1024) (\<lambda>(i, b).
       if int_arg i \<le> 0 then ret True
       else bindp (u_printf tx (lit ''%s'') [Text (chars_of b)] pb) (\<lambda>(_, pb1). cat_loop at tx n fd (chars_of b) pb1))"

definition cat_main :: "u64 \<Rightarrow> u64 \<Rightarrow> nat \<Rightarrow> char list list \<Rightarrow> char list \<Rightarrow> char list \<Rightarrow> int option prog" where
  "cat_main at tx n argv buffer pb =
     bindp (if 2 \<le> length argv
            then bindp (Done (cat_strcpy 0 (argv ! 1) buffer)) (\<lambda>(_, b).
                 bindp (open_file (Chars at b) 0) (\<lambda>fd. ret (fd, b)))
            else ret (0, buffer)) (\<lambda>(fd, b).
       if 2 \<le> length argv \<and> fd < 0
       then bindp (u_printf tx (lit (''cat: %s: Failed to open.'' @ [LF])) [Text (argv ! 1)] pb) (\<lambda>_. ret (Some (- 1)))
       else bindp (cat_loop at tx n fd b pb) (\<lambda>ended.
              if ended then bindp (close_fd fd) (\<lambda>_. ret (Some 0)) else ret None))"

section \<open>\<^verbatim>\<open>ls\<close> and \<^verbatim>\<open>ps\<close>\<close>

text \<open>\<^verbatim>\<open>readdir\<close> moves 280 bytes at a time through the entries; \<open>n\<close> bounds the rounds.\<close>

fun ls_loop :: "u64 \<Rightarrow> nat \<Rightarrow> DIR \<Rightarrow> char list \<Rightarrow> (bool \<times> DIR \<times> char list) prog" where
  "ls_loop tx 0 dp pb = ret (False, dp, pb)"
| "ls_loop tx (Suc n) dp pb =
     bindp (Done (readdir dp)) (\<lambda>(ep, dp1).
       case ep of
         None \<Rightarrow> ret (True, dp1, pb)
       | Some x \<Rightarrow> bindp (u_printf tx (lit (''%s'' @ [LF])) [Text (d_name x)] pb) (\<lambda>(_, pb1). ls_loop tx n dp1 pb1))"

definition ls_main :: "(u64 \<Rightarrow> dirent list) \<Rightarrow> u64 \<Rightarrow> u64 \<Rightarrow> nat \<Rightarrow> char list list \<Rightarrow> char list \<Rightarrow> int option prog" where
  "ls_main raw name_at tx n argv pb =
     bindp (opendir raw (Chars name_at (lit ''./''))) (\<lambda>(dp, _).
       case dp of
         None \<Rightarrow>
           bindp (u_printf tx (lit (''%s: Couldn'' @ [CHR 0x27] @ ''t open the directory'' @ [LF])) [Text (argv ! 0)] pb)
             (\<lambda>_. ret (Some 0))
       | Some d \<Rightarrow> bindp (ls_loop tx n d pb) (\<lambda>(ended, d1, _).
           if ended then bindp (closedir d1) (\<lambda>_. ret (Some 0)) else ret None))"

fun ps_list :: "u64 \<Rightarrow> pspcb list \<Rightarrow> char list \<Rightarrow> char list prog" where
  "ps_list tx [] pb = ret pb"
| "ps_list tx (x # xs) pb =
     bindp (u_printf tx (lit (''%d     %d      %s'' @ [LF]))
              [Slot (scast (ps_pid x)), Slot (scast (ps_ppid x)), Text (ps_pname x)] pb) (\<lambda>(_, pb1). ps_list tx xs pb1)"

text \<open>The loop reads \<^verbatim>\<open>buffer[i]\<close> for each \<open>i\<close> below the number that \<^verbatim>\<open>get_ps\<close> returns; \<^verbatim>\<open>main\<close> has no \<^verbatim>\<open>return\<close> and so returns 0.\<close>

definition ps_main :: "u64 \<Rightarrow> u64 \<Rightarrow> pspcb list \<Rightarrow> char list \<Rightarrow> int prog" where
  "ps_main at tx buffer pb =
     bindp (get_ps (Procs at buffer) 50) (\<lambda>(pcount, b).
     bindp (u_printf tx (lit (''PID    PPID    NAME'' @ [LF])) [] pb) (\<lambda>(_, pb1).
       if nat pcount \<le> length (procs_of b)
       then bindp (ps_list tx (take (nat pcount) (procs_of b)) pb1) (\<lambda>_. ret 0)
       else Done (Inl Out_Of_Bounds)))"

section \<open>\<^verbatim>\<open>kill\<close> and \<^verbatim>\<open>sleep\<close>\<close>

text \<open>\<open>res\<close> is an \<^verbatim>\<open>int\<close>, a \<^verbatim>\<open>char\<close> is signed.\<close>

fun atoi_loop :: "nat \<Rightarrow> char list \<Rightarrow> i32 \<Rightarrow> i32 result" where
  "atoi_loop i [] res = Inl Out_Of_Bounds"
| "atoi_loop i (c # cs) res =
     (if c \<noteq> NUL \<and> i < 30 then atoi_loop (Suc i) cs (res * 10 + (scast (of_char c :: 8 word) - 48)) else Inr res)"

definition atoi :: "char list \<Rightarrow> i32 result" where
  "atoi s = atoi_loop 0 s 0"

definition kill_main :: "u64 \<Rightarrow> char list list \<Rightarrow> char list \<Rightarrow> int prog" where
  "kill_main tx argv pb =
     (if length argv < 2 then bindp (u_printf tx (lit (''sleep: need an argumet'' @ [LF])) [] pb) (\<lambda>_. ret 1)
      else bindp (Done (atoi (argv ! 1))) (\<lambda>p.
           bindp (kill p 9) (\<lambda>r.
             if r \<noteq> 0
             then bindp (u_printf tx (lit (''kill: no process found: %d'' @ [LF])) [Slot (scast p)] pb) (\<lambda>_. ret 0)
             else ret 0)))"

definition sleep_main :: "u64 \<Rightarrow> char list list \<Rightarrow> char list \<Rightarrow> int prog" where
  "sleep_main tx argv pb =
     (if length argv < 2 then bindp (u_printf tx (lit (''sleep: need an argumet'' @ [LF])) [] pb) (\<lambda>_. ret 1)
      else bindp (Done (atoi (argv ! 1))) (\<lambda>s. bindp (sleep s) (\<lambda>_. ret 0)))"

section \<open>\<^verbatim>\<open>cat\<close> shows the file\<close>

lemma cat_strcpy_text:
  assumes "terminated s" and "i \<le> clen s" and "clen s < length t" and "clen s \<le> 1024"
  shows "cat_strcpy i s t = Inr (0, splice t i (drop i (cstr s) @ [NUL]))"
  using assms(2,3)
proof (induction "clen s - i" arbitrary: i t)
  case 0
  then have i: "i = clen s" by simp
  then show ?case using 0 clen_less[OF assms(1)] nth_cstr(2)[OF assms(1)]
    by (subst cat_strcpy.simps) (simp add: wr_def splice_def clen_def upd_conv_take_nth_drop)
next
  case (Suc m)
  then have i: "i < clen s" by simp
  have d: "drop i (cstr s) = s ! i # drop (Suc i) (cstr s)"
    using i nth_cstr(1)[OF assms(1) i] by (simp add: clen_def Cons_nth_drop_Suc[symmetric])
  have n: "s ! i \<noteq> NUL" using i nth_cstr(1)[OF assms(1) i] NUL_notin_cstr[of s] by (metis clen_def nth_mem)
  have "cat_strcpy (Suc i) s (t[i := s ! i]) = Inr (0, splice (t[i := s ! i]) (Suc i) (drop (Suc i) (cstr s) @ [NUL]))"
    using Suc by (intro Suc.hyps(1)) simp_all
  moreover have "splice (t[i := s ! i]) (Suc i) (drop (Suc i) (cstr s) @ [NUL]) = splice t i (drop i (cstr s) @ [NUL])"
    using i Suc.prems(2) unfolding d by (simp add: splice_def take_Suc_conv_app_nth)
  moreover have "i < length s" "i < length t" "\<not> 1024 \<le> i"
    using i clen_less[OF assms(1)] Suc.prems(2) assms(4) by simp_all
  ultimately show ?case using n by (subst cat_strcpy.simps) (simp add: wr_def)
qed

lemma on_screen_fields [simp]:
  fixes k :: kernel
  shows "active_blk (on_screen scr k) = active_blk k" "files (on_screen scr k) = files k"
    "sched_of (on_screen scr k) = sched_of k" "vm (on_screen scr k) = vm k"
    "Interrupts.abspath (on_screen scr k) = Interrupts.abspath k" "path_temp (on_screen scr k) = path_temp k"
  by (simp_all add: on_screen_def active_blk_def)

lemma prints_printf:
  assumes "NUL \<notin> set fmt" and "length pb = 30" and "u_render fmt args 0 = Some out"
  obtains pb' where "prints e (u_printf tx (lit fmt) args pb) out (length out, pb')" and "length pb' = 30"
  using u_printf_renders[OF assms, of e tx "[]" 0] that by (auto simp: u_printf_def lit_def)

lemma prints_pair:
  "prints e p t (x, y) \<Longrightarrow> prints e (f x y) u z \<Longrightarrow> prints e (bindp p (\<lambda>(x, y). f x y)) (t @ u) z"
  by (rule prints_bind[where x = "(x, y)"]) simp_all

lemma printf_then:
  fixes k :: kernel
  assumes "NUL \<notin> set fmt" and "length pb = 30" and "u_render fmt args 0 = Some out" and "console_ok (screen (io k))"
  obtains scr pb' where "\<And>f. run e (bindp (u_printf tx (lit fmt) args pb) f) k = run e (f (length out, pb')) (on_screen scr k)"
    and "write_all out (screen (io k)) = Inr scr" and "console_ok scr" and "length pb' = 30"
proof -
  obtain pb' where pb': "prints e (u_printf tx (lit fmt) args pb) out (length out, pb')" "length pb' = 30"
    by (rule prints_printf[OF assms(1-3)])
  obtain scr where "run e (u_printf tx (lit fmt) args pb) k = Finished (length out, pb') (on_screen scr k)"
    "write_all out (screen (io k)) = Inr scr" "console_ok scr"
    by (rule prints_run[OF pb'(1) assms(4)])
  with pb'(2) show thesis by (intro that[OF run_bindp_Finished])
qed

lemma int_arg_minus1: "int_arg (- 1) = - 1"
  by code_simp

lemma int_arg_of_nat: "m < 2 ^ 31 \<Longrightarrow> int_arg (of_nat m) = int m"
  by (simp add: int_arg_def sint_low_word unat_of_nat64)

text \<open>One \<^verbatim>\<open>read\<close> of an open file, up to the end of the line.\<close>

lemma read_fd_chunk:
  assumes "fs_ok (files k) es" and "active_blk k = Inr x" and "fd_at (files k) q d p (fd_table x ! f)"
    and "0 < f" and "f < 15" and "length (fd_table x) = 15" and "length b = 1024" and "p < length d"
    and "t = chunk 1023 (drop p d)"
  obtains r k' x' where "run e (read_fd (int f) (Chars a b) 1024) k = Finished (r, Chars a (splice b 0 (t @ [NUL]))) k'"
    and "0 < int_arg r" and "screen (io k') = screen (io k)" and "files k' = files k" and "active_blk k' = Inr x'"
    and "fd_at (files k) q d (p + length t) (fd_table x' ! f)" and "length (fd_table x') = 15"
proof -
  from read_to_buffer_chunk[OF assms(1,3), of 1024 b] assms(7-9) obtain fd' where
    r: "read_to_buffer (files k) (fd_table x ! f) b 1024 =
      Inr (of_nat (length t + (if ends_line t then 0 else 1)), fd', splice b 0 (t @ [NUL]))"
    "fd_at (files k) q d (p + length t) fd'" by auto
  have l: "0 < length t" "length t \<le> 1023" using assms(8,9) length_chunk[of 1023 "drop p d"] by (simp_all add: chunk_Nil)
  let ?n = "length t + (if ends_line t then 0 else 1)"
  have n: "?n < 2 ^ 31" "0 < ?n" using l by auto
  have i: "0 < int_arg (of_nat ?n)" using n(2) by (simp only: int_arg_of_nat[OF n(1)] of_nat_0_less_iff)
  let ?x = "x\<lparr>fd_table := (fd_table x)[f := fd']\<rparr>"
  let ?k = "set_sched (put_pcb (active_pcb (sched_of k)) ?x (sched_of k)) k"
  have f: "unat (of_nat f :: u64) = f" "(of_nat f :: u64) \<noteq> 0"
    using assms(4,5) unat_of_nat64[of f] by (auto simp: word_unat_eq_iff)
  have d: "do_read (of_nat f) (Chars a b) 1024 k = Inr (Ret (of_nat ?n) (Chars a (splice b 0 (t @ [NUL]))), ?k)"
    using f assms(2,5,6) r(1) by (simp add: do_read_def fd_entry_def upd_active_run)
  show thesis
  proof (rule that)
    show "run e (read_fd (int f) (Chars a b) 1024) k = Finished (of_nat ?n, Chars a (splice b 0 (t @ [NUL]))) ?k"
      by (simp add: read_fd_def syscall_3_def do_system_call_def d del: of_nat_add)
    show "active_blk ?k = Inr ?x" using assms(2) by (rule active_blk_put)
  qed (use i r(2) assms(5,6) in \<open>simp_all add: set_sched_def\<close>)
qed

lemma read_fd_eof:
  assumes "active_blk k = Inr x" and "fd_at (files k) q d (length d) (fd_table x ! f)" and "0 < f" and "f < 15"
    and "length (fd_table x) = 15"
  obtains k' x' where "run e (read_fd (int f) (Chars a b) n) k = Finished (0, Chars a b) k'"
    and "screen (io k') = screen (io k)" and "active_blk k' = Inr x'" and "length (fd_table x') = 15"
proof -
  let ?x = "x\<lparr>fd_table := (fd_table x)[f := fd_table x ! f]\<rparr>"
  let ?k = "set_sched (put_pcb (active_pcb (sched_of k)) ?x (sched_of k)) k"
  have f: "unat (of_nat f :: u64) = f" "(of_nat f :: u64) \<noteq> 0"
    using assms(3,4) unat_of_nat64[of f] by (auto simp: word_unat_eq_iff)
  have d: "do_read (of_nat f) (Chars a b) n k = Inr (Ret 0 (Chars a b), ?k)"
    using f assms(1,4,5) read_to_buffer_eof[OF assms(2)] by (simp add: do_read_def fd_entry_def upd_active_run)
  show thesis
  proof (rule that)
    show "run e (read_fd (int f) (Chars a b) n) k = Finished (0, Chars a b) ?k"
      by (simp add: read_fd_def syscall_3_def do_system_call_def d)
    show "active_blk ?k = Inr ?x" using assms(1) by (rule active_blk_put)
  qed (use assms(5) in \<open>simp_all add: set_sched_def\<close>)
qed

lemma cat_loop_prints:
  assumes "fs_ok (files k) es" and "active_blk k = Inr x" and "fd_at (files k) q d p (fd_table x ! f)"
    and "0 < f" and "f < 15" and "length (fd_table x) = 15" and "NUL \<notin> set d" and "length b = 1024" and "length pb = 30"
    and "console_ok (screen (io k))" and "length d - p < n"
  shows "\<exists>k' x'. run e (cat_loop a tx n (int f) b pb) k = Finished True k' \<and>
    write_all (drop p d) (screen (io k)) = Inr (screen (io k')) \<and> console_ok (screen (io k')) \<and>
    active_blk k' = Inr x' \<and> length (fd_table x') = 15"
  using assms(1-3,6,8-11)
proof (induction n arbitrary: k x p b pb)
  case 0
  then show ?case by simp
next
  case (Suc n)
  show ?case
  proof (cases "p < length d")
    case False
    then have p: "p = length d" using Suc.prems(3) by (simp add: fd_at_def)
    obtain k' x' where k': "run e (read_fd (int f) (Chars a b) 1024) k = Finished (0, Chars a b) k'"
      "screen (io k') = screen (io k)" "active_blk k' = Inr x'" "length (fd_table x') = 15"
      by (rule read_fd_eof[OF Suc.prems(2) Suc.prems(3)[unfolded p] assms(4,5) Suc.prems(4)])
    show ?thesis using k' p Suc.prems(7)
      by (intro exI[of _ k'] exI[of _ x']) (simp add: run_bindp_Finished[OF k'(1)] int_arg_def)
  next
    case True
    let ?t = "chunk 1023 (drop p d)"
    let ?b = "splice b 0 (?t @ [NUL])"
    obtain r k1 x1 where k1: "run e (read_fd (int f) (Chars a b) 1024) k = Finished (r, Chars a ?b) k1" "0 < int_arg r"
      "screen (io k1) = screen (io k)" "files k1 = files k" "active_blk k1 = Inr x1"
      "fd_at (files k) q d (p + length ?t) (fd_table x1 ! f)" "length (fd_table x1) = 15"
      by (rule read_fd_chunk[OF Suc.prems(1-3) assms(4,5) Suc.prems(4,5) True refl])
    have t: "?t \<noteq> []" "length ?t \<le> 1023" "?t = take (length ?t) (drop p d)"
      using True length_chunk[of 1023 "drop p d"] chunk_take[of 1023 "drop p d"] by (simp_all add: chunk_Nil)
    have nt: "NUL \<notin> set ?t" using assms(7) t(3) by (metis in_set_dropD in_set_takeD)
    have b: "cstr ?b = ?t" "terminated ?b" "length ?b = 1024"
      using nt t(2) Suc.prems(5) by (simp_all add: splice_def)
    have d: "?t @ drop (p + length ?t) d = drop p d"
      using t(3) append_take_drop_id[of "length ?t" "drop p d"] by (simp add: add.commute)
    have f: "NUL \<notin> set ''%s''" "u_render ''%s'' [Text ?b] 0 = Some ?t" using b by simp_all
    obtain pb' where pb': "prints e (u_printf tx (lit ''%s'') [Text ?b] pb) ?t (length ?t, pb')" "length pb' = 30"
      by (rule prints_printf[OF f(1) Suc.prems(6) f(2)])
    have ok: "console_ok (screen (io k1))" unfolding k1(3) by (rule Suc.prems(7))
    obtain scr where scr: "run e (u_printf tx (lit ''%s'') [Text ?b] pb) k1 = Finished (length ?t, pb') (on_screen scr k1)"
      "write_all ?t (screen (io k1)) = Inr scr" "console_ok scr"
      by (rule prints_run[OF pb'(1) ok])
    let ?k = "on_screen scr k1"
    have "0 < length ?t" using t(1) by simp
    then have "length d - (p + length ?t) < n" using Suc.prems(8) True by linarith
    then obtain k' x' where k': "run e (cat_loop a tx n (int f) ?b pb') ?k = Finished True k'"
      "write_all (drop (p + length ?t) d) scr = Inr (screen (io k'))" "console_ok (screen (io k'))"
      "active_blk k' = Inr x'" "length (fd_table x') = 15"
      using Suc.IH[of ?k x1 "p + length ?t" ?b pb'] Suc.prems(1) k1(4-7) b(3) pb'(2) scr(3) by auto
    have "write_all (?t @ drop (p + length ?t) d) (screen (io k)) = Inr (screen (io k'))"
      unfolding write_all_append k1(3)[symmetric] scr(2) by (simp add: k'(2))
    then have "write_all (drop p d) (screen (io k)) = Inr (screen (io k'))" by (simp only: d)
    with k' k1(2) show ?thesis
      by (intro exI[of _ k'] exI[of _ x']) (simp add: run_bindp_Finished[OF k1(1)] run_bindp_Finished[OF scr(1)])
  qed
qed

text \<open>A path that names no file with data is not opened.\<close>

lemma open_missing:
  assumes "active_blk k = Inr x" and "length (Interrupts.abspath k) = 100" and "length (path_temp k) = 100"
    and "terminated (wd x)" and "cstr (wd x) = CHR ''/'' # b" and "terminated path"
    and "t = merged (cstr (wd x)) (cstr path)" and "length t < 100" and "length (split_slash t) \<le> 14"
    and "fs_ok (files k) es" and "sizes_ok es" and "clean t = CHR ''/'' # n" and "\<forall>q d. locate 0 es n = Some (q, d) \<longrightarrow> d = []"
  obtains ab tmp where "do_open (Chars a path) 0 k = Some (Inr (Ret (- 1) (Word 0), k\<lparr>abspath := ab, path_temp := tmp\<rparr>))"
proof -
  have p: "terminated (chars_of (Chars a path))" "t = merged (cstr (wd x)) (cstr (chars_of (Chars a path)))"
    using assms(6,7) by simp_all
  obtain ab tmp where
    m: "merge_path (Chars a path) k = Some (Inr (k\<lparr>abspath := ab, path_temp := tmp\<rparr>))"
    "length ab = 100" "length tmp = 100" "terminated ab" "cstr ab = (if t = ''/'' then ''/'' else clean t)"
    by (rule merge_path_run[OF assms(1-5) p assms(8,9)])
  have "t \<noteq> ''/''"
  proof
    assume "t = ''/''"
    then have "clean t = []" by (simp add: clean_def join_parts_def)
    then show False using assms(12) by simp
  qed
  then have ab: "cstr ab = CHR ''/'' # n" using m(5) assms(12) by simp
  note d1 = drop1_terminated[OF m(4) ab]
  have s: "search_file_open (files k) ab = Some (Inr (0, ()))"
    unfolding search_file_open_def tar_search_locate[OF assms(10,11) d1(1)] d1(2)
    using assms(13) by (auto split: option.splits)
  show thesis by (rule that) (simp add: do_open_def m(1) s)
qed

lemma merged_length: "length p \<le> length (merged w p) + 2"
  by (auto simp: merged_def)

lemma close_run:
  assumes "active_blk k = Inr x" and "f < 15" and "length (fd_table x) = 15"
  obtains k' where "run e (close_fd (int f)) k = Finished 0 k'" and "screen (io k') = screen (io k)"
proof -
  have f: "unat (of_nat f :: u64) = f" using assms(2) by (simp add: unat_of_nat64)
  let ?x = "x\<lparr>fd_table := (fd_table x)[f := \<lparr>file_start_address = 0, file_size = 0, file_offset = 0\<rparr>]\<rparr>"
  show thesis
    by (rule that[of "set_sched (put_pcb (active_pcb (sched_of k)) ?x (sched_of k)) k"]) (use assms f in \<open>simp_all add: close_fd_def syscall_1_def syscall_3_def do_system_call_def do_close_def
      fd_entry_def upd_active_run int_arg_def\<close>)
qed

text \<open>C21: \<^verbatim>\<open>cat\<close> with a path puts exactly the bytes of the file on the screen, line by line through \<^verbatim>\<open>read\<close> and one system call
  for each character, and returns 0; if the path names no file with data it prints a message and returns -1.\<close>

theorem cat_shows_file:
  assumes "active_blk k = Inr x" and "length (Interrupts.abspath k) = 100" and "length (path_temp k) = 100"
    and "terminated (wd x)" and "cstr (wd x) = CHR ''/'' # b" and "terminated path"
    and "t = merged (cstr (wd x)) (cstr path)" and "length t < 100" and "length (split_slash t) \<le> 14"
    and "fs_ok (files k) es" and "sizes_ok es" and "clean t = CHR ''/'' # n"
    and "length (fd_table x) = 15" and "0 < next_fd x" and "next_fd x < 15" and "console_ok (screen (io k))"
    and "argv = nm # path # rest" and "length buffer = 1024" and "length pb = 30"
    and "d = (case locate 0 es n of None \<Rightarrow> [] | Some (q, d) \<Rightarrow> d)" and "NUL \<notin> set d" and "length d < fuel"
  shows "\<exists>k'. run e (cat_main a tx fuel argv buffer pb) k = Finished (Some (if d = [] then - 1 else 0)) k' \<and>
    write_all (if d = [] then ''cat: '' @ cstr path @ '': Failed to open.'' @ [LF] else d) (screen (io k)) =
      Inr (screen (io k')) \<and> console_ok (screen (io k'))"
proof -
  let ?b = "splice buffer 0 (cstr path @ [NUL])"
  have "clen path < 1024" using merged_length[of "cstr path" "cstr (wd x)"] assms(7,8) by (simp add: clen_def)
  then have cp: "cat_strcpy 0 path buffer = Inr (0, ?b)"
    using cat_strcpy_text[OF assms(6), of 0 buffer] assms(18) by simp
  have b: "cstr ?b = cstr path" "terminated ?b" "length ?b = 1024"
    using \<open>clen path < 1024\<close> assms(18) by (simp_all add: splice_def clen_def)
  have t: "t = merged (cstr (wd x)) (cstr ?b)" unfolding b(1) by (rule assms(7))
  note m = cat_main_def cp assms(17)
  show ?thesis
  proof (cases "d = []")
    case True
    then have none: "\<forall>q d. locate 0 es n = Some (q, d) \<longrightarrow> d = []" using assms(20) by auto
    obtain ab tmp where o: "do_open (Chars a ?b) 0 k = Some (Inr (Ret (- 1) (Word 0), k\<lparr>abspath := ab, path_temp := tmp\<rparr>))"
      by (rule open_missing[OF assms(1-5) b(2) t assms(8-12) none])
    let ?k = "k\<lparr>abspath := ab, path_temp := tmp\<rparr>"
    have r: "run e (open_file (Chars a ?b) 0) k = Finished (- 1) ?k"
      by (simp add: open_file_def syscall_2_def syscall_3_def do_system_call_def o int_arg_minus1)
    have u: "NUL \<notin> set (''cat: %s: Failed to open.'' @ [LF])"
      "u_render (''cat: %s: Failed to open.'' @ [LF]) [Text path] 0 = Some (''cat: '' @ cstr path @ '': Failed to open.'' @ [LF])"
      using assms(6) by simp_all
    have ok: "console_ok (screen (io ?k))" using assms(16) by simp
    obtain pb' scr where scr: "\<And>f :: nat \<times> char list \<Rightarrow> int option prog. run e (bindp (u_printf tx (lit (''cat: %s: Failed to open.'' @ [LF])) [Text path] pb) f) ?k =
        run e (f (length (''cat: '' @ cstr path @ '': Failed to open.'' @ [LF]), pb')) (on_screen scr ?k)"
      "write_all (''cat: '' @ cstr path @ '': Failed to open.'' @ [LF]) (screen (io ?k)) = Inr scr" "console_ok scr"
      by (rule printf_then[OF u(1) assms(19) u(2) ok, of e tx]) (rule that)
    have "run e (cat_main a tx fuel argv buffer pb) k =
        run e (bindp (u_printf tx (lit (''cat: %s: Failed to open.'' @ [LF])) [Text path] pb) (\<lambda>_. ret (Some (- 1)))) ?k"
      by (simp add: m run_bindp r)
    also have "\<dots> = Finished (Some (- 1)) (on_screen scr ?k)" by (simp only: scr(1)) simp
    finally have "run e (cat_main a tx fuel argv buffer pb) k = Finished (Some (- 1)) (on_screen scr ?k)" .
    with True scr(2,3) show ?thesis by (intro exI[of _ "on_screen scr ?k"]) simp
  next
    case False
    then obtain q where l: "locate 0 es n = Some (q, d)" using assms(20) by (auto split: option.splits)
    obtain ab tmp where o: "do_open (Chars a ?b) 0 k =
      bindo (Some (alloc_fd (tar_start (files k) + of_nat q + HEADER_SIZE) (of_nat (length d)) x)) (\<lambda>(fd, y).
        Some (Inr (Ret (of_int fd) (Word 0), set_sched (put_pcb (active_pcb (sched_of k)) y (sched_of k))
          (k\<lparr>abspath := ab, path_temp := tmp\<rparr>))))"
      by (rule open_run[OF assms(1-5) b(2) t assms(8-12) l False])
    let ?f = "next_fd x"
    let ?e = "\<lparr>file_start_address = tar_start (files k) + of_nat q + HEADER_SIZE, file_size = of_nat (length d), file_offset = 0\<rparr>"
    let ?x = "x\<lparr>next_fd := next_fd x + 1, fd_table := (fd_table x)[next_fd x := ?e]\<rparr>"
    let ?k = "set_sched (put_pcb (active_pcb (sched_of k)) ?x (sched_of k)) (k\<lparr>abspath := ab, path_temp := tmp\<rparr>)"
    have f: "int_arg (of_nat ?f) = int ?f" using assms(15) by (intro int_arg_of_nat) simp
    have r: "run e (open_file (Chars a ?b) 0) k = Finished (int ?f) ?k"
      using assms(13,15) by (simp add: open_file_def syscall_2_def syscall_3_def do_system_call_def o alloc_fd_def Let_def f)
    have act: "active_blk ?k = Inr ?x" using assms(1) by (elim active_blkE) (simp add: active_blk_def deref_def)
    have at: "fd_at (files ?k) (q + 512) d 0 (fd_table ?x ! ?f)"
      using fd_at_opened[OF assms(10) l] assms(13,15) by simp
    have fs: "fs_ok (files ?k) es" "console_ok (screen (io ?k))" "length (fd_table ?x) = 15" "length d - 0 < fuel"
      using assms(10,13,16,22) by simp_all
    from cat_loop_prints[OF fs(1) act at assms(14,15) fs(3) assms(21) b(3) assms(19) fs(2,4), of e a tx] obtain k1 x1 where
      k1: "run e (cat_loop a tx fuel (int ?f) ?b pb) ?k = Finished True k1" "write_all d (screen (io k)) = Inr (screen (io k1))"
      "console_ok (screen (io k1))" "active_blk k1 = Inr x1" "length (fd_table x1) = 15" by auto
    obtain k2 where c: "run e (close_fd (int ?f)) k1 = Finished 0 k2" "screen (io k2) = screen (io k1)"
      by (rule close_run[OF k1(4) assms(15) k1(5)])
    have "run e (cat_main a tx fuel argv buffer pb) k = run e (bindp (cat_loop a tx fuel (int ?f) ?b pb)
        (\<lambda>ended. if ended then bindp (close_fd (int ?f)) (\<lambda>_. ret (Some 0)) else ret None)) ?k"
      by (simp add: m run_bindp r)
    also have "\<dots> = run e (bindp (close_fd (int ?f)) (\<lambda>_. ret (Some 0))) k1" by (simp only: run_bindp_Finished[OF k1(1)] if_True)
    also have "\<dots> = Finished (Some 0) k2" by (simp only: run_bindp_Finished[OF c(1)]) simp
    finally have "run e (cat_main a tx fuel argv buffer pb) k = Finished (Some 0) k2" .
    with False k1 c(2) show ?thesis by (intro exI[of _ k2]) simp
  qed
qed

theorem cat_shows_file_witness:
  "\<exists>k'. run demo_env (cat_main 0x601000 0x602000 9 [lit ''cat'', lit ''/etc/x''] (replicate 1024 NUL) (replicate 30 NUL)) root_kernel =
      Finished (Some 0) k' \<and> write_all (''ab'' @ [LF] @ ''c'') (screen (io root_kernel)) = Inr (screen (io k'))"
proof -
  note f = root_kernel_fields shell_block_fields
  have d: "fs_ok (files root_kernel) demo" "sizes_ok demo" using demo_ok by (simp_all add: f)
  have l: "length (Interrupts.abspath root_kernel) = 100" "length (path_temp root_kernel) = 100" by (simp_all add: f)
  have t: "terminated (wd shell_block)" "cstr (wd shell_block) = CHR ''/'' # []" "terminated (lit ''/etc/x'')"
    "''/etc/x'' = merged (cstr (wd shell_block)) (cstr (lit ''/etc/x''))" "length ''/etc/x'' < 100"
    "length (split_slash ''/etc/x'') \<le> 14" by (simp_all add: f merged_def)
  have c: "clean ''/etc/x'' = CHR ''/'' # ''etc/x''" by (simp add: clean_def join_parts_def)
  have x: "length (fd_table shell_block) = 15" "0 < next_fd shell_block" "next_fd shell_block < 15"
    by (simp_all add: shell_block_def blank_pcb_def)
  have s: "console_ok (screen (io root_kernel))" by (simp add: root_kernel_def demo_kernel_def blank_console_ok)
  have a: "[lit ''cat'', lit ''/etc/x''] = lit ''cat'' # lit ''/etc/x'' # []" "length (replicate 1024 NUL) = 1024"
    "length (replicate 30 NUL) = 30" by simp_all
  have q: "''ab'' @ [LF] @ ''c'' = (case locate 0 demo ''etc/x'' of None \<Rightarrow> [] | Some (q, d) \<Rightarrow> d)"
    "NUL \<notin> set (''ab'' @ [LF] @ ''c'')" "length (''ab'' @ [LF] @ ''c'') < 9" by (simp_all add: demo_def)
  have "''ab'' @ [LF] @ ''c'' \<noteq> []" by simp
  from cat_shows_file[OF f(2) l t d c x s a q, of demo_env "0x601000" "0x602000", unfolded if_not_P[OF this]]
  show ?thesis by blast
qed

section \<open>Numbers as arguments\<close>

lemma digits_digits: "c \<in> set (digits 10 n) \<Longrightarrow> \<exists>k<10. c = digit k"
proof (induction n rule: less_induct)
  case (less n)
  then have n: "0 < n" by (cases n) simp_all
  then have "c \<in> set (digits 10 (n div 10)) \<or> c = digit (n mod 10)" using less.prems by (auto simp: digits_rec)
  then show ?case
  proof
    assume "c \<in> set (digits 10 (n div 10))"
    with n show ?thesis by (intro less.IH[of "n div 10"]) simp_all
  qed (intro exI[of _ "n mod 10"], simp)
qed

lemma number_digits: "c \<in> set (number_text 10 n) \<Longrightarrow> \<exists>k<10. c = digit k"
proof -
  assume c: "c \<in> set (number_text 10 n)"
  have "CHR ''0'' = digit 0" by code_simp
  with c digits_digits[of c n] show ?thesis
    by (cases "n = 0") (auto simp: number_text_def intro: exI[of _ 0])
qed

lemma digit_as_int: "k < 10 \<Longrightarrow> scast (of_char (digit k) :: 8 word) - 48 = (of_nat k :: i32)"
proof -
  have "list_all (\<lambda>k. scast (of_char (digit k) :: 8 word) - 48 = (of_nat k :: i32)) [0..<10]" by code_simp
  then show "k < 10 \<Longrightarrow> scast (of_char (digit k) :: 8 word) - 48 = (of_nat k :: i32)" by (simp add: list_all_iff)
qed

lemma atoi_loop_number:
  assumes "\<forall>c\<in>set t. \<exists>k<10. c = digit k" and "i + length t \<le> 30" and "NUL \<notin> set t"
  shows "atoi_loop i (t @ NUL # r) (of_nat m) = Inr (of_nat (foldl (\<lambda>a c. a * 10 + digit_value c) m t))"
  using assms
proof (induction t arbitrary: i m)
  case (Cons c t)
  then obtain k where k: "k < 10" "c = digit k" by auto
  have "scast (of_char c :: 8 word) - 48 = (of_nat (digit_value c) :: i32)"
    using digit_as_int[OF k(1)] k by (simp add: digit_value_digit)
  then have "of_nat m * 10 + (scast (of_char c :: 8 word) - 48) = (of_nat (m * 10 + digit_value c) :: i32)" by simp
  with Cons.IH[of "Suc i" "m * 10 + digit_value c"] Cons.prems show ?case by auto
qed simp

lemma atoi_number:
  assumes "n < 2 ^ 31" and "terminated s" and "cstr s = number_text 10 n"
  shows "atoi s = Inr (of_nat n)"
proof -
  have "length (number_text 10 n) \<le> 10" using assms(1) by (intro length_number_text) simp_all
  moreover obtain r where "s = cstr s @ NUL # r" using assms(2) by (elim terminatedE) auto
  ultimately show ?thesis
    using atoi_loop_number[of "number_text 10 n" 0 r 0] number_digits number_text_plain[of 10 n] read_number_text[of 10 n]
    by (auto simp: atoi_def read_number_def assms(3))
qed

lemma ucast_of_nat_i32: "n < 2 ^ 31 \<Longrightarrow> (ucast (of_nat n :: i32) :: u64) = of_nat n"
  by (rule word_unat_eq_iff[THEN iffD2]) (simp add: unsigned_ucast_eq unsigned_of_nat take_bit_nat_eq_self)

lemma ucast_of_nat_u64: "n < 2 ^ 31 \<Longrightarrow> (ucast (of_nat n :: u64) :: i32) = of_nat n"
  by (rule word_unat_eq_iff[THEN iffD2]) (simp add: unsigned_ucast_eq unsigned_of_nat take_bit_nat_eq_self)

lemma ucast_scast_id: "(ucast (scast (y :: i32) :: u64) :: i32) = y"
  by (rule bit_word_eqI) (auto simp: bit_simps)

lemma sint_of_nat_small: "n < 2 ^ 31 \<Longrightarrow> sint (of_nat n :: i32) = int n"
  using sint_low_word[of "of_nat n"] by (simp add: unat_of_nat64 ucast_of_nat_u64)

lemma scast_eq_of_nat:
  assumes "n < 2 ^ 31"
  shows "(scast (y :: i32) :: u64) = of_nat n \<longleftrightarrow> y = of_nat n"
proof
  assume "(scast y :: u64) = of_nat n"
  then show "y = of_nat n" using ucast_scast_id[of y] ucast_of_nat_u64[OF assms] by simp
next
  assume "y = of_nat n"
  then show "(scast y :: u64) = of_nat n"
    by (simp only: scast_eq sint_of_nat_small[OF assms] of_int_of_nat_eq)
qed

text \<open>C23: \<^verbatim>\<open>sleep n\<close> parks the process on the alarm: the next process gets the processor, before the time has come no timer
  tick makes the sleeper ready, at most two ticks after it the sleeper is ready again, and the program then
  returns 0. (A second is ten ticks.)\<close>

theorem sleep_wakes_in_time:
  assumes "active_pcb (sched_of k) = p" and "active_blk k = Inr x" and "sched_ok (sched_of k) q" and "r \<in> set q"
    and "runnable (sched_of k) r" and "timer_at m (clock k) (clock_buff k)" and "argv = nm # arg # rest" and "terminated arg"
    and "cstr arg = number_text 10 n" and "0 < n" and "m + 10 * n < 359990"
  shows "\<exists>g k1 sp t. run e (sleep_main tx argv pb) k = Blocked In_Alarm g k1 \<and>
    schedule rsp (sched_of k1) = Some (Inr (sp, t)) \<and> active_pcb t \<noteq> p \<and>
    (\<forall>j. m + j < 359990 \<longrightarrow> (\<exists>t' b' s'. run_ticks j (clock k1, clock_buff k1, t) = Inr (t', b', s') \<and>
      (j < 10 * n \<longrightarrow> \<not> runnable s' p) \<and> (10 * n + 2 \<le> j \<longrightarrow> runnable s' p))) \<and>
    (\<forall>k'. resume In_Alarm k' = Inr (Ret 0 (Word 0), k') \<and> run e (g (0, Word 0)) k' = Finished 0 k')"
proof -
  let ?f = "\<lambda>x. x\<lparr>waiting_on_clock := timer_get_clock (clock k) + 10 * of_nat n, status := WAITING\<rparr>"
  have w: "status (?f x) = WAITING" by simp
  have n: "n < 2 ^ 31" using assms(11) by simp
  obtain k1 sp t q' where
    k1: "upd_active ?f k = Inr k1" "k1 = set_sched (put_pcb p (?f x) (sched_of k)) k" "schedule rsp (sched_of k1) = Some (Inr (sp, t))"
    and t: "sched_ok t q'" "active_pcb t \<noteq> p" "p \<in> set q'" "pcbs t p = Some ((?f x)\<lparr>kernel_sp := rsp\<rparr>)"
    unfolding assms(1)[symmetric] by (rule upd_active_blocks[where f = ?f, OF assms(2-5) w])
  have a: "atoi arg = Inr (of_nat n)" by (rule atoi_number[OF n assms(8,9)])
  have d: "do_alarm (of_nat n) k = Inr (Sched In_Alarm, k1)" by (simp add: do_alarm_def k1(1))
  let ?g = "\<lambda>r. bindp (bindp (ret r) (\<lambda>(r, _). ret (ucast r :: u32))) (\<lambda>_. ret (0 :: int))"
  have r: "run e (sleep_main tx argv pb) k = Blocked In_Alarm ?g k1"
    by (simp add: sleep_main_def assms(7) a sleep_def syscall_1_def syscall_3_def do_system_call_def d ucast_of_nat_i32[OF n])
  have clk: "timer_get_clock (clock k) + 10 * of_nat n = (of_nat (m + 10 * n) :: u64)"
    using assms(6) by (simp add: timer_get_clock_def timer_at_def)
  have cl: "clock k1 = clock k" "clock_buff k1 = clock_buff k" by (simp_all add: k1(2) set_sched_def)
  have ticks: "\<exists>t' b' s'. run_ticks j (clock k1, clock_buff k1, t) = Inr (t', b', s') \<and>
      (j < 10 * n \<longrightarrow> \<not> runnable s' p) \<and> (10 * n + 2 \<le> j \<longrightarrow> runnable s' p)" if "m + j < 359990" for j
  proof -
    have wc: "status ((?f x)\<lparr>kernel_sp := rsp\<rparr>) = WAITING"
      "waiting_on_clock ((?f x)\<lparr>kernel_sp := rsp\<rparr>) = of_nat (m + 10 * n)" using clk by simp_all
    have m: "m < m + 10 * n" using assms(10) by simp
    from alarm_wakes_in_time[OF assms(6) that t(1,3,4) wc m assms(11)] obtain t' b' s' where
      s': "run_ticks j (clock k, clock_buff k, t) = Inr (t', b', s')"
      "m + j < m + 10 * n \<longrightarrow> pcbs s' p = Some ((?f x)\<lparr>kernel_sp := rsp\<rparr>)"
      "m + 10 * n + 2 \<le> m + j \<longrightarrow> pcbs s' p = Some ((?f x)\<lparr>kernel_sp := rsp, waiting_on_clock := 0, status := RUNNING\<rparr>)"
      by auto
    then show ?thesis by (intro exI[of _ t'] exI[of _ b'] exI[of _ s']) (simp add: cl has_status_def)
  qed
  show ?thesis using r k1(3) t(2) ticks by (intro exI[of _ ?g] exI[of _ k1] exI[of _ sp] exI[of _ t]) simp
qed

theorem sleep_wakes_in_time_witness:
  "\<exists>g k1. run demo_env (sleep_main 0x602000 [lit ''sleep'', lit ''3''] (replicate 30 NUL)) (pair_kernel READY) = Blocked In_Alarm g k1 \<and>
     (\<exists>sp t. schedule 0x9000 (sched_of k1) = Some (Inr (sp, t)) \<and> active_pcb t \<noteq> 0x1000 \<and>
       (\<exists>t' b' s'. run_ticks 32 (clock k1, clock_buff k1, t) = Inr (t', b', s') \<and> runnable s' 0x1000))"
proof -
  have q: "active_pcb (sched_of (pair_kernel READY)) = 0x1000" "sched_ok (sched_of (pair_kernel READY)) [0x2000]"
    "0x2000 \<in> set [0x2000 :: u64]" "runnable (sched_of (pair_kernel READY)) 0x2000"
    using two_blocks_ok pair_runnable by (simp_all only: pair_kernel_fields) (simp add: two_blocks_def)
  have t: "timer_at 0 (clock (pair_kernel READY)) (clock_buff (pair_kernel READY))"
    by (simp add: timer_at_def pair_kernel_def root_kernel_def demo_kernel_def set_sched_def)
  have a: "[lit ''sleep'', lit ''3''] = lit ''sleep'' # lit ''3'' # []" "terminated (lit ''3'')" by simp_all
  have n: "number_text 10 3 = ''3''" by code_simp
  have c: "cstr (lit ''3'') = number_text 10 3" "(0 :: nat) < 3" "0 + 10 * (3 :: nat) < 359990" by (simp_all add: n)
  from sleep_wakes_in_time[OF q(1) pair_kernel_fields(2) q(2-4) t a c, of demo_env "0x602000" "replicate 30 NUL" "0x9000"]
  obtain g k1 sp t where r: "run demo_env (sleep_main 0x602000 [lit ''sleep'', lit ''3''] (replicate 30 NUL)) (pair_kernel READY) =
      Blocked In_Alarm g k1" "schedule 0x9000 (sched_of k1) = Some (Inr (sp, t))" "active_pcb t \<noteq> 0x1000"
    and j: "\<forall>j. 0 + j < 359990 \<longrightarrow> (\<exists>t' b' s'. run_ticks j (clock k1, clock_buff k1, t) = Inr (t', b', s') \<and>
      (j < 10 * 3 \<longrightarrow> \<not> runnable s' 0x1000) \<and> (10 * 3 + 2 \<le> j \<longrightarrow> runnable s' 0x1000))" by blast
  from j[rule_format, of 32] obtain t' b' s' where
    "run_ticks 32 (clock k1, clock_buff k1, t) = Inr (t', b', s')" "runnable s' 0x1000" by auto
  with r show ?thesis by blast
qed

text \<open>C22: \<^verbatim>\<open>kill n\<close> ends the first queued process with this pid and wakes those that wait for it with status 9, and nothing else
  changes in the scheduler; without such a process it prints a message. It returns 0 in both cases.\<close>

theorem kill_ends_process:
  assumes "sched_ok (sched_of k) q" and "argv = nm # arg # rest" and "terminated arg" and "cstr arg = number_text 10 n"
    and "n < 2 ^ 31" and "console_ok (screen (io k))" and "length pb = 30"
  shows "\<exists>k'. run e (kill_main tx argv pb) k = Finished 0 k' \<and>
    (case List.find (\<lambda>p. \<exists>x. pcbs (sched_of k) p = Some x \<and> pid x = of_nat n) q of
       None \<Rightarrow> sched_of k' = sched_of k \<and>
         write_all (''kill: no process found: '' @ number_text 10 n @ [LF]) (screen (io k)) = Inr (screen (io k'))
     | Some p \<Rightarrow> screen (io k') = screen (io k) \<and>
         sched_of k' = wake (\<lambda>x. status x = WAITING \<and> waiting_on_pid x = of_nat n)
           (\<lambda>x. x\<lparr>waiting_on_pid := 0, exit_notify_status := 9, status := RUNNING\<rparr>) q
           (put_pcb p (the (pcbs (sched_of k) p)\<lparr>status := FINISHED\<rparr>) (sched_of k)))"
proof -
  have a: "atoi arg = Inr (of_nat n)" by (rule atoi_number[OF assms(5,3,4)])
  note eq = scast_eq_of_nat[OF assms(5)]
  let ?find = "List.find (\<lambda>p. \<exists>x. pcbs (sched_of k) p = Some x \<and> pid x = of_nat n) q"
  have w: "kill_pid (of_nat n) (sched_of k) = (case ?find of None \<Rightarrow> Inr (1, sched_of k)
     | Some p \<Rightarrow> Inr (0, put_pcb p (the (pcbs (sched_of k) p)\<lparr>status := FINISHED\<rparr>) (sched_of k)))"
    using walk_kill[OF sched_ok_blocks[OF assms(1)], of "of_nat n"]
    by (simp add: kill_pid_def for_queue_walk[OF sched_ok_ring[OF assms(1)]] eq split: option.splits)
  show ?thesis
  proof (cases ?find)
    case None
    have i: "sint (ucast (scast (of_nat n :: i32) :: u64) :: i32) = int n"
      using assms(5) by (simp add: ucast_scast_id sint_of_nat_small)
    have u: "NUL \<notin> set (''kill: no process found: %d'' @ [LF])"
      "u_render (''kill: no process found: %d'' @ [LF]) [Slot (scast (of_nat n :: i32))] 0 =
        Some (''kill: no process found: '' @ number_text 10 n @ [LF])"
      by (simp_all add: i Let_def)
    have ok: "console_ok (screen (io (set_sched (sched_of k) k)))" using assms(6) by simp
    obtain scr pb' where scr: "\<And>f. run e (bindp (u_printf tx (lit (''kill: no process found: %d'' @ [LF]))
          [Slot (scast (of_nat n :: i32))] pb) f) (set_sched (sched_of k) k) =
        (run e (f (length (''kill: no process found: '' @ number_text 10 n @ [LF]), pb')) (on_screen scr (set_sched (sched_of k) k)) :: int ran)"
      "write_all (''kill: no process found: '' @ number_text 10 n @ [LF]) (screen (io (set_sched (sched_of k) k))) = Inr scr"
      by (rule printf_then[OF u(1) assms(7) u(2) ok, of e tx]) (rule that)
    have "do_kill (of_nat n) 9 k = Inr (Ret (- 1) (Word 0), set_sched (sched_of k) k)"
      by (simp add: do_kill_def w None)
    then have "run e (kill_main tx argv pb) k = run e (bindp (u_printf tx (lit (''kill: no process found: %d'' @ [LF]))
          [Slot (scast (of_nat n :: i32))] pb) (\<lambda>_. ret 0)) (set_sched (sched_of k) k)"
      by (simp add: kill_main_def assms(2) a kill_def syscall_2_def syscall_3_def do_system_call_def ucast_of_nat_i32[OF assms(5)]
        int_arg_minus1)
    also have "\<dots> = Finished 0 (on_screen scr (set_sched (sched_of k) k))" by (simp only: scr(1)) simp
    finally show ?thesis using scr(2) None by (intro exI[of _ "on_screen scr (set_sched (sched_of k) k)"]) simp
  next
    case (Some p)
    let ?s = "put_pcb p (the (pcbs (sched_of k) p)\<lparr>status := FINISHED\<rparr>) (sched_of k)"
    have "do_kill (of_nat n) 9 k = Inr (Ret 0 (Word 0), set_sched (wake (\<lambda>x. status x = WAITING \<and> waiting_on_pid x = of_nat n)
           (\<lambda>x. x\<lparr>waiting_on_pid := 0, exit_notify_status := 9, status := RUNNING\<rparr>) q ?s) k)"
      using assms(5) by (simp add: do_kill_def w Some notify_wakes[OF sched_ok_put[OF assms(1)]] vma_free_pages_def
        ucast_of_nat_u64)
    then show ?thesis
      by (simp add: kill_main_def assms(2) a kill_def syscall_2_def syscall_3_def do_system_call_def Some
        ucast_of_nat_i32[OF assms(5)] int_arg_def)
  qed
qed

theorem kill_ends_process_witness:
  "\<exists>k'. run demo_env (kill_main 0x602000 [lit ''kill'', lit ''2''] (replicate 30 NUL)) (pair_kernel READY) = Finished 0 k' \<and>
     map_option status (pcbs (sched_of k') 0x2000) = Some FINISHED"
proof -
  have q: "sched_ok (sched_of (pair_kernel READY)) [0x2000]" by (simp only: pair_kernel_fields two_blocks_ok)
  have a: "[lit ''kill'', lit ''2''] = lit ''kill'' # lit ''2'' # []" "terminated (lit ''2'')" by simp_all
  have n: "number_text 10 2 = ''2''" by code_simp
  have c: "cstr (lit ''2'') = number_text 10 2" "(2 :: nat) < 2 ^ 31" by (simp_all add: n)
  have s: "console_ok (screen (io (pair_kernel READY)))" "length (replicate 30 NUL) = 30"
    by (simp_all add: pair_kernel_def root_kernel_def demo_kernel_def blank_console_ok)
  from kill_ends_process[OF q a c s, of demo_env "0x602000"] show ?thesis
    unfolding pair_kernel_fields by (auto simp: two_blocks_pcbs wake_def)
qed

text \<open>One line of the table.\<close>

definition ps_line :: "pspcb \<Rightarrow> string" where
  "ps_line x = number_text 10 (nat (sint (ps_pid x))) @ ''     '' @ number_text 10 (nat (sint (ps_ppid x))) @ ''      '' @
     cstr (ps_pname x) @ [LF]"

definition ps_shown :: "pspcb \<Rightarrow> bool" where
  "ps_shown x = (0 \<le> sint (ps_pid x) \<and> 0 \<le> sint (ps_ppid x) \<and> terminated (ps_pname x))"

lemma pid_text_short: "length (number_text 10 (nat (sint (p :: i32)))) \<le> 10"
proof -
  have "nat (sint p) < 2 ^ 31" using sint_lt[of p] by (simp add: nat_less_iff)
  then show ?thesis by (intro length_number_text) simp_all
qed

lemma ps_line_rendered:
  assumes "ps_shown x"
  shows "u_render (''%d     %d      %s'' @ [LF]) [Slot (scast (ps_pid x)), Slot (scast (ps_ppid x)), Text (ps_pname x)] 0 =
    Some (ps_line x)"
proof -
  have "nat \<bar>sint (ps_pid x)\<bar> = nat (sint (ps_pid x))" "nat \<bar>sint (ps_ppid x)\<bar> = nat (sint (ps_ppid x))"
    using assms by (simp_all add: ps_shown_def)
  then show ?thesis using assms pid_text_short[of "ps_pid x"] unfolding ps_shown_def
    by (simp add: ucast_scast_id Let_def ps_line_def)
qed

lemma prints_ps_list:
  assumes "\<forall>x\<in>set xs. ps_shown x" and "length pb = 30"
  shows "\<exists>pb'. prints e (ps_list tx xs pb) (concat (map ps_line xs)) pb'"
  using assms
proof (induction xs arbitrary: pb)
  case Nil
  then show ?case by (intro exI[of _ pb]) (simp add: prints_ret)
next
  case (Cons x xs)
  have x: "ps_shown x" using Cons.prems(1) by simp
  have f: "NUL \<notin> set (''%d     %d      %s'' @ [LF])" by simp
  obtain pb1 where pb1: "prints e (u_printf tx (lit (''%d     %d      %s'' @ [LF]))
      [Slot (scast (ps_pid x)), Slot (scast (ps_ppid x)), Text (ps_pname x)] pb) (ps_line x) (length (ps_line x), pb1)" "length pb1 = 30"
    by (rule prints_printf[OF f Cons.prems(2) ps_line_rendered[OF x]])
  from Cons.IH[OF _ pb1(2)] Cons.prems(1) obtain pb' where "prints e (ps_list tx xs pb1) (concat (map ps_line xs)) pb'" by auto
  then have "prints e (ps_list tx (x # xs) pb) (ps_line x @ concat (map ps_line xs)) pb'"
    unfolding ps_list.simps by (intro prints_pair[OF pb1(1)])
  then show ?case by (intro exI[of _ pb']) simp
qed

definition pcb_entry :: "pcb \<Rightarrow> pspcb" where
  "pcb_entry x = \<lparr>ps_pid = pid x, ps_ppid = ppid x, ps_pname = pname x\<rparr>"

lemma ps_line_info:
  assumes "terminated (pname x)" and "clen (pname x) < length (ps_pname y)"
  shows "ps_line (info_entry x y) = ps_line (pcb_entry x)" and "ps_shown (pcb_entry x) \<Longrightarrow> ps_shown (info_entry x y)"
  using assms by (simp_all add: ps_line_def ps_shown_def info_entry_def pcb_entry_def splice_def)

lemma table_entries:
  assumes "\<forall>x\<in>set xs. terminated (pname x) \<and> clen (pname x) < 50 \<and> ps_shown (pcb_entry x)"
    and "\<forall>y\<in>set ys. length (ps_pname y) = 50" and "length xs \<le> length ys"
  shows "\<forall>y\<in>set (map2 info_entry xs ys). ps_shown y"
    and "concat (map ps_line (map2 info_entry xs ys)) = concat (map (ps_line \<circ> pcb_entry) xs)"
proof -
  have "(\<forall>y\<in>set (map2 info_entry xs ys). ps_shown y) \<and>
    concat (map ps_line (map2 info_entry xs ys)) = concat (map (ps_line \<circ> pcb_entry) xs)"
    using assms
  proof (induction xs arbitrary: ys)
    case (Cons x xs)
    then obtain y zs where "ys = y # zs" by (cases ys) auto
    with Cons.IH[of zs] Cons.prems ps_line_info[of x y] show ?case by (auto simp: o_def)
  qed simp
  then show "\<forall>y\<in>set (map2 info_entry xs ys). ps_shown y"
    and "concat (map ps_line (map2 info_entry xs ys)) = concat (map (ps_line \<circ> pcb_entry) xs)" by blast+
qed

text \<open>C24: \<^verbatim>\<open>ps\<close> prints its head line and then one line with pid, parent and name for each of the first 50 queued
  processes that are not finished, in the order of the queue, and leaves the scheduler as it is. (It does not list itself.)\<close>

theorem ps_shows_processes:
  assumes "sched_ok (sched_of k) q" and "names_fit (sched_of k) q buffer" and "length buffer = 50" and "length pb = 30"
    and "console_ok (screen (io k))" and "\<forall>x\<in>set (live_blocks (sched_of k) q). ps_shown (pcb_entry x)"
  shows "\<exists>k'. run e (ps_main a tx buffer pb) k = Finished 0 k' \<and> sched_of k' = sched_of k \<and>
    write_all (''PID    PPID    NAME'' @ [LF] @ concat (map (ps_line \<circ> pcb_entry) (take 50 (live_blocks (sched_of k) q))))
      (screen (io k)) = Inr (screen (io k'))"
proof -
  let ?l = "take 50 (live_blocks (sched_of k) q)"
  let ?n = "min 50 (length (live_blocks (sched_of k) q))"
  let ?b = "map2 info_entry ?l buffer @ drop ?n buffer"
  have tk: "take ?n (live_blocks (sched_of k) q) = ?l" by (simp add: min_def)
  have r: "get_process_info (sched_of k) buffer (int 50) = Inr (?n, ?b)"
    using process_report[OF assms(1,2), of 50 ?n] assms(3) by (simp only: tk)
  have i50: "int_arg 50 = 50" using int_arg_of_nat[of 50] by simp
  have g: "run e (get_ps (Procs a buffer) 50) k = Finished (int ?n, Procs a ?b) k"
    using r by (simp add: get_ps_def syscall_2_def syscall_3_def do_system_call_def do_getps_def int_arg_of_nat i50)
  have e1: "take ?n ?b = map2 info_entry ?l buffer" using assms(3) by (simp add: min_def)
  have fit: "\<forall>x\<in>set ?l. terminated (pname x) \<and> clen (pname x) < 50 \<and> ps_shown (pcb_entry x)" "\<forall>e\<in>set buffer. length (ps_pname e) = 50"
    using assms(2,6) set_take_subset[of 50 "live_blocks (sched_of k) q"] by (auto simp: names_fit_def)
  have "length ?l \<le> length buffer" using assms(3) by simp
  note entries = table_entries[OF fit this]
  have f: "NUL \<notin> set (''PID    PPID    NAME'' @ [LF])"
    "u_render (''PID    PPID    NAME'' @ [LF]) [] 0 = Some (''PID    PPID    NAME'' @ [LF])" by simp_all
  obtain pb1 where pb1: "prints e (u_printf tx (lit (''PID    PPID    NAME'' @ [LF])) [] pb) (''PID    PPID    NAME'' @ [LF])
      (length (''PID    PPID    NAME'' @ [LF]), pb1)" "length pb1 = 30"
    by (rule prints_printf[OF f(1) assms(4) f(2)])
  from prints_ps_list[OF entries(1) pb1(2), of e tx] obtain pb2 where
    pb2: "prints e (ps_list tx (map2 info_entry ?l buffer) pb1) (concat (map ps_line (map2 info_entry ?l buffer))) pb2" by blast
  have "prints e (bindp (ps_list tx (map2 info_entry ?l buffer) pb1) (\<lambda>_. ret (0 :: int))) (concat (map ps_line (map2 info_entry ?l buffer)) @ []) 0"
    by (rule prints_bind[OF pb2 prints_ret])
  then have "prints e (bindp (u_printf tx (lit (''PID    PPID    NAME'' @ [LF])) [] pb)
      (\<lambda>(_, pb1). bindp (ps_list tx (map2 info_entry ?l buffer) pb1) (\<lambda>_. ret (0 :: int))))
      ((''PID    PPID    NAME'' @ [LF]) @ concat (map ps_line (map2 info_entry ?l buffer)) @ []) 0"
    by (rule prints_pair[OF pb1(1)])
  then have p: "prints e (bindp (u_printf tx (lit (''PID    PPID    NAME'' @ [LF])) [] pb)
      (\<lambda>(_, pb1). bindp (ps_list tx (map2 info_entry ?l buffer) pb1) (\<lambda>_. ret (0 :: int))))
      (''PID    PPID    NAME'' @ [LF] @ concat (map (ps_line \<circ> pcb_entry) ?l)) 0"
    by (simp only: append_assoc append_Nil2 entries(2))
  obtain scr where s: "run e (bindp (u_printf tx (lit (''PID    PPID    NAME'' @ [LF])) [] pb)
      (\<lambda>(_, pb1). bindp (ps_list tx (map2 info_entry ?l buffer) pb1) (\<lambda>_. ret (0 :: int)))) k = Finished 0 (on_screen scr k)"
    "write_all (''PID    PPID    NAME'' @ [LF] @ concat (map (ps_line \<circ> pcb_entry) ?l)) (screen (io k)) = Inr scr"
    by (rule prints_run[OF p assms(5)])
  have n: "nat (int ?n) \<le> length (procs_of (Procs a ?b))" using assms(3) by simp
  have "run e (ps_main a tx buffer pb) k = run e (bindp (u_printf tx (lit (''PID    PPID    NAME'' @ [LF])) [] pb)
      (\<lambda>(_, pb1). bindp (ps_list tx (map2 info_entry ?l buffer) pb1) (\<lambda>_. ret (0 :: int)))) k"
    unfolding ps_main_def run_bindp_Finished[OF g] prod.case if_P[OF n] by (simp only: procs_of.simps nat_int e1)
  with s show ?thesis by (intro exI[of _ "on_screen scr k"]) simp
qed

theorem ps_shows_processes_witness:
  "\<exists>k'. run demo_env (ps_main 0x601000 0x602000 (replicate 50 \<lparr>ps_pid = 0, ps_ppid = 0, ps_pname = replicate 50 NUL\<rparr>) (replicate 30 NUL))
       (pair_kernel READY) = Finished 0 k' \<and> sched_of k' = sched_of (pair_kernel READY)"
proof -
  let ?b = "replicate 50 \<lparr>ps_pid = 0, ps_ppid = 0, ps_pname = replicate 50 NUL\<rparr> :: pspcb list"
  have q: "sched_ok (sched_of (pair_kernel READY)) [0x2000]" by (simp only: pair_kernel_fields two_blocks_ok)
  have l: "live_blocks (sched_of (pair_kernel READY)) [0x2000] =
      [blank_pcb\<lparr>pid := 2, status := READY, waiting_on_pid := 7, kernel_sp := 0x3000\<rparr>]"
    by (simp add: live_blocks_def pair_kernel_fields two_blocks_pcbs)
  have z: "cstr (replicate 50 NUL) = []" "terminated (replicate 50 NUL)" by (simp_all add: cstr_def numeral_eq_Suc terminated_def)
  have f: "names_fit (sched_of (pair_kernel READY)) [0x2000] ?b" "length ?b = 50" "length (replicate 30 NUL) = 30"
    by (simp_all add: names_fit_def l blank_pcb_def clen_def z)
  have s: "console_ok (screen (io (pair_kernel READY)))"
    by (simp add: pair_kernel_def root_kernel_def demo_kernel_def blank_console_ok)
  have h: "\<forall>x\<in>set (live_blocks (sched_of (pair_kernel READY)) [0x2000]). ps_shown (pcb_entry x)"
    by (simp add: l ps_shown_def pcb_entry_def blank_pcb_def z)
  from ps_shows_processes[OF q f s h, of demo_env "0x601000" "0x602000"] show ?thesis by blast
qed

end
