(* ===== verification/Frame.thy ===== *)
theory Frame
  imports Syscall
begin

text \<open>
  What an operation of the kernel can change, whatever its arguments: \<open>frame A k k'\<close> says that the run queue and the
  running process are the same, that at most the blocks at the addresses \<open>A\<close> are different, that no block is
  lost, and that every array keeps its size. The lemmas are about the operations that return; those of
  \<open>Syscall\<close> say when they do.
\<close>

section \<open>The arrays of the kernel\<close>

definition pcb_typed :: "pcb \<Rightarrow> bool" where
  "pcb_typed x = (length (pname x) = 50 \<and> length (wd x) = 50 \<and> length (fd_table x) = 15)"

definition typed_kernel :: "kernel \<Rightarrow> bool" where
  "typed_kernel k =
     (length (Interrupts.abspath k) = 100 \<and> length (path_temp k) = 100 \<and> length (stdin_buffer (inp (io k))) = 256 \<and>
      length (clock_buff k) = 8 \<and> length (status_buff k) = 5 \<and>
      (\<forall>p x. pcbs (sched_of k) p = Some x \<longrightarrow> pcb_typed x))"

definition frame_sched :: "u64 set \<Rightarrow> sched \<Rightarrow> sched \<Rightarrow> bool" where
  "frame_sched A s s' =
     (processq s' = processq s \<and> active_pcb s' = active_pcb s \<and> time_slice s' = time_slice s \<and> (\<forall>p. p \<notin> A \<longrightarrow> pcbs s' p = pcbs s p) \<and>
      (\<forall>p. pcbs s p \<noteq> None \<longrightarrow> pcbs s' p \<noteq> None))"

definition frame :: "u64 set \<Rightarrow> kernel \<Rightarrow> kernel \<Rightarrow> bool" where
  "frame A k k' = (frame_sched A (sched_of k) (sched_of k') \<and> (typed_kernel k \<longrightarrow> typed_kernel k'))"

lemma frame_refl [simp, intro]: "frame A k k"
  by (simp add: frame_def frame_sched_def)

lemma frame_trans [trans]: "frame A k k' \<Longrightarrow> frame A k' k'' \<Longrightarrow> frame A k k''"
  by (auto simp: frame_def frame_sched_def)

lemma frame_mono: "frame A k k' \<Longrightarrow> A \<subseteq> B \<Longrightarrow> frame B k k'"
  by (auto simp: frame_def frame_sched_def)

lemma frame_active: "frame A k k' \<Longrightarrow> active_pcb (sched_of k') = active_pcb (sched_of k)"
  by (simp add: frame_def frame_sched_def)

section \<open>Memory\<close>

text \<open>Only physical memory and \<^verbatim>\<open>cr3\<close> are different.\<close>

definition mem_step :: "kernel \<Rightarrow> kernel \<Rightarrow> bool" where
  "mem_step k k' = (\<exists>v c. k' = set_cr3 c (k\<lparr>vm := v\<rparr>))"

lemma mem_stepI: "mem_step k (k\<lparr>vm := v\<rparr>)" "mem_step k (set_cr3 c (k\<lparr>vm := v\<rparr>))" "mem_step k (set_cr3 c k)" "mem_step k k"
proof -
  have e: "k\<lparr>vm := v\<rparr> = set_cr3 (cpu_cr3 (sched_of k)) (k\<lparr>vm := v\<rparr>)" for k :: kernel and v by (simp add: set_cr3_def set_sched_def)
  show "mem_step k (k\<lparr>vm := v\<rparr>)" using e[where k = k and v = v] unfolding mem_step_def by blast
  show "mem_step k (set_cr3 c (k\<lparr>vm := v\<rparr>))" unfolding mem_step_def by blast
  have "k\<lparr>vm := vm k\<rparr> = k" by simp
  then show "mem_step k (set_cr3 c k)" "mem_step k k" using e[where k = k and v = "vm k"] unfolding mem_step_def by metis+
qed

lemma mem_step_trans [trans]: "mem_step k k' \<Longrightarrow> mem_step k' k'' \<Longrightarrow> mem_step k k''"
  unfolding mem_step_def by (elim exE) (simp add: set_cr3_def set_sched_def, blast)

lemma mem_step_frame: "mem_step k k' \<Longrightarrow> frame A k k'"
  by (auto simp: mem_step_def frame_def frame_sched_def typed_kernel_def set_cr3_def set_sched_def)

lemma for_up_relates:
  assumes "for_up a n body s = Inr s'" and "\<And>s. R s s" and "\<And>s t u. R s t \<Longrightarrow> R t u \<Longrightarrow> R s u"
    and "\<And>i s s'. body i s = Inr s' \<Longrightarrow> R s s'"
  shows "R s s'"
  using assms(1)
proof (induction "n - a" arbitrary: a s)
  case 0
  then show ?case using assms(2) by simp
next
  case (Suc m)
  then have "a < n" by simp
  with Suc.prems obtain t where t: "body a s = Inr t" "for_up (Suc a) n body t = Inr s'" by (auto simp: for_up_step)
  have "R t s'" using Suc.hyps(2) t(2) by (intro Suc.hyps(1)) simp_all
  with assms(3,4) t(1) show ?case by blast
qed

lemma pgflt_mem: "int_pgflt_srv a e k = Inr k' \<Longrightarrow> mem_step k k'"
  by (auto simp: int_pgflt_srv_def Let_def intro: mem_stepI split: if_splits)

lemma kstore8_mem: "kstore8 a b k = Inr k' \<Longrightarrow> mem_step k k'"
  by (auto simp: kstore8_def Let_def intro: mem_stepI mem_step_trans[OF pgflt_mem] split: sum.splits fault.splits)

lemma kstore64_mem: "kstore64 a b k = Inr k' \<Longrightarrow> mem_step k k'"
  by (auto simp: kstore64_def Let_def intro: mem_stepI mem_step_trans[OF pgflt_mem] split: sum.splits fault.splits)

lemma kload8_mem: "kload8 a k = Inr (b, k') \<Longrightarrow> mem_step k k'"
  by (auto simp: kload8_def Let_def intro: mem_stepI pgflt_mem split: sum.splits fault.splits)

lemma kload64_mem: "kload64 a k = Inr (b, k') \<Longrightarrow> mem_step k k'"
  by (auto simp: kload64_def Let_def intro: mem_stepI pgflt_mem split: sum.splits fault.splits)

lemma copy_stack_mem: "copy_stack a b k = Inr k' \<Longrightarrow> mem_step k k'"
  unfolding copy_stack_def
  by (erule for_up_relates) (auto intro: mem_stepI mem_step_trans dest: kload8_mem kstore8_mem)

lemma kstore32_mem: "kstore32 a w k = Inr k' \<Longrightarrow> mem_step k k'"
  unfolding kstore32_def
  by (erule for_up_relates) (auto intro: mem_stepI mem_step_trans dest: kstore8_mem)

section \<open>Strings and paths\<close>

lemma wr_length: "wr s i c = Inr s' \<Longrightarrow> length s' = length s"
  by (auto simp: wr_def split: if_splits)

lemma wri_length: "wri s i c = Inr s' \<Longrightarrow> length s' = length s"
  by (auto simp: wri_def dest: wr_length split: if_splits)

lemma kstrcpy_loop_length: "kstrcpy_loop d src sz i dest = Inr (r, dest') \<Longrightarrow> length dest' = length dest"
proof (induction d src sz i dest arbitrary: dest' rule: kstrcpy_loop.induct)
  case (1 d src sz i dest)
  from "1.prems" show ?case
    by (subst (asm) kstrcpy_loop.simps) (force dest: wr_length "1.IH"[rotated -1] split: if_splits)
qed

lemma kstrcpy_length: "kstrcpy dest d src sz = Inr (r, dest') \<Longrightarrow> length dest' = length dest"
  by (auto simp: kstrcpy_def dest: kstrcpy_loop_length)

lemma kstrcat_loop_length: "kstrcat_loop st j i b = Inr (r, b') \<Longrightarrow> length b' = length b"
proof (induction st j i b arbitrary: b' rule: kstrcat_loop.induct)
  case (1 st j i b)
  from "1.prems" show ?case
    by (subst (asm) kstrcat_loop.simps) (force dest: wr_length "1.IH"[rotated -1] split: if_splits)
qed

lemma kstrcat_length: "kstrcat a c b = Inr b' \<Longrightarrow> length b' = length b"
  by (auto simp: kstrcat_def dest!: kstrcat_loop_length wr_length)

lemma copy_temp_length: "copy_temp_loop b n i t = Inr t' \<Longrightarrow> length t' = length t"
proof (induction b n i t arbitrary: t' rule: copy_temp_loop.induct)
  case (1 b n i t)
  from "1.prems" show ?case
    by (subst (asm) copy_temp_loop.simps) (force dest: wr_length "1.IH"[rotated -1] split: if_splits)
qed

lemma cut_loop_length: "cut_loop b n i p t ps = Inr (t', ps') \<Longrightarrow> length t' = length t"
proof (induction b n i p t ps arbitrary: t' ps' rule: cut_loop.induct)
  case (1 b n i p t ps)
  from "1.prems" show ?case
    by (subst (asm) cut_loop.simps) (force dest: wr_length "1.IH"[rotated -1] split: if_splits)
qed

lemma join_loop_length: "join_loop t ps p i b = Inr (r, b') \<Longrightarrow> length b' = length b"
proof (induction t ps p i b arbitrary: r b' rule: join_loop.induct)
  case (1 t ps p i b)
  show ?case
  proof (cases "p < length ps \<and> ps ! p \<noteq> None")
    case False
    with "1.prems" show ?thesis by (subst (asm) join_loop.simps) (auto split: if_splits)
  next
    case True
    then obtain o' where o': "p < length ps" "ps ! p = Some o'" by auto
    with "1.prems" obtain l b1 b2 r1 where s: "kstrlen (drop o' t) = Inr l" "kstrcpy b i (drop o' t) (int l) = Inr (r1, b1)"
      "wr b1 (i + l) (CHR ''/'') = Inr b2" "join_loop t ps (Suc p) (i + l + 1) b2 = Inr (r, b')"
      by (subst (asm) join_loop.simps) auto
    from "1.IH"[OF o' s(1,2) refl s(3,4)] wr_length[OF s(3)] kstrcpy_length[OF s(2)] show ?thesis by simp
  qed
qed

lemma cleanup_path_length:
  assumes "cleanup_path b n t = Some (Inr (b', t'))"
  shows "length b' = length b \<and> length t' = length t"
proof -
  from assms consider "b' = b" "t' = t" | tmp ps ps' b1 i b2 where "copy_temp_loop b n 0 t = Inr tmp"
      "cut_loop b n 0 1 tmp ((replicate 15 None)[0 := Some 0]) = Inr (t', ps)" "wr b 0 (CHR ''/'') = Inr b1"
      "join_loop t' ps' 0 1 b1 = Inr (i, b2)" "wr b2 (i - 1) NUL = Inr b'"
    by (auto simp: cleanup_path_def split: sum.splits option.splits if_splits)
  then show ?thesis
    by cases (auto dest!: copy_temp_length cut_loop_length join_loop_length wr_length)
qed

lemma path_merge_length:
  assumes "path_merge base rel b n t = Some (Inr (b', t'))"
  shows "length b' = length b \<and> length t' = length t"
  using assms
  by (auto simp: path_merge_def split: sum.splits if_splits dest!: cleanup_path_length kstrcpy_length kstrcat_length)

section \<open>Input and files\<close>

lemma copy_line_length:
  "copy_line i n s b = Inr r \<Longrightarrow>
     length (stdin_buffer (case r of Inl (_, s', _) \<Rightarrow> s' | Inr (_, s', _) \<Rightarrow> s')) = length (stdin_buffer s)"
proof (induction i n s b arbitrary: r rule: copy_line.induct)
  case (1 i n s b)
  show ?case
  proof (cases "rdi (stdin_buffer s) (start_point s) = Inr LF \<or> int i = n - 1 \<or> \<not> i < length b")
    case True
    with "1.prems" show ?thesis by (subst (asm) copy_line.simps) (auto simp: Let_def split: if_splits)
  next
    case False
    with "1.prems" obtain c where c: "rdi (stdin_buffer s) (start_point s) = Inr c" "c \<noteq> LF" "i < length b" "int i \<noteq> n - 1"
      "copy_line (Suc i) n (s\<lparr>start_point := cmod (start_point s + 1) STDIN_BUFFER_SIZE\<rparr>) (b[i := c]) = Inr r"
      by (subst (asm) copy_line.simps) (auto simp: Let_def split: if_splits)
    from "1.IH"[OF c(1-3) refl refl c(4,5)] show ?thesis by simp
  qed
qed

lemma copy_input_length: "copy_input b n s = Inr (r, s', b') \<Longrightarrow> length (stdin_buffer s') = length (stdin_buffer s)"
  by (auto simp: copy_input_def dest!: copy_line_length split: if_splits sum.splits)

lemma tar_loop_keeps:
  fixes P :: "'s \<Rightarrow> bool" and visit :: "u64 \<Rightarrow> u64 \<Rightarrow> 's \<Rightarrow> ('r option \<times> 's) result"
  assumes "tar_loop fs visit off st = Some (Inr (r, st'))" and "P st"
    and "\<And>p sz st r st'. visit p sz st = Inr (r, st') \<Longrightarrow> P st \<Longrightarrow> P st'"
  shows "P st'"
proof -
  have "\<forall>r st'. y = Inr (r, st') \<longrightarrow> P st \<longrightarrow> (\<forall>p sz st r st'. visit p sz st = Inr (r, st') \<longrightarrow> P st \<longrightarrow> P st') \<longrightarrow> P st'"
    if "tar_loop fs visit off st = Some y" for y
  proof (rule tar_loop.raw_induct[where P = "\<lambda>fs visit off st y. \<forall>r st'. y = Inr (r, st') \<longrightarrow> P st \<longrightarrow>
      (\<forall>p sz st r st'. visit p sz st = Inr (r, st') \<longrightarrow> P st \<longrightarrow> P st') \<longrightarrow> P st'", OF _ that])
    fix loop :: "tarfs \<Rightarrow> (u64 \<Rightarrow> u64 \<Rightarrow> 's \<Rightarrow> ('r option \<times> 's) result) \<Rightarrow> u64 \<Rightarrow> 's \<Rightarrow> ('r option \<times> 's) result option"
      and fs visit off st y
    assume IH: "\<And>fs visit off st y. loop fs visit off st = Some y \<Longrightarrow> \<forall>r st'. y = Inr (r, st') \<longrightarrow> P st \<longrightarrow>
        (\<forall>p sz st r st'. visit p sz st = Inr (r, st') \<longrightarrow> P st \<longrightarrow> P st') \<longrightarrow> P st'"
      and step: "(if \<not> tar_start fs + off < tar_end fs then Some (Inr (None, st))
        else let p = tar_start fs + off in case bindr (bytes_at fs (p + SIZE_FIELD)) tar_size of Inl e \<Rightarrow> Some (Inl e)
          | Inr sz \<Rightarrow> (case visit p sz st of Inl e \<Rightarrow> Some (Inl e) | Inr (Some r, st') \<Rightarrow> Some (Inr (Some r, st'))
             | Inr (None, st') \<Rightarrow> loop fs visit (off + (sz + HEADER_SIZE + tar_size_roundup sz)) st')) = Some y"
    show "\<forall>r st'. y = Inr (r, st') \<longrightarrow> P st \<longrightarrow> (\<forall>p sz st r st'. visit p sz st = Inr (r, st') \<longrightarrow> P st \<longrightarrow> P st') \<longrightarrow> P st'"
    proof (intro allI impI)
      fix r st'
      assume y: "y = Inr (r, st')" and P: "P st" and v: "\<forall>p sz st r st'. visit p sz st = Inr (r, st') \<longrightarrow> P st \<longrightarrow> P st'"
      show "P st'"
      proof (cases "tar_start fs + off < tar_end fs")
        case False
        then show ?thesis using step y P by simp
      next
        case True
        then obtain sz o' st1 where o': "visit (tar_start fs + off) sz st = Inr (o', st1)"
          "(case o' of None \<Rightarrow> loop fs visit (off + (sz + HEADER_SIZE + tar_size_roundup sz)) st1 | Some r \<Rightarrow> Some (Inr (Some r, st1))) = Some y"
          using step y by (auto simp: Let_def split: sum.splits option.splits)
        then have "P st1" using v P by blast
        then show ?thesis using o'(2) IH y v by (cases o') auto
      qed
    qed
  qed
  with assms show ?thesis by blast
qed

lemma tar_search_keeps:
  assumes "tar_search fs path none found st = Some (Inr (r, st'))" and "P st"
    and "\<And>p sz st r st'. found p sz st = Inr (r, st') \<Longrightarrow> P st \<Longrightarrow> P st'"
  shows "P st'"
proof -
  from assms(1) obtain o' where o': "tar_loop fs (by_name fs path none found) 0 st = Some (Inr (o', st'))"
    by (auto simp: tar_search_def)
  show ?thesis
    by (rule tar_loop_keeps[OF o', where P = P]) (use assms(2,3) in \<open>auto simp: by_name_def split: if_splits\<close>)
qed

lemma alloc_fd_typed: "alloc_fd a n x = Inr (r, y) \<Longrightarrow> pcb_typed x \<Longrightarrow> pcb_typed y"
  by (auto simp: alloc_fd_def pcb_typed_def Let_def split: if_splits)

lemma open_typed:
  "do_open_file fs p x = Some (Inr (r, y)) \<Longrightarrow> pcb_typed x \<Longrightarrow> pcb_typed y"
  "do_open_dir fs p x = Some (Inr (r, y)) \<Longrightarrow> pcb_typed x \<Longrightarrow> pcb_typed y"
proof -
  show "do_open_file fs p x = Some (Inr (r, y)) \<Longrightarrow> pcb_typed x \<Longrightarrow> pcb_typed y"
    unfolding do_open_file_def by (erule tar_search_keeps) (auto dest: alloc_fd_typed)
  have "tar_search fs p (- 1) (\<lambda>p sz pr. alloc_fd p 0 pr) x = Some (Inr (r, y)) \<Longrightarrow> pcb_typed x \<Longrightarrow> pcb_typed y"
    by (erule tar_search_keeps) (auto dest: alloc_fd_typed)
  then show "do_open_dir fs p x = Some (Inr (r, y)) \<Longrightarrow> pcb_typed x \<Longrightarrow> pcb_typed y"
    by (auto simp: do_open_dir_def dest: alloc_fd_typed split: sum.splits if_splits)
qed

section \<open>Blocks\<close>

text \<open>The typing of one block; \<open>upd_pcb\<close> needs it of the new one only.\<close>

lemma upd_pcb_frame:
  assumes "upd_pcb p f k = Inr k'" and "\<And>x. pcbs (sched_of k) p = Some x \<Longrightarrow> pcb_typed x \<Longrightarrow> pcb_typed (f x)"
  shows "frame {p} k k'"
proof -
  from assms(1) obtain x where x: "deref (sched_of k) p = Inr x" "k' = set_sched (put_pcb p (f x) (sched_of k)) k"
    by (auto simp: upd_pcb_def)
  then have "pcbs (sched_of k) p = Some x" by (auto simp: deref_def split: if_splits option.splits)
  with assms(2) x(2) show ?thesis
    by (auto simp: frame_def frame_sched_def typed_kernel_def set_sched_def put_pcb_def)
qed

lemma upd_active_frame:
  assumes "upd_active f k = Inr k'" and "\<And>x. active_blk k = Inr x \<Longrightarrow> pcb_typed x \<Longrightarrow> pcb_typed (f x)"
  shows "frame {active_pcb (sched_of k)} k k'"
  using assms(1) unfolding upd_active_def
proof (rule upd_pcb_frame)
  fix x
  assume "pcbs (sched_of k) (active_pcb (sched_of k)) = Some x" "pcb_typed x"
  moreover have "active_pcb (sched_of k) \<noteq> 0" using assms(1) by (auto simp: upd_active_def upd_pcb_def deref_def split: if_splits)
  ultimately show "pcb_typed (f x)" using assms(2) active_blk_run by blast
qed

lemma push_kernel_frame: "push_kernel p w k = Inr k' \<Longrightarrow> frame {p} k k'"
  by (auto simp: push_kernel_def pcb_typed_def intro: frame_trans[OF upd_pcb_frame mem_step_frame[OF kstore64_mem]])

lemma set_pname_frame: "set_pname p s k = Inr k' \<Longrightarrow> frame {p} k k'"
  by (auto simp: set_pname_def deref_def pcb_typed_def dest!: kstrcpy_length intro!: upd_pcb_frame split: if_splits option.splits)

lemma set_wd_frame: "set_wd p s n k = Inr k' \<Longrightarrow> frame {p} k k'"
  by (auto simp: set_wd_def deref_def pcb_typed_def dest!: kstrcpy_length intro!: upd_pcb_frame split: if_splits option.splits)

section \<open>Loading\<close>

lemma mem_map_file_mem: "mem_map_file f a n m k = Inr k' \<Longrightarrow> mem_step k k'"
proof -
  assume "mem_map_file f a n m k = Inr k'"
  then obtain k1 where k1:
    "for_up 0 (unat m) (\<lambda>i k. bindr (file_byte k (f + of_nat i)) (\<lambda>b. kstore8 (a + of_nat i) b k)) k = Inr k1"
    "for_up (unat m) (unat n) (\<lambda>i. kstore8 (a + of_nat i) 0) k1 = Inr k'"
    by (auto simp: mem_map_file_def)
  have "mem_step k k1" by (rule for_up_relates[OF k1(1)]) (auto intro: mem_stepI mem_step_trans dest: kstore8_mem)
  also have "mem_step k1 k'" by (rule for_up_relates[OF k1(2)]) (auto intro: mem_stepI mem_step_trans dest: kstore8_mem)
  finally show ?thesis .
qed

lemma map_elf_mem: "map_elf h k = Inr (e, k') \<Longrightarrow> mem_step k k'"
proof -
  assume "map_elf h k = Inr (e, k')"
  then obtain e_phoff e_phnum b where "for_up 0 (unat (e_phnum :: u64)) (\<lambda>seg (p_base, k).
         bindr (le_field 8 k (p_base + 8)) (\<lambda>p_offset.
         bindr (le_field 8 k (p_base + 16)) (\<lambda>p_vaddr.
         bindr (le_field 8 k (p_base + 40)) (\<lambda>p_memsz.
         bindr (le_field 8 k (p_base + 32)) (\<lambda>p_filesz.
         bindr (mem_map_file (h + p_offset) p_vaddr p_memsz p_filesz k) (\<lambda>k1.
         bindr (le_field 2 k1 (h + 54)) (\<lambda>e_phentsize. Inr (p_base + e_phentsize, k1))))))))
       (h + e_phoff, k) = Inr (b, k')"
    by (auto simp: map_elf_def)
  then have "mem_step (snd (h + e_phoff, k)) (snd (b, k'))"
    by (rule for_up_relates[where R = "\<lambda>s t. mem_step (snd s) (snd t)"])
      (auto intro: mem_stepI mem_step_trans dest!: mem_map_file_mem)
  then show ?thesis by simp
qed

lemma map_file_mem:
  assumes "map_file path k = Some (Inr (e, k'))"
  shows "mem_step k k'"
  using assms unfolding map_file_def
  by (rule tar_search_keeps[where P = "mem_step k"])
    (auto intro: mem_stepI mem_step_trans[OF _ map_elf_mem] split: if_splits)

lemma count_ptrs_mem:
  assumes "count_ptrs a n k = Some (Inr (m, k'))"
  shows "mem_step k k'"
proof -
  have "\<forall>m k'. y = Inr (m, k') \<longrightarrow> mem_step k k'" if "count_ptrs a n k = Some y" for y
  proof (rule count_ptrs.raw_induct[where P = "\<lambda>a n k y. \<forall>m k'. y = Inr (m, k') \<longrightarrow> mem_step k k'", OF _ that])
    fix f :: "u64 \<Rightarrow> nat \<Rightarrow> kernel \<Rightarrow> (nat \<times> kernel) result option" and a n k y
    assume IH: "\<And>a n k y. f a n k = Some y \<Longrightarrow> \<forall>m k'. y = Inr (m, k') \<longrightarrow> mem_step k k'"
      and step: "(case kload64 (a + 8 * of_nat n) k of Inl e \<Rightarrow> Some (Inl e)
        | Inr (w, k') \<Rightarrow> if w \<noteq> 0 then f a (n + 1) k' else Some (Inr (n, k'))) = Some y"
    show "\<forall>m k'. y = Inr (m, k') \<longrightarrow> mem_step k k'"
    proof (intro allI impI)
      fix m k'
      assume y: "y = Inr (m, k')"
      with step obtain w k1 where l: "kload64 (a + 8 * of_nat n) k = Inr (w, k1)" by (auto split: sum.splits)
      have "mem_step k1 k'" using step y IH[of a "n + 1" k1] by (auto simp: l intro: mem_stepI split: if_splits)
      with kload64_mem[OF l] show "mem_step k k'" by (rule mem_step_trans)
    qed
  qed
  with assms show ?thesis by blast
qed

lemma push_ptrs_mem: "push_ptrs n a sp k = Inr (sp', k') \<Longrightarrow> mem_step k k'"
proof (induction n a sp k rule: push_ptrs.induct)
  case (1 a sp k)
  then show ?case by (auto intro: mem_stepI)
next
  case (2 i a sp k)
  then obtain w k1 k2 where s: "kload64 (a + 8 * of_nat i) k = Inr (w, k1)" "kstore64 (sp - 8) w k1 = Inr k2"
    "push_ptrs i a (sp - 8) k2 = Inr (sp', k')" by auto
  have "mem_step k2 k'" by (rule "2.IH"[OF s(1) refl s(2,3)])
  with kload64_mem[OF s(1)] kstore64_mem[OF s(2)] show ?case by (blast intro: mem_step_trans)
qed

lemma process_exec_frame:
  assumes "process_exec t p path argv envp k = Some (Inr k')"
  shows "frame {p} k k'"
proof -
  from assms obtain k4 where k4: "bindr (set_pname p path k) (\<lambda>k. bindr (upd_pcb p (\<lambda>x. x\<lparr>status := READY\<rparr>) k) (\<lambda>k.
      bindr (push_kernel p t k) (push_kernel p 0))) = Inr k4"
    by (cases "bindr (set_pname p path k) (\<lambda>k. bindr (upd_pcb p (\<lambda>x. x\<lparr>status := READY\<rparr>) k) (\<lambda>k.
      bindr (push_kernel p t k) (push_kernel p 0)))") (simp_all add: process_exec_def)
  note r = assms[unfolded process_exec_def k4 sum.case]
  from r obtain c1 where c1: "count_ptrs envp 0 k4 = Some c1" by (cases "count_ptrs envp 0 k4") simp_all
  note r = r[unfolded c1 Option.bind.simps]
  from r obtain sp k6 where k6: "bindr c1 (\<lambda>(n, k). push_ptrs n envp 0x00006FFFFFFFFFF0 k) = Inr (sp, k6)"
    by (cases "bindr c1 (\<lambda>(n, k). push_ptrs n envp 0x00006FFFFFFFFFF0 k)") auto
  note r = r[unfolded k6 sum.case prod.case]
  from r obtain c2 where c2: "count_ptrs argv 0 k6 = Some c2" by (cases "count_ptrs argv 0 k6") simp_all
  note r = r[unfolded c2 Option.bind.simps]
  from k4 obtain k1 k2 k3 where s: "set_pname p path k = Inr k1" "upd_pcb p (\<lambda>x. x\<lparr>status := READY\<rparr>) k1 = Inr k2"
    "push_kernel p t k2 = Inr k3" "push_kernel p 0 k3 = Inr k4" by (elim bindr_eq_InrE)
  from k6 obtain n k5 where e: "c1 = Inr (n, k5)" "push_ptrs n envp 0x00006FFFFFFFFFF0 k5 = Inr (sp, k6)" by auto
  from r obtain m k7 sp2 k8 k9 where a: "c2 = Inr (m, k7)" "push_ptrs (m + 1) argv sp k7 = Inr (sp2, k8)"
    "kstore64 (sp2 - 8) (of_nat m) k8 = Inr k9" "upd_pcb p (\<lambda>x. x\<lparr>user_sp := sp2 - 8\<rparr>) k9 = Inr k'"
    by (clarsimp simp del: push_ptrs.simps)
  have "frame {p} k k1" by (rule set_pname_frame[OF s(1)])
  also have "frame {p} k1 k2" by (rule upd_pcb_frame[OF s(2)]) (simp add: pcb_typed_def)
  also have "frame {p} k2 k3" by (rule push_kernel_frame[OF s(3)])
  also have "frame {p} k3 k4" by (rule push_kernel_frame[OF s(4)])
  also have "frame {p} k4 k9"
    by (rule mem_step_frame[OF mem_step_trans[OF count_ptrs_mem[OF c1[unfolded e(1)]] mem_step_trans[OF push_ptrs_mem[OF e(2)]
      mem_step_trans[OF count_ptrs_mem[OF c2[unfolded a(1)]] mem_step_trans[OF push_ptrs_mem[OF a(2)] kstore64_mem[OF a(3)]]]]]])
  also have "frame {p} k9 k'" by (rule upd_pcb_frame[OF a(4)]) (simp add: pcb_typed_def)
  finally show ?thesis .
qed

section \<open>The handlers\<close>

abbreviation (input) own_frame :: "kernel \<Rightarrow> kernel \<Rightarrow> bool" where
  "own_frame k k' \<equiv> frame {active_pcb (sched_of k)} k k'"

lemma merge_path_frame:
  assumes "merge_path p k = Some (Inr k')"
  shows "frame A k k'"
  using assms by (auto simp: merge_path_def frame_def frame_sched_def typed_kernel_def dest!: path_merge_length)

lemma add_slash_frame: "add_slash l k = Inr k' \<Longrightarrow> frame A k k'"
  by (auto simp: add_slash_def frame_def frame_sched_def typed_kernel_def dest!: wr_length)

lemma own_frame_trans: "own_frame k k' \<Longrightarrow> own_frame k' k'' \<Longrightarrow> own_frame k k''"
  using frame_active[of "{active_pcb (sched_of k)}" k k'] by (auto intro: frame_trans)

lemma frame_own: "(\<And>A. frame A k k') \<Longrightarrow> own_frame k' k'' \<Longrightarrow> own_frame k k''"
  by (rule own_frame_trans)

lemma chdir_frame:
  assumes "do_chdir p k = Some (Inr (r, k'))"
  shows "own_frame k k'"
proof -
  from assms obtain k1 l k2 where s: "merge_path p k = Some (Inr k1)" "add_slash l k1 = Inr k2"
    "k' = k2 \<or> set_wd (active_pcb (sched_of k2)) (Interrupts.abspath k2) 100 k2 = Inr k'"
    by (auto simp: do_chdir_def split: if_splits)
  have "own_frame k2 k'" using s(3) by (auto intro: set_wd_frame)
  then show ?thesis by (intro frame_own[OF merge_path_frame[OF s(1)]] frame_own[OF add_slash_frame[OF s(2)]])
qed

lemma open_frame:
  assumes "do_open p m k = Some (Inr (r, k'))"
  shows "own_frame k k'"
proof -
  from assms obtain k1 where k1: "merge_path p k = Some (Inr k1)" by (auto simp: do_open_def)
  have "\<exists>k2. (k2 = k1 \<or> (\<exists>l. add_slash l k1 = Inr k2)) \<and> (k' = k2 \<or> (\<exists>x fd y. active_blk k2 = Inr x \<and>
      (do_open_file (files k2) (Interrupts.abspath k2) x = Some (Inr (fd, y)) \<or>
       do_open_dir (files k2) (Interrupts.abspath k2) x = Some (Inr (fd, y))) \<and> upd_active (\<lambda>_. y) k2 = Inr k'))"
  proof (cases "m = 0")
    case True
    with assms k1 consider "k' = k1" | x fd y where "active_blk k1 = Inr x"
      "do_open_file (files k1) (Interrupts.abspath k1) x = Some (Inr (fd, y))" "upd_active (\<lambda>_. y) k1 = Inr k'"
      by (auto simp: do_open_def Let_def split: if_splits)
    then show ?thesis by cases blast+
  next
    case False
    with assms k1 have "\<exists>k2. (k2 = k1 \<or> (\<exists>l. add_slash l k1 = Inr k2)) \<and> (k' = k2 \<or> (\<exists>x fd y. active_blk k2 = Inr x \<and>
        do_open_dir (files k2) (Interrupts.abspath k2) x = Some (Inr (fd, y)) \<and> upd_active (\<lambda>_. y) k2 = Inr k'))"
      apply (auto simp: do_open_def Let_def split: if_splits)
         apply blast+
      done
    then show ?thesis by blast
  qed
  then obtain k2 where k2: "k2 = k1 \<or> (\<exists>l. add_slash l k1 = Inr k2)" "k' = k2 \<or> (\<exists>x fd y. active_blk k2 = Inr x \<and>
      (do_open_file (files k2) (Interrupts.abspath k2) x = Some (Inr (fd, y)) \<or>
       do_open_dir (files k2) (Interrupts.abspath k2) x = Some (Inr (fd, y))) \<and> upd_active (\<lambda>_. y) k2 = Inr k')" by blast
  have "own_frame k2 k'"
    using k2(2)
  proof (elim disjE exE conjE)
    fix x fd y
    assume x: "active_blk k2 = Inr x" "upd_active (\<lambda>_. y) k2 = Inr k'"
    assume "do_open_file (files k2) (Interrupts.abspath k2) x = Some (Inr (fd, y))"
    then show ?thesis using x(1) by (intro upd_active_frame[OF x(2)]) (auto dest: open_typed(1))
  next
    fix x fd y
    assume x: "active_blk k2 = Inr x" "upd_active (\<lambda>_. y) k2 = Inr k'"
    assume "do_open_dir (files k2) (Interrupts.abspath k2) x = Some (Inr (fd, y))"
    then show ?thesis using x(1) by (intro upd_active_frame[OF x(2)]) (auto dest: open_typed(2))
  qed simp
  moreover have "frame A k1 k2" for A using k2(1) add_slash_frame by auto
  ultimately have "own_frame k1 k'" by (rule frame_own[rotated])
  then show ?thesis by (rule frame_own[OF merge_path_frame[OF k1]])
qed

lemma read_stdin_frame: "read_stdin b n k = Inr (r, k') \<Longrightarrow> own_frame k k'"
proof (cases "buffer_is_ready (inp (io k))")
  case True
  then show "read_stdin b n k = Inr (r, k') \<Longrightarrow> own_frame k k'"
    by (auto simp: read_stdin_def frame_def frame_sched_def typed_kernel_def dest!: copy_input_length)
next
  case False
  then show "read_stdin b n k = Inr (r, k') \<Longrightarrow> own_frame k k'"
    by (auto simp: read_stdin_def) (erule upd_active_frame, simp add: pcb_typed_def)+
qed

lemma read_frame: "do_read fd b n k = Inr (r, k') \<Longrightarrow> own_frame k k'"
  by (auto simp: do_read_def dest!: read_stdin_frame split: if_splits) (erule upd_active_frame, simp add: pcb_typed_def)+

lemma break_frame: "do_break a k = Inr (r, k') \<Longrightarrow> own_frame k k'"
  by (auto simp: do_break_def split: if_splits) (erule upd_active_frame, simp add: pcb_typed_def)+

lemma close_frame: "do_close fd k = Inr (r, k') \<Longrightarrow> own_frame k k'"
  by (auto simp: do_close_def) (erule upd_active_frame, simp add: pcb_typed_def)+

lemma write_frame: "do_write fd b n k = Inr (r, k') \<Longrightarrow> frame A k k'"
  by (auto simp: do_write_def frame_def frame_sched_def typed_kernel_def split: if_splits)

lemma waiting_frame:
  "do_waitpid a b c k = Inr (r, k') \<Longrightarrow> own_frame k k'" "do_alarm a k = Inr (r, k') \<Longrightarrow> own_frame k k'"
  by (auto simp: do_waitpid_def do_alarm_def) (erule upd_active_frame, simp add: pcb_typed_def)+

lemma reading_frame:
  "do_getcwd b n k = Inr (r, k') \<Longrightarrow> frame A k k'" "do_getps b n k = Inr (r, k') \<Longrightarrow> frame A k k'"
  "do_getdents fd b n k = Some (Inr (r, k')) \<Longrightarrow> frame A k k'" "do_yield k = Inr (r, k') \<Longrightarrow> frame A k k'"
  by (auto simp: do_getcwd_def do_getps_def do_getdents_def do_yield_def)

lemma execve_frame:
  assumes "do_execve e p a v k = Some (Inr (r, k'))"
  shows "own_frame k k'"
proof -
  from assms obtain k1 where k1: "merge_path p k = Some (Inr k1)" by (auto simp: do_execve_def)
  with assms have "k' = k1 \<or> (\<exists>k2. kstore64 ACTIVE_PML4 0 k1 = Inr k2 \<and>
      process_exec (env_thread e) (active_pcb (sched_of k2)) (Interrupts.abspath k2) a v k2 = Some (Inr k'))"
    by (auto simp: do_execve_def split: if_splits)
  then have "own_frame k1 k'"
    by (auto intro: frame_own[OF mem_step_frame[OF kstore64_mem]] process_exec_frame)
  then show ?thesis by (rule frame_own[OF merge_path_frame[OF k1]])
qed

lemmas handler_frames = break_frame reading_frame write_frame read_frame waiting_frame execve_frame chdir_frame open_frame
  close_frame

text \<open>Every call but \<^verbatim>\<open>fork\<close>, \<^verbatim>\<open>exit\<close> and \<^verbatim>\<open>kill\<close> touches at most the block of its caller.\<close>

lemma system_call_frame:
  assumes "do_system_call e n a b c k = Some (Inr (r, k'))" and "n \<noteq> 57" and "n \<noteq> 60" and "n \<noteq> 62"
  shows "own_frame k k'"
  using assms unfolding do_system_call_def
  by (auto split: if_splits intro: handler_frames)

lemma resume_frame:
  assumes "resume s k = Inr (r, k')"
  shows "own_frame k k'"
proof (cases s)
  case In_Timer
  with assms show ?thesis
    by (auto simp: int_tmr_end_def outb_def frame_def frame_sched_def typed_kernel_def)
qed (use assms in \<open>auto intro: read_stdin_frame mem_step_frame[OF kstore32_mem]\<close>)

section \<open>New processes\<close>

text \<open>A new block \<open>c\<close>; the others stay.\<close>

lemma get_new_pcb_frame:
  assumes "get_new_pcb raw junk k = Inr (c, k')" and "\<And>p. pcb_typed (raw p)"
  shows "frame {c} k k'" and "pcbs (sched_of k') c \<noteq> None" and "c \<noteq> 0"
proof -
  let ?p = "prev_pid (sched_of k) + 1"
  from assms(1) obtain s1 stack s2 k1 table s3 where s: "c \<noteq> 0" "kmalloc (space_of k) PCB_SIZE (vm k) = Inr (c, s1)"
    "kstore64 (stack + PAGESIZE - 8) 0 (set_sched (put_pcb c ((raw c)\<lparr>pid := ?p, kernel_stack := stack, kernel_sp := stack + PAGESIZE - 8\<rparr>)
       ((sched_of k)\<lparr>prev_pid := ?p\<rparr>)) (k\<lparr>vm := s2\<rparr>)) = Inr k1"
    "upd_pcb c (\<lambda>x. x\<lparr>ppid := 0, waiting_on_stdin := False, waiting_on_pid := 0, waiting_on_clock := 0,
               pml4 := table, user_brk_point := 0x0000700000000000, user_sp := 0x00006FFFFFFFFFF0,
               fd_table := replicate 15 \<lparr>file_start_address = 0, file_size = 0, file_offset = 0\<rparr>,
               next_fd := 3\<rparr>) (k1\<lparr>vm := s3\<rparr>) = Inr k'"
    by (auto simp: get_new_pcb_def Let_def split: if_splits)
  let ?k0 = "set_sched (put_pcb c ((raw c)\<lparr>pid := ?p, kernel_stack := stack, kernel_sp := stack + PAGESIZE - 8\<rparr>)
       ((sched_of k)\<lparr>prev_pid := ?p\<rparr>)) (k\<lparr>vm := s2\<rparr>)"
  have "frame {c} k ?k0"
    using assms(2)[of c] by (auto simp: frame_def frame_sched_def typed_kernel_def pcb_typed_def put_pcb_def set_sched_def)
  also have "frame {c} ?k0 k1" by (rule mem_step_frame[OF kstore64_mem[OF s(3)]])
  also have "frame {c} k1 (k1\<lparr>vm := s3\<rparr>)" by (rule mem_step_frame[OF mem_stepI(1)])
  also have "frame {c} (k1\<lparr>vm := s3\<rparr>) k'" by (rule upd_pcb_frame[OF s(4)]) (simp add: pcb_typed_def)
  finally show "frame {c} k k'" .
  show "pcbs (sched_of k') c \<noteq> None" using s(4) by (auto simp: upd_pcb_def)
  show "c \<noteq> 0" by (rule s(1))
qed

lemma get_forked_pcb_frame:
  assumes "get_forked_pcb raw junk p k = Inr (c, k')" and "\<And>p. pcb_typed (raw p)"
  shows "frame {c} k k'" and "pcbs (sched_of k') c \<noteq> None" and "c \<noteq> 0"
proof -
  from assms(1) obtain k1 table s k2 s3 k3 k4 and px :: pcb where s: "get_new_pcb raw junk k = Inr (c, k1)"
    "upd_pcb c (\<lambda>x. x\<lparr>pml4 := table\<rparr>) (k1\<lparr>vm := s\<rparr>) = Inr k2"
    "upd_pcb c (\<lambda>x. x\<lparr>ppid := pid px, status := RUNNING, user_brk_point := user_brk_point px,
               user_sp := user_sp px\<rparr>) (k2\<lparr>vm := s3\<rparr>) = Inr k3"
    "set_pname c (pname px) k3 = Inr k4" "set_wd c (wd px) 50 k4 = Inr k'"
    by (auto simp: get_forked_pcb_def)
  note n = get_new_pcb_frame[OF s(1) assms(2)]
  have "frame {c} k1 (k1\<lparr>vm := s\<rparr>)" by (rule mem_step_frame[OF mem_stepI(1)])
  also have "frame {c} (k1\<lparr>vm := s\<rparr>) k2" by (rule upd_pcb_frame[OF s(2)]) (simp add: pcb_typed_def)
  also have "frame {c} k2 (k2\<lparr>vm := s3\<rparr>)" by (rule mem_step_frame[OF mem_stepI(1)])
  also have "frame {c} (k2\<lparr>vm := s3\<rparr>) k3" by (rule upd_pcb_frame[OF s(3)]) (simp add: pcb_typed_def)
  also have "frame {c} k3 k4" by (rule set_pname_frame[OF s(4)])
  also have "frame {c} k4 k'" by (rule set_wd_frame[OF s(5)])
  finally have f: "frame {c} k1 k'" .
  from n(1) f show "frame {c} k k'" by (rule frame_trans)
  show "pcbs (sched_of k') c \<noteq> None" using n(2) f by (auto simp: frame_def frame_sched_def)
  show "c \<noteq> 0" by (rule n(3))
qed

text \<open>\<^verbatim>\<open>fork\<close> makes one block and puts it at the end of the queue.\<close>

lemma fork_frame:
  assumes "do_fork e k = Inr (r, k')" and "\<And>p. pcb_typed (env_raw e p)"
  obtains c k1 q t where "frame {c} k k1" and "pcbs (sched_of k1) c \<noteq> None" and "c \<noteq> 0" and "\<exists>w b. r = Ret w b"
    and "q = processq (sched_of k1) \<and> \<not> alive (sched_of k1) c \<or> q = ring_push c (processq (sched_of k1))"
    and "k' = set_sched ((sched_of k1)\<lparr>processq := q, cpu_cr3 := t\<rparr>) k1"
proof -
  from assms(1) obtain c k1 k2 k3 k4 k5 s t and px cx :: pcb where s: "get_forked_pcb (env_raw e) (env_junk e) (active_pcb (sched_of k)) k = Inr (c, k1)"
    "copy_stack (kernel_stack px) (kernel_stack cx) k1 = Inr k2"
    "upd_pcb c (\<lambda>x. x\<lparr>kernel_sp := kernel_stack x + env_rsp e - kernel_stack px + 64\<rparr>) k2 = Inr k3"
    "push_kernel c (env_fork_return e) k3 = Inr k4" "push_kernel c 0 k4 = Inr k5" "process_run c (sched_of k5) = Inr s"
    "\<exists>w b. r = Ret w b" "k' = set_cr3 t (set_sched s k5)"
    by (auto simp: do_fork_def Let_def)
  note n = get_forked_pcb_frame[OF s(1) assms(2)]
  have "frame {c} k1 k2" by (rule mem_step_frame[OF copy_stack_mem[OF s(2)]])
  also have "frame {c} k2 k3" by (rule upd_pcb_frame[OF s(3)]) (simp add: pcb_typed_def)
  also have "frame {c} k3 k4" by (rule push_kernel_frame[OF s(4)])
  also have "frame {c} k4 k5" by (rule push_kernel_frame[OF s(5)])
  finally have f: "frame {c} k1 k5" .
  have p: "pcbs (sched_of k5) c \<noteq> None" using n(2) f by (auto simp: frame_def frame_sched_def)
  from s(6) consider "s = sched_of k5" "\<not> alive (sched_of k5) c" | "s = (sched_of k5)\<lparr>processq := ring_push c (processq (sched_of k5))\<rparr>"
    by (auto simp: process_run_def enqueue_process_def deref_def has_status_def split: if_splits option.splits)
  then show thesis
  proof cases
    case 1
    then show thesis
      by (intro that[OF frame_trans[OF n(1) f] p n(3), of "processq (sched_of k5)" t]) (simp_all add: 1 s(7,8) set_cr3_def)
  next
    case 2
    then show thesis
      by (intro that[OF frame_trans[OF n(1) f] p n(3), of "ring_push c (processq (sched_of k5))" t])
        (simp_all add: s(7,8) set_cr3_def)
  qed
qed

lemma start_frame:
  assumes "k_thread_kernel k = Some (Inr (u, k'))"
  shows "own_frame k k'"
proof -
  let ?a = "active_pcb (sched_of k)"
  from assms obtain x where x: "deref (sched_of k) ?a = Inr x"
    by (cases "deref (sched_of k) ?a") (auto simp: k_thread_kernel_def)
  with assms obtain k1 where k1: "(if status x = READY then prepare_user_memory ?a k else Some (Inr k)) = Some (Inr k1)"
    "switch_to_ring_3 k1 = Inr (u, k')"
    by (auto simp: k_thread_kernel_def split: if_splits)
  have "own_frame k k1"
  proof (cases "status x = READY")
    case True
    with k1(1) x obtain en k2 k3 k4 and y :: pcb where s: "map_file (pname x) (set_cr3 (pml4 x) k) = Some (Inr (en, k2))"
      "upd_pcb ?a (\<lambda>x. x\<lparr>ip := en\<rparr>) k2 = Inr k3" "kstore64 (user_sp y - 8) 0 k3 = Inr k4"
      "upd_pcb ?a (\<lambda>x. x\<lparr>status := RUNNING\<rparr>) k4 = Inr k1"
      by (auto simp: prepare_user_memory_def)
    have "own_frame k k2" by (rule mem_step_frame[OF mem_step_trans[OF mem_stepI(3) map_file_mem[OF s(1)]]])
    also have "frame {?a} k2 k3" by (rule upd_pcb_frame[OF s(2)]) (simp add: pcb_typed_def)
    also have "frame {?a} k3 k4" by (rule mem_step_frame[OF kstore64_mem[OF s(3)]])
    also have "frame {?a} k4 k1" by (rule upd_pcb_frame[OF s(4)]) (simp add: pcb_typed_def)
    finally show ?thesis .
  qed (use k1(1) in simp)
  also have "frame {?a} k1 k'"
    using k1(2) by (auto simp: switch_to_ring_3_def Let_def frame_def frame_sched_def typed_kernel_def set_cr3_def set_sched_def)
  finally show ?thesis .
qed

end
