(* ===== verification/System.thy ===== *)
theory System
  imports Frame User_Lib
begin

text \<open>
  The whole system as a transition system with labelled steps. A state is the state of the kernel and, for each process, the
  stack of the places inside of handlers where it is. The steps are the pieces of kernel code between two interrupt points.

  \<^bold>\<open>Interrupt points.\<close> \<^verbatim>\<open>idt.s\<close> allows interrupts (\<^verbatim>\<open>sti\<close>) before it calls \<^verbatim>\<open>int_syscall_srv\<close>, and \<^verbatim>\<open>main.c\<close> before \<^verbatim>\<open>init\<close>, so on
  the machine the timer can interrupt a system call, and the idle loop inside of \<^verbatim>\<open>schedule\<close>, at every instruction. Here the timer
  and the keyboard come in before a handler, between the work of a handler and its call of \<^verbatim>\<open>schedule\<close>, after this call has
  returned, and before the handler returns. The pieces between these points are single steps: the work of a system call up
  to \<^verbatim>\<open>schedule\<close> or to its end, one call of \<^verbatim>\<open>schedule\<close> (in a handler, in the timer, in the idle loop), and the rest after it.
  The handlers of the timer, the keyboard and of faults begin with interrupts off; an interrupt that comes in while the
  timer's handler goes on after a switch is taken here when that handler has ended. Runs in which the timer takes the
  processor away in the middle of a piece are not in the model, and the properties do not hold for them:
  \<open>interrupted_enqueue_loses\<close> shows one in which a process is lost.
\<close>

section \<open>Invariants of steps\<close>

text \<open>What a provider shows of its first states and of its steps, and what follows for every run.\<close>

locale step_invariant =
  fixes first_state :: "'s \<Rightarrow> bool"
    and step_rel :: "'s \<Rightarrow> 's \<Rightarrow> bool"
    and kept :: "'s \<Rightarrow> bool"
  assumes first_kept: "first_state s \<Longrightarrow> kept s"
    and step_kept: "kept s \<Longrightarrow> step_rel s s' \<Longrightarrow> kept s'"
begin

lemma run_kept: "step_rel\<^sup>*\<^sup>* s s' \<Longrightarrow> kept s \<Longrightarrow> kept s'"
  by (induction rule: rtranclp_induct) (auto intro: step_kept)

lemma reachable_kept: "first_state s \<Longrightarrow> step_rel\<^sup>*\<^sup>* s s' \<Longrightarrow> kept s'"
  by (blast intro: run_kept first_kept)

end

section \<open>The processes\<close>

text \<open>
  The queue is \<open>q\<close>, no process that has not ended is outside of it unless it is the running one, and the
  idle process \<open>i\<close> can run.
\<close>

definition procs_ok :: "u64 \<Rightarrow> sched \<Rightarrow> u64 list \<Rightarrow> bool" where
  "procs_ok i s q =
     (sched_ok s q \<and> i \<in> set (active_pcb s # q) \<and> runnable s i \<and>
      (\<forall>p. alive s p \<longrightarrow> p \<in> set (active_pcb s # q)))"

text \<open>A status changes outside \<open>A\<close> only by a wake-up.\<close>

definition wakes :: "pcb \<Rightarrow> pcb \<Rightarrow> bool" where
  "wakes x y = (status y = status x \<or> status x = WAITING \<and> status y = RUNNING)"

definition calm :: "u64 set \<Rightarrow> sched \<Rightarrow> sched \<Rightarrow> bool" where
  "calm A s s' =
     (processq s' = processq s \<and> active_pcb s' = active_pcb s \<and> time_slice s' = time_slice s \<and>
      (\<forall>p. pcbs s p \<noteq> None \<longrightarrow> pcbs s' p \<noteq> None) \<and> (\<forall>p. p \<notin> A \<longrightarrow> rel_option wakes (pcbs s p) (pcbs s' p)))"

lemma wakes_refl [simp]: "wakes x x"
  by (simp add: wakes_def)

lemma calm_frame: "frame A k k' \<Longrightarrow> calm A (sched_of k) (sched_of k')"
  by (simp add: frame_def frame_sched_def calm_def option.rel_refl)

lemma calm_trans: "calm A s s' \<Longrightarrow> calm A s' s'' \<Longrightarrow> calm A s s''"
proof -
  assume a: "calm A s s'" "calm A s' s''"
  have "rel_option wakes (pcbs s p) (pcbs s'' p)" if "p \<notin> A" for p
  proof -
    have "rel_option wakes (pcbs s p) (pcbs s' p)" "rel_option wakes (pcbs s' p) (pcbs s'' p)"
      using a that by (simp_all add: calm_def)
    then show ?thesis by (cases "pcbs s p"; cases "pcbs s' p"; cases "pcbs s'' p") (auto simp: wakes_def)
  qed
  with a show ?thesis by (simp add: calm_def)
qed

lemma calm_mono: "calm A s s' \<Longrightarrow> A \<subseteq> B \<Longrightarrow> calm B s s'"
  by (auto simp: calm_def)

lemma calm_wake: "(\<And>x. c x \<Longrightarrow> wakes x (f x)) \<Longrightarrow> calm A s (wake c f q s)"
  by (auto simp: calm_def wake_def option.rel_map intro!: rel_option_reflI)

lemma calm_notify:
  assumes "sched_ok s q"
  shows "notify_stdin s = Inr s' \<Longrightarrow> calm A s s'" and "notify_exit_pid n st s = Inr s' \<Longrightarrow> calm A s s'"
    and "notify_alarm c s = Inr s' \<Longrightarrow> calm A s s'"
  unfolding notify_wakes[OF assms] by (auto intro!: calm_wake simp: wakes_def)

lemma calm_ok:
  assumes "procs_ok i s q" and "calm A s s'" and "A \<subseteq> set (active_pcb s # q)" and "i \<notin> A"
  shows "procs_ok i s' q"
proof -
  have f: "processq s' = processq s" "active_pcb s' = active_pcb s" "\<And>p. pcbs s p \<noteq> None \<Longrightarrow> pcbs s' p \<noteq> None"
    "\<And>p. p \<notin> A \<Longrightarrow> rel_option wakes (pcbs s p) (pcbs s' p)" using assms(2) by (simp_all add: calm_def)
  have ok: "sched_ok s' q" using assms(1) f(1-3) by (auto simp: procs_ok_def sched_ok_def blocks_ok_def)
  have al: "alive s p" if "p \<notin> A" "alive s' p" for p
    using f(4)[OF that(1)] that(2) by (cases "pcbs s p"; cases "pcbs s' p") (auto simp: has_status_def wakes_def)
  have "runnable s' i"
    using f(4)[OF assms(4)] assms(1) by (cases "pcbs s i"; cases "pcbs s' i") (auto simp: procs_ok_def has_status_def wakes_def)
  moreover have "p \<in> set (active_pcb s' # q)" if "alive s' p" for p
    using al[of p] that assms(1,3) f(2) by (cases "p \<in> A") (auto simp: procs_ok_def)
  ultimately show ?thesis using ok assms(1) f(2) by (simp add: procs_ok_def)
qed

section \<open>Whose turn it is\<close>

text \<open>
  A step is \<open>steady\<close> if it leaves the processor with the running process, and every other process that can run can still run,
  unless it has been ended.
\<close>

definition steady :: "sched \<Rightarrow> sched \<Rightarrow> bool" where
  "steady s s' =
     (active_pcb s' = active_pcb s \<and> time_slice s' = time_slice s \<and>
      (\<forall>p. p \<noteq> active_pcb s \<and> runnable s p \<longrightarrow> runnable s' p \<or> \<not> alive s' p))"

lemma calm_steady:
  assumes "calm A s s'" and "\<forall>p\<in>A. p = active_pcb s \<or> \<not> alive s' p"
  shows "steady s s'"
proof -
  have "runnable s' p \<or> \<not> alive s' p" if h: "p \<noteq> active_pcb s" "runnable s p" for p
  proof (cases "p \<in> A")
    case True
    then show ?thesis using assms(2) h(1) by blast
  next
    case False
    then have "rel_option wakes (pcbs s p) (pcbs s' p)" using assms(1) by (simp add: calm_def)
    then show ?thesis using h(2) by (cases "pcbs s p"; cases "pcbs s' p") (auto simp: has_status_def wakes_def)
  qed
  then show ?thesis using assms(1) by (simp add: steady_def calm_def)
qed

text \<open>The place of a process in the queue, and how many interrupts of the timer it has to wait at most.\<close>

definition place_in :: "u64 list \<Rightarrow> u64 \<Rightarrow> nat" where
  "place_in q p = length (takeWhile (\<lambda>x. x \<noteq> p) q)"

definition delay :: "sched \<Rightarrow> u64 list \<Rightarrow> u64 \<Rightarrow> nat" where
  "delay s q p = 17 * place_in q p + nat (TIME_SLICE_LIMIT - time_slice s)"

lemma place_in_append [simp]: "p \<in> set q \<Longrightarrow> place_in (q @ z) p = place_in q p"
  by (simp add: place_in_def takeWhile_append1[of p])

lemma place_in_bound: "p \<in> set q \<Longrightarrow> place_in q p < length q"
  by (induction q) (auto simp: place_in_def)

lemma place_in_behind: "p \<notin> set pre \<Longrightarrow> place_in (pre @ q) p = length pre + place_in q p"
  unfolding place_in_def by (subst takeWhile_append2) auto

text \<open>After a step, every process of the queue has the processor, has ended, or has at least \<open>n\<close> interrupts less to wait.\<close>

definition advances :: "nat \<Rightarrow> sched \<Rightarrow> u64 list \<Rightarrow> sched \<Rightarrow> u64 list \<Rightarrow> bool" where
  "advances n s q s' q' =
     (\<forall>p\<in>set q. runnable s p \<longrightarrow> active_pcb s' = p \<or> \<not> alive s' p \<or>
        p \<in> set q' \<and> runnable s' p \<and> delay s' q' p + n \<le> delay s q p)"

lemma steady_advances:
  assumes "steady s s'" and "active_pcb s \<notin> set q"
  shows "advances 0 s q s' (q @ z)"
proof -
  have "runnable s' p \<or> \<not> alive s' p" if "p \<in> set q" "runnable s p" for p
  proof -
    have "p \<noteq> active_pcb s" using assms(2) that(1) by auto
    then show ?thesis using assms(1) that(2) by (simp add: steady_def)
  qed
  moreover have "delay s' (q @ z) p = delay s q p" if "p \<in> set q" for p
    using assms(1) that by (simp add: steady_def delay_def)
  ultimately show ?thesis unfolding advances_def by fastforce
qed

lemma calm_then_advances:
  assumes "calm {} s s1" and "advances n s1 q s' q'"
  shows "advances n s q s' q'"
proof -
  have "runnable s1 p" if "runnable s p" for p
  proof -
    have "rel_option wakes (pcbs s p) (pcbs s1 p)" using assms(1) by (simp add: calm_def)
    with that show ?thesis by (cases "pcbs s p"; cases "pcbs s1 p") (auto simp: has_status_def wakes_def)
  qed
  moreover have "delay s1 q p = delay s q p" for p using assms(1) by (simp add: delay_def calm_def)
  ultimately show ?thesis using assms(2) unfolding advances_def by metis
qed

lemma rotation_advances:
  assumes "candidates s q = pre @ r # post" and "\<forall>p\<in>set pre. \<not> runnable s p" and "pcbs s' = pcbs (saved rsp s)"
    and "active_pcb s' = r" and "time_slice s' = 0" and "q' = post @ filter (alive s) pre"
  shows "advances 1 (s\<lparr>time_slice := n\<rparr>) q s' q'"
  unfolding advances_def
proof (intro ballI impI)
  fix p assume p: "p \<in> set q" "runnable (s\<lparr>time_slice := n\<rparr>) p"
  have run: "runnable s p" "runnable s' p" using p(2) has_status_pcbs[OF assms(3)] by (simp_all add: has_status_def)
  show "active_pcb s' = p \<or> \<not> alive s' p \<or>
    p \<in> set q' \<and> runnable s' p \<and> delay s' q' p + 1 \<le> delay (s\<lparr>time_slice := n\<rparr>) q p"
  proof (cases "p = r")
    case False
    have np: "p \<notin> set pre" using assms(2) run(1) by blast
    obtain z where z: "candidates s q = q @ z" by (simp add: candidates_def)
    then have "p \<in> set (pre @ r # post)" using p(1) by (simp flip: assms(1))
    then have post: "p \<in> set post" using np False by simp
    have "place_in q p = place_in (q @ z) p" using p(1) by simp
    also have "\<dots> = length pre + Suc (place_in post p)"
      using z assms(1) place_in_behind[OF np, of "r # post"] False by (simp add: place_in_def)
    finally have "place_in q' p < place_in q p" using post by (simp add: assms(6))
    then show ?thesis using run post by (simp add: assms(5,6) delay_def)
  qed (simp add: assms(4))
qed

text \<open>Calling \<^verbatim>\<open>schedule\<close>.\<close>

lemma schedule_ok:
  assumes "procs_ok i s q"
  obtains sp s' q' where "schedule rsp s = Some (Inr (sp, s'))" and "procs_ok i s' q'" and "runnable s' (active_pcb s')"
    and "pcbs s' = pcbs (saved rsp s)" and "time_slice s' = 0" and "\<forall>n. advances 1 (s\<lparr>time_slice := n\<rparr>) q s' q'"
proof -
  have ok: "sched_ok s q" and al: "\<And>p. alive s p \<Longrightarrow> p \<in> set (candidates s q)" and i: "runnable s i"
    using assms by (auto simp: procs_ok_def candidates_iff)
  have "i \<in> set (candidates s q)" by (rule al[OF runnable_alive[OF i]])
  with i obtain r q' where rq: "rotation s q = Some (r, q')"
    using rotation_None[of s q] by (cases "rotation s q") auto
  from schedule_simulates_rotation[OF ok rq, of rsp] obtain y :: pcb and s' where
    s': "schedule rsp s = Some (Inr (kernel_sp y, s'))" "sched_ok s' q'" "pcbs s' = pcbs (saved rsp s)" "active_pcb s' = r"
      "time_slice s' = 0" by blast
  have hs: "has_status s' S = has_status s S" for S using has_status_pcbs[OF s'(3)] by simp
  obtain pre post where c: "candidates s q = pre @ r # post" "\<forall>p\<in>set pre. \<not> runnable s p" "runnable s r"
    "q' = post @ filter (alive s) pre" using rq unfolding rotation_split by blast
  have all: "p \<in> set (active_pcb s' # q')" if "alive s p" for p using al[OF that] that c s'(4) by auto
  have "procs_ok i s' q'"
    using s'(2) all i runnable_alive[OF i] by (simp add: procs_ok_def hs)
  with s' c(3) rotation_advances[OF c(1,2) s'(3-5) c(4)] show thesis
    by (intro that[of "kernel_sp y" s' q']) (simp_all add: hs)
qed

section \<open>The sizes of the arrays\<close>

definition blocks_typed :: "sched \<Rightarrow> bool" where
  "blocks_typed s = (\<forall>p x. pcbs s p = Some x \<longrightarrow> pcb_typed x)"

lemma typed_blocks: "typed_kernel k \<Longrightarrow> blocks_typed (sched_of k)"
  by (simp add: typed_kernel_def blocks_typed_def)

lemma typed_set_sched: "typed_kernel k \<Longrightarrow> blocks_typed s \<Longrightarrow> typed_kernel (set_sched s k)"
  by (simp add: typed_kernel_def blocks_typed_def set_sched_def)

lemma blocks_typed_put: "blocks_typed s \<Longrightarrow> pcb_typed x \<Longrightarrow> blocks_typed (put_pcb p x s)"
  by (simp add: blocks_typed_def put_pcb_def)

lemma blocks_typed_wake: "blocks_typed s \<Longrightarrow> (\<And>x. pcb_typed x \<Longrightarrow> pcb_typed (f x)) \<Longrightarrow> blocks_typed (wake c f q s)"
  by (auto simp: blocks_typed_def wake_def)

lemma blocks_typed_notify:
  assumes "sched_ok s q" and "blocks_typed s"
  shows "notify_stdin s = Inr s' \<Longrightarrow> blocks_typed s'" and "notify_exit_pid n st s = Inr s' \<Longrightarrow> blocks_typed s'"
    and "notify_alarm c s = Inr s' \<Longrightarrow> blocks_typed s'"
  unfolding notify_wakes[OF assms(1)] using assms(2) by (auto intro!: blocks_typed_wake simp: pcb_typed_def)

lemma blocks_typed_saved: "blocks_typed s \<Longrightarrow> pcbs s' = pcbs (saved rsp s) \<Longrightarrow> blocks_typed s'"
  by (auto simp: blocks_typed_def saved_def put_pcb_def pcb_typed_def split: option.splits)

section \<open>Interrupts\<close>

lemma add_char_ok:
  assumes "add_char c (b, s) = Inr (r, b', s')" and "sched_ok s q"
  shows "calm A s s'" and "blocks_typed s \<Longrightarrow> blocks_typed s'" and "length (stdin_buffer b') = length (stdin_buffer b)"
proof -
  have "s' = s \<or> notify_stdin s = Inr s'"
    using assms(1) by (auto simp: add_char_def Let_def split: if_splits)
  then show "calm A s s'" "blocks_typed s \<Longrightarrow> blocks_typed s'"
    using calm_notify(1)[OF assms(2)] blocks_typed_notify(1)[OF assms(2)] by (auto simp: calm_def option.rel_refl)
  show "length (stdin_buffer b') = length (stdin_buffer b)"
    using assms(1) by (auto simp: add_char_def Let_def wri_length split: if_splits)
qed

lemma put_pressed_key_length:
  "put_pressed_key key (s, b, scr) = Inr (s', b', scr') \<Longrightarrow> length b' = length b"
  by (auto simp: put_pressed_key_def keyboard_feed_def print_glyph_def Let_def split: if_splits)

lemma keyboard_ok:
  assumes "int_kbd_srv l k = Inr k'" and "sched_ok (sched_of k) q" and "typed_kernel k"
  shows "calm A (sched_of k) (sched_of k')" and "typed_kernel k'"
proof -
  from assms(1) obtain s b scr j where p: "put_pressed_key l (status_kbd k, status_buff k, screen (io k)) = Inr (s, b, scr)"
    "buffer_add_char l ((io k)\<lparr>screen := scr\<rparr>) = Inr j"
    "k' = outb 0x20 0x20 (k\<lparr>status_kbd := s, status_buff := b, io := j\<rparr>)"
    by (auto simp: int_kbd_srv_def)
  have e: "sched_of k' = procs j" "inp (io k') = inp j" by (simp_all add: p(3) outb_def)
  consider "procs j = sched_of k" "inp j = inp (io k)" | c r where "add_char c (inp (io k), sched_of k) = Inr (r, inp j, procs j)"
    using p(2) by (auto simp: buffer_add_char_def Let_def split: option.splits if_splits)
  then have j: "calm A (sched_of k) (procs j) \<and> (blocks_typed (sched_of k) \<longrightarrow> blocks_typed (procs j)) \<and>
      length (stdin_buffer (inp j)) = length (stdin_buffer (inp (io k)))"
  proof cases
    case 1
    then show ?thesis by (simp add: calm_def option.rel_refl)
  next
    case 2
    from add_char_ok[OF this assms(2)] show ?thesis by blast
  qed
  then show "calm A (sched_of k) (sched_of k')" by (simp add: e)
  show "typed_kernel k'"
    using j assms(3) put_pressed_key_length[OF p(1)] by (simp add: typed_kernel_def blocks_typed_def p(3) outb_def)
qed

lemma clock_ok:
  assumes "put_time_since_boot (t, b, s, scr) = Inr (t', b', s', scr')" and "sched_ok s q" and "blocks_typed s"
  shows "calm A s s'" and "blocks_typed s'" and "length b' = length b"
proof -
  from assms(1) have "s' = s \<or> (\<exists>c. notify_alarm c s = Inr s')"
    by (auto simp: put_time_since_boot_def tick_count_def Let_def split: if_splits)
  then show "calm A s s'" "blocks_typed s'"
    using calm_notify(3)[OF assms(2)] blocks_typed_notify(3)[OF assms(2,3)] assms(3) by (auto simp: calm_def option.rel_refl)
  show "length b' = length b"
    using assms(1) by (auto simp: put_time_since_boot_def tick_count_def print_clk_def Let_def split: if_splits)
qed

text \<open>The timer: either the process goes on, or another one gets the processor.\<close>

lemma preempt_ok:
  assumes "procs_ok i s q" and "0 \<le> time_slice s"
  obtains sp s' q' where "preempt rsp s = Some (Inr (sp, s'))" and "procs_ok i s' q'" and "0 \<le> time_slice s'"
    and "advances 1 s q s' q'" and "blocks_typed s \<Longrightarrow> blocks_typed s'"
    and "active_pcb s' = active_pcb s \<or> runnable s' (active_pcb s')"
proof -
  have slice: "procs_ok i (s\<lparr>time_slice := n\<rparr>) q" "blocks_typed (s\<lparr>time_slice := n\<rparr>) = blocks_typed s" for n
    using assms by (simp_all add: procs_ok_def sched_ok_def blocks_ok_def has_status_def blocks_typed_def)
  show thesis
  proof (cases "time_slice s + 1 > TIME_SLICE_LIMIT")
    case True
    obtain sp s' q' where s': "schedule rsp (s\<lparr>time_slice := 0\<rparr>) = Some (Inr (sp, s'))" "procs_ok i s' q'" "runnable s' (active_pcb s')"
      "pcbs s' = pcbs (saved rsp (s\<lparr>time_slice := 0\<rparr>))" "time_slice s' = 0"
      "\<forall>n. advances 1 (s\<lparr>time_slice := 0, time_slice := n\<rparr>) q s' q'" by (rule schedule_ok[OF slice(1)[of 0], where rsp = rsp])
    have "preempt rsp s = Some (Inr (sp, s'))" using True s'(1) by (simp add: preempt_def Let_def)
    moreover have "advances 1 s q s' q'" using s'(6)[rule_format, of "time_slice s"] by simp
    moreover have "blocks_typed s \<Longrightarrow> blocks_typed s'" using blocks_typed_saved[OF _ s'(4)] slice(2) by simp
    ultimately show thesis using s'(5) by (intro that[OF _ s'(2) _ _ _ disjI2[OF s'(3)]]) simp_all
  next
    case False
    let ?s = "s\<lparr>time_slice := time_slice s + 1\<rparr>"
    have "preempt rsp s = Some (Inr (rsp, ?s))" using False by (simp add: preempt_def Let_def)
    moreover have "advances 1 s q ?s q"
      using False by (auto simp: advances_def delay_def has_status_def)
    ultimately show thesis using slice assms(2) by (intro that[of rsp ?s q]) simp_all
  qed
qed

lemma timer_ok:
  assumes "int_tmr_begin rsp k = Some (Inr (sp, k'))" and "procs_ok i (sched_of k) q" and "typed_kernel k" and "0 \<le> time_slice (sched_of k)"
  obtains q' where "procs_ok i (sched_of k') q'" and "typed_kernel k'" and "0 \<le> time_slice (sched_of k')"
    and "advances 1 (sched_of k) q (sched_of k') q'"
proof -
  from assms(1) obtain t b s scr s' where p: "put_time_since_boot (clock k, clock_buff k, sched_of k, screen (io k)) = Inr (t, b, s, scr)"
    "preempt rsp s = Some (Inr (sp, s'))"
    "k' = k\<lparr>clock := t, clock_buff := b, io := (io k)\<lparr>procs := s', screen := scr\<rparr>\<rparr>"
    by (auto simp: int_tmr_begin_def split: sum.splits)
  have ok: "sched_ok (sched_of k) q" using assms(2) by (simp add: procs_ok_def)
  note c = clock_ok[OF p(1) ok typed_blocks[OF assms(3)]]
  have s: "procs_ok i s q" "0 \<le> time_slice s"
    using calm_ok[OF assms(2) c(1)[of "{}"]] c(1)[of "{}"] assms(4) by (simp_all add: calm_def)
  obtain q' where q': "procs_ok i s' q'" "0 \<le> time_slice s'" "advances 1 s q s' q'" "blocks_typed s'"
    by (rule preempt_ok[OF s, of rsp]) (use p(2) c(2) in auto)
  have "typed_kernel k'" using assms(3) c(3) q'(4) by (simp add: p(3) typed_kernel_def blocks_typed_def)
  moreover have "advances 1 (sched_of k) q s' q'" by (rule calm_then_advances[OF c(1) q'(3)])
  ultimately show thesis using q'(1,2) by (intro that[of q']) (simp_all add: p(3))
qed

lemma timer_returns:
  assumes "procs_ok i (sched_of k) q" and "typed_kernel k" and "0 \<le> time_slice (sched_of k)"
    and "put_time_since_boot (clock k, clock_buff k, sched_of k, screen (io k)) = Inr r"
  shows "\<exists>sp k'. int_tmr_begin rsp k = Some (Inr (sp, k')) \<and>
    (active_pcb (sched_of k') = active_pcb (sched_of k) \<or> runnable (sched_of k') (active_pcb (sched_of k')))"
proof -
  obtain t b s scr where p: "r = (t, b, s, scr)" by (cases r) auto
  have so: "sched_ok (sched_of k) q" using assms(1) by (simp add: procs_ok_def)
  note c = clock_ok[OF assms(4)[unfolded p] so typed_blocks[OF assms(2)]]
  have s: "procs_ok i s q" "0 \<le> time_slice s" "active_pcb s = active_pcb (sched_of k)"
    using calm_ok[OF assms(1) c(1)[of "{}"]] c(1)[of "{}"] assms(3) by (simp_all add: calm_def)
  from preempt_ok[OF s(1,2), of rsp] obtain sp s' where "preempt rsp s = Some (Inr (sp, s'))"
    "active_pcb s' = active_pcb s \<or> runnable s' (active_pcb s')" by metis
  then show ?thesis by (simp add: int_tmr_begin_def assms(4) p s(3))
qed

section \<open>\<^verbatim>\<open>fork\<close>, \<^verbatim>\<open>exit\<close> and \<^verbatim>\<open>kill\<close>\<close>

lemma fork_ok:
  assumes "do_fork e k = Inr (r, k')" and "\<And>p. pcb_typed (env_raw e p)"
    and "procs_ok i (sched_of k) q" and "typed_kernel k" and "length q < 98"
    and "pcbs (sched_of k) d = None" and "pcbs (sched_of k') d \<noteq> None"
  shows "\<exists>z. procs_ok i (sched_of k') (q @ z)" and "typed_kernel k'" and "steady (sched_of k) (sched_of k')"
proof -
  obtain c k1 Q t where f: "frame {c} k k1" "pcbs (sched_of k1) c \<noteq> None" "c \<noteq> 0"
    "Q = processq (sched_of k1) \<and> \<not> alive (sched_of k1) c \<or> Q = ring_push c (processq (sched_of k1))"
    "k' = set_sched ((sched_of k1)\<lparr>processq := Q, cpu_cr3 := t\<rparr>) k1" by (rule fork_frame[OF assms(1,2)])
  let ?s = "sched_of k" and ?s1 = "sched_of k1"
  have p1: "processq ?s1 = processq ?s" "active_pcb ?s1 = active_pcb ?s" "\<And>p. p \<noteq> c \<Longrightarrow> pcbs ?s1 p = pcbs ?s p"
    "typed_kernel k1" using f(1) assms(4) by (simp_all add: frame_def frame_sched_def)
  have d: "d = c" using assms(6,7) p1(3)[of d] f(5) by (cases "d = c") simp_all
  have ok: "ring_repr (processq ?s) q" "distinct (active_pcb ?s # q)" "\<forall>p\<in>set (active_pcb ?s # q). p \<noteq> 0 \<and> pcbs ?s p \<noteq> None"
    using assms(3) by (simp_all add: procs_ok_def sched_ok_def blocks_ok_def)
  have new: "c \<notin> set (active_pcb ?s # q)" "active_pcb ?s \<noteq> c" using ok(3) assms(6) d by auto
  have hs: "has_status (sched_of k') S p = has_status ?s S p" if "p \<noteq> c" for S p
    using p1(3)[OF that] by (simp add: f(5) has_status_def)
  have i: "i \<in> set (active_pcb ?s # q)" "runnable ?s i" "i \<noteq> c" using assms(3) new by (auto simp: procs_ok_def)
  have al: "p \<in> set (active_pcb ?s # q)" if "alive (sched_of k') p" "p \<noteq> c" for p
    using that hs assms(3) by (auto simp: procs_ok_def)
  have blk: "p \<noteq> 0 \<and> pcbs (sched_of k') p \<noteq> None" if "p \<in> set (active_pcb ?s # q) \<or> p = c" for p
    using that ok(3) p1(3)[of p] f(2,3) by (cases "p = c") (auto simp: f(5))
  have k': "active_pcb (sched_of k') = active_pcb ?s" "processq (sched_of k') = Q" by (simp_all add: f(5) p1(2))
  have ts: "time_slice (sched_of k') = time_slice ?s" using f(1) by (simp add: f(5) frame_def frame_sched_def)
  have "runnable (sched_of k') p" if "runnable ?s p" for p
  proof (cases "p = c")
    case True
    then show ?thesis using that assms(6) d by (simp add: has_status_def)
  qed (simp add: hs that)
  then show "steady ?s (sched_of k')" by (simp add: steady_def ts k')
  show "\<exists>z. procs_ok i (sched_of k') (q @ z)"
  proof (cases "Q = ring_push c (processq ?s)")
    case True
    have "ring_repr Q (q @ [c])" unfolding True using run_queue.enq_repr[OF ok(1), of c] assms(5) by simp
    then have "sched_ok (sched_of k') (q @ [c])"
      using ok(2) new blk assms(5) by (simp add: sched_ok_def blocks_ok_def k')
    moreover have "\<forall>p. alive (sched_of k') p \<longrightarrow> p \<in> set (active_pcb (sched_of k') # q @ [c])" using al by (auto simp: k')
    ultimately have "procs_ok i (sched_of k') (q @ [c])"
      using i hs by (auto simp: procs_ok_def k')
    then show ?thesis ..
  next
    case False
    then have q: "Q = processq ?s" "\<not> alive (sched_of k') c" using f(4) by (auto simp: p1(1) f(5) has_status_def)
    have "sched_ok (sched_of k') q" using ok(1,2) blk assms(5) by (simp add: sched_ok_def blocks_ok_def k' q(1))
    moreover have "\<forall>p. alive (sched_of k') p \<longrightarrow> p \<in> set (active_pcb (sched_of k') # q)" using al q(2) unfolding k' by blast
    ultimately have "procs_ok i (sched_of k') q"
      using i hs by (simp add: procs_ok_def k')
    then have "procs_ok i (sched_of k') (q @ [])" by simp
    then show ?thesis ..
  qed
  show "typed_kernel k'" using p1(4) unfolding f(5) by (intro typed_set_sched) (simp_all add: typed_kernel_def blocks_typed_def)
qed

lemma put_calm:
  assumes "pcbs s p \<noteq> None"
  shows "calm {p} s (put_pcb p x s)"
  using assms by (simp add: calm_def put_pcb_def option.rel_refl)

lemma exit_ok:
  assumes "do_exit st k = Inr (r, k')" and "procs_ok i (sched_of k) q" and "typed_kernel k" and "i \<noteq> active_pcb (sched_of k)"
  shows "procs_ok i (sched_of k') q" and "typed_kernel k'" and "r = Sched In_Exit" and "steady (sched_of k) (sched_of k')"
proof -
  let ?s = "sched_of k" and ?p = "active_pcb (sched_of k)"
  have ok: "sched_ok ?s q" using assms(2) by (simp add: procs_ok_def)
  then obtain y where y: "pcbs ?s ?p = Some y" "?p \<noteq> 0" by (auto simp: sched_ok_def blocks_ok_def)
  then have "active_blk k = Inr y" by (simp add: active_blk_def deref_def)
  note e = exit_run[OF this ok, of st, unfolded assms(1)]
  let ?s1 = "put_pcb ?p (y\<lparr>status := FINISHED\<rparr>) ?s"
  have "calm {?p} ?s ?s1" by (rule put_calm) (simp add: y)
  then have c: "calm {?p} ?s (sched_of k')" using e by (auto intro!: calm_trans[of _ ?s ?s1] calm_wake simp: wakes_def)
  show "procs_ok i (sched_of k') q" by (rule calm_ok[OF assms(2) c]) (use assms(4) in simp_all)
  show "steady ?s (sched_of k')" by (rule calm_steady[OF c]) simp
  have "pcb_typed y" using typed_blocks[OF assms(3)] y(1) by (simp add: blocks_typed_def)
  then have "blocks_typed ?s1" by (intro blocks_typed_put typed_blocks[OF assms(3)]) (simp add: pcb_typed_def)
  then show "typed_kernel k'" using e
    by (auto intro!: typed_set_sched[OF assms(3)] blocks_typed_wake simp: pcb_typed_def)
  show "r = Sched In_Exit" using e by simp
qed

lemma kill_ok:
  assumes "do_kill n sg k = Inr (r, k')" and "procs_ok i (sched_of k) q" and "typed_kernel k"
    and "\<forall>x. pcbs (sched_of k) i = Some x \<longrightarrow> scast (pid x) \<noteq> n"
  shows "procs_ok i (sched_of k') q" and "typed_kernel k'" and "\<exists>w b. r = Ret w b" and "steady (sched_of k) (sched_of k')"
proof -
  let ?s = "sched_of k"
  have ok: "sched_ok ?s q" using assms(2) by (simp add: procs_ok_def)
  have w: "for_queue (kill_body n) ?s = (case List.find (\<lambda>p. \<exists>x. pcbs ?s p = Some x \<and> scast (pid x) = n) q of
       None \<Rightarrow> Inr (None, ?s)
     | Some p \<Rightarrow> Inr (Some (), put_pcb p (the (pcbs ?s p)\<lparr>status := FINISHED\<rparr>) ?s))"
    using walk_kill[OF sched_ok_blocks[OF ok], of n] by (simp add: for_queue_walk[OF sched_ok_ring[OF ok]])
  have "procs_ok i (sched_of k') q \<and> blocks_typed (sched_of k') \<and> steady ?s (sched_of k')"
  proof (cases "List.find (\<lambda>p. \<exists>x. pcbs ?s p = Some x \<and> scast (pid x) = n) q")
    case None
    then have "k' = set_sched ?s k" using assms(1) by (simp add: do_kill_def kill_pid_def w)
    then show ?thesis using assms(2) typed_blocks[OF assms(3)] by (simp add: steady_def)
  next
    case (Some p)
    then obtain x where x: "p \<in> set q" "pcbs ?s p = Some x" "scast (pid x) = n" by (auto simp: find_Some_iff)
    let ?s1 = "put_pcb p (x\<lparr>status := FINISHED\<rparr>) ?s"
    obtain s2 where s2: "notify_exit_pid (ucast n) sg ?s1 = Inr s2" "sched_of k' = s2"
      using assms(1) Some x(2) by (auto simp: do_kill_def kill_pid_def w)
    have ok1: "sched_ok ?s1 q" by (rule sched_ok_put[OF ok])
    have "calm {p} ?s ?s1" by (rule put_calm) (simp add: x)
    then have c: "calm {p} ?s s2" by (rule calm_trans[OF _ calm_notify(2)[OF ok1 s2(1)]])
    have "procs_ok i s2 q" by (rule calm_ok[OF assms(2) c]) (use x assms(4) in auto)
    moreover have "rel_option wakes (pcbs ?s1 p) (pcbs s2 p)" using calm_notify(2)[OF ok1 s2(1), of "{}"] unfolding calm_def by blast
    then have "\<not> alive s2 p" by (cases "pcbs s2 p") (auto simp: put_pcb_def has_status_def wakes_def)
    then have "steady ?s s2" by (intro calm_steady[OF c]) simp
    moreover have "pcb_typed x" using typed_blocks[OF assms(3)] x(2) by (simp add: blocks_typed_def)
    then have "blocks_typed ?s1" by (intro blocks_typed_put typed_blocks[OF assms(3)]) (simp add: pcb_typed_def)
    then have "blocks_typed s2" by (rule blocks_typed_notify(2)[OF ok1 _ s2(1)])
    ultimately show ?thesis using s2(2) by simp
  qed
  moreover have "\<exists>s v. k' = set_sched s (k\<lparr>vm := v\<rparr>)"
  proof -
    from assms(1) consider s where "k' = set_sched s k" | s v where "k' = set_sched s (k\<lparr>vm := v\<rparr>)"
      by (auto simp: do_kill_def split: if_splits)
    then show ?thesis
    proof cases
      case 1
      moreover have "k = k\<lparr>vm := vm k\<rparr>" by simp
      ultimately show ?thesis by metis
    qed blast
  qed
  ultimately show "procs_ok i (sched_of k') q" "typed_kernel k'" "steady (sched_of k) (sched_of k')"
    using assms(3) by (auto simp: typed_kernel_def blocks_typed_def set_sched_def)
  show "\<exists>w b. r = Ret w b" using assms(1) by (auto simp: do_kill_def split: if_splits)
qed

section \<open>The steps\<close>

text \<open>
  Where a process is inside of the kernel: a handler has done its work and is about to call \<^verbatim>\<open>schedule\<close>, or it is at
  the return of that call. The timer can come in at these places too, so a process has a stack of them; in a program, and in the
  loop of the idle process, the stack is empty.
\<close>

datatype place = Before kont | Inside kont

record system =
  kern :: kernel
  parked :: "u64 \<Rightarrow> place list"

definition running :: "system \<Rightarrow> u64" where
  "running S = active_pcb (sched_of (kern S))"

text \<open>The handlers of the timer and the keyboard are interrupt gates: they are not interrupted themselves.\<close>

definition interruptible :: "system \<Rightarrow> bool" where
  "interruptible S = (case parked S (running S) of Inside In_Timer # _ \<Rightarrow> False | _ \<Rightarrow> True)"

text \<open>A handler ends, or it comes to its call of \<^verbatim>\<open>schedule\<close>; \<open>fs\<close> is the stack below it.\<close>

definition leave :: "sysres \<Rightarrow> place list \<Rightarrow> kernel \<Rightarrow> system \<Rightarrow> system" where
  "leave r fs k S =
     \<lparr>kern = k, parked = (parked S)(running S := (case r of Ret w b \<Rightarrow> fs | Sched c \<Rightarrow> Before c # fs))\<rparr>"

text \<open>
  The labels of the steps. \<open>Ev_call\<close> has the number of the call, its first argument, and the state of the kernel before and
  after the work of the handler.
\<close>

datatype event =
    Ev_call u64 uarg kernel kernel
  | Ev_schedule | Ev_resume | Ev_start | Ev_tick | Ev_key u8 | Ev_fault u64 u64 | Ev_idle

text \<open>
  The steps of the system with the idle process \<open>i\<close>. Whatever the programs do in between does not matter, so a process may
  make any call with any arguments at any time. An error of the kernel (a message and \<^verbatim>\<open>while(1)\<close>, or an access to memory that
  is not there) is not a step.
\<close>

inductive sys_step :: "env \<Rightarrow> u64 \<Rightarrow> event \<Rightarrow> system \<Rightarrow> system \<Rightarrow> bool" for e i where
  call: "running S \<noteq> i \<Longrightarrow> parked S (running S) = [] \<Longrightarrow> do_system_call e n x y z (kern S) = Some (Inr (r, k)) \<Longrightarrow>
    sys_step e i (Ev_call n x (kern S) k) S (leave r [] k S)"
| schedule: "parked S (running S) = Before c # fs \<Longrightarrow> schedule rsp (sched_of (kern S)) = Some (Inr (sp, s)) \<Longrightarrow>
    sys_step e i Ev_schedule S \<lparr>kern = set_sched s (kern S), parked = (parked S)(running S := Inside c # fs)\<rparr>"
| resume: "parked S (running S) = Inside c # fs \<Longrightarrow> resume c (kern S) = Inr (r, k) \<Longrightarrow>
    sys_step e i Ev_resume S (leave r fs k S)"
| start: "running S \<noteq> i \<Longrightarrow> parked S (running S) = [] \<Longrightarrow> k_thread_kernel (kern S) = Some (Inr (u, k')) \<Longrightarrow>
    sys_step e i Ev_start S (S\<lparr>kern := k'\<rparr>)"
| tick: "interruptible S \<Longrightarrow> int_tmr_begin rsp (kern S) = Some (Inr (sp, k')) \<Longrightarrow>
    active_pcb (sched_of k') = running S \<Longrightarrow> sys_step e i Ev_tick S (S\<lparr>kern := int_tmr_end k'\<rparr>)"
| switch: "interruptible S \<Longrightarrow> int_tmr_begin rsp (kern S) = Some (Inr (sp, k')) \<Longrightarrow>
    active_pcb (sched_of k') \<noteq> running S \<Longrightarrow>
    sys_step e i Ev_tick S \<lparr>kern = k', parked = (parked S)(running S := Inside In_Timer # parked S (running S))\<rparr>"
| key: "interruptible S \<Longrightarrow> int_kbd_srv l (kern S) = Inr k' \<Longrightarrow> sys_step e i (Ev_key l) S (S\<lparr>kern := k'\<rparr>)"
| fault: "parked S (running S) = [] \<Longrightarrow> int_pgflt_srv a err (kern S) = Inr k' \<Longrightarrow>
    sys_step e i (Ev_fault a err) S (S\<lparr>kern := k'\<rparr>)"
| idle: "running S = i \<Longrightarrow> parked S i = [] \<Longrightarrow> schedule rsp (sched_of (kern S)) = Some (Inr (sp, s)) \<Longrightarrow>
    sys_step e i Ev_idle S (S\<lparr>kern := set_sched s (kern S)\<rparr>)"

text \<open>The steps that call \<^verbatim>\<open>schedule\<close> or count a tick of the time slice.\<close>

fun is_turn :: "event \<Rightarrow> bool" where
  "is_turn Ev_schedule = True"
| "is_turn Ev_idle = True"
| "is_turn Ev_tick = True"
| "is_turn _ = False"

text \<open>The number of processes in the ring.\<close>

definition ring_count :: "pcb_list \<Rightarrow> nat" where
  "ring_count Q = (case Q of (arr, hd0, tl0) \<Rightarrow> (tl0 + 100 - hd0) mod 100)"

text \<open>
  What the properties ask of the calls of the programs. Two calls can break the scheduler: a \<^verbatim>\<open>fork\<close> when the ring has 98
  processes, and a \<^verbatim>\<open>kill\<close> of the idle process (\<open>killed_idle_hangs\<close>). And the memory that \<^verbatim>\<open>fork\<close> gets for the block
  must not hold another block; \<open>kmalloc_blocks_disjoint\<close> is about that.
\<close>

definition permitted :: "u64 \<Rightarrow> u64 \<Rightarrow> uarg \<Rightarrow> kernel \<Rightarrow> bool" where
  "permitted i n arg k =
     ((n = 57 \<longrightarrow> ring_count (processq (sched_of k)) < 98) \<and>
      (n = 62 \<longrightarrow> (case pcbs (sched_of k) i of Some x \<Rightarrow> scast (pid x) \<noteq> addr_of arg | None \<Rightarrow> True)))"

definition new_block :: "kernel \<Rightarrow> kernel \<Rightarrow> bool" where
  "new_block k k' = (\<exists>d. pcbs (sched_of k) d = None \<and> pcbs (sched_of k') d \<noteq> None)"

fun allowed :: "u64 \<Rightarrow> event \<Rightarrow> bool" where
  "allowed i (Ev_call n x k k') = (permitted i n x k \<and> (n = 57 \<longrightarrow> new_block k k'))"
| "allowed i _ = True"

definition booted_system :: "env \<Rightarrow> u64 \<Rightarrow> system \<Rightarrow> bool" where
  "booted_system e i S =
     (\<exists>p fs r k idle_fn rsp. kmem_ok p fs (r + 6) k \<and> 24 \<le> length fs \<and> prev_pid (sched_of k) = 0 \<and>
        processq (sched_of k) = (replicate 100 0, 0, 0) \<and> pcbs (sched_of k) = Map.empty \<and> time_slice (sched_of k) = 0 \<and>
        typed_kernel k \<and> init (env_raw e) (env_junk e) idle_fn (env_thread e) k = Inr (rsp, kern S) \<and>
        i = running S \<and> parked S = (\<lambda>_. []))"

text \<open>The states that can be reached, with the steps that lead to them, and the runs from a state.\<close>

inductive sys_reach :: "env \<Rightarrow> u64 \<Rightarrow> event list \<Rightarrow> system \<Rightarrow> bool" for e i where
  boot: "booted_system e i S \<Longrightarrow> sys_reach e i [] S"
| step: "sys_reach e i evs S \<Longrightarrow> sys_step e i ev S S' \<Longrightarrow> sys_reach e i (evs @ [ev]) S'"

fun sys_path :: "env \<Rightarrow> u64 \<Rightarrow> system \<Rightarrow> (event \<times> system) list \<Rightarrow> bool" where
  "sys_path e i S [] = True"
| "sys_path e i S ((ev, S') # tr) = (sys_step e i ev S S' \<and> sys_path e i S' tr)"

section \<open>The invariant\<close>

definition sys_at :: "u64 \<Rightarrow> system \<Rightarrow> u64 list \<Rightarrow> bool" where
  "sys_at i S q =
     (procs_ok i (sched_of (kern S)) q \<and> typed_kernel (kern S) \<and> 0 \<le> time_slice (sched_of (kern S)) \<and>
      parked S i \<in> {[], [Inside In_Timer]})"

definition sys_ok :: "u64 \<Rightarrow> system \<Rightarrow> bool" where
  "sys_ok i S = (\<exists>q. sys_at i S q)"

lemma ring_count_length: "ring_repr Q q \<Longrightarrow> ring_count Q = length q"
  by (cases Q) (auto simp: ring_count_def ring_repr_def mod_100_eq)

text \<open>A step that does not call \<^verbatim>\<open>schedule\<close>, and one that does.\<close>

lemma quiet_step:
  assumes "sys_at i S q" and "procs_ok i (sched_of (kern S')) (q @ z)" and "typed_kernel (kern S')"
    and "steady (sched_of (kern S)) (sched_of (kern S'))" and "parked S' i \<in> {[], [Inside In_Timer]}"
  shows "\<exists>q'. sys_at i S' q' \<and> advances 0 (sched_of (kern S)) q (sched_of (kern S')) q'"
proof -
  have "active_pcb (sched_of (kern S)) \<notin> set q" using assms(1) by (simp add: sys_at_def procs_ok_def sched_ok_def blocks_ok_def)
  from steady_advances[OF assms(4) this, of z] show ?thesis
    using assms by (intro exI[of _ "q @ z"]) (simp add: sys_at_def steady_def)
qed

lemma schedule_step:
  assumes "sys_at i S q" and "schedule rsp (sched_of (kern S)) = Some (Inr (sp, s))" and "kern S' = set_sched s (kern S)"
    and "parked S' i \<in> {[], [Inside In_Timer]}"
  shows "\<exists>q'. sys_at i S' q' \<and> advances 1 (sched_of (kern S)) q (sched_of (kern S')) q'"
proof -
  let ?s = "sched_of (kern S)"
  from assms(1) have ok: "procs_ok i ?s q" "typed_kernel (kern S)" by (simp_all add: sys_at_def)
  obtain sp1 s1 q' where s: "schedule rsp ?s = Some (Inr (sp1, s1))" "procs_ok i s1 q'" "pcbs s1 = pcbs (saved rsp ?s)"
    "time_slice s1 = 0" "\<forall>n. advances 1 (?s\<lparr>time_slice := n\<rparr>) q s1 q'" by (rule schedule_ok[OF ok(1), where rsp = rsp])
  have e: "s1 = s" using s(1) assms(2) by simp
  have "advances 1 ?s q s q'" using s(5)[rule_format, of "time_slice ?s"] by (simp add: e)
  moreover have "typed_kernel (set_sched s (kern S))"
    by (intro typed_set_sched[OF ok(2)] blocks_typed_saved[OF typed_blocks[OF ok(2)] s(3)[unfolded e]])
  ultimately show ?thesis using s(2,4) assms(3,4) by (intro exI[of _ q']) (simp add: sys_at_def e)
qed

lemma own_frame_ok:
  assumes "own_frame k k'" and "procs_ok i (sched_of k) q" and "typed_kernel k" and "active_pcb (sched_of k) \<noteq> i"
  shows "procs_ok i (sched_of k') q" and "typed_kernel k'" and "steady (sched_of k) (sched_of k')"
proof -
  note c = calm_frame[OF assms(1)]
  show "procs_ok i (sched_of k') q" by (rule calm_ok[OF assms(2) c]) (use assms(4) in auto)
  show "typed_kernel k'" using assms(1,3) by (simp add: frame_def)
  show "steady (sched_of k) (sched_of k')" by (rule calm_steady[OF c]) simp
qed

lemma frame_ok:
  assumes "frame {} k k'" and "procs_ok i (sched_of k) q" and "typed_kernel k"
  shows "procs_ok i (sched_of k') q" and "typed_kernel k'" and "steady (sched_of k) (sched_of k')"
  using calm_ok[OF assms(2) calm_frame[OF assms(1)]] calm_steady[OF calm_frame[OF assms(1)]] assms(1,3)
  by (simp_all add: frame_def)

text \<open>Every system call keeps the invariant, whatever its arguments.\<close>

lemma system_call_ok:
  assumes "do_system_call e n x y z k = Some (Inr (r, k'))" and "procs_ok i (sched_of k) q" and "typed_kernel k"
    and "active_pcb (sched_of k) \<noteq> i" and "permitted i n x k" and "n = 57 \<Longrightarrow> new_block k k'" and "\<And>p. pcb_typed (env_raw e p)"
  shows "\<exists>w. procs_ok i (sched_of k') (q @ w)" and "typed_kernel k'" and "steady (sched_of k) (sched_of k')"
proof -
  have same: "procs_ok i (sched_of k') q \<Longrightarrow> \<exists>w. procs_ok i (sched_of k') (q @ w)" by (intro exI[of _ "[]"]) simp
  consider "n = 57" | "n = 60" | "n = 62" | "n \<noteq> 57" "n \<noteq> 60" "n \<noteq> 62" by blast
  then have "(\<exists>w. procs_ok i (sched_of k') (q @ w)) \<and> typed_kernel k' \<and> steady (sched_of k) (sched_of k')"
  proof cases
    case 1
    then have "do_fork e k = Inr (r, k')" using assms(1) by (simp add: do_system_call_def)
    moreover have "ring_repr (processq (sched_of k)) q" using assms(2) by (simp add: procs_ok_def sched_ok_def)
    then have "length q < 98" using assms(5) 1 by (simp add: permitted_def ring_count_length)
    moreover obtain d where "pcbs (sched_of k) d = None" "pcbs (sched_of k') d \<noteq> None"
      using assms(6)[OF 1] by (auto simp: new_block_def)
    ultimately show ?thesis using fork_ok[OF _ assms(7,2,3)] by blast
  next
    case 2
    then have "do_exit (addr_of x) k = Inr (r, k')" using assms(1) by (simp add: do_system_call_def)
    from exit_ok[OF this assms(2,3)] assms(4) same show ?thesis by blast
  next
    case 3
    then have "do_kill (addr_of x) (addr_of y) k = Inr (r, k')" using assms(1) by (simp add: do_system_call_def)
    moreover have "\<forall>b. pcbs (sched_of k) i = Some b \<longrightarrow> scast (pid b) \<noteq> addr_of x"
      using assms(5) 3 by (auto simp: permitted_def)
    ultimately show ?thesis using kill_ok[OF _ assms(2,3)] same by blast
  next
    case 4
    from own_frame_ok[OF system_call_frame[OF assms(1) 4] assms(2-4)] same show ?thesis by blast
  qed
  then show "\<exists>w. procs_ok i (sched_of k') (q @ w)" "typed_kernel k'" "steady (sched_of k) (sched_of k')" by simp_all
qed

lemma fork_returns: "do_fork e k = Inr (r, k') \<Longrightarrow> \<exists>w b. r = Ret w b"
  by (auto simp: do_fork_def Let_def)

lemma timer_end: "frame {} k (int_tmr_end k)"
  by (simp add: int_tmr_end_def outb_def frame_def frame_sched_def typed_kernel_def)

text \<open>The rest of a handler after \<^verbatim>\<open>schedule\<close>; the idle process is only ever in the handler of the timer.\<close>

lemma resume_step:
  assumes "sys_at i S q" and "parked S (running S) = Inside c # fs" and "resume c (kern S) = Inr (r, k)"
  shows "\<exists>q'. sys_at i (leave r fs k S) q' \<and> advances 0 (sched_of (kern S)) q (sched_of (kern (leave r fs k S))) q'"
proof -
  from assms(1) have ok: "procs_ok i (sched_of (kern S)) (q @ [])" "typed_kernel (kern S)" "parked S i \<in> {[], [Inside In_Timer]}"
    by (simp_all add: sys_at_def)
  have "procs_ok i (sched_of k) (q @ []) \<and> typed_kernel k \<and> steady (sched_of (kern S)) (sched_of k) \<and>
    parked (leave r fs k S) i \<in> {[], [Inside In_Timer]}"
  proof (cases "running S = i")
    case True
    then have "c = In_Timer" "fs = []" using assms(2) ok(3) by auto
    then have r: "k = int_tmr_end (kern S)" "\<exists>w b. r = Ret w b" using assms(3) by auto
    from frame_ok[OF timer_end ok(1,2)] r(2) show ?thesis by (auto simp: r(1) leave_def \<open>fs = []\<close> True)
  next
    case False
    from own_frame_ok[OF resume_frame[OF assms(3)] ok(1,2) False[unfolded running_def]] show ?thesis
      using ok(3) False by (auto simp: leave_def)
  qed
  then show ?thesis by (intro quiet_step[OF assms(1), where z = "[]"]) (simp_all add: leave_def)
qed

lemma timer_step:
  assumes "sys_at i S q" and "int_tmr_begin rsp (kern S) = Some (Inr (sp, k'))"
    and "kern S' = k' \<or> kern S' = int_tmr_end k'" and "parked S' i \<in> {[], [Inside In_Timer]}"
  shows "\<exists>q'. sys_at i S' q' \<and> advances 1 (sched_of (kern S)) q (sched_of (kern S')) q'"
proof -
  have e: "sched_of (int_tmr_end k') = sched_of k'" "typed_kernel (int_tmr_end k') = typed_kernel k'"
    by (simp_all add: int_tmr_end_def outb_def typed_kernel_def)
  from assms(1) have ok: "procs_ok i (sched_of (kern S)) q" "typed_kernel (kern S)" "0 \<le> time_slice (sched_of (kern S))"
    by (simp_all add: sys_at_def)
  obtain q' where "procs_ok i (sched_of k') q'" "typed_kernel k'" "0 \<le> time_slice (sched_of k')"
    "advances 1 (sched_of (kern S)) q (sched_of k') q'" by (rule timer_ok[OF assms(2) ok])
  then show ?thesis using assms(3,4) e by (intro exI[of _ q']) (auto simp: sys_at_def)
qed

text \<open>Every step keeps the invariant, and a turn brings every process that waits for the processor nearer to it.\<close>

lemma step_moves:
  assumes "sys_step e i ev S S'" and "allowed i ev" and "sys_at i S q" and "\<And>p. pcb_typed (env_raw e p)"
  shows "\<exists>q'. sys_at i S' q' \<and> advances (if is_turn ev then 1 else 0) (sched_of (kern S)) q (sched_of (kern S')) q'"
proof -
  from assms(3) have ok: "procs_ok i (sched_of (kern S)) q" "typed_kernel (kern S)" "parked S i \<in> {[], [Inside In_Timer]}"
    and ok': "procs_ok i (sched_of (kern S)) (q @ [])" by (simp_all add: sys_at_def)
  from assms(1) show ?thesis
  proof cases
    case (call n x y z r k)
    from assms(2) have a: "permitted i n x (kern S)" "n = 57 \<Longrightarrow> new_block (kern S) k" by (simp_all add: call(1))
    note c = system_call_ok[OF call(5) ok(1,2) call(3)[unfolded running_def] a assms(4)]
    then obtain w where "procs_ok i (sched_of k) (q @ w)" by blast
    from quiet_step[OF assms(3), of S' w] this c(2,3) call(3) ok(3) show ?thesis
      unfolding call(1,2) by (simp add: leave_def)
  next
    case (schedule c fs rsp sp s)
    have "running S \<noteq> i" using schedule(3) ok(3) by auto
    with schedule_step[OF assms(3) schedule(4), of S'] ok(3) show ?thesis unfolding schedule(1,2) by simp
  next
    case (resume c fs r k)
    from resume_step[OF assms(3) resume(3,4)] show ?thesis unfolding resume(1,2) by simp
  next
    case (start u k')
    note f = own_frame_ok[OF start_frame[OF start(5)] ok' ok(2) start(3)[unfolded running_def]]
    with quiet_step[OF assms(3), of S' "[]"] ok(3) show ?thesis unfolding start(1,2) by simp
  next
    case (tick rsp sp k')
    from timer_step[OF assms(3) tick(4), of S'] ok(3) show ?thesis unfolding tick(1,2) by simp
  next
    case (switch rsp sp k')
    have "parked S i = []" if "running S = i"
      using switch(3) ok(3) that by (auto simp: interruptible_def)
    then have "((parked S)(running S := Inside In_Timer # parked S (running S))) i \<in> {[], [Inside In_Timer]}" using ok(3) by auto
    with timer_step[OF assms(3) switch(4), of S'] show ?thesis unfolding switch(1,2) by simp
  next
    case (key l k')
    have so: "sched_ok (sched_of (kern S)) q" using ok(1) by (simp add: procs_ok_def)
    note c = keyboard_ok[OF key(4) so ok(2)]
    have "procs_ok i (sched_of k') (q @ [])" "steady (sched_of (kern S)) (sched_of k')"
      using calm_ok[OF ok' c(1)[of "{}"]] calm_steady[OF c(1)[of "{}"]] by simp_all
    with quiet_step[OF assms(3), of S' "[]"] c(2) ok(3) show ?thesis unfolding key(1,2) by simp
  next
    case (fault a err k')
    from frame_ok[OF mem_step_frame[OF pgflt_mem[OF fault(4)]] ok' ok(2)] quiet_step[OF assms(3), of S' "[]"] ok(3)
    show ?thesis unfolding fault(1,2) by simp
  next
    case (idle rsp sp s)
    from schedule_step[OF assms(3) idle(5), of S'] ok(3) show ?thesis unfolding idle(1,2) by simp
  qed
qed

lemma step_ok:
  assumes "sys_step e i ev S S'" and "allowed i ev" and "sys_ok i S" and "\<And>p. pcb_typed (env_raw e p)"
  shows "sys_ok i S'"
  using step_moves[OF assms(1,2) _ assms(4)] assms(3) by (auto simp: sys_ok_def)

text \<open>A run in which the timer and \<^verbatim>\<open>schedule\<close> have more turns than a process has to wait.\<close>

lemma path_gives_processor:
  assumes "sys_path e i S tr" and "\<forall>x\<in>set tr. allowed i (fst x)" and "sys_at i S q" and "\<And>p. pcb_typed (env_raw e p)"
    and "p \<in> set q" and "runnable (sched_of (kern S)) p"
    and "delay (sched_of (kern S)) q p < length (filter (\<lambda>x. is_turn (fst x)) tr)"
  shows "\<exists>x\<in>set tr. running (snd x) = p \<or> \<not> alive (sched_of (kern (snd x))) p"
  using assms(1-3,5-7)
proof (induction tr arbitrary: S q)
  case Nil
  then show ?case by simp
next
  case (Cons x tr)
  obtain ev S' where x: "x = (ev, S')" by (cases x)
  have st: "sys_step e i ev S S'" "sys_path e i S' tr" "allowed i ev" "\<forall>x\<in>set tr. allowed i (fst x)"
    using Cons.prems(1,2) by (simp_all add: x)
  from step_moves[OF st(1,3) Cons.prems(3) assms(4)] obtain q' where
    q': "sys_at i S' q'" "advances (if is_turn ev then 1 else 0) (sched_of (kern S)) q (sched_of (kern S')) q'" by blast
  from q'(2) Cons.prems(4,5) consider "running S' = p" | "\<not> alive (sched_of (kern S')) p"
    | "p \<in> set q'" "runnable (sched_of (kern S')) p"
      "delay (sched_of (kern S')) q' p + (if is_turn ev then 1 else 0) \<le> delay (sched_of (kern S)) q p"
    unfolding advances_def running_def by blast
  then show ?case
  proof cases
    case 3
    then have "delay (sched_of (kern S')) q' p < length (filter (\<lambda>x. is_turn (fst x)) tr)"
      using Cons.prems(6) by (simp add: x split: if_splits)
    from Cons.IH[OF st(2,4) q'(1) 3(1,2) this] show ?thesis by (simp add: x)
  qed (simp_all add: x)
qed

section \<open>After \<^verbatim>\<open>init\<close>\<close>

lemma init_ok:
  assumes "init raw junk idle_fn thread_fn k = Inr (rsp, k')" and "booted p idle_fn thread_fn rsp idle x shell y k'"
    and "typed_kernel k" and "pcbs (sched_of k) = Map.empty" and "\<And>p. pcb_typed (raw p)"
  shows "procs_ok idle (sched_of k') [shell]" and "typed_kernel k'" and "time_slice (sched_of k') = time_slice (sched_of k)"
proof -
  from assms(1) obtain a b k1 k2 k3 k4 k5 k6 k7 k8 k9 k10 s1 s2 arr h t where s: "get_new_pcb raw junk k = Inr (a, k1)"
    "set_pname a (lit ''system_idle_process'') k1 = Inr k2" "upd_pcb a (\<lambda>x. x\<lparr>status := RUNNING\<rparr>) k2 = Inr k3"
    "push_kernel a idle_fn k3 = Inr k4" "get_new_pcb raw junk k4 = Inr (b, k5)" "set_pname b (lit ''/bin/sbush'') k5 = Inr k6"
    "set_wd b (lit ''/'') 50 k6 = Inr k7" "upd_pcb b (\<lambda>x. x\<lparr>status := READY\<rparr>) k7 = Inr k8"
    "push_kernel b thread_fn k8 = Inr k9" "push_kernel b 0 k9 = Inr k10"
    "enqueue_process a (sched_of k10) = Inr s1" "enqueue_process b s1 = Inr s2"
    "k' = set_sched (s2\<lparr>active_pcb := a, processq := (arr, Suc h, t)\<rparr>) k10"
    unfolding init_def by (auto simp: Let_def split: prod.splits)
  note n1 = get_new_pcb_frame[OF s(1) assms(5)] and n2 = get_new_pcb_frame[OF s(5) assms(5)]
  note to = frame_mono[where B = "{a, b}"]
  have "frame {a, b} k k1" by (rule to[OF n1(1)]) simp
  also have "frame {a, b} k1 k2" by (rule to[OF set_pname_frame[OF s(2)]]) simp
  also have "frame {a, b} k2 k3" by (rule to[OF upd_pcb_frame[OF s(3)]]) (simp_all add: pcb_typed_def)
  also have "frame {a, b} k3 k4" by (rule to[OF push_kernel_frame[OF s(4)]]) simp
  also have "frame {a, b} k4 k5" by (rule to[OF n2(1)]) simp
  also have "frame {a, b} k5 k6" by (rule to[OF set_pname_frame[OF s(6)]]) simp
  also have "frame {a, b} k6 k7" by (rule to[OF set_wd_frame[OF s(7)]]) simp
  also have "frame {a, b} k7 k8" by (rule to[OF upd_pcb_frame[OF s(8)]]) (simp_all add: pcb_typed_def)
  also have "frame {a, b} k8 k9" by (rule to[OF push_kernel_frame[OF s(9)]]) simp
  also have "frame {a, b} k9 k10" by (rule to[OF push_kernel_frame[OF s(10)]]) simp
  finally have f: "frame {a, b} k k10" .
  note Q = s(13)
  have "time_slice s2 = time_slice (sched_of k10)"
    using s(11,12) by (auto simp: enqueue_process_def split: if_splits)
  then show "time_slice (sched_of k') = time_slice (sched_of k)" using f by (simp add: Q frame_def frame_sched_def)
  have "pcbs s2 = pcbs s1" "pcbs s1 = pcbs (sched_of k10)"
    using s(11,12) by (auto simp: enqueue_process_def split: if_splits)
  then have p: "pcbs (sched_of k') = pcbs (sched_of k10)" by (simp add: Q)
  have t: "typed_kernel k10" using f assms(3) by (simp add: frame_def)
  then show "typed_kernel k'" using p unfolding Q by (intro typed_set_sched) (simp_all add: typed_kernel_def blocks_typed_def)
  have B: "sched_ok (sched_of k') [shell]" "active_pcb (sched_of k') = idle" "pcbs (sched_of k') idle = Some x" "status x = RUNNING"
    "pcbs (sched_of k') shell = Some y" using assms(2) by (simp_all add: booted_def)
  have two: "q = a \<or> q = b" if "pcbs (sched_of k') q \<noteq> None" for q
    using that f assms(4) by (auto simp: p frame_def frame_sched_def)
  have "idle = a" using B(2) by (simp add: Q)
  moreover have "shell \<noteq> idle" using B(1,2) by (auto simp: sched_ok_def blocks_ok_def)
  ultimately have "shell = b" using two[of shell] B(5) by simp
  then have "q \<in> {idle, shell}" if "alive (sched_of k') q" for q
    using two[of q] that \<open>idle = a\<close> by (auto simp: has_status_def split: option.splits)
  then show "procs_ok idle (sched_of k') [shell]" using B by (auto simp: procs_ok_def has_status_def)
qed

lemma boot_ok:
  assumes "booted_system e i S" and "\<And>p. pcb_typed (env_raw e p)"
  shows "sys_ok i S"
proof -
  from assms(1) obtain p fs r k idle_fn rsp where b: "kmem_ok p fs (r + 6) k" "24 \<le> length fs" "prev_pid (sched_of k) = 0"
    "processq (sched_of k) = (replicate 100 0, 0, 0)" "pcbs (sched_of k) = Map.empty" "typed_kernel k"
    "init (env_raw e) (env_junk e) idle_fn (env_thread e) k = Inr (rsp, kern S)" "i = running S" "parked S = (\<lambda>_. [])"
    "time_slice (sched_of k) = 0"
    unfolding booted_system_def by blast
  have raw: "length (pname (env_raw e a)) = 50 \<and> length (wd (env_raw e a)) = 50" for a
    using assms(2)[of a] by (simp add: pcb_typed_def)
  from init_makes[where raw = "env_raw e" and junk = "env_junk e" and idle_fn = idle_fn and thread_fn = "env_thread e", OF b(1-4) raw]
  obtain idle x shell y where "booted p idle_fn (env_thread e) rsp idle x shell y (kern S)" by (auto simp: b(7))
  note o = this
  have "idle = i" using o by (simp add: booted_def b(8) running_def)
  with init_ok[OF b(7) o b(6,5) assms(2)] show ?thesis by (auto simp: sys_ok_def sys_at_def b(9,10))
qed

interpretation kernel_runs: step_invariant "booted_system e i" "\<lambda>S S'. \<exists>ev. allowed i ev \<and> sys_step e i ev S S'"
  "\<lambda>S. (\<forall>p. pcb_typed (env_raw e p)) \<longrightarrow> sys_ok i S" for e i
  by unfold_locales (auto intro: boot_ok step_ok)

lemma sys_reach_runs:
  "sys_reach e i evs S \<Longrightarrow> \<forall>ev\<in>set evs. allowed i ev \<Longrightarrow>
    \<exists>S0. booted_system e i S0 \<and> (\<lambda>S S'. \<exists>ev. allowed i ev \<and> sys_step e i ev S S')\<^sup>*\<^sup>* S0 S"
proof (induction rule: sys_reach.induct)
  case (boot S)
  then show ?case by blast
next
  case (step evs S ev S')
  then have "\<exists>ev. allowed i ev \<and> sys_step e i ev S S'" by auto
  with step.IH step.prems show ?case by (auto intro: rtranclp.rtrancl_into_rtrancl)
qed

lemma reach_ok:
  assumes "sys_reach e i evs S" and "\<forall>ev\<in>set evs. allowed i ev" and "\<And>p. pcb_typed (env_raw e p)"
  shows "sys_ok i S"
  using sys_reach_runs[OF assms(1,2)] kernel_runs.reachable_kept assms(3) by blast

text \<open>An example: after \<^verbatim>\<open>init\<close> the idle process gives the processor to the shell.\<close>

lemma demo_raw: "pcb_typed (env_raw demo_env p)"
  by (simp add: demo_env_def pcb_typed_def blank_pcb_def)

lemma demo_runs:
  obtains i evs S where "sys_reach demo_env i evs S" and "\<forall>ev\<in>set evs. allowed i ev" and "running S \<noteq> i"
    and "parked S = (\<lambda>_. [])"
proof -
  have h: "kmem_ok 0x1000 boot_pages (0 + 6) before_init" "24 \<le> length boot_pages"
    "\<And>a :: u64. length (pname (env_raw demo_env a)) = 50 \<and> length (wd (env_raw demo_env a)) = 50"
    using before_init_ok demo_raw by (simp_all add: pcb_typed_def)
  from init_makes[where raw = "env_raw demo_env" and junk = "env_junk demo_env" and idle_fn = "0x200100" and thread_fn = "env_thread demo_env",
      OF h(1,2) before_init_ok(5,4) h(3)] obtain rsp k' idle x shell y where
    b: "init (env_raw demo_env) (env_junk demo_env) 0x200100 (env_thread demo_env) before_init = Inr (rsp, k')"
      "booted 0x1000 0x200100 (env_thread demo_env) rsp idle x shell y k'" by (elim exE conjE) (rule that)
  let ?S = "\<lparr>kern = k', parked = (\<lambda>_. [])\<rparr>"
  have t: "typed_kernel before_init" "pcbs (sched_of before_init) = Map.empty" "time_slice (sched_of before_init) = 0"
    by (simp_all add: typed_kernel_def before_init_def process_init_def demo_kernel_def empty_stdin_def set_sched_def fork_sched_def two_blocks_def)
  have a: "active_pcb (sched_of k') = idle" "sched_ok (sched_of k') [shell]" using b(2) by (simp_all add: booted_def)
  then have "booted_system demo_env idle ?S"
    unfolding booted_system_def using h(1,2) before_init_ok(4,5) t b(1)
    by (intro exI[of _ "0x1000"] exI[of _ boot_pages] exI[of _ 0] exI[of _ before_init] exI[of _ "0x200100"] exI[of _ rsp])
      (simp add: running_def)
  then have r: "sys_reach demo_env idle [] ?S" by (rule sys_reach.boot)
  from schedule_simulates_rotation[OF a(2) booted_rotation[OF b(2)], of 0] obtain z :: pcb and s where
    z: "schedule 0 (sched_of k') = Some (Inr (kernel_sp z, s))" "active_pcb s = shell" "pcbs s = pcbs (saved 0 (sched_of k'))" by blast
  let ?S1 = "?S\<lparr>kern := set_sched s (kern ?S)\<rparr>"
  have "sys_step demo_env idle Ev_idle ?S ?S1"
    by (rule sys_step.idle[where rsp = 0]) (simp_all add: running_def a z)
  with r have "sys_reach demo_env idle ([] @ [Ev_idle]) ?S1" by (rule sys_reach.step)
  moreover have "shell \<noteq> idle" using a by (auto simp: sched_ok_def blocks_ok_def)
  ultimately show thesis by (intro that[of idle "[] @ [Ev_idle]" ?S1]) (simp_all add: running_def z)
qed

text \<open>From every state in which all handlers are at a \<^verbatim>\<open>yield\<close> there are runs with any number of turns.\<close>

definition yielding :: "u64 \<Rightarrow> system \<Rightarrow> bool" where
  "yielding i S = (parked S i = [] \<and> (\<forall>p. parked S p \<in> {[], [Inside In_Yield]}))"

lemma sys_path_append: "sys_path e i S (tr @ tr') \<longleftrightarrow> sys_path e i S tr \<and> sys_path e i (last (S # map snd tr)) tr'"
  by (induction tr arbitrary: S) auto

lemma yield_turn:
  assumes "sys_at i S q" and "yielding i S" and "parked S (running S) = []"
  shows "\<exists>tr. sys_path e i S tr \<and> (\<forall>x\<in>set tr. allowed i (fst x)) \<and> length (filter (\<lambda>x. is_turn (fst x)) tr) = 1 \<and>
    yielding i (last (S # map snd tr))"
proof -
  have ok: "procs_ok i (sched_of (kern S)) q" using assms(1) by (simp add: sys_at_def)
  obtain sp s where s: "schedule 0 (sched_of (kern S)) = Some (Inr (sp, s))" by (rule schedule_ok[OF ok, where rsp = 0]) blast
  show ?thesis
  proof (cases "running S = i")
    case True
    have "sys_step e i Ev_idle S (S\<lparr>kern := set_sched s (kern S)\<rparr>)"
      by (rule sys_step.idle[OF True _ s]) (use assms(2) in \<open>simp add: yielding_def\<close>)
    then show ?thesis
      using assms(2) by (intro exI[of _ "[(Ev_idle, S\<lparr>kern := set_sched s (kern S)\<rparr>)]"]) (simp add: yielding_def)
  next
    case False
    let ?ev = "Ev_call 24 (Word 0) (kern S) (kern S)" and ?S1 = "leave (Sched In_Yield) [] (kern S) S"
    have c: "do_system_call e 24 (Word 0) (Word 0) (Word 0) (kern S) = Some (Inr (Sched In_Yield, kern S))"
      by (simp add: do_system_call_def do_yield_def)
    have 1: "sys_step e i ?ev S ?S1" by (rule sys_step.call[OF False assms(3) c])
    have p: "parked ?S1 (running ?S1) = Before In_Yield # []" "kern ?S1 = kern S" by (simp_all add: leave_def running_def)
    let ?S2 = "\<lparr>kern = set_sched s (kern ?S1), parked = (parked ?S1)(running ?S1 := Inside In_Yield # [])\<rparr>"
    have 2: "sys_step e i Ev_schedule ?S1 ?S2" by (rule sys_step.schedule[OF p(1)]) (use s in \<open>simp add: p(2)\<close>)
    have "yielding i ?S2" using assms(2) False by (auto simp: yielding_def leave_def running_def)
    then show ?thesis using 1 2 by (intro exI[of _ "[(?ev, ?S1), (Ev_schedule, ?S2)]"]) (simp add: permitted_def)
  qed
qed

lemma yield_runs:
  assumes "sys_at i S q" and "yielding i S" and "\<And>p. pcb_typed (env_raw e p)"
  shows "\<exists>tr. sys_path e i S tr \<and> (\<forall>x\<in>set tr. allowed i (fst x)) \<and> n \<le> length (filter (\<lambda>x. is_turn (fst x)) tr)"
  using assms(1,2)
proof (induction n arbitrary: S q)
  case 0
  show ?case by (intro exI[of _ "[]"]) simp
next
  case (Suc n)
  obtain tr where tr: "sys_path e i S tr" "\<forall>x\<in>set tr. allowed i (fst x)" "parked (last (S # map snd tr)) (running (last (S # map snd tr))) = []"
    "yielding i (last (S # map snd tr))"
  proof (cases "parked S (running S)")
    case Nil
    then show thesis using Suc.prems(2) by (intro that[of "[]"]) simp_all
  next
    case (Cons f fs)
    then have f: "parked S (running S) = Inside In_Yield # []" using Suc.prems(2) unfolding yielding_def by (metis insertE list.distinct(1) singletonD)
    let ?S1 = "leave (Ret 0 (Word 0)) [] (kern S) S"
    have "sys_step e i Ev_resume S ?S1" by (rule sys_step.resume[OF f]) simp
    moreover have "yielding i ?S1" "parked ?S1 (running ?S1) = []"
      using Suc.prems(2) by (simp_all add: yielding_def leave_def running_def)
    ultimately show thesis by (intro that[of "[(Ev_resume, ?S1)]"]) simp_all
  qed
  let ?S1 = "last (S # map snd tr)"
  have path: "\<exists>q'. sys_at i (last (S # map snd t)) q'" if "sys_path e i S t" "\<forall>x\<in>set t. allowed i (fst x)" "sys_at i S q" for t S q
    using that
  proof (induction t arbitrary: S q)
    case (Cons x t)
    then show ?case using step_moves[OF _ _ Cons.prems(3) assms(3)] by (cases x) fastforce
  qed auto
  from path[OF tr(1,2) Suc.prems(1)] obtain q1 where q1: "sys_at i ?S1 q1" by blast
  from yield_turn[OF q1 tr(4,3)] obtain t1 where t1: "sys_path e i ?S1 t1" "\<forall>x\<in>set t1. allowed i (fst x)"
    "length (filter (\<lambda>x. is_turn (fst x)) t1) = 1" "yielding i (last (?S1 # map snd t1))" by blast
  from path[OF t1(1,2) q1] obtain q2 where q2: "sys_at i (last (?S1 # map snd t1)) q2" by blast
  from Suc.IH[OF q2 t1(4)] obtain t2 where t2: "sys_path e i (last (?S1 # map snd t1)) t2" "\<forall>x\<in>set t2. allowed i (fst x)"
    "n \<le> length (filter (\<lambda>x. is_turn (fst x)) t2)" by blast
  have "sys_path e i S (tr @ t1 @ t2)" unfolding sys_path_append using tr(1) t1(1) t2(1) by simp
  then show ?case using tr(2) t1(2,3) t2(2,3) by (intro exI[of _ "tr @ t1 @ t2"]) auto
qed

text \<open>
  The condition on \<^verbatim>\<open>kill\<close> is needed: when the only other process kills the idle process and then waits, \<^verbatim>\<open>schedule\<close> does
  not return.
\<close>

lemma killed_idle_hangs:
  assumes "sched_ok (sched_of k) [i]" and "pcbs (sched_of k) i = Some x"
    and "do_kill (scast (pid x)) sg k = Inr (r, k1)" and "do_waitpid n st opt k1 = Inr (Sched c, k2)"
  shows "r = Ret 0 (Word 0) \<and> schedule rsp (sched_of k2) = None"
proof -
  let ?s = "sched_of k"
  let ?s1 = "put_pcb i (x\<lparr>status := FINISHED\<rparr>) ?s"
  have kp: "kill_pid (scast (pid x)) ?s = Inr (0, ?s1)"
    using kill_found[OF assms(1), of "[]" i "[]" x] assms(2) by simp
  have ok1: "sched_ok ?s1 [i]" by (rule sched_ok_put[OF assms(1)])
  have "wake (\<lambda>y. status y = WAITING \<and> waiting_on_pid y = m) f [i] ?s1 = ?s1" for m f
    by (simp add: wake_def put_pcb_def fun_upd_def cong: if_cong)
  then have s1: "sched_of k1 = ?s1" "r = Ret 0 (Word 0)"
    using assms(3) by (auto simp: do_kill_def kp notify_wakes(2)[OF ok1])
  let ?a = "active_pcb ?s"
  obtain y where y: "pcbs ?s1 ?a = Some y" "?a \<noteq> 0" "?a \<noteq> i" "active_pcb ?s1 = ?a"
    using assms(1) by (auto simp: sched_ok_def blocks_ok_def put_pcb_def)
  have "active_blk k1 = Inr y" using y s1(1) by (simp add: active_blk_def deref_def)
  from upd_active_run[OF this] assms(4) obtain z where z: "sched_of k2 = put_pcb ?a z ?s1" "status z = WAITING"
    by (auto simp: do_waitpid_def s1(1) y(4))
  have "all_wait (sched_of k2) [i]"
    using z y(3,4) sched_ok_put[OF ok1] by (simp add: all_wait_def candidates_def has_status_def put_pcb_def)
  from schedule_stuck[OF this] s1(2) show ?thesis by blast
qed

section \<open>Properties\<close>

text \<open>C2: No process is lost, in no order of system calls, interrupts, faults and context switches, under three conditions:
  interrupts come in at the interrupt points only (see the head of this theory; elsewhere a process can be lost,
  \<open>interrupted_enqueue_loses\<close>), no program kills the idle process, and every \<^verbatim>\<open>fork\<close> is done with less than 98 processes in the
  ring and gets memory that is not yet a process block. In every state that is reached then the ring holds a queue of
  different process blocks, each process that has not ended is the running one or is in the queue, and the idle process
  can run.\<close>

theorem no_process_lost:
  assumes "sys_reach e i evs S" and "\<forall>ev\<in>set evs. allowed i ev" and "\<And>p. pcb_typed (env_raw e p)"
  shows "\<exists>q. ring_repr (processq (sched_of (kern S))) q \<and> distinct (running S # q) \<and> runnable (sched_of (kern S)) i \<and>
    (\<forall>p. alive (sched_of (kern S)) p \<longrightarrow> p = running S \<or> p \<in> set q) \<and>
    (\<forall>p\<in>set (running S # q). p \<noteq> 0 \<and> pcbs (sched_of (kern S)) p \<noteq> None)"
proof -
  obtain q where "procs_ok i (sched_of (kern S)) q" using reach_ok[OF assms] by (auto simp: sys_ok_def sys_at_def)
  then show ?thesis by (auto simp: procs_ok_def sched_ok_def blocks_ok_def running_def)
qed

theorem no_process_lost_witness:
  "\<exists>i evs S q. sys_reach demo_env i evs S \<and> running S \<noteq> i \<and> ring_repr (processq (sched_of (kern S))) q \<and> i \<in> set q"
proof -
  obtain i evs S where r: "sys_reach demo_env i evs S" "\<forall>ev\<in>set evs. allowed i ev" "running S \<noteq> i" by (rule demo_runs)
  from no_process_lost[OF r(1,2) demo_raw] obtain q where
    "ring_repr (processq (sched_of (kern S))) q" "runnable (sched_of (kern S)) i"
    "alive (sched_of (kern S)) i \<longrightarrow> i = running S \<or> i \<in> set q" by blast
  with r runnable_alive[of "sched_of (kern S)" i] show ?thesis by metis
qed

text \<open>C3: The system never hangs in the scheduler: in every state that is reached under the three conditions of
  \<open>no_process_lost\<close>, whichever process is running and wherever it is, a call of \<^verbatim>\<open>schedule\<close> returns, with a process that can run.
  So every handler that has come to its call of \<^verbatim>\<open>schedule\<close>, the first one or a later one in the loop of \<^verbatim>\<open>do_read\<close>, can
  take the step to a process that can run; and the handler of the timer, if it can draw the clock, returns to the same
  process or to one that can run.\<close>

theorem calls_never_hang:
  assumes "sys_reach e i evs S" and "\<forall>ev\<in>set evs. allowed i ev" and "\<And>p. pcb_typed (env_raw e p)"
  shows "(\<exists>sp s. schedule rsp (sched_of (kern S)) = Some (Inr (sp, s)) \<and> runnable s (active_pcb s)) \<and>
    (\<forall>c fs. parked S (running S) = Before c # fs \<longrightarrow>
      (\<exists>S'. sys_step e i Ev_schedule S S' \<and> runnable (sched_of (kern S')) (running S') \<and>
        parked S' (running S) = Inside c # fs)) \<and>
    (\<forall>r. put_time_since_boot (clock (kern S), clock_buff (kern S), sched_of (kern S), screen (io (kern S))) = Inr r \<longrightarrow>
      (\<exists>sp k. int_tmr_begin rsp (kern S) = Some (Inr (sp, k)) \<and>
        (active_pcb (sched_of k) = running S \<or> runnable (sched_of k) (active_pcb (sched_of k)))))"
proof -
  from reach_ok[OF assms] obtain q where ok: "procs_ok i (sched_of (kern S)) q" "typed_kernel (kern S)"
    "0 \<le> time_slice (sched_of (kern S))" by (auto simp: sys_ok_def sys_at_def)
  obtain sp s where s: "schedule rsp (sched_of (kern S)) = Some (Inr (sp, s))" "runnable s (active_pcb s)"
    by (rule schedule_ok[OF ok(1), where rsp = rsp]) blast
  have "\<exists>S'. sys_step e i Ev_schedule S S' \<and> runnable (sched_of (kern S')) (running S') \<and> parked S' (running S) = Inside c # fs"
    if "parked S (running S) = Before c # fs" for c fs
    using sys_step.schedule[OF that s(1), of e i] s(2) by (intro exI conjI) (assumption, simp_all add: running_def)
  with s timer_returns[OF ok] show ?thesis unfolding running_def by blast
qed

theorem calls_never_hang_witness:
  "\<exists>i evs S S'. sys_reach demo_env i evs S \<and> parked S (running S) = [Before In_Yield] \<and> sys_step demo_env i Ev_schedule S S' \<and>
     runnable (sched_of (kern S')) (running S')"
proof -
  obtain i evs S where r: "sys_reach demo_env i evs S" "\<forall>ev\<in>set evs. allowed i ev" "running S \<noteq> i" "parked S (running S) = []"
    by (rule demo_runs) simp
  have c: "do_system_call demo_env 24 (Word 0) (Word 0) (Word 0) (kern S) = Some (Inr (Sched In_Yield, kern S))"
    by (simp add: do_system_call_def do_yield_def)
  let ?ev = "Ev_call 24 (Word 0) (kern S) (kern S)" and ?S = "leave (Sched In_Yield) [] (kern S) S"
  have r1: "sys_reach demo_env i (evs @ [?ev]) ?S" by (rule sys_reach.step[OF r(1) sys_step.call[OF r(3,4) c]])
  have a: "\<forall>ev\<in>set (evs @ [?ev]). allowed i ev" using r(2) by (simp add: permitted_def)
  have p: "parked ?S (running ?S) = [Before In_Yield]" by (simp add: leave_def running_def)
  from calls_never_hang[OF r1 a demo_raw] p r1 show ?thesis by blast
qed

text \<open>C4: Every process that can run gets the processor: take any state that is reached, and any run from there, under the three
  conditions of \<open>no_process_lost\<close>, whatever the processes and the devices do in it. By the time the run has 98 * 17 = 1666 turns,
  which are ticks of the timer and calls of \<^verbatim>\<open>schedule\<close> by handlers and by the idle process, the process has been running, or
  it has been ended.\<close>

theorem processes_get_processor:
  assumes "sys_reach e i evs S" and "\<forall>ev\<in>set evs. allowed i ev" and "\<And>p. pcb_typed (env_raw e p)"
    and "runnable (sched_of (kern S)) p" and "sys_path e i S tr" and "\<forall>x\<in>set tr. allowed i (fst x)"
    and "98 * 17 \<le> length (filter (\<lambda>x. is_turn (fst x)) tr)"
  shows "running S = p \<or> (\<exists>x\<in>set tr. running (snd x) = p \<or> \<not> alive (sched_of (kern (snd x))) p)"
proof (cases "running S = p")
  case False
  obtain q where q: "sys_at i S q" using reach_ok[OF assms(1-3)] by (auto simp: sys_ok_def)
  then have ok: "procs_ok i (sched_of (kern S)) q" "0 \<le> time_slice (sched_of (kern S))" by (simp_all add: sys_at_def)
  have p: "p \<in> set q" using ok(1) runnable_alive[OF assms(4)] False by (auto simp: procs_ok_def running_def)
  have "length q \<le> 98" using ok(1) by (simp add: procs_ok_def sched_ok_def)
  then have "place_in q p \<le> 97" using place_in_bound[OF p] by linarith
  then have "delay (sched_of (kern S)) q p < 98 * 17" using ok(2) by (simp add: delay_def)
  then have d: "delay (sched_of (kern S)) q p < length (filter (\<lambda>x. is_turn (fst x)) tr)" using assms(7) by linarith
  from path_gives_processor[OF assms(5,6) q assms(3) p assms(4) d] show ?thesis by blast
qed simp

theorem processes_get_processor_witness:
  "\<exists>i evs S tr. sys_reach demo_env i evs S \<and> running S \<noteq> i \<and> sys_path demo_env i S tr \<and>
     (\<exists>x\<in>set tr. running (snd x) = i \<or> \<not> alive (sched_of (kern (snd x))) i)"
proof -
  obtain i evs S where r: "sys_reach demo_env i evs S" "\<forall>ev\<in>set evs. allowed i ev" "running S \<noteq> i" "parked S = (\<lambda>_. [])"
    by (rule demo_runs)
  obtain q where q: "sys_at i S q" using reach_ok[OF r(1,2) demo_raw] by (auto simp: sys_ok_def)
  have y: "yielding i S" by (simp add: yielding_def r(4))
  obtain tr where tr: "sys_path demo_env i S tr" "\<forall>x\<in>set tr. allowed i (fst x)"
    "98 * 17 \<le> length (filter (\<lambda>x. is_turn (fst x)) tr)" using yield_runs[OF q y demo_raw, of "98 * 17"] by blast
  have "runnable (sched_of (kern S)) i" using q by (simp add: sys_at_def procs_ok_def)
  from processes_get_processor[OF r(1,2) demo_raw this tr] r tr(1) show ?thesis by blast
qed

end
