(* ===== verification/Descriptors.thy ===== *)
theory Descriptors
  imports Prelude
begin

text \<open>
  The tables and chips that are set up once at boot: the interrupt descriptors of
  \<^verbatim>\<open>include/sys/idt.h\<close>, the segment descriptors of \<^verbatim>\<open>sys/gdt.c\<close>, and the two interrupt controllers
  of \<^verbatim>\<open>include/sys/pic_helpers.h\<close>. What the processor and the controllers read from them is defined
  here from their documentation, as the counterpart of what the code writes.
\<close>

section \<open>Interrupt descriptors\<close>

record IDTDescriptor =
  offset_low :: u16
  selector :: u16
  zero1 :: u8
  type_attr :: u8
  offset_mid :: u16
  offset_high :: u32
  zero2 :: u32

definition set_isr :: "nat \<Rightarrow> u64 \<Rightarrow> IDTDescriptor list \<Rightarrow> IDTDescriptor list result" where
  "set_isr int_num handler idt =
     (if int_num < length idt
      then Inr (idt[int_num :=
        \<lparr>offset_low = ucast (handler AND 0x00ffff), selector = 0x0008, zero1 = 0, type_attr = 0xEE,
         offset_mid = ucast (drop_bit 16 handler AND 0x00ffff),
         offset_high = ucast (drop_bit 32 handler AND 0x00ffffffff), zero2 = 0\<rparr>])
      else Inl Out_Of_Bounds)"

text \<open>\<^verbatim>\<open>idts_setup\<close>: the arguments are the addresses of the six assembly stubs.\<close>

definition idts_setup ::
  "u64 \<Rightarrow> u64 \<Rightarrow> u64 \<Rightarrow> u64 \<Rightarrow> u64 \<Rightarrow> u64 \<Rightarrow> IDTDescriptor list \<Rightarrow> IDTDescriptor list result" where
  "idts_setup dblflt prtctn pgflt tmr kbd syscall idt =
     bindr (set_isr 0x08 dblflt idt) (\<lambda>idt.
     bindr (set_isr 0x0d prtctn idt) (\<lambda>idt.
     bindr (set_isr 0x0e pgflt idt) (\<lambda>idt.
     bindr (set_isr 0x20 tmr idt) (\<lambda>idt.
     bindr (set_isr 0x21 kbd idt) (\<lambda>idt.
     set_isr 0x80 syscall idt)))))"

text \<open>The entry point that the processor takes from a descriptor.\<close>

definition gate_target :: "IDTDescriptor \<Rightarrow> u64" where
  "gate_target d = ucast (offset_low d) OR push_bit 16 (ucast (offset_mid d)) OR push_bit 32 (ucast (offset_high d))"

definition gate_ok :: "IDTDescriptor \<Rightarrow> u64 \<Rightarrow> bool" where
  "gate_ok d handler = (gate_target d = handler \<and> selector d = 8 \<and> type_attr d = 0xEE \<and> zero1 d = 0 \<and> zero2 d = 0)"

lemma set_isr_gate:
  assumes "n < length idt"
  shows "\<exists>d. set_isr n handler idt = Inr (idt[n := d]) \<and> gate_ok d handler"
proof -
  let ?d = "\<lparr>offset_low = ucast (handler AND 0x00ffff), selector = 0x0008, zero1 = 0, type_attr = 0xEE,
         offset_mid = ucast (drop_bit 16 handler AND 0x00ffff),
         offset_high = ucast (drop_bit 32 handler AND 0x00ffffffff), zero2 = 0\<rparr>"
  have m: "(0xffff :: u64) = mask 16" "(0xffffffff :: u64) = mask 32" by (simp_all add: mask_eq_exp_minus_1)
  have "gate_target ?d = handler"
  proof (rule bit_eqI)
    fix i :: nat
    consider "i < 16" | "16 \<le> i" "i < 32" | "32 \<le> i" "i < 64" | "64 \<le> i" by linarith
    then show "bit (gate_target ?d) i = bit handler i"
      by cases (auto simp: gate_target_def m bit_simps dest: bit_imp_le_length)
  qed
  then show ?thesis using assms by (intro exI[of _ ?d]) (simp add: set_isr_def gate_ok_def)
qed

text \<open>\<^verbatim>\<open>idts_setup\<close> installs each of the six handlers at its vector, in the form in which the
  processor reads an interrupt gate (the three parts of the offset give back the handler's address),
  and leaves all other vectors alone.\<close>

theorem idts_setup_installs:
  assumes "length idt = 256"
  shows "\<exists>t. idts_setup dblflt prtctn pgflt tmr kbd syscall idt = Inr t \<and> length t = 256 \<and>
    gate_ok (t ! 0x08) dblflt \<and> gate_ok (t ! 0x0d) prtctn \<and> gate_ok (t ! 0x0e) pgflt \<and> gate_ok (t ! 0x20) tmr \<and>
    gate_ok (t ! 0x21) kbd \<and> gate_ok (t ! 0x80) syscall \<and>
    (\<forall>i. i \<notin> {0x08, 0x0d, 0x0e, 0x20, 0x21, 0x80} \<longrightarrow> t ! i = idt ! i)"
proof -
  have step: "\<exists>d. set_isr n h t = Inr (t[n := d]) \<and> gate_ok d h" if "length t = 256" "n < 256" for n h t
    using set_isr_gate[of n t h] that by simp
  obtain d1 where 1: "set_isr 0x08 dblflt idt = Inr (idt[0x08 := d1])" "gate_ok d1 dblflt"
    using step[OF assms, of "0x08" dblflt] by auto
  let ?t1 = "idt[0x08 := d1]"
  obtain d2 where 2: "set_isr 0x0d prtctn ?t1 = Inr (?t1[0x0d := d2])" "gate_ok d2 prtctn"
    using step[of ?t1 "0x0d" prtctn] assms by auto
  let ?t2 = "?t1[0x0d := d2]"
  obtain d3 where 3: "set_isr 0x0e pgflt ?t2 = Inr (?t2[0x0e := d3])" "gate_ok d3 pgflt"
    using step[of ?t2 "0x0e" pgflt] assms by auto
  let ?t3 = "?t2[0x0e := d3]"
  obtain d4 where 4: "set_isr 0x20 tmr ?t3 = Inr (?t3[0x20 := d4])" "gate_ok d4 tmr"
    using step[of ?t3 "0x20" tmr] assms by auto
  let ?t4 = "?t3[0x20 := d4]"
  obtain d5 where 5: "set_isr 0x21 kbd ?t4 = Inr (?t4[0x21 := d5])" "gate_ok d5 kbd"
    using step[of ?t4 "0x21" kbd] assms by auto
  let ?t5 = "?t4[0x21 := d5]"
  obtain d6 where 6: "set_isr 0x80 syscall ?t5 = Inr (?t5[0x80 := d6])" "gate_ok d6 syscall"
    using step[of ?t5 "0x80" syscall] assms by auto
  show ?thesis
    using 1 2 3 4 5 6 assms by (intro exI[of _ "?t5[0x80 := d6]"]) (simp add: idts_setup_def nth_list_update)
qed

definition blank_gate :: IDTDescriptor where
  "blank_gate = \<lparr>offset_low = 0, selector = 0, zero1 = 0, type_attr = 0, offset_mid = 0, offset_high = 0, zero2 = 0\<rparr>"

theorem idts_setup_installs_witness:
  "\<exists>t. idts_setup 0xffffffff80201111 2 3 4 5 6 (replicate 256 blank_gate) = Inr t \<and>
     gate_target (t ! 8) = 0xffffffff80201111 \<and> t ! 9 = blank_gate"
  using idts_setup_installs[of "replicate 256 blank_gate" "0xffffffff80201111" 2 3 4 5 6]
  by (auto simp: gate_ok_def)

section \<open>Segment descriptors\<close>

text \<open>The bit fields of \<^verbatim>\<open>struct sys_segment_descriptor\<close>; the two words of the descriptor are one of 128 bits.\<close>

definition put_field :: "nat \<Rightarrow> nat \<Rightarrow> 128 word \<Rightarrow> 128 word \<Rightarrow> 128 word" where
  "put_field off len v w = (w AND NOT (push_bit off (mask len))) OR push_bit off (take_bit len v)"

definition get_field :: "nat \<Rightarrow> nat \<Rightarrow> 128 word \<Rightarrow> 128 word" where
  "get_field off len w = take_bit len (drop_bit off w)"

definition gdt0 :: "u64 list" where
  "gdt0 =
     (let GDT_CS = 0x00180000000000; GDT_DS = 0x00100000000000; DPL0 = 0x00000000000000; DPL3 = 0x00600000000000;
          P = 0x00800000000000; L = 0x20000000000000; W = 0x00020000000000
      in [0, GDT_CS OR P OR DPL0 OR L, GDT_DS OR P OR W OR DPL0, GDT_CS OR P OR DPL3 OR L, GDT_DS OR P OR W OR DPL3]
         @ replicate 27 0)"

text \<open>\<^verbatim>\<open>setup_tss\<close>; \<open>sz\<close> is \<^verbatim>\<open>sizeof(struct tss_t)\<close>. Loading the task register is left out.\<close>

definition setup_tss :: "u64 \<Rightarrow> 128 word \<Rightarrow> u64 list \<Rightarrow> u64 list result" where
  "setup_tss tss sz gdt =
     (if length gdt < 7 then Inl Out_Of_Bounds
      else let sd0 = ucast (gdt ! 5) OR push_bit 64 (ucast (gdt ! 6));
               sd1 = put_field 0 16 (sz - 1) sd0;
               sd2 = put_field 16 24 (ucast tss) sd1;
               sd3 = put_field 40 5 9 sd2;
               sd4 = put_field 45 2 0 sd3;
               sd5 = put_field 47 1 1 sd4;
               sd6 = put_field 48 4 0 sd5;
               sd7 = put_field 55 1 0 sd6;
               sd8 = put_field 56 40 (ucast (drop_bit 24 tss)) sd7
           in Inr (gdt[5 := ucast sd8, 6 := ucast (drop_bit 64 sd8)]))"

text \<open>What the processor reads: the base, limit, type and present bit of a system descriptor.\<close>

definition sys_base :: "128 word \<Rightarrow> u64" where
  "sys_base w = ucast (get_field 16 24 w) OR push_bit 24 (ucast (get_field 56 40 w))"

lemma bit_put_field:
  "bit (put_field off len v w) i \<longleftrightarrow> i < 128 \<and> (if off \<le> i \<and> i < off + len then bit v (i - off) else bit w i)"
  by (auto simp: put_field_def bit_simps less_diff_conv2 dest: bit_imp_le_length)

lemma bit_get_field: "bit (get_field off len w) i \<longleftrightarrow> i < len \<and> bit w (off + i)"
  by (auto simp: get_field_def bit_simps)

lemma get_put_field:
  assumes "off + len \<le> 128"
  shows "get_field off len (put_field off len v w) = take_bit len v"
    and "off' + len' \<le> off \<or> off + len \<le> off' \<Longrightarrow> get_field off' len' (put_field off len v w) = get_field off' len' w"
proof -
  show "get_field off len (put_field off len v w) = take_bit len v"
    by (rule bit_eqI) (use assms in \<open>auto simp: bit_get_field bit_put_field bit_take_bit_iff\<close>)
  assume "off' + len' \<le> off \<or> off + len \<le> off'"
  then show "get_field off' len' (put_field off len v w) = get_field off' len' w"
    by (intro bit_eqI) (auto simp: bit_get_field bit_put_field dest: bit_imp_le_length)
qed

text \<open>\<^verbatim>\<open>setup_tss\<close> writes a descriptor from which the processor reads back the address of the task
  state segment, all 64 bits of it, and a present 64-bit TSS of its size; the code and data segments
  stay.\<close>

theorem setup_tss_round_trip:
  fixes gdt :: "u64 list"
  assumes "7 \<le> length gdt" and "0 < sz" and "sz \<le> 0x10000"
  shows "\<exists>g. setup_tss tss sz gdt = Inr g \<and>
    (let w = ucast (g ! 5) OR push_bit 64 (ucast (g ! 6))
     in sys_base w = tss \<and> get_field 0 16 w = sz - 1 \<and> get_field 40 5 w = 9 \<and> get_field 45 2 w = 0 \<and> get_field 47 1 w = 1) \<and>
    (\<forall>i. i \<noteq> 5 \<and> i \<noteq> 6 \<longrightarrow> g ! i = gdt ! i)"
proof -
  define sd0 :: "128 word" where "sd0 = ucast (gdt ! 5) OR push_bit 64 (ucast (gdt ! 6))"
  define w :: "128 word" where "w = put_field 56 40 (ucast (drop_bit 24 tss)) (put_field 55 1 0 (put_field 48 4 0
    (put_field 47 1 1 (put_field 45 2 0 (put_field 40 5 9 (put_field 16 24 (ucast tss) (put_field 0 16 (sz - 1) sd0)))))))"
  let ?g = "gdt[5 := ucast w, 6 := ucast (drop_bit 64 w)]"
  have "setup_tss tss sz gdt = Inr ?g" using assms(1) by (simp add: setup_tss_def Let_def w_def sd0_def)
  moreover have w: "ucast (?g ! 5) OR push_bit 64 (ucast (?g ! 6)) = w"
  proof (rule bit_eqI)
    fix i :: nat
    consider "i < 64" | "64 \<le> i" "i < 128" | "128 \<le> i" by linarith
    then show "bit (ucast (?g ! 5) OR push_bit 64 (ucast (?g ! 6)) :: 128 word) i = bit w i"
      using assms(1) by cases (auto simp: bit_simps dest: bit_imp_le_length)
  qed
  moreover have "get_field 0 16 w = sz - 1"
  proof -
    have "unat (sz - 1) < 2 ^ 16" using assms(2,3) by (simp add: word_less_nat_alt word_le_nat_alt unat_sub)
    then have "take_bit 16 (sz - 1) = sz - 1" by (simp add: take_bit_eq_mod word_unat_eq_iff unat_mod_distrib)
    then show ?thesis by (simp add: w_def get_put_field)
  qed
  moreover have "get_field 40 5 w = 9" "get_field 45 2 w = 0" "get_field 47 1 w = 1"
    by (simp_all add: w_def get_put_field take_bit_eq_mod)
  moreover have "sys_base w = tss"
  proof (rule bit_eqI)
    fix i :: nat
    consider "i < 24" | "24 \<le> i" "i < 64" | "64 \<le> i" by linarith
    then show "bit (sys_base w) i = bit tss i"
      by cases (auto simp: sys_base_def w_def get_put_field bit_simps dest: bit_imp_le_length)
  qed
  ultimately show ?thesis by (intro exI[of _ ?g]) (simp add: Let_def)
qed

theorem setup_tss_round_trip_witness:
  "\<exists>g. setup_tss 0xffffffff80204abc 56 gdt0 = Inr g \<and>
     sys_base (ucast (g ! 5) OR push_bit 64 (ucast (g ! 6))) = 0xffffffff80204abc \<and> g ! 3 = gdt0 ! 3"
  using setup_tss_round_trip[of gdt0 56 "0xffffffff80204abc"] by (auto simp: gdt0_def Let_def)

section \<open>The interrupt controllers\<close>

text \<open>The writes to the ports, in order; \<^verbatim>\<open>a1\<close> and \<^verbatim>\<open>a2\<close> are the masks that \<^verbatim>\<open>PIC_remap\<close> reads.\<close>

definition io_wait :: "(u16 \<times> u8) list" where
  "io_wait = [(0x80, 0)]"

definition PIC_remap :: "u8 \<Rightarrow> u8 \<Rightarrow> u8 \<Rightarrow> u8 \<Rightarrow> (u16 \<times> u8) list" where
  "PIC_remap offset1 offset2 a1 a2 =
     [(0x20, 0x10 + 0x01)] @ io_wait @ [(0xA0, 0x10 + 0x01)] @ io_wait @
     [(0x21, offset1)] @ io_wait @ [(0xA1, offset2)] @ io_wait @
     [(0x21, 4)] @ io_wait @ [(0xA1, 2)] @ io_wait @
     [(0x21, 0x01)] @ io_wait @ [(0xA1, 0x01)] @ io_wait @
     [(0x21, a1), (0xA1, a2)]"

text \<open>Nothing calls \<^verbatim>\<open>timer_setup\<close>.\<close>

definition timer_setup :: "(u16 \<times> u8) list" where
  "timer_setup = [(0x43, 0x43)] @ io_wait @ [(0x43, 0xa6)] @ io_wait @ [(0x43, 0x91)] @ io_wait"

definition PIC_setmasks :: "u8 \<Rightarrow> u8 \<Rightarrow> (u16 \<times> u8) list" where
  "PIC_setmasks master_masks slave_masks = [(0x21, master_masks), (0xA1, slave_masks)]"

definition PIC_setup :: "u8 \<Rightarrow> u8 \<Rightarrow> (u16 \<times> u8) list" where
  "PIC_setup a1 a2 = PIC_remap 0x20 0x28 a1 a2 @ PIC_setmasks 0 0 @ PIC_setmasks 0xf8 0xff"

text \<open>
  The 8259 controller: a command with bit 4 set starts the initialisation, the next three words at
  the data port are the vector base, the cascade and the mode, and later ones the mask.
\<close>

record pic =
  to_come :: nat
  vector_base :: u8
  cascade :: u8
  irq_mask :: u8

definition pic_write :: "bool \<Rightarrow> u8 \<Rightarrow> pic \<Rightarrow> pic" where
  "pic_write data v s =
     (if \<not> data then (if bit v 4 then s\<lparr>to_come := 3\<rparr> else s)
      else if to_come s = 3 then s\<lparr>to_come := 2, vector_base := v\<rparr>
      else if to_come s = 2 then s\<lparr>to_come := 1, cascade := v\<rparr>
      else if to_come s = 1 then s\<lparr>to_come := 0\<rparr>
      else s\<lparr>irq_mask := v\<rparr>)"

fun pic_writes :: "(u16 \<times> u8) list \<Rightarrow> pic \<times> pic \<Rightarrow> pic \<times> pic" where
  "pic_writes [] s = s"
| "pic_writes ((port, v) # ws) (m, s) =
     pic_writes ws
       (if port = 0x20 \<or> port = 0x21 then (pic_write (port = 0x21) v m, s)
        else if port = 0xA0 \<or> port = 0xA1 then (m, pic_write (port = 0xA1) v s)
        else (m, s))"

text \<open>\<^verbatim>\<open>PIC_setup\<close> leaves both controllers initialised, whatever state they were in: the interrupt
  lines at the vectors 0x20 to 0x2f, where \<^verbatim>\<open>idts_setup\<close> has the timer and the keyboard, the slave at
  line 2, and only the lines 0, 1 and 2 of the master enabled.\<close>

theorem PIC_setup_programs:
  "pic_writes (PIC_setup a1 a2) (m, s) =
     (\<lparr>to_come = 0, vector_base = 0x20, cascade = 4, irq_mask = 0xf8\<rparr>,
      \<lparr>to_come = 0, vector_base = 0x28, cascade = 2, irq_mask = 0xff\<rparr>)"
proof -
  have b: "bit (0x11 :: u8) 4" by (simp add: bit_iff_odd)
  show ?thesis
    using b by (cases m; cases s) (simp add: PIC_setup_def PIC_remap_def PIC_setmasks_def io_wait_def pic_write_def)
qed

end
