(* ===== verification/Boot.thy ===== *)
theory Boot
  imports System Descriptors
begin

text \<open>
  \<^verbatim>\<open>start\<close> of \<^verbatim>\<open>main.c\<close>: the boot loader's memory map, the order of the initialisations, and the state in which they leave
  the kernel. The result is a state from which the transition system of \<open>System\<close> starts.
\<close>

section \<open>Operations\<close>

text \<open>
  What \<^verbatim>\<open>start\<close> gets or finds: the words at \<^verbatim>\<open>modulep\<close>, its other arguments, the linker's symbols, the entries of the
  handlers, the masks of the interrupt controllers, and the memory at \<^verbatim>\<open>physfree\<close> as an array of list entries.
\<close>

record loader =
  modules :: "u64 \<Rightarrow> u32"
  phys_base :: u64
  phys_free :: u64
  kernel_at :: u64
  tar_from :: u64
  tar_to :: u64
  isr_dblflt :: u64
  isr_prtctn :: u64
  isr_pgflt :: u64
  isr_tmr :: u64
  isr_kbd :: u64
  isr_syscall :: u64
  mask1 :: u8
  mask2 :: u8
  old_pages :: page_array
  idle_at :: u64
  idt_at :: u64

text \<open>\<^verbatim>\<open>while(modulep[0] != 0x9001) modulep += modulep[1]+2;\<close> as an index into the words; the step is an \<^verbatim>\<open>uint32_t\<close>.\<close>

partial_function (option) find_module :: "(u64 \<Rightarrow> u32) \<Rightarrow> u64 \<Rightarrow> u64 option" where
  "find_module w i = (if w i \<noteq> 0x9001 then find_module w (i + ucast (w (i + 1) + 2)) else Some i)"

text \<open>An entry of the memory map has 20 bytes: base and length with 64 bits, and the type.\<close>

definition word_pair :: "(u64 \<Rightarrow> u32) \<Rightarrow> u64 \<Rightarrow> u64" where
  "word_pair w i = push_bit 32 (ucast (w (i + 1))) OR ucast (w i)"

definition smap_entry :: "(u64 \<Rightarrow> u32) \<Rightarrow> u64 \<Rightarrow> nat \<Rightarrow> u64 \<times> u64 \<times> u32" where
  "smap_entry w m j = (let i = m + 2 + of_nat (5 * j) in (word_pair w i, word_pair w (i + 2), w (i + 4)))"

text \<open>The loop over the entries: \<open>pf\<close> is \<^verbatim>\<open>physfree\<close>, as an index into the list entries.\<close>

function smap_loop :: "(u64 \<Rightarrow> u32) \<Rightarrow> u64 \<Rightarrow> nat \<Rightarrow> u64 \<Rightarrow> kernel \<Rightarrow> (u64 \<times> kernel) result option" where
  "smap_loop w m j pf k =
     (if 20 * j < unat (w (m + 1))
      then (case smap_entry w m j of (base, len, ty) \<Rightarrow>
         if ty = 1 \<and> len \<noteq> 0
         then bindo (Some (kprintf (''Available Physical Memory [%x-%x]'' @ [LF]) [Slot base, Slot (base + len)] k)) (\<lambda>k1.
              case make_pages base len pf (lists (vm k1)) of
                None \<Rightarrow> None
              | Some (pf1, l) \<Rightarrow> smap_loop w m (Suc j) pf1 (k1\<lparr>vm := (vm k1)\<lparr>lists := l\<rparr>\<rparr>))
         else smap_loop w m (Suc j) pf k)
      else Some (Inr (pf, k)))"
  by pat_completeness auto
termination by (relation "measure (\<lambda>(w, m, j, pf, k). unat (w (m + 1)) - 20 * j)") auto

declare smap_loop.simps [simp del]

text \<open>The end of \<^verbatim>\<open>setup_paging\<close>: the display address, \<^verbatim>\<open>cr3\<close> and the message.\<close>

definition enter_paging :: "u64 \<Rightarrow> u64 \<Rightarrow> u64 \<Rightarrow> kernel \<Rightarrow> kernel result option" where
  "enter_paging physbase physfree kernmem k =
     bindo (setup_paging physbase physfree 0xb8000 0xbb200 kernmem (vm k)) (\<lambda>(pml4, display, s).
       Some (kprintf (''HELLO PAGED WORLD!'' @ [LF]) []
               (set_cr3 pml4 (k\<lparr>vm := s, io := (io k)\<lparr>screen := set_display_address display (screen (io k))\<rparr>\<rparr>))))"

text \<open>\<^verbatim>\<open>idts_setup\<close> with its two messages; a descriptor has 16 bytes.\<close>

definition install_handlers :: "loader \<Rightarrow> IDTDescriptor list \<Rightarrow> kernel \<Rightarrow> (IDTDescriptor list \<times> kernel) result" where
  "install_handlers L idt k =
     bindr (kprintf (''IDTR.base [%x] , IDTR.length [%d]'' @ [LF]) [Slot (idt_at L), Slot (of_nat (16 * length idt))] k) (\<lambda>k1.
     bindr (idts_setup (isr_dblflt L) (isr_prtctn L) (isr_pgflt L) (isr_tmr L) (isr_kbd L) (isr_syscall L) idt) (\<lambda>idt1.
     bindr (kprintf (''entry[0].offset [%x|%x|%x]'' @ [LF])
              [Slot (ucast (offset_high (idt1 ! 0))), Slot (ucast (offset_mid (idt1 ! 0))), Slot (ucast (offset_low (idt1 ! 0)))] k1) (\<lambda>k2.
       Inr (idt1, k2))))"

text \<open>
  The result is the stack pointer that \<^verbatim>\<open>init\<close> returns to, the interrupt table and the kernel. The code allows
  interrupts (\<^verbatim>\<open>sti\<close>) just before it calls \<^verbatim>\<open>init\<close>; the model has none until \<^verbatim>\<open>init\<close> has returned to the idle loop.
\<close>

definition start ::
  "env \<Rightarrow> loader \<Rightarrow> IDTDescriptor list \<Rightarrow> kernel \<Rightarrow> (u64 \<times> IDTDescriptor list \<times> kernel) result option" where
  "start e L idt k =
     Option.bind (find_module (modules L) 0) (\<lambda>m.
     case init_pages (old_pages L) of (l, pf0) \<Rightarrow>
     bindo (smap_loop (modules L) m 0 pf0 (k\<lparr>vm := (vm k)\<lparr>lists := l\<rparr>\<rparr>)) (\<lambda>(pf, k1).
     let physfree = phys_free L + 16 * pf
     in bindo (Some (kprintf (''KERNEL IN [%p:%p:%x]'' @ [LF]) [Slot (phys_base L), Slot physfree, Slot (kernel_at L)] k1)) (\<lambda>k2.
        bindo (enter_paging (phys_base L) physfree (kernel_at L) k2) (\<lambda>k3.
        bindo (Some (kprintf (''tarfs in [%p:%p]'' @ [LF]) [Slot (tar_from L), Slot (tar_to L)] k3)) (\<lambda>k4.
        bindo (Some (install_handlers L idt (k4\<lparr>files := init_tarfs (tar_from L) (tar_to L) (files k4)\<rparr>))) (\<lambda>(idt1, k5a).
        let k5 = k5a\<lparr>ports := ports k5a @ PIC_setup (mask1 L) (mask2 L)\<rparr>
        in bindo (Some (init (env_raw e) (env_junk e) (idle_at L) (env_thread e) (set_sched (process_init (sched_of k5)) k5)))
             (\<lambda>(rsp, k6). Some (Inr (rsp, idt1, k6)))))))))"

section \<open>The memory map\<close>

text \<open>The regions of which \<^verbatim>\<open>make_pages\<close> makes pages.\<close>

definition regions :: "(u64 \<Rightarrow> u32) \<Rightarrow> u64 \<Rightarrow> nat \<Rightarrow> (u64 \<times> u64) list" where
  "regions w m j =
     [(base, len). (base, len, ty) \<leftarrow> map (smap_entry w m) [j..<(unat (w (m + 1)) + 19) div 20], ty = 1 \<and> len \<noteq> 0 \<and> base \<noteq> 0]"

lemma regions_step:
  "regions w m j = (if 20 * j < unat (w (m + 1))
     then (case smap_entry w m j of (base, len, ty) \<Rightarrow>
        (if ty = 1 \<and> len \<noteq> 0 \<and> base \<noteq> 0 then [(base, len)] else []) @ regions w m (Suc j)) else [])"
proof (cases "20 * j < unat (w (m + 1))")
  case True
  then have "j < (unat (w (m + 1)) + 19) div 20" by linarith
  then show ?thesis using True by (simp add: regions_def upt_conv_Cons split: prod.splits del: upt_Suc)
next
  case False
  then have "(unat (w (m + 1)) + 19) div 20 \<le> j" by linarith
  then show ?thesis using False by (simp add: regions_def)
qed

text \<open>A message changes the screen and the buffer of \<^verbatim>\<open>printf\<close>.\<close>

definition printed :: "kernel \<Rightarrow> kernel \<Rightarrow> bool" where
  "printed k k' = (\<exists>scr pb. console_ok scr \<and> length pb = 30 \<and> k' = k\<lparr>io := (io k)\<lparr>screen := scr\<rparr>, print_buf := pb\<rparr>)"

lemma kprintf_prints:
  fixes k :: kernel
  assumes "console_ok (screen (io k))" and "length (print_buf k) = 30" and "NUL \<notin> set fmt" and "render fmt args = Some out"
  obtains k' where "kprintf fmt args k = Inr k'" and "printed k k'"
proof -
  let ?s = "\<lparr>con = screen (io k), buf30 = print_buf k\<rparr>"
  have "console_ok (con ?s)" "length (buf30 ?s) = 30" using assms by simp_all
  with printf_renders[OF assms(3), of args] assms(4)
  have "\<exists>s. printf (fmt @ NUL # []) args ?s = Inr s \<and> emits ?s out s" unfolding renders_def by blast
  then obtain s where "printf (fmt @ NUL # []) args ?s = Inr s" "emits ?s out s" by blast
  then have "kprintf fmt args k = Inr (k\<lparr>io := (io k)\<lparr>screen := con s\<rparr>, print_buf := buf30 s\<rparr>)"
    "printed k (k\<lparr>io := (io k)\<lparr>screen := con s\<rparr>, print_buf := buf30 s\<rparr>)"
    using assms(2) by (auto simp: kprintf_def printed_def lit_def emits_def)
  then show thesis by (rule that)
qed

lemma printed_fields:
  assumes "printed k k'"
  shows "vm k' = vm k" "sched_of k' = sched_of k" "files k' = files k" "ports k' = ports k" "console_ok (screen (io k'))"
    "length (print_buf k') = 30" "typed_kernel k' = typed_kernel k"
  using assms by (auto simp: printed_def typed_kernel_def)

abbreviation (input) can_print :: "kernel \<Rightarrow> bool" where
  "can_print k \<equiv> console_ok (screen (io k)) \<and> length (print_buf k) = 30"

lemma printed_refl: "can_print k \<Longrightarrow> printed k k"
  unfolding printed_def by (intro exI[of _ "screen (io k)"] exI[of _ "print_buf k"]) simp

lemma printedE:
  assumes "printed k k'"
  obtains scr pb where "console_ok scr" and "length pb = 30" and "k' = k\<lparr>io := (io k)\<lparr>screen := scr\<rparr>, print_buf := pb\<rparr>"
  using assms by (auto simp: printed_def)

lemma printedI: "console_ok scr \<Longrightarrow> length pb = 30 \<Longrightarrow> k' = k\<lparr>io := (io k)\<lparr>screen := scr\<rparr>, print_buf := pb\<rparr> \<Longrightarrow> printed k k'"
  unfolding printed_def by blast

lemma printed_trans: "printed k k' \<Longrightarrow> printed k' k'' \<Longrightarrow> printed k k''"
  by (elim printedE) (rule printedI, simp_all)

lemma printed_vm: "printed k k' \<Longrightarrow> printed (k\<lparr>vm := v\<rparr>) (k'\<lparr>vm := v\<rparr>)"
  by (elim printedE) (rule printedI, assumption+, cases k, simp)

lemma same_lists: "k\<lparr>vm := (vm k)\<lparr>lists := lists (vm k)\<rparr>\<rparr> = (k :: kernel)"
  by simp

lemma memory_message:
  assumes "can_print k"
  obtains k1 where "kprintf (''Available Physical Memory [%x-%x]'' @ [LF]) [Slot x, Slot y] k = Inr k1" and "printed k k1"
proof -
  have n: "NUL \<notin> set (''Available Physical Memory [%x-%x]'' @ [LF])" by simp
  have "\<exists>out. render (''Available Physical Memory [%x-%x]'' @ [LF]) [Slot x, Slot y] = Some out" by simp
  then obtain out where "render (''Available Physical Memory [%x-%x]'' @ [LF]) [Slot x, Slot y] = Some out" ..
  from kprintf_prints[OF conjunct1[OF assms] conjunct2[OF assms] n this] that show thesis by blast
qed

lemma smap_loop_none:
  assumes "regions w m j = []" and "can_print k"
  shows "\<exists>k'. smap_loop w m j pf k = Some (Inr (pf, k')) \<and> printed k k'"
  using assms
proof (induction "unat (w (m + 1)) - 20 * j" arbitrary: j k rule: less_induct)
  case less
  show ?case
  proof (cases "20 * j < unat (w (m + 1))")
    case False
    then show ?thesis using printed_refl[OF less.prems(2)] by (subst smap_loop.simps) simp
  next
    case True
    obtain base len ty where e: "smap_entry w m j = (base, len, ty)" by (cases "smap_entry w m j") auto
    have r: "regions w m (Suc j) = []" "\<not> (ty = 1 \<and> len \<noteq> 0 \<and> base \<noteq> 0)"
      using less.prems(1) True e by (simp_all add: regions_step[of w m j] split: if_splits)
    have d: "unat (w (m + 1)) - 20 * Suc j < unat (w (m + 1)) - 20 * j" using True by simp
    show ?thesis
    proof (cases "ty = 1 \<and> len \<noteq> 0")
      case False
      have "smap_loop w m j pf k = smap_loop w m (Suc j) pf k" using True False e by (subst smap_loop.simps) auto
      with less.hyps[OF d r(1) less.prems(2)] show ?thesis by simp
    next
      case usable: True
      then have "base = 0" using r(2) by simp
      obtain k1 where k1: "kprintf (''Available Physical Memory [%x-%x]'' @ [LF]) [Slot base, Slot (base + len)] k = Inr k1" "printed k k1"
        by (rule memory_message[OF less.prems(2)])
      have "smap_loop w m j pf k = smap_loop w m (Suc j) pf k1"
        using True usable e k1(1) \<open>base = 0\<close> by (subst smap_loop.simps) (simp add: bindo_def make_pages_def)
      moreover have "can_print k1" using printed_fields(5,6)[OF k1(2)] by simp
      ultimately show ?thesis using less.hyps[OF d r(1)] printed_trans[OF k1(2)] by metis
    qed
  qed
qed

text \<open>One region: all its pages come into the free list, in their order.\<close>

lemma smap_loop_one:
  assumes "regions w m j = [(base, len)]" and "can_print k" and "lists (vm k) = fst (init_pages a)"
    and "unat base + unat len + 4096 \<le> 2 ^ 64"
  shows "\<exists>k' l. smap_loop w m j 1 k = Some (Inr (of_nat (Suc (page_count len)), k')) \<and>
    printed (k\<lparr>vm := (vm k)\<lparr>lists := l\<rparr>\<rparr>) k' \<and> pool_inv l (page_indices (page_count len)) [] \<and> pg_base (page_list l 0) = 0 \<and>
    (\<forall>i<page_count len. pg_base (page_list l (of_nat (Suc i))) = base + of_nat i * PAGESIZE)"
  using assms(1-3)
proof (induction "unat (w (m + 1)) - 20 * j" arbitrary: j k rule: less_induct)
  case less
  have j: "20 * j < unat (w (m + 1))" using less.prems(1) by (simp add: regions_step[of w m j] split: if_splits)
  obtain b n ty where e: "smap_entry w m j = (b, n, ty)" by (cases "smap_entry w m j") auto
  have d: "unat (w (m + 1)) - 20 * Suc j < unat (w (m + 1)) - 20 * j" using j by simp
  consider "\<not> (ty = 1 \<and> n \<noteq> 0)" "regions w m (Suc j) = [(base, len)]"
    | "ty = 1" "n \<noteq> 0" "b = 0" "regions w m (Suc j) = [(base, len)]"
    | "ty = 1" "n \<noteq> 0" "b = base" "n = len" "base \<noteq> 0" "regions w m (Suc j) = []"
    using less.prems(1) j e by (auto simp: regions_step[of w m j] split: if_splits)
  then show ?case
  proof cases
    case 1
    then have "smap_loop w m j 1 k = smap_loop w m (Suc j) 1 k" using j e by (subst smap_loop.simps) auto
    with less.hyps[OF d 1(2) less.prems(2,3)] show ?thesis by simp
  next
    case 2
    obtain k1 where k1: "kprintf (''Available Physical Memory [%x-%x]'' @ [LF]) [Slot b, Slot (b + n)] k = Inr k1" "printed k k1"
      by (rule memory_message[OF less.prems(2)])
    note f = printed_fields[OF k1(2)]
    have "smap_loop w m j 1 k = smap_loop w m (Suc j) 1 k1"
      using j 2(1-3) e k1(1) by (subst smap_loop.simps) (simp add: bindo_def make_pages_def)
    moreover have "can_print k1" "lists (vm k1) = fst (init_pages a)" using f less.prems(3) by simp_all
    from less.hyps[OF d 2(4) this] obtain k' l where k': "smap_loop w m (Suc j) 1 k1 = Some (Inr (of_nat (Suc (page_count len)), k'))"
      "printed (k1\<lparr>vm := (vm k1)\<lparr>lists := l\<rparr>\<rparr>) k'" and l: "pool_inv l (page_indices (page_count len)) [] \<and> pg_base (page_list l 0) = 0 \<and>
        (\<forall>i<page_count len. pg_base (page_list l (of_nat (Suc i))) = base + of_nat i * PAGESIZE)" by blast
    moreover have "printed (k\<lparr>vm := (vm k)\<lparr>lists := l\<rparr>\<rparr>) (k1\<lparr>vm := (vm k1)\<lparr>lists := l\<rparr>\<rparr>)"
      using printed_vm[OF k1(2)] f(1) by simp
    then have "printed (k\<lparr>vm := (vm k)\<lparr>lists := l\<rparr>\<rparr>) k'" by (rule printed_trans[OF _ k'(2)])
    ultimately show ?thesis using l by (intro exI[of _ k'] exI[of _ l]) simp
  next
    case 3
    obtain k1 where k1: "kprintf (''Available Physical Memory [%x-%x]'' @ [LF]) [Slot base, Slot (base + len)] k = Inr k1" "printed k k1"
      by (rule memory_message[OF less.prems(2)])
    note f = printed_fields[OF k1(2)]
    from make_pages_first[OF 3(5) assms(4), of a] obtain l where
      l: "make_pages base len 1 (fst (init_pages a)) = Some (of_nat (Suc (page_count len)), l)"
        "plist_repr (free_list l) (page_indices (page_count len))" "used_page_list_head l = 0" "used_page_list_tail l = 0"
        "\<forall>i<page_count len. pg_base (page_list l (of_nat (Suc i))) = base + of_nat i * PAGESIZE" "pg_base (page_list l 0) = 0"
      by blast
    let ?k = "k1\<lparr>vm := (vm k1)\<lparr>lists := l\<rparr>\<rparr>"
    have "smap_loop w m j 1 k = smap_loop w m (Suc j) (of_nat (Suc (page_count len))) ?k"
      using j 3(1-4) e k1(1) l(1) less.prems(3) f(1) by (subst smap_loop.simps) (simp add: bindo_def)
    moreover obtain k' where "smap_loop w m (Suc j) (of_nat (Suc (page_count len))) ?k = Some (Inr (of_nat (Suc (page_count len)), k'))"
      "printed ?k k'" using smap_loop_none[OF 3(6), of ?k] f by auto
    moreover have "printed (k\<lparr>vm := (vm k)\<lparr>lists := l\<rparr>\<rparr>) ?k" using printed_vm[OF k1(2)] f(1) by simp
    from printed_trans[OF this] have "printed ?k k' \<Longrightarrow> printed (k\<lparr>vm := (vm k)\<lparr>lists := l\<rparr>\<rparr>) k'" for k' .
    moreover have "pool_inv l (page_indices (page_count len)) []"
      using l(2-4) by (auto simp: pool_inv_def plist_repr_def free_list_def)
    ultimately show ?thesis using l(5,6) by (intro exI[of _ k'] exI[of _ l]) simp
  qed
qed

section \<open>Entering the page table\<close>

text \<open>Mapping pages leaves the heap alone.\<close>

lemma take_page_heap: "take_page s = Inr (b, s') \<Longrightarrow> kmalloc_page s' = kmalloc_page s"
  by (auto simp: take_page_def split: option.splits prod.splits)

lemma k_map_v_heap: "k_map_v sp phys virt table lvl s = Inr s' \<Longrightarrow> kmalloc_page s' = kmalloc_page s"
proof (induction lvl arbitrary: table s s' rule: less_induct)
  case (less lvl)
  show ?case
  proof (cases "lvl \<le> 1")
    case True
    with less.prems show ?thesis by (subst (asm) k_map_v.simps) (auto simp: Let_def)
  next
    case False
    then have d: "lvl - Suc 0 < lvl" by simp
    from less.prems False show ?thesis
      by (subst (asm) k_map_v.simps) (auto simp: Let_def dest!: take_page_heap less.IH[OF d] split: if_splits)
  qed
qed

lemma k_mem_map_v_heap:
  assumes "k_mem_map_v sp base lim res table s = Some (Inr (r, s'))"
  shows "kmalloc_page s' = kmalloc_page s"
proof -
  have "\<forall>r s'. y = Inr (r, s') \<longrightarrow> kmalloc_page s' = kmalloc_page s" if "k_mem_map_v sp base lim res table s = Some y" for y
  proof (rule k_mem_map_v.raw_induct[where P = "\<lambda>sp base lim res table s y. \<forall>r s'. y = Inr (r, s') \<longrightarrow> kmalloc_page s' = kmalloc_page s", OF _ that], goal_cases)
    case (1 k sp base lim res table s y)
    show ?case
    proof (intro allI impI)
      fix r s' assume y: "y = Inr (r, s')"
      show "kmalloc_page s' = kmalloc_page s"
      proof (cases "base < lim")
        case True
        with 1(2) y obtain s1 where s1: "k_map_v sp base res table 4 s = Inr s1"
          "k sp (base + PAGESIZE) lim (res + PAGESIZE) table s1 = Some (Inr (r, s'))" by (auto split: sum.splits)
        from 1(1)[OF s1(2)] k_map_v_heap[OF s1(1)] show ?thesis by simp
      qed (use 1(2) y in simp)
    qed
  qed
  with assms show ?thesis by blast
qed

lemma bind_result_Inr:
  "Option.bind m (\<lambda>r. case r of Inl e \<Rightarrow> Some (Inl e) | Inr x \<Rightarrow> f x) = Some (Inr y) \<longleftrightarrow> (\<exists>x. m = Some (Inr x) \<and> f x = Some (Inr y))"
  "(case r of Inl e \<Rightarrow> Some (Inl e) | Inr x \<Rightarrow> f x) = Some (Inr y) \<longleftrightarrow> (\<exists>x. r = Inr x \<and> f x = Some (Inr y))"
  by (cases m; auto split: sum.splits) (cases r; auto)

lemma setup_paging_heap:
  assumes "setup_paging a b c d v s = Some (Inr (p, w, s'))"
  shows "kmalloc_page s' = kmalloc_page s"
  using assms unfolding setup_paging_def bind_result_Inr
  by (auto simp: bind_result_Inr dest!: k_mem_map_v_heap take_page_heap)

section \<open>The whole sequence\<close>

definition region_pages :: "u64 \<Rightarrow> u64 \<Rightarrow> u64 list" where
  "region_pages base len = map (\<lambda>i. base + of_nat i * PAGESIZE) [0..<page_count len]"

lemma region_pages_ok:
  assumes "4096 dvd unat base" and "unat base + 4096 * page_count len \<le> 2 ^ 52"
  shows "distinct (region_pages base len)" and "\<forall>f\<in>set (region_pages base len). is_frame f"
proof -
  have u: "unat (base + of_nat i * PAGESIZE) = unat base + i * 4096" if "i < page_count len" for i
    using unat_add_of_nat64[of base "i * 4096"] that assms(2) by simp
  show "distinct (region_pages base len)"
  proof (unfold region_pages_def, subst distinct_map, intro conjI distinct_upt inj_onI)
    fix i j assume h: "i \<in> set [0..<page_count len]" "j \<in> set [0..<page_count len]" "base + of_nat i * PAGESIZE = base + of_nat j * PAGESIZE"
    then have b: "i < page_count len" "j < page_count len" by simp_all
    from arg_cong[OF h(3), of unat] have "unat base + i * 4096 = unat base + j * 4096" unfolding u[OF b(1)] u[OF b(2)] .
    then show "i = j" by simp
  qed
  show "\<forall>f\<in>set (region_pages base len). is_frame f"
  proof
    fix f assume "f \<in> set (region_pages base len)"
    then obtain i where i: "i < page_count len" "f = base + of_nat i * PAGESIZE" by (auto simp: region_pages_def)
    then have "unat f = unat base + i * 4096" by (simp add: u)
    moreover have "4096 dvd unat base + i * 4096" using assms(1) by simp
    moreover have "i * 4096 + 4096 \<le> 4096 * page_count len" using i(1) by simp
    ultimately show "is_frame f" using assms(2) by (simp add: is_frame_iff)
  qed
qed

lemma region_free:
  assumes "pool_inv l (page_indices (page_count len)) []"
    and "\<forall>i<page_count len. pg_base (page_list l (of_nat (Suc i))) = base + of_nat i * PAGESIZE"
  shows "free_frames (s\<lparr>lists := l\<rparr>) (region_pages base len)"
proof -
  have "region_pages base len = map (\<lambda>i. pg_base (page_list l i)) (page_indices (page_count len))"
    using assms(2) by (simp add: region_pages_def page_indices_def map_Suc_upt[symmetric] del: upt_Suc)
  then show ?thesis using assms(1) unfolding free_frames_def by auto
qed

lemma message_prints:
  assumes "can_print k" and "NUL \<notin> set fmt" and "\<exists>out. render fmt args = Some out"
  obtains k1 where "kprintf fmt args k = Inr k1" and "printed k k1"
  using assms(3) kprintf_prints[OF conjunct1[OF assms(1)] conjunct2[OF assms(1)] assms(2)] that by blast

lemma idts_setup_returns:
  assumes "length idt = 256"
  obtains idt1 where "idts_setup d p g t b s idt = Inr idt1" and "length idt1 = 256" and "gate_ok (idt1 ! 0x0e) g" and "gate_ok (idt1 ! 0x20) t"
    and "gate_ok (idt1 ! 0x21) b" and "gate_ok (idt1 ! 0x80) s"
proof -
  obtain d1 where 1: "set_isr 0x08 d idt = Inr (idt[0x08 := d1])" using set_isr_gate[where n = "0x08" and idt = "idt" and handler = d] assms by auto
  let ?i1 = "idt[0x08 := d1]"
  obtain d2 where 2: "set_isr 0x0d p ?i1 = Inr (?i1[0x0d := d2])" using set_isr_gate[where n = "0x0d" and idt = "?i1" and handler = p] assms by auto
  let ?i2 = "?i1[0x0d := d2]"
  obtain d3 where 3: "set_isr 0x0e g ?i2 = Inr (?i2[0x0e := d3])" "gate_ok d3 g" using set_isr_gate[where n = "0x0e" and idt = "?i2" and handler = g] assms by auto
  let ?i3 = "?i2[0x0e := d3]"
  obtain d4 where 4: "set_isr 0x20 t ?i3 = Inr (?i3[0x20 := d4])" "gate_ok d4 t" using set_isr_gate[where n = "0x20" and idt = "?i3" and handler = t] assms by auto
  let ?i4 = "?i3[0x20 := d4]"
  obtain d5 where 5: "set_isr 0x21 b ?i4 = Inr (?i4[0x21 := d5])" "gate_ok d5 b" using set_isr_gate[where n = "0x21" and idt = "?i4" and handler = b] assms by auto
  let ?i5 = "?i4[0x21 := d5]"
  obtain d6 where 6: "set_isr 0x80 s ?i5 = Inr (?i5[0x80 := d6])" "gate_ok d6 s" using set_isr_gate[where n = "0x80" and idt = "?i5" and handler = s] assms by auto
  have "idts_setup d p g t b s idt = Inr (?i5[0x80 := d6])"
    unfolding idts_setup_def 1 2 3(1) 4(1) 5(1) 6(1) bindr_Inr ..
  then show thesis using assms 3(2) 4(2) 5(2) 6(2) by (intro that[of "?i5[0x80 := d6]"]) simp_all
qed

lemma install_handlers_ok:
  assumes "can_print k" and "length idt = 256"
  obtains idt1 k' where "install_handlers L idt k = Inr (idt1, k')" and "printed k k'"
    and "gate_ok (idt1 ! 0x0e) (isr_pgflt L)" and "gate_ok (idt1 ! 0x20) (isr_tmr L)" and "gate_ok (idt1 ! 0x21) (isr_kbd L)"
    and "gate_ok (idt1 ! 0x80) (isr_syscall L)"
proof -
  have m1: "NUL \<notin> set (''IDTR.base [%x] , IDTR.length [%d]'' @ [LF])"
    "\<exists>out. render (''IDTR.base [%x] , IDTR.length [%d]'' @ [LF]) [Slot (idt_at L), Slot (of_nat (16 * length idt))] = Some out"
    by (simp_all add: assms(2))
  obtain k1 where k1: "kprintf (''IDTR.base [%x] , IDTR.length [%d]'' @ [LF]) [Slot (idt_at L), Slot (of_nat (16 * length idt))] k = Inr k1"
    "printed k k1" by (rule message_prints[OF assms(1) m1])
  obtain idt1 where i: "idts_setup (isr_dblflt L) (isr_prtctn L) (isr_pgflt L) (isr_tmr L) (isr_kbd L) (isr_syscall L) idt = Inr idt1"
    "gate_ok (idt1 ! 0x0e) (isr_pgflt L)" "gate_ok (idt1 ! 0x20) (isr_tmr L)" "gate_ok (idt1 ! 0x21) (isr_kbd L)"
    "gate_ok (idt1 ! 0x80) (isr_syscall L)" by (rule idts_setup_returns[OF assms(2)])
  have m2: "NUL \<notin> set (''entry[0].offset [%x|%x|%x]'' @ [LF])"
    "\<exists>out. render (''entry[0].offset [%x|%x|%x]'' @ [LF]) [Slot x, Slot y, Slot z] = Some out" for x y z by simp_all
  have p: "can_print k1" using printed_fields(5,6)[OF k1(2)] by simp
  obtain k2 where k2: "kprintf (''entry[0].offset [%x|%x|%x]'' @ [LF])
      [Slot (ucast (offset_high (idt1 ! 0))), Slot (ucast (offset_mid (idt1 ! 0))), Slot (ucast (offset_low (idt1 ! 0)))] k1 = Inr k2"
    "printed k1 k2" by (rule message_prints[OF p m2])
  have "install_handlers L idt k = Inr (idt1, k2)" unfolding install_handlers_def k1(1) bindr_Inr i(1) k2(1) ..
  then show thesis using printed_trans[OF k1(2) k2(2)] i(2-5) by (rule that)
qed

text \<open>From the page lists to the state in which \<^verbatim>\<open>init\<close> can run.\<close>

lemma enter_paging_ok:
  assumes "free_frames (vm k) ps" and "pg_base (page_list (lists (vm k)) 0) = 0" and "distinct ps" and "\<forall>f\<in>set ps. is_frame f"
    and "fs = filter (\<lambda>f. \<not> (physbase \<le> f \<and> f < physfree) \<and> \<not> (0xb7000 \<le> f \<and> f < 0xbb200)) ps"
    and "n = page_count (physfree - physbase)" and "3 * (n + 4) + 24 < length fs"
    and "0 < physbase" and "physbase \<le> physfree" and "4096 dvd unat physbase" and "unat physbase + 4096 * n < 2 ^ 52"
    and "0xffffffff80000000 \<le> kv" and "4096 dvd unat kv" and "unat kv + 4096 * (n + 10) < 2 ^ 64"
    and "can_print k" and "kmalloc_page (vm k) = 0"
  obtains k' v c gs where "enter_paging physbase physfree kv k = Some (Inr k')" and "kmem_ok (hd fs) gs 6 k'" and "24 \<le> length gs"
    and "printed (set_cr3 (hd fs) (k\<lparr>vm := v, io := (io k)\<lparr>screen := c\<rparr>\<rparr>)) k'"
proof -
  have h: "3 * (n + 4) < length fs" "unat kv + 4096 * (n + 4) < 2 ^ 64" using assms(7,14) by simp_all
  from setup_paging_run[OF assms(1-6) h(1) assms(8-13) h(2)] obtain s' j where
    s: "setup_paging physbase physfree 0xb8000 0xbb200 kv (vm k) = Some (Inr (hd fs, kv + of_nat (4096 * n), s'))"
      "available_virt_mem s' = kv + of_nat (4096 * (n + 4))" "j \<le> 3 * (n + 4)"
      "tables_ok (mem s') (hd fs) (drop j (tl fs))" "free_frames s' (drop j (tl fs))" by blast
  let ?k = "set_cr3 (hd fs) (k\<lparr>vm := s', io := (io k)\<lparr>screen := set_display_address (kv + of_nat (4096 * n)) (screen (io k))\<rparr>\<rparr>)"
  have "can_print ?k" using assms(15) by (simp add: set_cr3_def set_sched_def set_display_address_def console_ok_def)
  note p = this
  have m: "NUL \<notin> set (''HELLO PAGED WORLD!'' @ [LF])" "\<exists>out. render (''HELLO PAGED WORLD!'' @ [LF]) [] = Some out" by simp_all
  obtain k' where k': "kprintf (''HELLO PAGED WORLD!'' @ [LF]) [] ?k = Inr k'" "printed ?k k'"
    by (rule message_prints[OF p m])
  have e: "enter_paging physbase physfree kv k = Some (Inr k')" by (simp only: enter_paging_def bindo_def s(1) k'(1) option.case sum.case prod.case)
  have u: "unat (kv + of_nat (4096 * (n + 4))) = unat kv + 4096 * (n + 4)" using h(2) by (rule unat_add_of_nat64)
  have "kmalloc_page s' = 0" using setup_paging_heap[OF s(1)] assms(16) by simp
  then have "kmalloc_ok (hd fs) s'" using u assms(12,13) by (simp add: kmalloc_ok_def s(2) word_le_nat_alt)
  then have "kmem_ok (hd fs) (drop j (tl fs)) 6 k'"
    using s(4,5) u assms(14) printed_fields[OF k'(2)] by (simp add: kmem_ok_def set_cr3_def set_sched_def s(2))
  moreover have "24 \<le> length (drop j (tl fs))" using s(3) assms(7) by simp
  ultimately show thesis using e k'(2) by (intro that)
qed

text \<open>
  What the boot loader has to leave: one usable region that does not start at 0, and enough pages in it beside the kernel,
  the page list and the display; and the state of the kernel's variables before \<^verbatim>\<open>start\<close> (the two that the C code
  initialises itself are \<^verbatim>\<open>kmalloc_page\<close> and \<^verbatim>\<open>time_slice\<close>).
\<close>

definition bootable :: "loader \<Rightarrow> u64 \<Rightarrow> u64 \<Rightarrow> u64 \<Rightarrow> bool" where
  "bootable L m base len =
     (let physfree = phys_free L + 16 * of_nat (Suc (page_count len));
          n = page_count (physfree - phys_base L)
      in find_module (modules L) 0 = Some m \<and> regions (modules L) m 0 = [(base, len)] \<and>
         4096 dvd unat base \<and> unat base + 4096 * page_count len \<le> 2 ^ 52 \<and>
         0 < phys_base L \<and> phys_base L \<le> physfree \<and> 4096 dvd unat (phys_base L) \<and> unat (phys_base L) + 4096 * n < 2 ^ 52 \<and>
         0xffffffff80000000 \<le> kernel_at L \<and> 4096 dvd unat (kernel_at L) \<and> unat (kernel_at L) + 4096 * (n + 10) < 2 ^ 64 \<and>
         3 * (n + 4) + 24 < length (filter (\<lambda>f. \<not> (phys_base L \<le> f \<and> f < physfree) \<and> \<not> (0xb7000 \<le> f \<and> f < 0xbb200))
           (region_pages base len)))"

definition unstarted :: "IDTDescriptor list \<Rightarrow> kernel \<Rightarrow> bool" where
  "unstarted idt k =
     (can_print k \<and> typed_kernel k \<and> pcbs (sched_of k) = Map.empty \<and> kmalloc_page (vm k) = 0 \<and>
      time_slice (sched_of k) = 0 \<and> length idt = 256)"

lemma start_runs:
  assumes "bootable L m base len" and "unstarted idt k" and "\<And>p. pcb_typed (env_raw e p)"
  obtains rsp idt1 k' where "start e L idt k = Some (Inr (rsp, idt1, k'))"
    and "booted_system e (active_pcb (sched_of k')) \<lparr>kern = k', parked = \<lambda>_. []\<rparr>"
    and "gate_ok (idt1 ! 0x0e) (isr_pgflt L)" and "gate_ok (idt1 ! 0x20) (isr_tmr L)" and "gate_ok (idt1 ! 0x21) (isr_kbd L)"
    and "gate_ok (idt1 ! 0x80) (isr_syscall L)"
proof -
  let ?pf = "of_nat (Suc (page_count len)) :: u64"
  let ?free = "phys_free L + 16 * ?pf" and ?ps = "region_pages base len"
  let ?n = "page_count (?free - phys_base L)"
  let ?fs = "filter (\<lambda>f. \<not> (phys_base L \<le> f \<and> f < ?free) \<and> \<not> (0xb7000 \<le> f \<and> f < 0xbb200)) ?ps"
  from assms(1) have B: "find_module (modules L) 0 = Some m" "regions (modules L) m 0 = [(base, len)]"
    "4096 dvd unat base" "unat base + 4096 * page_count len \<le> 2 ^ 52" "0 < phys_base L" "phys_base L \<le> ?free"
    "4096 dvd unat (phys_base L)" "unat (phys_base L) + 4096 * ?n < 2 ^ 52" "0xffffffff80000000 \<le> kernel_at L"
    "4096 dvd unat (kernel_at L)" "unat (kernel_at L) + 4096 * (?n + 10) < 2 ^ 64" "3 * (?n + 4) + 24 < length ?fs"
    unfolding bootable_def Let_def by blast+
  from assms(2) have K: "can_print k" "typed_kernel k" "pcbs (sched_of k) = Map.empty" "kmalloc_page (vm k) = 0" "length idt = 256"
    "time_slice (sched_of k) = 0" by (simp_all add: unstarted_def)
  have "unat len \<le> 4096 * page_count len" unfolding page_count_def by linarith
  then have fit: "unat base + unat len + 4096 \<le> 2 ^ 64" using B(4) by simp
  obtain l0 where l0: "init_pages (old_pages L) = (l0, 1)" "l0 = fst (init_pages (old_pages L))" by (simp add: init_pages_def)
  let ?k0 = "k\<lparr>vm := (vm k)\<lparr>lists := l0\<rparr>\<rparr>"
  have k0: "can_print ?k0" "lists (vm ?k0) = fst (init_pages (old_pages L))" using K(1) l0(2) by simp_all
  from smap_loop_one[OF B(2) k0 fit] obtain k1 l where
    k1: "smap_loop (modules L) m 0 1 ?k0 = Some (Inr (?pf, k1))" "printed (k\<lparr>vm := (vm k)\<lparr>lists := l\<rparr>\<rparr>) k1"
      "pool_inv l (page_indices (page_count len)) []" "pg_base (page_list l 0) = 0"
      "\<forall>i<page_count len. pg_base (page_list l (of_nat (Suc i))) = base + of_nat i * PAGESIZE" by auto
  note f1 = printed_fields[OF k1(2)]
  have m1: "NUL \<notin> set (''KERNEL IN [%p:%p:%x]'' @ [LF])"
    "\<exists>out. render (''KERNEL IN [%p:%p:%x]'' @ [LF]) [Slot (phys_base L), Slot ?free, Slot (kernel_at L)] = Some out" by simp_all
  have p1: "can_print k1" using f1 by simp
  obtain k2 where k2: "kprintf (''KERNEL IN [%p:%p:%x]'' @ [LF]) [Slot (phys_base L), Slot ?free, Slot (kernel_at L)] k1 = Inr k2"
    "printed k1 k2" by (rule message_prints[OF p1 m1])
  note f2 = printed_fields[OF k2(2)]
  have v2: "vm k2 = (vm k)\<lparr>lists := l\<rparr>" "sched_of k2 = sched_of k" "typed_kernel k2" "can_print k2"
    using f1 f2 K(2) by (simp_all add: typed_kernel_def)
  have F: "free_frames (vm k2) ?ps" "pg_base (page_list (lists (vm k2)) 0) = 0"
    unfolding v2(1) using region_free[OF k1(3,5), of "vm k"] k1(4) by simp_all
  have h2: "kmalloc_page (vm k2) = 0" using K(4) by (simp add: v2(1))
  obtain k3 v c gs where k3: "enter_paging (phys_base L) ?free (kernel_at L) k2 = Some (Inr k3)" "kmem_ok (hd ?fs) gs 6 k3" "24 \<le> length gs"
    "printed (set_cr3 (hd ?fs) (k2\<lparr>vm := v, io := (io k2)\<lparr>screen := c\<rparr>\<rparr>)) k3"
    by (rule enter_paging_ok[OF F region_pages_ok[OF B(3,4)] refl refl B(12,5-11) v2(4) h2])
  note f3 = printed_fields[OF k3(4)]
  have v3: "pcbs (sched_of k3) = Map.empty" "typed_kernel k3" "can_print k3" "time_slice (sched_of k3) = 0"
    using f3 v2 K(3,6) by (simp_all add: set_cr3_def set_sched_def typed_kernel_def)
  have m3: "NUL \<notin> set (''tarfs in [%p:%p]'' @ [LF])"
    "\<exists>out. render (''tarfs in [%p:%p]'' @ [LF]) [Slot (tar_from L), Slot (tar_to L)] = Some out" by simp_all
  obtain k4 where k4: "kprintf (''tarfs in [%p:%p]'' @ [LF]) [Slot (tar_from L), Slot (tar_to L)] k3 = Inr k4" "printed k3 k4"
    by (rule message_prints[OF v3(3) m3])
  note f4 = printed_fields[OF k4(2)]
  let ?k4 = "k4\<lparr>files := init_tarfs (tar_from L) (tar_to L) (files k4)\<rparr>"
  have p4: "can_print ?k4" using f4 by simp
  obtain idt1 k5 where idt: "install_handlers L idt ?k4 = Inr (idt1, k5)" "printed ?k4 k5"
    "gate_ok (idt1 ! 0x0e) (isr_pgflt L)" "gate_ok (idt1 ! 0x20) (isr_tmr L)" "gate_ok (idt1 ! 0x21) (isr_kbd L)"
    "gate_ok (idt1 ! 0x80) (isr_syscall L)" by (rule install_handlers_ok[OF p4 K(5)])
  note f5 = printed_fields[OF idt(2)]
  let ?k5 = "k5\<lparr>ports := ports k5 @ PIC_setup (mask1 L) (mask2 L)\<rparr>"
  let ?k6 = "set_sched (process_init (sched_of ?k5)) ?k5"
  have k6: "kmem_ok (hd ?fs) gs (0 + 6) ?k6" "prev_pid (sched_of ?k6) = 0" "processq (sched_of ?k6) = (replicate 100 0, 0, 0)"
    "pcbs (sched_of ?k6) = Map.empty" "typed_kernel ?k6" "time_slice (sched_of ?k6) = 0"
    using k3(2) f4 f5 v3 by (simp_all add: kmem_ok_def process_init_def typed_kernel_def set_sched_def)
  have raw: "length (pname (env_raw e a)) = 50 \<and> length (wd (env_raw e a)) = 50" for a
    using assms(3)[of a] by (simp add: pcb_typed_def)
  from init_makes[where raw = "env_raw e" and junk = "env_junk e" and idle_fn = "idle_at L" and thread_fn = "env_thread e",
      OF k6(1) k3(3) k6(2,3) raw] obtain rsp k' where k': "init (env_raw e) (env_junk e) (idle_at L) (env_thread e) ?k6 = Inr (rsp, k')"
    by blast
  have "start e L idt k = Some (Inr (rsp, idt1, k'))"
    by (simp only: start_def B(1) Option.bind.simps l0(1) prod.case k1(1) bindo_simps Let_def k2(1) k3(1) k4(1) idt(1) k')
  moreover have "booted_system e (active_pcb (sched_of k')) \<lparr>kern = k', parked = \<lambda>_. []\<rparr>"
    unfolding booted_system_def running_def using k6 k3(3) k'
    by (intro exI[of _ "hd ?fs"] exI[of _ gs] exI[of _ 0] exI[of _ ?k6] exI[of _ "idle_at L"] exI[of _ rsp]) simp
  ultimately show thesis using idt(3-6) by (rule that)
qed

section \<open>Properties\<close>

text \<open>C1: \<^verbatim>\<open>start\<close> boots the system on every memory map with one usable region that is large enough: it goes through the map,
  builds the list of free pages, enters the new page table, sets up the interrupt table so that the page fault, the timer, the
  keyboard and the system call lead to their handlers, and returns from \<^verbatim>\<open>init\<close> to the idle loop in a state from which the
  properties of all reachable states hold.\<close>

theorem start_boots:
  assumes "bootable L m base len" and "unstarted idt k" and "\<And>p. pcb_typed (env_raw e p)"
  shows "\<exists>rsp idt1 k'. start e L idt k = Some (Inr (rsp, idt1, k')) \<and>
    gate_ok (idt1 ! 0x0e) (isr_pgflt L) \<and> gate_ok (idt1 ! 0x20) (isr_tmr L) \<and> gate_ok (idt1 ! 0x21) (isr_kbd L) \<and>
    gate_ok (idt1 ! 0x80) (isr_syscall L) \<and>
    booted_system e (active_pcb (sched_of k')) \<lparr>kern = k', parked = \<lambda>_. []\<rparr> \<and>
    sys_reach e (active_pcb (sched_of k')) [] \<lparr>kern = k', parked = \<lambda>_. []\<rparr>"
proof -
  obtain rsp idt1 k' where s: "start e L idt k = Some (Inr (rsp, idt1, k'))"
    "booted_system e (active_pcb (sched_of k')) \<lparr>kern = k', parked = \<lambda>_. []\<rparr>"
    "gate_ok (idt1 ! 0x0e) (isr_pgflt L)" "gate_ok (idt1 ! 0x20) (isr_tmr L)" "gate_ok (idt1 ! 0x21) (isr_kbd L)"
    "gate_ok (idt1 ! 0x80) (isr_syscall L)" by (rule start_runs[OF assms])
  then show ?thesis using sys_reach.boot[OF s(2)] by blast
qed

text \<open>
  The example: a module before the memory map, whose first region starts at 0 and whose second one has 64 pages; the kernel
  is loaded at 2 MB.
\<close>

definition demo_loader :: loader where
  "demo_loader = \<lparr>modules = (\<lambda>i. [1, 0, 0x9001, 40, 0, 0, 0x9fc00, 0, 1, 0x300000, 0, 0x40000, 0, 1] ! unat i),
     phys_base = 0x200000, phys_free = 0x201000, kernel_at = 0xffffffff80200000, tar_from = 0, tar_to = 0,
     isr_dblflt = 0xffffffff80201000, isr_prtctn = 0xffffffff80201010, isr_pgflt = 0xffffffff80201020,
     isr_tmr = 0xffffffff80201030, isr_kbd = 0xffffffff80201040, isr_syscall = 0xffffffff80201050,
     mask1 = 0, mask2 = 0, old_pages = (\<lambda>_. \<lparr>pg_base = 0x55, pg_next = 0x55\<rparr>), idle_at = 0xffffffff80202000, idt_at = 0xffffffff80203000\<rparr>"

lemma demo_bootable: "bootable demo_loader 2 0x300000 0x40000"
proof -
  let ?w = "modules demo_loader"
  have m: "find_module ?w 0 = Some 2"
    by (subst find_module.simps, subst find_module.simps) (simp add: demo_loader_def)
  have u: "[0..<2] = [0, 1 :: nat]" by (simp add: upt_rec)
  have "map (smap_entry ?w 2) [0, 1] = [(0, 0x9fc00, 1), (0x300000, 0x40000, 1)]"
    by (simp add: smap_entry_def word_pair_def demo_loader_def Let_def)
  then have r: "regions ?w 2 0 = [(0x300000, 0x40000)]"
    by (simp add: regions_def u demo_loader_def)
  have n: "page_count 0x40000 = 64" "page_count 0x1410 = 2" by (simp_all add: page_count_def)
  have f: "filter (\<lambda>f. \<not> (0x200000 \<le> f \<and> f < 0x201410) \<and> \<not> (0xb7000 \<le> f \<and> f < (0xbb200 :: u64))) (region_pages 0x300000 0x40000) =
      region_pages 0x300000 0x40000"
  proof (rule filter_True, rule ballI)
    fix f assume "f \<in> set (region_pages 0x300000 0x40000)"
    then obtain i where i: "i < 64" "f = 0x300000 + of_nat (i * 4096)" by (auto simp: region_pages_def n)
    then have "unat f = 0x300000 + i * 4096" using unat_add_of_nat64[of "0x300000" "i * 4096"] by simp
    then show "\<not> (0x200000 \<le> f \<and> f < 0x201410) \<and> \<not> (0xb7000 \<le> f \<and> f < 0xbb200)"
      by (simp add: word_less_nat_alt word_le_nat_alt)
  qed
  have l: "length (region_pages 0x300000 0x40000) = 64" by (simp add: region_pages_def n)
  have e: "phys_free demo_loader + 16 * of_nat (Suc 64) = 0x201410" "phys_base demo_loader = 0x200000"
    "kernel_at demo_loader = 0xffffffff80200000" "(0x201410 - 0x200000 :: u64) = 0x1410" by (simp_all add: demo_loader_def)
  show ?thesis
    unfolding bootable_def Let_def n(1) e(1) unfolding e(2-4) n(2) f l
    using m r by (intro conjI) simp_all
qed

theorem start_boots_witness:
  "\<exists>rsp idt1 k'. start demo_env demo_loader (replicate 256 \<lparr>offset_low = 0, selector = 0, zero1 = 0, type_attr = 0, offset_mid = 0,
       offset_high = 0, zero2 = 0\<rparr>) before_init = Some (Inr (rsp, idt1, k')) \<and> gate_target (idt1 ! 0x80) = 0xffffffff80201050 \<and>
     sys_reach demo_env (active_pcb (sched_of k')) [] \<lparr>kern = k', parked = \<lambda>_. []\<rparr>"
proof -
  let ?idt = "replicate 256 \<lparr>offset_low = 0, selector = 0, zero1 = 0, type_attr = 0, offset_mid = 0, offset_high = 0, zero2 = 0\<rparr>"
  have "unstarted ?idt before_init"
    by (simp add: unstarted_def typed_kernel_def before_init_def process_init_def demo_kernel_def empty_stdin_def set_sched_def
        blank_console_ok boot_mm_def fork_sched_def two_blocks_def)
  from start_boots[OF demo_bootable this demo_raw] show ?thesis
    by (auto simp: gate_ok_def demo_loader_def)
qed

end
