(* ===== verification/Spec2Isabelle.thy ===== *)
theory Spec2Isabelle
  imports Shell User_Tools Boot
begin

text \<open>
  SBUOS, a small 64-bit kernel in C with a text console, a keyboard, a tar archive as its read-only file
  system, demand paging, fork with copy on write, and sixteen system calls, and a shell that runs on it. This development is a shallow
  embedding of the kernel under \<^verbatim>\<open>src/sys\<close>, of the C library under \<^verbatim>\<open>src/libc\<close>, and of the shell \<^verbatim>\<open>sbush\<close> and the small
  programs under \<^verbatim>\<open>src/bin\<close>.

  \<^bold>\<open>How the parts work together.\<close> \<^verbatim>\<open>start\<close> goes through the memory map of the boot loader: \<^verbatim>\<open>init_pages\<close>, \<^verbatim>\<open>make_pages\<close> and \<^verbatim>\<open>setup_paging\<close> build the list of free pages and the kernel's
  page table; \<^verbatim>\<open>init\<close> makes an idle process and the shell and starts the scheduler. From then on everything
  is an interrupt: the timer counts, rings alarms and preempts; the keyboard decodes a key, puts it into
  the ring of standard input and wakes the readers; a page fault maps a page or separates a shared one;
  the system call vector dispatches on the number in \<^verbatim>\<open>rax\<close>. A process that has to wait is marked and
  calls \<^verbatim>\<open>schedule\<close>, which takes the next one from a ring and switches the stack and \<^verbatim>\<open>cr3\<close>.

  \<^bold>\<open>Theories, in the order of the layers, and the files they model.\<close>
  \<^item> \<open>Prelude\<close>: machine words, the result type \<^typ>\<open>'a result\<close> (an error or a value), counting loops, and the
    locale of a queue, which the page lists, the run queue and the keyboard ring interpret.
  \<^item> \<open>Page_List\<close>: the lists of free and used pages of \<^verbatim>\<open>memory_helpers.c\<close>; a locale for a list that is linked
    through an array of entries.
  \<^item> \<open>Kstring\<close>: \<^verbatim>\<open>sysutil.c\<close>. Path normalisation is proved against splitting at the slashes and folding the parts.
  \<^item> \<open>Process\<close>: \<^verbatim>\<open>process_helpers.c\<close>, the ring of processes, the scheduler and the notifications. \<open>sched_ok s q\<close>
    says that the ring holds the list \<open>q\<close>; \<^verbatim>\<open>schedule\<close> is proved to be a rotation of it.
  \<^item> \<open>Console\<close>, \<open>Printf\<close>: \<^verbatim>\<open>unix_helpers.c\<close>, the screen as bytes of the video memory against a grid with a cursor.
  \<^item> \<open>Keyboard\<close>, \<open>Stdin\<close>, \<open>Timer\<close>: \<^verbatim>\<open>keyboard_helpers.c\<close>, \<^verbatim>\<open>stdin.c\<close>, \<^verbatim>\<open>timer_helpers.c\<close>.
  \<^item> \<open>Tarfs\<close>: \<^verbatim>\<open>tarfs.c\<close> and \<^verbatim>\<open>check_elf\<close>, on the bytes of the archive, against the list of its files.
  \<^item> \<open>Machine\<close>, \<open>Page_Table\<close>, \<open>Paging\<close>, \<open>Virtual_Memory\<close>, \<open>Page_Alloc\<close>, \<open>Copy_On_Write\<close>: physical memory as
    bytes, the translation of the processor with its four levels, and the paging code of
    \<^verbatim>\<open>memory_helpers.c\<close>, which edits its own table through the recursive entry 510. The proofs go through an
    abstract map from addresses to pages; the code for the running table and the one for physical
    addresses are proved equal.
  \<^item> \<open>Descriptors\<close>, \<open>Interrupts\<close>: \<^verbatim>\<open>idt.h\<close>, \<^verbatim>\<open>gdt.c\<close>, \<^verbatim>\<open>pic_helpers.h\<close>, and the record \<open>kernel\<close> of the state of the whole
    system, which all later theories work on.
  \<^item> \<open>Loader\<close>: \<^verbatim>\<open>exec.c\<close> and \<^verbatim>\<open>vma.c\<close>; a store to an unmapped address takes the page fault and is repeated.
  \<^item> \<open>Process_Create\<close>: the rest of \<^verbatim>\<open>process_helpers.c\<close>.
  \<^item> \<open>Syscall\<close>: \<^verbatim>\<open>systemcall.c\<close>. A handler that calls \<^verbatim>\<open>schedule\<close> ends there with a value of type \<open>kont\<close> that says
    where it is; \<open>resume\<close> is the rest of the handler.
  \<^item> \<open>User_String\<close>: \<^verbatim>\<open>strutil.c\<close>, the strings of the shell.
  \<^item> \<open>User_Lib\<close>, \<open>User_Printf\<close>: \<^verbatim>\<open>syscall.h\<close>, \<^verbatim>\<open>stdlib.c\<close> and \<^verbatim>\<open>printf.c\<close> of the library. A program is a tree of type \<open>prog\<close>: it is
    done, or it makes a system call and goes on with the answer. \<open>run\<close> answers the calls by \<open>do_system_call\<close>, until the
    program ends, fails, or makes a call that waits; \<open>prints\<close> says of a program that it writes a text and has a value.
  \<^item> \<open>User_Env\<close>, \<open>Shell\<close>: \<^verbatim>\<open>envutil.c\<close>, and \<^verbatim>\<open>ioutil.c\<close> and \<^verbatim>\<open>sbushell.c\<close>. The variables are a linked list whose strings are
    blocks of the heap; the theorems read it as a map from names to values.
  \<^item> \<open>User_Tools\<close>: \<^verbatim>\<open>crt1.c\<close> and \<^verbatim>\<open>hello\<close>, \<^verbatim>\<open>echo\<close>, \<^verbatim>\<open>cat\<close>, \<^verbatim>\<open>ls\<close>, \<^verbatim>\<open>ps\<close>, \<^verbatim>\<open>kill\<close> and \<^verbatim>\<open>sleep\<close>. The two loops whose length depends on a file or a
    listing have a bound on their rounds; for \<^verbatim>\<open>cat\<close> more rounds than the file has bytes are enough.
  \<^item> \<open>Frame\<close>: what each operation of the kernel can change at most, for all arguments. \<open>System\<close>: the handlers as the labelled steps of
    one transition system, with processes that are suspended inside of them. Its invariant holds in every state that
    system calls, interrupts and faults can reach in any order, as long as each event is \<open>allowed\<close>: the idle process is not
    killed, and a \<^verbatim>\<open>fork\<close> has room in the ring and new memory for the block. The properties that span the components are here.
  \<^item> \<open>Boot\<close>: \<^verbatim>\<open>start\<close> of \<^verbatim>\<open>main.c\<close>, which ends in a state from which the transition system starts.

  \<^bold>\<open>Conventions.\<close> A pointer to a \<^verbatim>\<open>pcb\<close> is its address, and \<open>pcbs\<close> maps addresses to blocks. An array is a list of
  its length; an access outside it is the error \<open>Out_Of_Bounds\<close>, an access through 0 is \<open>Null_Deref\<close>, an access to an
  unmapped page is \<open>Page_Fault\<close>, and \<^verbatim>\<open>while(1)\<close> after a message is \<open>Panic\<close>. The result \<open>None\<close> is a computation that
  does not return: \<^verbatim>\<open>schedule\<close> if no process can run, \<^verbatim>\<open>cleanup_path\<close> on some paths, the loops over an archive with a
  bad size. These are \<open>partial_function (option)\<close>; the kernel has no fuel. All other loops are total functions with
  a measure. Integers that wrap are words of their width, \<^verbatim>\<open>int\<close> indices that can become negative are \<open>int\<close>.

  \<^bold>\<open>Interrupts inside of handlers.\<close> \<^verbatim>\<open>idt.s\<close> does \<^verbatim>\<open>sti\<close> before the handler of a system call, and \<^verbatim>\<open>start\<close> before \<^verbatim>\<open>init\<close>. The
  transition system takes interrupts before and after a handler and around its calls of \<^verbatim>\<open>schedule\<close>, with the pieces of code between
  as atomic steps; \<^verbatim>\<open>init\<close> is atomic too. The code does not protect these pieces: \<open>interrupted_enqueue_loses\<close> proves
  that a timer interrupt inside of \<^verbatim>\<open>enqueue_process\<close> loses a process. The properties of the whole system therefore hold for
  runs in which interrupts keep to these points.

  \<^bold>\<open>Old bytes in page tables.\<close> \<^verbatim>\<open>map_page\<close> does not zero a new table of the last level (\<open>fresh_level1_not_zeroed\<close>). The properties of
  mapping say what becomes of the addresses under such a table (\<open>maps_exactly\<close>, \<open>stale_entry\<close>); loading a program assumes that the
  free pages hold zeros or that the tables exist.

  \<^bold>\<open>Parameters.\<close> The content of memory that nobody has written (new process blocks, and all of physical memory), the
  value of a missing argument, the addresses of \<^verbatim>\<open>_sys_idle\<close>, \<^verbatim>\<open>k_thread_kernel\<close> and \<^verbatim>\<open>fork_return_from_child\<close>, the scan
  code read from port \<^verbatim>\<open>0x60\<close>, and the stack pointer where the code reads it. For \<^verbatim>\<open>start\<close>, what the boot loader and the linker
  provide (the record \<open>loader\<close>). In \<open>System\<close>, which call a process makes next and with which arguments.

  \<^bold>\<open>What the lemmas show.\<close> Every component has the lemmas of its representation (\<open>ring_repr\<close>, \<open>typed\<close>,
  \<open>console_ok\<close>, \<open>fs_ok\<close>, \<open>tables_ok\<close>, \<open>user_ok\<close>, \<open>kmem_ok\<close>), the preservation of it by each operation, and the
  effect of each operation on what is represented. The properties are the theorems that are numbered C1, C2, and so on; many of
  them say where the code does less than it means to, and the hypotheses of the others are exactly the
  conditions under which it works.

  \<^bold>\<open>Not modelled.\<close> The assembly stubs (\<^verbatim>\<open>idt.s\<close>, \<^verbatim>\<open>gdt.s\<close>, \<^verbatim>\<open>memory_helpers.s\<close>, \<^verbatim>\<open>systemcall.s\<close>) except for the registers they pass on;
  \<^verbatim>\<open>boot\<close> of \<^verbatim>\<open>main.c\<close>, which changes the stack pointer and calls \<^verbatim>\<open>start\<close>; the functions that only print for debugging
  (\<^verbatim>\<open>log_argv\<close>, \<^verbatim>\<open>printdirent\<close>, \<^verbatim>\<open>_log_list\<close> and the like); and \<^verbatim>\<open>newfs.c\<close>, a program of the build host that stores two
  constants into a mapped file.
\<close>

end
